(* ===== verification/Foundation_Prelude.thy ===== *)
theory Foundation_Prelude
  imports Main "HOL-Library.Word"
begin

text \<open>
  Shared vocabulary of the development: \<open>size_t\<close> arithmetic with its wrap-around, opaque
  addresses, the linear scans the C code runs over caller-supplied arrays, and the ring
  (head, count, capacity) that the event queue, the buffer queue and the log ring all use.

  Conventions used by every theory:
  \<^item> \<open>size_t\<close> is 64 bits wide and is a \<open>nat\<close>; an addition or subtraction whose operands
    the code does not bound on the spot is written \<open>size_add\<close> / \<open>size_sub\<close>, which wrap.
  \<^item> \<open>uint32_t\<close> and \<open>uint64_t\<close> are \<open>32 word\<close> and \<open>64 word\<close>.
  \<^item> A pointer to a context struct that a function checks against NULL is an \<open>option\<close>
    (\<open>None\<close> is NULL); functions that write through it return the new contents.
  \<^item> A pointer that the code only stores, compares or passes on (payloads, handlers, user
    contexts) is an address of type \<open>ptr\<close>, and \<open>0\<close> is NULL, so that \<open>memset(.., 0, ..)\<close>
    clears it to NULL.
  \<^item> A pointer to a caller-supplied array is the list of its elements; \<open>[]\<close> is NULL (the
    code rejects a capacity of 0, so no accepted array is empty).
  \<^item> An output parameter is an \<open>option\<close> holding the old contents of the cell, and its new
    contents are part of the result.
\<close>

section \<open>Machine sizes and addresses\<close>

type_synonym ptr = nat
type_synonym u8 = "8 word"
type_synonym u32 = "32 word"
type_synonym u64 = "64 word"

definition size_max :: nat where
  "size_max = 2 ^ 64 - 1"

definition size_add :: "nat \<Rightarrow> nat \<Rightarrow> nat" where
  "size_add a b = (a + b) mod 2 ^ 64"

definition size_sub :: "nat \<Rightarrow> nat \<Rightarrow> nat" where
  "size_sub a b = (a + 2 ^ 64 - b) mod 2 ^ 64"

lemma size_add_exact [simp]: "a + b \<le> size_max \<Longrightarrow> size_add a b = a + b"
  by (simp add: size_add_def size_max_def)

lemma size_sub_exact [simp]: "b \<le> a \<Longrightarrow> a \<le> size_max \<Longrightarrow> size_sub a b = a - b"
proof -
  assume le: "b \<le> a" and "a \<le> size_max"
  then have "a - b < 2 ^ 64" by (simp add: size_max_def)
  moreover from le have "a + 2 ^ 64 - b = 2 ^ 64 + (a - b)" by (metis Nat.add_diff_assoc add.commute)
  ultimately show ?thesis by (simp only: size_sub_def mod_add_self1 mod_less)
qed

text \<open>\<open>UINT64_MAX\<close> and \<open>UINT32_MAX\<close> are the all-ones words.\<close>

definition uint64_max :: u64 where
  "uint64_max = - 1"

definition uint32_max :: u32 where
  "uint32_max = - 1"

lemma unat_uint64_max [simp]: "unat uint64_max = 2 ^ 64 - 1"
  by (simp add: uint64_max_def unsigned_minus_1_eq_mask mask_eq_exp_minus_1)

lemma unat_uint32_max [simp]: "unat uint32_max = 2 ^ 32 - 1"
  by (simp add: uint32_max_def unsigned_minus_1_eq_mask mask_eq_exp_minus_1)

lemma unat_u64_less: "unat (x :: u64) < 2 ^ 64"
proof -
  have "unat x < 2 ^ LENGTH(64)" by (rule unsigned_less)
  then show ?thesis by simp
qed

lemma unat_u32_less: "unat (x :: u32) < 2 ^ 32"
proof -
  have "unat x < 2 ^ LENGTH(32)" by (rule unsigned_less)
  then show ?thesis by simp
qed

lemma le_uint64_max [simp]: "x \<le> uint64_max"
  by (simp add: uint64_max_def)

lemma unat_uint64_max_minus: "unat (uint64_max - x) = 2 ^ 64 - 1 - unat x"
  using le_uint64_max [of x] by (simp add: unat_sub)

text \<open>A 64-bit counter that stops at its maximum: the \<open>increment_saturated\<close> helper that
  \<open>utility_event_metrics.c\<close> and \<open>utility_event_executor.c\<close> both define.\<close>

definition increment_saturated :: "u64 \<Rightarrow> u64" where
  "increment_saturated counter = (if counter < uint64_max then counter + 1 else counter)"

lemma unat_increment_saturated:
  "unat (increment_saturated c) = min (unat c + 1) (2 ^ 64 - 1)"
proof (cases "c < uint64_max")
  case True
  then have "unat c < 2 ^ 64 - 1"
    by (metis unat_mono unat_uint64_max)
  then have "unat (c + 1) = unat c + 1"
    by (simp add: unat_word_ariths)
  with True \<open>unat c < 2 ^ 64 - 1\<close> show ?thesis
    by (simp add: increment_saturated_def)
next
  case False
  then have "unat c = 2 ^ 64 - 1"
    by (metis unat_uint64_max uint64_max_def word_order.not_eq_extremum)
  with False show ?thesis by (simp add: increment_saturated_def)
qed

lemma increment_saturated_mono: "c \<le> increment_saturated c"
proof -
  have "unat c \<le> 2 ^ 64 - 1" by (metis le_uint64_max unat_uint64_max word_le_nat_alt)
  then show ?thesis by (simp add: word_le_nat_alt unat_increment_saturated)
qed

section \<open>Linear scans\<close>

text \<open>
  \<open>for (i = 0; i < n; i++) if (P(a[i])) return i;\<close>: the index of the first element that
  satisfies \<open>P\<close>.
\<close>

fun first_index :: "('a \<Rightarrow> bool) \<Rightarrow> 'a list \<Rightarrow> nat option" where
  "first_index P [] = None"
| "first_index P (x # xs) = (if P x then Some 0 else map_option Suc (first_index P xs))"

lemma first_index_None_iff: "first_index P xs = None \<longleftrightarrow> (\<forall>x\<in>set xs. \<not> P x)"
  by (induction xs) auto

lemma first_index_SomeD:
  "first_index P xs = Some i \<Longrightarrow> i < length xs \<and> P (xs ! i) \<and> (\<forall>j<i. \<not> P (xs ! j))"
proof (induction xs arbitrary: i)
  case Nil
  then show ?case by simp
next
  case (Cons x xs)
  show ?case
  proof (cases "P x")
    case True
    with Cons.prems show ?thesis by simp
  next
    case False
    with Cons.prems obtain k where k: "first_index P xs = Some k" "i = Suc k" by auto
    with Cons.IH False show ?thesis by (auto simp: less_Suc_eq_0_disj)
  qed
qed

lemma first_index_Some_iff:
  "first_index P xs = Some i \<longleftrightarrow> i < length xs \<and> P (xs ! i) \<and> (\<forall>j<i. \<not> P (xs ! j))"
proof
  assume "first_index P xs = Some i"
  then show "i < length xs \<and> P (xs ! i) \<and> (\<forall>j<i. \<not> P (xs ! j))"
    by (rule first_index_SomeD)
next
  assume r: "i < length xs \<and> P (xs ! i) \<and> (\<forall>j<i. \<not> P (xs ! j))"
  then have "xs ! i \<in> set xs" and "P (xs ! i)" by simp_all
  then have "first_index P xs \<noteq> None" by (auto simp: first_index_None_iff)
  then obtain k where k: "first_index P xs = Some k" by blast
  from first_index_SomeD [OF k] r have "k = i"
    by (metis linorder_neqE_nat)
  with k show "first_index P xs = Some i" by simp
qed

text \<open>How many slots of an array are in use, and what updating one slot does to that number.\<close>

definition count_slots :: "('a \<Rightarrow> bool) \<Rightarrow> 'a list \<Rightarrow> nat" where
  "count_slots P xs = length (filter P xs)"

lemma count_slots_le [simp]: "count_slots P xs \<le> length xs"
  by (simp add: count_slots_def)

lemma count_slots_replicate [simp]: "\<not> P x \<Longrightarrow> count_slots P (replicate n x) = 0"
  by (simp add: count_slots_def)

lemma count_slots_update:
  "i < length xs \<Longrightarrow>
    count_slots P (xs[i := y]) + (if P (xs ! i) then 1 else 0)
      = count_slots P xs + (if P y then 1 else 0)"
proof (induction xs arbitrary: i)
  case Nil
  then show ?case by simp
next
  case (Cons x xs)
  then show ?case
  proof (cases i)
    case 0
    then show ?thesis by (simp add: count_slots_def)
  next
    case (Suc k)
    with Cons.prems have "k < length xs" by simp
    from Cons.IH [OF this] Suc show ?thesis by (simp add: count_slots_def split: if_splits)
  qed
qed

lemma count_slots_fill:
  "i < length xs \<Longrightarrow> \<not> P (xs ! i) \<Longrightarrow> P y \<Longrightarrow> count_slots P (xs[i := y]) = Suc (count_slots P xs)"
  using count_slots_update [of i xs P y] by simp

lemma count_slots_keep:
  "i < length xs \<Longrightarrow> P (xs ! i) = P y \<Longrightarrow> count_slots P (xs[i := y]) = count_slots P xs"
  using count_slots_update [of i xs P y] by (simp split: if_splits)

lemma count_slots_drop:
  "i < length xs \<Longrightarrow> P (xs ! i) \<Longrightarrow> \<not> P y \<Longrightarrow> count_slots P (xs[i := y]) = count_slots P xs - 1"
  using count_slots_update [of i xs P y] by simp

lemma count_slots_pos: "i < length xs \<Longrightarrow> P (xs ! i) \<Longrightarrow> 0 < count_slots P xs"
  by (auto simp: count_slots_def filter_empty_conv intro!: nth_mem)

lemma count_slots_lt: "i < length xs \<Longrightarrow> \<not> P (xs ! i) \<Longrightarrow> count_slots P xs < length xs"
  unfolding count_slots_def by (rule length_filter_less [OF nth_mem])

text \<open>The used slots, in order, around one slot that is filled or emptied.\<close>

lemma filter_update:
  "i < length xs \<Longrightarrow>
    filter P (xs[i := y])
      = filter P (take i xs) @ (if P y then [y] else []) @ filter P (drop (Suc i) xs)"
  by (simp add: upd_conv_take_nth_drop)

lemma filter_split:
  "i < length xs \<Longrightarrow>
    filter P xs
      = filter P (take i xs) @ (if P (xs ! i) then [xs ! i] else []) @ filter P (drop (Suc i) xs)"
  by (metis filter_update list_update_id)

lemma replicate_two: "replicate 2 x = [x, x]"
  by (simp add: numeral_2_eq_2)

section \<open>Rings\<close>

text \<open>
  The elements a ring of storage \<open>xs\<close> holds, oldest first: \<open>n\<close> of them from index \<open>h\<close> on,
  wrapping at the end of the array.
\<close>

definition ring_list :: "'a list \<Rightarrow> nat \<Rightarrow> nat \<Rightarrow> 'a list" where
  "ring_list xs h n = map (\<lambda>i. xs ! ((h + i) mod length xs)) [0..<n]"

lemma ring_list_empty [simp]: "ring_list xs h 0 = []"
  by (simp add: ring_list_def)

lemma length_ring_list [simp]: "length (ring_list xs h n) = n"
  by (simp add: ring_list_def)

lemma ring_list_nth: "i < n \<Longrightarrow> ring_list xs h n ! i = xs ! ((h + i) mod length xs)"
  by (simp add: ring_list_def)

lemma mod_add_inj:
  assumes eq: "(h + i) mod l = (h + j) mod l" and "i < l" and "j < (l :: nat)"
  shows "i = j"
proof (rule ccontr)
  assume "i \<noteq> j"
  then consider "i < j" | "j < i" by arith
  then show False
  proof cases
    case 1
    then have "l dvd (h + j) - (h + i)" using eq mod_eq_dvd_iff_nat [of "h + i" "h + j" l] by simp
    with 1 \<open>j < l\<close> show False by (auto dest: dvd_imp_le)
  next
    case 2
    then have "l dvd (h + i) - (h + j)" using eq mod_eq_dvd_iff_nat [of "h + j" "h + i" l] by simp
    with 2 \<open>i < l\<close> show False by (auto dest: dvd_imp_le)
  qed
qed

text \<open>The next index of a ring, and the three ring operations on the list it stands for.\<close>

lemma ring_step: "0 < l \<Longrightarrow> ((h + 1) mod l + i) mod l = (h + Suc i) mod (l :: nat)"
  by (simp add: mod_add_left_eq)

lemma ring_list_push:
  assumes "n < length xs"
  shows "ring_list (xs[(h + n) mod length xs := x]) h (Suc n) = ring_list xs h n @ [x]"
proof -
  have "(h + n) mod length xs \<noteq> (h + i) mod length xs" if "i < n" for i
    using mod_add_inj [of h n "length xs" i] that assms by auto
  then have "ring_list (xs[(h + n) mod length xs := x]) h n = ring_list xs h n"
    unfolding ring_list_def length_list_update by (intro map_cong) simp_all
  moreover have "xs[(h + n) mod length xs := x] ! ((h + n) mod length xs) = x"
    using assms by (intro nth_list_update_eq mod_less_divisor) arith
  ultimately show ?thesis by (simp add: ring_list_def)
qed

lemma ring_list_pop:
  assumes "0 < n" "h < length xs"
  shows "ring_list xs h n = xs ! h # ring_list xs ((h + 1) mod length xs) (n - 1)"
proof -
  obtain m where n: "n = Suc m" using assms(1) by (cases n) auto
  have "0 < length xs" using assms(2) by arith
  have "[0..<Suc m] = 0 # map Suc [0..<m]" by (simp add: upt_conv_Cons map_Suc_upt)
  then show ?thesis
    using assms(2) \<open>0 < length xs\<close> unfolding n ring_list_def
    by (simp only: diff_Suc_1 list.map map_map comp_def ring_step) simp
qed

lemma ring_list_overwrite:
  assumes "h < length xs"
  shows "ring_list (xs[h := x]) ((h + 1) mod length xs) (length xs)
    = tl (ring_list xs h (length xs)) @ [x]"
proof -
  let ?n = "length xs" and ?h = "(h + 1) mod length xs"
  have pos: "0 < ?n" using assms by arith
  have tail: "ring_list xs ?h (?n - 1) = tl (ring_list xs h ?n)"
    using ring_list_pop [OF pos assms] by simp
  have "(?h + (?n - 1)) mod ?n = (h + Suc (?n - 1)) mod ?n" by (rule ring_step [OF pos])
  then have "(?h + (?n - 1)) mod ?n = h" using assms pos by simp
  then have "ring_list (xs[h := x]) ?h (Suc (?n - 1)) = ring_list xs ?h (?n - 1) @ [x]"
    using ring_list_push [of "?n - 1" xs ?h x] pos by simp
  with tail pos show ?thesis by simp
qed

end
