(* ===== verification/Event_Types.thy ===== *)
theory Event_Types
  imports Foundation_Prelude
begin

text \<open>
  The event descriptor and the result codes every part of the event foundation shares
  (\<open>utility_event_types.h\<close>, \<open>utility_event_result.h\<close>). The descriptor is copied by value;
  its payload pointer is an address nobody here dereferences.
\<close>

datatype ut_event_result =
    UT_EVENT_OK
  | UT_EVENT_INVALID_ARGUMENT
  | UT_EVENT_EMPTY
  | UT_EVENT_FULL
  | UT_EVENT_NOT_FOUND
  | UT_EVENT_ALREADY_EXISTS
  | UT_EVENT_BUSY

record ut_event =
  ev_id :: u32
  ev_source :: u32
  ev_payload :: ptr
  ev_payload_size :: nat

definition UT_EVENT_ID_ANY :: u32 where
  "UT_EVENT_ID_ANY = uint32_max"

text \<open>The descriptor \<open>memset\<close> to zero.\<close>

definition zero_event :: ut_event where
  "zero_event = \<lparr>ev_id = 0, ev_source = 0, ev_payload = 0, ev_payload_size = 0\<rparr>"

end
