(* ===== verification/Bounded_Fifo.thy ===== *)
theory Bounded_Fifo
  imports Foundation_Prelude
begin

text \<open>
  The contract a fixed-capacity FIFO offers to its clients, as a locale: the event queue
  (\<open>utility_event_queue.c\<close>) and the owning buffer queue (\<open>utility_event_buffer.c\<close>) are rings that
  a client uses through "put, or report full" and "take, or report empty". The client-side facts (runs
  refine a bounded list, nothing is lost or reordered) are proved here once.
\<close>

datatype 'a fifo_op = Enq 'a | Deq

datatype 'a fifo_obs = Accepted | Rejected | Got 'a | Nothing

text \<open>The abstract machine: a list bounded by \<open>cap\<close>.\<close>

fun spec_step :: "nat \<Rightarrow> 'a list \<Rightarrow> 'a fifo_op \<Rightarrow> 'a fifo_obs \<times> 'a list" where
  "spec_step cap xs (Enq x) =
     (if length xs < cap then (Accepted, xs @ [x]) else (Rejected, xs))"
| "spec_step cap [] Deq = (Nothing, [])"
| "spec_step cap (x # xs) Deq = (Got x, xs)"

fun spec_run :: "nat \<Rightarrow> 'a list \<Rightarrow> 'a fifo_op list \<Rightarrow> 'a fifo_obs list \<times> 'a list" where
  "spec_run cap xs [] = ([], xs)"
| "spec_run cap xs (c # cs) =
     (let (b, ys) = spec_step cap xs c; (bs, zs) = spec_run cap ys cs in (b # bs, zs))"

text \<open>The same run over an implementation given by its two operations.\<close>

fun fifo_step :: "('q \<Rightarrow> 'a \<Rightarrow> 'q option) \<Rightarrow> ('q \<Rightarrow> ('a \<times> 'q) option) \<Rightarrow> 'q \<Rightarrow> 'a fifo_op
    \<Rightarrow> 'a fifo_obs \<times> 'q" where
  "fifo_step enq deq q (Enq x) =
     (case enq q x of None \<Rightarrow> (Rejected, q) | Some q' \<Rightarrow> (Accepted, q'))"
| "fifo_step enq deq q Deq =
     (case deq q of None \<Rightarrow> (Nothing, q) | Some (x, q') \<Rightarrow> (Got x, q'))"

fun fifo_run :: "('q \<Rightarrow> 'a \<Rightarrow> 'q option) \<Rightarrow> ('q \<Rightarrow> ('a \<times> 'q) option) \<Rightarrow> 'q \<Rightarrow> 'a fifo_op list
    \<Rightarrow> 'a fifo_obs list \<times> 'q" where
  "fifo_run enq deq q [] = ([], q)"
| "fifo_run enq deq q (c # cs) =
     (let (b, q') = fifo_step enq deq q c; (bs, q'') = fifo_run enq deq q' cs in (b # bs, q''))"

text \<open>What a run took in and what it handed out, in order.\<close>

fun taken_in :: "'a fifo_op list \<Rightarrow> 'a fifo_obs list \<Rightarrow> 'a list" where
  "taken_in (Enq x # cs) (Accepted # bs) = x # taken_in cs bs"
| "taken_in (_ # cs) (_ # bs) = taken_in cs bs"
| "taken_in _ _ = []"

fun handed_out :: "'a fifo_obs list \<Rightarrow> 'a list" where
  "handed_out [] = []"
| "handed_out (Got x # bs) = x # handed_out bs"
| "handed_out (_ # bs) = handed_out bs"

lemma spec_step_bound: "length xs \<le> cap \<Longrightarrow> length (snd (spec_step cap xs c)) \<le> cap"
  by (cases "(cap, xs, c)" rule: spec_step.cases) auto

lemma spec_run_conserves:
  "spec_run cap xs cs = (bs, ys) \<Longrightarrow> xs @ taken_in cs bs = handed_out bs @ ys"
proof (induction cs arbitrary: xs bs)
  case Nil
  then show ?case by simp
next
  case (Cons c cs)
  obtain b zs where st: "spec_step cap xs c = (b, zs)" by (cases "spec_step cap xs c")
  obtain bs' where r: "spec_run cap zs cs = (bs', ys)" and bs: "bs = b # bs'"
    using Cons.prems st by (auto split: prod.splits)
  have IH: "zs @ taken_in cs bs' = handed_out bs' @ ys" by (rule Cons.IH [OF r])
  show ?case
    using st IH bs by (cases "(cap, xs, c)" rule: spec_step.cases) (auto split: if_splits)
qed

locale bounded_fifo =
  fixes inv :: "'q \<Rightarrow> bool"
    and cap :: "'q \<Rightarrow> nat"
    and items :: "'q \<Rightarrow> 'a list"
    and enq :: "'q \<Rightarrow> 'a \<Rightarrow> 'q option"
    and deq :: "'q \<Rightarrow> ('a \<times> 'q) option"
  assumes bound: "inv q \<Longrightarrow> length (items q) \<le> cap q"
    and enq_room: "inv q \<Longrightarrow> length (items q) < cap q \<Longrightarrow>
      \<exists>q'. enq q x = Some q' \<and> inv q' \<and> cap q' = cap q \<and> items q' = items q @ [x]"
    and enq_full: "inv q \<Longrightarrow> length (items q) = cap q \<Longrightarrow> enq q x = None"
    and deq_some: "inv q \<Longrightarrow> items q = x # xs \<Longrightarrow>
      \<exists>q'. deq q = Some (x, q') \<and> inv q' \<and> cap q' = cap q \<and> items q' = xs"
    and deq_none: "inv q \<Longrightarrow> items q = [] \<Longrightarrow> deq q = None"
begin

lemma step_refines:
  assumes "inv q" and st: "fifo_step enq deq q c = (b, q')"
  shows "inv q' \<and> cap q' = cap q \<and> spec_step (cap q) (items q) c = (b, items q')"
proof (cases c)
  case (Enq x)
  show ?thesis
  proof (cases "length (items q) < cap q")
    case True
    from enq_room [OF \<open>inv q\<close> True] obtain r where
      "enq q x = Some r \<and> inv r \<and> cap r = cap q \<and> items r = items q @ [x]" by blast
    with Enq st True show ?thesis by auto
  next
    case False
    with bound [OF \<open>inv q\<close>] have "enq q x = None" by (intro enq_full \<open>inv q\<close>) simp
    with Enq st False \<open>inv q\<close> show ?thesis by auto
  qed
next
  case Deq
  show ?thesis
  proof (cases "items q")
    case Nil
    with Deq st \<open>inv q\<close> deq_none [OF \<open>inv q\<close>] show ?thesis by auto
  next
    case (Cons x xs)
    from deq_some [OF \<open>inv q\<close> Cons] Deq st Cons show ?thesis by auto
  qed
qed

lemma run_refines:
  "inv q \<Longrightarrow> fifo_run enq deq q cs = (bs, q') \<Longrightarrow>
    inv q' \<and> cap q' = cap q \<and> spec_run (cap q) (items q) cs = (bs, items q')"
proof (induction cs arbitrary: q bs)
  case Nil
  then show ?case by simp
next
  case (Cons c cs)
  obtain b r where st: "fifo_step enq deq q c = (b, r)" by (cases "fifo_step enq deq q c")
  obtain bs' where run: "fifo_run enq deq r cs = (bs', q')" and bs: "bs = b # bs'"
    using Cons.prems st by (auto split: prod.splits)
  note s = step_refines [OF \<open>inv q\<close> st]
  with Cons.IH [OF _ run] have "inv q' \<and> cap q' = cap r \<and> spec_run (cap r) (items r) cs = (bs', items q')"
    by blast
  with s bs show ?case by simp
qed

text \<open>No element is lost, duplicated or reordered.\<close>

lemma run_conserves:
  "inv q \<Longrightarrow> fifo_run enq deq q cs = (bs, q') \<Longrightarrow> items q @ taken_in cs bs = handed_out bs @ items q'"
  using run_refines spec_run_conserves by blast

end

end
