(* ===== verification/Event_Queue.thy ===== *)
theory Event_Queue
  imports Event_Types Bounded_Fifo
begin

text \<open>
  The fixed-capacity FIFO of event descriptors (\<open>utility_event_queue.c\<close>). Each operation is
  the C function on a possibly NULL context; \<open>queue_wf\<close> is what initialisation establishes
  and every operation keeps, and under it the ring behaves as a list bounded by its capacity.
\<close>

record ut_event_queue =
  q_storage :: "ut_event list"
  q_capacity :: nat
  q_head :: nat
  q_tail :: nat
  q_count :: nat

section \<open>Operations\<close>

definition queue_is_valid :: "ut_event_queue option \<Rightarrow> bool" where
  "queue_is_valid queue =
     (case queue of
        None \<Rightarrow> False
      | Some q \<Rightarrow> q_storage q \<noteq> [] \<and> 0 < q_capacity q \<and> q_head q < q_capacity q \<and>
          q_tail q < q_capacity q \<and> q_count q \<le> q_capacity q)"

definition ut_event_queue_init ::
    "ut_event_queue option \<Rightarrow> ut_event list \<Rightarrow> nat \<Rightarrow> ut_event_result \<times> ut_event_queue option" where
  "ut_event_queue_init queue storage capacity =
     (if queue = None \<or> storage = [] \<or> capacity = 0 then (UT_EVENT_INVALID_ARGUMENT, queue)
      else (UT_EVENT_OK,
            Some \<lparr>q_storage = storage, q_capacity = capacity, q_head = 0, q_tail = 0, q_count = 0\<rparr>))"

definition ut_event_queue_push ::
    "ut_event_queue option \<Rightarrow> ut_event option \<Rightarrow> ut_event_result \<times> ut_event_queue option" where
  "ut_event_queue_push queue event =
     (if \<not> queue_is_valid queue \<or> event = None then (UT_EVENT_INVALID_ARGUMENT, queue)
      else let q = the queue in
        if q_count q = q_capacity q then (UT_EVENT_FULL, queue)
        else (UT_EVENT_OK,
              Some (q\<lparr>q_storage := (q_storage q)[q_tail q := the event],
                      q_tail := size_add (q_tail q) 1 mod q_capacity q,
                      q_count := size_add (q_count q) 1\<rparr>)))"

text \<open>Taking an event returns the result code, the queue and the contents of \<open>*out_event\<close>.\<close>

definition ut_event_queue_pop ::
    "ut_event_queue option \<Rightarrow> ut_event option \<Rightarrow>
     ut_event_result \<times> ut_event_queue option \<times> ut_event option" where
  "ut_event_queue_pop queue out_event =
     (if \<not> queue_is_valid queue \<or> out_event = None
      then (UT_EVENT_INVALID_ARGUMENT, queue, out_event)
      else let q = the queue in
        if q_count q = 0 then (UT_EVENT_EMPTY, queue, out_event)
        else (UT_EVENT_OK,
              Some (q\<lparr>q_head := size_add (q_head q) 1 mod q_capacity q,
                      q_count := size_sub (q_count q) 1\<rparr>),
              Some (q_storage q ! q_head q)))"

definition ut_event_queue_peek ::
    "ut_event_queue option \<Rightarrow> ut_event option \<Rightarrow> ut_event_result \<times> ut_event option" where
  "ut_event_queue_peek queue out_event =
     (if \<not> queue_is_valid queue \<or> out_event = None then (UT_EVENT_INVALID_ARGUMENT, out_event)
      else let q = the queue in
        if q_count q = 0 then (UT_EVENT_EMPTY, out_event)
        else (UT_EVENT_OK, Some (q_storage q ! q_head q)))"

definition ut_event_queue_clear ::
    "ut_event_queue option \<Rightarrow> ut_event_result \<times> ut_event_queue option" where
  "ut_event_queue_clear queue =
     (if \<not> queue_is_valid queue then (UT_EVENT_INVALID_ARGUMENT, queue)
      else (UT_EVENT_OK, Some ((the queue)\<lparr>q_head := 0, q_tail := 0, q_count := 0\<rparr>)))"

definition ut_event_queue_count :: "ut_event_queue option \<Rightarrow> nat" where
  "ut_event_queue_count queue = (if queue_is_valid queue then q_count (the queue) else 0)"

definition ut_event_queue_capacity :: "ut_event_queue option \<Rightarrow> nat" where
  "ut_event_queue_capacity queue = (if queue_is_valid queue then q_capacity (the queue) else 0)"

section \<open>The invariant and the list the ring stands for\<close>

definition queue_wf :: "ut_event_queue \<Rightarrow> bool" where
  "queue_wf q \<longleftrightarrow> 0 < q_capacity q \<and> q_capacity q \<le> size_max \<and>
     length (q_storage q) = q_capacity q \<and> q_head q < q_capacity q \<and> q_count q \<le> q_capacity q \<and>
     q_tail q = (q_head q + q_count q) mod q_capacity q"

definition queue_items :: "ut_event_queue \<Rightarrow> ut_event list" where
  "queue_items q = ring_list (q_storage q) (q_head q) (q_count q)"

lemma length_queue_items [simp]: "length (queue_items q) = q_count q"
  by (simp add: queue_items_def)

lemma queue_items_Nil_iff: "queue_items q = [] \<longleftrightarrow> q_count q = 0"
  by (metis length_0_conv length_queue_items)

lemma queue_wf_valid [simp]: "queue_wf q \<Longrightarrow> queue_is_valid (Some q)"
  by (auto simp: queue_wf_def queue_is_valid_def)

lemma queue_is_valid_None [simp]: "\<not> queue_is_valid None"
  by (simp add: queue_is_valid_def)

lemma init_wf:
  "ut_event_queue_init (Some q) storage (length storage) = (UT_EVENT_OK, Some q') \<Longrightarrow>
    length storage \<le> size_max \<Longrightarrow>
    queue_wf q' \<and> queue_items q' = [] \<and> q_capacity q' = length storage"
  by (auto simp: ut_event_queue_init_def queue_wf_def queue_items_def split: if_splits)

lemma push_full:
  "queue_wf q \<Longrightarrow> q_count q = q_capacity q \<Longrightarrow>
    ut_event_queue_push (Some q) (Some e) = (UT_EVENT_FULL, Some q)"
  by (simp add: ut_event_queue_push_def)

lemma push_room:
  assumes wf: "queue_wf q" and room: "q_count q < q_capacity q"
  shows "\<exists>q'. ut_event_queue_push (Some q) (Some e) = (UT_EVENT_OK, Some q') \<and> queue_wf q' \<and>
    q_capacity q' = q_capacity q \<and> queue_items q' = queue_items q @ [e]"
proof -
  let ?q' = "q\<lparr>q_storage := (q_storage q)[q_tail q := e],
               q_tail := size_add (q_tail q) 1 mod q_capacity q, q_count := size_add (q_count q) 1\<rparr>"
  have tail: "q_tail q = (q_head q + q_count q) mod q_capacity q" and cap: "0 < q_capacity q"
    and len: "length (q_storage q) = q_capacity q" and max: "q_capacity q \<le> size_max"
    using wf by (auto simp: queue_wf_def)
  then have "q_tail q < q_capacity q" by simp
  with room max have sizes: "size_add (q_tail q) 1 = q_tail q + 1" "size_add (q_count q) 1 = Suc (q_count q)"
    by simp_all
  have "queue_wf ?q'"
    using wf room tail sizes by (auto simp: queue_wf_def mod_Suc_eq)
  moreover have "queue_items ?q' = queue_items q @ [e]"
    using ring_list_push [of "q_count q" "q_storage q" "q_head q" e] room len tail sizes
    by (simp add: queue_items_def)
  ultimately show ?thesis
    using wf room by (simp add: ut_event_queue_push_def)
qed

lemma pop_empty:
  "queue_wf q \<Longrightarrow> q_count q = 0 \<Longrightarrow>
    ut_event_queue_pop (Some q) (Some o1) = (UT_EVENT_EMPTY, Some q, Some o1)"
  by (simp add: ut_event_queue_pop_def)

lemma pop_some:
  assumes wf: "queue_wf q" and it: "queue_items q = e # es"
  shows "\<exists>q'. ut_event_queue_pop (Some q) (Some o1) = (UT_EVENT_OK, Some q', Some e) \<and> queue_wf q' \<and>
    q_capacity q' = q_capacity q \<and> queue_items q' = es"
proof -
  let ?q' = "q\<lparr>q_head := size_add (q_head q) 1 mod q_capacity q, q_count := size_sub (q_count q) 1\<rparr>"
  have cnt: "0 < q_count q" using it by (metis length_greater_0_conv length_queue_items list.discI)
  have cap: "0 < q_capacity q" and head: "q_head q < q_capacity q" and le: "q_count q \<le> q_capacity q"
    and len: "length (q_storage q) = q_capacity q" and max: "q_capacity q \<le> size_max"
    and tail: "q_tail q = (q_head q + q_count q) mod q_capacity q"
    using wf by (auto simp: queue_wf_def)
  then have sizes: "size_add (q_head q) 1 = q_head q + 1" "size_sub (q_count q) 1 = q_count q - 1"
    using cnt by simp_all
  have "((q_head q + 1) mod q_capacity q + (q_count q - 1)) mod q_capacity q = q_tail q"
    using ring_step [OF cap, of "q_head q" "q_count q - 1"] cnt tail by simp
  moreover have "q_count q - 1 \<le> q_capacity q" using le by arith
  ultimately have "queue_wf ?q'" using wf cap cnt sizes by (simp add: queue_wf_def)
  moreover have "queue_items q = q_storage q ! q_head q # queue_items ?q'"
    using ring_list_pop [OF cnt, of "q_head q" "q_storage q"] head len sizes
    by (simp add: queue_items_def)
  ultimately show ?thesis
    using wf cnt it by (simp add: ut_event_queue_pop_def)
qed

section \<open>The queue as a bounded FIFO\<close>

text \<open>What a caller sees of a push or a pop: the new queue, or nothing where it was refused.\<close>

definition queue_enq :: "ut_event_queue \<Rightarrow> ut_event \<Rightarrow> ut_event_queue option" where
  "queue_enq q e = (case ut_event_queue_push (Some q) (Some e) of
      (UT_EVENT_OK, r) \<Rightarrow> r | _ \<Rightarrow> None)"

definition queue_deq :: "ut_event_queue \<Rightarrow> (ut_event \<times> ut_event_queue) option" where
  "queue_deq q = (case ut_event_queue_pop (Some q) (Some zero_event) of
      (UT_EVENT_OK, Some r, Some e) \<Rightarrow> Some (e, r) | _ \<Rightarrow> None)"

interpretation eq: bounded_fifo queue_wf q_capacity queue_items queue_enq queue_deq
proof unfold_locales
  fix q e assume "queue_wf q" and "length (queue_items q) < q_capacity q"
  then have "\<exists>q'. ut_event_queue_push (Some q) (Some e) = (UT_EVENT_OK, Some q') \<and> queue_wf q' \<and>
      q_capacity q' = q_capacity q \<and> queue_items q' = queue_items q @ [e]"
    by (intro push_room) simp_all
  then show "\<exists>q'. queue_enq q e = Some q' \<and> queue_wf q' \<and> q_capacity q' = q_capacity q \<and>
      queue_items q' = queue_items q @ [e]"
    by (auto simp: queue_enq_def)
next
  fix q e es assume "queue_wf q" and "queue_items q = e # es"
  from pop_some [OF this, of zero_event] show "\<exists>q'. queue_deq q = Some (e, q') \<and> queue_wf q' \<and>
      q_capacity q' = q_capacity q \<and> queue_items q' = es"
    by (auto simp: queue_deq_def)
qed (auto simp: queue_wf_def queue_enq_def queue_deq_def queue_items_Nil_iff push_full pop_empty)

section \<open>Whole runs of the API\<close>

text \<open>
  A client program is a list of calls on one queue; the observation of a call is its result
  code together with the event or the count it hands out.
\<close>

datatype queue_call = Push ut_event | Pop | Peek | Clear | Count | Capacity

datatype queue_obs =
    Result ut_event_result
  | Event ut_event_result ut_event
  | Size nat

fun queue_step :: "ut_event_queue option \<Rightarrow> queue_call \<Rightarrow> queue_obs \<times> ut_event_queue option" where
  "queue_step q (Push e) = (let (r, q') = ut_event_queue_push q (Some e) in (Result r, q'))"
| "queue_step q Pop = (let (r, q', e) = ut_event_queue_pop q (Some zero_event) in (Event r (the e), q'))"
| "queue_step q Peek = (let (r, e) = ut_event_queue_peek q (Some zero_event) in (Event r (the e), q))"
| "queue_step q Clear = (let (r, q') = ut_event_queue_clear q in (Result r, q'))"
| "queue_step q Count = (Size (ut_event_queue_count q), q)"
| "queue_step q Capacity = (Size (ut_event_queue_capacity q), q)"

fun queue_run :: "ut_event_queue option \<Rightarrow> queue_call list \<Rightarrow> queue_obs list \<times> ut_event_queue option" where
  "queue_run q [] = ([], q)"
| "queue_run q (c # cs) =
     (let (b, q') = queue_step q c; (bs, q'') = queue_run q' cs in (b # bs, q''))"

text \<open>The specification: a list of events bounded by the capacity.\<close>

fun queue_spec_step :: "nat \<Rightarrow> ut_event list \<Rightarrow> queue_call \<Rightarrow> queue_obs \<times> ut_event list" where
  "queue_spec_step cap es (Push e) =
     (if length es < cap then (Result UT_EVENT_OK, es @ [e]) else (Result UT_EVENT_FULL, es))"
| "queue_spec_step cap es Pop =
     (case es of [] \<Rightarrow> (Event UT_EVENT_EMPTY zero_event, []) | e # r \<Rightarrow> (Event UT_EVENT_OK e, r))"
| "queue_spec_step cap es Peek =
     (case es of [] \<Rightarrow> (Event UT_EVENT_EMPTY zero_event, []) | e # r \<Rightarrow> (Event UT_EVENT_OK e, es))"
| "queue_spec_step cap es Clear = (Result UT_EVENT_OK, [])"
| "queue_spec_step cap es Count = (Size (length es), es)"
| "queue_spec_step cap es Capacity = (Size cap, es)"

fun queue_spec_run :: "nat \<Rightarrow> ut_event list \<Rightarrow> queue_call list \<Rightarrow> queue_obs list \<times> ut_event list" where
  "queue_spec_run cap es [] = ([], es)"
| "queue_spec_run cap es (c # cs) =
     (let (b, es') = queue_spec_step cap es c; (bs, es'') = queue_spec_run cap es' cs in (b # bs, es''))"

lemma peek_head:
  assumes wf: "queue_wf q" and it: "queue_items q = e # es"
  shows "ut_event_queue_peek (Some q) (Some o1) = (UT_EVENT_OK, Some e)"
proof -
  from pop_some [OF wf it, of o1] show ?thesis
    using wf by (auto simp: ut_event_queue_peek_def ut_event_queue_pop_def Let_def split: if_splits)
qed

lemma queue_step_refines:
  assumes wf: "queue_wf q"
  shows "\<exists>b q'. queue_step (Some q) c = (b, Some q') \<and> queue_wf q' \<and> q_capacity q' = q_capacity q \<and>
    queue_spec_step (q_capacity q) (queue_items q) c = (b, queue_items q')"
proof (cases c)
  case (Push e)
  show ?thesis
  proof (cases "q_count q < q_capacity q")
    case True
    with push_room [OF wf True, of e] Push show ?thesis by auto
  next
    case False
    with wf have "q_count q = q_capacity q" by (simp add: queue_wf_def)
    with push_full [OF wf this, of e] Push wf show ?thesis by simp
  qed
next
  case Pop
  show ?thesis
  proof (cases "queue_items q")
    case Nil
    then have "q_count q = 0" by (simp add: queue_items_Nil_iff)
    with Nil pop_empty [OF wf, of zero_event] Pop wf show ?thesis by simp
  next
    case (Cons e es)
    with pop_some [OF wf Cons, of zero_event] Pop show ?thesis by auto
  qed
next
  case Peek
  show ?thesis
  proof (cases "queue_items q")
    case Nil
    then have "q_count q = 0" by (simp add: queue_items_Nil_iff)
    with Nil Peek wf show ?thesis by (simp add: ut_event_queue_peek_def)
  next
    case (Cons e es)
    with peek_head [OF wf Cons, of zero_event] Peek wf show ?thesis by simp
  qed
next
  case Clear
  with wf show ?thesis by (simp add: ut_event_queue_clear_def queue_wf_def queue_items_def)
next
  case Count
  with wf show ?thesis by (simp add: ut_event_queue_count_def)
next
  case Capacity
  with wf show ?thesis by (simp add: ut_event_queue_capacity_def)
qed

lemma queue_run_refines:
  "queue_wf q \<Longrightarrow> \<exists>bs q'. queue_run (Some q) cs = (bs, Some q') \<and> queue_wf q' \<and>
    q_capacity q' = q_capacity q \<and> queue_spec_run (q_capacity q) (queue_items q) cs = (bs, queue_items q')"
proof (induction cs arbitrary: q)
  case Nil
  then show ?case by simp
next
  case (Cons c cs)
  obtain b r where st: "queue_step (Some q) c = (b, Some r)" "queue_wf r" "q_capacity r = q_capacity q"
      "queue_spec_step (q_capacity q) (queue_items q) c = (b, queue_items r)"
    using queue_step_refines [OF Cons.prems] by blast
  from Cons.IH [OF st(2)] st show ?case by auto
qed

section \<open>Properties\<close>

text \<open>Property C15. From initialisation on, any sequence of push, pop, peek, clear, count and capacity
  calls on the event queue answers exactly as a list of events bounded by the capacity would: first
  in first out, a full queue refuses a push and keeps its contents, an empty one refuses a pop.\<close>

theorem queue_refines_bounded_list:
  assumes "storage \<noteq> []" and "length storage \<le> size_max"
  shows "\<exists>q. ut_event_queue_init (Some q0) storage (length storage) = (UT_EVENT_OK, Some q) \<and>
    (\<forall>calls. fst (queue_run (Some q) calls) = fst (queue_spec_run (length storage) [] calls))"
proof -
  obtain q where init: "ut_event_queue_init (Some q0) storage (length storage) = (UT_EVENT_OK, Some q)"
    using assms by (simp add: ut_event_queue_init_def)
  note q = init_wf [OF init assms(2)]
  have "fst (queue_run (Some q) calls) = fst (queue_spec_run (length storage) [] calls)" for calls
    using queue_run_refines [of q calls] q by (metis fst_conv)
  with init show ?thesis by blast
qed

theorem queue_refines_bounded_list_witness:
  "\<exists>q. ut_event_queue_init
         (Some \<lparr>q_storage = [], q_capacity = 0, q_head = 0, q_tail = 0, q_count = 0\<rparr>)
         (replicate 2 zero_event) 2 = (UT_EVENT_OK, Some q) \<and>
    (\<forall>calls. fst (queue_run (Some q) calls) = fst (queue_spec_run 2 [] calls))"
  using queue_refines_bounded_list [of "replicate 2 zero_event"
      "\<lparr>q_storage = [], q_capacity = 0, q_head = 0, q_tail = 0, q_count = 0\<rparr>"]
  by (simp add: size_max_def)

text \<open>Over any run of pushes and pops on a well-formed queue, what was in the queue
  followed by what was accepted is what was handed out followed by what is still there: no event is
  lost, duplicated, invented or reordered, however full the queue gets.\<close>

theorem queue_conserves_events:
  assumes "queue_wf q" and "fifo_run queue_enq queue_deq q calls = (obs, q')"
  shows "queue_items q @ taken_in calls obs = handed_out obs @ queue_items q'"
  by (rule eq.run_conserves [OF assms])

theorem queue_conserves_events_witness:
  "queue_items \<lparr>q_storage = [zero_event], q_capacity = 1, q_head = 0, q_tail = 0, q_count = 0\<rparr>
     @ taken_in [Enq zero_event, Enq zero_event, Deq] [Accepted, Rejected, Got zero_event]
   = handed_out [Accepted, Rejected, Got zero_event]
     @ queue_items \<lparr>q_storage = [zero_event], q_capacity = 1, q_head = 0, q_tail = 0, q_count = 0\<rparr>"
  by (rule queue_conserves_events)
    (simp_all add: queue_wf_def queue_enq_def queue_deq_def ut_event_queue_push_def
      ut_event_queue_pop_def queue_is_valid_def size_max_def)

end
