(* ===== verification/Event_Dispatcher.thy ===== *)
theory Event_Dispatcher
  imports Event_Types
begin

text \<open>
  The dispatcher (\<open>utility_event_dispatcher.c\<close>): a table of subscriptions (event id, handler,
  context) and synchronous delivery to every matching handler in slot order. Handlers are code
  outside the component. They run on the caller's whole state, which contains the dispatcher
  itself, so a handler may call back into it; the \<open>dispatching\<close> flag is what makes that safe.
\<close>

record ut_event_subscription =
  sub_event_id :: u32
  sub_handler :: ptr
  sub_user_context :: ptr
  sub_occupied :: bool

record ut_event_dispatcher =
  d_subscriptions :: "ut_event_subscription list"
  d_capacity :: nat
  d_count :: nat
  d_dispatching :: bool

section \<open>Registration\<close>

text \<open>A slot as \<open>memset\<close> leaves it.\<close>

definition zero_subscription :: ut_event_subscription where
  "zero_subscription =
     \<lparr>sub_event_id = 0, sub_handler = 0, sub_user_context = 0, sub_occupied = False\<rparr>"

text \<open>\<open>sizeof(ut_event_subscription_t)\<close> on an LP64 target: 4 bytes and padding, two pointers,
  one byte and padding.\<close>

definition sizeof_subscription :: nat where
  "sizeof_subscription = 32"

definition dispatcher_is_valid :: "ut_event_dispatcher option \<Rightarrow> bool" where
  "dispatcher_is_valid dispatcher =
     (case dispatcher of
        None \<Rightarrow> False
      | Some d \<Rightarrow> d_subscriptions d \<noteq> [] \<and> 0 < d_capacity d \<and> d_count d \<le> d_capacity d)"

definition ut_event_dispatcher_init ::
    "ut_event_dispatcher option \<Rightarrow> ut_event_subscription list \<Rightarrow> nat \<Rightarrow>
     ut_event_result \<times> ut_event_dispatcher option" where
  "ut_event_dispatcher_init dispatcher storage capacity =
     (if dispatcher = None \<or> storage = [] \<or> capacity = 0 \<or>
         size_max div sizeof_subscription < capacity
      then (UT_EVENT_INVALID_ARGUMENT, dispatcher)
      else (UT_EVENT_OK,
            Some \<lparr>d_subscriptions =
                    replicate capacity zero_subscription @ drop capacity storage,
                  d_capacity = capacity, d_count = 0, d_dispatching = False\<rparr>))"

text \<open>The test both registration loops make on a slot.\<close>

definition subscription_matches :: "u32 \<Rightarrow> ptr \<Rightarrow> ptr \<Rightarrow> ut_event_subscription \<Rightarrow> bool" where
  "subscription_matches event_id handler user_context s \<longleftrightarrow>
     sub_occupied s \<and> sub_event_id s = event_id \<and> sub_handler s = handler \<and>
     sub_user_context s = user_context"

text \<open>
  The single pass of \<open>ut_event_subscribe\<close>: it stops at a duplicate (\<open>None\<close>) and otherwise
  returns the first free slot it saw (the capacity if there is none). \<open>free_index\<close> is the loop's
  accumulator and \<open>index\<close> its counter.
\<close>

fun subscribe_scan ::
    "u32 \<Rightarrow> ptr \<Rightarrow> ptr \<Rightarrow> nat \<Rightarrow> ut_event_subscription list \<Rightarrow> nat \<Rightarrow> nat \<Rightarrow> nat option" where
  "subscribe_scan event_id handler user_context cap [] index free_index = Some free_index"
| "subscribe_scan event_id handler user_context cap (s # ss) index free_index =
     (if \<not> sub_occupied s then
        subscribe_scan event_id handler user_context cap ss (Suc index)
          (if free_index = cap then index else free_index)
      else if subscription_matches event_id handler user_context s then None
      else subscribe_scan event_id handler user_context cap ss (Suc index) free_index)"

definition ut_event_subscribe ::
    "ut_event_dispatcher option \<Rightarrow> u32 \<Rightarrow> ptr \<Rightarrow> ptr \<Rightarrow> ut_event_result \<times> ut_event_dispatcher option" where
  "ut_event_subscribe dispatcher event_id handler user_context =
     (if \<not> dispatcher_is_valid dispatcher \<or> handler = 0 then (UT_EVENT_INVALID_ARGUMENT, dispatcher)
      else let d = the dispatcher in
        if d_dispatching d then (UT_EVENT_BUSY, dispatcher)
        else case subscribe_scan event_id handler user_context (d_capacity d)
                    (take (d_capacity d) (d_subscriptions d)) 0 (d_capacity d) of
               None \<Rightarrow> (UT_EVENT_ALREADY_EXISTS, dispatcher)
             | Some free_index \<Rightarrow>
                 if free_index = d_capacity d then (UT_EVENT_FULL, dispatcher)
                 else (UT_EVENT_OK,
                       Some (d\<lparr>d_subscriptions := (d_subscriptions d)[free_index :=
                                 \<lparr>sub_event_id = event_id, sub_handler = handler,
                                  sub_user_context = user_context, sub_occupied = True\<rparr>],
                               d_count := size_add (d_count d) 1\<rparr>)))"

definition ut_event_unsubscribe ::
    "ut_event_dispatcher option \<Rightarrow> u32 \<Rightarrow> ptr \<Rightarrow> ptr \<Rightarrow> ut_event_result \<times> ut_event_dispatcher option" where
  "ut_event_unsubscribe dispatcher event_id handler user_context =
     (if \<not> dispatcher_is_valid dispatcher \<or> handler = 0 then (UT_EVENT_INVALID_ARGUMENT, dispatcher)
      else let d = the dispatcher in
        if d_dispatching d then (UT_EVENT_BUSY, dispatcher)
        else case first_index (subscription_matches event_id handler user_context)
                    (take (d_capacity d) (d_subscriptions d)) of
               None \<Rightarrow> (UT_EVENT_NOT_FOUND, dispatcher)
             | Some index \<Rightarrow>
                 (UT_EVENT_OK,
                  Some (d\<lparr>d_subscriptions := (d_subscriptions d)[index := zero_subscription],
                          d_count := size_sub (d_count d) 1\<rparr>)))"

definition ut_event_subscription_count :: "ut_event_dispatcher option \<Rightarrow> nat" where
  "ut_event_subscription_count dispatcher =
     (if dispatcher_is_valid dispatcher then d_count (the dispatcher) else 0)"

section \<open>Delivery\<close>

text \<open>
  The caller's state is \<open>'w\<close>; \<open>get\<close> and \<open>put\<close> locate the dispatcher in it (\<open>get w = None\<close> is a
  NULL dispatcher), and \<open>call handler event context\<close> is what running a handler does to the state.
  The loop re-reads the slot from the current state at each index, as the C does through the
  dispatcher pointer.
\<close>

definition slot_receives :: "ut_event \<Rightarrow> ut_event_subscription \<Rightarrow> bool" where
  "slot_receives event s \<longleftrightarrow>
     sub_occupied s \<and> (sub_event_id s = ev_id event \<or> sub_event_id s = UT_EVENT_ID_ANY)"

fun dispatch_loop ::
    "('w \<Rightarrow> ut_event_dispatcher option) \<Rightarrow> (ptr \<Rightarrow> ut_event \<Rightarrow> ptr \<Rightarrow> 'w \<Rightarrow> 'w) \<Rightarrow> ut_event \<Rightarrow>
     nat \<Rightarrow> nat \<Rightarrow> nat \<Rightarrow> 'w \<Rightarrow> nat \<times> 'w" where
  "dispatch_loop get call event 0 index handler_count w = (handler_count, w)"
| "dispatch_loop get call event (Suc remaining) index handler_count w =
     (let s = d_subscriptions (the (get w)) ! index in
      if slot_receives event s then
        dispatch_loop get call event remaining (Suc index) (size_add handler_count 1)
          (call (sub_handler s) event (sub_user_context s) w)
      else dispatch_loop get call event remaining (Suc index) handler_count w)"

text \<open>The result is the code, the new state and the contents of \<open>*out_handler_count\<close>.\<close>

definition ut_event_dispatch ::
    "('w \<Rightarrow> ut_event_dispatcher option) \<Rightarrow> (ut_event_dispatcher \<Rightarrow> 'w \<Rightarrow> 'w) \<Rightarrow>
     (ptr \<Rightarrow> ut_event \<Rightarrow> ptr \<Rightarrow> 'w \<Rightarrow> 'w) \<Rightarrow> ut_event option \<Rightarrow> nat option \<Rightarrow> 'w \<Rightarrow>
     ut_event_result \<times> 'w \<times> nat option" where
  "ut_event_dispatch get put call event out_handler_count w =
     (if \<not> dispatcher_is_valid (get w) \<or> event = None
      then (UT_EVENT_INVALID_ARGUMENT, w, out_handler_count)
      else if d_dispatching (the (get w)) then (UT_EVENT_BUSY, w, out_handler_count)
      else
        let w1 = put ((the (get w))\<lparr>d_dispatching := True\<rparr>) w;
            (handler_count, w2) =
              dispatch_loop get call (the event) (d_capacity (the (get w1))) 0 0 w1;
            w3 = put ((the (get w2))\<lparr>d_dispatching := False\<rparr>) w2
        in (if handler_count = 0 then UT_EVENT_NOT_FOUND else UT_EVENT_OK,
            w3, if out_handler_count = None then None else Some handler_count))"

section \<open>The invariant of the table\<close>

text \<open>The registered triples, in slot order.\<close>

abbreviation sub_triple :: "ut_event_subscription \<Rightarrow> u32 \<times> ptr \<times> ptr" where
  "sub_triple s \<equiv> (sub_event_id s, sub_handler s, sub_user_context s)"

definition registrations :: "ut_event_dispatcher \<Rightarrow> (u32 \<times> ptr \<times> ptr) list" where
  "registrations d = map sub_triple (filter sub_occupied (d_subscriptions d))"

definition dispatcher_wf :: "ut_event_dispatcher \<Rightarrow> bool" where
  "dispatcher_wf d \<longleftrightarrow> 0 < d_capacity d \<and> d_capacity d \<le> size_max div sizeof_subscription \<and>
     length (d_subscriptions d) = d_capacity d \<and>
     d_count d = count_slots sub_occupied (d_subscriptions d) \<and>
     (\<forall>s\<in>set (d_subscriptions d). sub_occupied s \<longrightarrow> sub_handler s \<noteq> 0) \<and>
     distinct (registrations d)"

lemma length_registrations: "length (registrations d) = count_slots sub_occupied (d_subscriptions d)"
  by (simp add: registrations_def count_slots_def)

lemma dispatcher_wf_valid [simp]: "dispatcher_wf d \<Longrightarrow> dispatcher_is_valid (Some d)"
  using count_slots_le [of sub_occupied "d_subscriptions d"]
  by (auto simp: dispatcher_wf_def dispatcher_is_valid_def)

lemma dispatcher_wf_capacity: "dispatcher_wf d \<Longrightarrow> d_capacity d < size_max"
  by (simp add: dispatcher_wf_def sizeof_subscription_def size_max_def)

lemma dispatcher_is_valid_None [simp]: "\<not> dispatcher_is_valid None"
  by (simp add: dispatcher_is_valid_def)

lemma subscribe_scan_None_iff:
  "subscribe_scan e h c cap ss i f = None \<longleftrightarrow> (\<exists>s\<in>set ss. subscription_matches e h c s)"
  by (induction ss arbitrary: i f) (auto simp: subscription_matches_def)

lemma subscribe_scan_free:
  "subscribe_scan e h c cap ss i f = Some k \<Longrightarrow> i + length ss \<le> cap \<Longrightarrow>
    (f = cap \<and> k = (case first_index (\<lambda>s. \<not> sub_occupied s) ss of None \<Rightarrow> cap | Some j \<Rightarrow> i + j))
    \<or> (f \<noteq> cap \<and> k = f)"
proof (induction ss arbitrary: i f)
  case Nil
  then show ?case by simp
next
  case (Cons s ss)
  show ?case
  proof (cases "sub_occupied s")
    case True
    with Cons.prems have "subscribe_scan e h c cap ss (Suc i) f = Some k" by (auto split: if_splits)
    from Cons.IH [OF this] Cons.prems(2) True show ?thesis by (auto split: option.splits)
  next
    case False
    with Cons.prems have r: "subscribe_scan e h c cap ss (Suc i) (if f = cap then i else f) = Some k"
      by simp
    from Cons.prems(2) have "i \<noteq> cap" by simp
    with Cons.IH [OF r] Cons.prems(2) False show ?thesis by (auto split: if_splits)
  qed
qed


lemma registrations_iff:
  "(e, h, c) \<in> set (registrations d) \<longleftrightarrow> (\<exists>s\<in>set (d_subscriptions d). subscription_matches e h c s)"
  by (auto simp: registrations_def subscription_matches_def)

lemma dispatcher_init_wf:
  "ut_event_dispatcher_init (Some d0) storage (length storage) = (UT_EVENT_OK, Some d) \<Longrightarrow>
    dispatcher_wf d \<and> registrations d = [] \<and> \<not> d_dispatching d \<and> d_capacity d = length storage"
  by (auto simp: ut_event_dispatcher_init_def dispatcher_wf_def registrations_def zero_subscription_def
      split: if_splits)

text \<open>
  Registration: a new triple takes the first free slot and the others stay where they are; a
  triple that is there is refused; a full table is refused. Cancelling removes exactly the
  triple it names.
\<close>

lemma subscribe_ok:
  assumes wf: "dispatcher_wf d" and idle: "\<not> d_dispatching d" and h: "h \<noteq> 0"
    and new: "(e, h, c) \<notin> set (registrations d)" and room: "d_count d < d_capacity d"
  shows "\<exists>d' i. ut_event_subscribe (Some d) e h c = (UT_EVENT_OK, Some d') \<and> dispatcher_wf d' \<and>
    d_capacity d' = d_capacity d \<and> \<not> d_dispatching d' \<and>
    registrations d' = take i (registrations d) @ (e, h, c) # drop i (registrations d)"
proof -
  let ?ss = "d_subscriptions d" and ?cap = "d_capacity d"
  let ?new = "\<lparr>sub_event_id = e, sub_handler = h, sub_user_context = c, sub_occupied = True\<rparr>"
  have len: "length ?ss = ?cap" and cnt: "d_count d = count_slots sub_occupied ?ss"
    using wf by (simp_all add: dispatcher_wf_def)
  obtain k where k: "subscribe_scan e h c ?cap ?ss 0 ?cap = Some k"
    using new by (metis not_None_eq subscribe_scan_None_iff registrations_iff)
  have "first_index (\<lambda>s. \<not> sub_occupied s) ?ss \<noteq> None"
  proof
    assume "first_index (\<lambda>s. \<not> sub_occupied s) ?ss = None"
    then have "filter sub_occupied ?ss = ?ss" by (auto simp: first_index_None_iff)
    with cnt len room show False by (simp add: count_slots_def)
  qed
  then obtain j where j: "first_index (\<lambda>s. \<not> sub_occupied s) ?ss = Some j" by blast
  with subscribe_scan_free [OF k] len have kj: "k = j" by simp
  from first_index_SomeD [OF j] kj len have free: "k < ?cap" "\<not> sub_occupied (?ss ! k)" by auto
  let ?d' = "d\<lparr>d_subscriptions := ?ss[k := ?new], d_count := Suc (d_count d)\<rparr>"
  have "size_add (d_count d) 1 = Suc (d_count d)"
    using room dispatcher_wf_capacity [OF wf] by simp
  then have res: "ut_event_subscribe (Some d) e h c = (UT_EVENT_OK, Some ?d')"
    using wf idle h k free len by (simp add: ut_event_subscribe_def)
  let ?a = "map sub_triple (filter sub_occupied (take k ?ss))"
    and ?b = "map sub_triple (filter sub_occupied (drop (Suc k) ?ss))"
  have old: "registrations d = ?a @ ?b"
    using filter_split [of k ?ss sub_occupied] free len by (simp add: registrations_def)
  have upd: "registrations ?d' = ?a @ (e, h, c) # ?b"
    using filter_update [of k ?ss sub_occupied ?new] free len by (simp add: registrations_def)
  have "dispatcher_wf ?d'"
    unfolding dispatcher_wf_def upd
  proof (intro conjI)
    show "distinct (?a @ (e, h, c) # ?b)" using wf new old by (auto simp: dispatcher_wf_def)
    show "\<forall>s\<in>set (d_subscriptions ?d'). sub_occupied s \<longrightarrow> sub_handler s \<noteq> 0"
      using wf h by (auto simp: dispatcher_wf_def dest: set_update_subset_insert [THEN subsetD])
    show "d_count ?d' = count_slots sub_occupied (d_subscriptions ?d')"
      using count_slots_fill [of k ?ss sub_occupied ?new] free len cnt by simp
  qed (use wf in \<open>simp_all add: dispatcher_wf_def\<close>)
  with res upd old idle show ?thesis
    by (intro exI [of _ ?d'] exI [of _ "length ?a"]) simp
qed

lemma subscribe_dup:
  assumes "dispatcher_wf d" "\<not> d_dispatching d" "h \<noteq> 0" "(e, h, c) \<in> set (registrations d)"
  shows "ut_event_subscribe (Some d) e h c = (UT_EVENT_ALREADY_EXISTS, Some d)"
proof -
  have "subscribe_scan e h c (d_capacity d) (d_subscriptions d) 0 (d_capacity d) = None"
    using assms(4) by (simp add: subscribe_scan_None_iff registrations_iff)
  with assms show ?thesis by (simp add: ut_event_subscribe_def dispatcher_wf_def)
qed

lemma subscribe_full:
  assumes wf: "dispatcher_wf d" and "\<not> d_dispatching d" "h \<noteq> 0"
    and new: "(e, h, c) \<notin> set (registrations d)" and full: "d_count d = d_capacity d"
  shows "ut_event_subscribe (Some d) e h c = (UT_EVENT_FULL, Some d)"
proof -
  let ?ss = "d_subscriptions d"
  have len: "length ?ss = d_capacity d" and "count_slots sub_occupied ?ss = length ?ss"
    using wf full by (simp_all add: dispatcher_wf_def)
  then have "\<forall>i<length ?ss. sub_occupied (?ss ! i)"
    using count_slots_lt [of _ ?ss sub_occupied] by (metis less_irrefl)
  then have none: "first_index (\<lambda>s. \<not> sub_occupied s) ?ss = None"
    by (auto simp: first_index_None_iff in_set_conv_nth)
  obtain k where k: "subscribe_scan e h c (d_capacity d) ?ss 0 (d_capacity d) = Some k"
    using new by (metis not_None_eq subscribe_scan_None_iff registrations_iff)
  with subscribe_scan_free [OF k] len none have "k = d_capacity d" by simp
  with k assms len show ?thesis by (simp add: ut_event_subscribe_def)
qed

lemma unsubscribe_ok:
  assumes wf: "dispatcher_wf d" and idle: "\<not> d_dispatching d" and h: "h \<noteq> 0"
    and reg: "(e, h, c) \<in> set (registrations d)"
  shows "\<exists>d'. ut_event_unsubscribe (Some d) e h c = (UT_EVENT_OK, Some d') \<and> dispatcher_wf d' \<and>
    d_capacity d' = d_capacity d \<and> \<not> d_dispatching d' \<and>
    registrations d' = remove1 (e, h, c) (registrations d)"
proof -
  let ?ss = "d_subscriptions d" and ?m = "subscription_matches e h c"
  have len: "length ?ss = d_capacity d" and cnt: "d_count d = count_slots sub_occupied ?ss"
    and dist: "distinct (registrations d)"
    using wf by (simp_all add: dispatcher_wf_def)
  obtain k where k: "first_index ?m ?ss = Some k"
    using reg by (metis not_None_eq first_index_None_iff registrations_iff)
  from first_index_SomeD [OF this] have kl: "k < length ?ss" and km: "?m (?ss ! k)" by auto
  then have occ: "sub_occupied (?ss ! k)" and trip: "sub_triple (?ss ! k) = (e, h, c)"
    by (auto simp: subscription_matches_def)
  let ?d' = "d\<lparr>d_subscriptions := ?ss[k := zero_subscription], d_count := d_count d - 1\<rparr>"
  have "0 < d_count d" using count_slots_pos [OF kl, of sub_occupied] occ cnt by simp
  moreover have "d_count d \<le> size_max"
    using dispatcher_wf_capacity [OF wf] count_slots_le [of sub_occupied ?ss] cnt len by linarith
  ultimately have "size_sub (d_count d) 1 = d_count d - 1" by simp
  then have res: "ut_event_unsubscribe (Some d) e h c = (UT_EVENT_OK, Some ?d')"
    using wf idle h k len by (simp add: ut_event_unsubscribe_def)
  let ?a = "map sub_triple (filter sub_occupied (take k ?ss))"
    and ?b = "map sub_triple (filter sub_occupied (drop (Suc k) ?ss))"
  have old: "registrations d = ?a @ (e, h, c) # ?b"
    using filter_split [OF kl, of sub_occupied] occ trip by (simp add: registrations_def)
  have upd: "registrations ?d' = ?a @ ?b"
    using filter_update [OF kl, of sub_occupied zero_subscription]
    by (simp add: registrations_def zero_subscription_def)
  have rem: "registrations ?d' = remove1 (e, h, c) (registrations d)"
    using dist unfolding old upd by (simp add: remove1_append)
  have "dispatcher_wf ?d'"
    unfolding dispatcher_wf_def rem
  proof (intro conjI)
    show "distinct (remove1 (e, h, c) (registrations d))" using dist by simp
    show "\<forall>s\<in>set (d_subscriptions ?d'). sub_occupied s \<longrightarrow> sub_handler s \<noteq> 0"
      using wf by (auto simp: dispatcher_wf_def zero_subscription_def
          dest: set_update_subset_insert [THEN subsetD])
    show "d_count ?d' = count_slots sub_occupied (d_subscriptions ?d')"
      using count_slots_drop [OF kl, of sub_occupied zero_subscription] occ cnt
      by (simp add: zero_subscription_def)
  qed (use wf in \<open>simp_all add: dispatcher_wf_def\<close>)
  with res rem idle show ?thesis by simp
qed

lemma unsubscribe_missing:
  assumes "dispatcher_wf d" "\<not> d_dispatching d" "h \<noteq> 0" "(e, h, c) \<notin> set (registrations d)"
  shows "ut_event_unsubscribe (Some d) e h c = (UT_EVENT_NOT_FOUND, Some d)"
proof -
  have "first_index (subscription_matches e h c) (d_subscriptions d) = None"
    using assms(4) by (auto simp: first_index_None_iff registrations_iff)
  with assms show ?thesis by (simp add: ut_event_unsubscribe_def dispatcher_wf_def)
qed

text \<open>While a dispatch is running every operation of the API is refused and changes nothing.\<close>

lemma busy_subscribe:
  "d_dispatching d \<Longrightarrow> snd (ut_event_subscribe (Some d) e h c) = Some d"
  by (simp add: ut_event_subscribe_def)

lemma busy_unsubscribe:
  "d_dispatching d \<Longrightarrow> snd (ut_event_unsubscribe (Some d) e h c) = Some d"
  by (simp add: ut_event_unsubscribe_def)

lemma busy_dispatch:
  "get w = Some d \<Longrightarrow> d_dispatching d \<Longrightarrow> fst (snd (ut_event_dispatch get put call ev oc w)) = w"
  by (simp add: ut_event_dispatch_def)

lemmas busy_unchanged = busy_subscribe busy_unsubscribe busy_dispatch

section \<open>Delivery in a host state\<close>

text \<open>
  What a client of the dispatcher must provide: a place in its state for the dispatcher, and
  handlers that leave it alone while it is dispatching. Handlers that use the API obey this law
  because the API refuses them (\<open>busy_unchanged\<close>).
\<close>

definition deliver_all ::
    "(ptr \<Rightarrow> ut_event \<Rightarrow> ptr \<Rightarrow> 'w \<Rightarrow> 'w) \<Rightarrow> ut_event \<Rightarrow> (ptr \<times> ptr) list \<Rightarrow> 'w \<Rightarrow> 'w" where
  "deliver_all call e hs w = fold (\<lambda>(h, c). call h e c) hs w"

locale dispatcher_host =
  fixes get :: "'w \<Rightarrow> ut_event_dispatcher option"
    and put :: "ut_event_dispatcher \<Rightarrow> 'w \<Rightarrow> 'w"
    and call :: "ptr \<Rightarrow> ut_event \<Rightarrow> ptr \<Rightarrow> 'w \<Rightarrow> 'w"
  assumes get_put [simp]: "get (put d w) = Some d"
    and put_put [simp]: "put d (put d' w) = put d w"
    and put_get: "get w = Some d \<Longrightarrow> put d w = w"
    and call_frame: "get w = Some d \<Longrightarrow> d_dispatching d \<Longrightarrow> get (call h e c w) = Some d"
begin

lemma deliver_all_frame:
  "get w = Some d \<Longrightarrow> d_dispatching d \<Longrightarrow> get (deliver_all call e hs w) = Some d"
  by (induction hs arbitrary: w) (auto simp: deliver_all_def call_frame)

lemma loop_delivers:
  assumes "get w = Some d" "d_dispatching d" "index + k = length (d_subscriptions d)"
    "n + k \<le> size_max"
  shows "dispatch_loop get call e k index n w =
    (n + length (filter (slot_receives e) (drop index (d_subscriptions d))),
     deliver_all call e (map (\<lambda>s. (sub_handler s, sub_user_context s))
       (filter (slot_receives e) (drop index (d_subscriptions d)))) w)"
  using assms
proof (induction k arbitrary: index n w)
  case 0
  then show ?case by (simp add: deliver_all_def)
next
  case (Suc k)
  let ?s = "d_subscriptions d ! index"
  have drop: "drop index (d_subscriptions d) = ?s # drop (Suc index) (d_subscriptions d)"
    using Suc.prems(3) by (simp add: Cons_nth_drop_Suc)
  show ?case
  proof (cases "slot_receives e ?s")
    case True
    let ?w = "call (sub_handler ?s) e (sub_user_context ?s) w"
    have "get ?w = Some d" using Suc.prems by (simp add: call_frame)
    moreover have "size_add n 1 = n + 1" using Suc.prems(4) by simp
    ultimately show ?thesis
      using Suc.IH [of ?w "Suc index" "n + 1"] Suc.prems True drop by (simp add: deliver_all_def Let_def)
  next
    case False
    with Suc.IH [of w "Suc index" n] Suc.prems drop show ?thesis by (simp add: Let_def)
  qed
qed

end

text \<open>The handlers an event reaches, with their contexts, in slot order.\<close>

definition receivers :: "ut_event_dispatcher \<Rightarrow> ut_event \<Rightarrow> (ptr \<times> ptr) list" where
  "receivers d e = map (\<lambda>s. (sub_handler s, sub_user_context s))
     (filter (slot_receives e) (d_subscriptions d))"

lemma receivers_registrations:
  "receivers d e = map snd (filter (\<lambda>(i, _). i = ev_id e \<or> i = UT_EVENT_ID_ANY) (registrations d))"
  unfolding receivers_def registrations_def slot_receives_def
  by (induction "d_subscriptions d" arbitrary: d rule: list.induct) (simp_all add: filter_map comp_def)

context dispatcher_host begin

text \<open>
  One dispatch: exactly the receivers run, once each and in slot order, the dispatcher is left
  as it was, and the result tells whether anybody received the event.
\<close>

lemma dispatch_delivers:
  assumes w: "get w = Some d" and wf: "dispatcher_wf d" and idle: "\<not> d_dispatching d"
  shows "ut_event_dispatch get put call (Some e) oc w =
    (if receivers d e = [] then UT_EVENT_NOT_FOUND else UT_EVENT_OK,
     put d (deliver_all call e (receivers d e) (put (d\<lparr>d_dispatching := True\<rparr>) w)),
     map_option (\<lambda>_. length (receivers d e)) oc)"
proof -
  let ?d = "d\<lparr>d_dispatching := True\<rparr>"
  let ?w2 = "deliver_all call e (receivers d e) (put ?d w)"
  have len: "length (d_subscriptions ?d) = d_capacity d" using wf by (simp add: dispatcher_wf_def)
  have "dispatch_loop get call e (d_capacity d) 0 0 (put ?d w) = (length (receivers d e), ?w2)"
    using loop_delivers [of "put ?d w" ?d 0 "d_capacity d" 0 e] dispatcher_wf_capacity [OF wf] len
    by (simp add: receivers_def)
  moreover have "get ?w2 = Some ?d" by (rule deliver_all_frame) simp_all
  moreover have "d\<lparr>d_dispatching := False\<rparr> = d" using idle by (cases d) simp
  then have "put (d\<lparr>d_dispatching := False\<rparr>) ?w2 = put d ?w2" by (rule arg_cong2 [OF _ refl])
  ultimately show ?thesis
    using w wf idle by (cases oc) (simp_all add: ut_event_dispatch_def)
qed

lemma dispatch_keeps_dispatcher:
  "get w = Some d \<Longrightarrow> dispatcher_wf d \<Longrightarrow> \<not> d_dispatching d \<Longrightarrow>
    get (fst (snd (ut_event_dispatch get put call (Some e) oc w))) = Some d"
  by (simp add: dispatch_delivers)

end

section \<open>Handlers written against the API\<close>

text \<open>
  A handler is any program over its own data \<open>'u\<close> that may call the dispatcher it runs under and
  act on the answers. A nested dispatch is answered by the reentrancy guard before any handler
  could run (\<open>busy_dispatch\<close>), so the calls it would make are immaterial here.
\<close>

datatype 'u handler_prog =
    Return 'u
  | Subscribe u32 ptr ptr "ut_event_result \<Rightarrow> 'u handler_prog"
  | Unsubscribe u32 ptr ptr "ut_event_result \<Rightarrow> 'u handler_prog"
  | Dispatch ut_event "ut_event_result \<Rightarrow> 'u handler_prog"
  | SubscriptionCount "nat \<Rightarrow> 'u handler_prog"

primrec run_handler ::
    "'u handler_prog \<Rightarrow> ut_event_dispatcher option \<Rightarrow> ut_event_dispatcher option \<times> 'u" where
  "run_handler (Return u) d = (d, u)"
| "run_handler (Subscribe e h c k) d =
     (let (r, d') = ut_event_subscribe d e h c in run_handler (k r) d')"
| "run_handler (Unsubscribe e h c k) d =
     (let (r, d') = ut_event_unsubscribe d e h c in run_handler (k r) d')"
| "run_handler (Dispatch e k) d =
     (let (r, d', _) = ut_event_dispatch id (\<lambda>x _. Some x) (\<lambda>_ _ _ w. w) (Some e) None d
      in run_handler (k r) d')"
| "run_handler (SubscriptionCount k) d = run_handler (k (ut_event_subscription_count d)) d"

text \<open>The host: the dispatcher next to the data of the handlers.\<close>

type_synonym 'u host = "ut_event_dispatcher option \<times> 'u"

definition host_put :: "ut_event_dispatcher \<Rightarrow> 'u host \<Rightarrow> 'u host" where
  "host_put d w = (Some d, snd w)"

definition host_call ::
    "(ptr \<Rightarrow> ut_event \<Rightarrow> ptr \<Rightarrow> 'u \<Rightarrow> 'u handler_prog) \<Rightarrow> ptr \<Rightarrow> ut_event \<Rightarrow> ptr \<Rightarrow> 'u host \<Rightarrow> 'u host" where
  "host_call progs h e c w = run_handler (progs h e c (snd w)) (fst w)"

lemma run_handler_busy: "d_dispatching d \<Longrightarrow> fst (run_handler p (Some d)) = Some d"
proof (induction p)
  case (Subscribe e h c k)
  then show ?case using busy_subscribe [of d e h c] by (cases "ut_event_subscribe (Some d) e h c") simp
next
  case (Unsubscribe e h c k)
  then show ?case using busy_unsubscribe [of d e h c] by (cases "ut_event_unsubscribe (Some d) e h c") simp
next
  case (Dispatch e k)
  let ?r = "ut_event_dispatch id (\<lambda>x _. Some x) (\<lambda>_ _ _ w. w) (Some e) None (Some d)"
  have "fst (snd ?r) = Some d" using Dispatch.prems by (intro busy_dispatch) simp_all
  then show ?case using Dispatch by (cases ?r) simp
qed simp_all

interpretation host: dispatcher_host fst host_put "host_call progs" for progs
  by unfold_locales (auto simp: host_put_def host_call_def run_handler_busy)

text \<open>What a handler does to its own data when every API call it makes is refused.\<close>

definition refused :: "ut_event_dispatcher \<Rightarrow> 'u handler_prog \<Rightarrow> 'u" where
  "refused d p = snd (run_handler p (Some (d\<lparr>d_dispatching := True\<rparr>)))"

lemma deliver_all_refused:
  "deliver_all (host_call progs) e hs (Some (d\<lparr>d_dispatching := True\<rparr>), u) =
    (Some (d\<lparr>d_dispatching := True\<rparr>), fold (\<lambda>(h, c) u. refused d (progs h e c u)) hs u)"
proof (induction hs arbitrary: u)
  case Nil
  then show ?case by (simp add: deliver_all_def)
next
  case (Cons x hs)
  obtain h c where x: "x = (h, c)" by (cases x)
  have "host_call progs h e c (Some (d\<lparr>d_dispatching := True\<rparr>), u) =
      (Some (d\<lparr>d_dispatching := True\<rparr>), refused d (progs h e c u))"
    unfolding host_call_def refused_def
    by (metis fst_conv snd_conv prod.collapse run_handler_busy ut_event_dispatcher.select_convs(4)
        ut_event_dispatcher.surjective ut_event_dispatcher.update_convs(4))
  with Cons.IH x show ?case by (simp add: deliver_all_def)
qed

section \<open>Properties\<close>

text \<open>
  The registration table as a set of triples bounded by the capacity, and a client program as a
  list of registration calls.
\<close>

datatype reg_call = Reg u32 ptr ptr | Unreg u32 ptr ptr | RegCount

fun reg_step :: "ut_event_dispatcher option \<Rightarrow> reg_call \<Rightarrow> (ut_event_result \<times> nat) \<times> ut_event_dispatcher option" where
  "reg_step d (Reg e h c) = (let (r, d') = ut_event_subscribe d e h c in ((r, 0), d'))"
| "reg_step d (Unreg e h c) = (let (r, d') = ut_event_unsubscribe d e h c in ((r, 0), d'))"
| "reg_step d RegCount = ((UT_EVENT_OK, ut_event_subscription_count d), d)"

fun reg_run ::
    "ut_event_dispatcher option \<Rightarrow> reg_call list \<Rightarrow> (ut_event_result \<times> nat) list \<times> ut_event_dispatcher option" where
  "reg_run d [] = ([], d)"
| "reg_run d (x # xs) = (let (b, d') = reg_step d x; (bs, d'') = reg_run d' xs in (b # bs, d''))"

fun reg_spec_step ::
    "nat \<Rightarrow> (u32 \<times> ptr \<times> ptr) set \<Rightarrow> reg_call \<Rightarrow> (ut_event_result \<times> nat) \<times> (u32 \<times> ptr \<times> ptr) set" where
  "reg_spec_step cap S (Reg e h c) =
     (if h = 0 then ((UT_EVENT_INVALID_ARGUMENT, 0), S)
      else if (e, h, c) \<in> S then ((UT_EVENT_ALREADY_EXISTS, 0), S)
      else if card S = cap then ((UT_EVENT_FULL, 0), S)
      else ((UT_EVENT_OK, 0), insert (e, h, c) S))"
| "reg_spec_step cap S (Unreg e h c) =
     (if h = 0 then ((UT_EVENT_INVALID_ARGUMENT, 0), S)
      else if (e, h, c) \<in> S then ((UT_EVENT_OK, 0), S - {(e, h, c)})
      else ((UT_EVENT_NOT_FOUND, 0), S))"
| "reg_spec_step cap S RegCount = ((UT_EVENT_OK, card S), S)"

fun reg_spec_run ::
    "nat \<Rightarrow> (u32 \<times> ptr \<times> ptr) set \<Rightarrow> reg_call list \<Rightarrow> (ut_event_result \<times> nat) list \<times> (u32 \<times> ptr \<times> ptr) set" where
  "reg_spec_run cap S [] = ([], S)"
| "reg_spec_run cap S (x # xs) =
     (let (b, S') = reg_spec_step cap S x; (bs, S'') = reg_spec_run cap S' xs in (b # bs, S''))"

lemma card_registrations: "dispatcher_wf d \<Longrightarrow> card (set (registrations d)) = d_count d"
  using distinct_card [of "registrations d"] by (simp add: dispatcher_wf_def length_registrations)

lemma reg_step_refines:
  assumes wf: "dispatcher_wf d" and idle: "\<not> d_dispatching d"
  shows "\<exists>b d'. reg_step (Some d) x = (b, Some d') \<and> dispatcher_wf d' \<and> \<not> d_dispatching d' \<and>
    d_capacity d' = d_capacity d \<and>
    reg_spec_step (d_capacity d) (set (registrations d)) x = (b, set (registrations d'))"
proof (cases x)
  case (Reg e h c)
  show ?thesis
  proof (cases "h \<noteq> 0 \<and> (e, h, c) \<notin> set (registrations d) \<and> d_count d \<noteq> d_capacity d")
    case True
    then have "d_count d < d_capacity d"
      using wf count_slots_le [of sub_occupied "d_subscriptions d"] by (simp add: dispatcher_wf_def)
    with True subscribe_ok [OF wf idle, of h e c] obtain d' i where
      s: "ut_event_subscribe (Some d) e h c = (UT_EVENT_OK, Some d')" "dispatcher_wf d'"
        "d_capacity d' = d_capacity d" "\<not> d_dispatching d'"
        "registrations d' = take i (registrations d) @ (e, h, c) # drop i (registrations d)"
      by blast
    have "set (registrations d') = insert (e, h, c) (set (registrations d))"
      unfolding s(5) by (metis Un_insert_right append_take_drop_id list.simps(15) set_append)
    with s True Reg card_registrations [OF wf] show ?thesis by auto
  next
    case False
    with Reg wf idle card_registrations [OF wf] show ?thesis
      by (auto simp: subscribe_dup subscribe_full) (auto simp: ut_event_subscribe_def)
  qed
next
  case (Unreg e h c)
  show ?thesis
  proof (cases "h \<noteq> 0 \<and> (e, h, c) \<in> set (registrations d)")
    case True
    with unsubscribe_ok [OF wf idle, of h e c] obtain d' where
      "ut_event_unsubscribe (Some d) e h c = (UT_EVENT_OK, Some d')" "dispatcher_wf d'"
        "d_capacity d' = d_capacity d" "\<not> d_dispatching d'"
        "registrations d' = remove1 (e, h, c) (registrations d)"
      by blast
    moreover have "distinct (registrations d)" using wf by (simp add: dispatcher_wf_def)
    ultimately show ?thesis using True Unreg by simp
  next
    case False
    with Unreg wf idle show ?thesis
      by (auto simp: unsubscribe_missing) (auto simp: ut_event_unsubscribe_def)
  qed
next
  case RegCount
  with wf idle card_registrations [OF wf] show ?thesis by (simp add: ut_event_subscription_count_def)
qed

lemma reg_run_refines:
  "dispatcher_wf d \<Longrightarrow> \<not> d_dispatching d \<Longrightarrow>
    \<exists>bs d'. reg_run (Some d) xs = (bs, Some d') \<and> dispatcher_wf d' \<and> \<not> d_dispatching d' \<and>
      reg_spec_run (d_capacity d) (set (registrations d)) xs = (bs, set (registrations d'))"
proof (induction xs arbitrary: d)
  case Nil
  then show ?case by simp
next
  case (Cons x xs)
  obtain b r where st: "reg_step (Some d) x = (b, Some r)" "dispatcher_wf r" "\<not> d_dispatching r"
      "d_capacity r = d_capacity d"
      "reg_spec_step (d_capacity d) (set (registrations d)) x = (b, set (registrations r))"
    using reg_step_refines [OF Cons.prems] by blast
  from Cons.IH [OF st(2,3)] st show ?case by auto
qed

text \<open>Property C22. From initialisation on, any sequence of subscribe, unsubscribe and count calls
  answers exactly as a set of (event id, handler, context) triples bounded by the capacity would:
  duplicates, overflow, unknown triples and NULL handlers are refused with the documented code and
  leave the set alone.\<close>

theorem registrations_refine_bounded_set:
  assumes "storage \<noteq> []" and "length storage \<le> size_max div sizeof_subscription"
  shows "\<exists>d. ut_event_dispatcher_init (Some d0) storage (length storage) = (UT_EVENT_OK, Some d) \<and>
    (\<forall>calls. fst (reg_run (Some d) calls) = fst (reg_spec_run (length storage) {} calls))"
proof -
  obtain d where init: "ut_event_dispatcher_init (Some d0) storage (length storage) = (UT_EVENT_OK, Some d)"
    using assms by (simp add: ut_event_dispatcher_init_def)
  note d = dispatcher_init_wf [OF init]
  have "fst (reg_run (Some d) calls) = fst (reg_spec_run (length storage) {} calls)" for calls
    using reg_run_refines [of d calls] d by (metis fst_conv list.set(1))
  with init show ?thesis by blast
qed

theorem registrations_refine_bounded_set_witness:
  "\<exists>d. ut_event_dispatcher_init
         (Some \<lparr>d_subscriptions = [], d_capacity = 0, d_count = 0, d_dispatching = False\<rparr>)
         (replicate 2 zero_subscription) 2 = (UT_EVENT_OK, Some d) \<and>
    (\<forall>calls. fst (reg_run (Some d) calls) = fst (reg_spec_run 2 {} calls))"
  using registrations_refine_bounded_set [of "replicate 2 zero_subscription"
      "\<lparr>d_subscriptions = [], d_capacity = 0, d_count = 0, d_dispatching = False\<rparr>"]
  by (simp add: size_max_def sizeof_subscription_def)

text \<open>Property C16. A dispatch runs the handlers registered for the event's id or for every id, each
  once and in slot order, whatever API calls those handlers make; it leaves the dispatcher exactly
  as it was, reports how many handlers ran and says NOT_FOUND when there were none.\<close>

theorem dispatch_runs_receivers_in_order:
  assumes "dispatcher_wf d" and "\<not> d_dispatching d"
  shows "ut_event_dispatch fst host_put (host_call progs) (Some e) (Some n) (Some d, u) =
    (let hs = map snd (filter (\<lambda>(i, _). i = ev_id e \<or> i = UT_EVENT_ID_ANY) (registrations d))
     in (if hs = [] then UT_EVENT_NOT_FOUND else UT_EVENT_OK,
         (Some d, fold (\<lambda>(h, c) v. refused d (progs h e c v)) hs u),
         Some (length hs)))"
proof -
  have "fst (Some d, u) = Some d" by simp
  from host.dispatch_delivers [OF this assms] show ?thesis
    by (simp add: Let_def receivers_registrations [symmetric] host_put_def deliver_all_refused)
qed

theorem dispatch_runs_receivers_in_order_witness:
  "ut_event_dispatch fst host_put
     (host_call (\<lambda>h e c v. Subscribe 9 h c (\<lambda>r. Return (v @ [(h, r)]))))
     (Some \<lparr>ev_id = 7, ev_source = 0, ev_payload = 0, ev_payload_size = 0\<rparr>) (Some 0)
     (Some \<lparr>d_subscriptions =
              [\<lparr>sub_event_id = 8, sub_handler = 1, sub_user_context = 0, sub_occupied = True\<rparr>,
               \<lparr>sub_event_id = 7, sub_handler = 2, sub_user_context = 0, sub_occupied = True\<rparr>,
               \<lparr>sub_event_id = UT_EVENT_ID_ANY, sub_handler = 3, sub_user_context = 0,
                sub_occupied = True\<rparr>],
            d_capacity = 3, d_count = 3, d_dispatching = False\<rparr>, []) =
   (UT_EVENT_OK,
    (Some \<lparr>d_subscriptions =
              [\<lparr>sub_event_id = 8, sub_handler = 1, sub_user_context = 0, sub_occupied = True\<rparr>,
               \<lparr>sub_event_id = 7, sub_handler = 2, sub_user_context = 0, sub_occupied = True\<rparr>,
               \<lparr>sub_event_id = UT_EVENT_ID_ANY, sub_handler = 3, sub_user_context = 0,
                sub_occupied = True\<rparr>],
            d_capacity = 3, d_count = 3, d_dispatching = False\<rparr>,
     [(2, UT_EVENT_BUSY), (3, UT_EVENT_BUSY)]), Some 2)"
  by (subst dispatch_runs_receivers_in_order)
    (simp_all add: dispatcher_wf_def registrations_def count_slots_def size_max_def
      sizeof_subscription_def refused_def ut_event_subscribe_def dispatcher_is_valid_def
      UT_EVENT_ID_ANY_def uint32_max_def)

text \<open>While a dispatch is running, subscribing, unsubscribing and a nested dispatch of the
  same dispatcher are all refused with BUSY, change nothing and run no handler.\<close>

theorem reentrant_calls_refused:
  assumes "get w = Some d" and "dispatcher_is_valid (Some d)" and "d_dispatching d" and "h \<noteq> 0"
  shows "ut_event_subscribe (get w) e h c = (UT_EVENT_BUSY, get w) \<and>
    ut_event_unsubscribe (get w) e h c = (UT_EVENT_BUSY, get w) \<and>
    ut_event_dispatch get put call (Some ev) out w = (UT_EVENT_BUSY, w, out)"
  using assms by (simp add: ut_event_subscribe_def ut_event_unsubscribe_def ut_event_dispatch_def)

theorem reentrant_calls_refused_witness:
  "ut_event_subscribe
     (Some \<lparr>d_subscriptions = [zero_subscription], d_capacity = 1, d_count = 0, d_dispatching = True\<rparr>)
     5 6 7 =
   (UT_EVENT_BUSY,
     Some \<lparr>d_subscriptions = [zero_subscription], d_capacity = 1, d_count = 0, d_dispatching = True\<rparr>)"
  using reentrant_calls_refused [of fst
      "(Some \<lparr>d_subscriptions = [zero_subscription], d_capacity = 1, d_count = 0, d_dispatching = True\<rparr>, ())"
      "\<lparr>d_subscriptions = [zero_subscription], d_capacity = 1, d_count = 0, d_dispatching = True\<rparr>" 6 5 7]
  by (simp add: dispatcher_is_valid_def)

end
