(* ===== verification/Event_Timer.thy ===== *)
theory Event_Timer
  imports Event_Queue
begin

text \<open>
  The timer scheduler (\<open>utility_event_timer.c\<close>): a fixed table of slots, each holding an event, a
  deadline on the caller's monotonic 64-bit clock and a period (0 for one-shot). Processing pushes
  the events of the due timers onto an event queue. Ticks are 64-bit words, so every overflow test
  of the code is the one modelled.
\<close>

record ut_event_timer_slot =
  sl_id :: u32
  sl_event :: ut_event
  sl_deadline :: u64
  sl_period :: u64
  sl_active :: bool

record ut_event_timer_scheduler =
  t_slots :: "ut_event_timer_slot list"
  t_capacity :: nat
  t_count :: nat
  t_processing :: bool

section \<open>Operations\<close>

definition zero_slot :: ut_event_timer_slot where
  "zero_slot = \<lparr>sl_id = 0, sl_event = zero_event, sl_deadline = 0, sl_period = 0, sl_active = False\<rparr>"

text \<open>\<open>sizeof(ut_event_timer_slot_t)\<close> on an LP64 target.\<close>

definition sizeof_timer_slot :: nat where
  "sizeof_timer_slot = 56"

definition scheduler_is_valid :: "ut_event_timer_scheduler option \<Rightarrow> bool" where
  "scheduler_is_valid scheduler =
     (case scheduler of
        None \<Rightarrow> False
      | Some s \<Rightarrow> t_slots s \<noteq> [] \<and> 0 < t_capacity s \<and> t_count s \<le> t_capacity s)"

text \<open>The two searches return a slot's index where the C returns its address.\<close>

definition find_slot :: "ut_event_timer_scheduler \<Rightarrow> u32 \<Rightarrow> nat option" where
  "find_slot s timer_id =
     first_index (\<lambda>sl. sl_active sl \<and> sl_id sl = timer_id) (take (t_capacity s) (t_slots s))"

definition find_free_slot :: "ut_event_timer_scheduler \<Rightarrow> nat option" where
  "find_free_slot s = first_index (\<lambda>sl. \<not> sl_active sl) (take (t_capacity s) (t_slots s))"

definition calculate_deadline :: "u64 \<Rightarrow> u64 \<Rightarrow> u64 option" where
  "calculate_deadline now delay = (if uint64_max - now < delay then None else Some (now + delay))"

definition configure_slot ::
    "u32 \<Rightarrow> ut_event \<Rightarrow> u64 \<Rightarrow> u64 \<Rightarrow> ut_event_timer_slot \<Rightarrow> ut_event_timer_slot" where
  "configure_slot timer_id event deadline period slot =
     slot\<lparr>sl_id := timer_id, sl_event := event, sl_deadline := deadline, sl_period := period,
          sl_active := True\<rparr>"

text \<open>\<open>None\<close> is the return value 0 (the timer cannot go on).\<close>

definition advance_periodic_deadline :: "ut_event_timer_slot \<Rightarrow> u64 \<Rightarrow> ut_event_timer_slot option" where
  "advance_periodic_deadline slot now =
     (let elapsed = now - sl_deadline slot;
          elapsed_periods = elapsed div sl_period slot
      in if elapsed_periods = uint64_max then None
         else let steps = elapsed_periods + 1
           in if (uint64_max - sl_deadline slot) div sl_period slot < steps then None
              else Some (slot\<lparr>sl_deadline := sl_deadline slot + steps * sl_period slot\<rparr>))"

definition ut_event_timer_scheduler_init ::
    "ut_event_timer_scheduler option \<Rightarrow> ut_event_timer_slot list \<Rightarrow> nat \<Rightarrow>
     ut_event_result \<times> ut_event_timer_scheduler option" where
  "ut_event_timer_scheduler_init scheduler storage capacity =
     (if scheduler = None \<or> storage = [] \<or> capacity = 0 \<or> size_max div sizeof_timer_slot < capacity
      then (UT_EVENT_INVALID_ARGUMENT, scheduler)
      else (UT_EVENT_OK,
            Some \<lparr>t_slots = replicate capacity zero_slot @ drop capacity storage,
                  t_capacity = capacity, t_count = 0, t_processing = False\<rparr>))"

definition ut_event_timer_start ::
    "ut_event_timer_scheduler option \<Rightarrow> u32 \<Rightarrow> ut_event option \<Rightarrow> u64 \<Rightarrow> u64 \<Rightarrow> u64 \<Rightarrow>
     ut_event_result \<times> ut_event_timer_scheduler option" where
  "ut_event_timer_start scheduler timer_id event now delay period =
     (if \<not> scheduler_is_valid scheduler \<or> event = None \<or> calculate_deadline now delay = None
      then (UT_EVENT_INVALID_ARGUMENT, scheduler)
      else let s = the scheduler; deadline = the (calculate_deadline now delay) in
        if t_processing s then (UT_EVENT_BUSY, scheduler)
        else if find_slot s timer_id \<noteq> None then (UT_EVENT_ALREADY_EXISTS, scheduler)
        else case find_free_slot s of
               None \<Rightarrow> (UT_EVENT_FULL, scheduler)
             | Some i \<Rightarrow>
                 (UT_EVENT_OK,
                  Some (s\<lparr>t_slots := (t_slots s)[i :=
                            configure_slot timer_id (the event) deadline period (t_slots s ! i)],
                          t_count := size_add (t_count s) 1\<rparr>)))"

definition ut_event_timer_restart ::
    "ut_event_timer_scheduler option \<Rightarrow> u32 \<Rightarrow> ut_event option \<Rightarrow> u64 \<Rightarrow> u64 \<Rightarrow> u64 \<Rightarrow>
     ut_event_result \<times> ut_event_timer_scheduler option" where
  "ut_event_timer_restart scheduler timer_id event now delay period =
     (if \<not> scheduler_is_valid scheduler \<or> event = None \<or> calculate_deadline now delay = None
      then (UT_EVENT_INVALID_ARGUMENT, scheduler)
      else let s = the scheduler; deadline = the (calculate_deadline now delay) in
        if t_processing s then (UT_EVENT_BUSY, scheduler)
        else case find_slot s timer_id of
               None \<Rightarrow> (UT_EVENT_NOT_FOUND, scheduler)
             | Some i \<Rightarrow>
                 (UT_EVENT_OK,
                  Some (s\<lparr>t_slots := (t_slots s)[i :=
                            configure_slot timer_id (the event) deadline period (t_slots s ! i)]\<rparr>)))"

definition ut_event_timer_cancel ::
    "ut_event_timer_scheduler option \<Rightarrow> u32 \<Rightarrow> ut_event_result \<times> ut_event_timer_scheduler option" where
  "ut_event_timer_cancel scheduler timer_id =
     (if \<not> scheduler_is_valid scheduler then (UT_EVENT_INVALID_ARGUMENT, scheduler)
      else let s = the scheduler in
        if t_processing s then (UT_EVENT_BUSY, scheduler)
        else case find_slot s timer_id of
               None \<Rightarrow> (UT_EVENT_NOT_FOUND, scheduler)
             | Some i \<Rightarrow>
                 (UT_EVENT_OK,
                  Some (s\<lparr>t_slots := (t_slots s)[i := zero_slot],
                          t_count := size_sub (t_count s) 1\<rparr>)))"

text \<open>
  The loop of \<open>ut_event_timer_process\<close>, slot by slot: it pushes the event of a due slot, then
  retires the slot (one-shot, or no representable next deadline) or moves its deadline on, and
  stops at the first push the queue refuses. It returns the result code, the slots, the queue,
  the number of active timers and the number of events emitted.
\<close>

fun process_slots ::
    "u64 \<Rightarrow> ut_event_timer_slot list \<Rightarrow> ut_event_queue option \<Rightarrow> nat \<Rightarrow> nat \<Rightarrow>
     ut_event_result \<times> ut_event_timer_slot list \<times> ut_event_queue option \<times> nat \<times> nat" where
  "process_slots now [] queue count emitted = (UT_EVENT_OK, [], queue, count, emitted)"
| "process_slots now (slot # slots) queue count emitted =
     (if \<not> sl_active slot \<or> now < sl_deadline slot then
        let (r, slots', queue', count', emitted') = process_slots now slots queue count emitted
        in (r, slot # slots', queue', count', emitted')
      else
        let (result, queue') = ut_event_queue_push queue (Some (sl_event slot)) in
        if result \<noteq> UT_EVENT_OK then (result, slot # slots, queue', count, emitted)
        else
          let (slot', count1) =
                (if sl_period slot = 0 then (zero_slot, size_sub count 1)
                 else case advance_periodic_deadline slot now of
                        None \<Rightarrow> (zero_slot, size_sub count 1)
                      | Some s \<Rightarrow> (s, count));
              (r, slots', queue'', count', emitted') =
                process_slots now slots queue' count1 (size_add emitted 1)
          in (r, slot' # slots', queue'', count', emitted'))"

definition ut_event_timer_process ::
    "ut_event_timer_scheduler option \<Rightarrow> u64 \<Rightarrow> ut_event_queue option \<Rightarrow> nat option \<Rightarrow>
     ut_event_result \<times> ut_event_timer_scheduler option \<times> ut_event_queue option \<times> nat option" where
  "ut_event_timer_process scheduler now queue out_emitted_count =
     (if \<not> scheduler_is_valid scheduler \<or> queue = None
      then (UT_EVENT_INVALID_ARGUMENT, scheduler, queue, out_emitted_count)
      else let s = the scheduler in
        if t_processing s then (UT_EVENT_BUSY, scheduler, queue, out_emitted_count)
        else
          let (result, slots, queue', count, emitted_count) =
                process_slots now (take (t_capacity s) (t_slots s)) queue (t_count s) 0
          in (result,
              Some (s\<lparr>t_slots := slots @ drop (t_capacity s) (t_slots s), t_count := count,
                      t_processing := False\<rparr>),
              queue', if out_emitted_count = None then None else Some emitted_count))"

definition ut_event_timer_count :: "ut_event_timer_scheduler option \<Rightarrow> nat" where
  "ut_event_timer_count scheduler = (if scheduler_is_valid scheduler then t_count (the scheduler) else 0)"

text \<open>The minimum search of \<open>ut_event_timer_next_deadline\<close>: \<open>deadline\<close> and \<open>found\<close> are its accumulators.\<close>

fun next_deadline_scan :: "ut_event_timer_slot list \<Rightarrow> u64 \<Rightarrow> bool \<Rightarrow> u64 \<times> bool" where
  "next_deadline_scan [] deadline found = (deadline, found)"
| "next_deadline_scan (slot # slots) deadline found =
     (if sl_active slot \<and> (\<not> found \<or> sl_deadline slot < deadline)
      then next_deadline_scan slots (sl_deadline slot) True
      else next_deadline_scan slots deadline found)"

definition ut_event_timer_next_deadline ::
    "ut_event_timer_scheduler option \<Rightarrow> u64 option \<Rightarrow> ut_event_result \<times> u64 option" where
  "ut_event_timer_next_deadline scheduler out_deadline =
     (if \<not> scheduler_is_valid scheduler \<or> out_deadline = None
      then (UT_EVENT_INVALID_ARGUMENT, out_deadline)
      else let s = the scheduler;
               (deadline, found) =
                 next_deadline_scan (take (t_capacity s) (t_slots s)) uint64_max False
           in if \<not> found then (UT_EVENT_NOT_FOUND, out_deadline) else (UT_EVENT_OK, Some deadline))"

section \<open>The invariant and the timers the table holds\<close>

abbreviation timer_entry :: "ut_event_timer_slot \<Rightarrow> u32 \<times> ut_event \<times> u64 \<times> u64" where
  "timer_entry sl \<equiv> (sl_id sl, sl_event sl, sl_deadline sl, sl_period sl)"

definition timer_entries :: "ut_event_timer_slot list \<Rightarrow> (u32 \<times> ut_event \<times> u64 \<times> u64) list" where
  "timer_entries sls = map timer_entry (filter sl_active sls)"

definition timers :: "ut_event_timer_scheduler \<Rightarrow> u32 \<rightharpoonup> ut_event \<times> u64 \<times> u64" where
  "timers s = map_of (timer_entries (t_slots s))"

definition scheduler_wf :: "ut_event_timer_scheduler \<Rightarrow> bool" where
  "scheduler_wf s \<longleftrightarrow> 0 < t_capacity s \<and> t_capacity s \<le> size_max div sizeof_timer_slot \<and>
     length (t_slots s) = t_capacity s \<and> t_count s = count_slots sl_active (t_slots s) \<and>
     distinct (map fst (timer_entries (t_slots s)))"

lemma scheduler_wf_valid [simp]: "scheduler_wf s \<Longrightarrow> scheduler_is_valid (Some s)"
  using count_slots_le [of sl_active "t_slots s"]
  by (auto simp: scheduler_wf_def scheduler_is_valid_def)

lemma scheduler_wf_capacity: "scheduler_wf s \<Longrightarrow> t_capacity s < size_max"
  by (simp add: scheduler_wf_def sizeof_timer_slot_def size_max_def)

lemma calculate_deadline_Some_iff:
  "calculate_deadline now delay = Some d \<longleftrightarrow> unat now + unat delay < 2 ^ 64 \<and> d = now + delay"
proof -
  have "uint64_max - now < delay \<longleftrightarrow> \<not> unat now + unat delay < 2 ^ 64"
    using unat_u64_less [of now] by (auto simp: word_less_nat_alt unat_uint64_max_minus)
  then show ?thesis by (auto simp: calculate_deadline_def)
qed

text \<open>
  The next deadline of a periodic timer: the first \<open>deadline + k * period\<close> after \<open>now\<close>, if a
  64-bit tick can hold it.
\<close>

definition next_tick :: "nat \<Rightarrow> nat \<Rightarrow> nat \<Rightarrow> nat" where
  "next_tick deadline period now = deadline + ((now - deadline) div period + 1) * period"

lemma next_tick_gt: "0 < p \<Longrightarrow> d \<le> n \<Longrightarrow> n < next_tick d p n"
proof -
  assume p: "0 < p" and "d \<le> n"
  have "n - d < ((n - d) div p + 1) * p"
    using dividend_less_div_times [OF p, of "n - d"] by (simp add: add.commute)
  with \<open>d \<le> n\<close> show ?thesis by (simp add: next_tick_def)
qed

lemma next_tick_le: "d \<le> n \<Longrightarrow> next_tick d p n \<le> n + p"
  using div_times_less_eq_dividend [of "n - d" p] unfolding next_tick_def add_mult_distrib by linarith

lemma advance_next_tick:
  assumes p: "sl_period sl \<noteq> 0" and due: "sl_deadline sl \<le> now"
  shows "advance_periodic_deadline sl now =
    (let d = next_tick (unat (sl_deadline sl)) (unat (sl_period sl)) (unat now)
     in if d < 2 ^ 64 then Some (sl\<lparr>sl_deadline := of_nat d\<rparr>) else None)"
proof -
  let ?D = "unat (sl_deadline sl)" and ?P = "unat (sl_period sl)" and ?N = "unat now"
  let ?E = "(now - sl_deadline sl) div sl_period sl"
  let ?k = "(?N - ?D) div ?P"
  have P: "0 < ?P" using p by (simp add: unat_gt_0)
  have D: "?D < 2 ^ 64" using unat_u64_less [of "sl_deadline sl"] by simp
  have E: "unat ?E = ?k" using due by (simp add: unat_div unat_sub)
  have room: "unat ((uint64_max - sl_deadline sl) div sl_period sl) = (2 ^ 64 - 1 - ?D) div ?P"
    by (simp add: unat_div unat_uint64_max_minus)
  have fits: "next_tick ?D ?P ?N < 2 ^ 64 \<longleftrightarrow> ?k + 1 \<le> (2 ^ 64 - 1 - ?D) div ?P"
    using D P by (auto simp: next_tick_def less_eq_div_iff_mult_less_eq)
  show ?thesis
  proof (cases "?E = uint64_max")
    case True
    with E have k: "?k = 2 ^ 64 - 1" by simp
    have "\<not> ?k + 1 \<le> (2 ^ 64 - 1 - ?D) div ?P"
      unfolding k using div_le_dividend [of "2 ^ 64 - 1 - ?D" ?P] by linarith
    with True fits show ?thesis by (simp add: advance_periodic_deadline_def Let_def)
  next
    case False
    then have "?k \<noteq> 2 ^ 64 - 1" using E by (metis unat_uint64_max word_unat_eq_iff)
    moreover have "?k < 2 ^ 64" using E unat_u64_less [of ?E] by simp
    ultimately have k: "unat (?E + 1) = ?k + 1" using E by (simp add: unat_word_ariths)
    have "(uint64_max - sl_deadline sl) div sl_period sl < ?E + 1 \<longleftrightarrow> \<not> next_tick ?D ?P ?N < 2 ^ 64"
      by (simp only: word_less_nat_alt k room fits not_le)
    moreover have "sl_deadline sl + (?E + 1) * sl_period sl = of_nat (next_tick ?D ?P ?N)"
    proof -
      have "sl_deadline sl + (?E + 1) * sl_period sl = of_nat (unat (sl_deadline sl + (?E + 1) * sl_period sl))"
        by simp
      also have "\<dots> = of_nat (?D + unat (?E + 1) * ?P)"
        by (simp only: of_nat_add of_nat_mult of_nat_unat ucast_id)
      finally show ?thesis by (simp only: k next_tick_def)
    qed
    ultimately show ?thesis using False by (simp add: advance_periodic_deadline_def Let_def)
  qed
qed


section \<open>The table as a finite map\<close>

lemma timer_entries_update:
  assumes "i < length sls"
  shows "timer_entries (sls[i := y]) =
    timer_entries (take i sls) @ (if sl_active y then [timer_entry y] else [])
      @ timer_entries (drop (Suc i) sls)"
  using filter_update [OF assms, of sl_active y] by (simp add: timer_entries_def)

lemma timer_entries_split:
  assumes "i < length sls"
  shows "timer_entries sls =
    timer_entries (take i sls) @ (if sl_active (sls ! i) then [timer_entry (sls ! i)] else [])
      @ timer_entries (drop (Suc i) sls)"
  using filter_split [OF assms, of sl_active] by (simp add: timer_entries_def)

lemma map_of_insert_mid:
  "k \<notin> fst ` set xs \<Longrightarrow> map_of (xs @ (k, v) # ys) = (map_of (xs @ ys))(k \<mapsto> v)"
  by (induction xs) (auto simp: fun_upd_twist)

lemma map_of_delete_mid:
  "k \<notin> fst ` set xs \<Longrightarrow> k \<notin> fst ` set ys \<Longrightarrow>
    map_of (xs @ ys) = (map_of (xs @ (k, v) # ys))(k := None)"
  by (simp add: map_of_insert_mid fun_upd_idem map_of_eq_None_iff image_Un del: map_of_append)

lemma timers_None_iff:
  "timers s t = None \<longleftrightarrow> (\<forall>sl\<in>set (t_slots s). \<not> (sl_active sl \<and> sl_id sl = t))"
  by (force simp: timers_def timer_entries_def map_of_eq_None_iff)

lemma find_slot_None_iff: "scheduler_wf s \<Longrightarrow> find_slot s t = None \<longleftrightarrow> t \<notin> dom (timers s)"
  by (simp add: find_slot_def scheduler_wf_def first_index_None_iff domIff timers_None_iff)

lemma find_slot_SomeD:
  "scheduler_wf s \<Longrightarrow> find_slot s t = Some i \<Longrightarrow>
    i < length (t_slots s) \<and> sl_active (t_slots s ! i) \<and> sl_id (t_slots s ! i) = t"
  by (auto simp: find_slot_def scheduler_wf_def dest: first_index_SomeD)

lemma card_timers: "scheduler_wf s \<Longrightarrow> card (dom (timers s)) = t_count s"
proof -
  assume wf: "scheduler_wf s"
  have "dom (timers s) = set (map fst (timer_entries (t_slots s)))"
    by (simp add: timers_def dom_map_of_conv_image_fst)
  then have "card (dom (timers s)) = length (map fst (timer_entries (t_slots s)))"
    using wf distinct_card by (metis scheduler_wf_def)
  with wf show ?thesis by (simp add: timer_entries_def scheduler_wf_def count_slots_def)
qed

text \<open>Filling slot \<open>i\<close> with an entry whose id is new, and emptying or overwriting a used slot.\<close>

lemma fill_slot:
  assumes wf: "scheduler_wf s" and i: "i < length (t_slots s)" "\<not> sl_active (t_slots s ! i)"
    and y: "sl_active y" "sl_id y \<notin> dom (timers s)"
  defines "s' \<equiv> s\<lparr>t_slots := (t_slots s)[i := y], t_count := Suc (t_count s)\<rparr>"
  shows "scheduler_wf s' \<and> timers s' = (timers s)(sl_id y \<mapsto> (sl_event y, sl_deadline y, sl_period y))"
proof -
  let ?a = "timer_entries (take i (t_slots s))" and ?b = "timer_entries (drop (Suc i) (t_slots s))"
  have old: "timer_entries (t_slots s) = ?a @ ?b" using timer_entries_split [OF i(1)] i(2) by simp
  have new: "timer_entries (t_slots s') = ?a @ timer_entry y # ?b"
    using timer_entries_update [OF i(1), of y] y by (simp add: s'_def)
  have fresh: "sl_id y \<notin> fst ` set (?a @ ?b)"
    using y(2) unfolding timers_def old by (simp only: dom_map_of_conv_image_fst not_False_eq_True)
  have "timers s' = (timers s)(sl_id y \<mapsto> (sl_event y, sl_deadline y, sl_period y))"
    unfolding timers_def old new using fresh by (intro map_of_insert_mid) (simp add: image_Un)
  moreover have "scheduler_wf s'"
    unfolding scheduler_wf_def new
    using wf old fresh count_slots_fill [of i _ sl_active y, OF i] y(1)
    by (auto simp: scheduler_wf_def s'_def)
  ultimately show ?thesis by simp
qed

lemma clear_slot:
  assumes wf: "scheduler_wf s" and i: "i < length (t_slots s)" "sl_active (t_slots s ! i)"
  defines "s' \<equiv> s\<lparr>t_slots := (t_slots s)[i := zero_slot], t_count := t_count s - 1\<rparr>"
  shows "scheduler_wf s' \<and> timers s' = (timers s)(sl_id (t_slots s ! i) := None)"
proof -
  let ?a = "timer_entries (take i (t_slots s))" and ?b = "timer_entries (drop (Suc i) (t_slots s))"
  have old: "timer_entries (t_slots s) = ?a @ timer_entry (t_slots s ! i) # ?b"
    using timer_entries_split [OF i(1)] i(2) by simp
  have new: "timer_entries (t_slots s') = ?a @ ?b"
    using timer_entries_update [OF i(1), of zero_slot] by (simp add: s'_def zero_slot_def)
  have dist: "distinct (map fst (?a @ timer_entry (t_slots s ! i) # ?b))"
    using wf old by (simp add: scheduler_wf_def)
  have "timers s' = (timers s)(sl_id (t_slots s ! i) := None)"
    unfolding timers_def old new using dist by (intro map_of_delete_mid) auto
  moreover have "scheduler_wf s'"
    unfolding scheduler_wf_def new
    using wf dist count_slots_drop [of i _ sl_active zero_slot, OF i]
    by (auto simp: scheduler_wf_def s'_def zero_slot_def)
  ultimately show ?thesis by simp
qed

lemma overwrite_slot:
  assumes wf: "scheduler_wf s" and i: "i < length (t_slots s)" "sl_active (t_slots s ! i)"
    and y: "sl_active y" "sl_id y = sl_id (t_slots s ! i)"
  defines "s' \<equiv> s\<lparr>t_slots := (t_slots s)[i := y]\<rparr>"
  shows "scheduler_wf s' \<and> timers s' = (timers s)(sl_id y \<mapsto> (sl_event y, sl_deadline y, sl_period y))"
proof -
  let ?a = "timer_entries (take i (t_slots s))" and ?b = "timer_entries (drop (Suc i) (t_slots s))"
  have old: "timer_entries (t_slots s) = ?a @ timer_entry (t_slots s ! i) # ?b"
    using timer_entries_split [OF i(1)] i(2) by simp
  have new: "timer_entries (t_slots s') = ?a @ timer_entry y # ?b"
    using timer_entries_update [OF i(1), of y] y by (simp add: s'_def)
  have dist: "distinct (map fst (?a @ timer_entry (t_slots s ! i) # ?b))"
    using wf old by (simp add: scheduler_wf_def)
  have notin: "sl_id (t_slots s ! i) \<notin> fst ` set ?a" using dist by auto
  have "timers s' = (timers s)(sl_id y \<mapsto> (sl_event y, sl_deadline y, sl_period y))"
    unfolding timers_def old new using notin y(2) by (simp add: map_of_insert_mid del: map_of_append)
  moreover have "scheduler_wf s'"
    unfolding scheduler_wf_def new
    using wf dist count_slots_keep [OF i(1), of sl_active y] i(2) y
    by (auto simp: scheduler_wf_def s'_def)
  ultimately show ?thesis by simp
qed

section \<open>Runs of the registration API\<close>

datatype timer_call =
    Start u32 ut_event u64 u64 u64
  | Restart u32 ut_event u64 u64 u64
  | Cancel u32
  | TimerCount
  | NextDeadline

type_synonym timer_obs = "ut_event_result \<times> nat \<times> u64"

fun timer_step ::
    "ut_event_timer_scheduler option \<Rightarrow> timer_call \<Rightarrow> timer_obs \<times> ut_event_timer_scheduler option" where
  "timer_step s (Start t e now delay period) =
     (let (r, s') = ut_event_timer_start s t (Some e) now delay period in ((r, 0, 0), s'))"
| "timer_step s (Restart t e now delay period) =
     (let (r, s') = ut_event_timer_restart s t (Some e) now delay period in ((r, 0, 0), s'))"
| "timer_step s (Cancel t) = (let (r, s') = ut_event_timer_cancel s t in ((r, 0, 0), s'))"
| "timer_step s TimerCount = ((UT_EVENT_OK, ut_event_timer_count s, 0), s)"
| "timer_step s NextDeadline =
     (let (r, d) = ut_event_timer_next_deadline s (Some 0) in ((r, 0, the d), s))"

fun timer_run ::
    "ut_event_timer_scheduler option \<Rightarrow> timer_call list \<Rightarrow> timer_obs list \<times> ut_event_timer_scheduler option" where
  "timer_run s [] = ([], s)"
| "timer_run s (c # cs) = (let (b, s') = timer_step s c; (bs, s'') = timer_run s' cs in (b # bs, s''))"

text \<open>The specification: a finite map from timer ids to event, deadline and period.\<close>

type_synonym timer_map = "u32 \<rightharpoonup> ut_event \<times> u64 \<times> u64"

fun timer_spec_step :: "nat \<Rightarrow> timer_map \<Rightarrow> timer_call \<Rightarrow> timer_obs \<times> timer_map" where
  "timer_spec_step cap m (Start t e now delay period) =
     (if 2 ^ 64 \<le> unat now + unat delay then ((UT_EVENT_INVALID_ARGUMENT, 0, 0), m)
      else if t \<in> dom m then ((UT_EVENT_ALREADY_EXISTS, 0, 0), m)
      else if card (dom m) = cap then ((UT_EVENT_FULL, 0, 0), m)
      else ((UT_EVENT_OK, 0, 0), m(t \<mapsto> (e, now + delay, period))))"
| "timer_spec_step cap m (Restart t e now delay period) =
     (if 2 ^ 64 \<le> unat now + unat delay then ((UT_EVENT_INVALID_ARGUMENT, 0, 0), m)
      else if t \<in> dom m then ((UT_EVENT_OK, 0, 0), m(t \<mapsto> (e, now + delay, period)))
      else ((UT_EVENT_NOT_FOUND, 0, 0), m))"
| "timer_spec_step cap m (Cancel t) =
     (if t \<in> dom m then ((UT_EVENT_OK, 0, 0), m(t := None)) else ((UT_EVENT_NOT_FOUND, 0, 0), m))"
| "timer_spec_step cap m TimerCount = ((UT_EVENT_OK, card (dom m), 0), m)"
| "timer_spec_step cap m NextDeadline =
     (if dom m = {} then ((UT_EVENT_NOT_FOUND, 0, 0), m)
      else ((UT_EVENT_OK, 0, Min ((\<lambda>(e, d, p). d) ` ran m)), m))"

fun timer_spec_run :: "nat \<Rightarrow> timer_map \<Rightarrow> timer_call list \<Rightarrow> timer_obs list \<times> timer_map" where
  "timer_spec_run cap m [] = ([], m)"
| "timer_spec_run cap m (c # cs) =
     (let (b, m') = timer_spec_step cap m c; (bs, m'') = timer_spec_run cap m' cs in (b # bs, m''))"

abbreviation active_deadlines :: "ut_event_timer_slot list \<Rightarrow> u64 set" where
  "active_deadlines sls \<equiv> sl_deadline ` {sl \<in> set sls. sl_active sl}"

lemma Min_insert_pick:
  "finite A \<Longrightarrow> Min (insert d (insert x A)) = Min (insert (if x < d then x else d) A)"
  for d x :: "'a::linorder"
  by (cases "A = {}") (auto simp: min_def)

lemma active_deadlines_Cons:
  "active_deadlines (sl # sls) =
    (if sl_active sl then insert (sl_deadline sl) (active_deadlines sls) else active_deadlines sls)"
  by auto

lemma next_deadline_scan_found:
  "next_deadline_scan sls d True = (Min (insert d (active_deadlines sls)), True)"
proof (induction sls arbitrary: d)
  case Nil
  then show ?case by simp
next
  case (Cons sl sls)
  show ?case
    unfolding active_deadlines_Cons
    using Cons.IH Min_insert_pick [of "active_deadlines sls" d "sl_deadline sl"] by simp
qed

lemma next_deadline_scan_start:
  "next_deadline_scan sls d False =
    (if active_deadlines sls = {} then (d, False) else (Min (active_deadlines sls), True))"
proof (induction sls)
  case Nil
  then show ?case by simp
next
  case (Cons sl sls)
  then show ?case
    unfolding active_deadlines_Cons
    using next_deadline_scan_found [of sls "sl_deadline sl"] by simp
qed

lemma deadlines_of_timers:
  assumes "scheduler_wf s"
  shows "(\<lambda>(e, d, p). d) ` ran (timers s) = active_deadlines (t_slots s)"
proof -
  have "ran (timers s) = snd ` set (timer_entries (t_slots s))"
    using assms by (simp add: timers_def scheduler_wf_def ran_distinct)
  then show ?thesis by (auto simp: timer_entries_def image_iff)
qed

lemma timers_empty_iff:
  "timers s = Map.empty \<longleftrightarrow> active_deadlines (t_slots s) = {}"
  by (auto simp: fun_eq_iff timers_None_iff)

lemma timer_step_refines:
  assumes wf: "scheduler_wf s" and idle: "\<not> t_processing s"
  shows "\<exists>b s'. timer_step (Some s) c = (b, Some s') \<and> scheduler_wf s' \<and> \<not> t_processing s' \<and>
    t_capacity s' = t_capacity s \<and> timer_spec_step (t_capacity s) (timers s) c = (b, timers s')"
proof (cases c)
  case (Start t e now delay period)
  consider (over) "2 ^ 64 \<le> unat now + unat delay" | (dup) "unat now + unat delay < 2 ^ 64" "t \<in> dom (timers s)"
    | (new) "unat now + unat delay < 2 ^ 64" "t \<notin> dom (timers s)"
    by fastforce
  then show ?thesis
  proof cases
    case over
    then have "calculate_deadline now delay = None"
      using calculate_deadline_Some_iff [of now delay] by (cases "calculate_deadline now delay") auto
    with over Start wf idle show ?thesis by (simp add: ut_event_timer_start_def)
  next
    case dup
    then have "calculate_deadline now delay = Some (now + delay)" and "find_slot s t \<noteq> None"
      using find_slot_None_iff [OF wf, of t] by (simp_all add: calculate_deadline_Some_iff)
    with dup Start wf idle show ?thesis by (simp add: ut_event_timer_start_def)
  next
    case new
    then have calc: "calculate_deadline now delay = Some (now + delay)" and none: "find_slot s t = None"
      using find_slot_None_iff [OF wf, of t] by (simp_all add: calculate_deadline_Some_iff)
    have len: "length (t_slots s) = t_capacity s" and cnt: "t_count s = count_slots sl_active (t_slots s)"
      using wf by (simp_all add: scheduler_wf_def)
    show ?thesis
    proof (cases "find_free_slot s")
      case None
      then have "filter sl_active (t_slots s) = t_slots s"
        using len by (simp add: find_free_slot_def first_index_None_iff)
      then have "t_count s = t_capacity s" using len cnt by (simp add: count_slots_def)
      with None calc none new Start wf idle card_timers [OF wf] show ?thesis
        by (simp add: ut_event_timer_start_def)
    next
      case (Some i)
      then have i: "i < length (t_slots s)" "\<not> sl_active (t_slots s ! i)"
        using len by (auto simp: find_free_slot_def dest: first_index_SomeD)
      then have room: "t_count s < t_capacity s" using count_slots_lt [of i] len cnt by fastforce
      let ?y = "configure_slot t e (now + delay) period (t_slots s ! i)"
      have y: "sl_active ?y" "sl_id ?y \<notin> dom (timers s)" using new by (simp_all add: configure_slot_def)
      have "size_add (t_count s) 1 = Suc (t_count s)"
        using room scheduler_wf_capacity [OF wf] by simp
      with Some calc none new Start wf idle card_timers [OF wf] room fill_slot [OF wf i y] show ?thesis
        by (simp add: ut_event_timer_start_def configure_slot_def)
    qed
  qed
next
  case (Restart t e now delay period)
  show ?thesis
  proof (cases "unat now + unat delay < 2 ^ 64")
    case False
    then have "calculate_deadline now delay = None"
      using calculate_deadline_Some_iff [of now delay] by (cases "calculate_deadline now delay") auto
    with False Restart wf idle show ?thesis by (simp add: ut_event_timer_restart_def)
  next
    case True
    then have calc: "calculate_deadline now delay = Some (now + delay)"
      by (simp add: calculate_deadline_Some_iff)
    show ?thesis
    proof (cases "find_slot s t")
      case None
      with True calc Restart wf idle find_slot_None_iff [OF wf, of t] show ?thesis
        by (simp add: ut_event_timer_restart_def)
    next
      case (Some i)
      note i = find_slot_SomeD [OF wf Some]
      let ?y = "configure_slot t e (now + delay) period (t_slots s ! i)"
      have "sl_active ?y" "sl_id ?y = sl_id (t_slots s ! i)" using i by (simp_all add: configure_slot_def)
      note o = overwrite_slot [OF wf _ _ this]
      have "t \<in> dom (timers s)" using Some find_slot_None_iff [OF wf, of t] by auto
      with True Some calc Restart wf idle i o show ?thesis
        by (auto simp: ut_event_timer_restart_def configure_slot_def)
    qed
  qed
next
  case (Cancel t)
  show ?thesis
  proof (cases "find_slot s t")
    case None
    with Cancel wf idle find_slot_None_iff [OF wf, of t] show ?thesis
      by (simp add: ut_event_timer_cancel_def)
  next
    case (Some i)
    note i = find_slot_SomeD [OF wf Some]
    have cnt: "t_count s = count_slots sl_active (t_slots s)" "length (t_slots s) = t_capacity s"
      using wf by (simp_all add: scheduler_wf_def)
    then have "0 < t_count s" "t_count s \<le> size_max"
      using i count_slots_pos [of i "t_slots s" sl_active] count_slots_le [of sl_active "t_slots s"]
        scheduler_wf_capacity [OF wf] by simp_all
    then have "size_sub (t_count s) 1 = t_count s - 1" by simp
    moreover have "t \<in> dom (timers s)" using Some find_slot_None_iff [OF wf, of t] by auto
    ultimately show ?thesis
      using Some Cancel wf idle i clear_slot [OF wf, of i] by (simp add: ut_event_timer_cancel_def)
  qed
next
  case TimerCount
  with wf idle card_timers [OF wf] show ?thesis by (simp add: ut_event_timer_count_def)
next
  case NextDeadline
  have len: "length (t_slots s) = t_capacity s" using wf by (simp add: scheduler_wf_def)
  note Min = deadlines_of_timers [OF wf] and scan = next_deadline_scan_start [of "t_slots s"]
  show ?thesis
  proof (cases "active_deadlines (t_slots s) = {}")
    case True
    then have "timers s = Map.empty" by (simp only: timers_empty_iff)
    with True NextDeadline wf idle scan len show ?thesis
      by (simp add: ut_event_timer_next_deadline_def)
  next
    case False
    then have "timers s \<noteq> Map.empty" by (simp only: timers_empty_iff not_False_eq_True)
    with False NextDeadline wf idle scan len Min show ?thesis
      by (simp add: ut_event_timer_next_deadline_def)
  qed
qed

lemma timer_run_refines:
  "scheduler_wf s \<Longrightarrow> \<not> t_processing s \<Longrightarrow>
    \<exists>bs s'. timer_run (Some s) cs = (bs, Some s') \<and> scheduler_wf s' \<and> \<not> t_processing s' \<and>
      timer_spec_run (t_capacity s) (timers s) cs = (bs, timers s')"
proof (induction cs arbitrary: s)
  case Nil
  then show ?case by simp
next
  case (Cons c cs)
  obtain b r where st: "timer_step (Some s) c = (b, Some r)" "scheduler_wf r" "\<not> t_processing r"
      "t_capacity r = t_capacity s" "timer_spec_step (t_capacity s) (timers s) c = (b, timers r)"
    using timer_step_refines [OF Cons.prems] by blast
  from Cons.IH [OF st(2,3)] st show ?case by auto
qed

section \<open>Processing\<close>

text \<open>
  What one processing pass owes: the due slots in table order, each retired or moved on
  (\<open>after_fire\<close>), of which only the first \<open>room\<close> fit the queue (\<open>fire\<close>).
\<close>

definition due :: "u64 \<Rightarrow> ut_event_timer_slot \<Rightarrow> bool" where
  "due now sl \<longleftrightarrow> sl_active sl \<and> sl_deadline sl \<le> now"

definition after_fire :: "u64 \<Rightarrow> ut_event_timer_slot \<Rightarrow> ut_event_timer_slot" where
  "after_fire now sl =
     (let d = next_tick (unat (sl_deadline sl)) (unat (sl_period sl)) (unat now)
      in if sl_period sl = 0 \<or> 2 ^ 64 \<le> d then zero_slot else sl\<lparr>sl_deadline := of_nat d\<rparr>)"

fun fire :: "nat \<Rightarrow> u64 \<Rightarrow> ut_event_timer_slot list \<Rightarrow> ut_event_timer_slot list" where
  "fire k now [] = []"
| "fire k now (sl # sls) =
     (if \<not> due now sl then sl # fire k now sls
      else if k = 0 then sl # sls
      else after_fire now sl # fire (k - 1) now sls)"

lemma length_fire [simp]: "length (fire k now sls) = length sls"
  by (induction k now sls rule: fire.induct) simp_all

lemma fire_0 [simp]: "fire 0 now sls = sls"
  by (induction sls) simp_all

lemma zero_slot_inactive [simp]: "\<not> sl_active zero_slot"
  by (simp add: zero_slot_def)

lemma after_fire_later: "due now sl \<Longrightarrow> \<not> due now (after_fire now sl)"
proof -
  assume due: "due now sl"
  let ?d = "next_tick (unat (sl_deadline sl)) (unat (sl_period sl)) (unat now)"
  show ?thesis
  proof (cases "sl_period sl = 0 \<or> 2 ^ 64 \<le> ?d")
    case True
    then show ?thesis by (simp add: after_fire_def due_def Let_def)
  next
    case False
    then have "unat now < ?d" and "?d < 2 ^ 64"
      using due next_tick_gt [of "unat (sl_period sl)" "unat (sl_deadline sl)" "unat now"]
      by (simp_all add: due_def word_le_nat_alt unat_gt_0)
    moreover from this have "unat (of_nat ?d :: u64) = ?d" by (simp add: unat_of_nat take_bit_nat_eq_self)
    ultimately have "now < of_nat ?d" by (simp add: word_less_nat_alt)
    with False show ?thesis by (auto simp: after_fire_def due_def Let_def not_le)
  qed
qed

text \<open>Firing some of the due slots leaves exactly the others due; firing all leaves none.\<close>

lemma due_fire: "filter (due now) (fire k now sls) = drop k (filter (due now) sls)"
proof (induction k now sls rule: fire.induct)
  case (2 k now sl sls)
  then show ?case using after_fire_later [of now sl] by (cases k) simp_all
qed simp

lemma fire_fire: "fire j now (fire k now sls) = fire (k + j) now sls"
proof (induction k now sls rule: fire.induct)
  case (2 k now sl sls)
  then show ?case using after_fire_later [of now sl] by (cases k) simp_all
qed simp

lemma fire_all:
  "length (filter (due now) sls) \<le> k \<Longrightarrow> fire k now sls = map (\<lambda>sl. if due now sl then after_fire now sl else sl) sls"
  by (induction k now sls rule: fire.induct) auto

text \<open>The entries of the fired table are entries of the old one, under the same ids.\<close>

lemma timer_entries_Cons:
  "timer_entries (sl # sls) = (if sl_active sl then timer_entry sl # timer_entries sls else timer_entries sls)"
  by (simp add: timer_entries_def)

lemma after_fire_id: "sl_active (after_fire now sl) \<Longrightarrow> sl_id (after_fire now sl) = sl_id sl"
  by (auto simp: after_fire_def Let_def split: if_splits)

lemma fire_ids: "set (map fst (timer_entries (fire k now sls))) \<subseteq> set (map fst (timer_entries sls))"
  by (induction k now sls rule: fire.induct)
    (auto simp: timer_entries_Cons after_fire_id due_def split: if_splits)

lemma fire_distinct:
  "distinct (map fst (timer_entries sls)) \<Longrightarrow> distinct (map fst (timer_entries (fire k now sls)))"
proof (induction k now sls rule: fire.induct)
  case (2 k now sl sls)
  have "fst (timer_entry sl) \<notin> set (map fst (timer_entries (fire j now sls)))"
    if "fst (timer_entry sl) \<notin> set (map fst (timer_entries sls))" for j
    using that fire_ids [of j now sls] by blast
  with 2 show ?case
    by (auto simp: timer_entries_Cons after_fire_id due_def simp del: set_map split: if_splits)
qed simp

lemma queue_room: "queue_wf q \<Longrightarrow> q_count q \<le> q_capacity q"
  by (simp add: queue_wf_def)

lemma process_slots_fire:
  assumes "queue_wf q" and "c + length sls \<le> size_max" and "em + length sls \<le> size_max"
  shows "\<exists>q'. process_slots now sls (Some q) (c + count_slots sl_active sls) em =
      (if length (filter (due now) sls) \<le> q_capacity q - q_count q then UT_EVENT_OK else UT_EVENT_FULL,
       fire (q_capacity q - q_count q) now sls, Some q',
       c + count_slots sl_active (fire (q_capacity q - q_count q) now sls),
       em + min (q_capacity q - q_count q) (length (filter (due now) sls))) \<and>
    queue_wf q' \<and> q_capacity q' = q_capacity q \<and>
    queue_items q' = queue_items q
      @ take (q_capacity q - q_count q) (map sl_event (filter (due now) sls))"
  using assms
proof (induction sls arbitrary: q c em)
  case Nil
  then show ?case by (simp add: count_slots_def)
next
  case (Cons sl sls)
  let ?room = "q_capacity q - q_count q"
  show ?case
  proof (cases "due now sl")
    case False
    let ?c = "c + (if sl_active sl then 1 else 0)"
    have nd: "\<not> sl_active sl \<or> now < sl_deadline sl" using False by (auto simp: due_def)
    have c: "c + count_slots sl_active (sl # xs) = ?c + count_slots sl_active xs" for xs
      by (simp add: count_slots_def)
    from Cons.prems have "?c + length sls \<le> size_max" "em + length sls \<le> size_max" by auto
    from Cons.IH [OF Cons.prems(1) this] nd False show ?thesis by (auto simp: c)
  next
    case True
    then have act: "sl_active sl" "\<not> now < sl_deadline sl" "sl_deadline sl \<le> now" by (auto simp: due_def)
    show ?thesis
    proof (cases "q_count q = q_capacity q")
      case full: True
      with True act push_full [OF Cons.prems(1)] Cons.prems(1) show ?thesis by simp
    next
      case False
      then have lt: "q_count q < q_capacity q" using queue_room [OF Cons.prems(1)] by simp
      from push_room [OF Cons.prems(1) lt, of "sl_event sl"] obtain q1 where
        push: "ut_event_queue_push (Some q) (Some (sl_event sl)) = (UT_EVENT_OK, Some q1)"
        and q1: "queue_wf q1" "q_capacity q1 = q_capacity q" "queue_items q1 = queue_items q @ [sl_event sl]"
        by auto
      have cnt1: "q_count q1 = Suc (q_count q)" using q1(3) by (metis length_queue_items length_append_singleton)
      let ?sl = "after_fire now sl"
      let ?c = "c + (if sl_active ?sl then 1 else 0)"
      have c1: "size_sub (c + count_slots sl_active (sl # sls)) 1 = c + count_slots sl_active sls"
      proof -
        have "Suc (c + length (filter sl_active sls)) \<le> size_max"
          using Cons.prems(2) length_filter_le [of sl_active sls] unfolding list.size by arith
        with act(1) show ?thesis by (simp add: count_slots_def)
      qed
      have em1: "size_add em 1 = em + 1" using Cons.prems(3) by simp
      have step: "(if sl_period sl = 0 then (zero_slot, size_sub (c + count_slots sl_active (sl # sls)) 1)
          else case advance_periodic_deadline sl now of
                 None \<Rightarrow> (zero_slot, size_sub (c + count_slots sl_active (sl # sls)) 1)
               | Some s \<Rightarrow> (s, c + count_slots sl_active (sl # sls)))
        = (?sl, ?c + count_slots sl_active sls)"
        using act unfolding c1
        by (auto simp: after_fire_def Let_def advance_next_tick count_slots_def)
      have c2: "c + count_slots sl_active (?sl # xs) = ?c + count_slots sl_active xs" for xs
        by (simp add: count_slots_def)
      have "?c + length sls \<le> size_max" "em + 1 + length sls \<le> size_max" using Cons.prems by auto
      note IH = Cons.IH [OF q1(1) this]
      obtain k where k: "?room = Suc k" "q_capacity q1 - q_count q1 = k"
        using lt q1(2) cnt1 by (metis Suc_diff_Suc)
      have "process_slots now (sl # sls) (Some q) (c + count_slots sl_active (sl # sls)) em =
          (let (r, slots', queue'', count', emitted') =
             process_slots now sls (Some q1) (?c + count_slots sl_active sls) (em + 1)
           in (r, ?sl # slots', queue'', count', emitted'))"
        using act by (simp only: process_slots.simps push step em1) simp
      with IH q1 True k show ?thesis by (auto simp: c2)
    qed
  qed
qed

lemma process_fires:
  fixes now :: u64
  assumes wf: "scheduler_wf s" and idle: "\<not> t_processing s" and q: "queue_wf q"
  defines "room \<equiv> q_capacity q - q_count q" and "dues \<equiv> filter (due now) (t_slots s)"
  shows "\<exists>s' q'. ut_event_timer_process (Some s) now (Some q) (Some n0) =
      (if length dues \<le> room then UT_EVENT_OK else UT_EVENT_FULL, Some s', Some q',
       Some (min room (length dues))) \<and>
    scheduler_wf s' \<and> \<not> t_processing s' \<and> t_slots s' = fire room now (t_slots s) \<and>
    queue_wf q' \<and> q_capacity q' = q_capacity q \<and>
    queue_items q' = queue_items q @ take room (map sl_event dues)"
proof -
  have len: "length (t_slots s) = t_capacity s" "t_count s = count_slots sl_active (t_slots s)"
    and dist: "distinct (map fst (timer_entries (t_slots s)))"
    using wf by (simp_all add: scheduler_wf_def)
  with scheduler_wf_capacity [OF wf] have le: "0 + length (t_slots s) \<le> size_max" by simp
  from process_slots_fire [OF q le le, of now] fire_distinct [OF dist] wf idle len show ?thesis
    by (auto simp: ut_event_timer_process_def room_def dues_def scheduler_wf_def)
qed

text \<open>Processing a table whose due events all fit, seen on the map of timers.\<close>

definition elapse :: "u64 \<Rightarrow> ut_event \<times> u64 \<times> u64 \<Rightarrow> (ut_event \<times> u64 \<times> u64) option" where
  "elapse now = (\<lambda>(e, d, p).
     if now < d then Some (e, d, p)
     else let d' = next_tick (unat d) (unat p) (unat now)
       in if p = 0 \<or> 2 ^ 64 \<le> d' then None else Some (e, of_nat d', p))"

lemma timer_entry_elapse:
  "sl_active sl \<Longrightarrow>
    (case elapse now (sl_event sl, sl_deadline sl, sl_period sl) of
       None \<Rightarrow> \<not> sl_active (if due now sl then after_fire now sl else sl)
     | Some v \<Rightarrow> sl_active (if due now sl then after_fire now sl else sl) \<and>
         timer_entry (if due now sl then after_fire now sl else sl) = (sl_id sl, v))"
  by (auto simp: elapse_def due_def after_fire_def Let_def not_le)

lemma map_of_fire_all:
  "distinct (map fst (timer_entries sls)) \<Longrightarrow>
    map_of (timer_entries (map (\<lambda>sl. if due now sl then after_fire now sl else sl) sls)) t
      = Option.bind (map_of (timer_entries sls) t) (elapse now)"
proof (induction sls)
  case Nil
  then show ?case by (simp add: timer_entries_def)
next
  case (Cons sl sls)
  let ?f = "\<lambda>sl. if due now sl then after_fire now sl else sl"
  show ?case
  proof (cases "sl_active sl")
    case False
    then have "\<not> sl_active (?f sl)" by (simp add: due_def)
    with False Cons show ?thesis by (simp add: timer_entries_Cons)
  next
    case True
    then have "map_of (timer_entries sls) (sl_id sl) = None"
      using Cons.prems by (simp add: timer_entries_Cons map_of_eq_None_iff)
    with Cons True timer_entry_elapse [OF True, of now] show ?thesis
      by (cases "elapse now (sl_event sl, sl_deadline sl, sl_period sl)")
        (auto simp: timer_entries_Cons)
  qed
qed

text \<open>A table with a one-shot and a periodic timer, both due at tick 7, and queues to process it into.\<close>

definition sample_scheduler :: ut_event_timer_scheduler where
  "sample_scheduler = \<lparr>t_slots =
      [\<lparr>sl_id = 1, sl_event = zero_event\<lparr>ev_id := 10\<rparr>, sl_deadline = 5, sl_period = 0, sl_active = True\<rparr>,
       \<lparr>sl_id = 2, sl_event = zero_event\<lparr>ev_id := 20\<rparr>, sl_deadline = 6, sl_period = 4, sl_active = True\<rparr>],
    t_capacity = 2, t_count = 2, t_processing = False\<rparr>"

definition sample_queue :: "nat \<Rightarrow> ut_event_queue" where
  "sample_queue n = \<lparr>q_storage = replicate n zero_event, q_capacity = n, q_head = 0, q_tail = 0, q_count = 0\<rparr>"

lemma sample_scheduler_wf: "scheduler_wf sample_scheduler" "\<not> t_processing sample_scheduler"
  by (simp_all add: sample_scheduler_def scheduler_wf_def timer_entries_def count_slots_def
      size_max_def sizeof_timer_slot_def)

lemma sample_queue_wf: "0 < n \<Longrightarrow> n \<le> size_max \<Longrightarrow> queue_wf (sample_queue n)"
  by (simp add: sample_queue_def queue_wf_def)

lemmas timer_eval = sample_scheduler_def sample_queue_def ut_event_timer_process_def scheduler_is_valid_def
  ut_event_queue_push_def queue_is_valid_def advance_periodic_deadline_def zero_slot_def zero_event_def
  uint64_max_def size_max_def Let_def replicate_two

section \<open>Properties\<close>

text \<open>Property C19. From initialisation on, any sequence of start, restart, cancel, count and
  next-deadline calls answers as a finite map from timer ids to (event, deadline, period) bounded by
  the capacity would: a deadline past the 64-bit clock is an invalid argument, a running id is not
  started twice, a full table refuses, the count is the size of the map and the next deadline its
  least deadline.\<close>

theorem timer_api_refines_bounded_map:
  assumes "storage \<noteq> []" and "length storage \<le> size_max div sizeof_timer_slot"
  shows "\<exists>s. ut_event_timer_scheduler_init (Some s0) storage (length storage) = (UT_EVENT_OK, Some s) \<and>
    (\<forall>calls. fst (timer_run (Some s) calls) = fst (timer_spec_run (length storage) Map.empty calls))"
proof -
  let ?s = "\<lparr>t_slots = replicate (length storage) zero_slot, t_capacity = length storage, t_count = 0,
             t_processing = False\<rparr>"
  have init: "ut_event_timer_scheduler_init (Some s0) storage (length storage) = (UT_EVENT_OK, Some ?s)"
    using assms by (simp add: ut_event_timer_scheduler_init_def)
  have "timer_entries (replicate (length storage) zero_slot) = []" by (simp add: timer_entries_def)
  then have s: "scheduler_wf ?s" "timers ?s = Map.empty" "\<not> t_processing ?s"
    using assms by (simp_all add: scheduler_wf_def timers_def)
  have "fst (timer_run (Some ?s) calls) = fst (timer_spec_run (length storage) Map.empty calls)" for calls
    using timer_run_refines [OF s(1,3), of calls] s(2) by auto
  with init show ?thesis by blast
qed

theorem timer_api_refines_bounded_map_witness:
  "\<exists>s. ut_event_timer_scheduler_init
         (Some \<lparr>t_slots = [], t_capacity = 0, t_count = 0, t_processing = True\<rparr>)
         (replicate 2 zero_slot) 2 = (UT_EVENT_OK, Some s) \<and>
    (\<forall>calls. fst (timer_run (Some s) calls) = fst (timer_spec_run 2 Map.empty calls))"
  using timer_api_refines_bounded_map [of "replicate 2 zero_slot"
      "\<lparr>t_slots = [], t_capacity = 0, t_count = 0, t_processing = True\<rparr>"]
  by (simp add: size_max_def sizeof_timer_slot_def)

text \<open>Property C13. One processing pass pushes the events of the due timers, in table order and each
  exactly once, as far as the queue has room: it answers OK if all of them fit and FULL otherwise,
  reports the number it pushed, and leaves a well-formed scheduler (unique ids, exact count) that is
  no longer processing and a well-formed queue.\<close>

theorem timer_process_emits_due_events:
  assumes "scheduler_wf s" and "\<not> t_processing s" and "queue_wf q"
  shows "\<exists>s' q'. ut_event_timer_process (Some s) now (Some q) (Some n0) =
      (if length (filter (due now) (t_slots s)) \<le> q_capacity q - q_count q then UT_EVENT_OK else UT_EVENT_FULL,
       Some s', Some q', Some (min (q_capacity q - q_count q) (length (filter (due now) (t_slots s))))) \<and>
    scheduler_wf s' \<and> \<not> t_processing s' \<and> queue_wf q' \<and>
    queue_items q' = queue_items q
      @ take (q_capacity q - q_count q) (map sl_event (filter (due now) (t_slots s)))"
  using process_fires [OF assms, of now n0] by blast

theorem timer_process_emits_due_events_witness:
  "\<exists>s' q'. ut_event_timer_process (Some sample_scheduler) 7 (Some (sample_queue 1)) (Some 9) =
      (UT_EVENT_FULL, Some s', Some q', Some 1) \<and>
    scheduler_wf s' \<and> \<not> t_processing s' \<and> queue_wf q' \<and> queue_items q' = [zero_event\<lparr>ev_id := 10\<rparr>]"
  using timer_process_emits_due_events
      [OF sample_scheduler_wf sample_queue_wf [of 1], of 7 9]
  by (simp add: sample_scheduler_def sample_queue_def due_def queue_items_def size_max_def)

text \<open>A pass that answers OK takes every timer forward in time: a one-shot timer that is
  due disappears, a due periodic timer moves to its first multiple of the period after now and stops
  only if the 64-bit clock cannot hold that tick, every other timer is untouched, and no deadline at or
  before now is left.\<close>

theorem timer_process_ok_elapses:
  assumes "scheduler_wf s" and "\<not> t_processing s" and "queue_wf q"
    and "ut_event_timer_process (Some s) now (Some q) (Some n0) = (UT_EVENT_OK, Some s', q', n)"
  shows "timers s' = (\<lambda>t. Option.bind (timers s t) (elapse now)) \<and>
    (\<forall>t e d p. timers s' t = Some (e, d, p) \<longrightarrow> now < d)"
proof -
  let ?f = "\<lambda>sl. if due now sl then after_fire now sl else sl"
  have all: "length (filter (due now) (t_slots s)) \<le> q_capacity q - q_count q"
    and s': "t_slots s' = fire (q_capacity q - q_count q) now (t_slots s)"
    using process_fires [OF assms(1-3), of now n0] assms(4) by (auto split: if_splits)
  have dist: "distinct (map fst (timer_entries (t_slots s)))" using assms(1) by (simp add: scheduler_wf_def)
  have "timers s' = (\<lambda>t. Option.bind (timers s t) (elapse now))"
    unfolding timers_def s' fire_all [OF all] by (rule ext) (rule map_of_fire_all [OF dist])
  moreover have "now < d" if "timers s' t = Some (e, d, p)" for t e d p
  proof -
    have "(t, e, d, p) \<in> set (timer_entries (t_slots s'))" using that by (simp add: timers_def map_of_SomeD)
    then obtain sl where "sl \<in> set (t_slots s')" "sl_active sl" "sl_deadline sl = d"
      by (auto simp: timer_entries_def)
    moreover have "filter (due now) (t_slots s') = []" unfolding s' due_fire using all by simp
    ultimately show ?thesis by (auto simp: due_def filter_empty_conv not_le)
  qed
  ultimately show ?thesis by blast
qed

theorem timer_process_ok_elapses_witness:
  "\<exists>s' q'. ut_event_timer_process (Some sample_scheduler) 7 (Some (sample_queue 2)) (Some 0)
      = (UT_EVENT_OK, Some s', q', Some 2) \<and>
    timers s' = (\<lambda>t. Option.bind (timers sample_scheduler t) (elapse 7)) \<and>
    (\<forall>t e d p. timers s' t = Some (e, d, p) \<longrightarrow> 7 < d)"
proof -
  have q: "queue_wf (sample_queue 2)" by (simp add: sample_queue_wf size_max_def)
  obtain s' q' where p: "ut_event_timer_process (Some sample_scheduler) 7 (Some (sample_queue 2)) (Some 0)
      = (UT_EVENT_OK, Some s', q', Some 2)"
    by (simp add: timer_eval)
  from timer_process_ok_elapses [OF sample_scheduler_wf q p] p show ?thesis by blast
qed

text \<open>A pass stopped by a full queue loses nothing: a second pass at the same tick into a
  queue with room pushes exactly the events the first one did not, and the two passes together leave
  the table as one unobstructed pass would.\<close>

theorem timer_process_resumes_after_full:
  assumes "scheduler_wf s" and "\<not> t_processing s" and "queue_wf q1" and "queue_wf q2"
    and "ut_event_timer_process (Some s) now (Some q1) (Some n0) = (UT_EVENT_FULL, Some s1, Some q1', n1)"
    and "ut_event_timer_process (Some s1) now (Some q2) (Some n0) = (UT_EVENT_OK, Some s2, Some q2', n2)"
  shows "drop (q_count q1) (queue_items q1') @ drop (q_count q2) (queue_items q2')
      = map sl_event (filter (due now) (t_slots s)) \<and>
    t_slots s2 = map (\<lambda>sl. if due now sl then after_fire now sl else sl) (t_slots s)"
proof -
  let ?k = "q_capacity q1 - q_count q1" and ?l = "q_capacity q2 - q_count q2"
  let ?d = "filter (due now) (t_slots s)"
  have one: "scheduler_wf s1" "\<not> t_processing s1" "t_slots s1 = fire ?k now (t_slots s)"
    "queue_items q1' = queue_items q1 @ take ?k (map sl_event ?d)"
    using process_fires [OF assms(1-3), of now n0] assms(5) by (auto split: if_splits)
  have two: "length (filter (due now) (t_slots s1)) \<le> ?l" "t_slots s2 = fire ?l now (t_slots s1)"
    "queue_items q2' = queue_items q2 @ take ?l (map sl_event (filter (due now) (t_slots s1)))"
    using process_fires [OF one(1,2) assms(4), of now n0] assms(6) by (auto split: if_splits)
  have rest: "filter (due now) (t_slots s1) = drop ?k ?d" using one(3) by (simp add: due_fire)
  with two(1) have "take ?l (map sl_event (filter (due now) (t_slots s1))) = drop ?k (map sl_event ?d)"
    by (simp add: drop_map)
  with one(4) two(3) have "drop (q_count q1) (queue_items q1') @ drop (q_count q2) (queue_items q2')
      = map sl_event ?d" by simp
  moreover have "length ?d \<le> ?k + ?l" using rest two(1) by simp
  then have "t_slots s2 = map (\<lambda>sl. if due now sl then after_fire now sl else sl) (t_slots s)"
    unfolding two(2) one(3) fire_fire by (rule fire_all)
  ultimately show ?thesis by simp
qed

theorem timer_process_resumes_after_full_witness:
  "\<exists>s1 q1' s2 q2'.
    ut_event_timer_process (Some sample_scheduler) 7 (Some (sample_queue 1)) (Some 0)
      = (UT_EVENT_FULL, Some s1, Some q1', Some 1) \<and>
    ut_event_timer_process (Some s1) 7 (Some (sample_queue 1)) (Some 0)
      = (UT_EVENT_OK, Some s2, Some q2', Some 1) \<and>
    queue_items q1' @ queue_items q2' = [zero_event\<lparr>ev_id := 10\<rparr>, zero_event\<lparr>ev_id := 20\<rparr>]"
proof -
  have q: "queue_wf (sample_queue 1)" by (simp add: sample_queue_wf size_max_def)
  let ?s1 = "sample_scheduler\<lparr>t_slots := (t_slots sample_scheduler)[0 := zero_slot], t_count := 1\<rparr>"
  obtain q1' where p1: "ut_event_timer_process (Some sample_scheduler) 7 (Some (sample_queue 1)) (Some 0)
      = (UT_EVENT_FULL, Some ?s1, Some q1', Some 1)"
    by (simp add: timer_eval)
  obtain s2 q2' where p2: "ut_event_timer_process (Some ?s1) 7 (Some (sample_queue 1)) (Some 0)
      = (UT_EVENT_OK, Some s2, Some q2', Some 1)"
    by (simp add: timer_eval)
  from timer_process_resumes_after_full [OF sample_scheduler_wf q q p1 p2] p1 p2 show ?thesis
    by (auto simp: sample_queue_def due_def sample_scheduler_def)
qed

end
