(* ===== verification/Event_Contract.thy ===== *)
theory Event_Contract
  imports Event_Types
begin

text \<open>
  The contract registry (\<open>utility_event_contract.c\<close>): a caller-owned, read-only table that fixes for
  each event id the payload sizes and the ownership of the payload. A contract the code returns by
  address is its index in the table.
\<close>

type_synonym ut_event_payload_ownership = u32

definition UT_EVENT_PAYLOAD_NONE :: ut_event_payload_ownership where
  "UT_EVENT_PAYLOAD_NONE = 0"

definition UT_EVENT_PAYLOAD_BORROWED :: ut_event_payload_ownership where
  "UT_EVENT_PAYLOAD_BORROWED = 1"

definition UT_EVENT_PAYLOAD_BUFFER_REF :: ut_event_payload_ownership where
  "UT_EVENT_PAYLOAD_BUFFER_REF = 2"

record ut_event_contract =
  c_event_id :: u32
  c_name :: ptr
  c_payload_min_size :: nat
  c_payload_max_size :: nat
  c_ownership :: ut_event_payload_ownership

record ut_event_contract_registry =
  r_contracts :: "ut_event_contract list"
  r_count :: nat

section \<open>Operations\<close>

text \<open>\<open>sizeof(ut_event_contract_t)\<close> and \<open>sizeof(ut_event_buffer_ref_t)\<close> on an LP64 target.\<close>

definition sizeof_contract :: nat where
  "sizeof_contract = 40"

definition sizeof_buffer_ref :: nat where
  "sizeof_buffer_ref = 24"

definition registry_is_valid :: "ut_event_contract_registry option \<Rightarrow> bool" where
  "registry_is_valid registry =
     (case registry of None \<Rightarrow> False | Some r \<Rightarrow> r_contracts r \<noteq> [] \<and> 0 < r_count r)"

definition ownership_is_valid :: "ut_event_payload_ownership \<Rightarrow> bool" where
  "ownership_is_valid ownership \<longleftrightarrow>
     ownership = UT_EVENT_PAYLOAD_NONE \<or> ownership = UT_EVENT_PAYLOAD_BORROWED \<or>
     ownership = UT_EVENT_PAYLOAD_BUFFER_REF"

definition contract_is_valid :: "ut_event_contract option \<Rightarrow> bool" where
  "contract_is_valid contract =
     (case contract of
        None \<Rightarrow> False
      | Some c \<Rightarrow>
          if c_event_id c = UT_EVENT_ID_ANY \<or> \<not> ownership_is_valid (c_ownership c) \<or>
             c_payload_max_size c < c_payload_min_size c then False
          else if c_ownership c = UT_EVENT_PAYLOAD_NONE then
            c_payload_min_size c = 0 \<and> c_payload_max_size c = 0
          else if c_ownership c = UT_EVENT_PAYLOAD_BUFFER_REF then
            c_payload_min_size c = sizeof_buffer_ref \<and> c_payload_max_size c = sizeof_buffer_ref
          else True)"

text \<open>The nested loops of the initialisation: each contract is checked, then compared with the later ones.\<close>

fun contracts_scan :: "ut_event_contract list \<Rightarrow> ut_event_result" where
  "contracts_scan [] = UT_EVENT_OK"
| "contracts_scan (c # cs) =
     (if \<not> contract_is_valid (Some c) then UT_EVENT_INVALID_ARGUMENT
      else if list_ex (\<lambda>other. c_event_id c = c_event_id other) cs then UT_EVENT_ALREADY_EXISTS
      else contracts_scan cs)"

definition ut_event_contract_registry_init ::
    "ut_event_contract_registry option \<Rightarrow> ut_event_contract list \<Rightarrow> nat \<Rightarrow>
     ut_event_result \<times> ut_event_contract_registry option" where
  "ut_event_contract_registry_init registry contracts count =
     (if registry = None \<or> contracts = [] \<or> count = 0 \<or> size_max div sizeof_contract < count
      then (UT_EVENT_INVALID_ARGUMENT, registry)
      else let result = contracts_scan (take count contracts) in
        if result \<noteq> UT_EVENT_OK then (result, registry)
        else (UT_EVENT_OK, Some \<lparr>r_contracts = contracts, r_count = count\<rparr>))"

definition ut_event_contract_find ::
    "ut_event_contract_registry option \<Rightarrow> u32 \<Rightarrow> nat option \<Rightarrow> ut_event_result \<times> nat option" where
  "ut_event_contract_find registry event_id out_contract =
     (if \<not> registry_is_valid registry \<or> out_contract = None
      then (UT_EVENT_INVALID_ARGUMENT, out_contract)
      else let r = the registry in
        case first_index (\<lambda>c. c_event_id c = event_id) (take (r_count r) (r_contracts r)) of
          None \<Rightarrow> (UT_EVENT_NOT_FOUND, out_contract)
        | Some index \<Rightarrow> (UT_EVENT_OK, Some index))"

text \<open>The local \<open>contract\<close> is uninitialised in the code; \<open>0\<close> stands for its contents, which no
  path reads.\<close>

definition ut_event_contract_validate ::
    "ut_event_contract_registry option \<Rightarrow> ut_event option \<Rightarrow> ut_event_result" where
  "ut_event_contract_validate registry event =
     (case event of
        None \<Rightarrow> UT_EVENT_INVALID_ARGUMENT
      | Some e \<Rightarrow>
          let (result, found) = ut_event_contract_find registry (ev_id e) (Some 0) in
          if result \<noteq> UT_EVENT_OK then result
          else let contract = r_contracts (the registry) ! the found in
            if ev_payload e = 0 \<and> ev_payload_size e \<noteq> 0 \<or>
               ev_payload e \<noteq> 0 \<and> ev_payload_size e = 0 \<or>
               ev_payload_size e < c_payload_min_size contract \<or>
               c_payload_max_size contract < ev_payload_size e
            then UT_EVENT_INVALID_ARGUMENT
            else UT_EVENT_OK)"

section \<open>The table as a map\<close>

lemma contracts_scan_OK_iff:
  "contracts_scan cs = UT_EVENT_OK \<longleftrightarrow>
    (\<forall>c\<in>set cs. contract_is_valid (Some c)) \<and> distinct (map c_event_id cs)"
  by (induction cs) (auto simp: list_ex_iff)

lemma contracts_scan_errors:
  "contracts_scan cs \<in> {UT_EVENT_OK, UT_EVENT_INVALID_ARGUMENT, UT_EVENT_ALREADY_EXISTS} \<and>
    (contracts_scan cs = UT_EVENT_ALREADY_EXISTS \<longrightarrow> \<not> distinct (map c_event_id cs)) \<and>
    (contracts_scan cs = UT_EVENT_INVALID_ARGUMENT \<longrightarrow> (\<exists>c\<in>set cs. \<not> contract_is_valid (Some c)))"
  by (induction cs) (auto simp: list_ex_iff)

text \<open>The table read as a map from event ids to contracts, and what a contract asks of a payload.\<close>

definition contract_map :: "ut_event_contract list \<Rightarrow> u32 \<rightharpoonup> ut_event_contract" where
  "contract_map cs = map_of (map (\<lambda>c. (c_event_id c, c)) cs)"

definition payload_fits :: "ut_event_contract \<Rightarrow> ut_event \<Rightarrow> bool" where
  "payload_fits c e \<longleftrightarrow>
     (if c_ownership c = UT_EVENT_PAYLOAD_NONE then ev_payload e = 0 \<and> ev_payload_size e = 0
      else if c_ownership c = UT_EVENT_PAYLOAD_BUFFER_REF then
        ev_payload e \<noteq> 0 \<and> ev_payload_size e = sizeof_buffer_ref
      else c_payload_min_size c \<le> ev_payload_size e \<and> ev_payload_size e \<le> c_payload_max_size c \<and>
        (ev_payload e = 0 \<longleftrightarrow> ev_payload_size e = 0))"

lemma contract_map_first_index:
  "contract_map cs i = map_option (\<lambda>k. cs ! k) (first_index (\<lambda>c. c_event_id c = i) cs)"
  by (induction cs) (auto simp: contract_map_def option.map_comp comp_def)

lemma contract_map_SomeD:
  "contract_map cs i = Some c \<Longrightarrow> c \<in> set cs \<and> c_event_id c = i"
  by (auto simp: contract_map_def dest!: map_of_SomeD)

lemma payload_fits_valid:
  "contract_is_valid (Some c) \<Longrightarrow>
    payload_fits c e \<longleftrightarrow> (ev_payload e = 0 \<longleftrightarrow> ev_payload_size e = 0) \<and>
      c_payload_min_size c \<le> ev_payload_size e \<and> ev_payload_size e \<le> c_payload_max_size c"
  by (auto simp: payload_fits_def contract_is_valid_def sizeof_buffer_ref_def split: if_splits)

lemma registry_init_OK:
  assumes "ut_event_contract_registry_init r0 contracts (length contracts) = (UT_EVENT_OK, r)"
  shows "\<exists>r'. r = Some r' \<and> registry_is_valid r \<and> r_contracts r' = contracts \<and>
    r_count r' = length contracts \<and> (\<forall>c\<in>set contracts. contract_is_valid (Some c)) \<and>
    distinct (map c_event_id contracts)"
  using assms contracts_scan_OK_iff [of contracts]
  by (auto simp: ut_event_contract_registry_init_def registry_is_valid_def Let_def split: if_splits)

section \<open>Properties\<close>

text \<open>Initialising a registry succeeds exactly when every contract of the table is
  consistent and no event id occurs twice; otherwise the registry is left as it was, and the code says
  whether a contract is invalid or an id is repeated.\<close>

theorem contract_registry_init_checks_table:
  assumes "contracts \<noteq> []" and "length contracts \<le> size_max div sizeof_contract"
  shows "(fst (ut_event_contract_registry_init (Some r0) contracts (length contracts)) = UT_EVENT_OK
      \<longleftrightarrow> (\<forall>c\<in>set contracts. contract_is_valid (Some c)) \<and> distinct (map c_event_id contracts)) \<and>
    (\<forall>e r. ut_event_contract_registry_init (Some r0) contracts (length contracts) = (e, r) \<longrightarrow>
      e \<noteq> UT_EVENT_OK \<longrightarrow> r = Some r0 \<and>
      (e = UT_EVENT_INVALID_ARGUMENT \<and> (\<exists>c\<in>set contracts. \<not> contract_is_valid (Some c)) \<or>
       e = UT_EVENT_ALREADY_EXISTS \<and> \<not> distinct (map c_event_id contracts)))"
  using assms contracts_scan_OK_iff [of contracts] contracts_scan_errors [of contracts]
  by (auto simp: ut_event_contract_registry_init_def Let_def)

theorem contract_registry_init_checks_table_witness:
  "fst (ut_event_contract_registry_init (Some \<lparr>r_contracts = [], r_count = 0\<rparr>)
      (replicate 2 \<lparr>c_event_id = 7, c_name = 0, c_payload_min_size = 1, c_payload_max_size = 8,
         c_ownership = 1\<rparr>) 2) \<noteq> UT_EVENT_OK"
  using contract_registry_init_checks_table [of
      "replicate 2 \<lparr>c_event_id = 7, c_name = 0, c_payload_min_size = 1, c_payload_max_size = 8,
         c_ownership = 1\<rparr>" "\<lparr>r_contracts = [], r_count = 0\<rparr>"]
  by (simp add: size_max_def sizeof_contract_def replicate_two flip: numeral_2_eq_2)

text \<open>Property C37. After a successful initialisation, validating an event looks its id up in the table
  as in a map: an id without a contract is not found, and an event with one is accepted exactly when
  its payload is what the ownership and the sizes of that contract ask for. The wildcard id never
  has a contract.\<close>

theorem contract_validate_decides:
  assumes "ut_event_contract_registry_init r0 contracts (length contracts) = (UT_EVENT_OK, r)"
  shows "ut_event_contract_validate r (Some e) =
      (case contract_map contracts (ev_id e) of
         None \<Rightarrow> UT_EVENT_NOT_FOUND
       | Some c \<Rightarrow> if payload_fits c e then UT_EVENT_OK else UT_EVENT_INVALID_ARGUMENT) \<and>
    (ev_id e = UT_EVENT_ID_ANY \<longrightarrow> ut_event_contract_validate r (Some e) = UT_EVENT_NOT_FOUND)"
proof -
  obtain r' where r: "r = Some r'" "registry_is_valid (Some r')" "r_contracts r' = contracts"
    "r_count r' = length contracts" "\<forall>c\<in>set contracts. contract_is_valid (Some c)"
    using registry_init_OK [OF assms] by auto
  have v: "ut_event_contract_validate r (Some e) =
      (case contract_map contracts (ev_id e) of
         None \<Rightarrow> UT_EVENT_NOT_FOUND
       | Some c \<Rightarrow> if payload_fits c e then UT_EVENT_OK else UT_EVENT_INVALID_ARGUMENT)"
  proof (cases "first_index (\<lambda>c. c_event_id c = ev_id e) contracts")
    case None
    with r show ?thesis
      by (simp add: ut_event_contract_validate_def ut_event_contract_find_def contract_map_first_index)
  next
    case (Some k)
    then have "contract_is_valid (Some (contracts ! k))" using r(5) first_index_SomeD [OF Some] by simp
    from payload_fits_valid [OF this, of e] Some r show ?thesis
      by (auto simp: ut_event_contract_validate_def ut_event_contract_find_def contract_map_first_index
          not_less)
  qed
  moreover have "contract_map contracts UT_EVENT_ID_ANY = None"
  proof (cases "contract_map contracts UT_EVENT_ID_ANY")
    case (Some c)
    with r(5) contract_map_SomeD [OF Some] show ?thesis by (auto simp: contract_is_valid_def)
  qed simp
  ultimately show ?thesis by simp
qed

theorem contract_validate_decides_witness:
  "ut_event_contract_validate
     (snd (ut_event_contract_registry_init (Some \<lparr>r_contracts = [], r_count = 0\<rparr>)
        [\<lparr>c_event_id = 7, c_name = 0, c_payload_min_size = 1, c_payload_max_size = 8, c_ownership = 1\<rparr>] 1))
     (Some \<lparr>ev_id = 7, ev_source = 0, ev_payload = 64, ev_payload_size = 9\<rparr>) = UT_EVENT_INVALID_ARGUMENT"
  using contract_validate_decides [of "Some \<lparr>r_contracts = [], r_count = 0\<rparr>"
      "[\<lparr>c_event_id = 7, c_name = 0, c_payload_min_size = 1, c_payload_max_size = 8, c_ownership = 1\<rparr>]"
      _ "\<lparr>ev_id = 7, ev_source = 0, ev_payload = 64, ev_payload_size = 9\<rparr>"]
  by (simp add: ut_event_contract_registry_init_def contract_is_valid_def ownership_is_valid_def
      size_max_def sizeof_contract_def UT_EVENT_ID_ANY_def uint32_max_def UT_EVENT_PAYLOAD_NONE_def
      UT_EVENT_PAYLOAD_BORROWED_def UT_EVENT_PAYLOAD_BUFFER_REF_def contract_map_def payload_fits_def)

end
