(* ===== verification/Event_Metrics.thy ===== *)
theory Event_Metrics
  imports Event_Types
begin

text \<open>
  The event metrics (\<open>utility_event_metrics.c\<close>): counters that saturate at \<open>UINT64_MAX\<close> and the
  highest queue depth seen.
\<close>

record ut_event_metrics =
  m_published_count :: u64
  m_publish_full_count :: u64
  m_dequeued_count :: u64
  m_dispatched_count :: u64
  m_unhandled_count :: u64
  m_rejected_count :: u64
  m_dispatch_error_count :: u64
  m_timer_emitted_count :: u64
  m_timer_blocked_count :: u64
  m_executor_run_count :: u64
  m_budget_exhausted_count :: u64
  m_queue_high_watermark :: nat

section \<open>Operations\<close>

definition zero_metrics :: ut_event_metrics where
  "zero_metrics = \<lparr>m_published_count = 0, m_publish_full_count = 0, m_dequeued_count = 0,
     m_dispatched_count = 0, m_unhandled_count = 0, m_rejected_count = 0, m_dispatch_error_count = 0,
     m_timer_emitted_count = 0, m_timer_blocked_count = 0, m_executor_run_count = 0,
     m_budget_exhausted_count = 0, m_queue_high_watermark = 0\<rparr>"

definition ut_event_metrics_reset ::
    "ut_event_metrics option \<Rightarrow> ut_event_result \<times> ut_event_metrics option" where
  "ut_event_metrics_reset metrics =
     (if metrics = None then (UT_EVENT_INVALID_ARGUMENT, None) else (UT_EVENT_OK, Some zero_metrics))"

definition ut_event_metrics_init ::
    "ut_event_metrics option \<Rightarrow> ut_event_result \<times> ut_event_metrics option" where
  "ut_event_metrics_init metrics = ut_event_metrics_reset metrics"

definition ut_event_metrics_record_publish ::
    "ut_event_metrics option \<Rightarrow> ut_event_result \<Rightarrow> nat \<Rightarrow> ut_event_result \<times> ut_event_metrics option" where
  "ut_event_metrics_record_publish metrics publish_result queue_depth =
     (case metrics of
        None \<Rightarrow> (UT_EVENT_INVALID_ARGUMENT, None)
      | Some m \<Rightarrow>
          let m1 = (if publish_result = UT_EVENT_OK
                    then m\<lparr>m_published_count := increment_saturated (m_published_count m)\<rparr>
                    else if publish_result = UT_EVENT_FULL
                    then m\<lparr>m_publish_full_count := increment_saturated (m_publish_full_count m)\<rparr>
                    else m)
          in (UT_EVENT_OK,
              Some (if m_queue_high_watermark m1 < queue_depth
                    then m1\<lparr>m_queue_high_watermark := queue_depth\<rparr> else m1)))"

definition ut_event_metrics_observe_queue ::
    "ut_event_metrics option \<Rightarrow> nat \<Rightarrow> ut_event_result \<times> ut_event_metrics option" where
  "ut_event_metrics_observe_queue metrics queue_depth =
     (case metrics of
        None \<Rightarrow> (UT_EVENT_INVALID_ARGUMENT, None)
      | Some m \<Rightarrow>
          (UT_EVENT_OK,
           Some (if m_queue_high_watermark m < queue_depth
                 then m\<lparr>m_queue_high_watermark := queue_depth\<rparr> else m)))"

definition ut_event_metrics_snapshot ::
    "ut_event_metrics option \<Rightarrow> ut_event_metrics option \<Rightarrow> ut_event_result \<times> ut_event_metrics option" where
  "ut_event_metrics_snapshot metrics out_snapshot =
     (if metrics = None \<or> out_snapshot = None then (UT_EVENT_INVALID_ARGUMENT, out_snapshot)
      else (UT_EVENT_OK, metrics))"

section \<open>Runs of publish records\<close>

text \<open>Recording a history of publishes, each with its result and the queue depth after it.\<close>

fun record_publishes :: "ut_event_metrics \<Rightarrow> (ut_event_result \<times> nat) list \<Rightarrow> ut_event_metrics" where
  "record_publishes m [] = m"
| "record_publishes m ((r, depth) # hist) =
     record_publishes (the (snd (ut_event_metrics_record_publish (Some m) r depth))) hist"

lemma unat_le_uint64: "unat (c :: u64) \<le> 2 ^ 64 - 1"
  using unat_u64_less [of c] by simp

lemma record_publishes_counts:
  "unat (m_published_count (record_publishes m hist))
      = min (2 ^ 64 - 1) (unat (m_published_count m) + length (filter (\<lambda>(r, d). r = UT_EVENT_OK) hist)) \<and>
   unat (m_publish_full_count (record_publishes m hist))
      = min (2 ^ 64 - 1) (unat (m_publish_full_count m) + length (filter (\<lambda>(r, d). r = UT_EVENT_FULL) hist)) \<and>
   m_queue_high_watermark (record_publishes m hist) = foldl max (m_queue_high_watermark m) (map snd hist)"
proof (induction hist arbitrary: m)
  case Nil
  show ?case using unat_le_uint64 [of "m_published_count m"] unat_le_uint64 [of "m_publish_full_count m"]
    by simp
next
  case (Cons h hist)
  obtain r depth where h: "h = (r, depth)" by (cases h)
  have top: "min (2 ^ 64 - 1) (min (a + 1) (2 ^ 64 - 1) + k) = min (2 ^ 64 - 1) (a + Suc k)" for a k :: nat
    by (simp add: min_def)
  show ?case
    unfolding h record_publishes.simps using Cons.IH
    by (auto simp: ut_event_metrics_record_publish_def Let_def unat_increment_saturated max_def
        simp flip: top)
qed

section \<open>Properties\<close>

text \<open>From a reset on, recording any history of publishes counts the successes and the
  refusals exactly up to saturation at \<open>UINT64_MAX\<close> (the counters never wrap), and the watermark is
  the greatest depth observed.\<close>

theorem metrics_count_publishes:
  "\<exists>m. ut_event_metrics_init (Some m0) = (UT_EVENT_OK, Some m) \<and>
    unat (m_published_count (record_publishes m hist))
      = min (2 ^ 64 - 1) (length (filter (\<lambda>(r, d). r = UT_EVENT_OK) hist)) \<and>
    unat (m_publish_full_count (record_publishes m hist))
      = min (2 ^ 64 - 1) (length (filter (\<lambda>(r, d). r = UT_EVENT_FULL) hist)) \<and>
    m_queue_high_watermark (record_publishes m hist) = foldl max 0 (map snd hist)"
  using record_publishes_counts [of zero_metrics hist]
  by (simp add: ut_event_metrics_init_def ut_event_metrics_reset_def zero_metrics_def)

end
