(* ===== verification/Event_Trace.thy ===== *)
theory Event_Trace
  imports Event_Dispatcher
begin

text \<open>
  Tracing (\<open>utility_event_trace.c\<close>): a trace context is a sink callback with its context; the
  operations build a record and hand it to the sink. The sink is code outside the component: \<open>sink\<close>
  says what calling the function at an address does to the caller's state.
\<close>

datatype ut_event_trace_kind =
    UT_EVENT_TRACE_KIND_EVENT
  | UT_EVENT_TRACE_KIND_STATE_TRANSITION
  | UT_EVENT_TRACE_KIND_COUNT

record ut_event_trace_record =
  tr_kind :: ut_event_trace_kind
  tr_event_id :: u32
  tr_source :: u32
  tr_from_state :: u32
  tr_to_state :: u32
  tr_reason :: u32
  tr_payload_size :: nat

record ut_event_trace =
  tc_sink :: ptr
  tc_user_context :: ptr

definition UT_EVENT_TRACE_STATE_NONE :: u32 where
  "UT_EVENT_TRACE_STATE_NONE = uint32_max"

section \<open>Operations\<close>

definition trace_is_valid :: "ut_event_trace option \<Rightarrow> bool" where
  "trace_is_valid trace = (case trace of None \<Rightarrow> False | Some t \<Rightarrow> tc_sink t \<noteq> 0)"

definition ut_event_trace_init ::
    "ut_event_trace option \<Rightarrow> ptr \<Rightarrow> ptr \<Rightarrow> ut_event_result \<times> ut_event_trace option" where
  "ut_event_trace_init trace sink user_context =
     (if trace = None \<or> sink = 0 then (UT_EVENT_INVALID_ARGUMENT, trace)
      else (UT_EVENT_OK, Some \<lparr>tc_sink = sink, tc_user_context = user_context\<rparr>))"

definition ut_event_trace_event ::
    "(ptr \<Rightarrow> ut_event_trace_record \<Rightarrow> ptr \<Rightarrow> 'w \<Rightarrow> 'w) \<Rightarrow> ut_event_trace option \<Rightarrow> ut_event option \<Rightarrow>
     'w \<Rightarrow> ut_event_result \<times> 'w" where
  "ut_event_trace_event sink trace event w =
     (let record =
            \<lparr>tr_kind = UT_EVENT_TRACE_KIND_EVENT,
             tr_event_id = (case event of None \<Rightarrow> 0 | Some e \<Rightarrow> ev_id e),
             tr_source = (case event of None \<Rightarrow> 0 | Some e \<Rightarrow> ev_source e),
             tr_from_state = UT_EVENT_TRACE_STATE_NONE, tr_to_state = UT_EVENT_TRACE_STATE_NONE,
             tr_reason = 0,
             tr_payload_size = (case event of None \<Rightarrow> 0 | Some e \<Rightarrow> ev_payload_size e)\<rparr>
      in if \<not> trace_is_valid trace \<or> event = None then (UT_EVENT_INVALID_ARGUMENT, w)
         else (UT_EVENT_OK, sink (tc_sink (the trace)) record (tc_user_context (the trace)) w))"

definition ut_event_trace_state_transition ::
    "(ptr \<Rightarrow> ut_event_trace_record \<Rightarrow> ptr \<Rightarrow> 'w \<Rightarrow> 'w) \<Rightarrow> ut_event_trace option \<Rightarrow>
     u32 \<Rightarrow> u32 \<Rightarrow> u32 \<Rightarrow> u32 \<Rightarrow> 'w \<Rightarrow> ut_event_result \<times> 'w" where
  "ut_event_trace_state_transition sink trace source from_state to_state reason w =
     (let record =
            \<lparr>tr_kind = UT_EVENT_TRACE_KIND_STATE_TRANSITION, tr_event_id = UT_EVENT_ID_ANY,
             tr_source = source, tr_from_state = from_state, tr_to_state = to_state,
             tr_reason = reason, tr_payload_size = 0\<rparr>
      in if \<not> trace_is_valid trace then (UT_EVENT_INVALID_ARGUMENT, w)
         else (UT_EVENT_OK, sink (tc_sink (the trace)) record (tc_user_context (the trace)) w))"

text \<open>The handler casts its context to a trace context; \<open>trace_at\<close> reads the one at an address.\<close>

definition ut_event_trace_dispatch_handler ::
    "(ptr \<Rightarrow> ut_event_trace_record \<Rightarrow> ptr \<Rightarrow> 'w \<Rightarrow> 'w) \<Rightarrow> (ptr \<Rightarrow> ut_event_trace option) \<Rightarrow>
     ut_event option \<Rightarrow> ptr \<Rightarrow> 'w \<Rightarrow> 'w" where
  "ut_event_trace_dispatch_handler sink trace_at event user_context w =
     snd (ut_event_trace_event sink (trace_at user_context) event w)"

section \<open>Tracing every dispatch\<close>

text \<open>
  The documented use: the trace handler (at address \<open>trace_fn\<close>) subscribes to every id. The host
  state is a dispatcher with the records the sink has kept; the other handlers act on data of
  their own and neither trace nor call the dispatcher.
\<close>

record 'u trace_host =
  th_dispatcher :: "ut_event_dispatcher option"
  th_records :: "(ptr \<times> ut_event_trace_record) list"
  th_data :: 'u

definition keep_record :: "ptr \<Rightarrow> ut_event_trace_record \<Rightarrow> ptr \<Rightarrow> 'u trace_host \<Rightarrow> 'u trace_host" where
  "keep_record fn r c w = w\<lparr>th_records := th_records w @ [(c, r)]\<rparr>"

definition trace_call ::
    "ptr \<Rightarrow> (ptr \<Rightarrow> ut_event_trace option) \<Rightarrow> (ptr \<Rightarrow> ut_event \<Rightarrow> ptr \<Rightarrow> 'u \<Rightarrow> 'u) \<Rightarrow>
     ptr \<Rightarrow> ut_event \<Rightarrow> ptr \<Rightarrow> 'u trace_host \<Rightarrow> 'u trace_host" where
  "trace_call trace_fn trace_at other h e c w =
     (if h = trace_fn then ut_event_trace_dispatch_handler keep_record trace_at (Some e) c w
      else w\<lparr>th_data := other h e c (th_data w)\<rparr>)"

definition put_dispatcher :: "ut_event_dispatcher \<Rightarrow> 'u trace_host \<Rightarrow> 'u trace_host" where
  "put_dispatcher d w = w\<lparr>th_dispatcher := Some d\<rparr>"

text \<open>The record an event leaves.\<close>

definition event_record :: "ut_event \<Rightarrow> ut_event_trace_record" where
  "event_record e =
     \<lparr>tr_kind = UT_EVENT_TRACE_KIND_EVENT, tr_event_id = ev_id e, tr_source = ev_source e,
      tr_from_state = UT_EVENT_TRACE_STATE_NONE, tr_to_state = UT_EVENT_TRACE_STATE_NONE,
      tr_reason = 0, tr_payload_size = ev_payload_size e\<rparr>"

lemma trace_event_ok:
  "trace_is_valid (Some t) \<Longrightarrow>
    ut_event_trace_event sink (Some t) (Some e) w = (UT_EVENT_OK, sink (tc_sink t) (event_record e) (tc_user_context t) w)"
  by (simp add: ut_event_trace_event_def event_record_def)

lemma trace_call_frame [simp]:
  "th_dispatcher (trace_call trace_fn trace_at other h e c w) = th_dispatcher w"
  by (simp add: trace_call_def ut_event_trace_dispatch_handler_def ut_event_trace_event_def keep_record_def Let_def)

interpretation traced: dispatcher_host th_dispatcher put_dispatcher "trace_call trace_fn trace_at other"
  for trace_fn trace_at other
  by unfold_locales (auto simp: put_dispatcher_def)

lemma records_delivered:
  assumes "trace_at c = Some t" "trace_is_valid (Some t)"
    and "filter (\<lambda>(h, c'). h = trace_fn) hs = replicate n (trace_fn, c)"
  shows "th_records (deliver_all (trace_call trace_fn trace_at other) e hs w)
    = th_records w @ replicate n (tc_user_context t, event_record e)"
  using assms
proof (induction hs arbitrary: w n)
  case Nil
  then show ?case by (simp add: deliver_all_def)
next
  case (Cons x hs)
  obtain h c' where x: "x = (h, c')" by (cases x)
  let ?w = "trace_call trace_fn trace_at other h e c' w"
  show ?case
  proof (cases "h = trace_fn")
    case True
    with Cons.prems(3) x obtain m where m: "n = Suc m" "c' = c"
      "filter (\<lambda>(h, c'). h = trace_fn) hs = replicate m (trace_fn, c)"
      by (cases n) auto
    have "th_records ?w = th_records w @ [(tc_user_context t, event_record e)]"
      using True m(2) Cons.prems(1,2)
      by (simp add: trace_call_def ut_event_trace_dispatch_handler_def trace_event_ok keep_record_def)
    with Cons.IH [OF Cons.prems(1,2) m(3), of ?w] m(1) x show ?thesis by (simp add: deliver_all_def)
  next
    case False
    with Cons.prems x have "filter (\<lambda>(h, c'). h = trace_fn) hs = replicate n (trace_fn, c)" by simp
    from Cons.IH [OF Cons.prems(1,2) this, of ?w] False x show ?thesis
      by (simp add: deliver_all_def trace_call_def)
  qed
qed

text \<open>A sequence of dispatches by the host.\<close>

fun dispatch_all ::
    "(ptr \<Rightarrow> ut_event \<Rightarrow> ptr \<Rightarrow> 'u trace_host \<Rightarrow> 'u trace_host) \<Rightarrow> ut_event list \<Rightarrow>
     'u trace_host \<Rightarrow> 'u trace_host" where
  "dispatch_all call [] w = w"
| "dispatch_all call (e # es) w =
     dispatch_all call es (fst (snd (ut_event_dispatch th_dispatcher put_dispatcher call (Some e) None w)))"

lemma filter_unique:
  "distinct xs \<Longrightarrow> x \<in> set xs \<Longrightarrow> \<forall>y\<in>set xs. P y \<longleftrightarrow> y = x \<Longrightarrow> filter P xs = [x]"
  by (induction xs) (auto simp: filter_empty_conv)

section \<open>Properties\<close>

text \<open>When the trace handler is registered for every id, dispatching any sequence of
  events hands the sink exactly one record per event, in order, each with the event's id, source and
  payload size, whatever the other handlers do.\<close>

theorem every_dispatch_is_traced:
  assumes "th_dispatcher w = Some d" and "dispatcher_wf d" and "\<not> d_dispatching d"
    and "(UT_EVENT_ID_ANY, trace_fn, c) \<in> set (registrations d)"
    and "\<forall>(i, h, c')\<in>set (registrations d). h = trace_fn \<longrightarrow> i = UT_EVENT_ID_ANY \<and> c' = c"
    and "trace_at c = Some t" and "trace_is_valid (Some t)"
  shows "th_records (dispatch_all (trace_call trace_fn trace_at other) es w)
    = th_records w @ map (\<lambda>e. (tc_user_context t, event_record e)) es"
  using assms(1)
proof (induction es arbitrary: w)
  case Nil
  then show ?case by simp
next
  case (Cons e es)
  let ?call = "trace_call trace_fn trace_at other"
  let ?w = "fst (snd (ut_event_dispatch th_dispatcher put_dispatcher ?call (Some e) None w))"
  have "distinct (registrations d)" using assms(2) by (simp add: dispatcher_wf_def)
  then have "filter (\<lambda>(i, h, c'). h = trace_fn) (registrations d) = [(UT_EVENT_ID_ANY, trace_fn, c)]"
    using assms(4,5) by (intro filter_unique) auto
  moreover have "filter (\<lambda>(h, c'). h = trace_fn) (receivers d e)
      = map snd (filter (\<lambda>(i, _). i = ev_id e \<or> i = UT_EVENT_ID_ANY)
          (filter (\<lambda>(i, h, c'). h = trace_fn) (registrations d)))"
    unfolding receivers_registrations filter_map filter_filter
    by (intro arg_cong [of _ _ "map snd"] filter_cong) auto
  ultimately have one: "filter (\<lambda>(h, c'). h = trace_fn) (receivers d e) = replicate 1 (trace_fn, c)"
    by simp
  have "th_dispatcher ?w = Some d"
    using traced.dispatch_delivers [OF Cons.prems assms(2,3)] by (simp add: put_dispatcher_def)
  moreover have "th_records ?w = th_records w @ [(tc_user_context t, event_record e)]"
    using traced.dispatch_delivers [OF Cons.prems assms(2,3), of trace_fn trace_at other e None]
      records_delivered [of trace_at c t trace_fn "receivers d e" 1 other, OF assms(6,7) one]
    by (simp add: put_dispatcher_def)
  ultimately show ?case using Cons.IH [of ?w] by simp
qed

theorem every_dispatch_is_traced_witness:
  "\<exists>d. d_capacity d = 2 \<and>
    th_records (dispatch_all (trace_call 9 (\<lambda>_. Some \<lparr>tc_sink = 3, tc_user_context = 4\<rparr>) (\<lambda>h e c n. n + 1))
      [zero_event\<lparr>ev_id := 1\<rparr>, zero_event\<lparr>ev_id := 2\<rparr>]
      \<lparr>th_dispatcher = Some d, th_records = [], th_data = 0 :: nat\<rparr>) =
    [(4, event_record (zero_event\<lparr>ev_id := 1\<rparr>)), (4, event_record (zero_event\<lparr>ev_id := 2\<rparr>))]"
proof -
  let ?d = "\<lparr>d_subscriptions =
      [\<lparr>sub_event_id = 1, sub_handler = 8, sub_user_context = 0, sub_occupied = True\<rparr>,
       \<lparr>sub_event_id = UT_EVENT_ID_ANY, sub_handler = 9, sub_user_context = 5, sub_occupied = True\<rparr>],
    d_capacity = 2, d_count = 2, d_dispatching = False\<rparr>"
  let ?w = "\<lparr>th_dispatcher = Some ?d, th_records = [], th_data = 0 :: nat\<rparr>"
  have regs: "registrations ?d = [(1, 8, 0), (UT_EVENT_ID_ANY, 9, 5)]"
    by (simp add: registrations_def)
  have "dispatcher_wf ?d"
    unfolding dispatcher_wf_def regs
    by (simp add: count_slots_def size_max_def sizeof_subscription_def)
  moreover have "(UT_EVENT_ID_ANY, 9, 5) \<in> set (registrations ?d)"
    "\<forall>(i, h, c)\<in>set (registrations ?d). h = 9 \<longrightarrow> i = UT_EVENT_ID_ANY \<and> c = 5"
    unfolding regs by simp_all
  ultimately show ?thesis
    using every_dispatch_is_traced [of ?w ?d 9 5 "\<lambda>_. Some \<lparr>tc_sink = 3, tc_user_context = 4\<rparr>"
        "\<lparr>tc_sink = 3, tc_user_context = 4\<rparr>" "\<lambda>h e c n. n + 1"
        "[zero_event\<lparr>ev_id := 1\<rparr>, zero_event\<lparr>ev_id := 2\<rparr>]"]
    by (intro exI [of _ ?d]) (simp add: trace_is_valid_def)
qed

end
