(* ===== verification/Event_Executor.thy ===== *)
theory Event_Executor
  imports Event_Timer Event_Dispatcher Event_Contract Event_Metrics
begin

text \<open>
  The executor (\<open>utility_event_executor.c\<close>): one step processes the due timers into the queue, then
  takes up to a budget of events from the queue, validates each against the optional contracts and
  dispatches it. Its pointers are modelled by what they point to (\<open>None\<close> is NULL), so that a
  handler, which runs on the same objects, can push events, start timers or call back. The state a
  step runs on is the executor with these objects and the data \<open>'u\<close> of the handlers.
\<close>

record ut_event_executor =
  x_queue :: "ut_event_queue option"
  x_dispatcher :: "ut_event_dispatcher option"
  x_timer_scheduler :: "ut_event_timer_scheduler option"
  x_contract_registry :: "ut_event_contract_registry option"
  x_metrics :: "ut_event_metrics option"
  x_running :: bool

record ut_event_executor_report =
  rp_timer_emitted_count :: nat
  rp_dequeued_count :: nat
  rp_dispatched_count :: nat
  rp_unhandled_count :: nat
  rp_rejected_count :: nat
  rp_dispatch_error_count :: nat
  rp_budget_exhausted :: bool
  rp_timer_result :: ut_event_result
  rp_first_dispatch_error :: ut_event_result

type_synonym 'u xworld = "ut_event_executor \<times> 'u"

section \<open>Operations\<close>

definition executor_is_valid :: "ut_event_executor option \<Rightarrow> bool" where
  "executor_is_valid executor =
     (case executor of None \<Rightarrow> False | Some x \<Rightarrow> x_queue x \<noteq> None \<and> x_dispatcher x \<noteq> None)"

definition ut_event_executor_init ::
    "ut_event_executor option \<Rightarrow> ut_event_queue option \<Rightarrow> ut_event_dispatcher option \<Rightarrow>
     ut_event_timer_scheduler option \<Rightarrow> ut_event_contract_registry option \<Rightarrow> ut_event_metrics option \<Rightarrow>
     ut_event_result \<times> ut_event_executor option" where
  "ut_event_executor_init executor queue dispatcher timer_scheduler contract_registry metrics =
     (if executor = None \<or> queue = None \<or> dispatcher = None then (UT_EVENT_INVALID_ARGUMENT, executor)
      else (UT_EVENT_OK,
            Some \<lparr>x_queue = queue, x_dispatcher = dispatcher, x_timer_scheduler = timer_scheduler,
                  x_contract_registry = contract_registry, x_metrics = metrics, x_running = False\<rparr>))"

text \<open>The dispatcher in the state a step runs on.\<close>

definition xdispatcher :: "'u xworld \<Rightarrow> ut_event_dispatcher option" where
  "xdispatcher w = x_dispatcher (fst w)"

definition put_xdispatcher :: "ut_event_dispatcher \<Rightarrow> 'u xworld \<Rightarrow> 'u xworld" where
  "put_xdispatcher d w = ((fst w)\<lparr>x_dispatcher := Some d\<rparr>, snd w)"

definition update_metrics :: "(ut_event_metrics option \<Rightarrow> ut_event_metrics option) \<Rightarrow> 'u xworld \<Rightarrow> 'u xworld" where
  "update_metrics f w = ((fst w)\<lparr>x_metrics := f (x_metrics (fst w))\<rparr>, snd w)"

definition record_timer_metrics ::
    "ut_event_metrics option \<Rightarrow> nat \<Rightarrow> ut_event_result \<Rightarrow> ut_event_metrics option" where
  "record_timer_metrics metrics emitted_count timer_result =
     (case metrics of
        None \<Rightarrow> None
      | Some m \<Rightarrow>
          let m1 = ((\<lambda>m. m\<lparr>m_timer_emitted_count := increment_saturated (m_timer_emitted_count m),
                           m_published_count := increment_saturated (m_published_count m)\<rparr>)
                    ^^ emitted_count) m
          in Some (if timer_result = UT_EVENT_FULL
                   then m1\<lparr>m_timer_blocked_count := increment_saturated (m_timer_blocked_count m1),
                           m_publish_full_count := increment_saturated (m_publish_full_count m1)\<rparr>
                   else m1))"

definition record_dispatch_metrics ::
    "ut_event_result \<Rightarrow> ut_event_metrics option \<Rightarrow> ut_event_metrics option" where
  "record_dispatch_metrics result metrics =
     (case metrics of
        None \<Rightarrow> None
      | Some m \<Rightarrow>
          let m1 = m\<lparr>m_dequeued_count := increment_saturated (m_dequeued_count m)\<rparr>
          in Some (if result = UT_EVENT_OK
                   then m1\<lparr>m_dispatched_count := increment_saturated (m_dispatched_count m1)\<rparr>
                   else if result = UT_EVENT_NOT_FOUND
                   then m1\<lparr>m_unhandled_count := increment_saturated (m_unhandled_count m1)\<rparr>
                   else m1\<lparr>m_dispatch_error_count := increment_saturated (m_dispatch_error_count m1)\<rparr>))"

definition process_timers ::
    "u64 \<Rightarrow> ut_event_executor_report \<Rightarrow> 'u xworld \<Rightarrow>
     ut_event_result \<times> ut_event_executor_report \<times> 'u xworld" where
  "process_timers now report w =
     (let x = fst w in
      if x_timer_scheduler x = None then (UT_EVENT_OK, report, w)
      else
        let (result, timer, queue, emitted) =
              ut_event_timer_process (x_timer_scheduler x) now (x_queue x)
                (Some (rp_timer_emitted_count report));
            report1 = report\<lparr>rp_timer_result := result, rp_timer_emitted_count := the emitted\<rparr>;
            x1 = x\<lparr>x_timer_scheduler := timer, x_queue := queue,
                   x_metrics := record_timer_metrics (x_metrics x) (the emitted) result\<rparr>
        in (result, report1, (x1, snd w)))"

definition process_event ::
    "(ptr \<Rightarrow> ut_event \<Rightarrow> ptr \<Rightarrow> 'u xworld \<Rightarrow> 'u xworld) \<Rightarrow> ut_event \<Rightarrow>
     ut_event_executor_report \<Rightarrow> 'u xworld \<Rightarrow> ut_event_result \<times> ut_event_executor_report \<times> 'u xworld" where
  "process_event call event report w =
     (let x = fst w in
      if x_contract_registry x \<noteq> None \<and>
         ut_event_contract_validate (x_contract_registry x) (Some event) \<noteq> UT_EVENT_OK
      then (UT_EVENT_OK,
            report\<lparr>rp_rejected_count := size_add (rp_rejected_count report) 1\<rparr>,
            update_metrics (map_option (\<lambda>m.
              m\<lparr>m_dequeued_count := increment_saturated (m_dequeued_count m),
                m_rejected_count := increment_saturated (m_rejected_count m)\<rparr>)) w)
      else
        let (result, w1, _) =
              ut_event_dispatch xdispatcher put_xdispatcher call (Some event) None w;
            w2 = update_metrics (record_dispatch_metrics result) w1
        in (result,
            if result = UT_EVENT_OK
            then report\<lparr>rp_dispatched_count := size_add (rp_dispatched_count report) 1\<rparr>
            else if result = UT_EVENT_NOT_FOUND
            then report\<lparr>rp_unhandled_count := size_add (rp_unhandled_count report) 1\<rparr>
            else report\<lparr>rp_dispatch_error_count := size_add (rp_dispatch_error_count report) 1,
                        rp_first_dispatch_error :=
                          (if rp_first_dispatch_error report = UT_EVENT_OK then result
                           else rp_first_dispatch_error report)\<rparr>,
            w2))"

lemma process_event_dequeued [simp]:
  "process_event call e r w = (res, r', w') \<Longrightarrow> rp_dequeued_count r' = rp_dequeued_count r"
  by (auto simp: process_event_def Let_def split: if_splits prod.splits)

text \<open>
  The loop of \<open>process_queue\<close>; \<open>final_result\<close> is its local. It ends because each round takes one
  event off the queue and counts it against the budget.
\<close>

function process_queue ::
    "(ptr \<Rightarrow> ut_event \<Rightarrow> ptr \<Rightarrow> 'u xworld \<Rightarrow> 'u xworld) \<Rightarrow> nat \<Rightarrow> ut_event_result \<Rightarrow>
     ut_event_executor_report \<Rightarrow> 'u xworld \<Rightarrow> ut_event_result \<times> ut_event_executor_report \<times> 'u xworld" where
  "process_queue call event_budget final_result report w =
     (if rp_dequeued_count report < event_budget then
        let (result, queue, event) = ut_event_queue_pop (x_queue (fst w)) (Some zero_event) in
        if result = UT_EVENT_EMPTY then (final_result, report, w)
        else if result \<noteq> UT_EVENT_OK then (result, report, w)
        else
          let report1 = report\<lparr>rp_dequeued_count := rp_dequeued_count report + 1\<rparr>;
              w1 = ((fst w)\<lparr>x_queue := queue\<rparr>, snd w)
          in case process_event call (the event) report1 w1 of
               (result2, report2, w2) \<Rightarrow>
                 process_queue call event_budget
                   (if result2 \<noteq> UT_EVENT_OK \<and> result2 \<noteq> UT_EVENT_NOT_FOUND then result2 else final_result)
                   report2 w2
      else (final_result, report, w))"
  by pat_completeness auto
termination
  by (relation "measure (\<lambda>(call, budget, f, report, w). budget - rp_dequeued_count report)")
    (auto dest!: process_event_dequeued [OF sym])

declare process_queue.simps [simp del]

definition zero_report :: ut_event_executor_report where
  "zero_report =
     \<lparr>rp_timer_emitted_count = 0, rp_dequeued_count = 0, rp_dispatched_count = 0,
      rp_unhandled_count = 0, rp_rejected_count = 0, rp_dispatch_error_count = 0,
      rp_budget_exhausted = False, rp_timer_result = UT_EVENT_OK,
      rp_first_dispatch_error = UT_EVENT_OK\<rparr>"

text \<open>The observation of the queue depth a step makes before and after its timers.\<close>

definition observe_depth :: "'u xworld \<Rightarrow> 'u xworld" where
  "observe_depth w =
     update_metrics (\<lambda>m. if m = None then None
        else snd (ut_event_metrics_observe_queue m (ut_event_queue_count (x_queue (fst w))))) w"

definition ut_event_executor_run_once ::
    "(ptr \<Rightarrow> ut_event \<Rightarrow> ptr \<Rightarrow> 'u xworld \<Rightarrow> 'u xworld) \<Rightarrow> u64 \<Rightarrow> nat \<Rightarrow>
     ut_event_executor_report option \<Rightarrow> 'u xworld option \<Rightarrow>
     ut_event_result \<times> 'u xworld option \<times> ut_event_executor_report option" where
  "ut_event_executor_run_once call now event_budget out_report executor =
     (if \<not> executor_is_valid (map_option fst executor) \<or> event_budget = 0
      then (UT_EVENT_INVALID_ARGUMENT, executor, out_report)
      else let w = the executor in
        if x_running (fst w) then (UT_EVENT_BUSY, executor, out_report)
        else
          let w1 = ((fst w)\<lparr>x_running := True\<rparr>, snd w);
              w2 = observe_depth (update_metrics (map_option (\<lambda>m.
                     m\<lparr>m_executor_run_count := increment_saturated (m_executor_run_count m)\<rparr>)) w1);
              (final_result, report3, w3) = process_timers now zero_report w2;
              w4 = observe_depth w3;
              (queue_result, report5, w5) = process_queue call event_budget UT_EVENT_OK report3 w4;
              exhausted = (rp_dequeued_count report5 = event_budget \<and>
                           0 < ut_event_queue_count (x_queue (fst w5)));
              w6 = (if exhausted
                    then update_metrics (map_option (\<lambda>m.
                      m\<lparr>m_budget_exhausted_count := increment_saturated (m_budget_exhausted_count m)\<rparr>)) w5
                    else w5);
              w7 = ((fst w6)\<lparr>x_running := False\<rparr>, snd w6)
          in (if queue_result \<noteq> UT_EVENT_OK then queue_result else final_result, Some w7,
              if out_report = None then None
              else Some (if exhausted then report5\<lparr>rp_budget_exhausted := True\<rparr> else report5)))"

section \<open>Handlers of a step\<close>

text \<open>
  A handler is any program over its own data that may use the objects of the executor: post
  events, read the queue depth, start and cancel timers, try to subscribe, or try to run the executor
  again. A nested step is refused before any handler could run, so the calls it would make are
  immaterial here.
\<close>

datatype 'u task =
    Done 'u
  | Post ut_event "ut_event_result \<Rightarrow> 'u task"
  | Depth "nat \<Rightarrow> 'u task"
  | StartTimer u32 ut_event u64 u64 u64 "ut_event_result \<Rightarrow> 'u task"
  | CancelTimer u32 "ut_event_result \<Rightarrow> 'u task"
  | AddHandler u32 ptr ptr "ut_event_result \<Rightarrow> 'u task"
  | RunAgain u64 nat "ut_event_result \<Rightarrow> 'u task"

primrec run_task :: "'u task \<Rightarrow> ut_event_executor \<Rightarrow> ut_event_executor \<times> 'u" where
  "run_task (Done u) x = (x, u)"
| "run_task (Post e k) x =
     (let (r, q) = ut_event_queue_push (x_queue x) (Some e) in run_task (k r) (x\<lparr>x_queue := q\<rparr>))"
| "run_task (Depth k) x = run_task (k (ut_event_queue_count (x_queue x))) x"
| "run_task (StartTimer t e now delay period k) x =
     (let (r, s) = ut_event_timer_start (x_timer_scheduler x) t (Some e) now delay period
      in run_task (k r) (x\<lparr>x_timer_scheduler := s\<rparr>))"
| "run_task (CancelTimer t k) x =
     (let (r, s) = ut_event_timer_cancel (x_timer_scheduler x) t
      in run_task (k r) (x\<lparr>x_timer_scheduler := s\<rparr>))"
| "run_task (AddHandler e h c k) x =
     (let (r, d) = ut_event_subscribe (x_dispatcher x) e h c in run_task (k r) (x\<lparr>x_dispatcher := d\<rparr>))"
| "run_task (RunAgain now budget k) x =
     (let (r, w, _) = ut_event_executor_run_once (\<lambda>_ _ _ w. w) now budget None (Some (x, ()))
      in run_task (k r) (fst (the w)))"

definition x_call ::
    "(ptr \<Rightarrow> ut_event \<Rightarrow> ptr \<Rightarrow> 'u \<Rightarrow> 'u task) \<Rightarrow> ptr \<Rightarrow> ut_event \<Rightarrow> ptr \<Rightarrow> 'u xworld \<Rightarrow> 'u xworld" where
  "x_call progs h e c w = run_task (progs h e c (snd w)) (fst w)"

text \<open>A step cannot disturb a dispatcher that is dispatching, so handlers obey the dispatcher's law.\<close>

lemma xdispatcher_simps [simp]:
  "xdispatcher (put_xdispatcher d w) = Some d"
  "xdispatcher (update_metrics f w) = xdispatcher w"
  "xdispatcher (x\<lparr>x_queue := q\<rparr>, u) = xdispatcher (x, u)"
  "xdispatcher (x\<lparr>x_running := b\<rparr>, u) = xdispatcher (x, u)"
  "xdispatcher (fst w, snd w) = xdispatcher w"
  by (simp_all add: xdispatcher_def put_xdispatcher_def update_metrics_def)

lemma process_event_busy:
  assumes "xdispatcher w = Some d" "d_dispatching d" "process_event call e r w = (res, r', w')"
  shows "xdispatcher w' = Some d"
proof -
  have "fst (snd (ut_event_dispatch xdispatcher put_xdispatcher call (Some e) None w)) = w"
    using assms by (intro busy_dispatch)
  with assms show ?thesis
    by (auto simp: process_event_def Let_def split: if_splits prod.splits)
qed

lemma process_queue_busy:
  "xdispatcher w = Some d \<Longrightarrow> d_dispatching d \<Longrightarrow>
    xdispatcher (snd (snd (process_queue call budget f r w))) = Some d"
proof (induction call budget f r w rule: process_queue.induct)
  case (1 call budget f r w)
  show ?case
  proof (cases "rp_dequeued_count r < budget \<and>
      fst (ut_event_queue_pop (x_queue (fst w)) (Some zero_event)) = UT_EVENT_OK")
    case False
    with 1(2) show ?thesis
      by (subst process_queue.simps) (auto simp: Let_def split: prod.splits)
  next
    case True
    obtain q ev where pop: "ut_event_queue_pop (x_queue (fst w)) (Some zero_event) = (UT_EVENT_OK, q, ev)"
      using True by (metis prod.collapse)
    let ?w1 = "((fst w)\<lparr>x_queue := q\<rparr>, snd w)"
    let ?r1 = "r\<lparr>rp_dequeued_count := rp_dequeued_count r + 1\<rparr>"
    obtain res r2 w2 where pe: "process_event call (the ev) ?r1 ?w1 = (res, r2, w2)"
      by (cases "process_event call (the ev) ?r1 ?w1") auto
    have "xdispatcher ?w1 = Some d" using 1(2) by (simp add: xdispatcher_def)
    then have "xdispatcher w2 = Some d" by (rule process_event_busy [OF _ 1(3) pe])
    from 1(1) [OF _ refl pop [symmetric] refl _ _ refl refl pe [symmetric] refl this 1(3)] True
    show ?thesis
      by (subst process_queue.simps) (simp add: pop pe [simplified] Let_def)
  qed
qed

lemma run_once_busy:
  "xdispatcher w = Some d \<Longrightarrow> d_dispatching d \<Longrightarrow>
    xdispatcher (the (fst (snd (ut_event_executor_run_once call now budget rep (Some w))))) = Some d"
proof -
  assume w: "xdispatcher w = Some d" and busy: "d_dispatching d"
  have timers: "xdispatcher (snd (snd (process_timers now r v))) = xdispatcher v" for r v
    by (simp add: process_timers_def xdispatcher_def Let_def split: prod.split)
  have depth: "xdispatcher (observe_depth v) = xdispatcher v" for v
    by (simp add: observe_depth_def)
  let ?w2 = "observe_depth (update_metrics (map_option (\<lambda>m.
      m\<lparr>m_executor_run_count := increment_saturated (m_executor_run_count m)\<rparr>))
      ((fst w)\<lparr>x_running := True\<rparr>, snd w))"
  obtain fr r3 w3 where pt: "process_timers now zero_report ?w2 = (fr, r3, w3)"
    using prod_cases3 by blast
  obtain qr r5 w5 where pq: "process_queue call budget UT_EVENT_OK r3 (observe_depth w3) = (qr, r5, w5)"
    using prod_cases3 by blast
  have "xdispatcher w3 = Some d" using timers [of zero_report ?w2] w pt by (simp add: depth)
  then have w5: "xdispatcher w5 = Some d"
    using process_queue_busy [of "observe_depth w3" d call budget UT_EVENT_OK r3] busy pq
    by (simp add: depth)
  show ?thesis
  proof (cases "\<not> executor_is_valid (Some (fst w)) \<or> budget = 0 \<or> x_running (fst w)")
    case True
    with w show ?thesis by (auto simp: ut_event_executor_run_once_def Let_def)
  next
    case False
    with w5 show ?thesis
      unfolding ut_event_executor_run_once_def
      by (simp add: pt pq) (simp add: Let_def)
  qed
qed

lemma run_task_busy:
  "x_dispatcher x = Some d \<Longrightarrow> d_dispatching d \<Longrightarrow> x_dispatcher (fst (run_task p x)) = Some d"
proof (induction p arbitrary: x)
  case (AddHandler e h c k)
  then show ?case using busy_subscribe [of d e h c] by (cases "ut_event_subscribe (Some d) e h c") simp
next
  case (RunAgain now budget k)
  let ?r = "ut_event_executor_run_once (\<lambda>_ _ _ w. w) now budget None (Some (x, ()))"
  have "xdispatcher (the (fst (snd ?r))) = Some d"
    by (rule run_once_busy) (use RunAgain.prems in \<open>simp_all add: xdispatcher_def\<close>)
  then show ?case using RunAgain by (cases ?r) (simp add: xdispatcher_def)
qed (simp_all split: prod.split)

interpretation xhost: dispatcher_host xdispatcher put_xdispatcher "x_call progs" for progs
  by unfold_locales
    (auto simp: put_xdispatcher_def x_call_def xdispatcher_def run_task_busy)

section \<open>The step on lists\<close>

text \<open>
  The specification of a step: the queue is a list bounded by its capacity, a dispatch runs the
  receivers in turn, and whatever a handler asks of the dispatcher or the executor is refused.
\<close>

type_synonym ('u) xstate = "ut_event list \<times> ut_event_timer_scheduler option \<times> 'u"

primrec abs_task ::
    "nat \<Rightarrow> 'u task \<Rightarrow> ut_event list \<times> ut_event_timer_scheduler option \<Rightarrow> 'u xstate" where
  "abs_task cap (Done u) st = (fst st, snd st, u)"
| "abs_task cap (Post e k) st =
     (if length (fst st) < cap then abs_task cap (k UT_EVENT_OK) (fst st @ [e], snd st)
      else abs_task cap (k UT_EVENT_FULL) st)"
| "abs_task cap (Depth k) st = abs_task cap (k (length (fst st))) st"
| "abs_task cap (StartTimer t e now delay period k) st =
     (let (r, s) = ut_event_timer_start (snd st) t (Some e) now delay period
      in abs_task cap (k r) (fst st, s))"
| "abs_task cap (CancelTimer t k) st =
     (let (r, s) = ut_event_timer_cancel (snd st) t in abs_task cap (k r) (fst st, s))"
| "abs_task cap (AddHandler e h c k) st =
     abs_task cap (k (if h = 0 then UT_EVENT_INVALID_ARGUMENT else UT_EVENT_BUSY)) st"
| "abs_task cap (RunAgain now budget k) st =
     abs_task cap (k (if budget = 0 then UT_EVENT_INVALID_ARGUMENT else UT_EVENT_BUSY)) st"

fun abs_deliver ::
    "nat \<Rightarrow> (ptr \<Rightarrow> ut_event \<Rightarrow> ptr \<Rightarrow> 'u \<Rightarrow> 'u task) \<Rightarrow> ut_event \<Rightarrow> (ptr \<times> ptr) list \<Rightarrow> 'u xstate \<Rightarrow> 'u xstate" where
  "abs_deliver cap progs e [] st = st"
| "abs_deliver cap progs e ((h, c) # hs) (items, ts, u) =
     abs_deliver cap progs e hs (abs_task cap (progs h e c u) (items, ts))"

datatype outcome = Dispatched | Unhandled | Rejected

definition outcome_of ::
    "ut_event_contract_registry option \<Rightarrow> ut_event_dispatcher \<Rightarrow> ut_event \<Rightarrow> outcome" where
  "outcome_of reg d e =
     (if reg \<noteq> None \<and> ut_event_contract_validate reg (Some e) \<noteq> UT_EVENT_OK then Rejected
      else if receivers d e = [] then Unhandled else Dispatched)"

fun abs_queue ::
    "nat \<Rightarrow> ut_event_contract_registry option \<Rightarrow> ut_event_dispatcher \<Rightarrow>
     (ptr \<Rightarrow> ut_event \<Rightarrow> ptr \<Rightarrow> 'u \<Rightarrow> 'u task) \<Rightarrow> nat \<Rightarrow> 'u xstate \<Rightarrow>
     (ut_event \<times> outcome) list \<times> 'u xstate" where
  "abs_queue cap reg d progs 0 st = ([], st)"
| "abs_queue cap reg d progs (Suc n) ([], ts, u) = ([], ([], ts, u))"
| "abs_queue cap reg d progs (Suc n) (e # es, ts, u) =
     (let st = (if outcome_of reg d e = Rejected then (es, ts, u)
                else abs_deliver cap progs e (receivers d e) (es, ts, u));
          (os, st') = abs_queue cap reg d progs n st
      in ((e, outcome_of reg d e) # os, st'))"

section \<open>The step refines it\<close>

abbreviation exec ::
    "ut_event_queue \<Rightarrow> ut_event_dispatcher \<Rightarrow> ut_event_timer_scheduler option \<Rightarrow>
     ut_event_contract_registry option \<Rightarrow> ut_event_metrics option \<Rightarrow> bool \<Rightarrow> ut_event_executor" where
  "exec q d ts reg m run \<equiv>
     \<lparr>x_queue = Some q, x_dispatcher = Some d, x_timer_scheduler = ts, x_contract_registry = reg,
      x_metrics = m, x_running = run\<rparr>"

definition timers_ok :: "ut_event_timer_scheduler option \<Rightarrow> bool" where
  "timers_ok ts \<longleftrightarrow> (\<forall>s. ts = Some s \<longrightarrow> scheduler_wf s \<and> \<not> t_processing s)"

lemma timers_ok_start: "timers_ok ts \<Longrightarrow> timers_ok (snd (ut_event_timer_start ts t (Some e) now delay p))"
proof (cases ts)
  case (Some s)
  assume "timers_ok ts"
  with Some have "scheduler_wf s" "\<not> t_processing s" by (simp_all add: timers_ok_def)
  from timer_step_refines [OF this, of "Start t e now delay p"] Some show ?thesis
    by (auto simp: timers_ok_def split: prod.splits)
qed (simp add: timers_ok_def ut_event_timer_start_def scheduler_is_valid_def)

lemma timers_ok_cancel: "timers_ok ts \<Longrightarrow> timers_ok (snd (ut_event_timer_cancel ts t))"
proof (cases ts)
  case (Some s)
  assume "timers_ok ts"
  with Some have "scheduler_wf s" "\<not> t_processing s" by (simp_all add: timers_ok_def)
  from timer_step_refines [OF this, of "Cancel t"] Some show ?thesis
    by (auto simp: timers_ok_def split: prod.splits)
qed (simp add: timers_ok_def ut_event_timer_cancel_def scheduler_is_valid_def)

lemma run_task_abs:
  assumes "queue_wf q" "dispatcher_wf d" "d_dispatching d" "timers_ok ts"
  shows "\<exists>q' ts' u. run_task p (exec q d ts reg m True) = (exec q' d ts' reg m True, u) \<and> queue_wf q' \<and>
    q_capacity q' = q_capacity q \<and> timers_ok ts' \<and>
    abs_task (q_capacity q) p (queue_items q, ts) = (queue_items q', ts', u)"
  using assms
proof (induction p arbitrary: q ts)
  case (Done u)
  then show ?case by simp
next
  case (Post e k)
  show ?case
  proof (cases "q_count q < q_capacity q")
    case True
    from push_room [OF Post.prems(1) True, of e] obtain q1 where
      q1: "ut_event_queue_push (Some q) (Some e) = (UT_EVENT_OK, Some q1)" "queue_wf q1"
        "q_capacity q1 = q_capacity q" "queue_items q1 = queue_items q @ [e]" by auto
    from Post.IH [OF rangeI [of k UT_EVENT_OK] q1(2) Post.prems(2-4)] q1 True show ?thesis by simp
  next
    case False
    then have "q_count q = q_capacity q" using queue_room [OF Post.prems(1)] by simp
    from Post.IH [OF rangeI [of k UT_EVENT_FULL] Post.prems] push_full [OF Post.prems(1) this] False
    show ?thesis by simp
  qed
next
  case (Depth k)
  from Depth.IH [OF rangeI [of k "q_count q"] Depth.prems] Depth.prems show ?case
    by (simp add: ut_event_queue_count_def)
next
  case (StartTimer t e now delay period k)
  obtain r s where st: "ut_event_timer_start ts t (Some e) now delay period = (r, s)" by (metis prod.collapse)
  then have "timers_ok s" using timers_ok_start [OF StartTimer.prems(4)] by (metis snd_conv)
  from StartTimer.IH [OF rangeI [of k r] StartTimer.prems(1-3) this] st show ?case by simp
next
  case (CancelTimer t k)
  obtain r s where st: "ut_event_timer_cancel ts t = (r, s)" by (metis prod.collapse)
  then have "timers_ok s" using timers_ok_cancel [OF CancelTimer.prems(4)] by (metis snd_conv)
  from CancelTimer.IH [OF rangeI [of k r] CancelTimer.prems(1-3) this] st show ?case by simp
next
  case (AddHandler e h c k)
  have "ut_event_subscribe (Some d) e h c =
      (if h = 0 then UT_EVENT_INVALID_ARGUMENT else UT_EVENT_BUSY, Some d)"
    using AddHandler.prems by (simp add: ut_event_subscribe_def)
  with AddHandler.IH [OF rangeI AddHandler.prems] show ?case by simp
next
  case (RunAgain now budget k)
  have "ut_event_executor_run_once (\<lambda>_ _ _ w. w) now budget None (Some (exec q d ts reg m True, ()))
    = (if budget = 0 then UT_EVENT_INVALID_ARGUMENT else UT_EVENT_BUSY,
       Some (exec q d ts reg m True, ()), None)"
    by (simp add: ut_event_executor_run_once_def executor_is_valid_def)
  with RunAgain.IH [OF rangeI RunAgain.prems] show ?case by simp
qed

lemma deliver_abs:
  assumes "queue_wf q" "dispatcher_wf d" "d_dispatching d" "timers_ok ts"
  shows "\<exists>q' ts' u'. deliver_all (x_call progs) e hs (exec q d ts reg m True, u) = (exec q' d ts' reg m True, u') \<and>
    queue_wf q' \<and> q_capacity q' = q_capacity q \<and> timers_ok ts' \<and>
    abs_deliver (q_capacity q) progs e hs (queue_items q, ts, u) = (queue_items q', ts', u')"
  using assms
proof (induction hs arbitrary: q ts u)
  case Nil
  then show ?case by (simp add: deliver_all_def)
next
  case (Cons x hs)
  obtain h c where x: "x = (h, c)" by (cases x)
  from run_task_abs [OF Cons.prems, of "progs h e c u" reg m] obtain q1 ts1 u1 where
    r: "run_task (progs h e c u) (exec q d ts reg m True) = (exec q1 d ts1 reg m True, u1)" "queue_wf q1"
      "q_capacity q1 = q_capacity q" "timers_ok ts1"
      "abs_task (q_capacity q) (progs h e c u) (queue_items q, ts) = (queue_items q1, ts1, u1)"
    by auto
  from Cons.IH [OF r(2) Cons.prems(2,3) r(4), of u1] r x show ?case
    by (simp add: deliver_all_def x_call_def)
qed

text \<open>What one event does to the report and to the metrics.\<close>

definition tally :: "outcome \<Rightarrow> ut_event_executor_report \<Rightarrow> ut_event_executor_report" where
  "tally oc r = (case oc of
     Dispatched \<Rightarrow> r\<lparr>rp_dispatched_count := size_add (rp_dispatched_count r) 1\<rparr>
   | Unhandled \<Rightarrow> r\<lparr>rp_unhandled_count := size_add (rp_unhandled_count r) 1\<rparr>
   | Rejected \<Rightarrow> r\<lparr>rp_rejected_count := size_add (rp_rejected_count r) 1\<rparr>)"

definition count_outcome :: "outcome \<Rightarrow> ut_event_metrics \<Rightarrow> ut_event_metrics" where
  "count_outcome oc m =
     (let m1 = m\<lparr>m_dequeued_count := increment_saturated (m_dequeued_count m)\<rparr> in case oc of
        Dispatched \<Rightarrow> m1\<lparr>m_dispatched_count := increment_saturated (m_dispatched_count m)\<rparr>
      | Unhandled \<Rightarrow> m1\<lparr>m_unhandled_count := increment_saturated (m_unhandled_count m)\<rparr>
      | Rejected \<Rightarrow> m1\<lparr>m_rejected_count := increment_saturated (m_rejected_count m)\<rparr>)"

lemma process_event_abs:
  assumes wf: "queue_wf q" "dispatcher_wf d" "\<not> d_dispatching d" "timers_ok ts"
  shows "\<exists>q' ts' u'. process_event (x_call progs) e r (exec q d ts reg m True, u) =
      (if outcome_of reg d e = Unhandled then UT_EVENT_NOT_FOUND else UT_EVENT_OK,
       tally (outcome_of reg d e) r,
       (exec q' d ts' reg (map_option (count_outcome (outcome_of reg d e)) m) True, u')) \<and>
    queue_wf q' \<and> q_capacity q' = q_capacity q \<and> timers_ok ts' \<and>
    (if outcome_of reg d e = Rejected then (queue_items q, ts, u)
     else abs_deliver (q_capacity q) progs e (receivers d e) (queue_items q, ts, u))
      = (queue_items q', ts', u')"
proof (cases "outcome_of reg d e = Rejected")
  case True
  then have "reg \<noteq> None" "ut_event_contract_validate reg (Some e) \<noteq> UT_EVENT_OK"
    by (auto simp: outcome_of_def split: if_splits)
  with True assms show ?thesis
    by (cases m) (auto simp: process_event_def update_metrics_def tally_def count_outcome_def)
next
  case False
  let ?d = "d\<lparr>d_dispatching := True\<rparr>"
  have acc: "\<not> (reg \<noteq> None \<and> ut_event_contract_validate reg (Some e) \<noteq> UT_EVENT_OK)"
  proof
    assume c: "reg \<noteq> None \<and> ut_event_contract_validate reg (Some e) \<noteq> UT_EVENT_OK"
    have "outcome_of reg d e = Rejected" unfolding outcome_of_def by (rule if_P [OF c])
    with False show False by contradiction
  qed
  have "dispatcher_wf ?d" "d_dispatching ?d" using wf(2) by (simp_all add: dispatcher_wf_def registrations_def)
  from deliver_abs [OF wf(1) this wf(4), of progs e "receivers d e" reg m u] obtain q' ts' u' where
    dl: "deliver_all (x_call progs) e (receivers d e) (exec q ?d ts reg m True, u) = (exec q' ?d ts' reg m True, u')"
      "queue_wf q'" "q_capacity q' = q_capacity q" "timers_ok ts'"
      "abs_deliver (q_capacity q) progs e (receivers d e) (queue_items q, ts, u) = (queue_items q', ts', u')"
    by auto
  have "xdispatcher (exec q d ts reg m True, u) = Some d" by (simp add: xdispatcher_def)
  from xhost.dispatch_delivers [OF this wf(2,3), of progs e None] dl(1)
  have "ut_event_dispatch xdispatcher put_xdispatcher (x_call progs) (Some e) None (exec q d ts reg m True, u)
      = (if receivers d e = [] then UT_EVENT_NOT_FOUND else UT_EVENT_OK, (exec q' d ts' reg m True, u'), None)"
    by (simp add: put_xdispatcher_def)
  moreover have "receivers d e = [] \<longleftrightarrow> outcome_of reg d e = Unhandled"
    using acc by (simp add: outcome_of_def)
  ultimately have disp: "ut_event_dispatch xdispatcher put_xdispatcher (x_call progs) (Some e) None
      (exec q d ts reg m True, u)
    = (if outcome_of reg d e = Unhandled then UT_EVENT_NOT_FOUND else UT_EVENT_OK,
       (exec q' d ts' reg m True, u'), None)"
    by simp
  from acc consider "reg = None" | "ut_event_contract_validate reg (Some e) = UT_EVENT_OK" by blast
  then have "process_event (x_call progs) e r (exec q d ts reg m True, u) =
      (if outcome_of reg d e = Unhandled then UT_EVENT_NOT_FOUND else UT_EVENT_OK,
       tally (outcome_of reg d e) r,
       (exec q' d ts' reg (map_option (count_outcome (outcome_of reg d e)) m) True, u'))"
  proof cases
    case 1
    with False disp show ?thesis
      by (cases "outcome_of reg d e"; cases m)
        (simp_all add: process_event_def update_metrics_def tally_def count_outcome_def
          record_dispatch_metrics_def Let_def)
  next
    case 2
    with False disp show ?thesis
      by (cases "outcome_of reg d e"; cases m)
        (simp_all add: process_event_def update_metrics_def tally_def count_outcome_def
          record_dispatch_metrics_def Let_def)
  qed
  with False dl show ?thesis by simp
qed

definition note_outcome :: "ut_event_executor_report \<Rightarrow> ut_event \<times> outcome \<Rightarrow> ut_event_executor_report" where
  "note_outcome r eo = tally (snd eo) (r\<lparr>rp_dequeued_count := rp_dequeued_count r + 1\<rparr>)"

lemma note_outcome_pair: "note_outcome r (e, oc) = tally oc (r\<lparr>rp_dequeued_count := rp_dequeued_count r + 1\<rparr>)"
  by (simp add: note_outcome_def)

lemma tally_dequeued [simp]: "rp_dequeued_count (tally oc r) = rp_dequeued_count r"
  by (simp add: tally_def split: outcome.split)

lemma process_queue_abs:
  assumes "queue_wf q" "dispatcher_wf d" "\<not> d_dispatching d" "timers_ok ts"
    and "rp_dequeued_count r + n = budget"
  shows "\<exists>q' ts' u' os. process_queue (x_call progs) budget f r (exec q d ts reg m True, u) =
      (f, foldl note_outcome r os,
       (exec q' d ts' reg (map_option (\<lambda>m. foldl (\<lambda>m eo. count_outcome (snd eo) m) m os) m) True, u')) \<and>
    queue_wf q' \<and> q_capacity q' = q_capacity q \<and> timers_ok ts' \<and>
    abs_queue (q_capacity q) reg d progs n (queue_items q, ts, u) = (os, (queue_items q', ts', u'))"
  using assms
proof (induction n arbitrary: q ts r m u)
  case 0
  then show ?case
    by (subst process_queue.simps) (intro exI [of _ q] exI [of _ ts] exI [of _ u] exI [of _ "[]"], cases m, simp_all)
next
  case (Suc n)
  have more: "rp_dequeued_count r < budget" using Suc.prems(5) by simp
  show ?case
  proof (cases "queue_items q")
    case Nil
    then have "q_count q = 0" by (simp add: queue_items_Nil_iff)
    with Nil Suc.prems more pop_empty [OF Suc.prems(1)] show ?thesis
      by (subst process_queue.simps)
        (intro exI [of _ q] exI [of _ ts] exI [of _ u] exI [of _ "[]"], cases m, simp_all)
  next
    case (Cons e es)
    from pop_some [OF Suc.prems(1) Cons, of zero_event] obtain q1 where
      pop: "ut_event_queue_pop (Some q) (Some zero_event) = (UT_EVENT_OK, Some q1, Some e)"
      and q1: "queue_wf q1" "q_capacity q1 = q_capacity q" "queue_items q1 = es" by auto
    let ?r1 = "r\<lparr>rp_dequeued_count := rp_dequeued_count r + 1\<rparr>"
    let ?oc = "outcome_of reg d e"
    from process_event_abs [OF q1(1) Suc.prems(2-4), of progs e ?r1 reg m u, unfolded q1(2,3)] obtain q2 ts2 u2 where
      pe: "process_event (x_call progs) e ?r1 (exec q1 d ts reg m True, u) =
        (if ?oc = Unhandled then UT_EVENT_NOT_FOUND else UT_EVENT_OK, tally ?oc ?r1,
         (exec q2 d ts2 reg (map_option (count_outcome ?oc) m) True, u2))"
      and q2: "queue_wf q2" "q_capacity q2 = q_capacity q" "timers_ok ts2"
        "(if ?oc = Rejected then (es, ts, u)
          else abs_deliver (q_capacity q) progs e (receivers d e) (es, ts, u)) = (queue_items q2, ts2, u2)"
      by auto
    have "rp_dequeued_count (tally ?oc ?r1) + n = budget" using Suc.prems(5) by simp
    from Suc.IH [OF q2(1) Suc.prems(2,3) q2(3) this, of "map_option (count_outcome ?oc) m" u2]
    obtain q' ts' u' os where
      rec: "process_queue (x_call progs) budget f (tally ?oc ?r1)
          (exec q2 d ts2 reg (map_option (count_outcome ?oc) m) True, u2) =
        (f, foldl note_outcome (tally ?oc ?r1) os,
         (exec q' d ts' reg (map_option (\<lambda>m. foldl (\<lambda>m eo. count_outcome (snd eo) m) m os)
            (map_option (count_outcome ?oc) m)) True, u'))"
      and q': "queue_wf q'" "q_capacity q' = q_capacity q2" "timers_ok ts'"
        "abs_queue (q_capacity q2) reg d progs n (queue_items q2, ts2, u2) = (os, (queue_items q', ts', u'))"
      by auto
    have "process_queue (x_call progs) budget f r (exec q d ts reg m True, u) =
        process_queue (x_call progs) budget f (tally ?oc ?r1)
          (exec q2 d ts2 reg (map_option (count_outcome ?oc) m) True, u2)"
      using more pop pe by (subst process_queue.simps) (simp add: Let_def)
    with rec q' q2 Cons show ?thesis
      by (intro exI [of _ q'] exI [of _ ts'] exI [of _ u'] exI [of _ "(e, ?oc) # os"])
        (simp add: Let_def note_outcome_pair option.map_comp comp_def)
  qed
qed

text \<open>The whole step: the timers' due events join the queue, then the queue is worked off.\<close>

definition timer_events :: "u64 \<Rightarrow> ut_event_timer_scheduler option \<Rightarrow> ut_event list" where
  "timer_events now ts =
     (case ts of None \<Rightarrow> [] | Some s \<Rightarrow> map sl_event (filter (due now) (t_slots s)))"

definition timers_after :: "u64 \<Rightarrow> ut_event_queue \<Rightarrow> ut_event_timer_scheduler option \<Rightarrow> ut_event_timer_scheduler option" where
  "timers_after now q ts = fst (snd (ut_event_timer_process ts now (Some q) (Some 0)))"

definition watermark :: "nat \<Rightarrow> ut_event_metrics \<Rightarrow> ut_event_metrics" where
  "watermark depth m = m\<lparr>m_queue_high_watermark := max (m_queue_high_watermark m) depth\<rparr>"

lemma observe_depth_exec:
  "queue_wf q \<Longrightarrow> observe_depth (exec q d ts reg m run, u) = (exec q d ts reg (map_option (watermark (q_count q)) m) run, u)"
  by (cases m)
    (simp_all add: observe_depth_def update_metrics_def ut_event_metrics_observe_queue_def
      ut_event_queue_count_def watermark_def max_def)

lemma process_timers_exec:
  assumes "queue_wf q" "timers_ok ts"
  shows "\<exists>q' r'. process_timers now zero_report (exec q d ts reg m run, u) =
      (if length (timer_events now ts) \<le> q_capacity q - q_count q then UT_EVENT_OK else UT_EVENT_FULL, r',
       (exec q' d (timers_after now q ts) reg
          (if ts = None then m else record_timer_metrics m
             (min (q_capacity q - q_count q) (length (timer_events now ts)))
             (if length (timer_events now ts) \<le> q_capacity q - q_count q then UT_EVENT_OK else UT_EVENT_FULL))
          run, u)) \<and>
    r' = zero_report\<lparr>rp_timer_emitted_count := min (q_capacity q - q_count q) (length (timer_events now ts)),
        rp_timer_result := (if length (timer_events now ts) \<le> q_capacity q - q_count q then UT_EVENT_OK
          else UT_EVENT_FULL)\<rparr> \<and>
    queue_wf q' \<and> q_capacity q' = q_capacity q \<and> timers_ok (timers_after now q ts) \<and>
    queue_items q' = queue_items q @ take (q_capacity q - q_count q) (timer_events now ts)"
proof (cases ts)
  case None
  with assms show ?thesis
    by (simp add: process_timers_def timer_events_def timers_after_def timers_ok_def zero_report_def
        ut_event_timer_process_def scheduler_is_valid_def)
next
  case (Some s)
  with assms(2) have "scheduler_wf s" "\<not> t_processing s" by (simp_all add: timers_ok_def)
  from process_fires [OF this assms(1), of now 0] obtain s' q' where
    "ut_event_timer_process (Some s) now (Some q) (Some 0) =
      (if length (timer_events now ts) \<le> q_capacity q - q_count q then UT_EVENT_OK else UT_EVENT_FULL,
       Some s', Some q', Some (min (q_capacity q - q_count q) (length (timer_events now ts))))"
    "scheduler_wf s'" "\<not> t_processing s'" "queue_wf q'" "q_capacity q' = q_capacity q"
    "queue_items q' = queue_items q @ take (q_capacity q - q_count q) (timer_events now ts)"
    by (auto simp: timer_events_def Some)
  with Some show ?thesis
    by (auto simp: process_timers_def timers_after_def timers_ok_def zero_report_def)
qed

text \<open>What a step does to the metrics.\<close>

definition timer_metrics :: "nat \<Rightarrow> ut_event_result \<Rightarrow> ut_event_metrics \<Rightarrow> ut_event_metrics" where
  "timer_metrics emitted tr m = the (record_timer_metrics (Some m) emitted tr)"

lemma record_timer_metrics_map: "record_timer_metrics m k r = map_option (timer_metrics k r) m"
  by (cases m) (simp_all add: record_timer_metrics_def timer_metrics_def Let_def)

definition run_counted :: "ut_event_metrics \<Rightarrow> ut_event_metrics" where
  "run_counted m = m\<lparr>m_executor_run_count := increment_saturated (m_executor_run_count m)\<rparr>"

definition budget_counted :: "ut_event_metrics \<Rightarrow> ut_event_metrics" where
  "budget_counted m = m\<lparr>m_budget_exhausted_count := increment_saturated (m_budget_exhausted_count m)\<rparr>"

definition count_outcomes :: "(ut_event \<times> outcome) list \<Rightarrow> ut_event_metrics \<Rightarrow> ut_event_metrics" where
  "count_outcomes os m = foldl (\<lambda>m eo. count_outcome (snd eo) m) m os"

definition step_metrics ::
    "nat \<Rightarrow> ut_event_timer_scheduler option \<Rightarrow> nat \<Rightarrow> ut_event_result \<Rightarrow> (ut_event \<times> outcome) list \<Rightarrow> bool \<Rightarrow>
     ut_event_metrics \<Rightarrow> ut_event_metrics" where
  "step_metrics depth ts emitted tr os exhausted m =
     (if exhausted then budget_counted else id) (count_outcomes os (watermark (depth + emitted)
       ((if ts = None then id else timer_metrics emitted tr) (watermark depth (run_counted m)))))"

definition tally_of :: "outcome \<Rightarrow> (ut_event \<times> outcome) list \<Rightarrow> nat" where
  "tally_of oc os = length (filter (\<lambda>eo. snd eo = oc) os)"

lemma tally_of_simps [simp]:
  "tally_of oc [] = 0"
  "tally_of oc (eo # os) = (if snd eo = oc then 1 else 0) + tally_of oc os"
  by (simp_all add: tally_of_def)

lemma tally_of_partition:
  "tally_of Dispatched os + tally_of Unhandled os + tally_of Rejected os = length os"
proof (induction os)
  case (Cons eo os)
  then show ?case by (cases "snd eo") simp_all
qed simp

definition add_outcomes ::
    "(ut_event \<times> outcome) list \<Rightarrow> ut_event_executor_report \<Rightarrow> ut_event_executor_report" where
  "add_outcomes os r =
     r\<lparr>rp_dequeued_count := rp_dequeued_count r + length os,
       rp_dispatched_count := rp_dispatched_count r + tally_of Dispatched os,
       rp_unhandled_count := rp_unhandled_count r + tally_of Unhandled os,
       rp_rejected_count := rp_rejected_count r + tally_of Rejected os\<rparr>"

lemma foldl_note_outcome:
  "rp_dispatched_count r + length os \<le> size_max \<Longrightarrow> rp_unhandled_count r + length os \<le> size_max \<Longrightarrow>
    rp_rejected_count r + length os \<le> size_max \<Longrightarrow> foldl note_outcome r os = add_outcomes os r"
proof (induction os arbitrary: r)
  case Nil
  then show ?case by (simp add: add_outcomes_def)
next
  case (Cons eo os)
  obtain e oc where eo: "eo = (e, oc)" by (cases eo)
  from Cons.prems have "foldl note_outcome (note_outcome r eo) os = add_outcomes os (note_outcome r eo)"
    by (intro Cons.IH) (auto simp: eo note_outcome_pair tally_def split: outcome.split)
  with Cons.prems show ?case
    by (cases oc) (simp_all add: eo note_outcome_pair tally_def add_outcomes_def)
qed

lemma abs_queue_length:
  "abs_queue cap reg d progs n st = (os, items', rest) \<Longrightarrow>
    length os \<le> n \<and> (length os < n \<longrightarrow> items' = [])"
proof (induction cap reg d progs n st arbitrary: os rule: abs_queue.induct)
  case (3 cap reg d progs n e es ts u)
  let ?st = "if outcome_of reg d e = Rejected then (es, ts, u)
    else abs_deliver cap progs e (receivers d e) (es, ts, u)"
  obtain os1 st1 where "abs_queue cap reg d progs n ?st = (os1, st1)" by (metis prod.collapse)
  with 3 show ?case by (auto simp: Let_def)
qed auto

text \<open>Handlers only ever append to the queue, so nothing in it is lost or reordered.\<close>

lemma abs_task_appends: "\<exists>posted. fst (abs_task cap p st) = fst st @ posted"
proof (induction p arbitrary: st)
  case (Post e k)
  have "\<exists>posted. fst (abs_task cap (k UT_EVENT_OK) (fst st @ [e], snd st)) = (fst st @ [e]) @ posted"
    "\<exists>posted. fst (abs_task cap (k UT_EVENT_FULL) st) = fst st @ posted"
    using Post.IH [OF rangeI [of k UT_EVENT_OK]] Post.IH [OF rangeI [of k UT_EVENT_FULL]]
    by (metis fst_conv, metis)
  then show ?case by auto
next
  case (StartTimer t e now delay period k)
  obtain r s where "ut_event_timer_start (snd st) t (Some e) now delay period = (r, s)"
    by (metis prod.collapse)
  with StartTimer.IH [OF rangeI [of k r], of "(fst st, s)"] show ?case by simp
next
  case (CancelTimer t k)
  obtain r s where "ut_event_timer_cancel (snd st) t = (r, s)" by (metis prod.collapse)
  with CancelTimer.IH [OF rangeI [of k r], of "(fst st, s)"] show ?case by simp
next
  case (Depth k)
  from Depth.IH [OF rangeI] show ?case by simp
next
  case (AddHandler e h c k)
  from AddHandler.IH [OF rangeI] show ?case by simp
next
  case (RunAgain now budget k)
  from RunAgain.IH [OF rangeI] show ?case by simp
qed simp

lemma abs_deliver_appends: "\<exists>posted. fst (abs_deliver cap progs e hs st) = fst st @ posted"
proof (induction cap progs e hs st rule: abs_deliver.induct)
  case (2 cap progs e h c hs items ts u)
  obtain posted where "fst (abs_task cap (progs h e c u) (items, ts)) = items @ posted"
    using abs_task_appends [of cap "progs h e c u" "(items, ts)"] by auto
  with 2 show ?case by auto
qed simp

lemma abs_queue_appends:
  "abs_queue cap reg d progs n st = (os, st') \<Longrightarrow> \<exists>posted. map fst os @ fst st' = fst st @ posted"
proof (induction cap reg d progs n st arbitrary: os st' rule: abs_queue.induct)
  case (3 cap reg d progs n e es ts u)
  let ?st = "if outcome_of reg d e = Rejected then (es, ts, u)
    else abs_deliver cap progs e (receivers d e) (es, ts, u)"
  obtain os1 st1 where r: "abs_queue cap reg d progs n ?st = (os1, st1)" by (metis prod.collapse)
  from 3(1) [OF refl r] obtain p1 where "map fst os1 @ fst st1 = fst ?st @ p1" by blast
  moreover obtain p2 where "fst ?st = es @ p2"
    using abs_deliver_appends [of cap progs e "receivers d e" "(es, ts, u)"] by (cases "outcome_of reg d e = Rejected") auto
  ultimately show ?case using 3(2) r by (auto simp: Let_def)
qed auto

lemma run_once_abs:
  fixes now :: u64 and ts :: "ut_event_timer_scheduler option" and q :: ut_event_queue
  assumes wf: "queue_wf q" "dispatcher_wf d" "\<not> d_dispatching d" "timers_ok ts"
    and budget: "0 < budget" "budget \<le> size_max"
  defines "tes \<equiv> timer_events now ts" and "room \<equiv> q_capacity q - q_count q"
  defines "tr \<equiv> if length tes \<le> room then UT_EVENT_OK else UT_EVENT_FULL"
  shows "\<exists>q' ts' u' os. ut_event_executor_run_once (x_call progs) now budget (Some r0)
        (Some (exec q d ts reg m False, u)) =
      (tr,
       Some (exec q' d ts' reg
         (map_option (step_metrics (q_count q) ts (min room (length tes)) tr os
           (length os = budget \<and> queue_items q' \<noteq> [])) m)
         False, u'),
       Some \<lparr>rp_timer_emitted_count = min room (length tes), rp_dequeued_count = length os,
             rp_dispatched_count = tally_of Dispatched os, rp_unhandled_count = tally_of Unhandled os,
             rp_rejected_count = tally_of Rejected os, rp_dispatch_error_count = 0,
             rp_budget_exhausted = (length os = budget \<and> queue_items q' \<noteq> []),
             rp_timer_result = tr, rp_first_dispatch_error = UT_EVENT_OK\<rparr>) \<and>
    queue_wf q' \<and> q_capacity q' = q_capacity q \<and> timers_ok ts' \<and>
    abs_queue (q_capacity q) reg d progs budget
      (queue_items q @ take room tes, timers_after now q ts, u) = (os, (queue_items q', ts', u'))"
proof -
  let ?k = "min room (length tes)"
  let ?m2 = "map_option (watermark (q_count q)) (map_option run_counted m)"
  let ?m3 = "if ts = None then ?m2 else record_timer_metrics ?m2 ?k tr"
  from process_timers_exec [OF wf(1,4), of now d reg ?m2 True u] obtain q3 r3 where
    pt: "process_timers now zero_report (exec q d ts reg ?m2 True, u)
      = (tr, r3, (exec q3 d (timers_after now q ts) reg ?m3 True, u))"
    and r3: "r3 = zero_report\<lparr>rp_timer_emitted_count := min room (length tes), rp_timer_result := tr\<rparr>"
    and q3: "queue_wf q3" "q_capacity q3 = q_capacity q" "timers_ok (timers_after now q ts)"
      "queue_items q3 = queue_items q @ take room tes"
    unfolding tes_def room_def tr_def by blast
  have cnt3: "q_count q3 = q_count q + ?k"
    using q3(4) by (metis length_append length_queue_items length_take min.commute)
  let ?m4 = "map_option (watermark (q_count q3)) ?m3"
  have "rp_dequeued_count r3 + budget = budget" by (simp add: r3 zero_report_def)
  from process_queue_abs [OF q3(1) wf(2,3) q3(3) this, of progs UT_EVENT_OK reg ?m4 u]
  obtain q' ts' u' os where
    pq: "process_queue (x_call progs) budget UT_EVENT_OK r3 (exec q3 d (timers_after now q ts) reg ?m4 True, u)
      = (UT_EVENT_OK, foldl note_outcome r3 os,
         (exec q' d ts' reg (map_option (\<lambda>m. foldl (\<lambda>m eo. count_outcome (snd eo) m) m os) ?m4) True, u'))"
    and q': "queue_wf q'" "q_capacity q' = q_capacity q3" "timers_ok ts'"
      "abs_queue (q_capacity q3) reg d progs budget (queue_items q3, timers_after now q ts, u)
        = (os, (queue_items q', ts', u'))"
    by auto
  have "length os \<le> budget" using abs_queue_length [OF q'(4)] by simp
  then have rep: "foldl note_outcome r3 os = add_outcomes os r3"
    using budget(2) by (intro foldl_note_outcome) (simp_all add: r3 zero_report_def)
  have w1: "update_metrics (map_option (\<lambda>m.
      m\<lparr>m_executor_run_count := increment_saturated (m_executor_run_count m)\<rparr>))
      ((fst (exec q d ts reg m False, u))\<lparr>x_running := True\<rparr>, snd (exec q d ts reg m False, u))
    = (exec q d ts reg (map_option run_counted m) True, u)"
    by (simp add: update_metrics_def run_counted_def [abs_def])
  have left: "0 < q_count q' \<longleftrightarrow> queue_items q' \<noteq> []" by (simp add: queue_items_Nil_iff)
  have valid: "executor_is_valid (map_option fst (Some (exec q d ts reg m False, u)))" "budget \<noteq> 0"
    "\<not> x_running (fst (the (Some (exec q d ts reg m False, u))))"
    using budget(1) by (simp_all add: executor_is_valid_def)
  have metrics: "map_option (\<lambda>m. foldl (\<lambda>m eo. count_outcome (snd eo) m) m os) ?m4
    = map_option (\<lambda>m. count_outcomes os (watermark (q_count q + ?k)
        ((if ts = None then id else timer_metrics ?k tr) (watermark (q_count q) (run_counted m))))) m"
    by (cases m) (simp_all add: record_timer_metrics_map count_outcomes_def cnt3)
  have report: "rp_dequeued_count (add_outcomes os r3) = length os"
    by (simp add: add_outcomes_def r3 zero_report_def)
  have depth: "ut_event_queue_count (Some q') = q_count q'" using q'(1) by (simp add: ut_event_queue_count_def)
  show ?thesis
  proof (intro exI [of _ q'] exI [of _ ts'] exI [of _ u'] exI [of _ os] conjI)
    show "queue_wf q'" "q_capacity q' = q_capacity q" "timers_ok ts'" using q' q3 by simp_all
    show "abs_queue (q_capacity q) reg d progs budget
        (queue_items q @ take room tes, timers_after now q ts, u) = (os, queue_items q', ts', u')"
      using q'(4) q3 by simp
  qed (unfold ut_event_executor_run_once_def,
      simp only: valid if_False simp_thms Let_def option.sel w1 observe_depth_exec [OF wf(1)]
        observe_depth_exec [OF q3(1)] pt pq prod.case metrics not_True_eq_False not_False_eq_True,
      simp only: rep fst_conv snd_conv ut_event_executor.simps report depth left,
      cases m;
      simp add: add_outcomes_def r3 zero_report_def step_metrics_def update_metrics_def budget_counted_def)
qed

section \<open>Counting in the metrics\<close>

text \<open>A counter after \<open>n\<close> saturating increments.\<close>

definition saturating_plus :: "u64 \<Rightarrow> nat \<Rightarrow> nat" where
  "saturating_plus c n = min (2 ^ 64 - 1) (unat c + n)"

lemma saturating_zero: "saturating_plus c 0 = unat c"
  using unat_le_uint64 [of c] by (simp only: saturating_plus_def add_0_right min_absorb2)

lemma saturating_step: "saturating_plus (increment_saturated c) n = saturating_plus c (Suc n)"
  by (simp add: saturating_plus_def unat_increment_saturated min_def)

lemma unat_increment: "unat (increment_saturated c) = saturating_plus c 1"
  by (simp add: saturating_plus_def unat_increment_saturated min.commute)

lemma timer_metrics_counts:
  "unat (m_timer_emitted_count (timer_metrics k tr m)) = saturating_plus (m_timer_emitted_count m) k \<and>
   m_dequeued_count (timer_metrics k tr m) = m_dequeued_count m \<and>
   m_dispatched_count (timer_metrics k tr m) = m_dispatched_count m \<and>
   m_unhandled_count (timer_metrics k tr m) = m_unhandled_count m \<and>
   m_rejected_count (timer_metrics k tr m) = m_rejected_count m \<and>
   m_executor_run_count (timer_metrics k tr m) = m_executor_run_count m"
proof -
  let ?f = "\<lambda>m. m\<lparr>m_timer_emitted_count := increment_saturated (m_timer_emitted_count m),
                  m_published_count := increment_saturated (m_published_count m)\<rparr>"
  have "unat (m_timer_emitted_count ((?f ^^ k) m)) = saturating_plus (m_timer_emitted_count m) k \<and>
    m_dequeued_count ((?f ^^ k) m) = m_dequeued_count m \<and>
    m_dispatched_count ((?f ^^ k) m) = m_dispatched_count m \<and>
    m_unhandled_count ((?f ^^ k) m) = m_unhandled_count m \<and>
    m_rejected_count ((?f ^^ k) m) = m_rejected_count m \<and>
    m_executor_run_count ((?f ^^ k) m) = m_executor_run_count m"
  proof (induction k)
    case 0
    show ?case using saturating_zero [of "m_timer_emitted_count m"] by simp
  next
    case (Suc k)
    then show ?case by (simp add: unat_increment_saturated saturating_plus_def)
  qed
  then show ?thesis by (simp add: timer_metrics_def record_timer_metrics_def Let_def)
qed

lemma count_outcomes_counts:
  "unat (m_dequeued_count (count_outcomes os m)) = saturating_plus (m_dequeued_count m) (length os) \<and>
   unat (m_dispatched_count (count_outcomes os m)) = saturating_plus (m_dispatched_count m) (tally_of Dispatched os) \<and>
   unat (m_unhandled_count (count_outcomes os m)) = saturating_plus (m_unhandled_count m) (tally_of Unhandled os) \<and>
   unat (m_rejected_count (count_outcomes os m)) = saturating_plus (m_rejected_count m) (tally_of Rejected os) \<and>
   m_timer_emitted_count (count_outcomes os m) = m_timer_emitted_count m \<and>
   m_executor_run_count (count_outcomes os m) = m_executor_run_count m \<and>
   m_queue_high_watermark (count_outcomes os m) = m_queue_high_watermark m"
proof (induction os arbitrary: m)
  case Nil
  show ?case by (simp only: count_outcomes_def foldl.simps tally_of_simps list.size saturating_zero simp_thms)
next
  case (Cons eo os)
  have "count_outcomes (eo # os) m = count_outcomes os (count_outcome (snd eo) m)"
    by (simp add: count_outcomes_def)
  with Cons.IH [of "count_outcome (snd eo) m"] show ?case
    by (cases "snd eo") (simp_all add: count_outcome_def saturating_step)
qed

lemma step_metrics_counts:
  assumes m': "m' = step_metrics depth ts k tr os ex m" and none: "ts = None \<Longrightarrow> k = 0"
  shows "unat (m_dequeued_count m') = saturating_plus (m_dequeued_count m) (length os) \<and>
   unat (m_dispatched_count m') = saturating_plus (m_dispatched_count m) (tally_of Dispatched os) \<and>
   unat (m_unhandled_count m') = saturating_plus (m_unhandled_count m) (tally_of Unhandled os) \<and>
   unat (m_rejected_count m') = saturating_plus (m_rejected_count m) (tally_of Rejected os) \<and>
   unat (m_timer_emitted_count m') = saturating_plus (m_timer_emitted_count m) k \<and>
   unat (m_executor_run_count m') = saturating_plus (m_executor_run_count m) 1 \<and>
   depth + k \<le> m_queue_high_watermark m'"
proof -
  let ?t = "(if ts = None then id else timer_metrics k tr) (watermark depth (run_counted m))"
  let ?n = "watermark (depth + k) ?t"
  have t: "unat (m_timer_emitted_count ?n) = saturating_plus (m_timer_emitted_count m) k \<and>
    m_dequeued_count ?n = m_dequeued_count m \<and> m_dispatched_count ?n = m_dispatched_count m \<and>
    m_unhandled_count ?n = m_unhandled_count m \<and> m_rejected_count ?n = m_rejected_count m \<and>
    m_executor_run_count ?n = increment_saturated (m_executor_run_count m) \<and>
    depth + k \<le> m_queue_high_watermark ?n"
    using timer_metrics_counts [of k tr "watermark depth (run_counted m)"] none
      saturating_zero [of "m_timer_emitted_count m"]
    by (cases ts) (simp_all add: watermark_def run_counted_def)
  have fields: "m_dequeued_count m' = m_dequeued_count (count_outcomes os ?n)"
    "m_dispatched_count m' = m_dispatched_count (count_outcomes os ?n)"
    "m_unhandled_count m' = m_unhandled_count (count_outcomes os ?n)"
    "m_rejected_count m' = m_rejected_count (count_outcomes os ?n)"
    "m_timer_emitted_count m' = m_timer_emitted_count (count_outcomes os ?n)"
    "m_executor_run_count m' = m_executor_run_count (count_outcomes os ?n)"
    "m_queue_high_watermark m' = m_queue_high_watermark (count_outcomes os ?n)"
    unfolding m' step_metrics_def by (simp_all add: budget_counted_def)
  show ?thesis
    unfolding fields using count_outcomes_counts [of os ?n] t unat_increment [of "m_executor_run_count m"]
    by metis
qed

section \<open>Properties\<close>

definition executor_ok :: "ut_event_executor \<Rightarrow> bool" where
  "executor_ok x \<longleftrightarrow> (\<exists>q d ts reg m. x = exec q d ts reg m False \<and> queue_wf q \<and> dispatcher_wf d \<and>
     \<not> d_dispatching d \<and> timers_ok ts)"

definition queue_of :: "ut_event_executor \<Rightarrow> ut_event list" where
  "queue_of x = queue_items (the (x_queue x))"

definition free_room :: "ut_event_executor \<Rightarrow> nat" where
  "free_room x = q_capacity (the (x_queue x)) - q_count (the (x_queue x))"

text \<open>A sample: one subscription, a queue of two places and no timers.\<close>

definition sample_executor :: ut_event_executor where
  "sample_executor = exec
     \<lparr>q_storage = [zero_event\<lparr>ev_id := 5\<rparr>, zero_event\<lparr>ev_id := 6\<rparr>], q_capacity = 2, q_head = 0,
      q_tail = 0, q_count = 2\<rparr>
     \<lparr>d_subscriptions = [\<lparr>sub_event_id = 5, sub_handler = 1, sub_user_context = 0, sub_occupied = True\<rparr>],
      d_capacity = 1, d_count = 1, d_dispatching = False\<rparr>
     None None (Some zero_metrics) False"

lemma sample_executor_ok: "executor_ok sample_executor"
proof -
  have "queue_wf (the (x_queue sample_executor))" "dispatcher_wf (the (x_dispatcher sample_executor))"
    by (simp_all add: sample_executor_def queue_wf_def dispatcher_wf_def registrations_def count_slots_def
        size_max_def sizeof_subscription_def)
  then show ?thesis by (simp add: executor_ok_def sample_executor_def timers_ok_def)
qed

lemmas executor_run = run_once_abs [where ?r0.0 = zero_report]

lemma executor_step_runs:
  assumes "executor_ok x" and "0 < budget" and "budget \<le> size_max"
  shows "\<exists>result x' u' rep. ut_event_executor_run_once (x_call progs) now budget (Some zero_report) (Some (x, u)) =
      (result, Some (x', u'), Some rep)"
proof -
  obtain q d ts reg m where x: "x = exec q d ts reg m False" and wf: "queue_wf q" "dispatcher_wf d"
    "\<not> d_dispatching d" "timers_ok ts" using assms(1) by (auto simp: executor_ok_def)
  from executor_run [OF wf assms(2,3), of progs now reg m u] show ?thesis unfolding x by blast
qed

text \<open>Property C1. One step does what its specification on lists says, for every handler program: the
  due events join the bounded queue, then up to a budget of events leave it in order; each is rejected
  by its contract, has no receiver, or is delivered to its receivers in slot order, where handlers may
  post events and start timers but get BUSY or a refusal for anything that would disturb the step.
  The executor is then ready for the next step with its dispatcher unchanged.\<close>

theorem executor_step_refines_lists:
  assumes "executor_ok x" and "0 < budget" and "budget \<le> size_max"
  shows "\<exists>x' u' rep os.
    ut_event_executor_run_once (x_call progs) now budget (Some zero_report) (Some (x, u)) =
      (rp_timer_result rep, Some (x', u'), Some rep) \<and>
    executor_ok x' \<and> x_dispatcher x' = x_dispatcher x \<and>
    abs_queue (q_capacity (the (x_queue x))) (x_contract_registry x) (the (x_dispatcher x)) progs budget
      (queue_of x @ take (free_room x) (timer_events now (x_timer_scheduler x)),
       timers_after now (the (x_queue x)) (x_timer_scheduler x), u)
    = (os, (queue_of x', x_timer_scheduler x', u')) \<and>
    rp_dequeued_count rep = length os \<and> rp_dispatched_count rep = tally_of Dispatched os \<and>
    rp_unhandled_count rep = tally_of Unhandled os \<and> rp_rejected_count rep = tally_of Rejected os"
proof -
  obtain q d ts reg m where x: "x = exec q d ts reg m False" and wf: "queue_wf q" "dispatcher_wf d"
    "\<not> d_dispatching d" "timers_ok ts" using assms(1) by (auto simp: executor_ok_def)
  from executor_run [OF wf assms(2,3), of progs now reg m u] wf show ?thesis
    unfolding x by (fastforce simp: executor_ok_def queue_of_def free_room_def)
qed

theorem executor_step_refines_lists_witness:
  "\<exists>x' u' rep os.
    ut_event_executor_run_once (x_call (\<lambda>h e c u. Post (zero_event\<lparr>ev_id := 7\<rparr>) (\<lambda>r. Done (u @ [(h, r)]))))
      3 1 (Some zero_report) (Some (sample_executor, [])) = (rp_timer_result rep, Some (x', u'), Some rep) \<and>
    abs_queue 2 None (the (x_dispatcher sample_executor))
      (\<lambda>h e c u. Post (zero_event\<lparr>ev_id := 7\<rparr>) (\<lambda>r. Done (u @ [(h, r)]))) 1
      ([zero_event\<lparr>ev_id := 5\<rparr>, zero_event\<lparr>ev_id := 6\<rparr>], None, []) = (os, (queue_of x', x_timer_scheduler x', u'))"
proof -
  have "queue_of sample_executor = [zero_event\<lparr>ev_id := 5\<rparr>, zero_event\<lparr>ev_id := 6\<rparr>]"
    "free_room sample_executor = 0" "q_capacity (the (x_queue sample_executor)) = 2"
    "x_contract_registry sample_executor = None" "x_timer_scheduler sample_executor = None"
    "timers_after 3 (the (x_queue sample_executor)) None = None"
    by (simp_all add: sample_executor_def queue_of_def free_room_def queue_items_def ring_list_def
        numeral_2_eq_2 timers_after_def ut_event_timer_process_def scheduler_is_valid_def)
  with executor_step_refines_lists [OF sample_executor_ok, of 1
      "\<lambda>h e c u. Post (zero_event\<lparr>ev_id := 7\<rparr>) (\<lambda>r. Done (u @ [(h, r)]))" 3 "[]"]
  show ?thesis by (auto simp: size_max_def)
qed

text \<open>A step accounts for every event, whatever the handlers do: the events it took off
  the queue followed by those still there are the old queue, then the timer events that fitted, then
  what the handlers posted, in this order. At most the budget is taken; every event taken is counted
  once, as dispatched, unhandled or rejected; no dispatch fails; the report says the budget was
  exhausted exactly if it was used up with events left, and the result is FULL exactly if a timer
  event found no room.\<close>

theorem executor_step_accounts_for_events:
  assumes "executor_ok x" and "0 < budget" and "budget \<le> size_max"
    and "ut_event_executor_run_once (x_call progs) now budget (Some zero_report) (Some (x, u)) =
      (result, Some (x', u'), Some rep)"
  shows "(\<exists>taken posted. length taken = rp_dequeued_count rep \<and>
      taken @ queue_of x' =
        queue_of x @ take (free_room x) (timer_events now (x_timer_scheduler x)) @ posted) \<and>
    rp_dequeued_count rep \<le> budget \<and>
    rp_dispatched_count rep + rp_unhandled_count rep + rp_rejected_count rep = rp_dequeued_count rep \<and>
    rp_dispatch_error_count rep = 0 \<and>
    (rp_budget_exhausted rep \<longleftrightarrow> rp_dequeued_count rep = budget \<and> queue_of x' \<noteq> []) \<and>
    (rp_dequeued_count rep < budget \<longrightarrow> queue_of x' = []) \<and>
    result = (if length (timer_events now (x_timer_scheduler x)) \<le> free_room x then UT_EVENT_OK else UT_EVENT_FULL)"
proof -
  obtain q d ts reg m where x: "x = exec q d ts reg m False" and wf: "queue_wf q" "dispatcher_wf d"
    "\<not> d_dispatching d" "timers_ok ts" using assms(1) by (auto simp: executor_ok_def)
  from executor_run [OF wf assms(2,3), of progs now reg m u] assms(4) x obtain os q' where
    q': "x_queue x' = Some q'" and
    os: "abs_queue (q_capacity q) reg d progs budget
        (queue_items q @ take (free_room x) (timer_events now ts), timers_after now q ts, u)
      = (os, (queue_items q', x_timer_scheduler x', u'))"
    and rep: "rp_dequeued_count rep = length os" "rp_dispatched_count rep = tally_of Dispatched os"
      "rp_unhandled_count rep = tally_of Unhandled os" "rp_rejected_count rep = tally_of Rejected os"
      "rp_dispatch_error_count rep = 0"
      "rp_budget_exhausted rep \<longleftrightarrow> length os = budget \<and> queue_items q' \<noteq> []"
    and res: "result = (if length (timer_events now ts) \<le> free_room x then UT_EVENT_OK else UT_EVENT_FULL)"
    by (auto simp: free_room_def)
  obtain posted where "map fst os @ queue_items q' =
      (queue_items q @ take (free_room x) (timer_events now ts)) @ posted"
    using abs_queue_appends [OF os] by auto
  then have "\<exists>taken posted. length taken = rp_dequeued_count rep \<and> taken @ queue_of x' =
      queue_of x @ take (free_room x) (timer_events now (x_timer_scheduler x)) @ posted"
    by (intro exI [of _ "map fst os"] exI [of _ posted]) (simp add: rep q' queue_of_def x)
  with abs_queue_length [OF os] tally_of_partition [of os] rep res q' x show ?thesis
    by (simp add: queue_of_def)
qed

theorem executor_step_accounts_for_events_witness:
  "\<exists>result x' u' rep. ut_event_executor_run_once (x_call (\<lambda>h e c u. Done (u + 1))) 3 1 (Some zero_report)
      (Some (sample_executor, 0 :: nat)) = (result, Some (x', u'), Some rep) \<and> result = UT_EVENT_OK \<and>
    rp_dequeued_count rep = rp_dispatched_count rep + rp_unhandled_count rep + rp_rejected_count rep"
proof -
  let ?run = "ut_event_executor_run_once (x_call (\<lambda>h e c u. Done (u + 1))) 3 1 (Some zero_report)
      (Some (sample_executor, 0 :: nat))"
  have b: "(0 :: nat) < 1" "1 \<le> size_max" by (simp_all add: size_max_def)
  obtain result x' u' rep where run: "?run = (result, Some (x', u'), Some rep)"
    using executor_step_runs [OF sample_executor_ok b, of "\<lambda>h e c u. Done (u + 1)" 3 0] by blast
  have "timer_events 3 (x_timer_scheduler sample_executor) = []"
    by (simp add: timer_events_def sample_executor_def)
  with executor_step_accounts_for_events [OF sample_executor_ok b run] run show ?thesis by auto
qed

text \<open>The metrics follow the report of a step exactly, each counter stopping at
  \<open>UINT64_MAX\<close>: one run, the emitted timer events, and every dequeued event once as dispatched,
  unhandled or rejected; the watermark covers the queue as the timers left it.\<close>

theorem executor_step_updates_metrics:
  assumes "executor_ok x" and "0 < budget" and "budget \<le> size_max" and "x_metrics x = Some m"
    and "ut_event_executor_run_once (x_call progs) now budget (Some zero_report) (Some (x, u)) =
      (result, Some (x', u'), Some rep)"
  shows "\<exists>m'. x_metrics x' = Some m' \<and>
    unat (m_executor_run_count m') = saturating_plus (m_executor_run_count m) 1 \<and>
    unat (m_timer_emitted_count m') = saturating_plus (m_timer_emitted_count m) (rp_timer_emitted_count rep) \<and>
    unat (m_dequeued_count m') = saturating_plus (m_dequeued_count m) (rp_dequeued_count rep) \<and>
    unat (m_dispatched_count m') = saturating_plus (m_dispatched_count m) (rp_dispatched_count rep) \<and>
    unat (m_unhandled_count m') = saturating_plus (m_unhandled_count m) (rp_unhandled_count rep) \<and>
    unat (m_rejected_count m') = saturating_plus (m_rejected_count m) (rp_rejected_count rep) \<and>
    length (queue_of x) + rp_timer_emitted_count rep \<le> m_queue_high_watermark m'"
proof -
  obtain q d ts reg where x: "x = exec q d ts reg (Some m) False" and wf: "queue_wf q" "dispatcher_wf d"
    "\<not> d_dispatching d" "timers_ok ts" using assms(1,4) by (auto simp: executor_ok_def)
  from executor_run [OF wf assms(2,3), of progs now reg "Some m" u] assms(5) x obtain os tr ex where
    m': "x_metrics x' = Some (step_metrics (q_count q) ts (rp_timer_emitted_count rep) tr os ex m)"
    and rep: "rp_dequeued_count rep = length os" "rp_dispatched_count rep = tally_of Dispatched os"
      "rp_unhandled_count rep = tally_of Unhandled os" "rp_rejected_count rep = tally_of Rejected os"
      "rp_timer_emitted_count rep = min (q_capacity q - q_count q) (length (timer_events now ts))"
    by auto
  have "ts = None \<Longrightarrow> rp_timer_emitted_count rep = 0" by (simp add: rep timer_events_def)
  with step_metrics_counts [OF refl, of ts "rp_timer_emitted_count rep" "q_count q" tr os ex m] m' rep(1-4) x
  show ?thesis by (simp add: queue_of_def)
qed

theorem executor_step_updates_metrics_witness:
  "\<exists>result x' u' rep m'. ut_event_executor_run_once (x_call (\<lambda>h e c u. Done (u + 1))) 3 1 (Some zero_report)
      (Some (sample_executor, 0 :: nat)) = (result, Some (x', u'), Some rep) \<and>
    x_metrics x' = Some m' \<and> unat (m_executor_run_count m') = 1"
proof -
  let ?run = "ut_event_executor_run_once (x_call (\<lambda>h e c u. Done (u + 1))) 3 1 (Some zero_report)
      (Some (sample_executor, 0 :: nat))"
  have b: "(0 :: nat) < 1" "1 \<le> size_max" by (simp_all add: size_max_def)
  obtain result x' u' rep where run: "?run = (result, Some (x', u'), Some rep)"
    using executor_step_runs [OF sample_executor_ok b, of "\<lambda>h e c u. Done (u + 1)" 3 0] by blast
  have "x_metrics sample_executor = Some zero_metrics" by (simp add: sample_executor_def)
  from executor_step_updates_metrics [OF sample_executor_ok b this run] run show ?thesis
    by (auto simp: zero_metrics_def saturating_plus_def)
qed

end
