(* ===== verification/Event_State_Machine.thy ===== *)
theory Event_State_Machine
  imports Event_Trace
begin

unbundle bit_operations_syntax

text \<open>
  The table-driven state machine (\<open>utility_event_state_machine.c\<close>): constant tables of states and
  transitions, a current state, and a dispatch that picks the first enabled transition, runs exit,
  action and entry callbacks, moves on and traces. Guards, callbacks and the trace sink are code
  outside the component that runs on the caller's state \<open>'w\<close>, which contains the machine.
\<close>

record ut_event_state =
  st_id :: u32
  st_name :: ptr
  st_entry :: ptr
  st_exit :: ptr
  st_user_context :: ptr

record ut_event_state_transition =
  tn_from_state :: u32
  tn_event_id :: u32
  tn_to_state :: u32
  tn_guard :: ptr
  tn_action :: ptr
  tn_user_context :: ptr
  tn_options :: u32
  tn_reason :: u32

record ut_event_state_machine =
  sm_states :: "ut_event_state list"
  sm_state_count :: nat
  sm_transitions :: "ut_event_state_transition list"
  sm_transition_count :: nat
  sm_current_state :: u32
  sm_source :: u32
  sm_user_context :: ptr
  sm_trace :: "ut_event_trace option"
  sm_dispatching :: bool

definition UT_EVENT_STATE_ID_ANY :: u32 where
  "UT_EVENT_STATE_ID_ANY = uint32_max"

definition UT_EVENT_STATE_TRANSITION_INTERNAL :: u32 where
  "UT_EVENT_STATE_TRANSITION_INTERNAL = 1"

section \<open>Tables\<close>

definition find_state :: "ut_event_state list \<Rightarrow> nat \<Rightarrow> u32 \<Rightarrow> ut_event_state option" where
  "find_state states count state_id = List.find (\<lambda>s. st_id s = state_id) (take count states)"

definition machine_is_valid :: "ut_event_state_machine option \<Rightarrow> bool" where
  "machine_is_valid machine =
     (case machine of
        None \<Rightarrow> False
      | Some m \<Rightarrow> sm_states m \<noteq> [] \<and> 0 < sm_state_count m \<and> sm_transitions m \<noteq> [] \<and>
          0 < sm_transition_count m \<and>
          find_state (sm_states m) (sm_state_count m) (sm_current_state m) \<noteq> None)"

fun states_scan :: "ut_event_state list \<Rightarrow> bool" where
  "states_scan [] = True"
| "states_scan (s # ss) =
     (if st_id s = UT_EVENT_STATE_ID_ANY then False
      else if list_ex (\<lambda>inner. st_id s = st_id inner) ss then False
      else states_scan ss)"

definition states_are_valid :: "ut_event_state list \<Rightarrow> nat \<Rightarrow> bool" where
  "states_are_valid states count =
     (if states = [] \<or> count = 0 then False else states_scan (take count states))"

fun transitions_scan :: "ut_event_state list \<Rightarrow> nat \<Rightarrow> ut_event_state_transition list \<Rightarrow> bool" where
  "transitions_scan states state_count [] = True"
| "transitions_scan states state_count (t # ts) =
     (if tn_from_state t \<noteq> UT_EVENT_STATE_ID_ANY \<and> find_state states state_count (tn_from_state t) = None
      then False
      else if find_state states state_count (tn_to_state t) = None then False
      else transitions_scan states state_count ts)"

definition transitions_are_valid ::
    "ut_event_state list \<Rightarrow> nat \<Rightarrow> ut_event_state_transition list \<Rightarrow> nat \<Rightarrow> bool" where
  "transitions_are_valid states state_count transitions transition_count =
     (if transitions = [] \<or> transition_count = 0 then False
      else transitions_scan states state_count (take transition_count transitions))"

definition ut_event_state_machine_init ::
    "ut_event_state_machine option \<Rightarrow> ut_event_state list \<Rightarrow> nat \<Rightarrow> ut_event_state_transition list \<Rightarrow>
     nat \<Rightarrow> u32 \<Rightarrow> u32 \<Rightarrow> ptr \<Rightarrow> ut_event_result \<times> ut_event_state_machine option" where
  "ut_event_state_machine_init machine states state_count transitions transition_count initial_state
       source user_context =
     (if machine = None \<or> \<not> states_are_valid states state_count \<or>
         \<not> transitions_are_valid states state_count transitions transition_count \<or>
         find_state states state_count initial_state = None
      then (UT_EVENT_INVALID_ARGUMENT, machine)
      else (UT_EVENT_OK,
            Some \<lparr>sm_states = states, sm_state_count = state_count, sm_transitions = transitions,
                  sm_transition_count = transition_count, sm_current_state = initial_state,
                  sm_source = source, sm_user_context = user_context, sm_trace = None,
                  sm_dispatching = False\<rparr>))"

definition ut_event_state_machine_set_trace ::
    "ut_event_state_machine option \<Rightarrow> ut_event_trace option \<Rightarrow>
     ut_event_result \<times> ut_event_state_machine option" where
  "ut_event_state_machine_set_trace machine trace =
     (if \<not> machine_is_valid machine then (UT_EVENT_INVALID_ARGUMENT, machine)
      else if sm_dispatching (the machine) then (UT_EVENT_BUSY, machine)
      else (UT_EVENT_OK, Some ((the machine)\<lparr>sm_trace := trace\<rparr>)))"

definition ut_event_state_machine_current_state :: "ut_event_state_machine option \<Rightarrow> u32" where
  "ut_event_state_machine_current_state machine =
     (if machine_is_valid machine then sm_current_state (the machine) else UT_EVENT_STATE_ID_ANY)"

definition ut_event_state_machine_context :: "ut_event_state_machine option \<Rightarrow> ptr" where
  "ut_event_state_machine_context machine =
     (if machine_is_valid machine then sm_user_context (the machine) else 0)"

section \<open>Dispatch\<close>

text \<open>
  \<open>get\<close> and \<open>put\<close> locate the machine in the caller's state; \<open>guard\<close>, \<open>hook\<close> and \<open>sink\<close> say what
  calling the function at an address does. The search runs over the constant transition table and
  reads the current state through the machine each time, because guards run in between.
\<close>

fun find_transition ::
    "('w \<Rightarrow> ut_event_state_machine option) \<Rightarrow> (ptr \<Rightarrow> ut_event \<Rightarrow> ptr \<Rightarrow> 'w \<Rightarrow> bool \<times> 'w) \<Rightarrow> ut_event \<Rightarrow>
     ut_event_state_transition list \<Rightarrow> 'w \<Rightarrow> ut_event_state_transition option \<times> 'w" where
  "find_transition get guard event [] w = (None, w)"
| "find_transition get guard event (t # ts) w =
     (let state_matches = (tn_from_state t = sm_current_state (the (get w)) \<or>
                           tn_from_state t = UT_EVENT_STATE_ID_ANY);
          event_matches = (tn_event_id t = ev_id event \<or> tn_event_id t = UT_EVENT_ID_ANY)
      in if state_matches \<and> event_matches then
           if tn_guard t = 0 then (Some t, w)
           else let (pass, w') = guard (tn_guard t) event (tn_user_context t) w in
             if pass then (Some t, w') else find_transition get guard event ts w'
         else find_transition get guard event ts w)"

definition trace_transition ::
    "('w \<Rightarrow> ut_event_state_machine option) \<Rightarrow> (ptr \<Rightarrow> ut_event_trace_record \<Rightarrow> ptr \<Rightarrow> 'w \<Rightarrow> 'w) \<Rightarrow>
     u32 \<Rightarrow> u32 \<Rightarrow> u32 \<Rightarrow> 'w \<Rightarrow> 'w" where
  "trace_transition get sink from_state to_state reason w =
     (let m = the (get w) in
      if sm_trace m \<noteq> None
      then snd (ut_event_trace_state_transition sink (sm_trace m) (sm_source m) from_state to_state reason w)
      else w)"

text \<open>Calling an optional callback.\<close>

definition call_hook ::
    "(ptr \<Rightarrow> ut_event \<Rightarrow> ptr \<Rightarrow> 'w \<Rightarrow> 'w) \<Rightarrow> bool \<Rightarrow> ptr \<Rightarrow> ut_event \<Rightarrow> ptr \<Rightarrow> 'w \<Rightarrow> 'w" where
  "call_hook hook enabled f event context w = (if enabled \<and> f \<noteq> 0 then hook f event context w else w)"

definition ut_event_state_machine_dispatch ::
    "('w \<Rightarrow> ut_event_state_machine option) \<Rightarrow> (ut_event_state_machine \<Rightarrow> 'w \<Rightarrow> 'w) \<Rightarrow>
     (ptr \<Rightarrow> ut_event \<Rightarrow> ptr \<Rightarrow> 'w \<Rightarrow> bool \<times> 'w) \<Rightarrow> (ptr \<Rightarrow> ut_event \<Rightarrow> ptr \<Rightarrow> 'w \<Rightarrow> 'w) \<Rightarrow>
     (ptr \<Rightarrow> ut_event_trace_record \<Rightarrow> ptr \<Rightarrow> 'w \<Rightarrow> 'w) \<Rightarrow> ut_event option \<Rightarrow> u32 option \<Rightarrow> 'w \<Rightarrow>
     ut_event_result \<times> 'w \<times> u32 option" where
  "ut_event_state_machine_dispatch get put guard hook sink event out_new_state w =
     (let previous_state =
            (case get w of None \<Rightarrow> UT_EVENT_STATE_ID_ANY | Some m \<Rightarrow> sm_current_state m) in
      if \<not> machine_is_valid (get w) \<or> event = None then (UT_EVENT_INVALID_ARGUMENT, w, out_new_state)
      else if sm_dispatching (the (get w)) then (UT_EVENT_BUSY, w, out_new_state)
      else
        let m0 = the (get w);
            (found, w1) =
              find_transition get guard (the event) (take (sm_transition_count m0) (sm_transitions m0)) w
        in case found of
             None \<Rightarrow> (UT_EVENT_NOT_FOUND, w1, out_new_state)
           | Some transition \<Rightarrow>
               let internal_transition = (tn_options transition AND UT_EVENT_STATE_TRANSITION_INTERNAL \<noteq> 0);
                   m1 = the (get w1);
                   from_state = find_state (sm_states m1) (sm_state_count m1) previous_state;
                   to_state = find_state (sm_states m1) (sm_state_count m1) (tn_to_state transition)
               in if from_state = None \<or> to_state = None
                  then (UT_EVENT_INVALID_ARGUMENT, w1, out_new_state)
                  else
                    let w2 = put (m1\<lparr>sm_dispatching := True\<rparr>) w1;
                        w3 = call_hook hook (\<not> internal_transition) (st_exit (the from_state)) (the event)
                               (st_user_context (the from_state)) w2;
                        w4 = call_hook hook True (tn_action transition) (the event)
                               (tn_user_context transition) w3;
                        w5 = put ((the (get w4))\<lparr>sm_current_state := tn_to_state transition\<rparr>) w4;
                        w6 = call_hook hook (\<not> internal_transition) (st_entry (the to_state)) (the event)
                               (st_user_context (the to_state)) w5;
                        w7 = put ((the (get w6))\<lparr>sm_dispatching := False\<rparr>) w6;
                        w8 = trace_transition get sink previous_state
                               (sm_current_state (the (get w7))) (tn_reason transition) w7
                    in (UT_EVENT_OK, w8,
                        if out_new_state = None then None
                        else Some (sm_current_state (the (get w8)))))"

section \<open>The invariant\<close>

definition machine_wf :: "ut_event_state_machine \<Rightarrow> bool" where
  "machine_wf m \<longleftrightarrow> 0 < sm_state_count m \<and> sm_state_count m = length (sm_states m) \<and>
     0 < sm_transition_count m \<and> sm_transition_count m = length (sm_transitions m) \<and>
     distinct (map st_id (sm_states m)) \<and> UT_EVENT_STATE_ID_ANY \<notin> st_id ` set (sm_states m) \<and>
     (\<forall>t\<in>set (sm_transitions m). tn_to_state t \<in> st_id ` set (sm_states m) \<and>
        (tn_from_state t = UT_EVENT_STATE_ID_ANY \<or> tn_from_state t \<in> st_id ` set (sm_states m))) \<and>
     sm_current_state m \<in> st_id ` set (sm_states m)"

lemma find_state_None_iff:
  "find_state ss (length ss) i = None \<longleftrightarrow> i \<notin> st_id ` set ss"
  by (auto simp: find_state_def find_None_iff)

lemma find_state_SomeD: "find_state ss n i = Some s \<Longrightarrow> s \<in> set ss \<and> st_id s = i"
  by (auto simp: find_state_def find_Some_iff dest: in_set_takeD [OF nth_mem])

lemma states_scan_iff:
  "states_scan ss \<longleftrightarrow> distinct (map st_id ss) \<and> UT_EVENT_STATE_ID_ANY \<notin> st_id ` set ss"
  by (induction ss) (auto simp: list_ex_iff)

lemma transitions_scan_iff:
  "transitions_scan ss (length ss) ts \<longleftrightarrow>
    (\<forall>t\<in>set ts. tn_to_state t \<in> st_id ` set ss \<and>
      (tn_from_state t = UT_EVENT_STATE_ID_ANY \<or> tn_from_state t \<in> st_id ` set ss))"
  by (induction ts) (auto simp: find_state_None_iff)

lemma machine_wf_valid [simp]: "machine_wf m \<Longrightarrow> machine_is_valid (Some m)"
  by (auto simp: machine_wf_def machine_is_valid_def find_state_None_iff)

lemma machine_wf_update [simp]:
  "machine_wf (m\<lparr>sm_dispatching := b\<rparr>) = machine_wf m"
  "machine_wf (m\<lparr>sm_trace := t\<rparr>) = machine_wf m"
  by (simp_all add: machine_wf_def)

section \<open>Dispatch in a host state\<close>

text \<open>
  What a client must provide: a place for the machine, guards that (as their \<open>const\<close> pointer says)
  leave it alone, callbacks that leave it alone while it is dispatching, and sinks that do not call
  back. Callbacks written against the API obey, because the API refuses them while dispatching.
\<close>

locale machine_host =
  fixes get :: "'w \<Rightarrow> ut_event_state_machine option"
    and put :: "ut_event_state_machine \<Rightarrow> 'w \<Rightarrow> 'w"
    and guard :: "ptr \<Rightarrow> ut_event \<Rightarrow> ptr \<Rightarrow> 'w \<Rightarrow> bool \<times> 'w"
    and hook :: "ptr \<Rightarrow> ut_event \<Rightarrow> ptr \<Rightarrow> 'w \<Rightarrow> 'w"
    and sink :: "ptr \<Rightarrow> ut_event_trace_record \<Rightarrow> ptr \<Rightarrow> 'w \<Rightarrow> 'w"
  assumes get_put [simp]: "get (put m w) = Some m"
    and guard_frame [simp]: "get (snd (guard g e c w)) = get w"
    and hook_frame: "get w = Some m \<Longrightarrow> sm_dispatching m \<Longrightarrow> get (hook h e c w) = Some m"
    and sink_frame [simp]: "get (sink f r c w) = get w"
begin

lemma find_transition_frame: "get (snd (find_transition get guard e ts w)) = get w"
proof (induction ts arbitrary: w)
  case (Cons t ts)
  obtain pass w' where g: "guard (tn_guard t) e (tn_user_context t) w = (pass, w')" by (metis prod.collapse)
  then have "get w' = get w" using guard_frame [of "tn_guard t" e "tn_user_context t" w] by simp
  with Cons g show ?case by (simp add: Let_def)
qed simp

lemma find_transition_member: "find_transition get guard e ts w = (Some t, w') \<Longrightarrow> t \<in> set ts"
  by (induction ts arbitrary: w) (auto simp: Let_def split: if_splits prod.splits)

lemma call_hook_frame:
  "get w = Some m \<Longrightarrow> sm_dispatching m \<Longrightarrow> get (call_hook hook en h e c w) = Some m"
  by (simp add: call_hook_def hook_frame)

lemma trace_transition_frame [simp]: "get (trace_transition get sink f t r w) = get w"
  by (simp add: trace_transition_def ut_event_trace_state_transition_def Let_def)

text \<open>A dispatch that finds a transition: the callbacks in order, and where the machine ends.\<close>

lemma dispatch_fires:
  assumes w: "get w = Some m" and wf: "machine_wf m" and idle: "\<not> sm_dispatching m"
    and t: "find_transition get guard e (sm_transitions m) w = (Some t, w1)"
    and internal: "internal \<longleftrightarrow> tn_options t AND UT_EVENT_STATE_TRANSITION_INTERNAL \<noteq> 0"
    and src: "find_state (sm_states m) (sm_state_count m) (sm_current_state m) = Some f"
    and dest: "find_state (sm_states m) (sm_state_count m) (tn_to_state t) = Some g"
  shows "ut_event_state_machine_dispatch get put guard hook sink (Some e) (Some n) w =
    (UT_EVENT_OK,
     trace_transition get sink (sm_current_state m) (tn_to_state t) (tn_reason t)
       (put (m\<lparr>sm_current_state := tn_to_state t\<rparr>)
         (call_hook hook (\<not> internal) (st_entry g) e (st_user_context g)
           (put (m\<lparr>sm_dispatching := True, sm_current_state := tn_to_state t\<rparr>)
             (call_hook hook True (tn_action t) e (tn_user_context t)
               (call_hook hook (\<not> internal) (st_exit f) e (st_user_context f)
                 (put (m\<lparr>sm_dispatching := True\<rparr>) w1)))))),
     Some (tn_to_state t))"
proof -
  let ?m2 = "m\<lparr>sm_dispatching := True\<rparr>"
  let ?m5 = "m\<lparr>sm_dispatching := True, sm_current_state := tn_to_state t\<rparr>"
  let ?m7 = "m\<lparr>sm_current_state := tn_to_state t\<rparr>"
  let ?w4 = "call_hook hook True (tn_action t) e (tn_user_context t)
               (call_hook hook (\<not> internal) (st_exit f) e (st_user_context f) (put ?m2 w1))"
  let ?w6 = "call_hook hook (\<not> internal) (st_entry g) e (st_user_context g) (put ?m5 ?w4)"
  have w1: "get w1 = Some m" using find_transition_frame [of e "sm_transitions m" w] t w by simp
  have "get ?w4 = Some ?m2" by (intro call_hook_frame) simp_all
  moreover have "get ?w6 = Some ?m5" by (rule call_hook_frame) simp_all
  moreover have m5: "?m2\<lparr>sm_current_state := tn_to_state t\<rparr> = ?m5" by simp
  moreover have "?m5\<lparr>sm_dispatching := False\<rparr> = ?m7" using idle by (cases m) simp
  then have "put (?m5\<lparr>sm_dispatching := False\<rparr>) v = put ?m7 v" for v by (rule arg_cong2 [OF _ refl])
  ultimately show ?thesis
    using w wf idle t w1 src dest internal
    by (simp add: ut_event_state_machine_dispatch_def machine_wf_def machine_wf_valid [OF wf])
qed

lemma dispatch_none:
  assumes "get w = Some m" "machine_wf m" "\<not> sm_dispatching m"
    and "find_transition get guard e (sm_transitions m) w = (None, w1)"
  shows "ut_event_state_machine_dispatch get put guard hook sink (Some e) out w = (UT_EVENT_NOT_FOUND, w1, out)"
  using assms by (simp add: ut_event_state_machine_dispatch_def machine_wf_def machine_wf_valid [OF assms(2)])

end

lemma machine_wf_states:
  assumes "machine_wf m"
  shows "\<exists>f. find_state (sm_states m) (sm_state_count m) (sm_current_state m) = Some f"
    and "t \<in> set (sm_transitions m) \<Longrightarrow> \<exists>g. find_state (sm_states m) (sm_state_count m) (tn_to_state t) = Some g"
  using assms find_state_None_iff [of "sm_states m"]
  by (auto simp: machine_wf_def)

lemma machine_wf_move:
  "machine_wf m \<Longrightarrow> t \<in> set (sm_transitions m) \<Longrightarrow> machine_wf (m\<lparr>sm_current_state := tn_to_state t\<rparr>)"
  by (auto simp: machine_wf_def)

section \<open>Callbacks written against the API\<close>

text \<open>
  A callback is any program over its own data that may read the current state and try to dispatch
  or to change the trace of the machine it runs under; a guard is a test of the machine, the event
  and that data; the sink keeps the records.
\<close>

datatype 'u hook_prog =
    Finish 'u
  | AskState "u32 \<Rightarrow> 'u hook_prog"
  | Redispatch ut_event "ut_event_result \<Rightarrow> 'u hook_prog"
  | Retrace "ut_event_trace option" "ut_event_result \<Rightarrow> 'u hook_prog"

primrec run_hook :: "'u hook_prog \<Rightarrow> ut_event_state_machine option \<Rightarrow> ut_event_state_machine option \<times> 'u" where
  "run_hook (Finish u) m = (m, u)"
| "run_hook (AskState k) m = run_hook (k (ut_event_state_machine_current_state m)) m"
| "run_hook (Redispatch e k) m =
     (let (r, m', _) = ut_event_state_machine_dispatch id (\<lambda>m _. Some m) (\<lambda>_ _ _ w. (False, w))
                         (\<lambda>_ _ _ w. w) (\<lambda>_ _ _ w. w) (Some e) None m
      in run_hook (k r) m')"
| "run_hook (Retrace t k) m =
     (let (r, m') = ut_event_state_machine_set_trace m t in run_hook (k r) m')"

record 'u machine_host_state =
  mh_machine :: "ut_event_state_machine option"
  mh_records :: "ut_event_trace_record list"
  mh_data :: 'u

definition put_machine :: "ut_event_state_machine \<Rightarrow> 'u machine_host_state \<Rightarrow> 'u machine_host_state" where
  "put_machine m w = w\<lparr>mh_machine := Some m\<rparr>"

definition host_guard ::
    "(ptr \<Rightarrow> ut_event_state_machine option \<Rightarrow> ut_event \<Rightarrow> ptr \<Rightarrow> 'u \<Rightarrow> bool) \<Rightarrow>
     ptr \<Rightarrow> ut_event \<Rightarrow> ptr \<Rightarrow> 'u machine_host_state \<Rightarrow> bool \<times> 'u machine_host_state" where
  "host_guard guards g e c w = (guards g (mh_machine w) e c (mh_data w), w)"

definition host_hook ::
    "(ptr \<Rightarrow> ut_event \<Rightarrow> ptr \<Rightarrow> 'u \<Rightarrow> 'u hook_prog) \<Rightarrow> ptr \<Rightarrow> ut_event \<Rightarrow> ptr \<Rightarrow>
     'u machine_host_state \<Rightarrow> 'u machine_host_state" where
  "host_hook progs h e c w =
     (let (m, u) = run_hook (progs h e c (mh_data w)) (mh_machine w) in w\<lparr>mh_machine := m, mh_data := u\<rparr>)"

definition host_sink ::
    "ptr \<Rightarrow> ut_event_trace_record \<Rightarrow> ptr \<Rightarrow> 'u machine_host_state \<Rightarrow> 'u machine_host_state" where
  "host_sink f r c w = w\<lparr>mh_records := mh_records w @ [r]\<rparr>"

lemma busy_machine_dispatch:
  "get w = Some m \<Longrightarrow> sm_dispatching m \<Longrightarrow>
    fst (snd (ut_event_state_machine_dispatch get put guard hook sink e out w)) = w"
  by (simp add: ut_event_state_machine_dispatch_def Let_def)

lemma run_hook_busy: "sm_dispatching m \<Longrightarrow> fst (run_hook p (Some m)) = Some m"
proof (induction p)
  case (Redispatch e k)
  let ?r = "ut_event_state_machine_dispatch id (\<lambda>m _. Some m) (\<lambda>_ _ _ w. (False, w))
    (\<lambda>_ _ _ w. w) (\<lambda>_ _ _ w. w) (Some e) None (Some m)"
  have "fst (snd ?r) = Some m"
    using Redispatch.prems by (intro busy_machine_dispatch) simp_all
  then show ?case using Redispatch by (cases ?r) simp
next
  case (Retrace t k)
  then show ?case
    by (cases "ut_event_state_machine_set_trace (Some m) t")
      (auto simp: ut_event_state_machine_set_trace_def split: if_splits)
qed simp_all

interpretation mhost: machine_host mh_machine put_machine "host_guard guards" "host_hook progs" host_sink
  for guards progs
proof
  show "mh_machine (host_hook progs h e c w) = Some m" if "mh_machine w = Some m" "sm_dispatching m"
    for w h e c m
    using that run_hook_busy [of m "progs h e c (mh_data w)"]
    by (cases "run_hook (progs h e c (mh_data w)) (Some m)") (simp add: host_hook_def)
qed (simp_all add: put_machine_def host_guard_def host_sink_def)

section \<open>The automaton the tables define\<close>

definition matches :: "ut_event_state_machine \<Rightarrow> ut_event \<Rightarrow> ut_event_state_transition \<Rightarrow> bool" where
  "matches m e t \<longleftrightarrow> (tn_from_state t = sm_current_state m \<or> tn_from_state t = UT_EVENT_STATE_ID_ANY) \<and>
     (tn_event_id t = ev_id e \<or> tn_event_id t = UT_EVENT_ID_ANY)"

definition chosen ::
    "(ptr \<Rightarrow> ut_event_state_machine option \<Rightarrow> ut_event \<Rightarrow> ptr \<Rightarrow> 'u \<Rightarrow> bool) \<Rightarrow>
     ut_event_state_machine \<Rightarrow> ut_event \<Rightarrow> 'u \<Rightarrow> ut_event_state_transition option" where
  "chosen guards m e u = List.find (\<lambda>t. matches m e t \<and>
     (tn_guard t = 0 \<or> guards (tn_guard t) (Some m) e (tn_user_context t) u)) (sm_transitions m)"

text \<open>A callback's effect on the data when it runs in a given state of a dispatching machine.\<close>

definition in_state ::
    "(ptr \<Rightarrow> ut_event \<Rightarrow> ptr \<Rightarrow> 'u \<Rightarrow> 'u hook_prog) \<Rightarrow> ut_event_state_machine \<Rightarrow> bool \<Rightarrow> ptr \<Rightarrow>
     ut_event \<Rightarrow> ptr \<Rightarrow> 'u \<Rightarrow> 'u" where
  "in_state progs m enabled h e c u =
     (if enabled \<and> h \<noteq> 0 then snd (run_hook (progs h e c u) (Some (m\<lparr>sm_dispatching := True\<rparr>))) else u)"

definition transition_record ::
    "ut_event_state_machine \<Rightarrow> ut_event_state_transition \<Rightarrow> ut_event_trace_record" where
  "transition_record m t =
     \<lparr>tr_kind = UT_EVENT_TRACE_KIND_STATE_TRANSITION, tr_event_id = UT_EVENT_ID_ANY,
      tr_source = sm_source m, tr_from_state = sm_current_state m, tr_to_state = tn_to_state t,
      tr_reason = tn_reason t, tr_payload_size = 0\<rparr>"

abbreviation state_named :: "ut_event_state_machine \<Rightarrow> u32 \<Rightarrow> ut_event_state" where
  "state_named m i \<equiv> the (find_state (sm_states m) (sm_state_count m) i)"

definition is_internal :: "ut_event_state_transition \<Rightarrow> bool" where
  "is_internal t \<longleftrightarrow> tn_options t AND UT_EVENT_STATE_TRANSITION_INTERNAL \<noteq> 0"

definition take_transition ::
    "(ptr \<Rightarrow> ut_event \<Rightarrow> ptr \<Rightarrow> 'u \<Rightarrow> 'u hook_prog) \<Rightarrow> ut_event_state_machine \<Rightarrow> ut_event \<Rightarrow>
     ut_event_state_transition \<Rightarrow> 'u \<Rightarrow> 'u" where
  "take_transition progs m e t u =
     (let f = state_named m (sm_current_state m);
          g = state_named m (tn_to_state t);
          m' = m\<lparr>sm_current_state := tn_to_state t\<rparr>;
          u1 = in_state progs m (\<not> is_internal t) (st_exit f) e (st_user_context f) u;
          u2 = in_state progs m True (tn_action t) e (tn_user_context t) u1
      in in_state progs m' (\<not> is_internal t) (st_entry g) e (st_user_context g) u2)"

lemma find_transition_chosen:
  "mh_machine w = Some m \<Longrightarrow>
    find_transition mh_machine (host_guard guards) e ts w =
      (List.find (\<lambda>t. matches m e t \<and>
         (tn_guard t = 0 \<or> guards (tn_guard t) (Some m) e (tn_user_context t) (mh_data w))) ts, w)"
  by (induction ts) (simp_all add: matches_def host_guard_def Let_def)

lemma call_hook_in_state:
  assumes "mh_machine w = Some (m\<lparr>sm_dispatching := True\<rparr>)"
  shows "call_hook (host_hook progs) en h e c w = w\<lparr>mh_data := in_state progs m en h e c (mh_data w)\<rparr>"
proof -
  let ?m = "m\<lparr>sm_dispatching := True\<rparr>"
  obtain m' u where r: "run_hook (progs h e c (mh_data w)) (Some ?m) = (m', u)" by (metis prod.collapse)
  then have "m' = Some ?m" using run_hook_busy [of ?m "progs h e c (mh_data w)"] by simp
  with r assms show ?thesis
    by (cases w) (simp add: call_hook_def host_hook_def in_state_def)
qed

text \<open>One dispatch of the host is one step of the automaton.\<close>

lemma machine_dispatch_step:
  assumes w: "mh_machine w = Some m" and wf: "machine_wf m" and idle: "\<not> sm_dispatching m"
  shows "ut_event_state_machine_dispatch mh_machine put_machine (host_guard guards) (host_hook progs)
      host_sink (Some e) (Some n) w =
    (case chosen guards m e (mh_data w) of
       None \<Rightarrow> (UT_EVENT_NOT_FOUND, w, Some n)
     | Some t \<Rightarrow>
         (UT_EVENT_OK,
          w\<lparr>mh_machine := Some (m\<lparr>sm_current_state := tn_to_state t\<rparr>),
            mh_records := mh_records w @ (if trace_is_valid (sm_trace m) then [transition_record m t] else []),
            mh_data := take_transition progs m e t (mh_data w)\<rparr>,
          Some (tn_to_state t)))"
proof (cases "chosen guards m e (mh_data w)")
  case None
  then have "find_transition mh_machine (host_guard guards) e (sm_transitions m) w = (None, w)"
    using find_transition_chosen [OF w, of guards e "sm_transitions m"] by (simp add: chosen_def)
  from mhost.dispatch_none [OF w wf idle this] None show ?thesis by simp
next
  case (Some t)
  then have t: "find_transition mh_machine (host_guard guards) e (sm_transitions m) w = (Some t, w)"
    using find_transition_chosen [OF w, of guards e "sm_transitions m"] by (simp add: chosen_def)
  have mem: "t \<in> set (sm_transitions m)" by (rule mhost.find_transition_member [OF t])
  obtain f g where fg: "find_state (sm_states m) (sm_state_count m) (sm_current_state m) = Some f"
    "find_state (sm_states m) (sm_state_count m) (tn_to_state t) = Some g"
    using machine_wf_states [OF wf] mem by blast
  let ?m' = "m\<lparr>sm_current_state := tn_to_state t\<rparr>"
  have order: "m\<lparr>sm_dispatching := True, sm_current_state := tn_to_state t\<rparr> = ?m'\<lparr>sm_dispatching := True\<rparr>"
    by (cases m) simp
  have tables: "sm_states ?m' = sm_states m" "sm_source ?m' = sm_source m" "sm_trace ?m' = sm_trace m" by simp_all
  have hook: "mh_machine v = Some (k\<lparr>sm_dispatching := True\<rparr>) \<Longrightarrow>
      call_hook (host_hook progs) en h e c v = v\<lparr>mh_data := in_state progs k en h e c (mh_data v)\<rparr>" for v k en h c
    by (rule call_hook_in_state)
  from mhost.dispatch_fires [OF w wf idle t is_internal_def fg, of progs n]
  show ?thesis
    unfolding order
    by (simp add: Some put_machine_def hook [of _ m] hook [of _ ?m'] trace_transition_def
        ut_event_trace_state_transition_def host_sink_def take_transition_def fg transition_record_def
        trace_is_valid_def Let_def split: option.split)
qed

section \<open>Runs\<close>

fun dispatch_events ::
    "(ptr \<Rightarrow> ut_event_state_machine option \<Rightarrow> ut_event \<Rightarrow> ptr \<Rightarrow> 'u \<Rightarrow> bool) \<Rightarrow>
     (ptr \<Rightarrow> ut_event \<Rightarrow> ptr \<Rightarrow> 'u \<Rightarrow> 'u hook_prog) \<Rightarrow> ut_event list \<Rightarrow> 'u machine_host_state \<Rightarrow>
     'u machine_host_state" where
  "dispatch_events guards progs [] w = w"
| "dispatch_events guards progs (e # es) w =
     dispatch_events guards progs es
       (fst (snd (ut_event_state_machine_dispatch mh_machine put_machine (host_guard guards)
          (host_hook progs) host_sink (Some e) (Some 0) w)))"

text \<open>Records that start in one state, each going on where the one before ended, and end in another.\<close>

fun record_path :: "u32 \<Rightarrow> ut_event_trace_record list \<Rightarrow> u32 \<Rightarrow> bool" where
  "record_path i [] j \<longleftrightarrow> i = j"
| "record_path i (r # rs) j \<longleftrightarrow> tr_from_state r = i \<and> record_path (tr_to_state r) rs j"

definition allowed :: "ut_event_state_transition list \<Rightarrow> ut_event_trace_record \<Rightarrow> bool" where
  "allowed ts r \<longleftrightarrow> (\<exists>t\<in>set ts. (tn_from_state t = tr_from_state r \<or> tn_from_state t = UT_EVENT_STATE_ID_ANY) \<and>
     tn_to_state t = tr_to_state r \<and> tn_reason t = tr_reason r)"

lemma chosen_SomeD:
  "chosen guards m e u = Some t \<Longrightarrow> t \<in> set (sm_transitions m) \<and> matches m e t"
  by (auto simp: chosen_def find_Some_iff)

lemma events_trace_path:
  assumes "mh_machine w = Some m" "machine_wf m" "\<not> sm_dispatching m" "trace_is_valid (sm_trace m)"
  shows "\<exists>m' rs. mh_machine (dispatch_events guards progs es w) = Some m' \<and> machine_wf m' \<and>
    \<not> sm_dispatching m' \<and> sm_states m' = sm_states m \<and> sm_transitions m' = sm_transitions m \<and>
    mh_records (dispatch_events guards progs es w) = mh_records w @ rs \<and>
    record_path (sm_current_state m) rs (sm_current_state m') \<and> (\<forall>r\<in>set rs. allowed (sm_transitions m) r)"
  using assms
proof (induction es arbitrary: w m)
  case Nil
  then show ?case by simp
next
  case (Cons e es)
  show ?case
  proof (cases "chosen guards m e (mh_data w)")
    case None
    with machine_dispatch_step [OF Cons.prems(1-3), of guards progs e 0] Cons show ?thesis by simp
  next
    case (Some t)
    note t = chosen_SomeD [OF Some]
    let ?m = "m\<lparr>sm_current_state := tn_to_state t\<rparr>"
    let ?w = "w\<lparr>mh_machine := Some ?m, mh_records := mh_records w @ [transition_record m t],
      mh_data := take_transition progs m e t (mh_data w)\<rparr>"
    have "dispatch_events guards progs (e # es) w = dispatch_events guards progs es ?w"
      using machine_dispatch_step [OF Cons.prems(1-3), of guards progs e 0] Some Cons.prems(4) by simp
    moreover have "machine_wf ?m" using Cons.prems(2) t by (intro machine_wf_move) simp_all
    moreover have "allowed (sm_transitions m) (transition_record m t)"
      using t by (auto simp: allowed_def transition_record_def matches_def)
    ultimately show ?thesis
      using Cons.IH [of ?w ?m] Cons.prems(3,4) by (auto simp: transition_record_def)
  qed
qed

text \<open>A door: closed (1), open (2), with an entry callback on opening and an action on closing.\<close>

definition door_states :: "ut_event_state list" where
  "door_states =
     [\<lparr>st_id = 1, st_name = 0, st_entry = 0, st_exit = 11, st_user_context = 0\<rparr>,
      \<lparr>st_id = 2, st_name = 0, st_entry = 12, st_exit = 0, st_user_context = 0\<rparr>]"

definition door_transitions :: "ut_event_state_transition list" where
  "door_transitions =
     [\<lparr>tn_from_state = 1, tn_event_id = 5, tn_to_state = 2, tn_guard = 0, tn_action = 13,
       tn_user_context = 0, tn_options = 0, tn_reason = 9\<rparr>,
      \<lparr>tn_from_state = 2, tn_event_id = 6, tn_to_state = 1, tn_guard = 14, tn_action = 0,
       tn_user_context = 0, tn_options = 0, tn_reason = 8\<rparr>]"

definition door :: ut_event_state_machine where
  "door = \<lparr>sm_states = door_states, sm_state_count = 2, sm_transitions = door_transitions,
     sm_transition_count = 2, sm_current_state = 1, sm_source = 3, sm_user_context = 0,
     sm_trace = Some \<lparr>tc_sink = 7, tc_user_context = 0\<rparr>, sm_dispatching = False\<rparr>"

lemma door_wf: "machine_wf door" "\<not> sm_dispatching door" "trace_is_valid (sm_trace door)"
  by (simp_all add: door_def machine_wf_def door_states_def door_transitions_def trace_is_valid_def
      UT_EVENT_STATE_ID_ANY_def uint32_max_def)

section \<open>Properties\<close>

text \<open>Property C23. Initialisation accepts a pair of tables exactly when the state ids are unique and
  none is the wildcard, every transition leads from a listed state (or from any) to a listed state, and
  the initial state is listed; the machine is then well formed, in the initial state, untraced and
  idle. Otherwise it is left untouched.\<close>

theorem state_machine_init_checks_tables:
  assumes "states \<noteq> []" and "transitions \<noteq> []"
  shows "ut_event_state_machine_init (Some m0) states (length states) transitions (length transitions) i src c =
    (if distinct (map st_id states) \<and> UT_EVENT_STATE_ID_ANY \<notin> st_id ` set states \<and>
        (\<forall>t\<in>set transitions. tn_to_state t \<in> st_id ` set states \<and>
           (tn_from_state t = UT_EVENT_STATE_ID_ANY \<or> tn_from_state t \<in> st_id ` set states)) \<and>
        i \<in> st_id ` set states
     then (UT_EVENT_OK, Some \<lparr>sm_states = states, sm_state_count = length states,
       sm_transitions = transitions, sm_transition_count = length transitions, sm_current_state = i,
       sm_source = src, sm_user_context = c, sm_trace = None, sm_dispatching = False\<rparr>)
     else (UT_EVENT_INVALID_ARGUMENT, Some m0)) \<and>
    (\<forall>m. ut_event_state_machine_init (Some m0) states (length states) transitions (length transitions) i src c
        = (UT_EVENT_OK, Some m) \<longrightarrow> machine_wf m)"
  using assms
  by (auto simp: ut_event_state_machine_init_def states_are_valid_def transitions_are_valid_def
      states_scan_iff transitions_scan_iff find_state_None_iff machine_wf_def)

theorem state_machine_init_checks_tables_witness:
  "fst (ut_event_state_machine_init (Some door) door_states 2 door_transitions 2 1 3 0) = UT_EVENT_OK"
proof -
  have tables: "door_states \<noteq> []" "door_transitions \<noteq> []" "length door_states = 2" "length door_transitions = 2"
    "distinct (map st_id door_states)" "UT_EVENT_STATE_ID_ANY \<notin> st_id ` set door_states"
    "\<forall>t\<in>set door_transitions. tn_to_state t \<in> st_id ` set door_states \<and>
       (tn_from_state t = UT_EVENT_STATE_ID_ANY \<or> tn_from_state t \<in> st_id ` set door_states)"
    "1 \<in> st_id ` set door_states"
    by (simp_all add: door_states_def door_transitions_def UT_EVENT_STATE_ID_ANY_def uint32_max_def)
  with state_machine_init_checks_tables [OF tables(1,2), of door 1 3 0] show ?thesis by simp
qed

text \<open>Property C12. A dispatch is one step of the automaton the tables define, whatever API calls the
  callbacks make: the first matching transition whose guard passes is taken, its effects run in the
  order exit, action (in the old state), entry (in the new state), exit and entry being skipped for an
  internal transition; the machine ends idle in the target state, one trace record is emitted and the
  new state is returned. Without such a transition nothing happens and the answer is NOT_FOUND.\<close>

theorem state_machine_dispatch_is_automaton_step:
  assumes "mh_machine w = Some m" and "machine_wf m" and "\<not> sm_dispatching m"
  shows "ut_event_state_machine_dispatch mh_machine put_machine (host_guard guards) (host_hook progs)
      host_sink (Some e) (Some n) w =
    (case chosen guards m e (mh_data w) of
       None \<Rightarrow> (UT_EVENT_NOT_FOUND, w, Some n)
     | Some t \<Rightarrow>
         (UT_EVENT_OK,
          w\<lparr>mh_machine := Some (m\<lparr>sm_current_state := tn_to_state t\<rparr>),
            mh_records := mh_records w @ (if trace_is_valid (sm_trace m) then [transition_record m t] else []),
            mh_data := take_transition progs m e t (mh_data w)\<rparr>,
          Some (tn_to_state t)))"
  by (rule machine_dispatch_step [OF assms])

theorem state_machine_dispatch_is_automaton_step_witness:
  "fst (ut_event_state_machine_dispatch mh_machine put_machine (host_guard (\<lambda>_ _ _ _ _. False))
      (host_hook (\<lambda>h e c u. Redispatch e (\<lambda>r. AskState (\<lambda>s. Finish (u @ [(h, s, r)])))))
      host_sink (Some (zero_event\<lparr>ev_id := 5\<rparr>)) (Some 0)
      \<lparr>mh_machine = Some door, mh_records = [], mh_data = []\<rparr>) = UT_EVENT_OK \<and>
   mh_data (fst (snd (ut_event_state_machine_dispatch mh_machine put_machine (host_guard (\<lambda>_ _ _ _ _. False))
      (host_hook (\<lambda>h e c u. Redispatch e (\<lambda>r. AskState (\<lambda>s. Finish (u @ [(h, s, r)])))))
      host_sink (Some (zero_event\<lparr>ev_id := 5\<rparr>)) (Some 0)
      \<lparr>mh_machine = Some door, mh_records = [], mh_data = []\<rparr>)))
    = [(11, 1, UT_EVENT_BUSY), (13, 1, UT_EVENT_BUSY), (12, 2, UT_EVENT_BUSY)]"
  by (subst state_machine_dispatch_is_automaton_step [of _ door], simp_all add: door_wf,
      subst state_machine_dispatch_is_automaton_step [of _ door], simp_all add: door_wf)
    (simp_all add: chosen_def matches_def take_transition_def in_state_def is_internal_def find_state_def
      machine_is_valid_def ut_event_state_machine_dispatch_def ut_event_state_machine_current_state_def
      door_def door_states_def door_transitions_def UT_EVENT_STATE_TRANSITION_INTERNAL_def Let_def)

text \<open>Property C20. Over any sequence of events the trace is the machine's history: the records form a
  path from the state it started in to the state it is in, each record is a transition the table
  allows, and the machine stays well formed, so its current state is always a listed one.\<close>

theorem state_machine_trace_is_history:
  assumes "mh_machine w = Some m" and "machine_wf m" and "\<not> sm_dispatching m"
    and "trace_is_valid (sm_trace m)"
  shows "\<exists>m' rs. mh_machine (dispatch_events guards progs es w) = Some m' \<and> machine_wf m' \<and>
    sm_current_state m' \<in> st_id ` set (sm_states m) \<and>
    mh_records (dispatch_events guards progs es w) = mh_records w @ rs \<and>
    record_path (sm_current_state m) rs (sm_current_state m') \<and> (\<forall>r\<in>set rs. allowed (sm_transitions m) r)"
proof -
  obtain m' rs where r: "mh_machine (dispatch_events guards progs es w) = Some m'" "machine_wf m'"
    "sm_states m' = sm_states m" "mh_records (dispatch_events guards progs es w) = mh_records w @ rs"
    "record_path (sm_current_state m) rs (sm_current_state m')" "\<forall>r\<in>set rs. allowed (sm_transitions m) r"
    using events_trace_path [OF assms, of guards progs es] by blast
  then have "sm_current_state m' \<in> st_id ` set (sm_states m)" by (simp add: machine_wf_def)
  with r show ?thesis by blast
qed

theorem state_machine_trace_is_history_witness:
  "\<exists>m' rs. mh_machine (dispatch_events (\<lambda>_ _ _ _ u. u = (1 :: nat)) (\<lambda>h e c u. Finish (u + 1))
      [zero_event\<lparr>ev_id := 5\<rparr>, zero_event\<lparr>ev_id := 6\<rparr>]
      \<lparr>mh_machine = Some door, mh_records = [], mh_data = 0\<rparr>) = Some m' \<and>
    record_path 1 rs (sm_current_state m') \<and> (\<forall>r\<in>set rs. allowed door_transitions r)"
proof -
  have "sm_current_state door = 1" "sm_transitions door = door_transitions" by (simp_all add: door_def)
  with state_machine_trace_is_history [OF _ door_wf,
      of "\<lparr>mh_machine = Some door, mh_records = [], mh_data = 0\<rparr>" "\<lambda>_ _ _ _ u. u = (1 :: nat)"
        "\<lambda>h e c u. Finish (u + 1)" "[zero_event\<lparr>ev_id := 5\<rparr>, zero_event\<lparr>ev_id := 6\<rparr>]"]
  show ?thesis by auto
qed

end
