(* ===== verification/Event_Publisher.thy ===== *)
theory Event_Publisher
  imports Event_Queue Event_Dispatcher
begin

text \<open>
  The publisher (\<open>utility_event_publisher.c\<close>): publishing copies the payload into a free slot of a
  byte array and queues a descriptor that points at the slot; dispatching pops a descriptor, delivers
  it and frees the slot. The payload array has a base address, so that the pointer arithmetic of the
  code is the one modelled. The state a call runs on is the publisher and the data \<open>'u\<close> of everybody
  outside it; \<open>lock_fn\<close> says what calling a lock callback does to that data.
\<close>

record ut_event_publisher =
  p_queue :: ut_event_queue
  p_dispatcher :: ut_event_dispatcher
  p_payload_base :: ptr
  p_payload_storage :: "u8 list"
  p_occupied_storage :: "bool list"
  p_capacity :: nat
  p_payload_capacity :: nat
  p_lock :: ptr
  p_unlock :: ptr
  p_lock_context :: ptr
  p_dispatching :: bool

type_synonym 'u pworld = "ut_event_publisher \<times> 'u"

section \<open>Operations\<close>

definition publisher_is_valid :: "ut_event_publisher option \<Rightarrow> bool" where
  "publisher_is_valid publisher =
     (case publisher of
        None \<Rightarrow> False
      | Some p \<Rightarrow> p_payload_base p \<noteq> 0 \<and> p_occupied_storage p \<noteq> [] \<and> 0 < p_capacity p \<and>
          0 < p_payload_capacity p \<and>
          (p_lock p = 0 \<and> p_unlock p = 0 \<or> p_lock p \<noteq> 0 \<and> p_unlock p \<noteq> 0))"

definition publisher_lock :: "(ptr \<Rightarrow> ptr \<Rightarrow> 'u \<Rightarrow> 'u) \<Rightarrow> 'u pworld \<Rightarrow> 'u pworld" where
  "publisher_lock lock_fn w =
     (let p = fst w in
      (p, if p_lock p \<noteq> 0 then lock_fn (p_lock p) (p_lock_context p) (snd w) else snd w))"

definition publisher_unlock :: "(ptr \<Rightarrow> ptr \<Rightarrow> 'u \<Rightarrow> 'u) \<Rightarrow> 'u pworld \<Rightarrow> 'u pworld" where
  "publisher_unlock lock_fn w =
     (let p = fst w in
      (p, if p_unlock p \<noteq> 0 then lock_fn (p_unlock p) (p_lock_context p) (snd w) else snd w))"

definition payload_at :: "ut_event_publisher \<Rightarrow> nat \<Rightarrow> ptr" where
  "payload_at p index = p_payload_base p + index * p_payload_capacity p"

definition find_free_slot :: "ut_event_publisher \<Rightarrow> nat" where
  "find_free_slot p =
     (case first_index (\<lambda>occupied. \<not> occupied) (take (p_capacity p) (p_occupied_storage p)) of
        None \<Rightarrow> p_capacity p
      | Some index \<Rightarrow> index)"

definition find_payload_slot :: "ut_event_publisher \<Rightarrow> ptr \<Rightarrow> nat" where
  "find_payload_slot p payload =
     (case first_index (\<lambda>index. payload = payload_at p index) [0..<p_capacity p] of
        None \<Rightarrow> p_capacity p
      | Some index \<Rightarrow> index)"

definition zero_publisher :: ut_event_publisher where
  "zero_publisher =
     \<lparr>p_queue = \<lparr>q_storage = [], q_capacity = 0, q_head = 0, q_tail = 0, q_count = 0\<rparr>,
      p_dispatcher = \<lparr>d_subscriptions = [], d_capacity = 0, d_count = 0, d_dispatching = False\<rparr>,
      p_payload_base = 0, p_payload_storage = [], p_occupied_storage = [], p_capacity = 0,
      p_payload_capacity = 0, p_lock = 0, p_unlock = 0, p_lock_context = 0, p_dispatching = False\<rparr>"

text \<open>The payload array is its address and its contents.\<close>

definition ut_event_publisher_init ::
    "ut_event_publisher option \<Rightarrow> ut_event list \<Rightarrow> ptr \<Rightarrow> u8 list \<Rightarrow> bool list \<Rightarrow> nat \<Rightarrow> nat \<Rightarrow>
     ut_event_subscription list \<Rightarrow> nat \<Rightarrow> ptr \<Rightarrow> ptr \<Rightarrow> ptr \<Rightarrow> ut_event_result \<times> ut_event_publisher option" where
  "ut_event_publisher_init publisher event_storage payload_base payload_storage occupied_storage capacity
       payload_capacity subscription_storage subscription_capacity lock unlock lock_context =
     (if publisher = None \<or> event_storage = [] \<or> payload_base = 0 \<or> occupied_storage = [] \<or>
         capacity = 0 \<or> payload_capacity = 0 \<or> size_max div payload_capacity < capacity \<or>
         subscription_storage = [] \<or> subscription_capacity = 0 \<or> (lock = 0) \<noteq> (unlock = 0)
      then (UT_EVENT_INVALID_ARGUMENT, publisher)
      else
        let p = zero_publisher\<lparr>p_payload_base := payload_base, p_payload_storage := payload_storage,
                  p_occupied_storage := replicate capacity False @ drop capacity occupied_storage,
                  p_capacity := capacity, p_payload_capacity := payload_capacity,
                  p_lock := lock, p_unlock := unlock, p_lock_context := lock_context\<rparr>;
            (qr, q) = ut_event_queue_init (Some (p_queue p)) event_storage capacity;
            (dr, d) = ut_event_dispatcher_init (Some (p_dispatcher p)) subscription_storage subscription_capacity
        in if qr \<noteq> UT_EVENT_OK \<or> dr \<noteq> UT_EVENT_OK
           then (UT_EVENT_INVALID_ARGUMENT, Some zero_publisher)
           else (UT_EVENT_OK, Some (p\<lparr>p_queue := the q, p_dispatcher := the d\<rparr>)))"

definition ut_event_publisher_subscribe ::
    "ut_event_publisher option \<Rightarrow> u32 \<Rightarrow> ptr \<Rightarrow> ptr \<Rightarrow> ut_event_result \<times> ut_event_publisher option" where
  "ut_event_publisher_subscribe publisher event_id handler user_context =
     (if \<not> publisher_is_valid publisher then (UT_EVENT_INVALID_ARGUMENT, publisher)
      else let p = the publisher;
               (r, d) = ut_event_subscribe (Some (p_dispatcher p)) event_id handler user_context
           in (r, Some (p\<lparr>p_dispatcher := the d\<rparr>)))"

text \<open>\<open>memcpy\<close> of a payload into a slot.\<close>

definition write_payload :: "nat \<Rightarrow> u8 list \<Rightarrow> ut_event_publisher \<Rightarrow> ut_event_publisher" where
  "write_payload slot bytes p =
     (let off = slot * p_payload_capacity p; st = p_payload_storage p in
      p\<lparr>p_payload_storage := take off st @ bytes @ drop (off + length bytes) st\<rparr>)"

text \<open>The part of \<open>ut_event_publisher_publish_copy\<close> between lock and unlock.\<close>

definition publish_locked ::
    "u32 \<Rightarrow> u32 \<Rightarrow> u8 list \<Rightarrow> nat \<Rightarrow> ut_event_publisher \<Rightarrow> ut_event_result \<times> ut_event_publisher" where
  "publish_locked event_id source payload payload_size p =
     (if payload_size = 0 then
        let event = \<lparr>ev_id = event_id, ev_source = source, ev_payload = 0, ev_payload_size = 0\<rparr>;
            (r, q) = ut_event_queue_push (Some (p_queue p)) (Some event)
        in (r, p\<lparr>p_queue := the q\<rparr>)
      else
        let slot = find_free_slot p in
        if p_capacity p \<le> slot then (UT_EVENT_FULL, p)
        else
          let event = \<lparr>ev_id = event_id, ev_source = source, ev_payload = payload_at p slot,
                       ev_payload_size = payload_size\<rparr>;
              p1 = write_payload slot (take payload_size payload) p;
              p2 = p1\<lparr>p_occupied_storage := (p_occupied_storage p1)[slot := True]\<rparr>;
              (r, q) = ut_event_queue_push (Some (p_queue p2)) (Some event);
              p3 = p2\<lparr>p_queue := the q\<rparr>
          in (r, if r \<noteq> UT_EVENT_OK
                 then p3\<lparr>p_occupied_storage := (p_occupied_storage p3)[slot := False]\<rparr> else p3))"

definition ut_event_publisher_publish_copy ::
    "(ptr \<Rightarrow> ptr \<Rightarrow> 'u \<Rightarrow> 'u) \<Rightarrow> u32 \<Rightarrow> u32 \<Rightarrow> u8 list \<Rightarrow> nat \<Rightarrow> 'u pworld option \<Rightarrow>
     ut_event_result \<times> 'u pworld option" where
  "ut_event_publisher_publish_copy lock_fn event_id source payload payload_size publisher =
     (if \<not> publisher_is_valid (map_option fst publisher) \<or> payload_size = 0 \<and> payload \<noteq> [] \<or>
         0 < payload_size \<and> payload = [] \<or> p_payload_capacity (fst (the publisher)) < payload_size
      then (UT_EVENT_INVALID_ARGUMENT, publisher)
      else
        let (p, u) = publisher_lock lock_fn (the publisher);
            (result, p') = publish_locked event_id source payload payload_size p
        in (result, Some (publisher_unlock lock_fn (p', u))))"

definition publisher_pop_event ::
    "(ptr \<Rightarrow> ptr \<Rightarrow> 'u \<Rightarrow> 'u) \<Rightarrow> 'u pworld \<Rightarrow> ut_event_result \<times> ut_event \<times> nat \<times> 'u pworld" where
  "publisher_pop_event lock_fn w =
     (let (p, u) = publisher_lock lock_fn w;
          (r, q, event) = ut_event_queue_pop (Some (p_queue p)) (Some zero_event);
          p1 = p\<lparr>p_queue := the q\<rparr>;
          e = the event;
          slot = (if r = UT_EVENT_OK \<and> ev_payload e \<noteq> 0 then find_payload_slot p1 (ev_payload e)
                  else p_capacity p);
          result = (if r = UT_EVENT_OK \<and> ev_payload e \<noteq> 0 \<and>
                       (p_capacity p1 \<le> slot \<or> \<not> p_occupied_storage p1 ! slot)
                    then UT_EVENT_INVALID_ARGUMENT else r)
      in (result, e, slot, publisher_unlock lock_fn (p1, u)))"

definition publisher_release_slot :: "(ptr \<Rightarrow> ptr \<Rightarrow> 'u \<Rightarrow> 'u) \<Rightarrow> nat \<Rightarrow> 'u pworld \<Rightarrow> 'u pworld" where
  "publisher_release_slot lock_fn slot w =
     (let (p, u) = publisher_lock lock_fn w in
      publisher_unlock lock_fn
        (if slot < p_capacity p
         then p\<lparr>p_occupied_storage := (p_occupied_storage p)[slot := False]\<rparr> else p, u))"

text \<open>The inner dispatcher in the state a call runs on.\<close>

definition pdispatcher :: "'u pworld \<Rightarrow> ut_event_dispatcher option" where
  "pdispatcher w = Some (p_dispatcher (fst w))"

definition put_pdispatcher :: "ut_event_dispatcher \<Rightarrow> 'u pworld \<Rightarrow> 'u pworld" where
  "put_pdispatcher d w = ((fst w)\<lparr>p_dispatcher := d\<rparr>, snd w)"

definition publisher_dispatch_event ::
    "(ptr \<Rightarrow> ut_event \<Rightarrow> ptr \<Rightarrow> 'u pworld \<Rightarrow> 'u pworld) \<Rightarrow> ut_event \<Rightarrow> 'u pworld \<Rightarrow>
     ut_event_result \<times> 'u pworld" where
  "publisher_dispatch_event call event w =
     (let (result, w', _) = ut_event_dispatch pdispatcher put_pdispatcher call (Some event) None w
      in (if result = UT_EVENT_NOT_FOUND then UT_EVENT_OK else result, w'))"

function publisher_dispatch_loop ::
    "(ptr \<Rightarrow> ptr \<Rightarrow> 'u \<Rightarrow> 'u) \<Rightarrow> (ptr \<Rightarrow> ut_event \<Rightarrow> ptr \<Rightarrow> 'u pworld \<Rightarrow> 'u pworld) \<Rightarrow> nat \<Rightarrow>
     ut_event_result \<Rightarrow> nat \<Rightarrow> 'u pworld \<Rightarrow> ut_event_result \<times> nat \<times> 'u pworld" where
  "publisher_dispatch_loop lock_fn call budget result dispatched w =
     (if dispatched < budget \<and> result = UT_EVENT_OK then
        let (pop_result, event, slot, w1) = publisher_pop_event lock_fn w in
        if pop_result = UT_EVENT_EMPTY then (result, dispatched, w1)
        else if pop_result \<noteq> UT_EVENT_OK then (pop_result, dispatched, w1)
        else
          let (result1, w2) = publisher_dispatch_event call event w1;
              w3 = publisher_release_slot lock_fn slot w2
          in publisher_dispatch_loop lock_fn call budget result1 (dispatched + 1) w3
      else (result, dispatched, w))"
  by pat_completeness auto
termination
  by (relation "measure (\<lambda>(lock_fn, call, budget, r, dispatched, w). budget - dispatched)") auto

declare publisher_dispatch_loop.simps [simp del]

definition ut_event_publisher_dispatch ::
    "(ptr \<Rightarrow> ptr \<Rightarrow> 'u \<Rightarrow> 'u) \<Rightarrow> (ptr \<Rightarrow> ut_event \<Rightarrow> ptr \<Rightarrow> 'u pworld \<Rightarrow> 'u pworld) \<Rightarrow> nat \<Rightarrow>
     nat option \<Rightarrow> 'u pworld option \<Rightarrow> ut_event_result \<times> 'u pworld option \<times> nat option" where
  "ut_event_publisher_dispatch lock_fn call budget out_dispatched publisher =
     (if \<not> publisher_is_valid (map_option fst publisher) \<or> budget = 0
      then (UT_EVENT_INVALID_ARGUMENT, publisher, out_dispatched)
      else if p_dispatching (fst (the publisher)) then (UT_EVENT_BUSY, publisher, out_dispatched)
      else
        let w = the publisher;
            w1 = ((fst w)\<lparr>p_dispatching := True\<rparr>, snd w);
            (result, dispatched, w2) = publisher_dispatch_loop lock_fn call budget UT_EVENT_OK 0 w1
        in (result, Some ((fst w2)\<lparr>p_dispatching := False\<rparr>, snd w2),
            if out_dispatched = None then None else Some dispatched))"

definition ut_event_publisher_count ::
    "(ptr \<Rightarrow> ptr \<Rightarrow> 'u \<Rightarrow> 'u) \<Rightarrow> 'u pworld option \<Rightarrow> nat \<times> 'u pworld option" where
  "ut_event_publisher_count lock_fn publisher =
     (if publisher_is_valid (map_option fst publisher) then
        let w1 = publisher_lock lock_fn (the publisher) in
        (ut_event_queue_count (Some (p_queue (fst w1))), Some (publisher_unlock lock_fn w1))
      else (0, publisher))"

section \<open>The invariant\<close>

text \<open>
  The slot a descriptor points at, the bytes it stands for, and the invariant: the queued
  descriptors with a payload and the slots of the event being delivered (\<open>inflight\<close>) point at
  different slots, and exactly these are occupied, so no slot leaks and none is shared.
\<close>

definition slot_of :: "ut_event_publisher \<Rightarrow> ut_event \<Rightarrow> nat" where
  "slot_of p e = (ev_payload e - p_payload_base p) div p_payload_capacity p"

definition payload_bytes :: "ut_event_publisher \<Rightarrow> ut_event \<Rightarrow> u8 list" where
  "payload_bytes p e =
     (if ev_payload e = 0 then []
      else take (ev_payload_size e) (drop (ev_payload e - p_payload_base p) (p_payload_storage p)))"

type_synonym message = "u32 \<times> u32 \<times> u8 list"

definition message :: "ut_event_publisher \<Rightarrow> ut_event \<Rightarrow> message" where
  "message p e = (ev_id e, ev_source e, payload_bytes p e)"

definition messages :: "ut_event_publisher \<Rightarrow> message list" where
  "messages p = map (message p) (queue_items (p_queue p))"

definition descriptor_ok :: "ut_event_publisher \<Rightarrow> ut_event \<Rightarrow> bool" where
  "descriptor_ok p e \<longleftrightarrow>
     (if ev_payload e = 0 then ev_payload_size e = 0
      else slot_of p e < p_capacity p \<and> ev_payload e = payload_at p (slot_of p e) \<and>
        0 < ev_payload_size e \<and> ev_payload_size e \<le> p_payload_capacity p)"

definition event_slots :: "ut_event_publisher \<Rightarrow> ut_event list \<Rightarrow> nat list" where
  "event_slots p es = map (slot_of p) (filter (\<lambda>e. ev_payload e \<noteq> 0) es)"

definition publisher_wf :: "nat list \<Rightarrow> ut_event_publisher \<Rightarrow> bool" where
  "publisher_wf inflight p \<longleftrightarrow> publisher_is_valid (Some p) \<and> queue_wf (p_queue p) \<and>
     q_capacity (p_queue p) = p_capacity p \<and> dispatcher_wf (p_dispatcher p) \<and>
     length (p_occupied_storage p) = p_capacity p \<and>
     p_capacity p * p_payload_capacity p \<le> length (p_payload_storage p) \<and>
     (\<forall>e\<in>set (queue_items (p_queue p)). descriptor_ok p e) \<and>
     distinct (inflight @ event_slots p (queue_items (p_queue p))) \<and>
     (\<forall>i. (i < p_capacity p \<and> p_occupied_storage p ! i) \<longleftrightarrow>
        i \<in> set (inflight @ event_slots p (queue_items (p_queue p))))"

lemma slot_payload_at [simp]:
  "0 < p_payload_capacity p \<Longrightarrow> slot_of p (e\<lparr>ev_payload := payload_at p i\<rparr>) = i"
  by (simp add: slot_of_def payload_at_def)

lemma payload_at_inj: "0 < p_payload_capacity p \<Longrightarrow> payload_at p i = payload_at p j \<longleftrightarrow> i = j"
  by (simp add: payload_at_def)

text \<open>Writing one slot: what it then holds, and that the others keep their bytes.\<close>

lemma write_slot_nth:
  assumes "off + length bs \<le> length st" and "j < length st"
  shows "(take off st @ bs @ drop (off + length bs) st) ! j =
    (if off \<le> j \<and> j < off + length bs then bs ! (j - off) else st ! j)"
proof -
  consider "j < off" | "off \<le> j" "j < off + length bs" | "off + length bs \<le> j" by arith
  then show ?thesis
    using assms by cases (auto simp: nth_append min_def)
qed

lemma write_slot_length:
  "off + length bs \<le> length st \<Longrightarrow> length (take off st @ bs @ drop (off + length bs) st) = length st"
  by simp

lemma write_slot_other:
  assumes fit: "k * c + length bs \<le> length st" and "length bs \<le> c" and "i \<noteq> k" and "n \<le> (c :: nat)"
    and "i * c + c \<le> length st"
  shows "take n (drop (i * c) (take (k * c) st @ bs @ drop (k * c + length bs) st)) = take n (drop (i * c) st)"
proof (rule nth_equalityI)
  let ?st = "take (k * c) st @ bs @ drop (k * c + length bs) st"
  have len: "length ?st = length st" by (rule write_slot_length [OF fit])
  show "length (take n (drop (i * c) ?st)) = length (take n (drop (i * c) st))"
    by (simp only: length_take length_drop len)
next
  let ?st = "take (k * c) st @ bs @ drop (k * c + length bs) st"
  have len: "length ?st = length st" by (rule write_slot_length [OF fit])
  fix j assume "j < length (take n (drop (i * c) ?st))"
  then have j: "j < n" "i * c + j < length st" unfolding length_take length_drop len by auto
  have "\<not> (k * c \<le> i * c + j \<and> i * c + j < k * c + length bs)"
  proof
    assume a: "k * c \<le> i * c + j \<and> i * c + j < k * c + length bs"
    have "i * c + j < (i + 1) * c" "k * c + length bs \<le> (k + 1) * c" using j assms by simp_all
    with a have "k * c < (i + 1) * c" "i * c < (k + 1) * c" by linarith+
    then have "k < i + 1" "i < k + 1" using mult_less_cancel2 by blast+
    with \<open>i \<noteq> k\<close> show False by simp
  qed
  then have "?st ! (i * c + j) = st ! (i * c + j)"
    unfolding write_slot_nth [OF fit j(2)] by (rule if_not_P)
  moreover have "i * c \<le> length ?st" unfolding len using j by simp
  ultimately show "take n (drop (i * c) ?st) ! j = take n (drop (i * c) st) ! j"
    using j by (simp only: nth_take nth_drop)
qed

lemma write_slot_same:
  "k * c + length bs \<le> length st \<Longrightarrow>
    take (length bs) (drop (k * c) (take (k * c) st @ bs @ drop (k * c + length bs) st)) = bs"
  by simp

section \<open>Publishing\<close>

text \<open>
  What publishing promises: a message queue bounded by the capacity, in which a payload also needs a
  free slot. \<open>inflight\<close> is the number of slots of messages being delivered.
\<close>

definition has_payload :: "message \<Rightarrow> bool" where
  "has_payload = (\<lambda>(i, s, bs). bs \<noteq> [])"

definition abs_publish ::
    "nat \<Rightarrow> nat \<Rightarrow> nat \<Rightarrow> message list \<Rightarrow> message \<Rightarrow> ut_event_result \<times> message list" where
  "abs_publish cap pcap inflight ms m =
     (if pcap < length (snd (snd m)) then (UT_EVENT_INVALID_ARGUMENT, ms)
      else if length ms = cap \<or> has_payload m \<and> length (filter has_payload ms) + inflight = cap
      then (UT_EVENT_FULL, ms)
      else (UT_EVENT_OK, ms @ [m]))"

text \<open>One critical section: the lock callback, then the unlock callback, if they are set.\<close>

definition critical :: "(ptr \<Rightarrow> ptr \<Rightarrow> 'e \<Rightarrow> 'e) \<Rightarrow> ut_event_publisher \<Rightarrow> 'e \<Rightarrow> 'e" where
  "critical lock_fn p env =
     (if p_lock p \<noteq> 0 then lock_fn (p_unlock p) (p_lock_context p) (lock_fn (p_lock p) (p_lock_context p) env)
      else env)"

definition same_config :: "ut_event_publisher \<Rightarrow> ut_event_publisher \<Rightarrow> bool" where
  "same_config p p' \<longleftrightarrow> p_capacity p' = p_capacity p \<and> p_payload_capacity p' = p_payload_capacity p \<and>
     p_payload_base p' = p_payload_base p \<and> p_lock p' = p_lock p \<and> p_unlock p' = p_unlock p \<and>
     p_lock_context p' = p_lock_context p \<and> p_dispatching p' = p_dispatching p"

lemma same_config_refl [simp]: "same_config p p"
  by (simp add: same_config_def)

lemma same_config_trans: "same_config p q \<Longrightarrow> same_config q r \<Longrightarrow> same_config p r"
  by (simp add: same_config_def)

lemma publisher_wf_valid: "publisher_wf infl p \<Longrightarrow> publisher_is_valid (Some p)"
  by (simp add: publisher_wf_def)

lemma has_payload_message:
  assumes "publisher_wf infl p" "e \<in> set (queue_items (p_queue p))"
  shows "has_payload (message p e) \<longleftrightarrow> ev_payload e \<noteq> 0"
proof (cases "ev_payload e = 0")
  case False
  have d: "slot_of p e < p_capacity p" "ev_payload e = payload_at p (slot_of p e)" "0 < ev_payload_size e"
    using assms False by (auto simp: publisher_wf_def descriptor_ok_def)
  have "slot_of p e * p_payload_capacity p < p_capacity p * p_payload_capacity p"
    using d(1) assms(1) by (simp add: publisher_wf_def publisher_is_valid_def)
  also have "\<dots> \<le> length (p_payload_storage p)" using assms(1) by (simp add: publisher_wf_def)
  finally have "ev_payload e - p_payload_base p < length (p_payload_storage p)"
    by (simp add: d(2) [unfolded payload_at_def])
  with d(3) False show ?thesis by (simp add: has_payload_def message_def payload_bytes_def)
qed (simp add: has_payload_def message_def payload_bytes_def)

lemma filter_map_cong: "(\<And>x. x \<in> set xs \<Longrightarrow> P (f x) \<longleftrightarrow> Q x) \<Longrightarrow> length (filter P (map f xs)) = length (filter Q xs)"
  by (induction xs) auto

lemma used_slots:
  assumes "publisher_wf infl p"
  shows "length (filter has_payload (messages p)) = length (event_slots p (queue_items (p_queue p)))"
  unfolding messages_def event_slots_def length_map
  by (rule filter_map_cong) (rule has_payload_message [OF assms])

text \<open>The number of occupied slots, and when the search for a free one fails.\<close>

lemma free_slot:
  assumes wf: "publisher_wf infl p"
  shows "p_capacity p \<le> find_free_slot p \<longleftrightarrow>
      length (filter has_payload (messages p)) + length infl = p_capacity p"
    and "find_free_slot p < p_capacity p \<Longrightarrow> \<not> p_occupied_storage p ! find_free_slot p"
proof -
  let ?occ = "p_occupied_storage p" and ?used = "infl @ event_slots p (queue_items (p_queue p))"
  have len: "length ?occ = p_capacity p" using wf by (simp add: publisher_wf_def)
  have used: "set ?used = {i. i < p_capacity p \<and> ?occ ! i}" and dist: "distinct ?used"
    using wf by (auto simp: publisher_wf_def)
  have card: "length ?used = card {i. i < p_capacity p \<and> ?occ ! i}"
    using distinct_card [OF dist] used by simp
  have all: "first_index (\<lambda>occupied. \<not> occupied) ?occ = None \<longleftrightarrow> {i. i < p_capacity p \<and> ?occ ! i} = {..<p_capacity p}"
    unfolding first_index_None_iff all_set_conv_all_nth len by auto
  also have "\<dots> \<longleftrightarrow> card {i. i < p_capacity p \<and> ?occ ! i} = p_capacity p"
  proof
    assume "card {i. i < p_capacity p \<and> ?occ ! i} = p_capacity p"
    then show "{i. i < p_capacity p \<and> ?occ ! i} = {..<p_capacity p}"
      by (intro card_subset_eq) auto
  qed simp
  finally have none: "first_index (\<lambda>occupied. \<not> occupied) ?occ = None \<longleftrightarrow> length ?used = p_capacity p"
    by (simp only: card)
  have sum: "length ?used = length (filter has_payload (messages p)) + length infl"
    using used_slots [OF wf] by (simp only: length_append add.commute)
  show "p_capacity p \<le> find_free_slot p \<longleftrightarrow>
      length (filter has_payload (messages p)) + length infl = p_capacity p"
  proof (cases "first_index (\<lambda>occupied. \<not> occupied) ?occ")
    case None
    with none sum len show ?thesis by (simp add: find_free_slot_def)
  next
    case (Some i)
    have "length ?used \<noteq> p_capacity p" using none Some by simp
    with first_index_SomeD [OF Some] Some sum len show ?thesis by (simp add: find_free_slot_def)
  qed
  show "find_free_slot p < p_capacity p \<Longrightarrow> \<not> ?occ ! find_free_slot p"
    using len by (auto simp: find_free_slot_def split: option.splits dest: first_index_SomeD)
qed

lemma same_config_views:
  assumes "same_config p p'"
  shows "slot_of p' = slot_of p" "payload_at p' = payload_at p" "descriptor_ok p' = descriptor_ok p"
    "event_slots p' = event_slots p"
  using assms
  by (auto simp: same_config_def slot_of_def payload_at_def descriptor_ok_def event_slots_def fun_eq_iff)

lemma payload_bytes_cong:
  "same_config p p' \<Longrightarrow> p_payload_storage p' = p_payload_storage p \<Longrightarrow> payload_bytes p' = payload_bytes p"
  by (auto simp: payload_bytes_def same_config_def fun_eq_iff)

lemma slot_range:
  assumes "publisher_wf infl p" "k < p_capacity p" "n \<le> p_payload_capacity p"
  shows "k * p_payload_capacity p + n \<le> length (p_payload_storage p)"
proof -
  have "k * p_payload_capacity p + p_payload_capacity p \<le> p_capacity p * p_payload_capacity p"
    using assms(2) mult_le_mono1 [of "Suc k" "p_capacity p" "p_payload_capacity p"] by simp
  with assms(1,3) show ?thesis by (simp add: publisher_wf_def)
qed

lemma payload_offset:
  "descriptor_ok p e \<Longrightarrow> ev_payload e \<noteq> 0 \<Longrightarrow> ev_payload e - p_payload_base p = slot_of p e * p_payload_capacity p"
  by (auto simp: descriptor_ok_def payload_at_def)

lemma write_payload_other:
  assumes wf: "publisher_wf infl p" and k: "k < p_capacity p" and bs: "length bs \<le> p_payload_capacity p"
    and e: "descriptor_ok p e" "ev_payload e \<noteq> 0 \<Longrightarrow> slot_of p e \<noteq> k"
  shows "payload_bytes (write_payload k bs p) e = payload_bytes p e"
proof (cases "ev_payload e = 0")
  case False
  have "slot_of p e < p_capacity p" "ev_payload_size e \<le> p_payload_capacity p"
    using e(1) False by (simp_all add: descriptor_ok_def)
  with write_slot_other [OF slot_range [OF wf k bs] bs e(2) [OF False], of "ev_payload_size e"]
    slot_range [OF wf, of "slot_of p e" "p_payload_capacity p"] False payload_offset [OF e(1) False]
  show ?thesis by (simp add: payload_bytes_def write_payload_def Let_def)
qed (simp add: payload_bytes_def)

lemma write_payload_same:
  assumes "publisher_wf infl p" "k < p_capacity p" "length bs \<le> p_payload_capacity p" "bs \<noteq> []"
    and "ev_payload e = payload_at p k" "ev_payload_size e = length bs"
  shows "payload_bytes (write_payload k bs p) e = bs"
proof -
  have "payload_at p k \<noteq> 0" using assms(1) by (simp add: payload_at_def publisher_wf_def publisher_is_valid_def)
  with assms write_slot_same [OF slot_range [OF assms(1-3)]] show ?thesis
    by (simp add: payload_bytes_def write_payload_def payload_at_def Let_def)
qed

lemma write_payload_config [simp]:
  "same_config p (write_payload k bs p)" "p_queue (write_payload k bs p) = p_queue p"
  "p_dispatcher (write_payload k bs p) = p_dispatcher p"
  "p_occupied_storage (write_payload k bs p) = p_occupied_storage p"
  by (simp_all add: same_config_def write_payload_def Let_def)

lemma length_write_payload:
  "publisher_wf infl p \<Longrightarrow> k < p_capacity p \<Longrightarrow> length bs \<le> p_payload_capacity p \<Longrightarrow>
    length (p_payload_storage (write_payload k bs p)) = length (p_payload_storage p)"
  using slot_range [of infl p k "length bs"] by (simp add: write_payload_def Let_def)

text \<open>The queued descriptors use slots other than a free one.\<close>

lemma queued_not_free:
  assumes "publisher_wf infl p" "e \<in> set (queue_items (p_queue p))" "ev_payload e \<noteq> 0"
  shows "slot_of p e < p_capacity p \<and> p_occupied_storage p ! slot_of p e"
proof -
  have "slot_of p e \<in> set (event_slots p (queue_items (p_queue p)))"
    using assms(2,3) by (simp add: event_slots_def)
  with assms(1) show ?thesis by (auto simp: publisher_wf_def)
qed

lemma inflight_not_free:
  "publisher_wf infl p \<Longrightarrow> i \<in> set infl \<Longrightarrow> i < p_capacity p \<and> p_occupied_storage p ! i"
  by (auto simp: publisher_wf_def)

text \<open>Rewriting a free slot and possibly the queue keeps the old messages.\<close>

lemma wf_after_write:
  assumes wf: "publisher_wf infl p" and k: "k < p_capacity p" "\<not> p_occupied_storage p ! k"
    and bs: "length bs \<le> p_payload_capacity p"
  defines "p1 \<equiv> write_payload k bs p"
  shows "publisher_wf infl p1" "map (message p1) (queue_items (p_queue p)) = messages p"
proof -
  have views: "slot_of p1 = slot_of p" "payload_at p1 = payload_at p" "descriptor_ok p1 = descriptor_ok p"
    "event_slots p1 = event_slots p"
    using same_config_views [of p p1] by (simp_all add: p1_def)
  have conf: "p_capacity p1 = p_capacity p" "p_payload_capacity p1 = p_payload_capacity p"
    "p_payload_base p1 = p_payload_base p" "p_lock p1 = p_lock p" "p_unlock p1 = p_unlock p"
    using write_payload_config(1) [of p k bs] by (simp_all add: same_config_def p1_def)
  show "publisher_wf infl p1"
    using wf length_write_payload [OF wf k(1) bs] views conf
    by (simp add: publisher_wf_def publisher_is_valid_def p1_def)
  show "map (message p1) (queue_items (p_queue p)) = messages p"
    unfolding messages_def
  proof (rule map_cong [OF refl])
    fix e assume e: "e \<in> set (queue_items (p_queue p))"
    then have "descriptor_ok p e" using wf by (simp add: publisher_wf_def)
    moreover have "ev_payload e \<noteq> 0 \<Longrightarrow> slot_of p e \<noteq> k" using queued_not_free [OF wf e] k(2) by auto
    ultimately show "message p1 e = message p e"
      using write_payload_other [OF wf k(1) bs] by (simp add: message_def p1_def)
  qed
qed

text \<open>Queueing a descriptor of a freshly occupied slot, or one without a payload.\<close>

lemma wf_push:
  assumes wf: "publisher_wf infl p" and q: "queue_wf q'" "q_capacity q' = q_capacity (p_queue p)"
    "queue_items q' = queue_items (p_queue p) @ [e]" and e: "descriptor_ok p e"
    and occ: "occ = (if ev_payload e = 0 then p_occupied_storage p
      else (p_occupied_storage p)[slot_of p e := True])"
    and free: "ev_payload e \<noteq> 0 \<Longrightarrow> \<not> p_occupied_storage p ! slot_of p e"
  shows "publisher_wf infl (p\<lparr>p_occupied_storage := occ, p_queue := q'\<rparr>)"
proof -
  let ?p = "p\<lparr>p_occupied_storage := occ, p_queue := q'\<rparr>"
  have conf: "same_config p ?p" by (simp add: same_config_def)
  note views = same_config_views [OF conf]
  have len: "length (p_occupied_storage p) = p_capacity p" using wf by (simp add: publisher_wf_def)
  have slots: "event_slots p (queue_items q') =
      event_slots p (queue_items (p_queue p)) @ (if ev_payload e = 0 then [] else [slot_of p e])"
    by (simp add: event_slots_def q)
  let ?used = "infl @ event_slots p (queue_items (p_queue p))"
  have used: "i \<in> set ?used \<longleftrightarrow> i < p_capacity p \<and> p_occupied_storage p ! i" for i
    using wf by (simp add: publisher_wf_def)
  have new: "distinct (infl @ event_slots p (queue_items q'))"
    using wf used [of "slot_of p e"] free unfolding slots by (auto simp: publisher_wf_def)
  have k: "ev_payload e \<noteq> 0 \<Longrightarrow> slot_of p e < p_capacity p" using e by (simp add: descriptor_ok_def)
  have occs: "(i < p_capacity p \<and> occ ! i) \<longleftrightarrow> i \<in> set (infl @ event_slots p (queue_items q'))" for i
    using used [of i] k len unfolding slots occ by (cases "i = slot_of p e") auto
  have valid: "publisher_is_valid (Some ?p)"
    using wf len by (auto simp: publisher_wf_def publisher_is_valid_def occ)
  show ?thesis
    unfolding publisher_wf_def views using wf q e new occs valid len
    by (auto simp: publisher_wf_def occ)
qed

lemma lock_unlock:
  "publisher_is_valid (Some p) \<Longrightarrow> same_config p p' \<Longrightarrow>
    publisher_unlock lock_fn (p', snd (publisher_lock lock_fn (p, env))) = (p', critical lock_fn p env)"
  by (auto simp: publisher_lock_def publisher_unlock_def critical_def same_config_def publisher_is_valid_def)

lemma fst_lock [simp]: "fst (publisher_lock lock_fn w) = fst w"
  by (simp add: publisher_lock_def Let_def)

lemma lock_pair: "publisher_lock lock_fn (p, env) = (p, snd (publisher_lock lock_fn (p, env)))"
  by (metis fst_lock fst_conv prod.collapse)

definition keeps_slots :: "nat list \<Rightarrow> ut_event_publisher \<Rightarrow> ut_event_publisher \<Rightarrow> bool" where
  "keeps_slots infl p p' \<longleftrightarrow> (\<forall>e. descriptor_ok p e \<longrightarrow> ev_payload e \<noteq> 0 \<longrightarrow> slot_of p e \<in> set infl \<longrightarrow>
     payload_bytes p' e = payload_bytes p e)"

lemma publisher_same_fields:
  "p_occupied_storage p = occ \<Longrightarrow> p_queue p = q \<Longrightarrow> p\<lparr>p_occupied_storage := occ, p_queue := q\<rparr> = p"
  by (cases p) simp

text \<open>The critical section of a publish.\<close>

lemma publish_locked_abs:
  assumes wf: "publisher_wf infl p" and fits: "length bs \<le> p_payload_capacity p"
    and a: "abs_publish (p_capacity p) (p_payload_capacity p) (length infl) (messages p) (i, s, bs) = (r, ms)"
  shows "\<exists>p'. publish_locked i s bs (length bs) p = (r, p') \<and> publisher_wf infl p' \<and> same_config p p' \<and>
    p_dispatcher p' = p_dispatcher p \<and> messages p' = ms \<and> keeps_slots infl p p'"
proof -
  let ?q = "p_queue p"
  have q: "queue_wf ?q" "q_capacity ?q = p_capacity p" using wf by (simp_all add: publisher_wf_def)
  have cnt: "length (messages p) = q_count ?q" by (simp add: messages_def)
  have room: "q_count ?q \<noteq> q_capacity ?q \<Longrightarrow> q_count ?q < q_capacity ?q" using q(1) by (simp add: queue_wf_def)
  have pcap: "0 < p_payload_capacity p" using wf by (simp add: publisher_wf_def publisher_is_valid_def)
  show ?thesis
  proof (cases "bs = []")
    case True
    let ?e = "\<lparr>ev_id = i, ev_source = s, ev_payload = 0, ev_payload_size = 0\<rparr>"
    have no: "\<not> has_payload (i, s, bs)" using True by (simp add: has_payload_def)
    show ?thesis
    proof (cases "q_count ?q = q_capacity ?q")
      case full: True
      have "(r, ms) = (UT_EVENT_FULL, messages p)" using a no full cnt q fits by (simp add: abs_publish_def)
      moreover have "publish_locked i s bs (length bs) p = (UT_EVENT_FULL, p)"
        using True push_full [OF q(1) full] by (simp add: publish_locked_def)
      ultimately show ?thesis using wf by (simp add: keeps_slots_def)
    next
      case False
      obtain q' where q': "ut_event_queue_push (Some ?q) (Some ?e) = (UT_EVENT_OK, Some q')" "queue_wf q'"
        "q_capacity q' = q_capacity ?q" "queue_items q' = queue_items ?q @ [?e]"
        using push_room [OF q(1) room [OF False], of ?e] by auto
      let ?p = "p\<lparr>p_queue := q'\<rparr>"
      have conf: "same_config p ?p" by (simp add: same_config_def)
      have "publisher_wf infl (p\<lparr>p_occupied_storage := p_occupied_storage p, p_queue := q'\<rparr>)"
        by (rule wf_push [OF wf q'(2-4)]) (simp_all add: descriptor_ok_def)
      then have "publisher_wf infl ?p" by simp
      moreover have "payload_bytes ?p = payload_bytes p" by (rule payload_bytes_cong [OF conf]) simp
      then have "messages ?p = messages p @ [(i, s, bs)]" "keeps_slots infl p ?p"
        using True by (simp_all add: messages_def message_def [abs_def] q'(4) payload_bytes_def keeps_slots_def)
      moreover have "(r, ms) = (UT_EVENT_OK, messages p @ [(i, s, bs)])"
        using a no False cnt q fits by (simp add: abs_publish_def)
      ultimately show ?thesis using True q'(1) conf by (simp add: publish_locked_def)
    qed
  next
    case False
    then have has: "has_payload (i, s, bs)" by (simp add: has_payload_def)
    let ?k = "find_free_slot p"
    show ?thesis
    proof (cases "p_capacity p \<le> ?k")
      case True
      then have "(r, ms) = (UT_EVENT_FULL, messages p)"
        using a has free_slot(1) [OF wf] fits by (simp add: abs_publish_def)
      with True False wf show ?thesis by (simp add: publish_locked_def keeps_slots_def)
    next
      case slot: False
      then have k: "?k < p_capacity p" "\<not> p_occupied_storage p ! ?k" using free_slot(2) [OF wf] by auto
      let ?e = "\<lparr>ev_id = i, ev_source = s, ev_payload = payload_at p ?k, ev_payload_size = length bs\<rparr>"
      let ?p1 = "write_payload ?k bs p"
      note w = wf_after_write [OF wf k fits]
      have keep1: "keeps_slots infl p ?p1"
        unfolding keeps_slots_def
      proof (intro allI impI)
        fix e assume e: "descriptor_ok p e" "slot_of p e \<in> set infl"
        have "slot_of p e \<noteq> ?k" using inflight_not_free [OF wf e(2)] k(2) by auto
        then show "payload_bytes ?p1 e = payload_bytes p e" by (rule write_payload_other [OF wf k(1) fits e(1)])
      qed
      have len: "length (p_occupied_storage p) = p_capacity p" using wf by (simp add: publisher_wf_def)
      show ?thesis
      proof (cases "q_count ?q = q_capacity ?q")
        case full: True
        have "(r, ms) = (UT_EVENT_FULL, messages p)" using a full cnt q fits by (simp add: abs_publish_def)
        moreover have restored: "(p_occupied_storage p)[?k := False] = p_occupied_storage p"
          using k len by (metis list_update_id)
        moreover have "publish_locked i s bs (length bs) p = (UT_EVENT_FULL, ?p1)"
        proof -
          have "?p1\<lparr>p_occupied_storage := p_occupied_storage p, p_queue := p_queue p\<rparr> = ?p1"
            by (rule publisher_same_fields) simp_all
          with slot False push_full [OF q(1) full, of ?e] restored show ?thesis
            by (simp add: publish_locked_def Let_def)
        qed
        moreover have "messages ?p1 = messages p" using w(2) by (simp add: messages_def)
        ultimately show ?thesis using w(1) keep1 by simp
      next
        case notfull: False
        obtain q' where q': "ut_event_queue_push (Some ?q) (Some ?e) = (UT_EVENT_OK, Some q')" "queue_wf q'"
          "q_capacity q' = q_capacity ?q" "queue_items q' = queue_items ?q @ [?e]"
          using push_room [OF q(1) room [OF notfull], of ?e] by auto
        let ?p = "?p1\<lparr>p_occupied_storage := (p_occupied_storage p)[?k := True], p_queue := q'\<rparr>"
        have views: "slot_of ?p1 = slot_of p" "descriptor_ok ?p1 = descriptor_ok p"
          using same_config_views [OF write_payload_config(1)] by simp_all
        have se: "slot_of p ?e = ?k" using pcap by (simp add: slot_of_def payload_at_def)
        have ne: "payload_at p ?k \<noteq> 0" using wf by (simp add: payload_at_def publisher_wf_def publisher_is_valid_def)
        have "publisher_wf infl ?p"
          using w(1) q' k fits False se ne views
          by (intro wf_push [where e = ?e]) (simp_all add: descriptor_ok_def)
        moreover have conf1: "same_config ?p1 ?p" by (simp add: same_config_def)
        then have conf: "same_config p ?p" by (rule same_config_trans [OF write_payload_config(1)])
        moreover have bytes: "payload_bytes ?p = payload_bytes ?p1" by (rule payload_bytes_cong [OF conf1]) simp
        then have "messages ?p = map (message ?p1) (queue_items ?q) @ [message ?p1 ?e]"
          by (simp add: messages_def message_def [abs_def] q'(4))
        then have "messages ?p = messages p @ [(i, s, bs)]"
          using w(2) write_payload_same [OF wf k(1) fits False, of ?e] by (simp add: message_def)
        moreover have "keeps_slots infl p ?p" using keep1 bytes by (simp add: keeps_slots_def)
        moreover have "length (filter has_payload (messages p)) + length infl \<noteq> p_capacity p"
          using free_slot(1) [OF wf] slot by blast
        then have "(r, ms) = (UT_EVENT_OK, messages p @ [(i, s, bs)])"
          using a notfull cnt q fits by (simp add: abs_publish_def)
        moreover have "publish_locked i s bs (length bs) p = (UT_EVENT_OK, ?p)"
          using slot False q'(1) by (simp add: publish_locked_def Let_def)
        ultimately show ?thesis by simp
      qed
    qed
  qed
qed

lemma publish_abs:
  assumes wf: "publisher_wf infl p"
    and a: "abs_publish (p_capacity p) (p_payload_capacity p) (length infl) (messages p) (i, s, bs) = (r, ms)"
  shows "\<exists>p' n. ut_event_publisher_publish_copy lock_fn i s bs (length bs) (Some (p, env)) =
      (r, Some (p', (critical lock_fn p ^^ n) env)) \<and>
    publisher_wf infl p' \<and> same_config p p' \<and> p_dispatcher p' = p_dispatcher p \<and> messages p' = ms \<and>
    keeps_slots infl p p'"
proof (cases "p_payload_capacity p < length bs")
  case True
  with wf a show ?thesis
    by (intro exI [of _ p] exI [of _ 0])
      (auto simp: ut_event_publisher_publish_copy_def publisher_wf_valid abs_publish_def keeps_slots_def)
next
  case False
  note valid = publisher_wf_valid [OF wf]
  from False have "length bs \<le> p_payload_capacity p" by simp
  from publish_locked_abs [OF wf this a] obtain p' where p': "publish_locked i s bs (length bs) p = (r, p')"
    "publisher_wf infl p'" "same_config p p'" "p_dispatcher p' = p_dispatcher p" "messages p' = ms"
    "keeps_slots infl p p'" by blast
  have "ut_event_publisher_publish_copy lock_fn i s bs (length bs) (Some (p, env)) =
      (r, Some (p', (critical lock_fn p ^^ 1) env))"
    using False valid p'(1) lock_pair [of lock_fn p env] lock_unlock [OF valid p'(3), of lock_fn env]
    by (auto simp: ut_event_publisher_publish_copy_def split: prod.split)
  with p' show ?thesis by blast
qed

section \<open>Handlers\<close>

text \<open>
  A handler is any program over its own data, chosen by the message it receives (the descriptor
  with the bytes it points at), that may publish, count, subscribe or dispatch on the publisher it
  runs under. The lock callbacks act on data \<open>'e\<close> of their own.
\<close>

datatype 'u pub_task =
    PDone 'u
  | PPublish u32 u32 "u8 list" "ut_event_result \<Rightarrow> 'u pub_task"
  | PCount "nat \<Rightarrow> 'u pub_task"
  | PSubscribe u32 ptr ptr "ut_event_result \<Rightarrow> 'u pub_task"
  | PDispatch nat "ut_event_result \<Rightarrow> 'u pub_task"

primrec run_ptask ::
    "(ptr \<Rightarrow> ptr \<Rightarrow> 'e \<Rightarrow> 'e) \<Rightarrow> 'u pub_task \<Rightarrow> 'e pworld \<Rightarrow> 'e pworld \<times> 'u" where
  "run_ptask lock_fn (PDone u) w = (w, u)"
| "run_ptask lock_fn (PPublish i s bs k) w =
     (let (r, w') = ut_event_publisher_publish_copy lock_fn i s bs (length bs) (Some w)
      in run_ptask lock_fn (k r) (the w'))"
| "run_ptask lock_fn (PCount k) w =
     (let (n, w') = ut_event_publisher_count lock_fn (Some w) in run_ptask lock_fn (k n) (the w'))"
| "run_ptask lock_fn (PSubscribe i h c k) w =
     (let (r, p) = ut_event_publisher_subscribe (Some (fst w)) i h c
      in run_ptask lock_fn (k r) (the p, snd w))"
| "run_ptask lock_fn (PDispatch budget k) w =
     (let (r, w', _) = ut_event_publisher_dispatch lock_fn (\<lambda>_ _ _ w. w) budget None (Some w)
      in run_ptask lock_fn (k r) (the w'))"

definition on_env :: "(ptr \<Rightarrow> ptr \<Rightarrow> 'e \<Rightarrow> 'e) \<Rightarrow> ptr \<Rightarrow> ptr \<Rightarrow> 'e \<times> 'u \<Rightarrow> 'e \<times> 'u" where
  "on_env lock_fn f c eu = (lock_fn f c (fst eu), snd eu)"

definition p_call ::
    "(ptr \<Rightarrow> ptr \<Rightarrow> 'e \<Rightarrow> 'e) \<Rightarrow> (ptr \<Rightarrow> message \<Rightarrow> ptr \<Rightarrow> 'u \<Rightarrow> 'u pub_task) \<Rightarrow> ptr \<Rightarrow> ut_event \<Rightarrow> ptr \<Rightarrow>
     ('e \<times> 'u) pworld \<Rightarrow> ('e \<times> 'u) pworld" where
  "p_call lock_fn progs h e c w =
     (let ((p, env), u) =
            run_ptask lock_fn (progs h (message (fst w) e) c (snd (snd w))) (fst w, fst (snd w))
      in (p, (env, u)))"

text \<open>No operation disturbs an inner dispatcher that is dispatching.\<close>

lemma publish_locked_dispatcher: "p_dispatcher (snd (publish_locked i s bs n p)) = p_dispatcher p"
  by (simp add: publish_locked_def Let_def split: prod.split)

lemma publish_keeps_dispatcher:
  "p_dispatcher (fst (the (snd (ut_event_publisher_publish_copy lock_fn i s bs n (Some w))))) = p_dispatcher (fst w)"
  using publish_locked_dispatcher [of i s bs n "fst w"]
  by (auto simp: ut_event_publisher_publish_copy_def publisher_unlock_def publisher_lock_def Let_def
      split: prod.split)

lemma count_keeps_dispatcher:
  "p_dispatcher (fst (the (snd (ut_event_publisher_count lock_fn (Some w))))) = p_dispatcher (fst w)"
  by (simp add: ut_event_publisher_count_def publisher_unlock_def Let_def)

lemma pop_keeps_dispatcher:
  "publisher_pop_event lock_fn w = (r, e, k, w') \<Longrightarrow> p_dispatcher (fst w') = p_dispatcher (fst w)"
  by (auto simp: publisher_pop_event_def publisher_unlock_def publisher_lock_def Let_def split: prod.splits)

lemma release_keeps_dispatcher: "p_dispatcher (fst (publisher_release_slot lock_fn k w)) = p_dispatcher (fst w)"
  by (simp add: publisher_release_slot_def publisher_unlock_def publisher_lock_def Let_def)

lemma dispatch_event_busy:
  "d_dispatching (p_dispatcher (fst w)) \<Longrightarrow> snd (publisher_dispatch_event call e w) = w"
  using busy_dispatch [of pdispatcher w "p_dispatcher (fst w)" put_pdispatcher call "Some e" None]
  by (cases "ut_event_dispatch pdispatcher put_pdispatcher call (Some e) None w")
    (simp add: publisher_dispatch_event_def pdispatcher_def)

lemma loop_keeps_dispatcher:
  "d_dispatching (p_dispatcher (fst w)) \<Longrightarrow>
    p_dispatcher (fst (snd (snd (publisher_dispatch_loop lock_fn call budget r n w)))) = p_dispatcher (fst w)"
proof (induction lock_fn call budget r n w rule: publisher_dispatch_loop.induct)
  case (1 lock_fn call budget r n w)
  obtain pr e k w1 where pop: "publisher_pop_event lock_fn w = (pr, e, k, w1)" using prod_cases4 by blast
  note d1 = pop_keeps_dispatcher [OF pop]
  show ?case
  proof (cases "n < budget \<and> r = UT_EVENT_OK \<and> pr = UT_EVENT_OK")
    case False
    with pop d1 show ?thesis by (subst publisher_dispatch_loop.simps) (auto simp: Let_def)
  next
    case True
    obtain r1 w2 where de: "publisher_dispatch_event call e w1 = (r1, w2)" by (metis prod.collapse)
    have w2: "w2 = w1" using dispatch_event_busy [of w1 call e] 1(2) d1 de by simp
    let ?w3 = "publisher_release_slot lock_fn k w2"
    have w3: "p_dispatcher (fst ?w3) = p_dispatcher (fst w)" using w2 d1 by (simp add: release_keeps_dispatcher)
    with 1(2) have "d_dispatching (p_dispatcher (fst ?w3))" by simp
    from 1(1) [OF _ refl pop [symmetric] refl refl _ _ refl de [symmetric] refl this] True
    show ?thesis
      by (subst publisher_dispatch_loop.simps) (simp add: pop de w3 Let_def)
  qed
qed

lemma dispatch_keeps_busy_dispatcher:
  "d_dispatching (p_dispatcher (fst w)) \<Longrightarrow>
    p_dispatcher (fst (the (fst (snd (ut_event_publisher_dispatch lock_fn call budget out (Some w)))))) = p_dispatcher (fst w)"
  using loop_keeps_dispatcher [of "((fst w)\<lparr>p_dispatching := True\<rparr>, snd w)" lock_fn call budget UT_EVENT_OK 0]
  by (auto simp: ut_event_publisher_dispatch_def Let_def split: prod.split)

lemma run_ptask_busy:
  "d_dispatching (p_dispatcher (fst w)) \<Longrightarrow> p_dispatcher (fst (fst (run_ptask lock_fn t w))) = p_dispatcher (fst w)"
proof (induction t arbitrary: w)
  case (PPublish i s bs k)
  obtain r w' where r: "ut_event_publisher_publish_copy lock_fn i s bs (length bs) (Some w) = (r, w')"
    by (metis prod.collapse)
  then have "p_dispatcher (fst (the w')) = p_dispatcher (fst w)"
    using publish_keeps_dispatcher [of lock_fn i s bs "length bs" w] by simp
  with PPublish.IH [OF rangeI [of k r], of "the w'"] PPublish.prems r show ?case by simp
next
  case (PCount k)
  obtain n w' where r: "ut_event_publisher_count lock_fn (Some w) = (n, w')" by (metis prod.collapse)
  then have "p_dispatcher (fst (the w')) = p_dispatcher (fst w)"
    using count_keeps_dispatcher [of lock_fn w] by simp
  with PCount.IH [OF rangeI [of k n], of "the w'"] PCount.prems r show ?case by simp
next
  case (PSubscribe i h c k)
  obtain r p where r: "ut_event_publisher_subscribe (Some (fst w)) i h c = (r, p)" by (metis prod.collapse)
  then have "p_dispatcher (the p) = p_dispatcher (fst w)"
    using busy_subscribe [OF PSubscribe.prems, of i h c]
    by (auto simp: ut_event_publisher_subscribe_def Let_def split: if_splits prod.splits)
  with PSubscribe.IH [OF rangeI [of k r], of "(the p, snd w)"] PSubscribe.prems r show ?case by simp
next
  case (PDispatch b k)
  obtain r w' x where r: "ut_event_publisher_dispatch lock_fn (\<lambda>_ _ _ w. w) b None (Some w) = (r, w', x)"
    using prod_cases3 by blast
  then have "p_dispatcher (fst (the w')) = p_dispatcher (fst w)"
    using dispatch_keeps_busy_dispatcher [OF PDispatch.prems, of lock_fn "\<lambda>_ _ _ w. w" b None] by simp
  with PDispatch.IH [OF rangeI [of k r], of "the w'"] PDispatch.prems r show ?case by simp
qed simp

interpretation phost: dispatcher_host pdispatcher put_pdispatcher "p_call lock_fn progs" for lock_fn progs
proof
  show "pdispatcher (p_call lock_fn progs h e c w) = Some d"
    if "pdispatcher w = Some d" "d_dispatching d" for w h e c d
    using that run_ptask_busy [of "(fst w, fst (snd w))" lock_fn "progs h (message (fst w) e) c (snd (snd w))"]
    by (auto simp: pdispatcher_def p_call_def split: prod.split)
qed (simp_all add: pdispatcher_def put_pdispatcher_def)

section \<open>The publisher as a queue of messages\<close>

text \<open>\<open>infl\<close> is the number of slots the message being delivered holds.\<close>

primrec abs_ptask ::
    "nat \<Rightarrow> nat \<Rightarrow> nat \<Rightarrow> 'u pub_task \<Rightarrow> message list \<Rightarrow> message list \<times> 'u" where
  "abs_ptask cap pcap infl (PDone u) ms = (ms, u)"
| "abs_ptask cap pcap infl (PPublish i s bs k) ms =
     (let (r, ms') = abs_publish cap pcap infl ms (i, s, bs) in abs_ptask cap pcap infl (k r) ms')"
| "abs_ptask cap pcap infl (PCount k) ms = abs_ptask cap pcap infl (k (length ms)) ms"
| "abs_ptask cap pcap infl (PSubscribe i h c k) ms =
     abs_ptask cap pcap infl (k (if h = 0 then UT_EVENT_INVALID_ARGUMENT else UT_EVENT_BUSY)) ms"
| "abs_ptask cap pcap infl (PDispatch budget k) ms =
     abs_ptask cap pcap infl (k (if budget = 0 then UT_EVENT_INVALID_ARGUMENT else UT_EVENT_BUSY)) ms"

fun abs_pdeliver ::
    "nat \<Rightarrow> nat \<Rightarrow> nat \<Rightarrow> (ptr \<Rightarrow> message \<Rightarrow> ptr \<Rightarrow> 'u \<Rightarrow> 'u pub_task) \<Rightarrow> message \<Rightarrow> (ptr \<times> ptr) list \<Rightarrow>
     message list \<times> 'u \<Rightarrow> message list \<times> 'u" where
  "abs_pdeliver cap pcap infl progs m [] st = st"
| "abs_pdeliver cap pcap infl progs m ((h, c) # hs) (ms, u) =
     abs_pdeliver cap pcap infl progs m hs (abs_ptask cap pcap infl (progs h m c u) ms)"

text \<open>The handlers registered for an id, in slot order.\<close>

definition handlers_of :: "ut_event_dispatcher \<Rightarrow> u32 \<Rightarrow> (ptr \<times> ptr) list" where
  "handlers_of d i = map snd (filter (\<lambda>(j, _). j = i \<or> j = UT_EVENT_ID_ANY) (registrations d))"

fun abs_pdispatch ::
    "nat \<Rightarrow> nat \<Rightarrow> ut_event_dispatcher \<Rightarrow> (ptr \<Rightarrow> message \<Rightarrow> ptr \<Rightarrow> 'u \<Rightarrow> 'u pub_task) \<Rightarrow> nat \<Rightarrow>
     message list \<times> 'u \<Rightarrow> nat \<times> message list \<times> 'u" where
  "abs_pdispatch cap pcap d progs 0 st = (0, st)"
| "abs_pdispatch cap pcap d progs (Suc n) ([], u) = (0, [], u)"
| "abs_pdispatch cap pcap d progs (Suc n) (m # ms, u) =
     (let st = abs_pdeliver cap pcap (if has_payload m then 1 else 0) progs m (handlers_of d (fst m)) (ms, u);
          (k, st') = abs_pdispatch cap pcap d progs n st
      in (Suc k, st'))"

lemma keeps_slots_trans:
  "keeps_slots infl p q \<Longrightarrow> keeps_slots infl q r \<Longrightarrow> same_config p q \<Longrightarrow> keeps_slots infl p r"
  by (simp add: keeps_slots_def same_config_views)

lemma keeps_slots_refl [simp]: "keeps_slots infl p p"
  by (simp add: keeps_slots_def)

lemma critical_cong: "same_config p q \<Longrightarrow> critical lock_fn q = critical lock_fn p"
  by (simp add: critical_def same_config_def fun_eq_iff)

lemma funpow_add_apply: "(f ^^ m) ((f ^^ n) x) = (f ^^ (m + n)) x"
  by (simp add: funpow_add)

lemma count_abs:
  assumes "publisher_wf infl p"
  shows "ut_event_publisher_count lock_fn (Some (p, env)) = (length (messages p), Some (p, critical lock_fn p env))"
proof -
  note valid = publisher_wf_valid [OF assms]
  have "queue_wf (p_queue p)" using assms by (simp add: publisher_wf_def)
  with valid lock_unlock [OF valid same_config_refl, of lock_fn env] lock_pair [of lock_fn p env] show ?thesis
    by (simp add: ut_event_publisher_count_def ut_event_queue_count_def messages_def)
qed

lemma run_ptask_abs:
  assumes "publisher_wf infl p" "d_dispatching (p_dispatcher p)" "p_dispatching p"
  shows "\<exists>p' n u. run_ptask lock_fn t (p, env) = ((p', (critical lock_fn p ^^ n) env), u) \<and>
    publisher_wf infl p' \<and> same_config p p' \<and> p_dispatcher p' = p_dispatcher p \<and> keeps_slots infl p p' \<and>
    abs_ptask (p_capacity p) (p_payload_capacity p) (length infl) t (messages p) = (messages p', u)"
  using assms
proof (induction t arbitrary: p env)
  case (PDone u)
  then show ?case by (intro exI [of _ p] exI [of _ 0]) simp
next
  case (PPublish i s bs k)
  obtain r ms where a: "abs_publish (p_capacity p) (p_payload_capacity p) (length infl) (messages p) (i, s, bs) = (r, ms)"
    by (metis prod.collapse)
  from publish_abs [OF PPublish.prems(1) a, of lock_fn env] obtain p1 n1 where
    p1: "ut_event_publisher_publish_copy lock_fn i s bs (length bs) (Some (p, env)) =
        (r, Some (p1, (critical lock_fn p ^^ n1) env))"
      "publisher_wf infl p1" "same_config p p1" "p_dispatcher p1 = p_dispatcher p" "messages p1 = ms"
      "keeps_slots infl p p1" by blast
  have "d_dispatching (p_dispatcher p1)" "p_dispatching p1"
    using p1(3,4) PPublish.prems by (simp_all add: same_config_def)
  from PPublish.IH [OF rangeI [of k r] p1(2) this, of "(critical lock_fn p ^^ n1) env"] obtain p2 n2 u where
    p2: "run_ptask lock_fn (k r) (p1, (critical lock_fn p ^^ n1) env) =
        ((p2, (critical lock_fn p1 ^^ n2) ((critical lock_fn p ^^ n1) env)), u)"
      "publisher_wf infl p2" "same_config p1 p2" "p_dispatcher p2 = p_dispatcher p1" "keeps_slots infl p1 p2"
      "abs_ptask (p_capacity p1) (p_payload_capacity p1) (length infl) (k r) (messages p1) = (messages p2, u)"
    by blast
  have "p_capacity p1 = p_capacity p" "p_payload_capacity p1 = p_payload_capacity p"
    using p1(3) by (simp_all add: same_config_def)
  moreover have "same_config p p2" "keeps_slots infl p p2"
    using same_config_trans [OF p1(3) p2(3)] keeps_slots_trans [OF p1(6) p2(5) p1(3)] by simp_all
  ultimately show ?case
    using a p1(1,4,5) p2 critical_cong [OF p1(3), of lock_fn]
    by (intro exI [of _ p2] exI [of _ "n2 + n1"] exI [of _ u]) (simp add: funpow_add_apply)
next
  case (PCount k)
  from PCount.IH [OF rangeI [of k "length (messages p)"] PCount.prems, of "critical lock_fn p env"]
  obtain p2 n2 u where
    p2: "run_ptask lock_fn (k (length (messages p))) (p, critical lock_fn p env) =
        ((p2, (critical lock_fn p ^^ n2) (critical lock_fn p env)), u)"
      "publisher_wf infl p2" "same_config p p2" "p_dispatcher p2 = p_dispatcher p" "keeps_slots infl p p2"
      "abs_ptask (p_capacity p) (p_payload_capacity p) (length infl) (k (length (messages p))) (messages p)
        = (messages p2, u)"
    by blast
  have "(critical lock_fn p ^^ n2) (critical lock_fn p env) = (critical lock_fn p ^^ (n2 + 1)) env"
    by (simp add: funpow_swap1)
  with p2 count_abs [OF PCount.prems(1), of lock_fn env] show ?case
    by (intro exI [of _ p2] exI [of _ "n2 + 1"] exI [of _ u]) simp
next
  case (PSubscribe i h c k)
  have "p\<lparr>p_dispatcher := p_dispatcher p\<rparr> = p" by (cases p) simp
  then have "ut_event_publisher_subscribe (Some p) i h c =
      (if h = 0 then UT_EVENT_INVALID_ARGUMENT else UT_EVENT_BUSY, Some p)"
    using PSubscribe.prems publisher_wf_valid [OF PSubscribe.prems(1)]
    by (simp add: ut_event_publisher_subscribe_def ut_event_subscribe_def publisher_wf_def)
  with PSubscribe.IH [OF rangeI PSubscribe.prems] show ?case by simp
next
  case (PDispatch budget k)
  have "ut_event_publisher_dispatch lock_fn (\<lambda>_ _ _ w. w) budget None (Some (p, env)) =
      (if budget = 0 then UT_EVENT_INVALID_ARGUMENT else UT_EVENT_BUSY, Some (p, env), None)"
    using PDispatch.prems publisher_wf_valid [OF PDispatch.prems(1)]
    by (simp add: ut_event_publisher_dispatch_def)
  with PDispatch.IH [OF rangeI PDispatch.prems] show ?case by simp
qed

lemma message_kept:
  "keeps_slots infl p p' \<Longrightarrow> descriptor_ok p e \<Longrightarrow> (ev_payload e \<noteq> 0 \<Longrightarrow> slot_of p e \<in> set infl) \<Longrightarrow>
    message p' e = message p e"
  by (cases "ev_payload e = 0") (simp_all add: message_def keeps_slots_def payload_bytes_def)

lemma pdeliver_abs:
  assumes "publisher_wf infl p" "d_dispatching (p_dispatcher p)" "p_dispatching p"
    and "descriptor_ok p e" "ev_payload e \<noteq> 0 \<Longrightarrow> slot_of p e \<in> set infl"
  shows "\<exists>p' n u'. deliver_all (p_call lock_fn progs) e hs (p, (env, u)) =
      (p', ((critical lock_fn p ^^ n) env, u')) \<and>
    publisher_wf infl p' \<and> same_config p p' \<and> p_dispatcher p' = p_dispatcher p \<and>
    abs_pdeliver (p_capacity p) (p_payload_capacity p) (length infl) progs (message p e) hs (messages p, u)
      = (messages p', u')"
  using assms
proof (induction hs arbitrary: p env u)
  case Nil
  then show ?case by (intro exI [of _ p] exI [of _ 0]) (simp add: deliver_all_def)
next
  case (Cons x hs)
  obtain h c where x: "x = (h, c)" by (cases x)
  from run_ptask_abs [OF Cons.prems(1-3), of lock_fn "progs h (message p e) c u" env] obtain p1 n1 u1 where
    p1: "run_ptask lock_fn (progs h (message p e) c u) (p, env) = ((p1, (critical lock_fn p ^^ n1) env), u1)"
      "publisher_wf infl p1" "same_config p p1" "p_dispatcher p1 = p_dispatcher p" "keeps_slots infl p p1"
      "abs_ptask (p_capacity p) (p_payload_capacity p) (length infl) (progs h (message p e) c u) (messages p)
        = (messages p1, u1)"
    by blast
  have m: "message p1 e = message p e" by (rule message_kept [OF p1(5) Cons.prems(4,5)])
  have flags: "d_dispatching (p_dispatcher p1)" "p_dispatching p1"
    and caps: "p_capacity p1 = p_capacity p" "p_payload_capacity p1 = p_payload_capacity p"
    using p1(3,4) Cons.prems(2,3) by (simp_all add: same_config_def)
  have ok: "descriptor_ok p1 e" "ev_payload e \<noteq> 0 \<Longrightarrow> slot_of p1 e \<in> set infl"
    using Cons.prems(4,5) same_config_views [OF p1(3)] by simp_all
  from Cons.IH [OF p1(2) flags ok, of "(critical lock_fn p ^^ n1) env" u1] obtain p2 n2 u2 where
    p2: "deliver_all (p_call lock_fn progs) e hs (p1, ((critical lock_fn p ^^ n1) env, u1)) =
        (p2, ((critical lock_fn p1 ^^ n2) ((critical lock_fn p ^^ n1) env), u2))"
      "publisher_wf infl p2" "same_config p1 p2" "p_dispatcher p2 = p_dispatcher p1"
      "abs_pdeliver (p_capacity p1) (p_payload_capacity p1) (length infl) progs (message p1 e) hs (messages p1, u1)
        = (messages p2, u2)"
    by auto
  have "same_config p p2" by (rule same_config_trans [OF p1(3) p2(3)])
  moreover have "p_call lock_fn progs h e c (p, (env, u)) = (p1, ((critical lock_fn p ^^ n1) env, u1))"
    using p1(1) by (simp add: p_call_def)
  ultimately show ?case
    using x p1(4,6) p2 m caps critical_cong [OF p1(3), of lock_fn]
    by (intro exI [of _ p2] exI [of _ "n2 + n1"] exI [of _ u2]) (simp add: deliver_all_def funpow_add_apply)
qed

text \<open>Popping: the head message becomes in-flight; releasing its slot ends that.\<close>

lemma on_env_lock: "publisher_lock (on_env lock_fn) (p, (env, u)) = (p, (snd (publisher_lock lock_fn (p, env)), u))"
  by (simp add: publisher_lock_def on_env_def)

lemma on_env_critical:
  "publisher_is_valid (Some p) \<Longrightarrow> same_config p p' \<Longrightarrow>
    publisher_unlock (on_env lock_fn) (p', (snd (publisher_lock lock_fn (p, env)), u)) = (p', (critical lock_fn p env, u))"
  by (auto simp: publisher_lock_def publisher_unlock_def critical_def same_config_def publisher_is_valid_def
      on_env_def)

lemma find_payload_slot_at:
  assumes "0 < p_payload_capacity p" "k < p_capacity p"
  shows "find_payload_slot p (payload_at p k) = k"
proof -
  have "first_index (\<lambda>i. payload_at p k = payload_at p i) [0..<p_capacity p] = Some k"
    unfolding first_index_Some_iff using assms by (simp add: payload_at_inj)
  then show ?thesis by (simp add: find_payload_slot_def)
qed

lemma pop_none:
  assumes "publisher_wf [] p" "messages p = []"
  shows "\<exists>e k. publisher_pop_event (on_env lock_fn) (p, (env, u)) = (UT_EVENT_EMPTY, e, k, (p, (critical lock_fn p env, u)))"
proof -
  note valid = publisher_wf_valid [OF assms(1)]
  have "queue_wf (p_queue p)" "q_count (p_queue p) = 0"
    using assms by (simp_all add: publisher_wf_def messages_def queue_items_Nil_iff)
  note pop = pop_empty [OF this, of zero_event]
  have "p\<lparr>p_queue := p_queue p\<rparr> = p" by (cases p) simp
  with pop on_env_critical [OF valid same_config_refl, of lock_fn env u] show ?thesis
    by (simp add: publisher_pop_event_def on_env_lock)
qed

lemma pop_message:
  assumes wf: "publisher_wf [] p" and ms: "messages p = m # ms"
  shows "\<exists>p' e k. publisher_pop_event (on_env lock_fn) (p, (env, u)) = (UT_EVENT_OK, e, k, (p', (critical lock_fn p env, u))) \<and>
    message p' e = m \<and> descriptor_ok p' e \<and> same_config p p' \<and> p_dispatcher p' = p_dispatcher p \<and>
    messages p' = ms \<and> k = (if ev_payload e = 0 then p_capacity p else slot_of p' e) \<and>
    publisher_wf (if ev_payload e = 0 then [] else [slot_of p' e]) p' \<and> (has_payload m \<longleftrightarrow> ev_payload e \<noteq> 0)"
proof -
  let ?q = "p_queue p"
  note valid = publisher_wf_valid [OF wf]
  obtain e es where it: "queue_items ?q = e # es" and m: "m = message p e" "ms = map (message p) es"
    using ms by (auto simp: messages_def Cons_eq_map_conv)
  have q: "queue_wf ?q" using wf by (simp add: publisher_wf_def)
  from pop_some [OF q it, of zero_event] obtain q' where
    pop: "ut_event_queue_pop (Some ?q) (Some zero_event) = (UT_EVENT_OK, Some q', Some e)"
    and q': "queue_wf q'" "q_capacity q' = q_capacity ?q" "queue_items q' = es" by auto
  let ?p = "p\<lparr>p_queue := q'\<rparr>"
  have conf: "same_config p ?p" by (simp add: same_config_def)
  note views = same_config_views [OF conf]
  have bytes: "payload_bytes ?p = payload_bytes p" by (rule payload_bytes_cong [OF conf]) simp
  have ok: "descriptor_ok p e" using wf it by (simp add: publisher_wf_def)
  have slots: "event_slots p (e # es) = (if ev_payload e = 0 then [] else [slot_of p e]) @ event_slots p es"
    by (simp add: event_slots_def)
  have wf': "publisher_wf (if ev_payload e = 0 then [] else [slot_of p e]) ?p"
    using wf q' unfolding publisher_wf_def views by (auto simp: it slots publisher_is_valid_def)
  have found: "ev_payload e \<noteq> 0 \<Longrightarrow> find_payload_slot ?p (ev_payload e) = slot_of p e \<and>
      slot_of p e < p_capacity p \<and> p_occupied_storage p ! slot_of p e"
  proof -
    assume ne: "ev_payload e \<noteq> 0"
    have k: "slot_of p e < p_capacity p" "ev_payload e = payload_at p (slot_of p e)"
      using ok ne by (simp_all add: descriptor_ok_def)
    have "find_payload_slot p (payload_at p (slot_of p e)) = slot_of p e"
      using k(1) valid by (intro find_payload_slot_at) (simp_all add: publisher_is_valid_def)
    moreover have "find_payload_slot ?p = find_payload_slot p"
      by (rule ext) (simp add: find_payload_slot_def views(2) cong: option.case_cong)
    ultimately have "find_payload_slot ?p (ev_payload e) = slot_of p e" using k(2) by simp
    moreover have "e \<in> set (queue_items ?q)" using it by simp
    ultimately show ?thesis using queued_not_free [OF wf _ ne] by simp
  qed
  have "publisher_pop_event (on_env lock_fn) (p, (env, u)) =
      (UT_EVENT_OK, e, if ev_payload e = 0 then p_capacity p else slot_of p e, (?p, (critical lock_fn p env, u)))"
    using pop found on_env_critical [OF valid conf, of lock_fn env u]
    by (auto simp: publisher_pop_event_def on_env_lock)
  moreover have "message ?p e = m" "messages ?p = ms"
    using m bytes q'(3) by (simp_all add: message_def [abs_def] messages_def)
  moreover have "has_payload m \<longleftrightarrow> ev_payload e \<noteq> 0"
    unfolding m(1) by (rule has_payload_message [OF wf]) (simp add: it)
  ultimately show ?thesis
    using ok wf' conf views by (intro exI [of _ ?p] exI [of _ e]) (simp split: if_splits)
qed

lemma release_abs:
  assumes wf: "publisher_wf infl p" and k: "infl = (if k < p_capacity p then [k] else [])"
  shows "\<exists>p'. publisher_release_slot (on_env lock_fn) k (p, (env, u)) = (p', (critical lock_fn p env, u)) \<and>
    publisher_wf [] p' \<and> same_config p p' \<and> p_dispatcher p' = p_dispatcher p \<and> messages p' = messages p"
proof -
  note valid = publisher_wf_valid [OF wf]
  let ?p = "if k < p_capacity p then p\<lparr>p_occupied_storage := (p_occupied_storage p)[k := False]\<rparr> else p"
  have conf: "same_config p ?p" by (simp add: same_config_def)
  note views = same_config_views [OF conf]
  have bytes: "payload_bytes ?p = payload_bytes p" by (rule payload_bytes_cong [OF conf]) simp
  have len: "length (p_occupied_storage p) = p_capacity p" using wf by (simp add: publisher_wf_def)
  have "publisher_wf [] ?p"
  proof (cases "k < p_capacity p")
    case True
    then have "(p_occupied_storage p)[k := False] ! i \<longleftrightarrow> p_occupied_storage p ! i \<and> i \<noteq> k" if "i < p_capacity p" for i
      using that len by (cases "i = k") simp_all
    with True wf len k views show ?thesis
      by (auto simp: publisher_wf_def publisher_is_valid_def)
  next
    case False
    with wf k show ?thesis by simp
  qed
  moreover have "messages ?p = messages p" using bytes by (simp add: messages_def message_def [abs_def])
  moreover have "publisher_release_slot (on_env lock_fn) k (p, (env, u)) = (?p, (critical lock_fn p env, u))"
    using on_env_critical [OF valid conf, of lock_fn env u] by (simp add: publisher_release_slot_def on_env_lock)
  ultimately show ?thesis using conf by auto
qed

lemma deliver_event_abs:
  assumes wf: "publisher_wf infl p" and idle: "\<not> d_dispatching (p_dispatcher p)" and disp: "p_dispatching p"
    and e: "descriptor_ok p e" "infl = (if ev_payload e = 0 then [] else [slot_of p e])"
  shows "\<exists>p' n u'. publisher_dispatch_event (p_call lock_fn progs) e (p, (env, u)) =
      (UT_EVENT_OK, (p', ((critical lock_fn p ^^ n) env, u'))) \<and>
    publisher_wf infl p' \<and> same_config p p' \<and> p_dispatcher p' = p_dispatcher p \<and>
    abs_pdeliver (p_capacity p) (p_payload_capacity p) (length infl) progs (message p e)
      (handlers_of (p_dispatcher p) (ev_id e)) (messages p, u) = (messages p', u')"
proof -
  let ?d = "p_dispatcher p"
  let ?p = "p\<lparr>p_dispatcher := ?d\<lparr>d_dispatching := True\<rparr>\<rparr>"
  have dwf: "dispatcher_wf ?d" using wf by (simp add: publisher_wf_def)
  have conf: "same_config p ?p" by (simp add: same_config_def)
  note views = same_config_views [OF conf]
  have bytes: "payload_bytes ?p = payload_bytes p" by (rule payload_bytes_cong [OF conf]) simp
  have wf1: "publisher_wf infl ?p"
    using wf views by (simp add: publisher_wf_def publisher_is_valid_def dispatcher_wf_def registrations_def)
  have msg: "message ?p = message p" "messages ?p = messages p"
    using bytes by (simp_all add: message_def [abs_def] messages_def)
  have flags: "d_dispatching (p_dispatcher ?p)" "p_dispatching ?p" using disp by simp_all
  have ok: "descriptor_ok ?p e" "ev_payload e \<noteq> 0 \<Longrightarrow> slot_of ?p e \<in> set infl" using e views by simp_all
  from pdeliver_abs [OF wf1 flags ok, of lock_fn progs "receivers ?d e" env u] obtain p1 n u' where
    p1: "deliver_all (p_call lock_fn progs) e (receivers ?d e) (?p, (env, u)) = (p1, ((critical lock_fn ?p ^^ n) env, u'))"
      "publisher_wf infl p1" "same_config ?p p1" "p_dispatcher p1 = p_dispatcher ?p"
      "abs_pdeliver (p_capacity ?p) (p_payload_capacity ?p) (length infl) progs (message ?p e) (receivers ?d e)
        (messages ?p, u) = (messages p1, u')"
    by blast
  let ?p2 = "p1\<lparr>p_dispatcher := ?d\<rparr>"
  have conf2: "same_config p1 ?p2" by (simp add: same_config_def)
  have bytes2: "payload_bytes ?p2 = payload_bytes p1" by (rule payload_bytes_cong [OF conf2]) simp
  have "publisher_wf infl ?p2"
    using p1(2) same_config_views [OF conf2] dwf by (simp add: publisher_wf_def publisher_is_valid_def)
  moreover have "messages ?p2 = messages p1" using bytes2 by (simp add: messages_def message_def [abs_def])
  moreover have "same_config p ?p2" by (rule same_config_trans [OF conf same_config_trans [OF p1(3) conf2]])
  moreover have "pdispatcher (p, (env, u)) = Some ?d" by (simp add: pdispatcher_def)
  from phost.dispatch_delivers [OF this dwf idle, of lock_fn progs e None] p1(1)
  have "publisher_dispatch_event (p_call lock_fn progs) e (p, (env, u)) =
      (UT_EVENT_OK, (?p2, ((critical lock_fn p ^^ n) env, u')))"
    by (simp add: publisher_dispatch_event_def put_pdispatcher_def critical_cong [OF conf])
  moreover have "receivers ?d e = handlers_of ?d (ev_id e)"
    by (simp add: receivers_registrations handlers_of_def)
  ultimately show ?thesis using p1(5) msg by auto
qed

lemma pdispatch_loop_abs:
  assumes "publisher_wf [] p" "\<not> d_dispatching (p_dispatcher p)" "p_dispatching p" "n + k = budget"
  shows "\<exists>p' j u' c. publisher_dispatch_loop (on_env lock_fn) (p_call lock_fn progs) budget UT_EVENT_OK k (p, (env, u)) =
      (UT_EVENT_OK, k + c, (p', ((critical lock_fn p ^^ j) env, u'))) \<and>
    publisher_wf [] p' \<and> same_config p p' \<and> p_dispatcher p' = p_dispatcher p \<and>
    abs_pdispatch (p_capacity p) (p_payload_capacity p) (p_dispatcher p) progs n (messages p, u)
      = (c, messages p', u')"
  using assms
proof (induction n arbitrary: p k env u)
  case 0
  then show ?case
    by (subst publisher_dispatch_loop.simps) (intro exI [of _ p] exI [of _ 0], simp)
next
  case (Suc n)
  have more: "k < budget" using Suc.prems(4) by simp
  show ?case
  proof (cases "messages p")
    case Nil
    obtain e s where "publisher_pop_event (on_env lock_fn) (p, (env, u)) =
        (UT_EVENT_EMPTY, e, s, (p, (critical lock_fn p env, u)))"
      using pop_none [OF Suc.prems(1) Nil, of lock_fn env u] by blast
    with Nil Suc.prems more show ?thesis
      by (subst publisher_dispatch_loop.simps) (intro exI [of _ p] exI [of _ 1] exI [of _ u] exI [of _ 0], simp)
  next
    case (Cons m ms)
    let ?cr = "critical lock_fn p"
    from pop_message [OF Suc.prems(1) Cons, of lock_fn env u] obtain p1 e s where
      pop: "publisher_pop_event (on_env lock_fn) (p, (env, u)) = (UT_EVENT_OK, e, s, (p1, (?cr env, u)))"
      and p1: "message p1 e = m" "descriptor_ok p1 e" "same_config p p1" "p_dispatcher p1 = p_dispatcher p"
        "messages p1 = ms" "s = (if ev_payload e = 0 then p_capacity p else slot_of p1 e)"
        "publisher_wf (if ev_payload e = 0 then [] else [slot_of p1 e]) p1"
      and count: "has_payload m \<longleftrightarrow> ev_payload e \<noteq> 0"
      by blast
    let ?infl = "if ev_payload e = 0 then [] else [slot_of p1 e]"
    have f1: "\<not> d_dispatching (p_dispatcher p1)" "p_dispatching p1"
      using p1(3,4) Suc.prems by (simp_all add: same_config_def)
    from deliver_event_abs [OF p1(7) f1 p1(2) refl, of lock_fn progs "?cr env" u] obtain p2 n2 u2 where
      de: "publisher_dispatch_event (p_call lock_fn progs) e (p1, (?cr env, u)) =
        (UT_EVENT_OK, (p2, ((critical lock_fn p1 ^^ n2) (?cr env), u2)))"
      and p2: "publisher_wf ?infl p2" "same_config p1 p2" "p_dispatcher p2 = p_dispatcher p1"
        "abs_pdeliver (p_capacity p1) (p_payload_capacity p1) (length ?infl) progs (message p1 e)
          (handlers_of (p_dispatcher p1) (ev_id e)) (messages p1, u) = (messages p2, u2)"
      by blast
    have c12: "same_config p p2" by (rule same_config_trans [OF p1(3) p2(2)])
    have slot: "ev_payload e \<noteq> 0 \<Longrightarrow> slot_of p1 e < p_capacity p" "p_capacity p2 = p_capacity p"
      using p1(2,3) c12 by (auto simp: descriptor_ok_def same_config_def)
    have infl: "?infl = (if s < p_capacity p2 then [s] else [])" using p1(6) slot by simp
    from release_abs [OF p2(1) infl, of lock_fn "(critical lock_fn p1 ^^ n2) (?cr env)" u2] obtain p3 where
      rel: "publisher_release_slot (on_env lock_fn) s (p2, ((critical lock_fn p1 ^^ n2) (?cr env), u2)) =
        (p3, (critical lock_fn p2 ((critical lock_fn p1 ^^ n2) (?cr env)), u2))"
      and p3: "publisher_wf [] p3" "same_config p2 p3" "p_dispatcher p3 = p_dispatcher p2" "messages p3 = messages p2"
      by blast
    have c13: "same_config p p3" by (rule same_config_trans [OF c12 p3(2)])
    have f3: "\<not> d_dispatching (p_dispatcher p3)" "p_dispatching p3"
      using c13 p1(4) p2(3) p3(3) Suc.prems by (simp_all add: same_config_def)
    let ?env3 = "(?cr ^^ (n2 + 2)) env"
    have env3: "critical lock_fn p2 ((critical lock_fn p1 ^^ n2) (?cr env)) = ?env3"
      using critical_cong [OF p1(3), of lock_fn] critical_cong [OF c12, of lock_fn]
      by (simp add: funpow_swap1)
    have "n + (k + 1) = budget" using Suc.prems(4) by simp
    from Suc.IH [OF p3(1) f3 this, of ?env3 u2] obtain p4 j u4 c where
      loop: "publisher_dispatch_loop (on_env lock_fn) (p_call lock_fn progs) budget UT_EVENT_OK (k + 1) (p3, (?env3, u2)) =
        (UT_EVENT_OK, k + 1 + c, (p4, ((critical lock_fn p3 ^^ j) ?env3, u4)))"
      and p4: "publisher_wf [] p4" "same_config p3 p4" "p_dispatcher p4 = p_dispatcher p3"
        "abs_pdispatch (p_capacity p3) (p_payload_capacity p3) (p_dispatcher p3) progs n (messages p3, u2)
          = (c, messages p4, u4)"
      by blast
    have step: "publisher_dispatch_loop (on_env lock_fn) (p_call lock_fn progs) budget UT_EVENT_OK k (p, (env, u)) =
        publisher_dispatch_loop (on_env lock_fn) (p_call lock_fn progs) budget UT_EVENT_OK (k + 1) (p3, (?env3, u2))"
      using more pop de rel env3 by (subst publisher_dispatch_loop.simps) (simp add: Let_def)
    have caps: "p_capacity p1 = p_capacity p" "p_payload_capacity p1 = p_payload_capacity p"
      "p_capacity p3 = p_capacity p" "p_payload_capacity p3 = p_payload_capacity p"
      using p1(3) c13 by (simp_all add: same_config_def)
    have id: "fst m = ev_id e" using p1(1) [symmetric] by (simp add: message_def)
    have len: "length ?infl = (if has_payload m then 1 else 0)" using count by simp
    have "abs_pdispatch (p_capacity p) (p_payload_capacity p) (p_dispatcher p) progs (Suc n) (messages p, u)
        = (Suc c, messages p4, u4)"
      using p2(4) p4(4) unfolding Cons caps p1(1,4,5) p2(3) p3(3,4) len id [symmetric]
      by simp
    moreover have "publisher_dispatch_loop (on_env lock_fn) (p_call lock_fn progs) budget UT_EVENT_OK k (p, (env, u)) =
        (UT_EVENT_OK, k + Suc c, (p4, ((?cr ^^ (j + (n2 + 2))) env, u4)))"
      unfolding step loop critical_cong [OF c13, of lock_fn] funpow_add_apply by (simp only: add_Suc_right add_Suc add_0_right One_nat_def)
    moreover have "same_config p p4" by (rule same_config_trans [OF c13 p4(2)])
    moreover have "p_dispatcher p4 = p_dispatcher p" using p4(3) p3(3) p2(3) p1(4) by simp
    ultimately show ?thesis using p4(1) by blast
  qed
qed

lemma pdispatch_abs:
  assumes wf: "publisher_wf [] p" and idle: "\<not> d_dispatching (p_dispatcher p)" "\<not> p_dispatching p"
    and n: "0 < n"
  shows "\<exists>p' j u' c. ut_event_publisher_dispatch (on_env lock_fn) (p_call lock_fn progs) n (Some 0) (Some (p, (env, u))) =
      (UT_EVENT_OK, Some (p', ((critical lock_fn p ^^ j) env, u')), Some c) \<and>
    publisher_wf [] p' \<and> same_config p p' \<and> p_dispatcher p' = p_dispatcher p \<and>
    abs_pdispatch (p_capacity p) (p_payload_capacity p) (p_dispatcher p) progs n (messages p, u)
      = (c, messages p', u')"
proof -
  let ?p = "p\<lparr>p_dispatching := True\<rparr>"
  note valid = publisher_wf_valid [OF wf]
  have views: "slot_of (p\<lparr>p_dispatching := b\<rparr>) = slot_of p" "payload_at (p\<lparr>p_dispatching := b\<rparr>) = payload_at p"
    "payload_bytes (p\<lparr>p_dispatching := b\<rparr>) = payload_bytes p" for p b
    by (simp_all add: slot_of_def payload_at_def payload_bytes_def fun_eq_iff)
  have flag: "publisher_wf [] (p\<lparr>p_dispatching := b\<rparr>) = publisher_wf [] p" "messages (p\<lparr>p_dispatching := b\<rparr>) = messages p" for p b
    by (simp_all add: publisher_wf_def publisher_is_valid_def descriptor_ok_def event_slots_def messages_def
        message_def [abs_def] views)
  have wf1: "publisher_wf [] ?p" using wf flag by simp
  have d1: "\<not> d_dispatching (p_dispatcher ?p)" "p_dispatching ?p" "n + 0 = n" using idle by simp_all
  from pdispatch_loop_abs [OF wf1 d1, of lock_fn progs env u] obtain p' j u' c where
    loop: "publisher_dispatch_loop (on_env lock_fn) (p_call lock_fn progs) n UT_EVENT_OK 0 (?p, (env, u)) =
      (UT_EVENT_OK, 0 + c, (p', ((critical lock_fn ?p ^^ j) env, u')))"
    and p': "publisher_wf [] p'" "same_config ?p p'" "p_dispatcher p' = p_dispatcher ?p"
      "abs_pdispatch (p_capacity ?p) (p_payload_capacity ?p) (p_dispatcher ?p) progs n (messages ?p, u)
        = (c, messages p', u')"
    by blast
  let ?p2 = "p'\<lparr>p_dispatching := False\<rparr>"
  have cr: "critical lock_fn ?p = critical lock_fn p" by (simp add: critical_def fun_eq_iff)
  have conf: "same_config p ?p2" using p'(2) idle(2) by (simp add: same_config_def)
  have "ut_event_publisher_dispatch (on_env lock_fn) (p_call lock_fn progs) n (Some 0) (Some (p, (env, u))) =
      (UT_EVENT_OK, Some (?p2, ((critical lock_fn p ^^ j) env, u')), Some c)"
    using loop valid idle n cr by (simp add: ut_event_publisher_dispatch_def)
  moreover have "publisher_wf [] ?p2" "messages ?p2 = messages p'" using p'(1) flag by simp_all
  ultimately show ?thesis using conf p'(3,4) flag by auto
qed

lemma publisher_init_wf:
  assumes "es \<noteq> []" "base \<noteq> 0" "length occ = length es" "0 < pcap" "length es \<le> size_max div pcap"
    and "length es * pcap \<le> length st" "length es \<le> size_max" "subs \<noteq> []"
    and "length subs \<le> size_max div sizeof_subscription" "(lock = 0) = (unlock = 0)"
  shows "\<exists>p. ut_event_publisher_init (Some p0) es base st occ (length es) pcap subs (length subs) lock unlock lc
      = (UT_EVENT_OK, Some p) \<and>
    publisher_wf [] p \<and> messages p = [] \<and> p_capacity p = length es \<and> p_payload_capacity p = pcap \<and>
    registrations (p_dispatcher p) = [] \<and> \<not> d_dispatching (p_dispatcher p) \<and> \<not> p_dispatching p \<and>
    d_capacity (p_dispatcher p) = length subs"
proof -
  obtain q where q: "ut_event_queue_init (Some (p_queue zero_publisher)) es (length es) = (UT_EVENT_OK, Some q)"
    using assms by (simp add: ut_event_queue_init_def)
  obtain d where d: "ut_event_dispatcher_init (Some (p_dispatcher zero_publisher)) subs (length subs) = (UT_EVENT_OK, Some d)"
    using assms by (simp add: ut_event_dispatcher_init_def)
  note qwf = init_wf [OF q assms(7)] and dwf = dispatcher_init_wf [OF d]
  let ?p = "\<lparr>p_queue = q, p_dispatcher = d, p_payload_base = base, p_payload_storage = st,
    p_occupied_storage = replicate (length es) False, p_capacity = length es, p_payload_capacity = pcap,
    p_lock = lock, p_unlock = unlock, p_lock_context = lc, p_dispatching = False\<rparr>"
  have "ut_event_publisher_init (Some p0) es base st occ (length es) pcap subs (length subs) lock unlock lc
      = (UT_EVENT_OK, Some ?p)"
    using assms q d by (auto simp: ut_event_publisher_init_def zero_publisher_def)
  moreover have "publisher_wf [] ?p"
    using assms qwf dwf by (auto simp: publisher_wf_def publisher_is_valid_def event_slots_def)
  ultimately show ?thesis using qwf dwf by (simp add: messages_def)
qed

section \<open>Client programs\<close>

datatype pub_call =
    Publish u32 u32 "u8 list"
  | AddSubscriber u32 ptr ptr
  | RunDispatch nat
  | QueuedCount

fun pub_step ::
    "(ptr \<Rightarrow> ptr \<Rightarrow> 'e \<Rightarrow> 'e) \<Rightarrow> (ptr \<Rightarrow> message \<Rightarrow> ptr \<Rightarrow> 'u \<Rightarrow> 'u pub_task) \<Rightarrow> ('e \<times> 'u) pworld \<Rightarrow> pub_call \<Rightarrow>
     (ut_event_result \<times> nat) \<times> ('e \<times> 'u) pworld" where
  "pub_step lock_fn progs w (Publish i s bs) =
     (let (r, w') = ut_event_publisher_publish_copy (on_env lock_fn) i s bs (length bs) (Some w)
      in ((r, 0), the w'))"
| "pub_step lock_fn progs w (AddSubscriber i h c) =
     (let (r, p) = ut_event_publisher_subscribe (Some (fst w)) i h c in ((r, 0), (the p, snd w)))"
| "pub_step lock_fn progs w (RunDispatch n) =
     (let (r, w', k) = ut_event_publisher_dispatch (on_env lock_fn) (p_call lock_fn progs) n (Some 0) (Some w)
      in ((r, the k), the w'))"
| "pub_step lock_fn progs w QueuedCount =
     (let (n, w') = ut_event_publisher_count (on_env lock_fn) (Some w) in ((UT_EVENT_OK, n), the w'))"

fun pub_run ::
    "(ptr \<Rightarrow> ptr \<Rightarrow> 'e \<Rightarrow> 'e) \<Rightarrow> (ptr \<Rightarrow> message \<Rightarrow> ptr \<Rightarrow> 'u \<Rightarrow> 'u pub_task) \<Rightarrow> ('e \<times> 'u) pworld \<Rightarrow>
     pub_call list \<Rightarrow> (ut_event_result \<times> nat) list \<times> ('e \<times> 'u) pworld" where
  "pub_run lock_fn progs w [] = ([], w)"
| "pub_run lock_fn progs w (c # cs) =
     (let (b, w') = pub_step lock_fn progs w c; (bs, w'') = pub_run lock_fn progs w' cs in (b # bs, w''))"

text \<open>The specification: a dispatcher, a list of messages with their bytes, and the handlers' data.\<close>

fun pub_spec_step ::
    "nat \<Rightarrow> nat \<Rightarrow> (ptr \<Rightarrow> message \<Rightarrow> ptr \<Rightarrow> 'u \<Rightarrow> 'u pub_task) \<Rightarrow> ut_event_dispatcher \<times> message list \<times> 'u \<Rightarrow>
     pub_call \<Rightarrow> (ut_event_result \<times> nat) \<times> (ut_event_dispatcher \<times> message list \<times> 'u)" where
  "pub_spec_step cap pcap progs (d, ms, u) (Publish i s bs) =
     (let (r, ms') = abs_publish cap pcap 0 ms (i, s, bs) in ((r, 0), (d, ms', u)))"
| "pub_spec_step cap pcap progs (d, ms, u) (AddSubscriber i h c) =
     (let (r, d') = ut_event_subscribe (Some d) i h c in ((r, 0), (the d', ms, u)))"
| "pub_spec_step cap pcap progs (d, ms, u) (RunDispatch n) =
     (if n = 0 then ((UT_EVENT_INVALID_ARGUMENT, 0), (d, ms, u))
      else let (k, ms', u') = abs_pdispatch cap pcap d progs n (ms, u) in ((UT_EVENT_OK, k), (d, ms', u')))"
| "pub_spec_step cap pcap progs (d, ms, u) QueuedCount = ((UT_EVENT_OK, length ms), (d, ms, u))"

fun pub_spec_run ::
    "nat \<Rightarrow> nat \<Rightarrow> (ptr \<Rightarrow> message \<Rightarrow> ptr \<Rightarrow> 'u \<Rightarrow> 'u pub_task) \<Rightarrow> ut_event_dispatcher \<times> message list \<times> 'u \<Rightarrow>
     pub_call list \<Rightarrow> (ut_event_result \<times> nat) list \<times> (ut_event_dispatcher \<times> message list \<times> 'u)" where
  "pub_spec_run cap pcap progs st [] = ([], st)"
| "pub_spec_run cap pcap progs st (c # cs) =
     (let (b, st') = pub_spec_step cap pcap progs st c; (bs, st'') = pub_spec_run cap pcap progs st' cs
      in (b # bs, st''))"

lemma critical_on_env: "(critical (on_env lock_fn) p ^^ n) (env, u) = ((critical lock_fn p ^^ n) env, u)"
  by (induction n) (auto simp: critical_def on_env_def)

lemma pub_step_refines:
  assumes wf: "publisher_wf [] p" and idle: "\<not> d_dispatching (p_dispatcher p)" "\<not> p_dispatching p"
  shows "\<exists>b p' j u'. pub_step lock_fn progs (p, (env, u)) c = (b, (p', ((critical lock_fn p ^^ j) env, u'))) \<and>
    publisher_wf [] p' \<and> \<not> d_dispatching (p_dispatcher p') \<and> \<not> p_dispatching p' \<and> same_config p p' \<and>
    pub_spec_step (p_capacity p) (p_payload_capacity p) progs (p_dispatcher p, messages p, u) c
      = (b, (p_dispatcher p', messages p', u'))"
proof (cases c)
  case (Publish i s bs)
  obtain r ms where a: "abs_publish (p_capacity p) (p_payload_capacity p) (length ([] :: nat list)) (messages p) (i, s, bs) = (r, ms)"
    by (metis prod.collapse)
  from publish_abs [OF wf a, of "on_env lock_fn" "(env, u)"] obtain p' n where
    p': "ut_event_publisher_publish_copy (on_env lock_fn) i s bs (length bs) (Some (p, (env, u))) =
      (r, Some (p', ((critical lock_fn p ^^ n) env, u)))"
      "publisher_wf [] p'" "same_config p p'" "p_dispatcher p' = p_dispatcher p" "messages p' = ms"
    unfolding critical_on_env by blast
  have "\<not> p_dispatching p'" using p'(3) idle(2) by (simp add: same_config_def)
  with Publish p' a idle show ?thesis
    by (intro exI [of _ "(r, 0)"] exI [of _ p'] exI [of _ n] exI [of _ u]) simp
next
  case (AddSubscriber i h cx)
  obtain r d' where sub: "ut_event_subscribe (Some (p_dispatcher p)) i h cx = (r, Some d')"
    and d': "dispatcher_wf d'" "\<not> d_dispatching d'"
    using reg_step_refines [of "p_dispatcher p" "Reg i h cx"] wf idle
    by (auto simp: publisher_wf_def split: prod.splits)
  let ?p = "p\<lparr>p_dispatcher := d'\<rparr>"
  have conf: "same_config p ?p" by (simp add: same_config_def)
  have "payload_bytes ?p = payload_bytes p" by (rule payload_bytes_cong [OF conf]) simp
  then have "messages ?p = messages p" by (simp add: messages_def message_def [abs_def])
  moreover have "publisher_wf [] ?p"
    using wf d' same_config_views [OF conf] by (simp add: publisher_wf_def publisher_is_valid_def)
  ultimately show ?thesis
    using AddSubscriber sub d' conf idle publisher_wf_valid [OF wf]
    by (intro exI [of _ "(r, 0)"] exI [of _ ?p] exI [of _ 0] exI [of _ u])
      (simp add: ut_event_publisher_subscribe_def)
next
  case (RunDispatch n)
  show ?thesis
  proof (cases "n = 0")
    case True
    with RunDispatch wf idle publisher_wf_valid [OF wf] show ?thesis
      by (intro exI [of _ "(UT_EVENT_INVALID_ARGUMENT, 0)"] exI [of _ p] exI [of _ 0] exI [of _ u])
        (simp add: ut_event_publisher_dispatch_def)
  next
    case False
    then have "0 < n" by simp
    from pdispatch_abs [OF wf idle this, of lock_fn progs env u] obtain p' j u' k where
      r: "ut_event_publisher_dispatch (on_env lock_fn) (p_call lock_fn progs) n (Some 0) (Some (p, (env, u))) =
        (UT_EVENT_OK, Some (p', ((critical lock_fn p ^^ j) env, u')), Some k)"
      "publisher_wf [] p'" "same_config p p'" "p_dispatcher p' = p_dispatcher p"
      "abs_pdispatch (p_capacity p) (p_payload_capacity p) (p_dispatcher p) progs n (messages p, u)
        = (k, messages p', u')"
      by blast
    have "\<not> p_dispatching p'" using r(3) idle(2) by (simp add: same_config_def)
    with RunDispatch False r idle show ?thesis
      by (intro exI [of _ "(UT_EVENT_OK, k)"] exI [of _ p'] exI [of _ j] exI [of _ u']) simp
  qed
next
  case QueuedCount
  from count_abs [OF wf, of "on_env lock_fn" "(env, u)"] critical_on_env [of 1 lock_fn p env u]
  have "ut_event_publisher_count (on_env lock_fn) (Some (p, (env, u))) =
      (length (messages p), Some (p, ((critical lock_fn p ^^ 1) env, u)))" by simp
  with QueuedCount wf idle show ?thesis
    by (intro exI [of _ "(UT_EVENT_OK, length (messages p))"] exI [of _ p] exI [of _ 1] exI [of _ u]) simp
qed

lemma pub_run_refines:
  "publisher_wf [] p \<Longrightarrow> \<not> d_dispatching (p_dispatcher p) \<Longrightarrow> \<not> p_dispatching p \<Longrightarrow>
    \<exists>bs p' j u'. pub_run lock_fn progs (p, (env, u)) cs = (bs, (p', ((critical lock_fn p ^^ j) env, u'))) \<and>
      publisher_wf [] p' \<and>
      pub_spec_run (p_capacity p) (p_payload_capacity p) progs (p_dispatcher p, messages p, u) cs
        = (bs, (p_dispatcher p', messages p', u'))"
proof (induction cs arbitrary: p env u)
  case Nil
  then show ?case by (intro exI [of _ "[]"] exI [of _ p] exI [of _ 0] exI [of _ u]) simp
next
  case (Cons c cs)
  obtain b p1 j1 u1 where s: "pub_step lock_fn progs (p, (env, u)) c = (b, (p1, ((critical lock_fn p ^^ j1) env, u1)))"
    "publisher_wf [] p1" "\<not> d_dispatching (p_dispatcher p1)" "\<not> p_dispatching p1" "same_config p p1"
    "pub_spec_step (p_capacity p) (p_payload_capacity p) progs (p_dispatcher p, messages p, u) c
      = (b, (p_dispatcher p1, messages p1, u1))"
    using pub_step_refines [OF Cons.prems, of lock_fn progs env u c] by blast
  obtain bs p2 j2 u2 where r: "pub_run lock_fn progs (p1, ((critical lock_fn p ^^ j1) env, u1)) cs =
      (bs, (p2, ((critical lock_fn p1 ^^ j2) ((critical lock_fn p ^^ j1) env), u2)))" "publisher_wf [] p2"
    "pub_spec_run (p_capacity p1) (p_payload_capacity p1) progs (p_dispatcher p1, messages p1, u1) cs
      = (bs, (p_dispatcher p2, messages p2, u2))"
    using Cons.IH [OF s(2-4), of "(critical lock_fn p ^^ j1) env" u1] by blast
  have "p_capacity p1 = p_capacity p" "p_payload_capacity p1 = p_payload_capacity p"
    using s(5) by (simp_all add: same_config_def)
  with s r critical_cong [OF s(5), of lock_fn] show ?case
    by (intro exI [of _ "b # bs"] exI [of _ p2] exI [of _ "j2 + j1"] exI [of _ u2]) (simp add: funpow_add_apply)
qed

text \<open>Storage for two events of up to three bytes and one subscriber, and a handler that keeps what it
  receives and tries to publish it again.\<close>

definition echo :: "ptr \<Rightarrow> message \<Rightarrow> ptr \<Rightarrow> message list \<Rightarrow> message list pub_task" where
  "echo h m c u = PPublish (fst m + 1) 0 (snd (snd m)) (\<lambda>r. PDone (u @ [m]))"

lemmas sample_storage = replicate_two size_max_def sizeof_subscription_def

section \<open>Properties\<close>

text \<open>Property C11. From initialisation on, any client program (publishes, subscriptions, dispatches with
  a budget, counts) and any handlers, which may publish in turn, see a queue of messages bounded by the
  capacity: every handler receives the very bytes that were published, in order, although the buffers
  of callers and the slots of the publisher are reused; a valid publish, of at most the payload capacity,
  is refused only for want of a queue place or a payload slot; a nested dispatch or subscription is
  refused. The lock callbacks are called strictly in pairs, and never around a handler.\<close>

theorem publisher_delivers_published_bytes:
  assumes "es \<noteq> []" "base \<noteq> 0" "length occ = length es" "0 < pcap" "length es \<le> size_max div pcap"
    and "length es * pcap \<le> length st" "length es \<le> size_max" "subs \<noteq> []"
    and "length subs \<le> size_max div sizeof_subscription" "(lock = 0) = (unlock = 0)"
  shows "\<exists>p. ut_event_publisher_init (Some p0) es base st occ (length es) pcap subs (length subs) lock unlock lc
      = (UT_EVENT_OK, Some p) \<and>
    (\<forall>calls. \<exists>bs p' j u' d ms.
      pub_run lock_fn progs (p, (env, u)) calls = (bs, (p', ((critical lock_fn p ^^ j) env, u'))) \<and>
      pub_spec_run (length es) pcap progs (p_dispatcher p, [], u) calls = (bs, (d, ms, u')))"
proof -
  obtain p where init: "ut_event_publisher_init (Some p0) es base st occ (length es) pcap subs (length subs) lock unlock lc
      = (UT_EVENT_OK, Some p)"
    and p: "publisher_wf [] p" "messages p = []" "p_capacity p = length es" "p_payload_capacity p = pcap"
      "\<not> d_dispatching (p_dispatcher p)" "\<not> p_dispatching p"
    using publisher_init_wf [OF assms, of p0 lc] by blast
  have "\<exists>bs p' j u' d ms. pub_run lock_fn progs (p, (env, u)) calls = (bs, (p', ((critical lock_fn p ^^ j) env, u'))) \<and>
      pub_spec_run (length es) pcap progs (p_dispatcher p, [], u) calls = (bs, (d, ms, u'))" for calls
    using pub_run_refines [OF p(1,5,6), of lock_fn progs env u calls] p(2-4) by auto
  with init show ?thesis by blast
qed

theorem publisher_delivers_published_bytes_witness:
  "\<exists>p. ut_event_publisher_init (Some zero_publisher) (replicate 2 zero_event) 4096 (replicate 6 0)
      (replicate 2 False) 2 3 (replicate 1 zero_subscription) 1 0 0 0 = (UT_EVENT_OK, Some p) \<and>
    (\<forall>calls. \<exists>bs p' j u' d ms.
      pub_run (\<lambda>f c e. e @ [f]) echo (p, ([], [])) calls =
        (bs, (p', ((critical (\<lambda>f c e. e @ [f]) p ^^ j) [], u'))) \<and>
      pub_spec_run 2 3 echo (p_dispatcher p, [], []) calls = (bs, (d, ms, u')))"
  using publisher_delivers_published_bytes [of "replicate 2 zero_event" 4096 "replicate 2 False" 3
      "replicate 6 0" "replicate 1 zero_subscription" 0 0 zero_publisher 0 "\<lambda>f c e. e @ [f]" echo "[]" "[]"]
  by (simp add: size_max_def sizeof_subscription_def)

text \<open>Property C21. The payload slots never leak and are never shared: after any client program the
  occupied slots are exactly those the queued descriptors point at, each by one descriptor, and every
  such descriptor lies inside its slot.\<close>

theorem publisher_slots_match_queue:
  assumes "publisher_wf [] p" and "\<not> d_dispatching (p_dispatcher p)" and "\<not> p_dispatching p"
    and "pub_run lock_fn progs (p, (env, u)) calls = (bs, (p', eu))"
  shows "{i. i < p_capacity p' \<and> p_occupied_storage p' ! i}
      = set (event_slots p' (queue_items (p_queue p'))) \<and>
    distinct (event_slots p' (queue_items (p_queue p'))) \<and>
    (\<forall>e\<in>set (queue_items (p_queue p')). descriptor_ok p' e)"
proof -
  have "publisher_wf [] p'"
    using pub_run_refines [OF assms(1-3), of lock_fn progs env u calls] assms(4) by auto
  then show ?thesis by (auto simp: publisher_wf_def)
qed

definition sample_publisher :: ut_event_publisher where
  "sample_publisher =
     \<lparr>p_queue = \<lparr>q_storage = [zero_event, zero_event], q_capacity = 2, q_head = 0, q_tail = 0, q_count = 0\<rparr>,
      p_dispatcher = \<lparr>d_subscriptions = [zero_subscription], d_capacity = 1, d_count = 0, d_dispatching = False\<rparr>,
      p_payload_base = 4096, p_payload_storage = [0, 0, 0, 0, 0, 0], p_occupied_storage = [False, False],
      p_capacity = 2, p_payload_capacity = 3, p_lock = 0, p_unlock = 0, p_lock_context = 0,
      p_dispatching = False\<rparr>"

lemma sample_publisher_wf:
  "publisher_wf [] sample_publisher" "\<not> d_dispatching (p_dispatcher sample_publisher)"
  "\<not> p_dispatching sample_publisher"
  by (auto simp: sample_publisher_def publisher_wf_def publisher_is_valid_def queue_wf_def queue_items_def
      event_slots_def dispatcher_wf_def registrations_def count_slots_def zero_subscription_def size_max_def
      sizeof_subscription_def dest: less_2_cases)

theorem publisher_slots_match_queue_witness:
  "\<exists>bs p' eu. pub_run (\<lambda>f c e. e) echo (sample_publisher, ((), [])) [Publish 7 0 [1, 2], RunDispatch 5]
      = (bs, (p', eu)) \<and>
    distinct (event_slots p' (queue_items (p_queue p')))"
proof -
  obtain bs p' eu where run: "pub_run (\<lambda>f c e. e) echo (sample_publisher, ((), []))
      [Publish 7 0 [1, 2], RunDispatch 5] = (bs, (p', eu))"
    using prod_cases3 by blast
  from publisher_slots_match_queue [OF sample_publisher_wf run] run show ?thesis by blast
qed

end
