(* ===== verification/Event_Buffer.thy ===== *)
theory Event_Buffer
  imports Event_Types Bounded_Fifo "HOL-Library.Multiset"
begin

text \<open>
  Events that own a buffer (\<open>utility_event_buffer.c\<close>): an envelope holds a pool handle and the duty to
  free it, its event's payload points at the reference inside the envelope itself, and moves between
  envelopes and a ring queue keep exactly one owner. A pool is a table of callbacks, code outside the
  component; \<open>pool_code\<close> says what calling the function at an address does to the state \<open>'w\<close> of the
  pools. An envelope argument is its address with its contents, so that the self-pointer test is the
  one of the code.
\<close>

type_synonym ut_event_buffer_handle = u32

record ut_event_buffer_pool =
  bp_context :: ptr
  bp_alloc :: ptr
  bp_free :: ptr
  bp_write :: ptr
  bp_read :: ptr

record ut_event_buffer_ref =
  br_pool :: "ut_event_buffer_pool option"
  br_handle :: ut_event_buffer_handle
  br_length :: nat

record ut_event_buffer_message =
  bm_event :: ut_event
  bm_buffer_ref :: ut_event_buffer_ref
  bm_owns_handle :: bool

record ut_event_buffer_queue =
  bq_storage :: "ut_event_buffer_message list"
  bq_base :: ptr
  bq_capacity :: nat
  bq_head :: nat
  bq_tail :: nat
  bq_count :: nat

record 'w pool_code =
  pc_alloc :: "ptr \<Rightarrow> ptr \<Rightarrow> nat \<Rightarrow> 'w \<Rightarrow> ut_event_result \<times> ut_event_buffer_handle \<times> 'w"
  pc_free :: "ptr \<Rightarrow> ptr \<Rightarrow> ut_event_buffer_handle \<Rightarrow> 'w \<Rightarrow> ut_event_result \<times> 'w"
  pc_write :: "ptr \<Rightarrow> ptr \<Rightarrow> ut_event_buffer_handle \<Rightarrow> nat \<Rightarrow> u8 list \<Rightarrow> 'w \<Rightarrow> ut_event_result \<times> 'w"
  pc_read :: "ptr \<Rightarrow> ptr \<Rightarrow> ut_event_buffer_handle \<Rightarrow> nat \<Rightarrow> nat \<Rightarrow> 'w \<Rightarrow> ut_event_result \<times> u8 list \<times> 'w"

section \<open>Layout\<close>

text \<open>On an LP64 target the event takes 24 bytes, the reference 24 and the envelope 56.\<close>

definition sizeof_ref :: nat where
  "sizeof_ref = 24"

definition sizeof_message :: nat where
  "sizeof_message = 56"

definition ref_address :: "ptr \<Rightarrow> ptr" where
  "ref_address a = a + 24"

definition zero_message :: ut_event_buffer_message where
  "zero_message =
     \<lparr>bm_event = zero_event, bm_buffer_ref = \<lparr>br_pool = None, br_handle = 0, br_length = 0\<rparr>,
      bm_owns_handle = False\<rparr>"

section \<open>Operations\<close>

definition pool_is_valid :: "ut_event_buffer_pool option \<Rightarrow> bool" where
  "pool_is_valid pool =
     (case pool of
        None \<Rightarrow> False
      | Some p \<Rightarrow> bp_alloc p \<noteq> 0 \<and> bp_free p \<noteq> 0 \<and> bp_write p \<noteq> 0 \<and> bp_read p \<noteq> 0)"

definition message_is_owned :: "(ptr \<times> ut_event_buffer_message) option \<Rightarrow> bool" where
  "message_is_owned message =
     (case message of
        None \<Rightarrow> False
      | Some (a, m) \<Rightarrow> bm_owns_handle m \<and> pool_is_valid (br_pool (bm_buffer_ref m)) \<and>
          ev_payload (bm_event m) = ref_address a \<and> ev_payload_size (bm_event m) = sizeof_ref)"

definition queue_is_valid :: "ut_event_buffer_queue option \<Rightarrow> bool" where
  "queue_is_valid queue =
     (case queue of
        None \<Rightarrow> False
      | Some q \<Rightarrow> bq_storage q \<noteq> [] \<and> 0 < bq_capacity q \<and> bq_head q < bq_capacity q \<and>
          bq_tail q < bq_capacity q \<and> bq_count q \<le> bq_capacity q)"

text \<open>The new contents of the destination (at the given address) and of the source.\<close>

definition move_message ::
    "ptr \<Rightarrow> ut_event_buffer_message \<Rightarrow> ut_event_buffer_message \<times> ut_event_buffer_message" where
  "move_message destination_address source =
     (source\<lparr>bm_event := (bm_event source)\<lparr>ev_payload := ref_address destination_address\<rparr>\<rparr>, zero_message)"

definition ut_event_buffer_message_create_copy ::
    "'w pool_code \<Rightarrow> (ptr \<times> ut_event_buffer_message) option \<Rightarrow> ut_event_buffer_pool option \<Rightarrow> u32 \<Rightarrow>
     u32 \<Rightarrow> u8 list \<Rightarrow> nat \<Rightarrow> 'w \<Rightarrow> ut_event_result \<times> (ptr \<times> ut_event_buffer_message) option \<times> 'w" where
  "ut_event_buffer_message_create_copy code message pool event_id source_id source len w =
     (if message = None \<or> bm_owns_handle (snd (the message)) \<or> \<not> pool_is_valid pool \<or> source = [] \<or> len = 0
      then (UT_EVENT_INVALID_ARGUMENT, message, w)
      else
        let p = the pool;
            (a, m) = the message;
            (result, handle, w1) = pc_alloc code (bp_alloc p) (bp_context p) len w
        in if result \<noteq> UT_EVENT_OK then (result, message, w1)
           else
             let (result2, w2) =
                   pc_write code (bp_write p) (bp_context p) handle 0 (take len source) w1
             in if result2 \<noteq> UT_EVENT_OK then
                  let (_, w3) = pc_free code (bp_free p) (bp_context p) handle w2
                  in (result2, message, w3)
                else
                  (UT_EVENT_OK,
                   Some (a, \<lparr>bm_event = \<lparr>ev_id = event_id, ev_source = source_id,
                               ev_payload = ref_address a, ev_payload_size = sizeof_ref\<rparr>,
                             bm_buffer_ref = \<lparr>br_pool = pool, br_handle = handle, br_length = len\<rparr>,
                             bm_owns_handle = True\<rparr>),
                   w2))"

definition ut_event_buffer_message_release ::
    "'w pool_code \<Rightarrow> (ptr \<times> ut_event_buffer_message) option \<Rightarrow> 'w \<Rightarrow>
     ut_event_result \<times> (ptr \<times> ut_event_buffer_message) option \<times> 'w" where
  "ut_event_buffer_message_release code message w =
     (if \<not> message_is_owned message then (UT_EVENT_INVALID_ARGUMENT, message, w)
      else
        let (a, m) = the message;
            p = the (br_pool (bm_buffer_ref m));
            (result, w1) = pc_free code (bp_free p) (bp_context p) (br_handle (bm_buffer_ref m)) w
        in (result, if result = UT_EVENT_OK then Some (a, zero_message) else message, w1))"

definition ut_event_buffer_message_event :: "(ptr \<times> ut_event_buffer_message) option \<Rightarrow> ut_event option" where
  "ut_event_buffer_message_event message =
     (if message_is_owned message then Some (bm_event (snd (the message))) else None)"

text \<open>The destination is its old contents; a destination of no bytes is NULL.\<close>

definition ut_event_buffer_message_read ::
    "'w pool_code \<Rightarrow> (ptr \<times> ut_event_buffer_message) option \<Rightarrow> nat \<Rightarrow> u8 list \<Rightarrow> nat \<Rightarrow> 'w \<Rightarrow>
     ut_event_result \<times> u8 list \<times> 'w" where
  "ut_event_buffer_message_read code message offset destination len w =
     (if \<not> message_is_owned message \<or> destination = [] \<and> len \<noteq> 0 \<or>
         br_length (bm_buffer_ref (snd (the message))) < offset \<or>
         size_sub (br_length (bm_buffer_ref (snd (the message)))) offset < len
      then (UT_EVENT_INVALID_ARGUMENT, destination, w)
      else
        let m = snd (the message);
            p = the (br_pool (bm_buffer_ref m))
        in pc_read code (bp_read p) (bp_context p) (br_handle (bm_buffer_ref m)) offset len w)"

definition ut_event_buffer_queue_init ::
    "ut_event_buffer_queue option \<Rightarrow> ptr \<Rightarrow> ut_event_buffer_message list \<Rightarrow> nat \<Rightarrow>
     ut_event_result \<times> ut_event_buffer_queue option" where
  "ut_event_buffer_queue_init queue base storage capacity =
     (if queue = None \<or> storage = [] \<or> capacity = 0 \<or> size_max div sizeof_message < capacity
      then (UT_EVENT_INVALID_ARGUMENT, queue)
      else (UT_EVENT_OK,
            Some \<lparr>bq_storage = replicate capacity zero_message @ drop capacity storage, bq_base = base,
                  bq_capacity = capacity, bq_head = 0, bq_tail = 0, bq_count = 0\<rparr>))"

definition slot_address :: "ut_event_buffer_queue \<Rightarrow> nat \<Rightarrow> ptr" where
  "slot_address q index = bq_base q + index * sizeof_message"

definition ut_event_buffer_queue_push_move ::
    "ut_event_buffer_queue option \<Rightarrow> (ptr \<times> ut_event_buffer_message) option \<Rightarrow>
     ut_event_result \<times> ut_event_buffer_queue option \<times> (ptr \<times> ut_event_buffer_message) option" where
  "ut_event_buffer_queue_push_move queue source =
     (if \<not> queue_is_valid queue \<or> \<not> message_is_owned source
      then (UT_EVENT_INVALID_ARGUMENT, queue, source)
      else let q = the queue in
        if bq_count q = bq_capacity q then (UT_EVENT_FULL, queue, source)
        else
          let (slot, source') = move_message (slot_address q (bq_tail q)) (snd (the source))
          in (UT_EVENT_OK,
              Some (q\<lparr>bq_storage := (bq_storage q)[bq_tail q := slot],
                      bq_tail := size_add (bq_tail q) 1 mod bq_capacity q,
                      bq_count := size_add (bq_count q) 1\<rparr>),
              Some (fst (the source), source')))"

definition ut_event_buffer_queue_pop_move ::
    "ut_event_buffer_queue option \<Rightarrow> (ptr \<times> ut_event_buffer_message) option \<Rightarrow>
     ut_event_result \<times> ut_event_buffer_queue option \<times> (ptr \<times> ut_event_buffer_message) option" where
  "ut_event_buffer_queue_pop_move queue destination =
     (if \<not> queue_is_valid queue \<or> destination = None \<or> bm_owns_handle (snd (the destination))
      then (UT_EVENT_INVALID_ARGUMENT, queue, destination)
      else let q = the queue in
        if bq_count q = 0 then (UT_EVENT_EMPTY, queue, destination)
        else
          let (d, slot) = move_message (fst (the destination)) (bq_storage q ! bq_head q)
          in (UT_EVENT_OK,
              Some (q\<lparr>bq_storage := (bq_storage q)[bq_head q := slot],
                      bq_head := size_add (bq_head q) 1 mod bq_capacity q,
                      bq_count := size_sub (bq_count q) 1\<rparr>),
              Some (fst (the destination), d)))"

definition ut_event_buffer_queue_count :: "ut_event_buffer_queue option \<Rightarrow> nat" where
  "ut_event_buffer_queue_count queue = (if queue_is_valid queue then bq_count (the queue) else 0)"

text \<open>The loop of \<open>ut_event_buffer_queue_release_all\<close>; each round empties one slot of the ring.\<close>

function ut_event_buffer_queue_release_all ::
    "'w pool_code \<Rightarrow> ut_event_buffer_queue option \<Rightarrow> 'w \<Rightarrow>
     ut_event_result \<times> ut_event_buffer_queue option \<times> 'w" where
  "ut_event_buffer_queue_release_all code queue w =
     (if queue_is_valid queue \<and> 0 < bq_count (the queue) then
        let q = the queue;
            (result, slot, w1) =
              ut_event_buffer_message_release code
                (Some (slot_address q (bq_head q), bq_storage q ! bq_head q)) w;
            q1 = q\<lparr>bq_storage := (bq_storage q)[bq_head q := snd (the slot)]\<rparr>
        in if result \<noteq> UT_EVENT_OK then (result, Some q1, w1)
           else ut_event_buffer_queue_release_all code
                  (Some (q1\<lparr>bq_head := size_add (bq_head q1) 1 mod bq_capacity q1,
                            bq_count := bq_count q1 - 1\<rparr>)) w1
      else (if queue_is_valid queue then UT_EVENT_OK else UT_EVENT_INVALID_ARGUMENT, queue, w))"
  by pat_completeness auto
termination
  by (relation "measure (\<lambda>(code, queue, w). bq_count (the queue))") auto

declare ut_event_buffer_queue_release_all.simps [simp del]

section \<open>The queue as a bounded FIFO of envelopes\<close>

type_synonym envelope = "u32 \<times> u32 \<times> ut_event_buffer_ref"

definition envelope_of :: "ut_event_buffer_message \<Rightarrow> envelope" where
  "envelope_of m = (ev_id (bm_event m), ev_source (bm_event m), bm_buffer_ref m)"

text \<open>The contents an owning envelope has at an address.\<close>

definition message_at :: "ptr \<Rightarrow> envelope \<Rightarrow> ut_event_buffer_message" where
  "message_at a = (\<lambda>(i, s, r).
     \<lparr>bm_event = \<lparr>ev_id = i, ev_source = s, ev_payload = ref_address a, ev_payload_size = sizeof_ref\<rparr>,
      bm_buffer_ref = r, bm_owns_handle = True\<rparr>)"

definition buffer_items :: "ut_event_buffer_queue \<Rightarrow> envelope list" where
  "buffer_items q = map envelope_of (ring_list (bq_storage q) (bq_head q) (bq_count q))"

definition buffer_queue_wf :: "ut_event_buffer_queue \<Rightarrow> bool" where
  "buffer_queue_wf q \<longleftrightarrow> 0 < bq_capacity q \<and> bq_capacity q \<le> size_max div sizeof_message \<and>
     length (bq_storage q) = bq_capacity q \<and> bq_head q < bq_capacity q \<and> bq_count q \<le> bq_capacity q \<and>
     bq_tail q = (bq_head q + bq_count q) mod bq_capacity q \<and>
     (\<forall>i<bq_count q. let k = (bq_head q + i) mod bq_capacity q in
        message_is_owned (Some (slot_address q k, bq_storage q ! k)))"

definition envelope_ok :: "envelope \<Rightarrow> bool" where
  "envelope_ok e \<longleftrightarrow> pool_is_valid (br_pool (snd (snd e)))"

lemma owned_iff: "message_is_owned (Some (a, m)) \<longleftrightarrow> m = message_at a (envelope_of m) \<and> envelope_ok (envelope_of m)"
proof -
  obtain e r b where m: "m = \<lparr>bm_event = e, bm_buffer_ref = r, bm_owns_handle = b\<rparr>" by (cases m)
  obtain i s p n where e: "e = \<lparr>ev_id = i, ev_source = s, ev_payload = p, ev_payload_size = n\<rparr>" by (cases e)
  show ?thesis unfolding m e by (auto simp: message_is_owned_def message_at_def envelope_of_def envelope_ok_def)
qed

lemma envelope_message_at [simp]: "envelope_of (message_at a e) = e"
  by (cases e) (simp add: envelope_of_def message_at_def)

lemma owned_message_at [simp]: "message_is_owned (Some (a, message_at a e)) \<longleftrightarrow> envelope_ok e"
  by (simp add: owned_iff)

lemma move_owned:
  "message_is_owned (Some (a, m)) \<Longrightarrow> move_message b m = (message_at b (envelope_of m), zero_message)"
proof -
  assume own: "message_is_owned (Some (a, m))"
  obtain i s r where e: "envelope_of m = (i, s, r)" by (cases "envelope_of m")
  have m: "m = message_at a (i, s, r)" using own e by (simp add: owned_iff)
  show ?thesis unfolding e by (simp add: m move_message_def message_at_def)
qed

lemma buffer_queue_valid: "buffer_queue_wf q \<Longrightarrow> queue_is_valid (Some q)"
  by (auto simp: buffer_queue_wf_def queue_is_valid_def)

lemma buffer_capacity: "buffer_queue_wf q \<Longrightarrow> bq_capacity q < size_max"
  by (simp add: buffer_queue_wf_def sizeof_message_def size_max_def)

lemma length_buffer_items [simp]: "length (buffer_items q) = bq_count q"
  by (simp add: buffer_items_def)

lemma push_move_ok:
  assumes wf: "buffer_queue_wf q" and room: "bq_count q < bq_capacity q" and own: "message_is_owned (Some (a, m))"
  shows "\<exists>q'. ut_event_buffer_queue_push_move (Some q) (Some (a, m)) = (UT_EVENT_OK, Some q', Some (a, zero_message)) \<and>
    buffer_queue_wf q' \<and> bq_capacity q' = bq_capacity q \<and> buffer_items q' = buffer_items q @ [envelope_of m]"
proof -
  let ?t = "bq_tail q" and ?e = "envelope_of m"
  let ?x = "message_at (slot_address q (bq_tail q)) ?e"
  let ?q = "q\<lparr>bq_storage := (bq_storage q)[?t := ?x], bq_tail := (?t + 1) mod bq_capacity q, bq_count := Suc (bq_count q)\<rparr>"
  have len: "length (bq_storage q) = bq_capacity q" and t: "?t = (bq_head q + bq_count q) mod bq_capacity q"
    and cap: "0 < bq_capacity q" using wf by (simp_all add: buffer_queue_wf_def)
  then have tl: "?t < bq_capacity q" by simp
  have sizes: "size_add ?t 1 = ?t + 1" "size_add (bq_count q) 1 = Suc (bq_count q)"
    using tl room buffer_capacity [OF wf] by simp_all
  have slots: "message_is_owned (Some (slot_address ?q k, bq_storage ?q ! k))"
    if "i < Suc (bq_count q)" "k = (bq_head q + i) mod bq_capacity q" for i k
  proof (cases "i = bq_count q")
    case True
    then have "k = ?t" using that t by simp
    with own tl len show ?thesis by (simp add: slot_address_def owned_iff)
  next
    case False
    then have i: "i < bq_count q" using that by simp
    have "k \<noteq> ?t" using mod_add_inj [of "bq_head q" i "bq_capacity q" "bq_count q"] that i room t by auto
    then have "bq_storage ?q ! k = bq_storage q ! k" by simp
    with wf i that show ?thesis by (auto simp: buffer_queue_wf_def Let_def slot_address_def)
  qed
  have "buffer_queue_wf ?q"
    using wf room t slots by (auto simp: buffer_queue_wf_def Let_def mod_Suc_eq slot_address_def)
  moreover have "buffer_items ?q = buffer_items q @ [?e]"
    using ring_list_push [of "bq_count q" "bq_storage q" "bq_head q" ?x] room len t by (simp add: buffer_items_def)
  moreover have "ut_event_buffer_queue_push_move (Some q) (Some (a, m)) = (UT_EVENT_OK, Some ?q, Some (a, zero_message))"
    using own room sizes buffer_queue_valid [OF wf] move_owned [OF own]
    by (simp add: ut_event_buffer_queue_push_move_def)
  ultimately show ?thesis by auto
qed

text \<open>Taking the head slot out of the ring, once it has been emptied.\<close>

lemma drop_head:
  fixes x :: ut_event_buffer_message
  assumes wf: "buffer_queue_wf q" and it: "buffer_items q = e # es"
  defines "q' \<equiv> q\<lparr>bq_storage := (bq_storage q)[bq_head q := x], bq_head := (bq_head q + 1) mod bq_capacity q,
    bq_count := bq_count q - 1\<rparr>"
  shows "buffer_queue_wf q'" "buffer_items q' = es" "bq_capacity q' = bq_capacity q" "0 < bq_count q"
    "bq_storage q ! bq_head q = message_at (slot_address q (bq_head q)) e" "envelope_ok e"
proof -
  show cnt: "0 < bq_count q" using it by (metis length_buffer_items length_greater_0_conv list.discI)
  have cap: "0 < bq_capacity q" and head: "bq_head q < bq_capacity q" and le: "bq_count q \<le> bq_capacity q"
    and len: "length (bq_storage q) = bq_capacity q"
    and tail: "bq_tail q = (bq_head q + bq_count q) mod bq_capacity q"
    using wf by (auto simp: buffer_queue_wf_def)
  have first: "envelope_of (bq_storage q ! bq_head q) = e"
    and rest: "map envelope_of (ring_list (bq_storage q) ((bq_head q + 1) mod bq_capacity q) (bq_count q - 1)) = es"
    using ring_list_pop [OF cnt, of "bq_head q" "bq_storage q"] head len it by (simp_all add: buffer_items_def)
  have "message_is_owned (Some (slot_address q (bq_head q), bq_storage q ! bq_head q))"
    using wf cnt head unfolding buffer_queue_wf_def Let_def by (metis add_0_right mod_less)
  then show "bq_storage q ! bq_head q = message_at (slot_address q (bq_head q)) e" "envelope_ok e"
    using first by (simp_all add: owned_iff)
  have step: "((bq_head q + 1) mod bq_capacity q + i) mod bq_capacity q = (bq_head q + Suc i) mod bq_capacity q" for i
    by (rule ring_step [OF cap])
  have other: "(bq_head q + Suc i) mod bq_capacity q \<noteq> bq_head q" if "i < bq_count q - 1" for i
  proof
    assume "(bq_head q + Suc i) mod bq_capacity q = bq_head q"
    then have "(bq_head q + Suc i) mod bq_capacity q = (bq_head q + 0) mod bq_capacity q" using head by simp
    moreover have "Suc i < bq_capacity q" using that le by simp
    ultimately show False using mod_add_inj [of "bq_head q" "Suc i" "bq_capacity q" 0] by simp
  qed
  have "ring_list (bq_storage q') (bq_head q') (bq_count q') = ring_list (bq_storage q) (bq_head q') (bq_count q')"
    unfolding ring_list_def q'_def using other [THEN not_sym] step len by (intro map_cong) auto
  with rest show "buffer_items q' = es" by (simp add: buffer_items_def q'_def)
  have "((bq_head q + 1) mod bq_capacity q + (bq_count q - 1)) mod bq_capacity q = bq_tail q"
    using ring_step [OF cap, of "bq_head q" "bq_count q - 1"] cnt tail by simp
  moreover have "message_is_owned (Some (slot_address q k, bq_storage q' ! k))"
    if "i < bq_count q - 1" "k = ((bq_head q + 1) mod bq_capacity q + i) mod bq_capacity q" for i k
  proof -
    have k: "k = (bq_head q + Suc i) mod bq_capacity q" "k \<noteq> bq_head q" using that other step by auto
    have "message_is_owned (Some (slot_address q k, bq_storage q ! k))"
      using wf that(1) k(1) unfolding buffer_queue_wf_def Let_def by (metis less_diff_conv Suc_eq_plus1)
    with k(2) show ?thesis by (simp add: q'_def)
  qed
  ultimately show "buffer_queue_wf q'"
    using wf cap len le by (auto simp: buffer_queue_wf_def Let_def q'_def slot_address_def)
  show "bq_capacity q' = bq_capacity q" by (simp add: q'_def)
qed

lemma pop_move_ok:
  assumes wf: "buffer_queue_wf q" and it: "buffer_items q = e # es" and m: "\<not> bm_owns_handle m"
  shows "\<exists>q'. ut_event_buffer_queue_pop_move (Some q) (Some (a, m)) = (UT_EVENT_OK, Some q', Some (a, message_at a e)) \<and>
    buffer_queue_wf q' \<and> bq_capacity q' = bq_capacity q \<and> buffer_items q' = es \<and> envelope_ok e"
proof -
  note d = drop_head(1-3) [OF wf it, of zero_message] drop_head(4-6) [OF wf it]
  have "bq_head q < bq_capacity q" "bq_count q \<le> bq_capacity q" using wf by (simp_all add: buffer_queue_wf_def)
  then have sizes: "size_add (bq_head q) 1 = bq_head q + 1" "size_sub (bq_count q) 1 = bq_count q - 1"
    using d(4) buffer_capacity [OF wf] by simp_all
  have "message_is_owned (Some (slot_address q (bq_head q), bq_storage q ! bq_head q))" using d(5,6) by simp
  from move_owned [OF this, of a] d(5) have mv: "move_message a (bq_storage q ! bq_head q) = (message_at a e, zero_message)"
    by simp
  then have "ut_event_buffer_queue_pop_move (Some q) (Some (a, m)) =
      (UT_EVENT_OK, Some (q\<lparr>bq_storage := (bq_storage q)[bq_head q := zero_message],
        bq_head := (bq_head q + 1) mod bq_capacity q, bq_count := bq_count q - 1\<rparr>), Some (a, message_at a e))"
    using d(4) m sizes buffer_queue_valid [OF wf] by (simp add: ut_event_buffer_queue_pop_move_def)
  with d(1-3,6) show ?thesis by blast
qed

lemma pop_move_empty:
  "buffer_queue_wf q \<Longrightarrow> bq_count q = 0 \<Longrightarrow> \<not> bm_owns_handle m \<Longrightarrow>
    ut_event_buffer_queue_pop_move (Some q) (Some (a, m)) = (UT_EVENT_EMPTY, Some q, Some (a, m))"
  by (simp add: ut_event_buffer_queue_pop_move_def buffer_queue_valid)

lemma push_move_full:
  "buffer_queue_wf q \<Longrightarrow> bq_count q = bq_capacity q \<Longrightarrow> message_is_owned (Some (a, m)) \<Longrightarrow>
    ut_event_buffer_queue_push_move (Some q) (Some (a, m)) = (UT_EVENT_FULL, Some q, Some (a, m))"
  by (simp add: ut_event_buffer_queue_push_move_def buffer_queue_valid)

text \<open>
  The envelopes that can own a handle, as a type, and what a caller of the queue sees: an envelope
  goes in (from address 0), or comes out (to an unowned envelope at address 0).
\<close>

typedef live_envelope = "{e. envelope_ok e}"
proof
  show "(0, 0, \<lparr>br_pool = Some \<lparr>bp_context = 0, bp_alloc = 1, bp_free = 1, bp_write = 1, bp_read = 1\<rparr>,
      br_handle = 0, br_length = 0\<rparr>) \<in> {e. envelope_ok e}"
    by (simp add: envelope_ok_def pool_is_valid_def)
qed

definition live_items :: "ut_event_buffer_queue \<Rightarrow> live_envelope list" where
  "live_items q = map Abs_live_envelope (buffer_items q)"

definition buffer_enq :: "ut_event_buffer_queue \<Rightarrow> live_envelope \<Rightarrow> ut_event_buffer_queue option" where
  "buffer_enq q e = (case ut_event_buffer_queue_push_move (Some q) (Some (0, message_at 0 (Rep_live_envelope e))) of
      (UT_EVENT_OK, r, _) \<Rightarrow> r | _ \<Rightarrow> None)"

definition buffer_deq :: "ut_event_buffer_queue \<Rightarrow> (live_envelope \<times> ut_event_buffer_queue) option" where
  "buffer_deq q = (case ut_event_buffer_queue_pop_move (Some q) (Some (0, zero_message)) of
      (UT_EVENT_OK, Some r, Some (a, m)) \<Rightarrow> Some (Abs_live_envelope (envelope_of m), r) | _ \<Rightarrow> None)"

lemma zero_message_unowned [simp]: "\<not> bm_owns_handle zero_message"
  by (simp add: zero_message_def)

interpretation bufq: bounded_fifo buffer_queue_wf bq_capacity live_items buffer_enq buffer_deq
proof unfold_locales
  fix q x assume wf: "buffer_queue_wf q" and "length (live_items q) < bq_capacity q"
  then have room: "bq_count q < bq_capacity q" by (simp add: live_items_def)
  have "envelope_ok (Rep_live_envelope x)" using Rep_live_envelope [of x] by simp
  then have "message_is_owned (Some (0, message_at 0 (Rep_live_envelope x)))" by simp
  from push_move_ok [OF wf room this] show "\<exists>q'. buffer_enq q x = Some q' \<and> buffer_queue_wf q' \<and>
      bq_capacity q' = bq_capacity q \<and> live_items q' = live_items q @ [x]"
    by (auto simp: buffer_enq_def live_items_def Rep_live_envelope_inverse)
next
  fix q x assume wf: "buffer_queue_wf q" and "length (live_items q) = bq_capacity q"
  then have full: "bq_count q = bq_capacity q" by (simp add: live_items_def)
  have "envelope_ok (Rep_live_envelope x)" using Rep_live_envelope [of x] by simp
  then have "message_is_owned (Some (0, message_at 0 (Rep_live_envelope x)))" by simp
  from push_move_full [OF wf full this] show "buffer_enq q x = None" by (simp add: buffer_enq_def)
next
  fix q x xs assume wf: "buffer_queue_wf q" and "live_items q = x # xs"
  then obtain e es where it: "buffer_items q = e # es" and x: "x = Abs_live_envelope e" "xs = map Abs_live_envelope es"
    by (auto simp: live_items_def Cons_eq_map_conv)
  from pop_move_ok [OF wf it zero_message_unowned, of 0] x show "\<exists>q'. buffer_deq q = Some (x, q') \<and>
      buffer_queue_wf q' \<and> bq_capacity q' = bq_capacity q \<and> live_items q' = xs"
    by (auto simp: buffer_deq_def live_items_def)
qed (auto simp: live_items_def buffer_queue_wf_def buffer_deq_def
    pop_move_empty [OF _ _ zero_message_unowned] length_0_conv [of "buffer_items _", symmetric]
    simp del: length_0_conv)

section \<open>Ownership\<close>

text \<open>
  A client: envelope variables at consecutive addresses from \<open>vb\<close> on, a queue and the pools. Each call
  names its variables by index.
\<close>

record 'w buffer_client =
  bc_vars :: "ut_event_buffer_message list"
  bc_queue :: ut_event_buffer_queue
  bc_pools :: 'w

datatype buf_call =
    BCreate nat ut_event_buffer_pool u32 u32 "u8 list"
  | BRelease nat
  | BPush nat
  | BPop nat
  | BReleaseAll
  | BRead nat nat nat

definition var_at :: "ptr \<Rightarrow> 'w buffer_client \<Rightarrow> nat \<Rightarrow> (ptr \<times> ut_event_buffer_message) option" where
  "var_at vb s i = (if i < length (bc_vars s) then Some (vb + i * sizeof_message, bc_vars s ! i) else None)"

definition set_var :: "nat \<Rightarrow> (ptr \<times> ut_event_buffer_message) option \<Rightarrow> 'w buffer_client \<Rightarrow> 'w buffer_client" where
  "set_var i v s = (case v of None \<Rightarrow> s | Some (a, m) \<Rightarrow> s\<lparr>bc_vars := (bc_vars s)[i := m]\<rparr>)"

fun buf_step :: "'w pool_code \<Rightarrow> ptr \<Rightarrow> 'w buffer_client \<Rightarrow> buf_call \<Rightarrow> ut_event_result \<times> 'w buffer_client" where
  "buf_step code vb s (BCreate i pool e src bytes) =
     (let (r, v, w) = ut_event_buffer_message_create_copy code (var_at vb s i) (Some pool) e src bytes
                        (length bytes) (bc_pools s)
      in (r, set_var i v (s\<lparr>bc_pools := w\<rparr>)))"
| "buf_step code vb s (BRelease i) =
     (let (r, v, w) = ut_event_buffer_message_release code (var_at vb s i) (bc_pools s)
      in (r, set_var i v (s\<lparr>bc_pools := w\<rparr>)))"
| "buf_step code vb s (BPush i) =
     (let (r, q, v) = ut_event_buffer_queue_push_move (Some (bc_queue s)) (var_at vb s i)
      in (r, set_var i v (s\<lparr>bc_queue := the q\<rparr>)))"
| "buf_step code vb s (BPop i) =
     (let (r, q, v) = ut_event_buffer_queue_pop_move (Some (bc_queue s)) (var_at vb s i)
      in (r, set_var i v (s\<lparr>bc_queue := the q\<rparr>)))"
| "buf_step code vb s BReleaseAll =
     (let (r, q, w) = ut_event_buffer_queue_release_all code (Some (bc_queue s)) (bc_pools s)
      in (r, s\<lparr>bc_queue := the q, bc_pools := w\<rparr>))"
| "buf_step code vb s (BRead i off n) =
     (let (r, d, w) = ut_event_buffer_message_read code (var_at vb s i) off (replicate n 0) n (bc_pools s)
      in (r, s\<lparr>bc_pools := w\<rparr>))"

fun buf_run :: "'w pool_code \<Rightarrow> ptr \<Rightarrow> 'w buffer_client \<Rightarrow> buf_call list \<Rightarrow> 'w buffer_client" where
  "buf_run code vb s [] = s"
| "buf_run code vb s (c # cs) = buf_run code vb (snd (buf_step code vb s c)) cs"

text \<open>The pools under observation: every successful allocation and release is written down.\<close>

datatype pool_event = Allocated ptr ut_event_buffer_handle | Freed ptr ut_event_buffer_handle

definition observed :: "'w pool_code \<Rightarrow> ('w \<times> pool_event list) pool_code" where
  "observed code =
     \<lparr>pc_alloc = (\<lambda>f c n (w, log). let (r, h, w') = pc_alloc code f c n w
        in (r, h, (w', if r = UT_EVENT_OK then log @ [Allocated c h] else log))),
      pc_free = (\<lambda>f c h (w, log). let (r, w') = pc_free code f c h w
        in (r, (w', if r = UT_EVENT_OK then log @ [Freed c h] else log))),
      pc_write = (\<lambda>f c h off bs (w, log). let (r, w') = pc_write code f c h off bs w in (r, (w', log))),
      pc_read = (\<lambda>f c h off n (w, log). let (r, bs, w') = pc_read code f c h off n w in (r, bs, (w', log)))\<rparr>"

definition allocated :: "pool_event list \<Rightarrow> (ptr \<times> ut_event_buffer_handle) multiset" where
  "allocated log = mset (concat (map (\<lambda>e. case e of Allocated c h \<Rightarrow> [(c, h)] | Freed c h \<Rightarrow> []) log))"

definition freed :: "pool_event list \<Rightarrow> (ptr \<times> ut_event_buffer_handle) multiset" where
  "freed log = mset (concat (map (\<lambda>e. case e of Freed c h \<Rightarrow> [(c, h)] | Allocated c h \<Rightarrow> []) log))"

text \<open>The handles owned by the variables and by the queue.\<close>

definition handle_in :: "ut_event_buffer_ref \<Rightarrow> ptr \<times> ut_event_buffer_handle" where
  "handle_in r = (bp_context (the (br_pool r)), br_handle r)"

definition held :: "'w buffer_client \<Rightarrow> (ptr \<times> ut_event_buffer_handle) multiset" where
  "held s = mset (map (handle_in \<circ> bm_buffer_ref) (filter bm_owns_handle (bc_vars s)))
     + mset (map (handle_in \<circ> snd \<circ> snd) (buffer_items (bc_queue s)))"

definition client_wf :: "ptr \<Rightarrow> 'w buffer_client \<Rightarrow> bool" where
  "client_wf vb s \<longleftrightarrow> buffer_queue_wf (bc_queue s) \<and>
     (\<forall>i<length (bc_vars s). bm_owns_handle (bc_vars s ! i) \<longrightarrow> message_is_owned (var_at vb s i))"

text \<open>What freeing a list of envelopes in order does: it stops at the first failure and keeps the rest.\<close>

fun free_all :: "'w pool_code \<Rightarrow> envelope list \<Rightarrow> 'w \<Rightarrow> ut_event_result \<times> envelope list \<times> 'w" where
  "free_all code [] w = (UT_EVENT_OK, [], w)"
| "free_all code (e # es) w =
     (let r = snd (snd e); p = the (br_pool r);
          (result, w1) = pc_free code (bp_free p) (bp_context p) (br_handle r) w
      in if result \<noteq> UT_EVENT_OK then (result, e # es, w1) else free_all code es w1)"

lemma message_at_fields [simp]:
  "bm_buffer_ref (message_at a e) = snd (snd e)" "bm_owns_handle (message_at a e)"
  by (simp_all add: message_at_def split_def)

lemma release_owned:
  "envelope_ok e \<Longrightarrow> ut_event_buffer_message_release code (Some (a, message_at a e)) w =
    (let r = snd (snd e); p = the (br_pool r);
         (result, w1) = pc_free code (bp_free p) (bp_context p) (br_handle r) w
     in (result, Some (a, if result = UT_EVENT_OK then zero_message else message_at a e), w1))"
  by (auto simp: ut_event_buffer_message_release_def Let_def split: prod.splits)

lemma bq_storage_self: "q\<lparr>bq_storage := bq_storage q\<rparr> = q"
  by simp

lemma release_all_free_all:
  "buffer_queue_wf q \<Longrightarrow> \<exists>Q r w'. ut_event_buffer_queue_release_all code (Some q) w = (r, Some Q, w') \<and>
    buffer_queue_wf Q \<and> bq_capacity Q = bq_capacity q \<and> free_all code (buffer_items q) w = (r, buffer_items Q, w')"
proof (induction "buffer_items q" arbitrary: q w)
  case Nil
  then have "bq_count q = 0" by (metis length_buffer_items list.size(3))
  then have "ut_event_buffer_queue_release_all code (Some q) w = (UT_EVENT_OK, Some q, w)"
    using buffer_queue_valid [OF Nil.prems] by (subst ut_event_buffer_queue_release_all.simps) simp
  with Nil show ?case by (metis free_all.simps(1))
next
  case (Cons e es)
  note it = Cons.hyps(2) [symmetric]
  let ?p = "the (br_pool (snd (snd e)))"
  note d = drop_head(1-3) [OF Cons.prems it, of zero_message] drop_head(4-6) [OF Cons.prems it]
  obtain r w1 where fr: "pc_free code (bp_free ?p) (bp_context ?p) (br_handle (snd (snd e))) w = (r, w1)"
    by fastforce
  have "bq_head q < bq_capacity q" using Cons.prems by (simp add: buffer_queue_wf_def)
  then have sz: "size_add (bq_head q) 1 = bq_head q + 1" using buffer_capacity [OF Cons.prems] by simp
  note unf = ut_event_buffer_queue_release_all.simps [of code "Some q" w]
  show ?case
  proof (cases "r = UT_EVENT_OK")
    case False
    have same: "q\<lparr>bq_storage := (bq_storage q)[bq_head q := message_at (slot_address q (bq_head q)) e]\<rparr> = q"
      using d(5) by (metis list_update_id bq_storage_self)
    have "ut_event_buffer_queue_release_all code (Some q) w = (r, Some q, w1)"
      using buffer_queue_valid [OF Cons.prems] d(4) False fr same
      by (simp add: unf d(5) release_owned [OF d(6)] Let_def)
    with False fr it Cons.prems show ?thesis by (simp add: Let_def)
  next
    case True
    let ?q = "q\<lparr>bq_storage := (bq_storage q)[bq_head q := zero_message],
      bq_head := (bq_head q + 1) mod bq_capacity q, bq_count := bq_count q - 1\<rparr>"
    have "ut_event_buffer_queue_release_all code (Some q) w = ut_event_buffer_queue_release_all code (Some ?q) w1"
      using buffer_queue_valid [OF Cons.prems] d(4) True fr sz
      by (subst unf) (simp add: d(5) release_owned [OF d(6)] Let_def)
    moreover from Cons.hyps(1) [OF d(2) [symmetric] d(1)] obtain Q R w' where
      "ut_event_buffer_queue_release_all code (Some ?q) w1 = (R, Some Q, w')" "buffer_queue_wf Q"
      "bq_capacity Q = bq_capacity ?q" "free_all code (buffer_items ?q) w1 = (R, buffer_items Q, w')" by blast
    ultimately show ?thesis using True fr it d(2,3) by (auto simp: Let_def)
  qed
qed

section \<open>Every allocated handle is freed or held\<close>

text \<open>What the pools promise for the rollback of a failed copy: a handle that was just allocated, and
  whose first write failed, can be freed.\<close>

definition rollback_frees :: "'w pool_code \<Rightarrow> bool" where
  "rollback_frees code \<longleftrightarrow> (\<forall>fa fw ff c n bs w h w1 r w2.
     pc_alloc code fa c n w = (UT_EVENT_OK, h, w1) \<longrightarrow> pc_write code fw c h 0 bs w1 = (r, w2) \<longrightarrow>
     r \<noteq> UT_EVENT_OK \<longrightarrow> fst (pc_free code ff c h w2) = UT_EVENT_OK)"

definition freed_event :: "envelope \<Rightarrow> pool_event" where
  "freed_event e = (case handle_in (snd (snd e)) of (c, h) \<Rightarrow> Freed c h)"

definition handles_owned :: "ut_event_buffer_message list \<Rightarrow> (ptr \<times> ut_event_buffer_handle) multiset" where
  "handles_owned ms = mset (map (handle_in \<circ> bm_buffer_ref) (filter bm_owns_handle ms))"

definition balanced :: "('w \<times> pool_event list) buffer_client \<Rightarrow> bool" where
  "balanced s \<longleftrightarrow> allocated (snd (bc_pools s)) = freed (snd (bc_pools s)) + held s"

lemma log_counts [simp]:
  "allocated (l @ m) = allocated l + allocated m" "freed (l @ m) = freed l + freed m"
  "allocated [Allocated c h] = {#(c, h)#}" "freed [Allocated c h] = {#}"
  "allocated [Freed c h] = {#}" "freed [Freed c h] = {#(c, h)#}"
  by (simp_all add: allocated_def freed_def)

lemma log_freed [simp]:
  "allocated (map freed_event es) = {#}" "freed (map freed_event es) = mset (map (handle_in \<circ> snd \<circ> snd) es)"
  by (induction es) (auto simp: allocated_def freed_def freed_event_def split: prod.splits)

lemma handles_update:
  "i < length ms \<Longrightarrow> handles_owned (ms[i := m]) + (if bm_owns_handle (ms ! i) then {#handle_in (bm_buffer_ref (ms ! i))#} else {#})
     = handles_owned ms + (if bm_owns_handle m then {#handle_in (bm_buffer_ref m)#} else {#})"
proof (induction ms arbitrary: i)
  case Nil
  then show ?case by simp
next
  case (Cons x ms)
  show ?case
  proof (cases i)
    case 0
    then show ?thesis by (simp add: handles_owned_def)
  next
    case (Suc k)
    with Cons.prems have "k < length ms" by simp
    from Cons.IH [OF this] Suc show ?thesis by (auto simp: handles_owned_def split: if_splits)
  qed
qed

lemma handles_gain:
  "i < length ms \<Longrightarrow> \<not> bm_owns_handle (ms ! i) \<Longrightarrow> bm_owns_handle m \<Longrightarrow>
    handles_owned (ms[i := m]) = add_mset (handle_in (bm_buffer_ref m)) (handles_owned ms)"
  using handles_update [of i ms m] by simp

lemma handles_lose:
  "i < length ms \<Longrightarrow> bm_owns_handle (ms ! i) \<Longrightarrow> \<not> bm_owns_handle m \<Longrightarrow>
    handles_owned ms = add_mset (handle_in (bm_buffer_ref (ms ! i))) (handles_owned (ms[i := m]))"
  using handles_update [of i ms m] by simp

lemma held_split: "held s = handles_owned (bc_vars s) + mset (map (handle_in \<circ> snd \<circ> snd) (buffer_items (bc_queue s)))"
  by (simp add: held_def handles_owned_def)

lemma observed_fields:
  "pc_alloc (observed code) f c n (w, l) = (let (r, h, w') = pc_alloc code f c n w
     in (r, h, (w', if r = UT_EVENT_OK then l @ [Allocated c h] else l)))"
  "pc_free (observed code) f c k (w, l) = (let (r, w') = pc_free code f c k w
     in (r, (w', if r = UT_EVENT_OK then l @ [Freed c k] else l)))"
  "pc_write (observed code) f c k off bs (w, l) = (let (r, w') = pc_write code f c k off bs w in (r, (w', l)))"
  "pc_read (observed code) f c k off n (w, l) = (let (r, xs, w') = pc_read code f c k off n w in (r, xs, (w', l)))"
  by (simp_all add: observed_def)

lemma free_all_observed:
  "free_all (observed code) es (w, l) = (r, rest, (w', l')) \<Longrightarrow>
    \<exists>gone. es = gone @ rest \<and> l' = l @ map freed_event gone \<and> (r = UT_EVENT_OK \<longleftrightarrow> rest = [])"
proof (induction es arbitrary: w l)
  case Nil
  then show ?case by simp
next
  case (Cons e es)
  let ?p = "the (br_pool (snd (snd e)))"
  obtain r1 w1 where fr: "pc_free code (bp_free ?p) (bp_context ?p) (br_handle (snd (snd e))) w = (r1, w1)" by fastforce
  show ?case
  proof (cases "r1 = UT_EVENT_OK")
    case True
    then have "free_all (observed code) es (w1, l @ [freed_event e]) = (r, rest, (w', l'))"
      using Cons.prems fr by (simp add: observed_fields Let_def freed_event_def handle_in_def)
    from Cons.IH [OF this] obtain gone where
      "es = gone @ rest" "l' = (l @ [freed_event e]) @ map freed_event gone" "r = UT_EVENT_OK \<longleftrightarrow> rest = []" by blast
    then have "e # es = (e # gone) @ rest \<and> l' = l @ map freed_event (e # gone) \<and> (r = UT_EVENT_OK \<longleftrightarrow> rest = [])"
      by simp
    then show ?thesis by blast
  next
    case False
    with Cons.prems fr show ?thesis by (simp add: observed_fields Let_def) blast
  qed
qed

lemma client_wf_var:
  "client_wf vb s \<Longrightarrow> i < length (bc_vars s) \<Longrightarrow> bm_owns_handle m \<longrightarrow> message_is_owned (Some (vb + i * sizeof_message, m)) \<Longrightarrow>
    client_wf vb (s\<lparr>bc_vars := (bc_vars s)[i := m]\<rparr>)"
  by (auto simp: client_wf_def var_at_def nth_list_update)

lemma client_wf_pools [simp]: "client_wf vb (s\<lparr>bc_pools := w\<rparr>) \<longleftrightarrow> client_wf vb s"
  by (simp add: client_wf_def var_at_def)

lemma client_wf_queue:
  "client_wf vb s \<Longrightarrow> buffer_queue_wf q \<Longrightarrow> client_wf vb (s\<lparr>bc_queue := q\<rparr>)"
  by (simp add: client_wf_def var_at_def)

lemma client_owned:
  "client_wf vb s \<Longrightarrow> var_at vb s i = Some (a, m) \<Longrightarrow> bm_owns_handle m \<Longrightarrow> message_is_owned (Some (a, m))"
  by (auto simp: client_wf_def var_at_def split: if_splits)

lemma var_atD: "var_at vb s i = Some (a, m) \<Longrightarrow> i < length (bc_vars s) \<and> a = vb + i * sizeof_message \<and> m = bc_vars s ! i"
  by (simp add: var_at_def split: if_splits)

lemma set_var_same [simp]: "var_at vb s i = v \<Longrightarrow> set_var i v s = s"
  by (auto simp: set_var_def var_at_def)

lemma set_var_pools [simp]: "var_at vb s i = v \<Longrightarrow> set_var i v (s\<lparr>bc_pools := w\<rparr>) = s\<lparr>bc_pools := w\<rparr>"
  by (auto simp: set_var_def var_at_def)

lemma create_balanced:
  assumes wf: "client_wf vb s" and bal: "balanced s" and roll: "rollback_frees code"
  shows "client_wf vb (snd (buf_step (observed code) vb s (BCreate i p e src bs)))
    \<and> balanced (snd (buf_step (observed code) vb s (BCreate i p e src bs)))"
proof (cases "var_at vb s i = None \<or> bm_owns_handle (snd (the (var_at vb s i))) \<or> \<not> pool_is_valid (Some p) \<or> bs = []")
  case True
  then show ?thesis using wf bal by (auto simp: ut_event_buffer_message_create_copy_def)
next
  case False
  then obtain a m where v: "var_at vb s i = Some (a, m)" and m: "\<not> bm_owns_handle m" and pv: "pool_is_valid (Some p)"
    and bs: "bs \<noteq> []" by auto
  note at = var_atD [OF v]
  obtain w l where sw: "bc_pools s = (w, l)" by fastforce
  obtain r h w1 where al: "pc_alloc code (bp_alloc p) (bp_context p) (length bs) w = (r, h, w1)"
    by (cases "pc_alloc code (bp_alloc p) (bp_context p) (length bs) w") auto
  obtain r2 w2 where wr: "pc_write code (bp_write p) (bp_context p) h 0 bs w1 = (r2, w2)" by fastforce
  obtain r3 w3 where fr: "pc_free code (bp_free p) (bp_context p) h w2 = (r3, w3)" by fastforce
  note step = ut_event_buffer_message_create_copy_def sw v m pv bs al wr observed_fields Let_def
  consider "r \<noteq> UT_EVENT_OK" | "r = UT_EVENT_OK" "r2 \<noteq> UT_EVENT_OK" | "r = UT_EVENT_OK" "r2 = UT_EVENT_OK" by blast
  then show ?thesis
  proof cases
    case 1
    then have "snd (buf_step (observed code) vb s (BCreate i p e src bs)) = s\<lparr>bc_pools := (w1, l)\<rparr>"
      by (simp add: step set_var_pools [OF v])
    with wf bal sw show ?thesis by (simp add: balanced_def held_def)
  next
    case 2
    then have "r3 = UT_EVENT_OK" using roll al wr fr unfolding rollback_frees_def by (metis fst_conv)
    with 2 have "snd (buf_step (observed code) vb s (BCreate i p e src bs))
        = s\<lparr>bc_pools := (w3, (l @ [Allocated (bp_context p) h]) @ [Freed (bp_context p) h])\<rparr>"
      using fr by (simp add: step set_var_pools [OF v])
    with wf bal sw show ?thesis by (simp add: balanced_def held_def del: append_assoc)
  next
    case 3
    let ?m = "message_at a (e, src, \<lparr>br_pool = Some p, br_handle = h, br_length = length bs\<rparr>)"
    have s': "snd (buf_step (observed code) vb s (BCreate i p e src bs))
        = (s\<lparr>bc_pools := (w2, l @ [Allocated (bp_context p) h])\<rparr>)\<lparr>bc_vars := (bc_vars s)[i := ?m]\<rparr>"
      using 3 by (simp add: step set_var_def message_at_def)
    have "message_is_owned (Some (a, ?m))" using pv by (simp add: envelope_ok_def)
    then have "client_wf vb (snd (buf_step (observed code) vb s (BCreate i p e src bs)))"
      unfolding s' using client_wf_var [of vb "s\<lparr>bc_pools := (w2, l @ [Allocated (bp_context p) h])\<rparr>" i ?m] wf at by simp
    moreover have "handles_owned ((bc_vars s)[i := ?m]) = add_mset (bp_context p, h) (handles_owned (bc_vars s))"
      using handles_gain [of i "bc_vars s" ?m] at m by (simp add: handle_in_def)
    ultimately show ?thesis using bal sw unfolding s' by (simp add: balanced_def held_split)
  qed
qed

lemma release_balanced:
  assumes wf: "client_wf vb s" and bal: "balanced s"
  shows "client_wf vb (snd (buf_step (observed code) vb s (BRelease i)))
    \<and> balanced (snd (buf_step (observed code) vb s (BRelease i)))"
proof (cases "message_is_owned (var_at vb s i)")
  case False
  then show ?thesis using wf bal by (auto simp: ut_event_buffer_message_release_def)
next
  case True
  then obtain a m where v: "var_at vb s i = Some (a, m)" by (auto simp: message_is_owned_def split: option.splits)
  note at = var_atD [OF v]
  obtain w l where sw: "bc_pools s = (w, l)" by fastforce
  let ?e = "envelope_of m" and ?p = "the (br_pool (bm_buffer_ref m))"
  have own: "m = message_at a ?e" "envelope_ok ?e" using True v by (simp_all add: owned_iff)
  have ref: "snd (snd ?e) = bm_buffer_ref m" by (simp add: envelope_of_def)
  have owns: "bm_owns_handle m" using True v by (simp add: message_is_owned_def)
  obtain r w1 where fr: "pc_free code (bp_free ?p) (bp_context ?p) (br_handle (bm_buffer_ref m)) w = (r, w1)" by fastforce
  have rel: "ut_event_buffer_message_release (observed code) (Some (a, m)) (w, l) =
      (r, Some (a, if r = UT_EVENT_OK then zero_message else m),
       (w1, if r = UT_EVENT_OK then l @ [Freed (bp_context ?p) (br_handle (bm_buffer_ref m))] else l))"
    using release_owned [OF own(2), of "observed code" a "(w, l)"] fr own(1) ref
    by (simp add: observed_fields Let_def flip: own(1))
  show ?thesis
  proof (cases "r = UT_EVENT_OK")
    case False
    then have "snd (buf_step (observed code) vb s (BRelease i)) = s\<lparr>bc_pools := (w1, l)\<rparr>"
      using rel v sw by (simp add: set_var_pools [OF v])
    with wf bal sw show ?thesis by (simp add: balanced_def held_def)
  next
    case True
    let ?l = "l @ [Freed (bp_context ?p) (br_handle (bm_buffer_ref m))]"
    have s': "snd (buf_step (observed code) vb s (BRelease i))
        = (s\<lparr>bc_pools := (w1, ?l)\<rparr>)\<lparr>bc_vars := (bc_vars s)[i := zero_message]\<rparr>"
      using rel v sw True by (simp add: set_var_def)
    have "client_wf vb (snd (buf_step (observed code) vb s (BRelease i)))"
      unfolding s' using client_wf_var [of vb "s\<lparr>bc_pools := (w1, ?l)\<rparr>" i zero_message] wf at by simp
    moreover have "handles_owned (bc_vars s)
        = add_mset (bp_context ?p, br_handle (bm_buffer_ref m)) (handles_owned ((bc_vars s)[i := zero_message]))"
      using handles_lose [of i "bc_vars s" zero_message] at owns by (simp add: handle_in_def)
    ultimately show ?thesis using bal sw unfolding s' by (simp add: balanced_def held_split)
  qed
qed

lemma push_balanced:
  assumes wf: "client_wf vb s" and bal: "balanced s"
  shows "client_wf vb (snd (buf_step code vb s (BPush i))) \<and> balanced (snd (buf_step code vb s (BPush i)))"
proof (cases "message_is_owned (var_at vb s i) \<and> bq_count (bc_queue s) < bq_capacity (bc_queue s)")
  case False
  have q: "buffer_queue_wf (bc_queue s)" using wf by (simp add: client_wf_def)
  then have "bq_count (bc_queue s) \<le> bq_capacity (bc_queue s)" by (simp add: buffer_queue_wf_def)
  then have "snd (buf_step code vb s (BPush i)) = s"
    using False by (auto simp: ut_event_buffer_queue_push_move_def)
  with wf bal show ?thesis by simp
next
  case True
  then obtain a m where v: "var_at vb s i = Some (a, m)" by (auto simp: message_is_owned_def split: option.splits)
  have q: "buffer_queue_wf (bc_queue s)" using wf by (simp add: client_wf_def)
  have own: "message_is_owned (Some (a, m))" using True v by simp
  obtain q' where push: "ut_event_buffer_queue_push_move (Some (bc_queue s)) (Some (a, m)) = (UT_EVENT_OK, Some q', Some (a, zero_message))"
    "buffer_queue_wf q'" "buffer_items q' = buffer_items (bc_queue s) @ [envelope_of m]"
    using push_move_ok [OF q _ own] True by blast
  note at = var_atD [OF v]
  have s': "snd (buf_step code vb s (BPush i)) = (s\<lparr>bc_queue := q'\<rparr>)\<lparr>bc_vars := (bc_vars s)[i := zero_message]\<rparr>"
    using push(1) v by (simp add: set_var_def)
  have "client_wf vb (snd (buf_step code vb s (BPush i)))"
    unfolding s' using client_wf_var [of vb "s\<lparr>bc_queue := q'\<rparr>" i zero_message] client_wf_queue [OF wf push(2)] at by simp
  moreover have "handles_owned (bc_vars s) = add_mset (handle_in (bm_buffer_ref m)) (handles_owned ((bc_vars s)[i := zero_message]))"
    using handles_lose [of i "bc_vars s" zero_message] at own by (simp add: message_is_owned_def)
  ultimately show ?thesis using bal push(3) unfolding s' by (simp add: balanced_def held_split envelope_of_def)
qed

lemma pop_balanced:
  assumes wf: "client_wf vb s" and bal: "balanced s"
  shows "client_wf vb (snd (buf_step code vb s (BPop i))) \<and> balanced (snd (buf_step code vb s (BPop i)))"
proof -
  have q: "buffer_queue_wf (bc_queue s)" using wf by (simp add: client_wf_def)
  show ?thesis
  proof (cases "var_at vb s i = None \<or> bm_owns_handle (snd (the (var_at vb s i))) \<or> buffer_items (bc_queue s) = []")
    case True
    then have "snd (buf_step code vb s (BPop i)) = s"
      by (auto simp: ut_event_buffer_queue_pop_move_def buffer_queue_valid [OF q] split_beta simp flip: length_0_conv)
    with wf bal show ?thesis by simp
  next
    case False
    then obtain a m e es where v: "var_at vb s i = Some (a, m)" and m: "\<not> bm_owns_handle m"
      and it: "buffer_items (bc_queue s) = e # es" by (auto simp: neq_Nil_conv)
    obtain q' where pop: "ut_event_buffer_queue_pop_move (Some (bc_queue s)) (Some (a, m)) = (UT_EVENT_OK, Some q', Some (a, message_at a e))"
      "buffer_queue_wf q'" "buffer_items q' = es" "envelope_ok e"
      using pop_move_ok [OF q it m] by blast
    note at = var_atD [OF v]
    have s': "snd (buf_step code vb s (BPop i)) = (s\<lparr>bc_queue := q'\<rparr>)\<lparr>bc_vars := (bc_vars s)[i := message_at a e]\<rparr>"
      using pop(1) v by (simp add: set_var_def)
    have "client_wf vb (snd (buf_step code vb s (BPop i)))"
      unfolding s' using client_wf_var [of vb "s\<lparr>bc_queue := q'\<rparr>" i "message_at a e"] client_wf_queue [OF wf pop(2)] at pop(4) by simp
    moreover have "handles_owned ((bc_vars s)[i := message_at a e]) = add_mset (handle_in (snd (snd e))) (handles_owned (bc_vars s))"
      using handles_gain [of i "bc_vars s" "message_at a e"] at m by simp
    ultimately show ?thesis using bal it pop(3) unfolding s' by (simp add: balanced_def held_split)
  qed
qed

lemma release_all_balanced:
  assumes wf: "client_wf vb s" and bal: "balanced s"
  shows "client_wf vb (snd (buf_step (observed code) vb s BReleaseAll)) \<and> balanced (snd (buf_step (observed code) vb s BReleaseAll))"
proof -
  have q: "buffer_queue_wf (bc_queue s)" using wf by (simp add: client_wf_def)
  obtain w l where sw: "bc_pools s = (w, l)" by fastforce
  obtain Q r w' l' where ra: "ut_event_buffer_queue_release_all (observed code) (Some (bc_queue s)) (w, l) = (r, Some Q, (w', l'))"
    "buffer_queue_wf Q" "free_all (observed code) (buffer_items (bc_queue s)) (w, l) = (r, buffer_items Q, (w', l'))"
    using release_all_free_all [OF q, of "observed code" "(w, l)"] by fastforce
  from free_all_observed [OF ra(3)] obtain gone where
    g: "buffer_items (bc_queue s) = gone @ buffer_items Q" "l' = l @ map freed_event gone" by blast
  have s': "snd (buf_step (observed code) vb s BReleaseAll) = (s\<lparr>bc_queue := Q\<rparr>)\<lparr>bc_pools := (w', l')\<rparr>"
    using ra(1) sw by simp
  show ?thesis using client_wf_queue [OF wf ra(2)] bal sw g unfolding s' by (simp add: balanced_def held_split)
qed

lemma read_balanced:
  assumes wf: "client_wf vb s" and bal: "balanced s"
  shows "client_wf vb (snd (buf_step (observed code) vb s (BRead i off n)))
    \<and> balanced (snd (buf_step (observed code) vb s (BRead i off n)))"
proof -
  obtain w l where sw: "bc_pools s = (w, l)" by fastforce
  have "snd (snd (snd (ut_event_buffer_message_read (observed code) (var_at vb s i) off (replicate n 0) n (w, l)))) = l"
    by (simp add: ut_event_buffer_message_read_def observed_fields Let_def split_beta)
  then obtain r d w' where rd: "ut_event_buffer_message_read (observed code) (var_at vb s i) off (replicate n 0) n (w, l) = (r, d, (w', l))"
    by (metis prod.exhaust_sel)
  then have "snd (buf_step (observed code) vb s (BRead i off n)) = s\<lparr>bc_pools := (w', l)\<rparr>" by (simp add: sw)
  with wf bal sw show ?thesis by (auto simp: balanced_def held_def)
qed

lemma buf_step_balanced:
  "client_wf vb s \<Longrightarrow> balanced s \<Longrightarrow> rollback_frees code \<Longrightarrow>
    client_wf vb (snd (buf_step (observed code) vb s c)) \<and> balanced (snd (buf_step (observed code) vb s c))"
  by (cases c) (simp_all only: create_balanced release_balanced push_balanced pop_balanced release_all_balanced read_balanced simp_thms)

lemma buf_run_balanced:
  "client_wf vb s \<Longrightarrow> balanced s \<Longrightarrow> rollback_frees code \<Longrightarrow>
    client_wf vb (buf_run (observed code) vb s cs) \<and> balanced (buf_run (observed code) vb s cs)"
proof (induction cs arbitrary: s)
  case Nil
  then show ?case by simp
next
  case (Cons c cs)
  note st = buf_step_balanced [OF Cons.prems, of c]
  show ?case
    unfolding buf_run.simps by (rule Cons.IH [OF conjunct1 [OF st] conjunct2 [OF st] Cons.prems(3)])
qed

lemma buffer_queue_init_wf:
  assumes "ut_event_buffer_queue_init (Some q0) base storage (length storage) = (UT_EVENT_OK, Some q)"
  shows "buffer_queue_wf q" "buffer_items q = []"
  using assms by (auto simp: ut_event_buffer_queue_init_def buffer_queue_wf_def buffer_items_def split: if_splits)

section \<open>Properties\<close>

text \<open>Property C14. Start with unowned envelopes and a freshly initialised queue, and make any sequence of
  create, release, push, pop, release-all and read calls. If a pool frees a handle whose first write
  failed, then at every moment each handle the pools have handed out has either been freed once or is
  owned exactly once, by a variable or by a slot of the queue: no handle leaks, is freed twice or is
  owned twice.\<close>

theorem every_handle_freed_or_held:
  assumes "ut_event_buffer_queue_init (Some q0) base storage (length storage) = (UT_EVENT_OK, Some q)"
    and "\<forall>m\<in>set vars. \<not> bm_owns_handle m" and "rollback_frees code"
    and "s = buf_run (observed code) vb \<lparr>bc_vars = vars, bc_queue = q, bc_pools = (w, [])\<rparr> calls"
  shows "allocated (snd (bc_pools s)) = freed (snd (bc_pools s)) + held s"
proof -
  let ?s0 = "\<lparr>bc_vars = vars, bc_queue = q, bc_pools = (w, [] :: pool_event list)\<rparr>"
  note q = buffer_queue_init_wf [OF assms(1)]
  have "client_wf vb ?s0" using q assms(2) by (simp add: client_wf_def)
  moreover have "filter bm_owns_handle vars = []" using assms(2) by (simp add: filter_empty_conv)
  then have "balanced ?s0" using q by (simp add: balanced_def held_def allocated_def freed_def)
  ultimately have "balanced (buf_run (observed code) vb ?s0 calls)"
    using buf_run_balanced [OF _ _ assms(3), of vb ?s0 calls] by simp
  then show ?thesis by (simp add: balanced_def assms(4))
qed

text \<open>A pool that numbers its handles and never fails, and its table.\<close>

definition counting_pool :: "nat pool_code" where
  "counting_pool =
     \<lparr>pc_alloc = (\<lambda>f c n w. (UT_EVENT_OK, of_nat w, w + 1)), pc_free = (\<lambda>f c h w. (UT_EVENT_OK, w)),
      pc_write = (\<lambda>f c h off bs w. (UT_EVENT_OK, w)), pc_read = (\<lambda>f c h off n w. (UT_EVENT_OK, replicate n 0, w))\<rparr>"

definition counting_table :: ut_event_buffer_pool where
  "counting_table = \<lparr>bp_context = 7, bp_alloc = 1, bp_free = 2, bp_write = 3, bp_read = 4\<rparr>"

definition empty_buffer_queue :: ut_event_buffer_queue where
  "empty_buffer_queue = \<lparr>bq_storage = [zero_message, zero_message], bq_base = 512, bq_capacity = 2,
     bq_head = 0, bq_tail = 0, bq_count = 0\<rparr>"

theorem every_handle_freed_or_held_witness:
  "let s = buf_run (observed counting_pool) 64
             \<lparr>bc_vars = [zero_message, zero_message], bc_queue = empty_buffer_queue, bc_pools = (0, [])\<rparr>
             [BCreate 0 counting_table 5 6 [1, 2], BPush 0, BPop 1]
   in allocated (snd (bc_pools s)) = freed (snd (bc_pools s)) + held s"
  unfolding Let_def
  by (rule every_handle_freed_or_held [where ?q0.0 = empty_buffer_queue and base = 512
        and storage = "[zero_message, zero_message]" and q = empty_buffer_queue, OF _ _ _ refl])
    (simp_all add: ut_event_buffer_queue_init_def empty_buffer_queue_def size_max_def sizeof_message_def
      rollback_frees_def counting_pool_def flip: replicate_two)

text \<open>Releasing a whole queue frees the envelopes oldest first, one free each and nothing else,
  until the first free that fails: the envelopes from that one on are still in the queue, in order, and
  owned, so the call can be repeated; it answers OK exactly when the queue is empty.\<close>

theorem release_all_frees_oldest_first:
  assumes "buffer_queue_wf q"
    and "ut_event_buffer_queue_release_all (observed code) (Some q) (w, log) = (r, q', (w', log'))"
  shows "\<exists>Q gone. q' = Some Q \<and> buffer_queue_wf Q \<and> bq_capacity Q = bq_capacity q \<and>
    buffer_items q = gone @ buffer_items Q \<and> log' = log @ map freed_event gone \<and>
    (r = UT_EVENT_OK \<longleftrightarrow> ut_event_buffer_queue_count q' = 0)"
proof -
  obtain Q where Q: "q' = Some Q" "buffer_queue_wf Q" "bq_capacity Q = bq_capacity q"
    and fa: "free_all (observed code) (buffer_items q) (w, log) = (r, buffer_items Q, (w', log'))"
    using release_all_free_all [OF assms(1), of "observed code" "(w, log)"] assms(2) by auto
  have "ut_event_buffer_queue_count q' = 0 \<longleftrightarrow> buffer_items Q = []"
    using Q buffer_queue_valid [OF Q(2)] by (simp add: ut_event_buffer_queue_count_def flip: length_0_conv)
  with free_all_observed [OF fa] Q show ?thesis by auto
qed

theorem release_all_frees_oldest_first_witness:
  "\<exists>Q gone. Some empty_buffer_queue = Some Q \<and> buffer_queue_wf Q \<and> bq_capacity Q = bq_capacity empty_buffer_queue \<and>
    buffer_items empty_buffer_queue = gone @ buffer_items Q \<and> ([] :: pool_event list) = [] @ map freed_event gone \<and>
    (UT_EVENT_OK = UT_EVENT_OK \<longleftrightarrow> ut_event_buffer_queue_count (Some empty_buffer_queue) = 0)"
  by (rule release_all_frees_oldest_first [where code = counting_pool and w = 0 and w' = 0])
    (simp_all add: ut_event_buffer_queue_release_all.simps queue_is_valid_def empty_buffer_queue_def
      buffer_queue_wf_def size_max_def sizeof_message_def)

text \<open>Moving envelopes through the queue keeps their order and their identity: over any
  run of pushes of owned envelopes and pops, what was queued followed by what was accepted is what was
  handed out followed by what is still queued, and every envelope handed out owns a valid handle.\<close>

theorem buffer_queue_conserves_envelopes:
  assumes "buffer_queue_wf q" and "fifo_run buffer_enq buffer_deq q calls = (obs, q')"
  shows "live_items q @ taken_in calls obs = handed_out obs @ live_items q' \<and> buffer_queue_wf q' \<and>
    bq_capacity q' = bq_capacity q"
  using bufq.run_conserves [OF assms] bufq.run_refines [OF assms] by blast

theorem buffer_queue_conserves_envelopes_witness:
  "live_items empty_buffer_queue @ taken_in [Deq] [Nothing] = handed_out [Nothing] @ live_items empty_buffer_queue \<and>
    buffer_queue_wf empty_buffer_queue \<and> bq_capacity empty_buffer_queue = bq_capacity empty_buffer_queue"
  by (rule buffer_queue_conserves_envelopes)
    (simp_all add: buffer_deq_def ut_event_buffer_queue_pop_move_def queue_is_valid_def empty_buffer_queue_def
      buffer_queue_wf_def size_max_def sizeof_message_def)

end
