(* ===== verification/Byte_Codec.thy ===== *)
theory Byte_Codec
  imports Foundation_Prelude
begin

text \<open>
  The bounded byte reader and writer (\<open>utility_byte_reader.c\<close>, \<open>utility_byte_writer.c\<close>). A buffer is
  the list of its bytes, \<open>[]\<close> being NULL as well as an empty buffer: the code allows NULL exactly for
  size 0, where it touches no byte.
\<close>

unbundle bit_operations_syntax

type_synonym u16 = "16 word"

datatype ut_byte_result = UT_BYTE_OK | UT_BYTE_INVALID_ARGUMENT | UT_BYTE_OUT_OF_BOUNDS

record ut_byte_reader =
  r_data :: "u8 list"
  r_size :: nat
  r_offset :: nat

record ut_byte_writer =
  w_data :: "u8 list"
  w_size :: nat
  w_offset :: nat

section \<open>Reader\<close>

text \<open>The last component is the contents of \<open>*value\<close>.\<close>

definition read_integer ::
    "ut_byte_reader option \<Rightarrow> nat \<Rightarrow> bool \<Rightarrow> u64 \<Rightarrow> ut_byte_result \<times> ut_byte_reader option \<times> u64" where
  "read_integer reader width little_endian value =
     (if reader = None \<or> r_data (the reader) = [] \<and> r_size (the reader) \<noteq> 0 \<or>
         r_size (the reader) < r_offset (the reader)
      then (UT_BYTE_INVALID_ARGUMENT, reader, value)
      else let r = the reader in
        if size_sub (r_size r) (r_offset r) < width then (UT_BYTE_OUT_OF_BOUNDS, reader, value)
        else
          let result = foldl (\<lambda>result index.
                let source = (if little_endian then width - index - 1 else index)
                in push_bit 8 result OR ucast (r_data r ! (r_offset r + source))) 0 [0..<width]
          in (UT_BYTE_OK, Some (r\<lparr>r_offset := size_add (r_offset r) width\<rparr>), result))"

definition ut_byte_reader_init ::
    "ut_byte_reader option \<Rightarrow> u8 list \<Rightarrow> nat \<Rightarrow> ut_byte_result \<times> ut_byte_reader option" where
  "ut_byte_reader_init reader data len =
     (if reader = None \<or> data = [] \<and> len \<noteq> 0 then (UT_BYTE_INVALID_ARGUMENT, reader)
      else (UT_BYTE_OK, Some \<lparr>r_data = data, r_size = len, r_offset = 0\<rparr>))"

definition ut_byte_reader_remaining :: "ut_byte_reader option \<Rightarrow> nat" where
  "ut_byte_reader_remaining reader =
     (if reader = None \<or> r_size (the reader) < r_offset (the reader) \<or>
         r_data (the reader) = [] \<and> r_size (the reader) \<noteq> 0
      then 0 else size_sub (r_size (the reader)) (r_offset (the reader)))"

text \<open>
  \<open>read_checked\<close> is given \<open>None\<close> when the caller's output pointer is NULL; its third result is the
  \<open>uint64_t\<close> it wrote.
\<close>

definition read_checked ::
    "ut_byte_reader option \<Rightarrow> nat \<Rightarrow> bool \<Rightarrow> u64 option \<Rightarrow> ut_byte_result \<times> ut_byte_reader option \<times> u64 option" where
  "read_checked reader width little_endian value =
     (case value of
        None \<Rightarrow> (UT_BYTE_INVALID_ARGUMENT, reader, None)
      | Some v \<Rightarrow> let (result, reader', v') = read_integer reader width little_endian v
                  in (result, reader', Some v'))"

definition ut_byte_read_u8 ::
    "ut_byte_reader option \<Rightarrow> u8 option \<Rightarrow> ut_byte_result \<times> ut_byte_reader option \<times> u8 option" where
  "ut_byte_read_u8 reader value =
     (if value = None then (UT_BYTE_INVALID_ARGUMENT, reader, None)
      else let (result, reader', v) = read_integer reader 1 False 0
           in (result, reader', if result = UT_BYTE_OK then Some (ucast v) else value))"

text \<open>The body the four 16 and 32 bit reads have, with their cast back to the width of the value.\<close>

definition read_narrow ::
    "nat \<Rightarrow> bool \<Rightarrow> ut_byte_reader option \<Rightarrow> 'a::len word option \<Rightarrow>
     ut_byte_result \<times> ut_byte_reader option \<times> 'a word option" where
  "read_narrow width little_endian reader value =
     (let (status, reader', result) =
            read_checked reader width little_endian (if value = None then None else Some 0)
      in (status, reader', if status = UT_BYTE_OK then Some (ucast (the result)) else value))"

definition ut_byte_read_be_u16 ::
    "ut_byte_reader option \<Rightarrow> u16 option \<Rightarrow> ut_byte_result \<times> ut_byte_reader option \<times> u16 option" where
  "ut_byte_read_be_u16 = read_narrow 2 False"

definition ut_byte_read_le_u16 ::
    "ut_byte_reader option \<Rightarrow> u16 option \<Rightarrow> ut_byte_result \<times> ut_byte_reader option \<times> u16 option" where
  "ut_byte_read_le_u16 = read_narrow 2 True"

definition ut_byte_read_be_u32 ::
    "ut_byte_reader option \<Rightarrow> u32 option \<Rightarrow> ut_byte_result \<times> ut_byte_reader option \<times> u32 option" where
  "ut_byte_read_be_u32 = read_narrow 4 False"

definition ut_byte_read_le_u32 ::
    "ut_byte_reader option \<Rightarrow> u32 option \<Rightarrow> ut_byte_result \<times> ut_byte_reader option \<times> u32 option" where
  "ut_byte_read_le_u32 = read_narrow 4 True"

definition ut_byte_read_be_u64 ::
    "ut_byte_reader option \<Rightarrow> u64 option \<Rightarrow> ut_byte_result \<times> ut_byte_reader option \<times> u64 option" where
  "ut_byte_read_be_u64 reader value = read_checked reader 8 False value"

definition ut_byte_read_le_u64 ::
    "ut_byte_reader option \<Rightarrow> u64 option \<Rightarrow> ut_byte_result \<times> ut_byte_reader option \<times> u64 option" where
  "ut_byte_read_le_u64 reader value = read_checked reader 8 True value"

section \<open>Writer\<close>

text \<open>One round of the loop of \<open>write_integer\<close> on the buffer and the shifted value.\<close>

definition store_byte :: "nat \<Rightarrow> nat \<Rightarrow> bool \<Rightarrow> u8 list \<times> u64 \<Rightarrow> nat \<Rightarrow> u8 list \<times> u64" where
  "store_byte offset width little_endian = (\<lambda>(data, value) index.
     let target = (if little_endian then index else width - index - 1)
     in (data[offset + target := ucast value], drop_bit 8 value))"

definition write_integer ::
    "ut_byte_writer option \<Rightarrow> u64 \<Rightarrow> nat \<Rightarrow> bool \<Rightarrow> ut_byte_result \<times> ut_byte_writer option" where
  "write_integer writer value width little_endian =
     (if writer = None \<or> w_data (the writer) = [] \<and> w_size (the writer) \<noteq> 0 \<or>
         w_size (the writer) < w_offset (the writer)
      then (UT_BYTE_INVALID_ARGUMENT, writer)
      else let w = the writer in
        if size_sub (w_size w) (w_offset w) < width then (UT_BYTE_OUT_OF_BOUNDS, writer)
        else
          let (data, _) = foldl (store_byte (w_offset w) width little_endian) (w_data w, value) [0..<width]
          in (UT_BYTE_OK, Some (w\<lparr>w_data := data, w_offset := size_add (w_offset w) width\<rparr>)))"

definition ut_byte_writer_init ::
    "ut_byte_writer option \<Rightarrow> u8 list \<Rightarrow> nat \<Rightarrow> ut_byte_result \<times> ut_byte_writer option" where
  "ut_byte_writer_init writer data len =
     (if writer = None \<or> data = [] \<and> len \<noteq> 0 then (UT_BYTE_INVALID_ARGUMENT, writer)
      else (UT_BYTE_OK, Some \<lparr>w_data = data, w_size = len, w_offset = 0\<rparr>))"

definition ut_byte_writer_remaining :: "ut_byte_writer option \<Rightarrow> nat" where
  "ut_byte_writer_remaining writer =
     (if writer = None \<or> w_size (the writer) < w_offset (the writer) \<or>
         w_data (the writer) = [] \<and> w_size (the writer) \<noteq> 0
      then 0 else size_sub (w_size (the writer)) (w_offset (the writer)))"

definition ut_byte_write_u8 :: "ut_byte_writer option \<Rightarrow> u8 \<Rightarrow> ut_byte_result \<times> ut_byte_writer option" where
  "ut_byte_write_u8 writer value = write_integer writer (ucast value) 1 False"

definition ut_byte_write_be_u16 :: "ut_byte_writer option \<Rightarrow> u16 \<Rightarrow> ut_byte_result \<times> ut_byte_writer option" where
  "ut_byte_write_be_u16 writer value = write_integer writer (ucast value) 2 False"

definition ut_byte_write_le_u16 :: "ut_byte_writer option \<Rightarrow> u16 \<Rightarrow> ut_byte_result \<times> ut_byte_writer option" where
  "ut_byte_write_le_u16 writer value = write_integer writer (ucast value) 2 True"

definition ut_byte_write_be_u32 :: "ut_byte_writer option \<Rightarrow> u32 \<Rightarrow> ut_byte_result \<times> ut_byte_writer option" where
  "ut_byte_write_be_u32 writer value = write_integer writer (ucast value) 4 False"

definition ut_byte_write_le_u32 :: "ut_byte_writer option \<Rightarrow> u32 \<Rightarrow> ut_byte_result \<times> ut_byte_writer option" where
  "ut_byte_write_le_u32 writer value = write_integer writer (ucast value) 4 True"

definition ut_byte_write_be_u64 :: "ut_byte_writer option \<Rightarrow> u64 \<Rightarrow> ut_byte_result \<times> ut_byte_writer option" where
  "ut_byte_write_be_u64 writer value = write_integer writer value 8 False"

definition ut_byte_write_le_u64 :: "ut_byte_writer option \<Rightarrow> u64 \<Rightarrow> ut_byte_result \<times> ut_byte_writer option" where
  "ut_byte_write_le_u64 writer value = write_integer writer value 8 True"

section \<open>The byte layout of an integer\<close>

text \<open>The bytes of a value, least significant first, and the layout in a given byte order.\<close>

definition bytes_of :: "nat \<Rightarrow> u64 \<Rightarrow> u8 list" where
  "bytes_of width value = map (\<lambda>i. ucast (drop_bit (8 * i) value)) [0..<width]"

definition layout :: "bool \<Rightarrow> nat \<Rightarrow> u64 \<Rightarrow> u8 list" where
  "layout little_endian width value =
     (if little_endian then bytes_of width value else rev (bytes_of width value))"

text \<open>The value big-endian bytes stand for.\<close>

definition be_value :: "u8 list \<Rightarrow> u64" where
  "be_value bytes = foldl (\<lambda>v b. push_bit 8 v OR ucast b) 0 bytes"

definition value_of :: "bool \<Rightarrow> u8 list \<Rightarrow> u64" where
  "value_of little_endian bytes = be_value (if little_endian then rev bytes else bytes)"

lemma length_layout [simp]: "length (layout le n v) = n"
  by (simp add: layout_def bytes_of_def)

lemma bytes_of_Suc: "bytes_of (Suc n) v = ucast v # bytes_of n (drop_bit 8 v)"
  by (simp add: bytes_of_def upt_conv_Cons add.commute del: upt_Suc flip: map_Suc_upt)

lemma take_bit_split: "push_bit 8 (take_bit n (drop_bit 8 v)) OR ucast (ucast v :: u8) = take_bit (8 + n) (v :: u64)"
  by (rule bit_eqI) (auto simp: bit_simps less_diff_conv2)

lemma be_value_rev_bytes_of: "be_value (rev (bytes_of n v)) = take_bit (8 * n) v"
proof (induction n arbitrary: v)
  case 0
  then show ?case by (simp add: be_value_def bytes_of_def)
next
  case (Suc n)
  have "be_value (rev (bytes_of (Suc n) v)) = push_bit 8 (take_bit (8 * n) (drop_bit 8 v)) OR ucast (ucast v :: u8)"
    using Suc [of "drop_bit 8 v"] by (simp add: bytes_of_Suc be_value_def)
  then show ?case by (simp only: take_bit_split) simp
qed

lemma value_of_layout: "value_of le (layout le n v) = take_bit (8 * n) v"
  by (simp add: value_of_def layout_def be_value_rev_bytes_of)

section \<open>What one access does\<close>

definition reader_wf :: "ut_byte_reader \<Rightarrow> bool" where
  "reader_wf r \<longleftrightarrow> r_offset r \<le> r_size r \<and> r_size r \<le> length (r_data r) \<and> r_size r \<le> size_max"

definition writer_wf :: "ut_byte_writer \<Rightarrow> bool" where
  "writer_wf w \<longleftrightarrow> w_offset w \<le> w_size w \<and> w_size w \<le> length (w_data w) \<and> w_size w \<le> size_max"

lemma slice_nth: "off + n \<le> length xs \<Longrightarrow> map (\<lambda>i. xs ! (off + i)) [0..<n] = take n (drop off xs)"
  by (rule nth_equalityI) auto

lemma slice_nth_rev:
  "off + n \<le> length xs \<Longrightarrow> map (\<lambda>i. xs ! (off + (n - Suc i))) [0..<n] = rev (take n (drop off xs))"
  by (rule nth_equalityI) (auto simp: rev_nth)

lemma read_integer_wf:
  assumes "reader_wf r"
  shows "read_integer (Some r) n le v =
    (if r_offset r + n \<le> r_size r
     then (UT_BYTE_OK, Some (r\<lparr>r_offset := r_offset r + n\<rparr>), value_of le (take n (drop (r_offset r) (r_data r))))
     else (UT_BYTE_OUT_OF_BOUNDS, Some r, v))"
proof -
  have sub: "size_sub (r_size r) (r_offset r) = r_size r - r_offset r" using assms by (simp add: reader_wf_def)
  have valid: "\<not> (r_data r = [] \<and> r_size r \<noteq> 0)" "\<not> r_size r < r_offset r" using assms by (auto simp: reader_wf_def)
  show ?thesis
  proof (cases "r_offset r + n \<le> r_size r")
    case True
    let ?xs = "r_data r" and ?off = "r_offset r"
    have fit: "?off + n \<le> length ?xs" "?off + n \<le> size_max" using True assms by (auto simp: reader_wf_def)
    have loop: "foldl (\<lambda>v i. push_bit 8 v OR ucast (?xs ! (?off + (if le then n - i - 1 else i)))) 0 [0..<n]
        = value_of le (take n (drop ?off ?xs))"
    proof (cases le)
      case True
      then show ?thesis by (simp add: value_of_def be_value_def foldl_map flip: slice_nth_rev [OF fit(1)])
    next
      case False
      then show ?thesis by (simp add: value_of_def be_value_def foldl_map flip: slice_nth [OF fit(1)])
    qed
    then show ?thesis
      using True fit valid sub by (simp add: read_integer_def Let_def)
  next
    case False
    then show ?thesis using valid sub by (auto simp: read_integer_def Let_def)
  qed
qed

lemma bytes_of_snoc: "bytes_of (Suc n) v = bytes_of n v @ [ucast (drop_bit (8 * n) v)]"
  by (simp add: bytes_of_def)

lemma length_bytes_of [simp]: "length (bytes_of n v) = n"
  by (simp add: bytes_of_def)

lemma store_little:
  "off + n \<le> length d \<Longrightarrow> m \<le> n \<Longrightarrow>
    foldl (store_byte off n True) (d, v) [0..<m] = (take off d @ bytes_of m v @ drop (off + m) d, drop_bit (8 * m) v)"
proof (induction m)
  case 0
  then show ?case by (simp add: bytes_of_def)
next
  case (Suc m)
  then have "drop (off + m) d = d ! (off + m) # drop (Suc (off + m)) d" by (simp add: Cons_nth_drop_Suc)
  with Suc show ?case by (simp add: store_byte_def bytes_of_snoc list_update_append add.commute)
qed

lemma store_big:
  "off + n \<le> length d \<Longrightarrow> m \<le> n \<Longrightarrow>
    foldl (store_byte off n False) (d, v) [0..<m]
      = (take (off + n - m) d @ rev (bytes_of m v) @ drop (off + n) d, drop_bit (8 * m) v)"
proof (induction m)
  case 0
  then show ?case by (simp add: bytes_of_def)
next
  case (Suc m)
  define k where "k = off + n - Suc m"
  have k: "off + n - m = Suc k" "off + (n - m - 1) = k" "k < length d" using Suc.prems by (auto simp: k_def)
  have "take (Suc k) d = take k d @ [d ! k]" using k(3) by (simp add: take_Suc_conv_app_nth)
  with Suc k k_def show ?case
    by (simp add: store_byte_def bytes_of_snoc list_update_append add.commute)
qed

lemma write_integer_wf:
  assumes "writer_wf w"
  shows "write_integer (Some w) v n le =
    (if w_offset w + n \<le> w_size w
     then (UT_BYTE_OK, Some (w\<lparr>w_data := take (w_offset w) (w_data w) @ layout le n v @ drop (w_offset w + n) (w_data w),
             w_offset := w_offset w + n\<rparr>))
     else (UT_BYTE_OUT_OF_BOUNDS, Some w))"
proof -
  have sub: "size_sub (w_size w) (w_offset w) = w_size w - w_offset w" using assms by (simp add: writer_wf_def)
  have valid: "\<not> (w_data w = [] \<and> w_size w \<noteq> 0)" "\<not> w_size w < w_offset w" using assms by (auto simp: writer_wf_def)
  show ?thesis
  proof (cases "w_offset w + n \<le> w_size w")
    case True
    have fit: "w_offset w + n \<le> length (w_data w)" "w_offset w + n \<le> size_max" using True assms by (auto simp: writer_wf_def)
    show ?thesis
      using True fit(2) valid sub store_little [OF fit(1) le_refl, of v] store_big [OF fit(1) le_refl, of v]
      by (cases le) (simp_all add: write_integer_def Let_def layout_def)
  next
    case False
    then show ?thesis using valid sub by (auto simp: write_integer_def Let_def)
  qed
qed

section \<open>Records of fields\<close>

text \<open>A protocol record is a list of typed fields; the flag of a field says whether it is little-endian.\<close>

datatype field = U8 u8 | U16 bool u16 | U32 bool u32 | U64 bool u64

datatype shape = S8 | S16 bool | S32 bool | S64 bool

primrec shape_of :: "field \<Rightarrow> shape" where
  "shape_of (U8 v) = S8"
| "shape_of (U16 le v) = S16 le"
| "shape_of (U32 le v) = S32 le"
| "shape_of (U64 le v) = S64 le"

primrec width :: "shape \<Rightarrow> nat" where
  "width S8 = 1"
| "width (S16 le) = 2"
| "width (S32 le) = 4"
| "width (S64 le) = 8"

primrec write_field :: "field \<Rightarrow> ut_byte_writer option \<Rightarrow> ut_byte_result \<times> ut_byte_writer option" where
  "write_field (U8 v) w = ut_byte_write_u8 w v"
| "write_field (U16 le v) w = (if le then ut_byte_write_le_u16 w v else ut_byte_write_be_u16 w v)"
| "write_field (U32 le v) w = (if le then ut_byte_write_le_u32 w v else ut_byte_write_be_u32 w v)"
| "write_field (U64 le v) w = (if le then ut_byte_write_le_u64 w v else ut_byte_write_be_u64 w v)"

text \<open>A read into a zeroed variable; the variable's contents count only after \<open>UT_BYTE_OK\<close>.\<close>

definition got :: "('a \<Rightarrow> field) \<Rightarrow> ut_byte_result \<times> ut_byte_reader option \<times> 'a option \<Rightarrow>
    (ut_byte_result \<times> field option) \<times> ut_byte_reader option" where
  "got mk = (\<lambda>(result, r, v). ((result, if result = UT_BYTE_OK then map_option mk v else None), r))"

primrec read_field :: "shape \<Rightarrow> ut_byte_reader option \<Rightarrow>
    (ut_byte_result \<times> field option) \<times> ut_byte_reader option" where
  "read_field S8 r = got U8 (ut_byte_read_u8 r (Some 0))"
| "read_field (S16 le) r = got (U16 le) (if le then ut_byte_read_le_u16 r (Some 0) else ut_byte_read_be_u16 r (Some 0))"
| "read_field (S32 le) r = got (U32 le) (if le then ut_byte_read_le_u32 r (Some 0) else ut_byte_read_be_u32 r (Some 0))"
| "read_field (S64 le) r = got (U64 le) (if le then ut_byte_read_le_u64 r (Some 0) else ut_byte_read_be_u64 r (Some 0))"

fun write_all :: "field list \<Rightarrow> ut_byte_writer option \<Rightarrow> ut_byte_result list \<times> ut_byte_writer option" where
  "write_all [] w = ([], w)"
| "write_all (f # fs) w = (let (r, w1) = write_field f w; (rs, w2) = write_all fs w1 in (r # rs, w2))"

fun read_all :: "shape list \<Rightarrow> ut_byte_reader option \<Rightarrow>
    (ut_byte_result \<times> field option) list \<times> ut_byte_reader option" where
  "read_all [] r = ([], r)"
| "read_all (s # ss) r = (let (o1, r1) = read_field s r; (os, r2) = read_all ss r1 in (o1 # os, r2))"

text \<open>The bytes of a field and the field some bytes stand for.\<close>

primrec encode :: "field \<Rightarrow> u8 list" where
  "encode (U8 v) = [v]"
| "encode (U16 le v) = layout le 2 (ucast v)"
| "encode (U32 le v) = layout le 4 (ucast v)"
| "encode (U64 le v) = layout le 8 v"

primrec decode :: "shape \<Rightarrow> u8 list \<Rightarrow> field" where
  "decode S8 bs = U8 (hd bs)"
| "decode (S16 le) bs = U16 le (ucast (value_of le bs))"
| "decode (S32 le) bs = U32 le (ucast (value_of le bs))"
| "decode (S64 le) bs = U64 le (value_of le bs)"

lemma length_encode [simp]: "length (encode f) = width (shape_of f)"
  by (cases f) simp_all

lemma ucast_take_bit:
  "LENGTH('a::len) \<le> n \<Longrightarrow> LENGTH('a) \<le> 64 \<Longrightarrow> ucast (take_bit n (ucast v :: u64)) = (v :: 'a word)"
  by (rule bit_eqI) (auto simp: bit_simps)

lemma decode_encode [simp]: "decode (shape_of f) (encode f) = f"
proof (cases f)
  case (U64 le v)
  have "take_bit 64 v = v" by (rule bit_eqI) (simp add: bit_simps)
  with U64 show ?thesis by (simp add: value_of_layout)
qed (simp_all add: value_of_layout ucast_take_bit)

lemma ucast_ucast_byte: "ucast (ucast (v :: u8) :: u64) = v"
  by (rule bit_eqI) (auto simp: bit_simps)

lemma layout_one: "layout le 1 v = [ucast v]"
  by (simp add: layout_def bytes_of_def)

lemma write_field_wf:
  assumes "writer_wf w"
  shows "write_field f (Some w) =
    (if w_offset w + width (shape_of f) \<le> w_size w
     then (UT_BYTE_OK, Some (w\<lparr>w_data := take (w_offset w) (w_data w) @ encode f @ drop (w_offset w + width (shape_of f)) (w_data w),
             w_offset := w_offset w + width (shape_of f)\<rparr>))
     else (UT_BYTE_OUT_OF_BOUNDS, Some w))"
  by (cases f) (simp_all add: write_integer_wf [OF assms] ut_byte_write_u8_def ut_byte_write_be_u16_def
      ut_byte_write_le_u16_def ut_byte_write_be_u32_def ut_byte_write_le_u32_def ut_byte_write_be_u64_def
      ut_byte_write_le_u64_def layout_one [simplified] ucast_ucast_byte)

lemma value_of_one: "length bs = 1 \<Longrightarrow> ucast (value_of le bs) = hd bs"
  by (cases bs) (auto simp: value_of_def be_value_def bit_simps intro!: bit_eqI)

lemma read_field_wf:
  assumes "reader_wf r"
  shows "read_field s (Some r) =
    (if r_offset r + width s \<le> r_size r
     then ((UT_BYTE_OK, Some (decode s (take (width s) (drop (r_offset r) (r_data r))))), Some (r\<lparr>r_offset := r_offset r + width s\<rparr>))
     else ((UT_BYTE_OUT_OF_BOUNDS, None), Some r))"
proof -
  have "length (take 1 (drop (r_offset r) (r_data r))) = 1" if "r_offset r < r_size r"
    using that assms by (auto simp: reader_wf_def min_def)
  note one = value_of_one [OF this]
  show ?thesis
    using one
    by (cases s) (simp_all add: read_integer_wf [OF assms] got_def read_narrow_def read_checked_def ut_byte_read_u8_def
      ut_byte_read_be_u16_def ut_byte_read_le_u16_def ut_byte_read_be_u32_def ut_byte_read_le_u32_def
      ut_byte_read_be_u64_def ut_byte_read_le_u64_def)
qed

section \<open>Appending and parsing\<close>

text \<open>
  What the accesses come to on the remaining room and the remaining bytes: a write that fits appends the
  bytes of its field, one that does not is refused; a read takes the bytes of its shape off the front.
\<close>

fun accepted :: "nat \<Rightarrow> field list \<Rightarrow> field list" where
  "accepted room [] = []"
| "accepted room (f # fs) =
     (if width (shape_of f) \<le> room then f # accepted (room - width (shape_of f)) fs else accepted room fs)"

fun verdicts :: "nat \<Rightarrow> field list \<Rightarrow> ut_byte_result list" where
  "verdicts room [] = []"
| "verdicts room (f # fs) =
     (if width (shape_of f) \<le> room then UT_BYTE_OK # verdicts (room - width (shape_of f)) fs
      else UT_BYTE_OUT_OF_BOUNDS # verdicts room fs)"

definition encoded :: "field list \<Rightarrow> u8 list" where
  "encoded fs = concat (map encode fs)"

fun parse :: "shape list \<Rightarrow> u8 list \<Rightarrow> (ut_byte_result \<times> field option) list \<times> u8 list" where
  "parse [] bs = ([], bs)"
| "parse (s # ss) bs =
     (if width s \<le> length bs
      then let (os, rest) = parse ss (drop (width s) bs)
           in ((UT_BYTE_OK, Some (decode s (take (width s) bs))) # os, rest)
      else let (os, rest) = parse ss bs in ((UT_BYTE_OUT_OF_BOUNDS, None) # os, rest))"

definition unread :: "ut_byte_reader \<Rightarrow> u8 list" where
  "unread r = drop (r_offset r) (take (r_size r) (r_data r))"

lemma length_unread: "reader_wf r \<Longrightarrow> length (unread r) = r_size r - r_offset r"
  by (auto simp: reader_wf_def unread_def)

lemma encoded_simps [simp]:
  "encoded [] = []" "encoded (f # fs) = encode f @ encoded fs"
  by (simp_all add: encoded_def)

lemma read_all_parses:
  "reader_wf r \<Longrightarrow> \<exists>r'. read_all ss (Some r) = (fst (parse ss (unread r)), Some r') \<and> reader_wf r' \<and>
    unread r' = snd (parse ss (unread r))"
proof (induction ss arbitrary: r)
  case Nil
  then show ?case by simp
next
  case (Cons s ss)
  show ?case
  proof (cases "r_offset r + width s \<le> r_size r")
    case True
    let ?r = "r\<lparr>r_offset := r_offset r + width s\<rparr>"
    have wf: "reader_wf ?r" using Cons.prems True by (simp add: reader_wf_def)
    have un: "unread ?r = drop (width s) (unread r)" by (simp add: unread_def add.commute)
    have "take (width s) (drop (r_offset r) (r_data r)) = take (width s) (unread r)"
      using True by (simp add: unread_def drop_take min_def)
    moreover have "width s \<le> length (unread r)" using True length_unread [OF Cons.prems] by simp
    ultimately show ?thesis
      using Cons.IH [OF wf] read_field_wf [OF Cons.prems, of s] True un by (auto split: prod.splits)
  next
    case False
    then have "\<not> width s \<le> length (unread r)"
      using length_unread [OF Cons.prems] Cons.prems by (auto simp: reader_wf_def)
    then show ?thesis
      using Cons.IH [OF Cons.prems] read_field_wf [OF Cons.prems, of s] False by (auto split: prod.splits)
  qed
qed

lemma parse_encoded: "parse (map shape_of fs) (encoded fs @ bs) = (map (\<lambda>f. (UT_BYTE_OK, Some f)) fs, bs)"
  by (induction fs) simp_all

lemma write_all_appends:
  "writer_wf w \<Longrightarrow> \<exists>w'. write_all fs (Some w) = (verdicts (w_size w - w_offset w) fs, Some w') \<and> writer_wf w' \<and>
    w_size w' = w_size w \<and> w_offset w' = w_offset w + length (encoded (accepted (w_size w - w_offset w) fs)) \<and>
    w_data w' = take (w_offset w) (w_data w) @ encoded (accepted (w_size w - w_offset w) fs) @ drop (w_offset w') (w_data w)"
proof (induction fs arbitrary: w)
  case Nil
  then show ?case by simp
next
  case (Cons f fs)
  let ?n = "width (shape_of f)"
  show ?case
  proof (cases "w_offset w + ?n \<le> w_size w")
    case True
    let ?w = "w\<lparr>w_data := take (w_offset w) (w_data w) @ encode f @ drop (w_offset w + ?n) (w_data w), w_offset := w_offset w + ?n\<rparr>"
    have len: "w_offset w + ?n \<le> length (w_data w)" using Cons.prems True by (simp add: writer_wf_def)
    then have wf: "writer_wf ?w" using Cons.prems True by (simp add: writer_wf_def)
    have room: "w_size ?w - w_offset ?w = w_size w - w_offset w - ?n" "?n \<le> w_size w - w_offset w" using True by simp_all
    have "take (w_offset ?w) (w_data ?w) = take (w_offset w) (w_data w) @ encode f" using len by simp
    moreover have "drop k (w_data ?w) = drop k (w_data w)" if "w_offset w + ?n \<le> k" for k
      using len that by simp
    ultimately show ?thesis
      using Cons.IH [OF wf] write_field_wf [OF Cons.prems, of f] True room by (auto simp: add.commute add.left_commute)
  next
    case False
    then have room: "\<not> ?n \<le> w_size w - w_offset w" using Cons.prems by (auto simp: writer_wf_def)
    from Cons.IH [OF Cons.prems] obtain w' where w': "write_all fs (Some w) = (verdicts (w_size w - w_offset w) fs, Some w')"
      "writer_wf w'" "w_size w' = w_size w"
      "w_offset w' = w_offset w + length (encoded (accepted (w_size w - w_offset w) fs))"
      "w_data w' = take (w_offset w) (w_data w) @ encoded (accepted (w_size w - w_offset w) fs) @ drop (w_offset w') (w_data w)"
      by blast
    with room write_field_wf [OF Cons.prems, of f] False show ?thesis by auto
  qed
qed

lemma accepted_all: "length (encoded fs) \<le> room \<Longrightarrow> accepted room fs = fs \<and> verdicts room fs = replicate (length fs) UT_BYTE_OK"
  by (induction fs arbitrary: room) simp_all

section \<open>Properties\<close>

text \<open>Property C18. Writing a record of fields of any widths and byte orders into a large enough buffer
  succeeds, puts exactly the bytes of the fields at its front and leaves the rest of the buffer; reading
  the same shapes back from those bytes gives the same fields and leaves nothing unread.\<close>

theorem byte_round_trip:
  assumes "data \<noteq> []" and "length data \<le> size_max" and "length (encoded fs) \<le> length data"
  shows "\<exists>w w' r r'. ut_byte_writer_init (Some w0) data (length data) = (UT_BYTE_OK, Some w) \<and>
    write_all fs (Some w) = (replicate (length fs) UT_BYTE_OK, Some w') \<and>
    w_data w' = encoded fs @ drop (length (encoded fs)) data \<and>
    ut_byte_reader_init (Some r0) (w_data w') (w_offset w') = (UT_BYTE_OK, Some r) \<and>
    read_all (map shape_of fs) (Some r) = (map (\<lambda>f. (UT_BYTE_OK, Some f)) fs, Some r') \<and>
    ut_byte_reader_remaining (Some r') = 0"
proof -
  let ?w = "\<lparr>w_data = data, w_size = length data, w_offset = 0\<rparr>"
  have wf: "writer_wf ?w" using assms(2) by (simp add: writer_wf_def)
  obtain w' where w': "write_all fs (Some ?w) = (replicate (length fs) UT_BYTE_OK, Some w')" "writer_wf w'"
      "w_offset w' = length (encoded fs)" "w_data w' = encoded fs @ drop (length (encoded fs)) data"
    using write_all_appends [OF wf, of fs] accepted_all [OF assms(3)] by auto
  let ?r = "\<lparr>r_data = w_data w', r_size = w_offset w', r_offset = 0\<rparr>"
  have rwf: "reader_wf ?r" using w'(2) by (simp add: reader_wf_def writer_wf_def)
  have "unread ?r = encoded fs @ []" using w' by (simp add: unread_def)
  then obtain r' where r': "read_all (map shape_of fs) (Some ?r) = (map (\<lambda>f. (UT_BYTE_OK, Some f)) fs, Some r')"
      "reader_wf r'" "unread r' = []"
    using read_all_parses [OF rwf, of "map shape_of fs"] parse_encoded [of fs "[]"] by auto
  have "r_size r' - r_offset r' = 0" using length_unread [OF r'(2)] r'(3) by simp
  then have "ut_byte_reader_remaining (Some r') = 0" using r'(2) by (simp add: ut_byte_reader_remaining_def reader_wf_def)
  moreover have "w_data w' \<noteq> [] \<or> w_offset w' = 0" using w'(3,4) by auto
  ultimately show ?thesis using assms(1) w' r' by (auto simp: ut_byte_writer_init_def ut_byte_reader_init_def)
qed

theorem byte_round_trip_witness:
  "let fs = [U8 7, U16 True 513, U32 False 16909060] in
   \<exists>w w' r r'. ut_byte_writer_init (Some \<lparr>w_data = [], w_size = 0, w_offset = 0\<rparr>) (replicate 8 0) 8 = (UT_BYTE_OK, Some w) \<and>
    write_all fs (Some w) = (replicate 3 UT_BYTE_OK, Some w') \<and>
    w_data w' = encoded fs @ drop 7 (replicate 8 0) \<and>
    ut_byte_reader_init (Some \<lparr>r_data = [], r_size = 0, r_offset = 0\<rparr>) (w_data w') (w_offset w') = (UT_BYTE_OK, Some r) \<and>
    read_all (map shape_of fs) (Some r) = (map (\<lambda>f. (UT_BYTE_OK, Some f)) fs, Some r') \<and>
    ut_byte_reader_remaining (Some r') = 0"
  using byte_round_trip [of "replicate 8 0" "[U8 7, U16 True 513, U32 False 16909060]"
      "\<lparr>w_data = [], w_size = 0, w_offset = 0\<rparr>" "\<lparr>r_data = [], r_size = 0, r_offset = 0\<rparr>"]
  by (simp add: size_max_def numeral_3_eq_3 del: write_all.simps read_all.simps)

text \<open>Property C31. A writer never leaves its buffer, whatever is written after whatever failed: each
  field that fits in the room left is stored in full, each other one is refused with OUT_OF_BOUNDS and
  changes nothing, so the buffer is the old prefix, the bytes of the accepted fields in order and the old
  suffix, and its size never changes.\<close>

theorem writer_appends_what_fits:
  assumes "writer_wf w"
  shows "\<exists>w'. write_all fs (Some w) = (verdicts (ut_byte_writer_remaining (Some w)) fs, Some w') \<and> writer_wf w' \<and>
    w_data w' = take (w_offset w) (w_data w) @ encoded (accepted (ut_byte_writer_remaining (Some w)) fs) @ drop (w_offset w') (w_data w) \<and>
    length (w_data w') = length (w_data w) \<and>
    ut_byte_writer_remaining (Some w') = ut_byte_writer_remaining (Some w) - length (encoded (accepted (ut_byte_writer_remaining (Some w)) fs))"
proof -
  have rem: "ut_byte_writer_remaining (Some v) = w_size v - w_offset v" if "writer_wf v" for v
    using that by (auto simp: ut_byte_writer_remaining_def writer_wf_def)
  from write_all_appends [OF assms, of fs] obtain w' where w':
    "write_all fs (Some w) = (verdicts (w_size w - w_offset w) fs, Some w')" "writer_wf w'" "w_size w' = w_size w"
    "w_offset w' = w_offset w + length (encoded (accepted (w_size w - w_offset w) fs))"
    "w_data w' = take (w_offset w) (w_data w) @ encoded (accepted (w_size w - w_offset w) fs) @ drop (w_offset w') (w_data w)"
    by blast
  have "length (w_data w') = length (w_data w)"
    using w'(2-4) assms unfolding w'(5) by (simp add: writer_wf_def)
  with w' rem [OF assms] rem [OF w'(2)] show ?thesis by auto
qed

theorem writer_appends_what_fits_witness:
  "\<exists>w'. write_all [U16 False 258, U64 True 1, U8 9] (Some \<lparr>w_data = [0, 0, 0, 0], w_size = 3, w_offset = 0\<rparr>)
     = (verdicts (ut_byte_writer_remaining (Some \<lparr>w_data = [0, 0, 0, 0], w_size = 3, w_offset = 0\<rparr>))
         [U16 False 258, U64 True 1, U8 9], Some w') \<and> writer_wf w'"
  using writer_appends_what_fits [of "\<lparr>w_data = [0, 0, 0, 0], w_size = 3, w_offset = 0\<rparr>" "[U16 False 258, U64 True 1, U8 9]"]
  unfolding writer_wf_def size_max_def by auto

text \<open>Property C32. A reader is a parser of its unread bytes: each read whose width is available takes
  exactly that many bytes off the front and decodes them in its byte order, each other read is refused
  with OUT_OF_BOUNDS and consumes nothing; bytes past the declared size are never looked at.\<close>

theorem reader_refines_parser:
  assumes "reader_wf r"
  shows "\<exists>r'. read_all shapes (Some r) = (fst (parse shapes (unread r)), Some r') \<and> reader_wf r' \<and>
    unread r' = snd (parse shapes (unread r)) \<and> ut_byte_reader_remaining (Some r') = length (unread r')"
proof -
  obtain r' where r': "read_all shapes (Some r) = (fst (parse shapes (unread r)), Some r')" "reader_wf r'"
      "unread r' = snd (parse shapes (unread r))"
    using read_all_parses [OF assms] by blast
  have "ut_byte_reader_remaining (Some r') = length (unread r')"
    using r'(2) length_unread [OF r'(2)] by (auto simp: ut_byte_reader_remaining_def reader_wf_def)
  with r' show ?thesis by blast
qed

theorem reader_refines_parser_witness:
  "\<exists>r'. read_all [S16 False, S32 True, S8] (Some \<lparr>r_data = [1, 2, 3, 4], r_size = 3, r_offset = 0\<rparr>)
     = (fst (parse [S16 False, S32 True, S8] (unread \<lparr>r_data = [1, 2, 3, 4], r_size = 3, r_offset = 0\<rparr>)), Some r') \<and>
    reader_wf r'"
  using reader_refines_parser [of "\<lparr>r_data = [1, 2, 3, 4], r_size = 3, r_offset = 0\<rparr>" "[S16 False, S32 True, S8]"]
  unfolding reader_wf_def size_max_def by auto

end
