(* ===== verification/Time_Core.thy ===== *)
theory Time_Core
  imports Foundation_Prelude "HOL-Library.Signed_Division" "HOL-Library.Monad_Syntax"
begin

text \<open>
  UTC timestamps and durations (\<open>utility_time.c\<close>). An \<open>int64_t\<close> is an \<open>int\<close>; an operation on
  \<open>int64_t\<close> values whose result C leaves undefined when it overflows goes through \<open>i64\<close>, which is
  \<open>None\<close> outside the 64-bit range. A function is therefore \<open>None\<close> exactly when some step of it would
  overflow, and showing that it is always \<open>Some\<close> is part of its correctness. \<open>sdiv\<close> and \<open>smod\<close> are
  C's division and remainder; the divisors are positive literals, so they cannot overflow.
\<close>

definition INT64_MAX :: int where
  "INT64_MAX = 9223372036854775807"

definition INT64_MIN :: int where
  "INT64_MIN = - 9223372036854775808"

definition in_i64 :: "int \<Rightarrow> bool" where
  "in_i64 x \<longleftrightarrow> INT64_MIN \<le> x \<and> x \<le> INT64_MAX"

definition i64 :: "int \<Rightarrow> int option" where
  "i64 x = (if in_i64 x then Some x else None)"

lemma i64_exact [simp]: "in_i64 x \<Longrightarrow> i64 x = Some x"
  by (simp add: i64_def)

lemmas int64_limits = in_i64_def INT64_MAX_def INT64_MIN_def

text \<open>The conversion of an integer to a 32-bit \<open>int\<close>, which the compilers in use wrap.\<close>

definition to_int32 :: "int \<Rightarrow> int" where
  "to_int32 x = (x + 2147483648) mod 4294967296 - 2147483648"

lemma to_int32_id: "- 2147483648 \<le> x \<Longrightarrow> x < 2147483648 \<Longrightarrow> to_int32 x = x"
  by (simp add: to_int32_def)

definition UT_TIME_NANOSECONDS_PER_SECOND :: u32 where
  "UT_TIME_NANOSECONDS_PER_SECOND = 1000000000"

datatype ut_time_result =
    UT_TIME_OK | UT_TIME_INVALID_ARGUMENT | UT_TIME_OUT_OF_RANGE | UT_TIME_BUFFER_TOO_SMALL

record ut_time_utc =
  utc_seconds :: int
  utc_nanosecond :: u32

record ut_time_duration =
  dur_seconds :: int
  dur_nanosecond :: u32

section \<open>Units\<close>

definition split_units :: "int \<Rightarrow> int \<Rightarrow> (int \<times> u32) option" where
  "split_units value units_per_second =
     (let quotient = value sdiv units_per_second;
          remainder = value smod units_per_second
      in if remainder < 0 then do {
           quotient' \<leftarrow> i64 (quotient - 1);
           remainder' \<leftarrow> i64 (remainder + units_per_second);
           Some (quotient', word_of_int remainder') }
         else Some (quotient, word_of_int remainder))"

definition to_units :: "int \<Rightarrow> u32 \<Rightarrow> int \<Rightarrow> u32 \<Rightarrow> int option \<Rightarrow> (ut_time_result \<times> int option) option" where
  "to_units seconds nanosecond units_per_second nanoseconds_per_unit value =
     (if value = None \<or> UT_TIME_NANOSECONDS_PER_SECOND \<le> nanosecond then Some (UT_TIME_INVALID_ARGUMENT, value)
      else let fraction = uint (nanosecond div nanoseconds_per_unit) in
        if INT64_MAX sdiv units_per_second < seconds \<or> seconds < INT64_MIN sdiv units_per_second
        then Some (UT_TIME_OUT_OF_RANGE, value)
        else if seconds = INT64_MAX sdiv units_per_second \<and> INT64_MAX smod units_per_second < fraction
        then Some (UT_TIME_OUT_OF_RANGE, value)
        else do {
          product \<leftarrow> i64 (seconds * units_per_second);
          v \<leftarrow> i64 (product + fraction);
          Some (UT_TIME_OK, Some v) })"

definition ut_time_utc_is_valid :: "ut_time_utc option \<Rightarrow> bool" where
  "ut_time_utc_is_valid utc =
     (utc \<noteq> None \<and> utc_nanosecond (the utc) < UT_TIME_NANOSECONDS_PER_SECOND)"

definition ut_time_duration_is_valid :: "ut_time_duration option \<Rightarrow> bool" where
  "ut_time_duration_is_valid duration =
     (duration \<noteq> None \<and> dur_nanosecond (the duration) < UT_TIME_NANOSECONDS_PER_SECOND)"

definition ut_time_utc_from_seconds :: "int \<Rightarrow> ut_time_utc option \<Rightarrow> ut_time_result \<times> ut_time_utc option" where
  "ut_time_utc_from_seconds value utc =
     (if utc = None then (UT_TIME_INVALID_ARGUMENT, None)
      else (UT_TIME_OK, Some \<lparr>utc_seconds = value, utc_nanosecond = 0\<rparr>))"

definition from_units ::
    "int \<Rightarrow> int \<Rightarrow> u32 \<Rightarrow> ut_time_utc option \<Rightarrow> (ut_time_result \<times> ut_time_utc option) option" where
  "from_units value units_per_second nanoseconds_per_unit utc =
     (if utc = None then Some (UT_TIME_INVALID_ARGUMENT, None)
      else do {
        (seconds, fraction) \<leftarrow> split_units value units_per_second;
        Some (UT_TIME_OK, Some \<lparr>utc_seconds = seconds, utc_nanosecond = fraction * nanoseconds_per_unit\<rparr>) })"

definition ut_time_utc_from_milliseconds ::
    "int \<Rightarrow> ut_time_utc option \<Rightarrow> (ut_time_result \<times> ut_time_utc option) option" where
  "ut_time_utc_from_milliseconds value utc = from_units value 1000 1000000 utc"

definition ut_time_utc_from_microseconds ::
    "int \<Rightarrow> ut_time_utc option \<Rightarrow> (ut_time_result \<times> ut_time_utc option) option" where
  "ut_time_utc_from_microseconds value utc = from_units value 1000000 1000 utc"

definition ut_time_utc_from_nanoseconds ::
    "int \<Rightarrow> ut_time_utc option \<Rightarrow> (ut_time_result \<times> ut_time_utc option) option" where
  "ut_time_utc_from_nanoseconds value utc = from_units value 1000000000 1 utc"

definition ut_time_utc_to_seconds :: "ut_time_utc option \<Rightarrow> int option \<Rightarrow> ut_time_result \<times> int option" where
  "ut_time_utc_to_seconds utc value =
     (if \<not> ut_time_utc_is_valid utc \<or> value = None then (UT_TIME_INVALID_ARGUMENT, value)
      else (UT_TIME_OK, Some (utc_seconds (the utc))))"

definition ut_time_utc_to_milliseconds ::
    "ut_time_utc option \<Rightarrow> int option \<Rightarrow> (ut_time_result \<times> int option) option" where
  "ut_time_utc_to_milliseconds utc value =
     (if \<not> ut_time_utc_is_valid utc then Some (UT_TIME_INVALID_ARGUMENT, value)
      else to_units (utc_seconds (the utc)) (utc_nanosecond (the utc)) 1000 1000000 value)"

definition ut_time_utc_to_microseconds ::
    "ut_time_utc option \<Rightarrow> int option \<Rightarrow> (ut_time_result \<times> int option) option" where
  "ut_time_utc_to_microseconds utc value =
     (if \<not> ut_time_utc_is_valid utc then Some (UT_TIME_INVALID_ARGUMENT, value)
      else to_units (utc_seconds (the utc)) (utc_nanosecond (the utc)) 1000000 1000 value)"

definition ut_time_utc_to_nanoseconds ::
    "ut_time_utc option \<Rightarrow> int option \<Rightarrow> (ut_time_result \<times> int option) option" where
  "ut_time_utc_to_nanoseconds utc value =
     (if \<not> ut_time_utc_is_valid utc then Some (UT_TIME_INVALID_ARGUMENT, value)
      else to_units (utc_seconds (the utc)) (utc_nanosecond (the utc)) 1000000000 1 value)"

definition ut_time_duration_from_nanoseconds ::
    "int \<Rightarrow> ut_time_duration option \<Rightarrow> (ut_time_result \<times> ut_time_duration option) option" where
  "ut_time_duration_from_nanoseconds value duration =
     (if duration = None then Some (UT_TIME_INVALID_ARGUMENT, None)
      else do {
        (seconds, nanosecond) \<leftarrow> split_units value 1000000000;
        Some (UT_TIME_OK, Some \<lparr>dur_seconds = seconds, dur_nanosecond = nanosecond\<rparr>) })"

definition ut_time_duration_to_nanoseconds ::
    "ut_time_duration option \<Rightarrow> int option \<Rightarrow> (ut_time_result \<times> int option) option" where
  "ut_time_duration_to_nanoseconds duration value =
     (if \<not> ut_time_duration_is_valid duration then Some (UT_TIME_INVALID_ARGUMENT, value)
      else to_units (dur_seconds (the duration)) (dur_nanosecond (the duration)) 1000000000 1 value)"

section \<open>Arithmetic\<close>

text \<open>\<open>*result\<close> is written only on success, so the helpers return its new value with the code.\<close>

definition add_normalized ::
    "int \<Rightarrow> u32 \<Rightarrow> int \<Rightarrow> u32 \<Rightarrow> (ut_time_result \<times> ut_time_utc option) option" where
  "add_normalized left_seconds left_nanosecond right_seconds right_nanosecond =
     (let nanosecond = ucast left_nanosecond + ucast right_nanosecond :: u64;
          carry = (if ucast UT_TIME_NANOSECONDS_PER_SECOND \<le> nanosecond then 1 else 0 :: u32);
          fraction = ucast (nanosecond mod ucast UT_TIME_NANOSECONDS_PER_SECOND) :: u32
      in if carry \<noteq> 0 \<and> right_seconds = INT64_MAX then
           if 0 \<le> left_seconds then Some (UT_TIME_OUT_OF_RANGE, None)
           else do {
             partial \<leftarrow> i64 (INT64_MAX + left_seconds);
             seconds \<leftarrow> i64 (partial + 1);
             Some (UT_TIME_OK, Some \<lparr>utc_seconds = seconds, utc_nanosecond = fraction\<rparr>) }
         else do {
           adjusted_right \<leftarrow> i64 (right_seconds + uint carry);
           upper \<leftarrow> (if 0 < adjusted_right then i64 (INT64_MAX - adjusted_right) else Some 0);
           lower \<leftarrow> (if adjusted_right < 0 then i64 (INT64_MIN - adjusted_right) else Some 0);
           (if 0 < adjusted_right \<and> upper < left_seconds \<or> adjusted_right < 0 \<and> left_seconds < lower
            then Some (UT_TIME_OUT_OF_RANGE, None)
            else do {
              seconds \<leftarrow> i64 (left_seconds + adjusted_right);
              Some (UT_TIME_OK, Some \<lparr>utc_seconds = seconds, utc_nanosecond = fraction\<rparr>) }) })"

definition subtract_seconds :: "int \<Rightarrow> int \<Rightarrow> u32 \<Rightarrow> (ut_time_result \<times> int option) option" where
  "subtract_seconds left right borrow =
     (if borrow \<noteq> 0 \<and> right = INT64_MAX then
        if left < 0 then Some (UT_TIME_OUT_OF_RANGE, None)
        else do { result \<leftarrow> i64 (INT64_MIN + left); Some (UT_TIME_OK, Some result) }
      else do {
        adjusted_right \<leftarrow> i64 (right + uint borrow);
        lower \<leftarrow> (if 0 < adjusted_right then i64 (INT64_MIN + adjusted_right) else Some 0);
        upper \<leftarrow> (if adjusted_right < 0 then i64 (INT64_MAX + adjusted_right) else Some 0);
        (if 0 < adjusted_right \<and> left < lower \<or> adjusted_right < 0 \<and> upper < left
         then Some (UT_TIME_OUT_OF_RANGE, None)
         else do { result \<leftarrow> i64 (left - adjusted_right); Some (UT_TIME_OK, Some result) }) })"

definition ut_time_utc_add ::
    "ut_time_utc option \<Rightarrow> ut_time_duration option \<Rightarrow> ut_time_utc option \<Rightarrow>
     (ut_time_result \<times> ut_time_utc option) option" where
  "ut_time_utc_add utc duration result =
     (if \<not> ut_time_utc_is_valid utc \<or> \<not> ut_time_duration_is_valid duration \<or> result = None
      then Some (UT_TIME_INVALID_ARGUMENT, result)
      else do {
        (status, temporary) \<leftarrow> add_normalized (utc_seconds (the utc)) (utc_nanosecond (the utc))
                                 (dur_seconds (the duration)) (dur_nanosecond (the duration));
        Some (status, if status = UT_TIME_OK then temporary else result) })"

definition borrowed_nanosecond :: "u32 \<Rightarrow> u32 \<Rightarrow> u32 \<Rightarrow> u32" where
  "borrowed_nanosecond borrow left right =
     (if borrow = 0 then left - right else UT_TIME_NANOSECONDS_PER_SECOND - (right - left))"

definition ut_time_utc_subtract ::
    "ut_time_utc option \<Rightarrow> ut_time_duration option \<Rightarrow> ut_time_utc option \<Rightarrow>
     (ut_time_result \<times> ut_time_utc option) option" where
  "ut_time_utc_subtract utc duration result =
     (if \<not> ut_time_utc_is_valid utc \<or> \<not> ut_time_duration_is_valid duration \<or> result = None
      then Some (UT_TIME_INVALID_ARGUMENT, result)
      else
        let u = the utc; d = the duration;
            borrow = (if utc_nanosecond u < dur_nanosecond d then 1 else 0)
        in do {
          (status, seconds) \<leftarrow> subtract_seconds (utc_seconds u) (dur_seconds d) borrow;
          Some (if status \<noteq> UT_TIME_OK then (status, result)
                else (UT_TIME_OK, Some \<lparr>utc_seconds = the seconds,
                  utc_nanosecond = borrowed_nanosecond borrow (utc_nanosecond u) (dur_nanosecond d)\<rparr>)) })"

definition ut_time_utc_difference ::
    "ut_time_utc option \<Rightarrow> ut_time_utc option \<Rightarrow> ut_time_duration option \<Rightarrow>
     (ut_time_result \<times> ut_time_duration option) option" where
  "ut_time_utc_difference end_time start result =
     (if \<not> ut_time_utc_is_valid end_time \<or> \<not> ut_time_utc_is_valid start \<or> result = None
      then Some (UT_TIME_INVALID_ARGUMENT, result)
      else
        let e = the end_time; s = the start;
            borrow = (if utc_nanosecond e < utc_nanosecond s then 1 else 0)
        in do {
          (status, seconds) \<leftarrow> subtract_seconds (utc_seconds e) (utc_seconds s) borrow;
          Some (if status \<noteq> UT_TIME_OK then (status, result)
                else (UT_TIME_OK, Some \<lparr>dur_seconds = the seconds,
                  dur_nanosecond = borrowed_nanosecond borrow (utc_nanosecond e) (utc_nanosecond s)\<rparr>)) })"

definition ut_time_utc_compare ::
    "ut_time_utc option \<Rightarrow> ut_time_utc option \<Rightarrow> int option \<Rightarrow> ut_time_result \<times> int option" where
  "ut_time_utc_compare left right order_out =
     (if \<not> ut_time_utc_is_valid left \<or> \<not> ut_time_utc_is_valid right \<or> order_out = None
      then (UT_TIME_INVALID_ARGUMENT, order_out)
      else let l = the left; r = the right in
        (UT_TIME_OK,
         Some (if utc_seconds l \<noteq> utc_seconds r then (if utc_seconds l < utc_seconds r then - 1 else 1)
               else if utc_nanosecond l \<noteq> utc_nanosecond r
               then (if utc_nanosecond l < utc_nanosecond r then - 1 else 1)
               else 0)))"

section \<open>Exact time\<close>

text \<open>
  The exact number of nanoseconds a value stands for, and the range the representation covers. The
  representable values are in bijection with that range.
\<close>

definition ns_total :: "int \<Rightarrow> u32 \<Rightarrow> int" where
  "ns_total s n = s * 1000000000 + uint n"

definition utc_ns :: "ut_time_utc \<Rightarrow> int" where
  "utc_ns u = ns_total (utc_seconds u) (utc_nanosecond u)"

definition dur_ns :: "ut_time_duration \<Rightarrow> int" where
  "dur_ns d = ns_total (dur_seconds d) (dur_nanosecond d)"

definition representable :: "int \<Rightarrow> bool" where
  "representable t \<longleftrightarrow> in_i64 (t div 1000000000)"

definition utc_at :: "int \<Rightarrow> ut_time_utc" where
  "utc_at t = \<lparr>utc_seconds = t div 1000000000, utc_nanosecond = word_of_int (t mod 1000000000)\<rparr>"

definition dur_at :: "int \<Rightarrow> ut_time_duration" where
  "dur_at t = \<lparr>dur_seconds = t div 1000000000, dur_nanosecond = word_of_int (t mod 1000000000)\<rparr>"

text \<open>A well-formed value: seconds that an \<open>int64_t\<close> holds and nanoseconds below a second.\<close>

definition utc_ok :: "ut_time_utc \<Rightarrow> bool" where
  "utc_ok u \<longleftrightarrow> in_i64 (utc_seconds u) \<and> ut_time_utc_is_valid (Some u)"

definition dur_ok :: "ut_time_duration \<Rightarrow> bool" where
  "dur_ok d \<longleftrightarrow> in_i64 (dur_seconds d) \<and> ut_time_duration_is_valid (Some d)"

lemma uint_ns [simp]: "uint UT_TIME_NANOSECONDS_PER_SECOND = 1000000000"
  by (simp add: UT_TIME_NANOSECONDS_PER_SECOND_def)

lemma ns_less: "n < UT_TIME_NANOSECONDS_PER_SECOND \<longleftrightarrow> uint n < 1000000000"
  by (simp add: word_less_def)

lemma u32_nonneg: "0 \<le> uint (n :: u32)" "uint (n :: u32) < 4294967296"
  using unsigned_less [of n, where ?'a = int] by simp_all

lemma div_mod_split: "0 \<le> f \<Longrightarrow> f < 1000000000 \<Longrightarrow>
    (s * 1000000000 + f) div 1000000000 = (s :: int) \<and> (s * 1000000000 + f) mod 1000000000 = f"
  by (simp add: div_mult_self3)

lemma utc_at_eq: "0 \<le> f \<Longrightarrow> f < 1000000000 \<Longrightarrow>
    utc_at (s * 1000000000 + f) = \<lparr>utc_seconds = s, utc_nanosecond = word_of_int f\<rparr>"
  by (simp add: utc_at_def div_mod_split)

lemma dur_at_eq: "0 \<le> f \<Longrightarrow> f < 1000000000 \<Longrightarrow>
    dur_at (s * 1000000000 + f) = \<lparr>dur_seconds = s, dur_nanosecond = word_of_int f\<rparr>"
  by (simp add: dur_at_def div_mod_split)

lemma representable_eq: "0 \<le> f \<Longrightarrow> f < 1000000000 \<Longrightarrow> representable (s * 1000000000 + f) \<longleftrightarrow> in_i64 s"
  by (simp add: representable_def div_mod_split)

lemma utc_at_ns [simp]: "utc_ok u \<Longrightarrow> utc_at (utc_ns u) = u"
  using u32_nonneg [of "utc_nanosecond u"]
  by (cases u) (simp add: utc_ns_def ns_total_def utc_at_eq utc_ok_def ut_time_utc_is_valid_def ns_less)

lemma uint_word_of_int_ns: "0 \<le> f \<Longrightarrow> f < 1000000000 \<Longrightarrow> uint (word_of_int f :: u32) = f"
  by (simp add: uint_word_of_int)

lemma utc_at_ok: "representable t \<Longrightarrow> utc_ok (utc_at t) \<and> utc_ns (utc_at t) = t"
  by (simp add: utc_at_def utc_ok_def representable_def ut_time_utc_is_valid_def ns_less
      uint_word_of_int_ns utc_ns_def ns_total_def)

lemma nanosecond_sum:
  fixes m n :: u32
  assumes "uint m < 1000000000" "uint n < 1000000000"
  defines "x \<equiv> ucast m + ucast n :: u64"
  shows "ucast UT_TIME_NANOSECONDS_PER_SECOND \<le> x \<longleftrightarrow> 1000000000 \<le> uint m + uint n"
    "ucast (x mod ucast UT_TIME_NANOSECONDS_PER_SECOND) = (word_of_int ((uint m + uint n) mod 1000000000) :: u32)"
proof -
  have um: "uint (ucast m :: u64) = uint m" "uint (ucast n :: u64) = uint n"
    by (simp_all add: uint_up_ucast is_up_def source_size_def target_size_def word_size)
  have x: "uint x = uint m + uint n"
    using assms(1,2) u32_nonneg [of m] u32_nonneg [of n] by (simp add: x_def uint_word_ariths um)
  have c: "uint (ucast UT_TIME_NANOSECONDS_PER_SECOND :: u64) = 1000000000"
    by (simp add: UT_TIME_NANOSECONDS_PER_SECOND_def)
  show "ucast UT_TIME_NANOSECONDS_PER_SECOND \<le> x \<longleftrightarrow> 1000000000 \<le> uint m + uint n"
    by (simp add: word_le_def x c)
  have "ucast (x mod ucast UT_TIME_NANOSECONDS_PER_SECOND) = (word_of_int (uint (x mod ucast UT_TIME_NANOSECONDS_PER_SECOND)) :: u32)"
    by (simp add: word_of_int_uint)
  then show "ucast (x mod ucast UT_TIME_NANOSECONDS_PER_SECOND) = (word_of_int ((uint m + uint n) mod 1000000000) :: u32)"
    by (simp add: uint_mod x c)
qed

lemma add_normalized_exact:
  assumes "in_i64 a" "in_i64 b" "uint m < 1000000000" "uint n < 1000000000"
  shows "add_normalized a m b n = Some (if representable (ns_total a m + ns_total b n)
    then (UT_TIME_OK, Some (utc_at (ns_total a m + ns_total b n))) else (UT_TIME_OUT_OF_RANGE, None))"
proof -
  note m0 = u32_nonneg(1) [of m] and n0 = u32_nonneg(1) [of n]
  note sums = nanosecond_sum [OF assms(3,4)]
  show ?thesis
  proof (cases "1000000000 \<le> uint m + uint n")
    case True
    let ?f = "uint m + uint n - 1000000000"
    have md: "(uint m + uint n) mod 1000000000 = ?f"
      using mod_add_self2 [of ?f 1000000000] mod_pos_pos_trivial [of ?f 1000000000] True assms(3,4) by simp
    have f: "0 \<le> ?f" "?f < 1000000000" using True assms(3,4) by simp_all
    have t: "ns_total a m + ns_total b n = (a + b + 1) * 1000000000 + ?f" by (simp add: ns_total_def algebra_simps)
    have at: "utc_at (ns_total a m + ns_total b n) = \<lparr>utc_seconds = a + b + 1, utc_nanosecond = word_of_int ?f\<rparr>"
      and rep: "representable (ns_total a m + ns_total b n) \<longleftrightarrow> in_i64 (a + b + 1)"
      unfolding t by (rule utc_at_eq [OF f]) (rule representable_eq [OF f])
    show ?thesis
    proof (cases "b = INT64_MAX")
      case c: True
      show ?thesis
        unfolding at rep using assms(1) True c by (auto simp: add_normalized_def sums md Let_def int64_limits i64_def)
    next
      case False
      show ?thesis
        unfolding at rep using assms(1,2) True False
        by (auto simp: add_normalized_def sums md Let_def int64_limits i64_def)
    qed
  next
    case False
    have md: "(uint m + uint n) mod 1000000000 = uint m + uint n" using False m0 n0 by simp
    have f: "0 \<le> uint m + uint n" "uint m + uint n < 1000000000" using False m0 n0 by simp_all
    have t: "ns_total a m + ns_total b n = (a + b) * 1000000000 + (uint m + uint n)" by (simp add: ns_total_def algebra_simps)
    have at: "utc_at (ns_total a m + ns_total b n) = \<lparr>utc_seconds = a + b, utc_nanosecond = word_of_int (uint m + uint n)\<rparr>"
      and rep: "representable (ns_total a m + ns_total b n) \<longleftrightarrow> in_i64 (a + b)"
      unfolding t by (rule utc_at_eq [OF f]) (rule representable_eq [OF f])
    show ?thesis
      unfolding at rep using assms(1,2) False
      by (auto simp: add_normalized_def sums md Let_def int64_limits i64_def)
  qed
qed

lemma subtract_seconds_exact:
  assumes "in_i64 a" "in_i64 b" "c = 0 \<or> c = 1"
  shows "subtract_seconds a b c = Some (if in_i64 (a - b - uint c)
    then (UT_TIME_OK, Some (a - b - uint c)) else (UT_TIME_OUT_OF_RANGE, None))"
  using assms by (auto simp: subtract_seconds_def int64_limits i64_def Let_def)

text \<open>The nanoseconds of a difference, and the seconds it borrows.\<close>

lemma difference_split:
  fixes m n :: u32
  assumes "uint m < 1000000000" "uint n < 1000000000"
  defines "c \<equiv> (if m < n then 1 else 0 :: u32)"
  defines "f \<equiv> uint m - uint n + uint c * 1000000000"
  shows "0 \<le> f" "f < 1000000000" "borrowed_nanosecond c m n = word_of_int f"
    "ns_total a m - ns_total b n = (a - b - uint c) * 1000000000 + f"
proof -
  obtain x y where x: "x = uint m" "0 \<le> x" "x < 1000000000" and y: "y = uint n" "0 \<le> y" "y < 1000000000"
    using assms(1,2) by simp
  have f: "f = x - y + (if x < y then 1000000000 else 0)" by (simp add: f_def c_def word_less_def x(1) y(1))
  show "0 \<le> f" "f < 1000000000" unfolding f using x(2,3) y(2,3) by simp_all
  show "borrowed_nanosecond c m n = word_of_int f"
    by (simp add: f_def c_def borrowed_nanosecond_def UT_TIME_NANOSECONDS_PER_SECOND_def)
  show "ns_total a m - ns_total b n = (a - b - uint c) * 1000000000 + f"
    by (simp add: f_def ns_total_def algebra_simps)
qed

lemma difference_exact:
  fixes m n :: u32
  assumes "in_i64 a" "in_i64 b" "uint m < 1000000000" "uint n < 1000000000"
  defines "c \<equiv> (if m < n then 1 else 0 :: u32)"
  defines "t \<equiv> ns_total a m - ns_total b n"
  shows "subtract_seconds a b c = Some (if representable t then (UT_TIME_OK, Some (t div 1000000000)) else (UT_TIME_OUT_OF_RANGE, None))"
    "borrowed_nanosecond c m n = word_of_int (t mod 1000000000)"
proof -
  note d = difference_split [OF assms(3,4), folded c_def]
  let ?f = "uint m - uint n + uint c * 1000000000"
  have t: "t = (a - b - uint c) * 1000000000 + ?f" unfolding t_def by (rule d(4))
  have dm: "t div 1000000000 = a - b - uint c" "t mod 1000000000 = ?f"
    unfolding t using div_mod_split [OF d(1,2)] by blast+
  have "c = 0 \<or> c = 1" by (simp add: c_def)
  from subtract_seconds_exact [OF assms(1,2) this] dm(1)
  show "subtract_seconds a b c = Some (if representable t then (UT_TIME_OK, Some (t div 1000000000)) else (UT_TIME_OUT_OF_RANGE, None))"
    by (simp add: representable_def)
  show "borrowed_nanosecond c m n = word_of_int (t mod 1000000000)" unfolding dm(2) by (rule d(3))
qed

lemma utc_okD: "utc_ok u \<Longrightarrow> in_i64 (utc_seconds u) \<and> uint (utc_nanosecond u) < 1000000000 \<and> ut_time_utc_is_valid (Some u)"
  by (simp add: utc_ok_def ut_time_utc_is_valid_def ns_less)

lemma dur_okD: "dur_ok d \<Longrightarrow> in_i64 (dur_seconds d) \<and> uint (dur_nanosecond d) < 1000000000 \<and> ut_time_duration_is_valid (Some d)"
  by (simp add: dur_ok_def ut_time_duration_is_valid_def ns_less)

lemma utc_add_exact:
  assumes "utc_ok u" "dur_ok d"
  shows "ut_time_utc_add (Some u) (Some d) (Some r) = Some (if representable (utc_ns u + dur_ns d)
    then (UT_TIME_OK, Some (utc_at (utc_ns u + dur_ns d))) else (UT_TIME_OUT_OF_RANGE, Some r))"
  using utc_okD [OF assms(1)] dur_okD [OF assms(2)]
  by (auto simp: ut_time_utc_add_def add_normalized_exact utc_ns_def dur_ns_def)

lemma utc_subtract_exact:
  assumes "utc_ok u" "dur_ok d"
  shows "ut_time_utc_subtract (Some u) (Some d) (Some r) = Some (if representable (utc_ns u - dur_ns d)
    then (UT_TIME_OK, Some (utc_at (utc_ns u - dur_ns d))) else (UT_TIME_OUT_OF_RANGE, Some r))"
proof -
  note u = utc_okD [OF assms(1)] and d = dur_okD [OF assms(2)]
  note x = difference_exact [of "utc_seconds u" "dur_seconds d" "utc_nanosecond u" "dur_nanosecond d"]
  show ?thesis
    using u d x by (auto simp: ut_time_utc_subtract_def Let_def utc_at_def utc_ns_def dur_ns_def)
qed

lemma utc_difference_exact:
  assumes "utc_ok u" "utc_ok v"
  shows "ut_time_utc_difference (Some u) (Some v) (Some r) = Some (if representable (utc_ns u - utc_ns v)
    then (UT_TIME_OK, Some (dur_at (utc_ns u - utc_ns v))) else (UT_TIME_OUT_OF_RANGE, Some r))"
proof -
  note u = utc_okD [OF assms(1)] and v = utc_okD [OF assms(2)]
  note x = difference_exact [of "utc_seconds u" "utc_seconds v" "utc_nanosecond u" "utc_nanosecond v"]
  show ?thesis
    using u v x by (auto simp: ut_time_utc_difference_def Let_def dur_at_def utc_ns_def)
qed

lemma utc_compare_exact:
  assumes "utc_ok u" "utc_ok v"
  shows "ut_time_utc_compare (Some u) (Some v) (Some k) = (UT_TIME_OK, Some (sgn (utc_ns u - utc_ns v)))"
proof -
  obtain x y where x: "uint (utc_nanosecond u) = x" "0 \<le> x" "x < 1000000000"
    and y: "uint (utc_nanosecond v) = y" "0 \<le> y" "y < 1000000000"
    using utc_okD [OF assms(1)] utc_okD [OF assms(2)] by simp
  then show ?thesis
    using utc_okD [OF assms(1)] utc_okD [OF assms(2)]
    by (auto simp: ut_time_utc_compare_def utc_ns_def ns_total_def sgn_if word_less_def Let_def word_uint_eq_iff)
qed

section \<open>Conversions\<close>

lemma in_i64_div: "in_i64 v \<Longrightarrow> 0 < k \<Longrightarrow> in_i64 (v div k)"
proof (cases "0 \<le> v")
  case True
  assume "in_i64 v" "0 < k"
  moreover have "v div k \<le> v" using True \<open>0 < k\<close> using zdiv_mono2 [of v 1 k] by simp
  moreover have "0 \<le> v div k" using True \<open>0 < k\<close> by (simp add: pos_imp_zdiv_nonneg_iff)
  ultimately show ?thesis by (simp add: int64_limits)
next
  case False
  assume "in_i64 v" "0 < k"
  have "v * k \<le> v * 1" using False \<open>0 < k\<close> by (intro mult_left_mono_neg) simp_all
  then have "(v * k) div k \<le> v div k" using \<open>0 < k\<close> by (intro zdiv_mono1) simp_all
  moreover have "v div k < 0" using div_neg_pos_less0 [of v k] False \<open>0 < k\<close> by simp
  ultimately show ?thesis using \<open>in_i64 v\<close> \<open>0 < k\<close> by (simp add: int64_limits)
qed

lemma split_units_exact:
  assumes "in_i64 v" "0 < k" "k \<le> 1000000000"
  shows "split_units v k = Some (v div k, word_of_int (v mod k))"
proof -
  note q = in_i64_div [OF assms(1,2)]
  have r: "0 \<le> v mod k" "v mod k < k" using assms(2) by simp_all
  show ?thesis
  proof (cases "sgn v \<noteq> sgn k \<and> \<not> k dvd v")
    case True
    then have "v sdiv k = v div k + 1" "v smod k = v mod k - k"
      using assms(2) by (simp_all add: signed_divide_int_eq_divide_int signed_modulo_int_eq_modulo_int)
    moreover have "in_i64 (v mod k)" using r assms(3) by (simp add: int64_limits)
    ultimately show ?thesis using q r by (simp add: split_units_def)
  next
    case False
    then have "v sdiv k = v div k" "v smod k = v mod k"
      using assms(2) by (auto simp: signed_divide_int_eq_divide_int signed_modulo_int_eq_modulo_int)
    then show ?thesis using r by (simp add: split_units_def)
  qed
qed

lemma from_units_exact:
  assumes "in_i64 v" "0 < k" "0 < p" "k * p = 1000000000"
  shows "from_units v k (word_of_int p) (Some u) = Some (UT_TIME_OK, Some (utc_at (v * p)))"
proof -
  have k: "k * 1 \<le> k * p" using assms(2,3) by (intro mult_left_mono) simp_all
  have dm: "(v * p) div 1000000000 = v div k" "(v * p) mod 1000000000 = (v mod k) * p"
    unfolding assms(4) [symmetric] using assms(3) by (simp_all add: mod_mult_mult2)
  have "split_units v k = Some (v div k, word_of_int (v mod k))"
    using k assms by (intro split_units_exact) simp_all
  then show ?thesis by (simp add: from_units_def utc_at_def dm)
qed

datatype time_unit = Milli | Micro | Nano

primrec ns_per :: "time_unit \<Rightarrow> int" where
  "ns_per Milli = 1000000"
| "ns_per Micro = 1000"
| "ns_per Nano = 1"

primrec per_second :: "time_unit \<Rightarrow> int" where
  "per_second Milli = 1000"
| "per_second Micro = 1000000"
| "per_second Nano = 1000000000"

primrec from_unit :: "time_unit \<Rightarrow> int \<Rightarrow> ut_time_utc option \<Rightarrow> (ut_time_result \<times> ut_time_utc option) option" where
  "from_unit Milli v u = ut_time_utc_from_milliseconds v u"
| "from_unit Micro v u = ut_time_utc_from_microseconds v u"
| "from_unit Nano v u = ut_time_utc_from_nanoseconds v u"

primrec to_unit :: "time_unit \<Rightarrow> ut_time_utc option \<Rightarrow> int option \<Rightarrow> (ut_time_result \<times> int option) option" where
  "to_unit Milli u v = ut_time_utc_to_milliseconds u v"
| "to_unit Micro u v = ut_time_utc_to_microseconds u v"
| "to_unit Nano u v = ut_time_utc_to_nanoseconds u v"

text \<open>The seconds below which the code refuses a conversion.\<close>

definition lowest_second :: "time_unit \<Rightarrow> int" where
  "lowest_second k = INT64_MIN sdiv per_second k"

lemma unit_facts: "0 < ns_per k" "0 < per_second k" "per_second k * ns_per k = 1000000000"
  by (cases k; simp)+

lemma from_unit_exact: "in_i64 v \<Longrightarrow> from_unit k v (Some u) = Some (UT_TIME_OK, Some (utc_at (v * ns_per k)))"
  using from_units_exact [of v "per_second k" "ns_per k" u] unit_facts [of k]
  by (cases k) (simp_all add: ut_time_utc_from_milliseconds_def ut_time_utc_from_microseconds_def ut_time_utc_from_nanoseconds_def)

lemma to_units_exact:
  fixes n :: u32
  assumes "in_i64 s" "uint n < 1000000000"
  shows "to_units s n (per_second k) (word_of_int (ns_per k)) (Some x) =
    Some (if lowest_second k \<le> s \<and> ns_total s n div ns_per k \<le> INT64_MAX
      then (UT_TIME_OK, Some (ns_total s n div ns_per k)) else (UT_TIME_OUT_OF_RANGE, Some x))"
proof -
  have valid: "\<not> UT_TIME_NANOSECONDS_PER_SECOND \<le> n" using assms(2) by (simp add: ns_less linorder_not_le)
  have fr: "uint (n div word_of_int (ns_per k)) = uint n div ns_per k" by (cases k) (simp_all add: uint_div)
  obtain f where f: "uint n div ns_per k = f" "0 \<le> f" "f < per_second k"
  proof
    show "0 \<le> uint n div ns_per k" using unit_facts(1) [of k] by (simp add: pos_imp_zdiv_nonneg_iff)
    show "uint n div ns_per k < per_second k"
      using assms(2) by (cases k) simp_all
  qed simp
  have "ns_total s n = s * per_second k * ns_per k + uint n"
    using unit_facts(3) [of k] by (simp add: ns_total_def mult.assoc)
  then have t: "ns_total s n div ns_per k = s * per_second k + f"
    using unit_facts(1) [of k] f(1) by (simp add: add.commute)
  show ?thesis
    unfolding t to_units_def fr f(1) Let_def using assms(1) f(2,3) valid
    by (cases k) (auto simp: int64_limits i64_def lowest_second_def)
qed

lemma to_unit_exact:
  assumes "utc_ok u"
  shows "to_unit k (Some u) (Some x) =
    Some (if lowest_second k \<le> utc_seconds u \<and> utc_ns u div ns_per k \<le> INT64_MAX
      then (UT_TIME_OK, Some (utc_ns u div ns_per k)) else (UT_TIME_OUT_OF_RANGE, Some x))"
  using utc_okD [OF assms] to_units_exact [of "utc_seconds u" "utc_nanosecond u" k x]
  by (cases k) (simp_all add: ut_time_utc_to_milliseconds_def ut_time_utc_to_microseconds_def
      ut_time_utc_to_nanoseconds_def utc_ns_def)

lemma unit_representable:
  assumes "in_i64 v"
  shows "representable (v * ns_per k)" "(v * ns_per k) div 1000000000 = v div per_second k"
proof -
  show q: "(v * ns_per k) div 1000000000 = v div per_second k"
    unfolding unit_facts(3) [of k, symmetric] using unit_facts(1) [of k] by simp
  show "representable (v * ns_per k)"
    unfolding representable_def q using in_i64_div [OF assms unit_facts(2)] .
qed

section \<open>Properties\<close>

text \<open>Property C25. Timestamp arithmetic is exact. For all normalised operands no step overflows, and
  adding, subtracting and taking the difference yield the normalised value of the exact number of
  nanoseconds whenever its seconds fit 64 bits, also where an intermediate sum of seconds alone would
  not; otherwise they answer OUT_OF_RANGE and leave the result cell. Comparison is the order of the exact
  times.\<close>

theorem time_arithmetic_exact:
  assumes "utc_ok u" and "utc_ok v" and "dur_ok d"
  shows "ut_time_utc_add (Some u) (Some d) (Some r) = Some (if representable (utc_ns u + dur_ns d)
      then (UT_TIME_OK, Some (utc_at (utc_ns u + dur_ns d))) else (UT_TIME_OUT_OF_RANGE, Some r))
    \<and> ut_time_utc_subtract (Some u) (Some d) (Some r) = Some (if representable (utc_ns u - dur_ns d)
      then (UT_TIME_OK, Some (utc_at (utc_ns u - dur_ns d))) else (UT_TIME_OUT_OF_RANGE, Some r))
    \<and> ut_time_utc_difference (Some u) (Some v) (Some q) = Some (if representable (utc_ns u - utc_ns v)
      then (UT_TIME_OK, Some (dur_at (utc_ns u - utc_ns v))) else (UT_TIME_OUT_OF_RANGE, Some q))
    \<and> ut_time_utc_compare (Some u) (Some v) (Some k) = (UT_TIME_OK, Some (sgn (utc_ns u - utc_ns v)))"
  using utc_add_exact utc_subtract_exact utc_difference_exact utc_compare_exact assms by simp

theorem time_arithmetic_exact_witness:
  "let u = \<lparr>utc_seconds = - 1, utc_nanosecond = 600000000\<rparr>; v = \<lparr>utc_seconds = 5, utc_nanosecond = 0\<rparr>;
       d = \<lparr>dur_seconds = 9223372036854775807, dur_nanosecond = 500000000\<rparr>
   in ut_time_utc_add (Some u) (Some d) (Some v) = Some (if representable (utc_ns u + dur_ns d)
      then (UT_TIME_OK, Some (utc_at (utc_ns u + dur_ns d))) else (UT_TIME_OUT_OF_RANGE, Some v))
    \<and> ut_time_utc_compare (Some u) (Some v) (Some 0) = (UT_TIME_OK, Some (sgn (utc_ns u - utc_ns v)))"
  using time_arithmetic_exact [of "\<lparr>utc_seconds = - 1, utc_nanosecond = 600000000\<rparr>" "\<lparr>utc_seconds = 5, utc_nanosecond = 0\<rparr>"
      "\<lparr>dur_seconds = 9223372036854775807, dur_nanosecond = 500000000\<rparr>" "\<lparr>utc_seconds = 5, utc_nanosecond = 0\<rparr>" d 0]
  by (simp add: Let_def utc_ok_def dur_ok_def int64_limits ut_time_utc_is_valid_def ut_time_duration_is_valid_def
      UT_TIME_NANOSECONDS_PER_SECOND_def)

text \<open>Property C28. Every 64-bit count of milli-, micro- or nanoseconds converts to the normalised
  timestamp of exactly that time, and converting back returns the count, without any overflow, as long as
  the timestamp's seconds are at least the truncated quotient of \<open>INT64_MIN\<close> by the units of a second.
  Of a general timestamp the conversion is the floor, or OUT_OF_RANGE with the cell untouched.\<close>

theorem time_units_round_trip:
  assumes "in_i64 v" and "utc_ok u"
  shows "from_unit k v (Some r) = Some (UT_TIME_OK, Some (utc_at (v * ns_per k)))
    \<and> utc_ok (utc_at (v * ns_per k)) \<and> utc_ns (utc_at (v * ns_per k)) = v * ns_per k
    \<and> to_unit k (Some (utc_at (v * ns_per k))) (Some x) = Some (if lowest_second k \<le> v div per_second k
        then (UT_TIME_OK, Some v) else (UT_TIME_OUT_OF_RANGE, Some x))
    \<and> to_unit k (Some u) (Some x) = Some (if lowest_second k \<le> utc_seconds u \<and> utc_ns u div ns_per k \<le> INT64_MAX
        then (UT_TIME_OK, Some (utc_ns u div ns_per k)) else (UT_TIME_OUT_OF_RANGE, Some x))"
proof -
  note ok = utc_at_ok [OF unit_representable(1) [OF assms(1), of k]]
  have "utc_seconds (utc_at (v * ns_per k)) = v div per_second k"
    by (simp add: utc_at_def unit_representable(2) [OF assms(1)])
  moreover have "v * ns_per k div ns_per k = v" using unit_facts(1) [of k] by simp
  moreover have "v \<le> INT64_MAX" using assms(1) by (simp add: in_i64_def)
  ultimately show ?thesis
    using from_unit_exact [OF assms(1)] to_unit_exact [OF assms(2)] to_unit_exact [of "utc_at (v * ns_per k)"] ok by simp
qed

theorem time_units_round_trip_witness:
  "from_unit Milli (- 1500) (Some \<lparr>utc_seconds = 0, utc_nanosecond = 0\<rparr>) = Some (UT_TIME_OK, Some (utc_at (- 1500000000)))
    \<and> to_unit Milli (Some (utc_at (- 1500000000))) (Some 0) = Some (UT_TIME_OK, Some (- 1500))"
  using time_units_round_trip [of "- 1500" "\<lparr>utc_seconds = 0, utc_nanosecond = 0\<rparr>" Milli "\<lparr>utc_seconds = 0, utc_nanosecond = 0\<rparr>" 0]
  by (simp add: int64_limits utc_ok_def ut_time_utc_is_valid_def UT_TIME_NANOSECONDS_PER_SECOND_def lowest_second_def)

text \<open>
  The lowest counts do not come back: \<open>INT64_MIN\<close> milliseconds is a timestamp whose millisecond count
  is representable, but the lower bound of \<open>to_units\<close> compares the floored seconds with a quotient that
  C rounds towards zero, so the conversion is refused as out of range.
\<close>

theorem lowest_milliseconds_refused:
  "ut_time_utc_from_milliseconds INT64_MIN (Some u) =
     Some (UT_TIME_OK, Some \<lparr>utc_seconds = - 9223372036854776, utc_nanosecond = 192000000\<rparr>)
   \<and> utc_ns \<lparr>utc_seconds = - 9223372036854776, utc_nanosecond = 192000000\<rparr> div ns_per Milli = INT64_MIN
   \<and> ut_time_utc_to_milliseconds (Some \<lparr>utc_seconds = - 9223372036854776, utc_nanosecond = 192000000\<rparr>) (Some x)
     = Some (UT_TIME_OUT_OF_RANGE, Some x)"
  by (simp add: ut_time_utc_from_milliseconds_def ut_time_utc_to_milliseconds_def from_units_def to_units_def
      split_units_def int64_limits i64_def utc_ns_def ns_total_def ut_time_utc_is_valid_def
      UT_TIME_NANOSECONDS_PER_SECOND_def Let_def)

end
