(* ===== verification/C_Text.thy ===== *)
theory C_Text
  imports Foundation_Prelude
begin

text \<open>
  What the code uses of C's text functions: a string is the list of its characters up to the terminating
  NUL, a \<open>char\<close> array the list of all its bytes. \<open>c_format\<close> is \<open>printf\<close>'s formatting for formats made of
  plain characters, \<open>%%\<close> and the conversions \<open>u\<close>, \<open>d\<close>, \<open>i\<close> and \<open>s\<close> without flags or width, with any
  length modifier; \<open>None\<close> stands for a call C leaves undefined or that the formatter rejects.
\<close>

text \<open>\<open>snprintf\<close>'s conversion of an integer to at least \<open>width\<close> characters with leading zeros.\<close>

fun decimal :: "nat \<Rightarrow> string" where
  "decimal n = (if n < 10 then [char_of (48 + n)] else decimal (n div 10) @ [char_of (48 + n mod 10)])"

declare decimal.simps [simp del]

definition zero_padded :: "nat \<Rightarrow> string \<Rightarrow> string" where
  "zero_padded width s = replicate (width - length s) (CHR ''0'') @ s"

definition printf_int :: "nat \<Rightarrow> int \<Rightarrow> string" where
  "printf_int width x =
     (if x < 0 then CHR ''-'' # zero_padded (width - 1) (decimal (nat (- x)))
      else zero_padded width (decimal (nat x)))"

text \<open>\<open>snprintf\<close> into a buffer of \<open>len\<close> bytes: what is in the buffer and the length of the whole text.\<close>

definition snprintf :: "char list \<Rightarrow> nat \<Rightarrow> string \<Rightarrow> char list \<times> nat" where
  "snprintf buffer len text =
     (let t = take (len - 1) text in (t @ [CHR 0x00] @ drop (length t + 1) buffer, length text))"

text \<open>The string a \<open>char\<close> array holds, and the array \<open>snprintf\<close> leaves of a zeroed one.\<close>

definition c_string :: "char list \<Rightarrow> string" where
  "c_string bytes = takeWhile (\<lambda>c. c \<noteq> CHR 0x00) bytes"

definition field :: "nat \<Rightarrow> string \<Rightarrow> char list" where
  "field capacity s =
     take (capacity - 1) s @ replicate (capacity - length (take (capacity - 1) s)) (CHR 0x00)"

lemma snprintf_field:
  assumes "0 < capacity"
  shows "fst (snprintf (replicate capacity (CHR 0x00)) capacity s) = field capacity s"
proof -
  let ?t = "take (capacity - 1) s"
  obtain k where k: "capacity - length ?t = Suc k" using assms by (cases "capacity - length ?t") auto
  then have "capacity - Suc (length ?t) = k" by arith
  then show ?thesis unfolding snprintf_def field_def Let_def k by (simp add: drop_replicate)
qed

lemma length_field [simp]: "0 < capacity \<Longrightarrow> length (field capacity s) = capacity"
  by (simp add: field_def)

lemma c_string_field: "0 < capacity \<Longrightarrow> CHR 0x00 \<notin> set s \<Longrightarrow> c_string (field capacity s) = take (capacity - 1) s"
  unfolding c_string_def field_def
  by (subst takeWhile_append2) (auto dest: in_set_takeD simp: takeWhile_replicate)

section \<open>Formatted text\<close>

datatype c_arg = C_Unsigned nat | C_Signed int | C_String string

definition length_modifier :: "char \<Rightarrow> bool" where
  "length_modifier c \<longleftrightarrow> c \<in> set ''hlzjt''"

definition conversion :: "char \<Rightarrow> c_arg \<Rightarrow> string option" where
  "conversion c a =
     (case a of
        C_Unsigned n \<Rightarrow> if c = CHR ''u'' then Some (decimal n) else None
      | C_Signed i \<Rightarrow> if c = CHR ''d'' \<or> c = CHR ''i'' then Some (printf_int 1 i) else None
      | C_String s \<Rightarrow> if c = CHR ''s'' then Some s else None)"

lemma length_after_dropWhile: "dropWhile P xs = y # ys \<Longrightarrow> length ys < Suc (length xs)"
  using length_dropWhile_le [of P xs] by simp

function c_format :: "string \<Rightarrow> c_arg list \<Rightarrow> string option" where
  "c_format [] args = Some []"
| "c_format (c # f) args =
     (if c \<noteq> CHR ''%'' then map_option (Cons c) (c_format f args)
      else case dropWhile length_modifier f of
        [] \<Rightarrow> None
      | d # rest \<Rightarrow>
          if d = CHR ''%'' then map_option (Cons d) (c_format rest args)
          else case args of
            [] \<Rightarrow> None
          | a # args' \<Rightarrow>
              (case conversion d a of None \<Rightarrow> None | Some t \<Rightarrow> map_option ((@) t) (c_format rest args')))"
  by pat_completeness auto
termination by (relation "measure (\<lambda>(f, args). length f)") (auto dest: length_after_dropWhile)

text \<open>A conversion to at least \<open>width\<close> characters, padded on the right.\<close>

definition left_justified :: "nat \<Rightarrow> string \<Rightarrow> string" where
  "left_justified width s = s @ replicate (width - length s) (CHR '' '')"

end
