(* ===== verification/Time_Rfc3339.thy ===== *)
theory Time_Rfc3339
  imports Time_Core C_Text
begin

text \<open>
  The proleptic Gregorian calendar and the RFC 3339 text form (\<open>utility_time_rfc3339.c\<close>). An
  \<open>unsigned\<close> is an \<open>int\<close> and \<open>wrap32\<close> reduces the result of each stretch of unsigned arithmetic
  before it is divided, compared or stored; \<open>int64_t\<close> steps go through \<open>i64\<close> as in \<open>Time_Core\<close>. A
  text is the list of its characters up to the terminating NUL.
\<close>

definition wrap32 :: "int \<Rightarrow> int" where
  "wrap32 x = x mod 4294967296"

definition MIN_RFC3339_SECONDS :: int where
  "MIN_RFC3339_SECONDS = - 62135596800"

definition MAX_RFC3339_SECONDS :: int where
  "MAX_RFC3339_SECONDS = 253402300799"

definition UT_TIME_RFC3339_BUFFER_SIZE :: nat where
  "UT_TIME_RFC3339_BUFFER_SIZE = 31"

section \<open>Calendar\<close>

definition days_from_civil :: "int \<Rightarrow> int \<Rightarrow> int \<Rightarrow> int option" where
  "days_from_civil year0 month day = do {
     year \<leftarrow> i64 (year0 - (if month \<le> 2 then 1 else 0));
     shifted \<leftarrow> (if 0 \<le> year then Some year else i64 (year - 399));
     let era = shifted sdiv 400;
     scaled \<leftarrow> i64 (era * 400);
     rest \<leftarrow> i64 (year - scaled);
     let year_of_era = wrap32 rest;
     let day_of_year = wrap32 (wrap32 (153 * wrap32 (if 2 < month then month - 3 else month + 9) + 2) div 5 + day - 1);
     let day_of_era = wrap32 (year_of_era * 365 + year_of_era div 4 - year_of_era div 100 + day_of_year);
     base \<leftarrow> i64 (era * 146097);
     total \<leftarrow> i64 (base + day_of_era);
     i64 (total - 719468) }"

definition civil_from_days :: "int \<Rightarrow> (int \<times> int \<times> int) option" where
  "civil_from_days days0 = do {
     days \<leftarrow> i64 (days0 + 719468);
     shifted \<leftarrow> (if 0 \<le> days then Some days else i64 (days - 146096));
     let era = shifted sdiv 146097;
     scaled \<leftarrow> i64 (era * 146097);
     rest \<leftarrow> i64 (days - scaled);
     let day_of_era = wrap32 rest;
     let year_of_era = wrap32 (day_of_era - day_of_era div 1460 + day_of_era div 36524 - day_of_era div 146096) div 365;
     era_years \<leftarrow> i64 (era * 400);
     let year_value = to_int32 (wrap32 (year_of_era + wrap32 era_years));
     let day_of_year = wrap32 (day_of_era - wrap32 (365 * year_of_era + year_of_era div 4 - year_of_era div 100));
     let month_prime = wrap32 (5 * day_of_year + 2) div 153;
     let day = wrap32 (day_of_year - wrap32 (153 * month_prime + 2) div 5 + 1);
     let month = wrap32 (if month_prime < 10 then month_prime + 3 else month_prime - 9);
     Some (year_value + (if month \<le> 2 then 1 else 0), month, day) }"

definition is_leap_year :: "int \<Rightarrow> bool" where
  "is_leap_year year = (year mod 4 = 0 \<and> (year mod 100 \<noteq> 0 \<or> year mod 400 = 0))"

definition month_days :: "int list" where
  "month_days = [31, 28, 31, 30, 31, 30, 31, 31, 30, 31, 30, 31]"

definition valid_date :: "int \<Rightarrow> int \<Rightarrow> int \<Rightarrow> bool" where
  "valid_date year month day =
     (if year < 1 \<or> 9999 < year \<or> month < 1 \<or> 12 < month then False
      else let maximum = month_days ! nat (month - 1);
               maximum' = (if month = 2 \<and> is_leap_year year then maximum + 1 else maximum)
           in 1 \<le> day \<and> day \<le> maximum')"

section \<open>Text\<close>

definition is_digit :: "char \<Rightarrow> bool" where
  "is_digit c = (48 \<le> (of_char c :: nat) \<and> (of_char c :: nat) \<le> 57)"

definition digit_value :: "char \<Rightarrow> int" where
  "digit_value c = int (of_char c) - 48"

text \<open>The loop of \<open>parse_digits\<close> over the characters it reads; \<open>None\<close> is the return value false.\<close>

fun digits_loop :: "string \<Rightarrow> int \<Rightarrow> int option" where
  "digits_loop [] result = Some result"
| "digits_loop (c # cs) result =
     (if \<not> is_digit c then None else digits_loop cs (wrap32 (result * 10 + digit_value c)))"

definition parse_digits :: "string \<Rightarrow> nat \<Rightarrow> int option" where
  "parse_digits text count = digits_loop (take count text) 0"

definition parse_date_time :: "string \<Rightarrow> (int \<times> int \<times> int \<times> int \<times> int \<times> int) option" where
  "parse_date_time text =
     (if text ! 4 = CHR ''-'' \<and> text ! 7 = CHR ''-'' \<and> text ! 10 = CHR ''T'' \<and>
         text ! 13 = CHR '':'' \<and> text ! 16 = CHR '':''
      then do {
        year \<leftarrow> parse_digits text 4;
        month \<leftarrow> parse_digits (drop 5 text) 2;
        day \<leftarrow> parse_digits (drop 8 text) 2;
        hour \<leftarrow> parse_digits (drop 11 text) 2;
        minute \<leftarrow> parse_digits (drop 14 text) 2;
        second \<leftarrow> parse_digits (drop 17 text) 2;
        Some (year, month, day, hour, minute, second) }
      else None)"

text \<open>
  The first loop of \<open>parse_fraction_and_zone\<close> on the rest of the text: the number of digits, their
  value and what follows them; \<open>None\<close> at a tenth digit. Then the scaling loop.
\<close>

fun fraction_loop :: "string \<Rightarrow> nat \<Rightarrow> int \<Rightarrow> (nat \<times> int \<times> string) option" where
  "fraction_loop [] digits value = Some (digits, value, [])"
| "fraction_loop (c # cs) digits value =
     (if is_digit c then
        if digits = 9 then None
        else fraction_loop cs (digits + 1) (wrap32 (value * 10 + digit_value c))
      else Some (digits, value, c # cs))"

function scale_fraction :: "nat \<Rightarrow> int \<Rightarrow> int" where
  "scale_fraction digits value =
     (if digits < 9 then scale_fraction (digits + 1) (wrap32 (value * 10)) else value)"
  by pat_completeness auto
termination by (relation "measure (\<lambda>(digits, value). 9 - digits)") auto

declare scale_fraction.simps [simp del]

definition parse_fraction_and_zone :: "string \<Rightarrow> int option" where
  "parse_fraction_and_zone text =
     (let fraction =
            (if text ! 19 = CHR ''.'' then
               case fraction_loop (drop 20 text) 0 0 of
                 None \<Rightarrow> None
               | Some (digits, value, rest) \<Rightarrow>
                   if digits = 0 then None else Some (scale_fraction digits value, rest)
             else Some (0, drop 19 text))
      in case fraction of
           None \<Rightarrow> None
         | Some (value, rest) \<Rightarrow> if rest = ''Z'' then Some value else None)"

definition ut_time_rfc3339_format ::
    "ut_time_utc option \<Rightarrow> char list \<Rightarrow> nat \<Rightarrow> (ut_time_result \<times> char list) option" where
  "ut_time_rfc3339_format utc buffer len =
     (if \<not> ut_time_utc_is_valid utc \<or> buffer = [] then Some (UT_TIME_INVALID_ARGUMENT, buffer)
      else if len < UT_TIME_RFC3339_BUFFER_SIZE then Some (UT_TIME_BUFFER_TOO_SMALL, buffer)
      else if utc_seconds (the utc) < MIN_RFC3339_SECONDS \<or> MAX_RFC3339_SECONDS < utc_seconds (the utc)
      then Some (UT_TIME_OUT_OF_RANGE, buffer)
      else do {
        let seconds = utc_seconds (the utc);
        let days0 = seconds sdiv 86400;
        let second_of_day0 = seconds smod 86400;
        days \<leftarrow> (if second_of_day0 < 0 then i64 (days0 - 1) else Some days0);
        second_of_day \<leftarrow> (if second_of_day0 < 0 then i64 (second_of_day0 + 86400) else Some second_of_day0);
        (year, month, day) \<leftarrow> civil_from_days days;
        let (buffer', written) = snprintf buffer len
              (printf_int 4 year @ ''-'' @ printf_int 2 month @ ''-'' @ printf_int 2 day @ ''T'' @
               printf_int 2 (second_of_day sdiv 3600) @ '':'' @ printf_int 2 (second_of_day sdiv 60 smod 60) @
               '':'' @ printf_int 2 (second_of_day smod 60) @ ''.'' @
               printf_int 9 (uint (utc_nanosecond (the utc))) @ ''Z'');
        Some (if written = 30 then UT_TIME_OK else UT_TIME_OUT_OF_RANGE, buffer') })"

definition ut_time_rfc3339_parse ::
    "string option \<Rightarrow> ut_time_utc option \<Rightarrow> (ut_time_result \<times> ut_time_utc option) option" where
  "ut_time_rfc3339_parse text utc =
     (if text = None \<or> utc = None then Some (UT_TIME_INVALID_ARGUMENT, utc)
      else let t = the text in
        if length t < 20 \<or> 30 < length t then Some (UT_TIME_INVALID_ARGUMENT, utc)
        else case parse_date_time t of
               None \<Rightarrow> Some (UT_TIME_INVALID_ARGUMENT, utc)
             | Some (year, month, day, hour, minute, second) \<Rightarrow>
                 (case parse_fraction_and_zone t of
                    None \<Rightarrow> Some (UT_TIME_INVALID_ARGUMENT, utc)
                  | Some nanosecond \<Rightarrow>
                      if \<not> valid_date year month day \<or> 23 < hour \<or> 59 < minute \<or> 59 < second
                      then Some (UT_TIME_INVALID_ARGUMENT, utc)
                      else do {
                        days \<leftarrow> days_from_civil year month day;
                        d \<leftarrow> i64 (days * 86400);
                        h \<leftarrow> i64 (hour * 3600);
                        m \<leftarrow> i64 (minute * 60);
                        dh \<leftarrow> i64 (d + h);
                        dhm \<leftarrow> i64 (dh + m);
                        seconds \<leftarrow> i64 (dhm + second);
                        Some (UT_TIME_OK, Some \<lparr>utc_seconds = seconds, utc_nanosecond = word_of_int nanosecond\<rparr>) }))"

section \<open>Calendar arithmetic\<close>

text \<open>
  Years that begin in March: \<open>march_days y\<close> days precede March 1 of year \<open>y\<close>, and the leap day is the
  last day of its March year.
\<close>

definition march_days :: "int \<Rightarrow> int" where
  "march_days y = 365 * y + y div 4 - y div 100 + y div 400"

definition march_length :: "int \<Rightarrow> int" where
  "march_length y = (if is_leap_year (y + 1) then 366 else 365)"

definition month_start :: "int \<Rightarrow> int" where
  "month_start mp = (153 * mp + 2) div 5"

definition march_year :: "int \<Rightarrow> int \<Rightarrow> int" where
  "march_year y m = (if m \<le> 2 then y - 1 else y)"

definition march_month :: "int \<Rightarrow> int" where
  "march_month m = (if 2 < m then m - 3 else m + 9)"

text \<open>The day number of a date in closed form, and the date of a day of a March year.\<close>

definition day_number :: "int \<Rightarrow> int \<Rightarrow> int \<Rightarrow> int" where
  "day_number y m d = march_days (march_year y m) + month_start (march_month m) + d - 1 - 719468"

definition date_of :: "int \<Rightarrow> int \<Rightarrow> int \<times> int \<times> int" where
  "date_of y doy =
     (let mp = (5 * doy + 2) div 153; m = (if mp < 10 then mp + 3 else mp - 9)
      in (y + (if m \<le> 2 then 1 else 0), m, doy - month_start mp + 1))"

lemma wrap32_id [simp]: "0 \<le> x \<Longrightarrow> x < 4294967296 \<Longrightarrow> wrap32 x = x"
  by (simp add: wrap32_def)

lemma sdiv_nonneg: "0 \<le> y \<Longrightarrow> 0 < k \<Longrightarrow> y sdiv k = y div (k :: int)"
  by (simp add: signed_divide_int_eq_divide_int sgn_if)

lemma smod_nonneg: "0 \<le> y \<Longrightarrow> 0 < k \<Longrightarrow> y smod k = y mod (k :: int)"
  by (simp add: signed_modulo_int_eq_modulo_int sgn_if)

lemma march_days_era:
  assumes "0 \<le> r" "r < 400"
  shows "march_days (e * 400 + r) = e * 146097 + (r * 365 + r div 4 - r div 100)"
proof -
  have split: "e * 400 + r = r + 100 * e * 4" "e * 400 + r = r + 4 * e * 100" by simp_all
  have "(e * 400 + r) div 4 = 100 * e + r div 4" unfolding split(1) by (rule div_mult_self1) simp
  moreover have "(e * 400 + r) div 100 = 4 * e + r div 100" unfolding split(2) by (rule div_mult_self1) simp
  moreover have "(e * 400 + r) div 400 = e" using assms by simp
  moreover have "365 * (e * 400 + r) + (100 * e + p) - (4 * e + q) + e = e * 146097 + (r * 365 + p - q)" for p q
    by simp
  ultimately show ?thesis by (simp only: march_days_def)
qed

lemma days_from_civil_eq:
  assumes "1 \<le> y" "y \<le> 9999" "1 \<le> m" "m \<le> 12" "1 \<le> d" "d \<le> 31"
  shows "days_from_civil y m d = Some (day_number y m d)"
proof -
  define z where "z = march_year y m"
  define e where "e = z div 400"
  define r where "r = z mod 400"
  have z: "0 \<le> z" "z \<le> 9999" "i64 (y - (if m \<le> 2 then 1 else 0)) = Some z"
    using assms(1,2) by (auto simp: z_def march_year_def i64_def int64_limits)
  have er: "z = e * 400 + r" "0 \<le> r" "r < 400" "0 \<le> e" "e < 25"
    using z(1,2) by (simp_all add: e_def r_def pos_imp_zdiv_nonneg_iff)
  have days: "march_days z = e * 146097 + (r * 365 + r div 4 - r div 100)"
    unfolding er(1) by (rule march_days_era [OF er(2,3)])
  define doy where "doy = month_start (march_month m) + d - 1"
  have mp: "0 \<le> march_month m" "march_month m \<le> 11" using assms(3,4) by (auto simp: march_month_def)
  then have ms: "0 \<le> month_start (march_month m)" "month_start (march_month m) \<le> 337"
    by (auto simp: month_start_def)
  have doy: "0 \<le> doy" "doy < 400" using ms assms(5,6) by (simp_all add: doy_def)
  define x where "x = r * 365 + r div 4 - r div 100 + doy"
  have x: "0 \<le> x" "x < 200000" using er(2,3) doy by (simp_all add: x_def)
  have w: "wrap32 (wrap32 (153 * wrap32 (if 2 < m then m - 3 else m + 9) + 2) div 5 + d - 1) = doy"
    using mp ms doy assms(5,6) by (simp add: doy_def month_start_def march_month_def)
  have "z sdiv 400 = e" unfolding e_def by (rule sdiv_nonneg [OF z(1)]) simp
  moreover have "z - e * 400 = r" using er(1) by simp
  moreover have "wrap32 r = r" "wrap32 x = x" using er(2,3) x by simp_all
  ultimately have steps: "z sdiv 400 = e" "z - e * 400 = r" "wrap32 r = r" "wrap32 x = x" by simp_all
  have i: "i64 (e * 400) = Some (e * 400)" "i64 r = Some r" "i64 (e * 146097) = Some (e * 146097)"
      "i64 (e * 146097 + x) = Some (e * 146097 + x)" "i64 (e * 146097 + x - 719468) = Some (e * 146097 + x - 719468)"
    using er x by (simp_all add: i64_def int64_limits)
  have "day_number y m d = e * 146097 + x - 719468"
    unfolding day_number_def x_def doy_def z_def [symmetric] days by simp
  then show ?thesis
    unfolding days_from_civil_def z(3) w
    using z(1) by (simp add: steps i flip: x_def)
qed

lemma int_div_eqI: "b * k \<le> a \<Longrightarrow> a < b * k + b \<Longrightarrow> a div b = (k :: int)"
  by (rule int_div_pos_eq [of a b k "a - b * k"]) simp_all

text \<open>A year of an era as century, olympiad and year, with what a last day \<open>365\<close> says of them.\<close>

lemma year_split:
  assumes "0 \<le> y" "y < 400" "0 \<le> doy" "doy < march_length y"
  obtains c q r where "y = 100 * c + 4 * q + r" "0 \<le> c" "c \<le> 3" "0 \<le> q" "q \<le> 24" "0 \<le> r" "r \<le> 3"
    "y div 4 = 25 * c + q" "y div 100 = c" "doy \<le> 364 \<or> doy = 365 \<and> r = 3 \<and> (q \<noteq> 24 \<or> c = 3)"
proof -
  define c q r where "c = y div 100" and "q = (y mod 100) div 4" and "r = y mod 4"
  have y: "y = 100 * c + y mod 100" by (simp add: c_def)
  have "y mod 100 mod 4 = y mod 4" by (simp add: mod_mod_cancel)
  then have h: "y mod 100 = 4 * q + r" by (simp add: q_def r_def flip: minus_mod_eq_mult_div)
  have b: "0 \<le> c" "c \<le> 3" "0 \<le> r" "r \<le> 3" "0 \<le> q" using assms(1,2) by (auto simp: c_def r_def q_def)
  have "y mod 100 < 100" by simp
  then have q24: "q \<le> 24" using h b(3) by simp
  have eq: "y = 100 * c + 4 * q + r" using y h by simp
  have d4: "y div 4 = 25 * c + q" unfolding eq using b(3,4) by (intro int_div_eqI) simp_all
  have leap: "r = 3 \<and> (q \<noteq> 24 \<or> c = 3)" if "is_leap_year (y + 1)"
  proof -
    have "(y + 1) mod 4 = 0" and cent: "(y + 1) mod 100 \<noteq> 0 \<or> (y + 1) mod 400 = 0"
      using that by (auto simp: is_leap_year_def)
    then have "(r + 1) mod 4 = 0" by (simp add: r_def mod_add_left_eq)
    then have r3: "r = 3" using b(3,4) by presburger
    have "c = 3" if "q = 24"
    proof -
      have "y + 1 = 100 * (c + 1)" using eq r3 that by simp
      moreover from this have "(y + 1) mod 100 = 0" by simp
      then have "(y + 1) mod 400 = 0" using cent by metis
      ultimately have "100 * (c + 1) mod 400 = 0" by metis
      moreover have "c = 0 \<or> c = 1 \<or> c = 2 \<or> c = 3" using b(1,2) by arith
      ultimately show ?thesis by auto
    qed
    with r3 show ?thesis by blast
  qed
  have last: "doy \<le> 364 \<or> doy = 365 \<and> r = 3 \<and> (q \<noteq> 24 \<or> c = 3)"
    using assms(4) leap by (auto simp: march_length_def split: if_splits)
  from that [OF eq b(1) b(2) b(5) q24 b(3) b(4) d4 c_def [symmetric] last] show ?thesis .
qed

lemma civil_core:
  assumes "0 \<le> y" "y < 400" "0 \<le> doy" "doy < march_length y"
  defines "doe \<equiv> y * 365 + y div 4 - y div 100 + doy"
  shows "(doe - doe div 1460 + doe div 36524 - doe div 146096) div 365 = y" "0 \<le> doe" "doe < 146097"
proof -
  obtain c q r where y: "y = 100 * c + 4 * q + r" and b: "0 \<le> c" "c \<le> 3" "0 \<le> q" "q \<le> 24" "0 \<le> r" "r \<le> 3"
    and dv: "y div 4 = 25 * c + q" "y div 100 = c" and last: "doy \<le> 364 \<or> doy = 365 \<and> r = 3 \<and> (q \<noteq> 24 \<or> c = 3)"
    using year_split [OF assms(1-4)] by metis
  have doe: "doe = 36524 * c + 1461 * q + 365 * r + doy"
    unfolding doe_def dv by (simp add: y)
  define t where "t = 24 * c + q + 365 * r + doy"
  define x :: int where "x = (if 1460 \<le> t then 1 else 0)"
  have d1: "doe div 1460 = 25 * c + q + x"
    unfolding doe using b last assms(3) by (intro int_div_eqI) (auto simp: x_def t_def)
  define z :: int where "z = (if doe = 146096 then 1 else 0)"
  have d2: "doe div 36524 = c + z" and d3: "doe div 146096 = z" and range: "0 \<le> doe" "doe < 146097"
    unfolding atomize_conj using b last assms(3) by (intro conjI int_div_eqI) (auto simp: z_def doe)
  have "doe - doe div 1460 + doe div 36524 - doe div 146096 = 365 * y + (doy - x)"
    unfolding d1 d2 d3 by (simp add: doe y)
  moreover have "0 \<le> doy - x" "doy - x < 365" using b last assms(3) by (auto simp: x_def t_def)
  ultimately show "(doe - doe div 1460 + doe div 36524 - doe div 146096) div 365 = y" by (intro int_div_eqI) simp_all
  show "0 \<le> doe" "doe < 146097" by (rule range)+
qed

lemma year_compose:
  assumes "0 \<le> doe" "doe < 146097"
  obtains y doy where "0 \<le> y" "y < 400" "0 \<le> doy" "doy < march_length y" "doe = y * 365 + y div 4 - y div 100 + doy"
proof -
  define c where "c = min 3 (doe div 36524)"
  define u where "u = doe - 36524 * c"
  define q where "q = u div 1461"
  define v where "v = u - 1461 * q"
  define r where "r = min 3 (v div 365)"
  define doy where "doy = v - 365 * r"
  have c: "0 \<le> c" "c \<le> 3" using assms by (simp_all add: c_def pos_imp_zdiv_nonneg_iff)
  have u: "0 \<le> u" "u \<le> 36524" "c \<noteq> 3 \<longrightarrow> u < 36524" using assms by (auto simp: u_def c_def min_def)
  have q: "0 \<le> q" "q \<le> 24" using u(1,2) by (auto simp: q_def)
  have v: "0 \<le> v" "v < 1461" by (simp_all add: v_def q_def flip: minus_mod_eq_mult_div)
  have r: "0 \<le> r" "r \<le> 3" using v by (auto simp: r_def)
  have doy: "0 \<le> doy" "doy \<le> 365" "r \<noteq> 3 \<longrightarrow> doy < 365" using v by (auto simp: doy_def r_def min_def)
  define y where "y = 100 * c + 4 * q + r"
  have y: "0 \<le> y" "y < 400" using c q r by (simp_all add: y_def)
  have dv: "y div 4 = 25 * c + q" "y div 100 = c" using c q r by (auto simp: y_def intro!: int_div_eqI)
  have doe: "doe = y * 365 + y div 4 - y div 100 + doy" unfolding dv by (simp add: y_def doy_def v_def u_def)
  have "doy < march_length y"
  proof (cases "doy = 365")
    case True
    then have r3: "r = 3" and v3: "v = 1460" using doy(3) r by (auto simp: doy_def)
    have "y + 1 = 4 * (q + 1) + 100 * c" by (simp add: y_def r3)
    then have "(y + 1) mod 100 = 4 * (q + 1) mod 100" by (metis mod_mult_self2)
    then have cent: "q < 24 \<Longrightarrow> (y + 1) mod 100 = 4 * (q + 1)" using q(1) by (simp add: mod_pos_pos_trivial)
    have "q \<noteq> 24 \<or> c = 3" using u(3) v3 by (auto simp: v_def)
    then have "is_leap_year (y + 1)"
    proof
      assume "q \<noteq> 24"
      then have "(y + 1) mod 100 = 4 * (q + 1)" using cent q(1,2) by simp
      moreover have "(y + 1) mod 4 = 0" by (simp add: y_def r3)
      ultimately show ?thesis using q(1) by (simp add: is_leap_year_def)
    next
      assume c3: "c = 3"
      show ?thesis
      proof (cases "q = 24")
        case True
        then show ?thesis by (simp add: y_def r3 c3 is_leap_year_def)
      next
        case False
        then have "(y + 1) mod 100 = 4 * (q + 1)" using cent q(1,2) by simp
        moreover have "(y + 1) mod 4 = 0" by (simp add: y_def r3)
        ultimately show ?thesis using q(1) by (simp add: is_leap_year_def)
      qed
    qed
    with doy(2) show ?thesis by (simp add: march_length_def)
  next
    case False
    with doy(2) show ?thesis by (simp add: march_length_def)
  qed
  from that [OF y doy(1) this doe] show ?thesis .
qed

lemma is_leap_year_era: "is_leap_year (400 * e + y) = is_leap_year y"
proof -
  have "(400 * e + y) mod k = y mod k" if "k dvd 400" for k :: int
    using that by (metis dvd_mult2 mod_0_imp_dvd mod_eq_0_iff_dvd mod_add_left_eq add_0)
  then show ?thesis by (simp add: is_leap_year_def)
qed

lemma civil_from_days_eq:
  assumes "0 \<le> z" "z < 20000" "0 \<le> doy" "doy < march_length z" "n + 719468 = march_days z + doy"
  shows "civil_from_days n = Some (date_of z doy)"
proof -
  define e r where "e = z div 400" and "r = z mod 400"
  have er: "z = 400 * e + r" "0 \<le> r" "r < 400" "0 \<le> e" "e < 50"
    using assms(1,2) by (simp_all add: e_def r_def pos_imp_zdiv_nonneg_iff)
  have "march_length z = march_length r"
    using is_leap_year_era [of e "r + 1"] by (simp add: march_length_def er(1) add.assoc)
  then have doy: "doy < march_length r" using assms(4) by simp
  define doe where "doe = r * 365 + r div 4 - r div 100 + doy"
  note core = civil_core [OF er(2,3) assms(3) doy, folded doe_def]
  have days: "n + 719468 = e * 146097 + doe"
    using march_days_era [OF er(2,3), of e] assms(5) by (simp add: er(1) doe_def mult.commute)
  have "0 \<le> n + 719468" using days core(2) er(4) by simp
  have d: "(n + 719468) sdiv 146097 = e"
    unfolding sdiv_nonneg [OF \<open>0 \<le> n + 719468\<close>, of 146097, simplified]
    using days core(2,3) by (intro int_div_eqI) simp_all
  have doyr: "doe - (365 * r + r div 4 - r div 100) = doy" by (simp add: doe_def)
  have le: "doy \<le> 365" using assms(4) by (auto simp: march_length_def split: if_splits)
  have w: "wrap32 doe = doe" "wrap32 (doe - doe div 1460 + doe div 36524 - doe div 146096) = doe - doe div 1460 + doe div 36524 - doe div 146096"
    using core(2,3) by simp_all
  have w2: "wrap32 (365 * r + r div 4 - r div 100) = 365 * r + r div 4 - r div 100" "wrap32 doy = doy"
    "wrap32 (5 * doy + 2) = 5 * doy + 2" "wrap32 (e * 400) = e * 400"
    using er(2-5) assms(3) le by simp_all
  have yv: "to_int32 (wrap32 (r + e * 400)) = z" using er assms(1,2) by (simp add: to_int32_def add.commute mult.commute)
  define mp where "mp = (5 * doy + 2) div 153"
  have mp: "0 \<le> mp" "mp \<le> 11" using assms(3) le by (auto simp: mp_def)
  have ms: "0 \<le> 153 * mp + 2" "153 * mp + 2 \<le> 5 * doy + 4" using mp(1) by (auto simp: mp_def)
  have w3: "wrap32 (doy - wrap32 (153 * mp + 2) div 5 + 1) = doy - month_start mp + 1"
    "wrap32 (if mp < 10 then mp + 3 else mp - 9) = (if mp < 10 then mp + 3 else mp - 9)"
    using mp ms le by (auto simp: month_start_def)
  have i: "i64 (n + 719468) = Some (n + 719468)" "i64 (e * 146097) = Some (e * 146097)" "i64 doe = Some doe"
    "i64 (e * 400) = Some (e * 400)"
    using days core(2,3) er(4,5) by (simp_all add: i64_def int64_limits)
  have rest: "n + 719468 - e * 146097 = doe" using days by simp
  show ?thesis
    unfolding civil_from_days_def i(1)
    by (simp only: \<open>0 \<le> n + 719468\<close> d i rest w core(1) w2 doyr yv w3 date_of_def Let_def if_True
        Option.bind.simps mp_def [symmetric])
qed

text \<open>The number of days of a month, as the table and the leap-year test of \<open>valid_date\<close> give it.\<close>

definition month_length :: "int \<Rightarrow> int \<Rightarrow> int" where
  "month_length y m = (if m = 2 \<and> is_leap_year y then month_days ! nat (m - 1) + 1 else month_days ! nat (m - 1))"

lemma valid_date_iff:
  "valid_date y m d \<longleftrightarrow> 1 \<le> y \<and> y \<le> 9999 \<and> 1 \<le> m \<and> m \<le> 12 \<and> 1 \<le> d \<and> d \<le> month_length y m"
  by (auto simp: valid_date_def month_length_def Let_def)

lemma twelve: "0 \<le> k \<Longrightarrow> k \<le> 11 \<Longrightarrow> k = 0 \<or> k = 1 \<or> k = 2 \<or> k = 3 \<or> k = 4 \<or> k = 5 \<or> k = 6 \<or> k = 7 \<or>
    k = 8 \<or> k = 9 \<or> k = 10 \<or> k = (11 :: int)"
  by arith

lemma date_of_valid:
  assumes "0 \<le> doy" "doy < march_length z" "date_of z doy = (y, m, d)"
  shows "march_year y m = z" "month_start (march_month m) + d - 1 = doy" "1 \<le> m" "m \<le> 12" "1 \<le> d" "d \<le> month_length y m"
proof -
  define mp where "mp = (5 * doy + 2) div 153"
  have le: "doy \<le> 364 \<or> doy = 365 \<and> is_leap_year (z + 1)" using assms(2) by (auto simp: march_length_def split: if_splits)
  have mp: "0 \<le> mp" "mp \<le> 11" using assms(1) le by (auto simp: mp_def)
  have lo: "153 * mp \<le> 5 * doy + 2" "5 * doy + 2 < 153 * mp + 153" by (simp_all add: mp_def)
  have m: "m = (if mp < 10 then mp + 3 else mp - 9)" and y: "y = z + (if m \<le> 2 then 1 else 0)"
    and d: "d = doy - month_start mp + 1"
    using assms(3) by (auto simp: date_of_def Let_def simp flip: mp_def)
  have mm: "march_month m = mp" using mp by (simp add: m march_month_def)
  show "march_year y m = z" by (simp add: y march_year_def)
  show "month_start (march_month m) + d - 1 = doy" by (simp add: mm d)
  show "1 \<le> m" "m \<le> 12" using mp by (simp_all add: m)
  show "1 \<le> d" using twelve [OF mp] lo by (elim disjE) (simp_all add: d month_start_def)
  show "d \<le> month_length y m"
    using twelve [OF mp] lo le y
    by (elim disjE) (simp_all add: d month_start_def m month_length_def month_days_def)
qed

lemma date_of_march:
  assumes "valid_date y m d"
  defines "doy \<equiv> month_start (march_month m) + d - 1"
  shows "date_of (march_year y m) doy = (y, m, d)" "0 \<le> doy" "doy < march_length (march_year y m)"
proof -
  define mp where "mp = march_month m"
  have v: "1 \<le> m" "m \<le> 12" "1 \<le> d" "d \<le> month_length y m" using assms(1) by (simp_all add: valid_date_iff)
  have mp: "0 \<le> mp" "mp \<le> 11" and m: "m = (if mp < 10 then mp + 3 else mp - 9)"
    using v(1,2) by (auto simp: mp_def march_month_def)
  have mpd: "(5 * doy + 2) div 153 = mp"
    using twelve [OF mp] v(3,4) unfolding doy_def mp_def [symmetric]
    by (elim disjE; intro int_div_eqI) (auto simp: month_start_def m month_length_def month_days_def split: if_splits)
  show "date_of (march_year y m) doy = (y, m, d)"
    unfolding date_of_def mpd Let_def m [symmetric]
    by (simp add: march_year_def doy_def flip: mp_def)
  show "0 \<le> doy" using mp v(3) by (simp add: doy_def month_start_def mp_def [symmetric])
  have "month_start mp + d - 1 < march_length (march_year y m)"
    using twelve [OF mp] v(3,4)
    by (elim disjE) (auto simp: month_start_def m month_length_def month_days_def march_length_def march_year_def split: if_splits)
  then show "doy < march_length (march_year y m)" by (simp add: doy_def mp_def)
qed

section \<open>Days and dates\<close>

text \<open>The day after a date, by month lengths alone.\<close>

definition next_date :: "int \<Rightarrow> int \<Rightarrow> int \<Rightarrow> int \<times> int \<times> int" where
  "next_date y m d =
     (if d < month_length y m then (y, m, d + 1) else if m < 12 then (y, m + 1, 1) else (y + 1, 1, 1))"

lemma div_step: "0 < k \<Longrightarrow> y div k - (y - 1) div k = (if y mod k = 0 then 1 else (0 :: int))"
proof (cases "y mod k = 0")
  case True
  assume "0 < k"
  obtain q where "y = k * q" using True by auto
  then have "(y - 1) div k = q - 1" using \<open>0 < k\<close> by (intro int_div_eqI) (simp_all add: algebra_simps)
  with True \<open>y = k * q\<close> \<open>0 < k\<close> show ?thesis by simp
next
  case False
  assume "0 < k"
  have "0 \<le> y mod k" "y mod k < k" "y = k * (y div k) + y mod k" using \<open>0 < k\<close> by simp_all
  then have "(y - 1) div k = y div k" using False by (intro int_div_eqI) linarith+
  with False show ?thesis by simp
qed

lemma march_days_step: "march_days y = march_days (y - 1) + (if is_leap_year y then 366 else 365)"
proof -
  define a b c where "a = (y mod 4 = 0)" and "b = (y mod 100 = 0)" and "c = (y mod 400 = 0)"
  have "365 * y + p - q + r - (365 * (y - 1) + p' - q' + r') = 365 + (p - p') - (q - q') + (r - r')" for p p' q q' r r'
    by simp
  then have "march_days y - march_days (y - 1) =
      365 + (y div 4 - (y - 1) div 4) - (y div 100 - (y - 1) div 100) + (y div 400 - (y - 1) div 400)"
    unfolding march_days_def .
  also have "\<dots> = 365 + (if a then 1 else 0) - (if b then 1 else 0) + (if c then 1 else 0)"
    by (simp only: div_step zero_less_numeral a_def b_def c_def)
  also have "\<dots> = (if a \<and> (\<not> b \<or> c) then 366 else 365)"
  proof -
    have m: "y mod 400 mod 100 = y mod 100" "y mod 100 mod 4 = y mod 4" by (rule mod_mod_cancel, simp)+
    have "c \<Longrightarrow> b" unfolding b_def c_def m(1) [symmetric] by (simp only: mod_0)
    moreover have "b \<Longrightarrow> a" unfolding a_def b_def m(2) [symmetric] by (simp only: mod_0)
    ultimately show ?thesis by (cases a; cases b; cases c) simp_all
  qed
  finally have "march_days y = (if a \<and> (\<not> b \<or> c) then 366 else 365) + march_days (y - 1)"
    by (simp only: diff_eq_eq)
  moreover have "is_leap_year y \<longleftrightarrow> a \<and> (\<not> b \<or> c)" by (simp only: is_leap_year_def a_def b_def c_def)
  ultimately show ?thesis by (simp only: add.commute)
qed

lemma month_twelve: "1 \<le> k \<Longrightarrow> k \<le> 12 \<Longrightarrow> k = 1 \<or> k = 2 \<or> k = 3 \<or> k = 4 \<or> k = 5 \<or> k = 6 \<or> k = 7 \<or>
    k = 8 \<or> k = 9 \<or> k = 10 \<or> k = 11 \<or> k = (12 :: int)"
  by arith

lemma day_number_next:
  assumes "1 \<le> m" "m \<le> 12" "1 \<le> d" "d \<le> month_length y m" "next_date y m d = (y', m', d')"
  shows "day_number y' m' d' = day_number y m d + 1"
proof (cases "d < month_length y m")
  case True
  with assms(5) show ?thesis by (auto simp: next_date_def day_number_def)
next
  case False
  with assms(4) have d: "d = month_length y m" by simp
  with assms(5) have n: "(y', m', d') = (if m < 12 then (y, m + 1, 1) else (y + 1, 1, 1))" by (auto simp: next_date_def)
  show ?thesis
    using month_twelve [OF assms(1,2)] n march_days_step [of y]
    by (elim disjE) (auto simp: d day_number_def march_year_def march_month_def month_start_def month_length_def month_days_def)
qed

lemma civil_of_days_of_civil:
  assumes "valid_date y m d"
  shows "days_from_civil y m d = Some (day_number y m d)" "civil_from_days (day_number y m d) = Some (y, m, d)"
proof -
  have v: "1 \<le> y" "y \<le> 9999" "1 \<le> m" "m \<le> 12" "1 \<le> d" "d \<le> month_length y m" using assms by (simp_all add: valid_date_iff)
  have "d \<le> 31" using month_twelve [OF v(3,4)] v(6)
    by (elim disjE) (auto simp: month_length_def month_days_def split: if_splits)
  with v show "days_from_civil y m d = Some (day_number y m d)" by (intro days_from_civil_eq) simp_all
  define doy where "doy = month_start (march_month m) + d - 1"
  note dm = date_of_march [OF assms, folded doy_def]
  have "day_number y m d + 719468 = march_days (march_year y m) + doy" by (simp add: day_number_def doy_def)
  moreover have "0 \<le> march_year y m" "march_year y m < 20000" using v(1,2) by (simp_all add: march_year_def)
  ultimately show "civil_from_days (day_number y m d) = Some (y, m, d)"
    using civil_from_days_eq [of "march_year y m" doy] dm by simp
qed

lemma march_days_mono: "y \<le> z \<Longrightarrow> march_days y \<le> march_days z"
proof (induction z rule: int_ge_induct)
  case base
  then show ?case by simp
next
  case (step i)
  then show ?case using march_days_step [of "i + 1"] by simp
qed

text \<open>The days the text form covers, from 0001-01-01 to 9999-12-31.\<close>

lemma days_of_civil_of_days:
  assumes "- 719162 \<le> n" "n \<le> 2932896"
  obtains y m d where "civil_from_days n = Some (y, m, d)" "valid_date y m d" "days_from_civil y m d = Some n"
proof -
  let ?N = "n + 719468"
  define e doe where "e = ?N div 146097" and "doe = ?N mod 146097"
  have N: "?N = e * 146097 + doe" "0 \<le> doe" "doe < 146097" "0 \<le> e" "e < 26"
    using assms by (simp_all add: e_def doe_def pos_imp_zdiv_nonneg_iff)
  obtain r doy where r: "0 \<le> r" "r < 400" "0 \<le> doy" "doy < march_length r" "doe = r * 365 + r div 4 - r div 100 + doy"
    using year_compose [OF N(2,3)] by blast
  define z where "z = 400 * e + r"
  have z: "0 \<le> z" "z < 20000" using r N(4,5) by (simp_all add: z_def)
  have len: "march_length z = march_length r"
    using is_leap_year_era [of e "r + 1"] by (simp add: march_length_def z_def add.assoc)
  have days: "?N = march_days z + doy"
    using march_days_era [OF r(1,2), of e] N(1) r(5) by (simp add: z_def mult.commute)
  obtain y m d where dt: "date_of z doy = (y, m, d)" by (metis prod_cases3)
  note v = date_of_valid [OF r(3) r(4) [folded len] dt]
  have mp: "month_start (march_month m) \<le> doy" using v(2,5) by simp
  have "z \<le> 9999"
  proof (rule ccontr)
    assume "\<not> z \<le> 9999"
    then have "march_days 10000 \<le> march_days z" by (intro march_days_mono) simp
    with days assms(2) r(3) show False by (simp add: march_days_def)
  qed
  have "1 \<le> y"
  proof (rule ccontr)
    assume "\<not> 1 \<le> y"
    then have "z = 0" "\<not> m \<le> 2" using v(1) z by (auto simp: march_year_def split: if_splits)
    moreover from this have "doy < 306"
      using month_twelve [OF v(3,4)] v(2,6)
      by (elim disjE) (auto simp: march_month_def month_start_def month_length_def month_days_def)
    ultimately show False using days assms(1) by (simp add: march_days_def)
  qed
  moreover have "y \<le> 9999"
  proof (rule ccontr)
    assume "\<not> y \<le> 9999"
    then have "z = 9999" "m \<le> 2" using v(1) \<open>z \<le> 9999\<close> by (auto simp: march_year_def split: if_splits)
    moreover from this have "306 \<le> doy" using v(2,3,5)
      by (auto simp: march_month_def month_start_def dest: le_imp_less_or_eq)
    ultimately show False using days assms(2) by (simp add: march_days_def)
  qed
  ultimately have valid: "valid_date y m d" using v by (simp add: valid_date_iff)
  have "day_number y m d = n" using v(1,2) days by (simp add: day_number_def)
  with civil_of_days_of_civil [OF valid] that [OF _ valid] show ?thesis by simp
qed

section \<open>Digits\<close>

text \<open>A number below \<open>10 ^ w\<close> as exactly \<open>w\<close> digits, and the number digits stand for.\<close>

fun digits :: "nat \<Rightarrow> nat \<Rightarrow> string" where
  "digits 0 n = []"
| "digits (Suc w) n = digits w (n div 10) @ [char_of (48 + n mod 10)]"

definition number :: "string \<Rightarrow> int" where
  "number cs = foldl (\<lambda>v c. v * 10 + digit_value c) 0 cs"

lemma length_digits [simp]: "length (digits w n) = w"
  by (induction w arbitrary: n) simp_all

lemma digit_char: "k < 10 \<Longrightarrow> is_digit (char_of (48 + k)) \<and> digit_value (char_of (48 + k)) = int k" for k :: nat
  by (simp add: is_digit_def digit_value_def)

lemma digit_value_bounds: "is_digit c \<Longrightarrow> 0 \<le> digit_value c \<and> digit_value c < 10"
  by (auto simp: is_digit_def digit_value_def)

lemma all_digits: "\<forall>c\<in>set (digits w n). is_digit c"
  by (induction w arbitrary: n) (auto simp: digit_char)

lemma number_snoc [simp]: "number (cs @ [c]) = number cs * 10 + digit_value c"
  by (simp add: number_def)

lemma number_Nil [simp]: "number [] = 0"
  by (simp add: number_def)

lemma number_digits: "n < 10 ^ w \<Longrightarrow> number (digits w n) = int n"
proof (induction w arbitrary: n)
  case 0
  then show ?case by simp
next
  case (Suc w)
  then have "n div 10 < 10 ^ w" by (simp add: div_less_iff_less_mult mult.commute)
  moreover have "int (n div 10) * 10 + int (n mod 10) = int n" by presburger
  ultimately show ?case using Suc.IH [of "n div 10"] by (simp add: digit_char)
qed

lemma number_bounds: "\<forall>c\<in>set cs. is_digit c \<Longrightarrow> 0 \<le> number cs \<and> number cs < 10 ^ length cs"
proof (induction cs rule: rev_induct)
  case Nil
  then show ?case by simp
next
  case (snoc c cs)
  then have "0 \<le> number cs" "number cs < 10 ^ length cs" "0 \<le> digit_value c" "digit_value c < 10"
    using digit_value_bounds [of c] by auto
  then show ?case by simp
qed

lemma char_of_digit: "is_digit c \<Longrightarrow> char_of (48 + nat (digit_value c)) = c"
  by (simp add: is_digit_def digit_value_def nat_diff_distrib)

lemma digits_number: "\<forall>c\<in>set cs. is_digit c \<Longrightarrow> digits (length cs) (nat (number cs)) = cs"
proof (induction cs rule: rev_induct)
  case Nil
  then show ?case by simp
next
  case (snoc c cs)
  then have c: "0 \<le> digit_value c" "digit_value c < 10" and d: "is_digit c"
    using digit_value_bounds [of c] by auto
  have n: "0 \<le> number cs" using number_bounds [of cs] snoc.prems by auto
  have "nat (number cs * 10 + digit_value c) = nat (number cs) * 10 + nat (digit_value c)"
    using n c by (simp add: nat_add_distrib nat_mult_distrib)
  moreover have "nat (digit_value c) < 10" using c by simp
  ultimately show ?case using snoc char_of_digit [OF d] by simp
qed

lemma zero_padded_decimal: "n < 10 ^ w \<Longrightarrow> 0 < w \<Longrightarrow> zero_padded w (decimal n) = digits w n"
proof (induction w arbitrary: n)
  case 0
  then show ?case by simp
next
  case (Suc w)
  show ?case
  proof (cases "n < 10")
    case True
    have "char_of (48 :: nat) = CHR ''0''" by code_simp
    then have "digits w 0 = replicate w (CHR ''0'')" for w
      by (induction w) (simp_all add: replicate_append_same)
    with True show ?thesis by (subst decimal.simps) (simp add: zero_padded_def)
  next
    case False
    then have w: "0 < w" using Suc.prems(1) by (cases w) auto
    have "n div 10 < 10 ^ w" using Suc.prems(1) by (simp add: div_less_iff_less_mult mult.commute)
    from Suc.IH [OF this w] False show ?thesis by (subst decimal.simps) (simp add: zero_padded_def)
  qed
qed

lemma printf_int_digits: "0 \<le> x \<Longrightarrow> x < 10 ^ w \<Longrightarrow> 0 < w \<Longrightarrow> printf_int w x = digits w (nat x)"
  using zero_padded_decimal [of "nat x" w] by (simp add: printf_int_def nat_less_iff)

lemma digits_loop_number:
  "\<forall>c\<in>set cs. is_digit c \<Longrightarrow> length cs \<le> 9 \<Longrightarrow> digits_loop cs 0 = Some (number cs)"
proof -
  have gen: "digits_loop cs v = Some (foldl (\<lambda>v c. v * 10 + digit_value c) v cs)"
    if "\<forall>c\<in>set cs. is_digit c" "0 \<le> v" "v < 10 ^ k" "k + length cs \<le> 9" for v k
    using that
  proof (induction cs arbitrary: v k)
    case Nil
    then show ?case by simp
  next
    case (Cons c cs)
    have c: "0 \<le> digit_value c" "digit_value c < 10" using digit_value_bounds [of c] Cons.prems(1) by auto
    have v: "0 \<le> v * 10 + digit_value c" "v * 10 + digit_value c < 10 ^ Suc k" using Cons.prems c by simp_all
    have "(10 :: int) ^ Suc k \<le> 10 ^ 9" using Cons.prems(4) by (intro power_increasing) simp_all
    then have "wrap32 (v * 10 + digit_value c) = v * 10 + digit_value c" using v by simp
    moreover have "digits_loop cs (v * 10 + digit_value c) = Some (foldl (\<lambda>v c. v * 10 + digit_value c) (v * 10 + digit_value c) cs)"
      using Cons.prems v by (intro Cons.IH [where k = "Suc k"]) simp_all
    ultimately show ?case using Cons.prems(1) by simp
  qed
  assume "\<forall>c\<in>set cs. is_digit c" "length cs \<le> 9"
  with gen [of 0 0] show ?thesis by (simp add: number_def)
qed

lemma digits_loop_SomeD: "digits_loop cs v = Some n \<Longrightarrow> \<forall>c\<in>set cs. is_digit c"
  by (induction cs arbitrary: v) (auto split: if_splits)

lemma digits_loop_iff: "length cs \<le> 9 \<Longrightarrow> digits_loop cs 0 = Some n \<longleftrightarrow> (\<forall>c\<in>set cs. is_digit c) \<and> n = number cs"
  using digits_loop_number [of cs] digits_loop_SomeD [of cs 0 n] by auto

section \<open>The text of a timestamp\<close>

definition all_digit :: "string \<Rightarrow> bool" where
  "all_digit cs \<longleftrightarrow> (\<forall>c\<in>set cs. is_digit c)"

text \<open>A text as its six numbers, five delimiters and the rest.\<close>

definition assemble ::
    "string \<Rightarrow> char \<Rightarrow> string \<Rightarrow> char \<Rightarrow> string \<Rightarrow> char \<Rightarrow> string \<Rightarrow> char \<Rightarrow> string \<Rightarrow> char \<Rightarrow> string \<Rightarrow> string \<Rightarrow> string" where
  "assemble A a B b C c D d E e F G = A @ a # B @ b # C @ c # D @ d # E @ e # F @ G"

lemma cut: "n < length t \<Longrightarrow> drop n t = t ! n # drop (Suc n) t" "drop n t = take k (drop n t) @ drop (n + k) t"
  by (simp_all add: Cons_nth_drop_Suc add.commute flip: drop_drop)

lemma assembled:
  assumes "19 \<le> length t"
  shows "t = assemble (take 4 t) (t ! 4) (take 2 (drop 5 t)) (t ! 7) (take 2 (drop 8 t)) (t ! 10) (take 2 (drop 11 t))
    (t ! 13) (take 2 (drop 14 t)) (t ! 16) (take 2 (drop 17 t)) (drop 19 t)"
  using assms cut(2) [of 0 t 4] cut(1) [of 4 t] cut(2) [of 5 t 2] cut(1) [of 7 t] cut(2) [of 8 t 2] cut(1) [of 10 t]
    cut(2) [of 11 t 2] cut(1) [of 13 t] cut(2) [of 14 t 2] cut(1) [of 16 t] cut(2) [of 17 t 2]
  unfolding assemble_def by simp

lemma parse_assembled:
  assumes "length A = 4" "length B = 2" "length C = 2" "length D = 2" "length E = 2" "length F = 2"
  shows "parse_date_time (assemble A a B b C c D d E e F G) =
    (if a = CHR ''-'' \<and> b = CHR ''-'' \<and> c = CHR ''T'' \<and> d = CHR '':'' \<and> e = CHR '':'' \<and>
        all_digit A \<and> all_digit B \<and> all_digit C \<and> all_digit D \<and> all_digit E \<and> all_digit F
     then Some (number A, number B, number C, number D, number E, number F) else None)"
    "drop 19 (assemble A a B b C c D d E e F G) = G" "length (assemble A a B b C c D d E e F G) = 19 + length G"
proof -
  let ?t = "assemble A a B b C c D d E e F G"
  have at: "?t ! 4 = a" "?t ! 7 = b" "?t ! 10 = c" "?t ! 13 = d" "?t ! 16 = e"
    using assms by (simp_all add: assemble_def nth_append)
  have parts: "take 4 ?t = A" "take 2 (drop 5 ?t) = B" "take 2 (drop 8 ?t) = C" "take 2 (drop 11 ?t) = D"
    "take 2 (drop 14 ?t) = E" "take 2 (drop 17 ?t) = F"
    using assms by (simp_all add: assemble_def)
  have loop: "digits_loop cs 0 = (if all_digit cs then Some (number cs) else None)" if "length cs \<le> 9" for cs
    using digits_loop_iff [OF that] by (cases "digits_loop cs 0") (auto simp: all_digit_def)
  show "parse_date_time ?t = (if a = CHR ''-'' \<and> b = CHR ''-'' \<and> c = CHR ''T'' \<and> d = CHR '':'' \<and> e = CHR '':'' \<and>
        all_digit A \<and> all_digit B \<and> all_digit C \<and> all_digit D \<and> all_digit E \<and> all_digit F
     then Some (number A, number B, number C, number D, number E, number F) else None)"
    unfolding parse_date_time_def parse_digits_def at parts using assms by (simp add: loop)
  show "drop 19 ?t = G" "length ?t = 19 + length G" using assms by (simp_all add: assemble_def)
qed

lemma fraction_loop_digits:
  assumes "all_digit ds" "\<not> is_digit c" "length ds \<le> 9"
  shows "fraction_loop (ds @ c # cs) 0 0 = Some (length ds, number ds, c # cs)"
proof -
  have "fraction_loop (ds @ c # cs) k v = Some (k + length ds, foldl (\<lambda>v c. v * 10 + digit_value c) v ds, c # cs)"
    if "all_digit ds" "0 \<le> v" "v < 10 ^ k" "k + length ds \<le> 9" for v k
    using that
  proof (induction ds arbitrary: v k)
    case Nil
    then show ?case using assms(2) by simp
  next
    case (Cons x ds)
    have x: "0 \<le> digit_value x" "digit_value x < 10" "is_digit x"
      using digit_value_bounds [of x] Cons.prems(1) by (auto simp: all_digit_def)
    have v: "0 \<le> v * 10 + digit_value x" "v * 10 + digit_value x < 10 ^ Suc k" using Cons.prems x by simp_all
    have "(10 :: int) ^ Suc k \<le> 10 ^ 9" using Cons.prems(4) by (intro power_increasing) simp_all
    then have "wrap32 (v * 10 + digit_value x) = v * 10 + digit_value x" using v by simp
    moreover have "fraction_loop (ds @ c # cs) (Suc k) (v * 10 + digit_value x) =
        Some (Suc k + length ds, foldl (\<lambda>v c. v * 10 + digit_value c) (v * 10 + digit_value x) ds, c # cs)"
      using Cons.prems v by (intro Cons.IH) (simp_all add: all_digit_def)
    ultimately show ?case using Cons.prems(4) x(3) by simp
  qed
  from this [of 0 0] assms show ?thesis by (simp add: number_def)
qed

lemma fraction_loopD:
  "fraction_loop cs k v = Some (k', v', rest) \<Longrightarrow> k \<le> 9 \<Longrightarrow> \<exists>ds. cs = ds @ rest \<and> all_digit ds \<and> k' = k + length ds \<and> k' \<le> 9"
proof (induction cs arbitrary: k v)
  case Nil
  then show ?case by (auto simp: all_digit_def)
next
  case (Cons c cs)
  show ?case
  proof (cases "is_digit c")
    case True
    with Cons.prems have "k \<noteq> 9" "fraction_loop cs (k + 1) (wrap32 (v * 10 + digit_value c)) = Some (k', v', rest)"
      by (auto split: if_splits)
    from Cons.IH [OF this(2)] this(1) Cons.prems(2) obtain ds where
      "cs = ds @ rest" "all_digit ds" "k' = k + 1 + length ds" "k' \<le> 9" by auto
    with True have "c # cs = (c # ds) @ rest \<and> all_digit (c # ds) \<and> k' = k + length (c # ds) \<and> k' \<le> 9"
      by (simp add: all_digit_def)
    then show ?thesis by blast
  next
    case False
    with Cons.prems show ?thesis by (auto simp: all_digit_def)
  qed
qed

lemma scale_fraction_exact: "d \<le> 9 \<Longrightarrow> 0 \<le> v \<Longrightarrow> v < 10 ^ d \<Longrightarrow> scale_fraction d v = v * 10 ^ (9 - d)"
proof (induction "9 - d" arbitrary: d v)
  case 0
  then show ?case by (subst scale_fraction.simps) simp
next
  case (Suc k)
  then have d: "d < 9" by simp
  have "(10 :: int) ^ Suc d \<le> 10 ^ 9" using d by (intro power_increasing) simp_all
  then have w: "wrap32 (v * 10) = v * 10" using Suc.prems by simp
  have "scale_fraction (Suc d) (v * 10) = v * 10 * 10 ^ (9 - Suc d)"
    using Suc.prems Suc.hyps(2) d by (intro Suc.hyps(1)) simp_all
  moreover have "(10 :: int) ^ (9 - d) = 10 * 10 ^ (9 - Suc d)" using d by (simp flip: power_Suc add: Suc_diff_Suc)
  ultimately show ?case using d w by (subst scale_fraction.simps) simp
qed

text \<open>What the fraction and the zone can be, on what follows the seconds.\<close>

lemma parse_fraction_iff:
  assumes "19 < length t"
  shows "parse_fraction_and_zone t = Some v \<longleftrightarrow> drop 19 t = ''Z'' \<and> v = 0 \<or>
    (\<exists>ds. drop 19 t = CHR ''.'' # ds @ ''Z'' \<and> all_digit ds \<and> 1 \<le> length ds \<and> length ds \<le> 9 \<and>
      v = number ds * 10 ^ (9 - length ds))"
proof -
  have nz: "\<not> is_digit (CHR ''Z'')" by (simp add: is_digit_def)
  have hd: "drop 19 t = t ! 19 # drop 20 t" using cut(1) [OF assms] by simp
  show ?thesis
  proof (cases "t ! 19 = CHR ''.''")
    case False
    then show ?thesis using hd by (auto simp: parse_fraction_and_zone_def)
  next
    case True
    have "parse_fraction_and_zone t = Some v \<longleftrightarrow>
        (\<exists>digits value. fraction_loop (drop 20 t) 0 0 = Some (digits, value, ''Z'') \<and> digits \<noteq> 0 \<and> v = scale_fraction digits value)"
      using True by (auto simp: parse_fraction_and_zone_def split: option.splits if_splits)
    also have "\<dots> \<longleftrightarrow> (\<exists>ds. drop 20 t = ds @ ''Z'' \<and> all_digit ds \<and> 1 \<le> length ds \<and> length ds \<le> 9 \<and>
        v = scale_fraction (length ds) (number ds))"
      using fraction_loopD [of "drop 20 t" 0 0 _ _ "''Z''"] fraction_loop_digits [OF _ nz, of _ "[]"]
      by (fastforce simp: Suc_le_eq)
    also have "\<dots> \<longleftrightarrow> (\<exists>ds. drop 20 t = ds @ ''Z'' \<and> all_digit ds \<and> 1 \<le> length ds \<and> length ds \<le> 9 \<and>
        v = number ds * 10 ^ (9 - length ds))"
      using number_bounds by (metis all_digit_def scale_fraction_exact)
    finally show ?thesis using True hd by simp
  qed
qed

definition in_calendar :: "ut_time_utc \<Rightarrow> bool" where
  "in_calendar u \<longleftrightarrow> MIN_RFC3339_SECONDS \<le> utc_seconds u \<and> utc_seconds u \<le> MAX_RFC3339_SECONDS"

definition clock_text :: "int \<Rightarrow> int \<Rightarrow> int \<Rightarrow> int \<Rightarrow> int \<Rightarrow> string" where
  "clock_text y m d sod ns =
     assemble (digits 4 (nat y)) (CHR ''-'') (digits 2 (nat m)) (CHR ''-'') (digits 2 (nat d)) (CHR ''T'')
       (digits 2 (nat (sod div 3600))) (CHR '':'') (digits 2 (nat (sod div 60 mod 60))) (CHR '':'')
       (digits 2 (nat (sod mod 60))) (CHR ''.'' # digits 9 (nat ns) @ ''Z'')"

lemma split_day:
  "s sdiv 86400 = (if s smod 86400 < 0 then s div 86400 + 1 else s div (86400 :: int))"
  "s smod 86400 = (if s smod 86400 < 0 then s mod 86400 - 86400 else s mod (86400 :: int))"
  by (auto simp: signed_divide_int_eq_divide_int signed_modulo_int_eq_modulo_int)

lemma month_length_31:
  assumes "1 \<le> m" "m \<le> 12"
  shows "month_length y m \<le> 31"
  using month_twelve [OF assms] by (elim disjE) (auto simp: month_length_def month_days_def)

lemma length_clock_text: "length (clock_text y m d sod ns) = 30"
  by (simp add: clock_text_def parse_assembled(3))

lemma format_in_calendar:
  assumes u: "utc_ok u" "in_calendar u" and buf: "buffer \<noteq> []" "31 \<le> len"
    and civ: "civil_from_days (utc_seconds u div 86400) = Some (y, m, d)" and v: "valid_date y m d"
  shows "ut_time_rfc3339_format (Some u) buffer len = Some (UT_TIME_OK,
    clock_text y m d (utc_seconds u mod 86400) (uint (utc_nanosecond u)) @ [CHR 0x00] @ drop 31 buffer)"
proof -
  define s sod ns where "s = utc_seconds u" and "sod = s mod 86400" and "ns = uint (utc_nanosecond u)"
  note ud = utc_okD [OF u(1)]
  have sod: "0 \<le> sod" "sod < 86400" by (simp_all add: sod_def)
  have ns: "0 \<le> ns" "ns < 10 ^ 9" using ud by (simp_all add: ns_def)
  have vd: "1 \<le> y" "y \<le> 9999" "1 \<le> m" "m \<le> 12" "1 \<le> d" "d \<le> 31"
    using v month_length_31 [of m y] by (auto simp: valid_date_iff)
  have rng: "\<not> (s < MIN_RFC3339_SECONDS \<or> MAX_RFC3339_SECONDS < s)" "in_i64 (s div 86400)" "in_i64 sod"
    using u(2) sod by (auto simp: in_calendar_def s_def MIN_RFC3339_SECONDS_def MAX_RFC3339_SECONDS_def int64_limits)
  have day: "(if s smod 86400 < 0 then i64 (s sdiv 86400 - 1) else Some (s sdiv 86400)) = Some (s div 86400)"
    "(if s smod 86400 < 0 then i64 (s smod 86400 + 86400) else Some (s smod 86400)) = Some sod"
    using split_day [of s] rng(2,3) by (auto simp: sod_def)
  have clock: "sod sdiv 3600 = sod div 3600" "sod sdiv 60 smod 60 = sod div 60 mod 60" "sod smod 60 = sod mod 60"
    using sod by (simp_all add: sdiv_nonneg smod_nonneg pos_imp_zdiv_nonneg_iff)
  have parts: "0 \<le> sod div 3600" "sod div 3600 < 10 ^ 2" "0 \<le> sod div 60 mod 60" "sod div 60 mod 60 < 10 ^ 2"
    "0 \<le> sod mod 60" "sod mod 60 < 10 ^ 2"
    using sod pos_mod_bound [of 60 "sod div 60"] pos_mod_bound [of 60 sod] by (simp_all add: pos_imp_zdiv_nonneg_iff)
  let ?text = "clock_text y m d sod ns"
  have printed: "printf_int 4 y @ CHR ''-'' # printf_int 2 m @ CHR ''-'' # printf_int 2 d @ CHR ''T'' #
      printf_int 2 (sod div 3600) @ CHR '':'' # printf_int 2 (sod div 60 mod 60) @ CHR '':'' #
      printf_int 2 (sod mod 60) @ CHR ''.'' # printf_int 9 ns @ ''Z'' = ?text"
  proof -
    have "printf_int 4 y = digits 4 (nat y)" "printf_int 2 m = digits 2 (nat m)" "printf_int 2 d = digits 2 (nat d)"
      using vd by (simp_all add: printf_int_digits)
    moreover have "printf_int 9 ns = digits 9 (nat ns)" using ns by (simp add: printf_int_digits)
    moreover note printf_int_digits [OF parts(1,2) zero_less_numeral] printf_int_digits [OF parts(3,4) zero_less_numeral]
      printf_int_digits [OF parts(5,6) zero_less_numeral]
    ultimately show ?thesis by (simp only: clock_text_def assemble_def append.simps)
  qed
  have valid: "\<not> (\<not> ut_time_utc_is_valid (Some u) \<or> buffer = [])" "\<not> len < UT_TIME_RFC3339_BUFFER_SIZE"
    using ud buf by (simp_all add: UT_TIME_RFC3339_BUFFER_SIZE_def)
  have "snprintf buffer len ?text = (?text @ [CHR 0x00] @ drop 31 buffer, 30)"
    using buf(2) by (simp add: snprintf_def length_clock_text)
  then show ?thesis
    unfolding ut_time_rfc3339_format_def if_not_P [OF valid(1)] if_not_P [OF valid(2)] option.sel
      s_def [symmetric] ns_def [symmetric] if_not_P [OF rng(1)] Let_def day clock sod_def [symmetric]
    using civ by (simp add: clock printed flip: s_def)
qed

lemma digits_all [simp]: "all_digit (digits w n)"
  by (simp add: all_digit_def all_digits)

text \<open>What a successful parse of a text says, and the value it returns.\<close>

lemma parse_iff:
  "ut_time_rfc3339_parse (Some t) (Some r) = Some (UT_TIME_OK, Some u) \<longleftrightarrow>
    20 \<le> length t \<and> length t \<le> 30 \<and>
    (\<exists>y m d hh mm ss n. parse_date_time t = Some (y, m, d, hh, mm, ss) \<and> parse_fraction_and_zone t = Some n \<and>
      valid_date y m d \<and> hh \<le> 23 \<and> mm \<le> 59 \<and> ss \<le> 59 \<and>
      u = \<lparr>utc_seconds = day_number y m d * 86400 + hh * 3600 + mm * 60 + ss, utc_nanosecond = word_of_int n\<rparr>)"
  (is "?l = ?r")
  and parse_total: "ut_time_rfc3339_parse (Some t) (Some r) = Some (UT_TIME_INVALID_ARGUMENT, Some r) \<or>
    (\<exists>u. ut_time_rfc3339_parse (Some t) (Some r) = Some (UT_TIME_OK, Some u))"
proof -
  have nonneg: "0 \<le> y \<and> 0 \<le> m \<and> 0 \<le> d \<and> 0 \<le> hh \<and> 0 \<le> mm \<and> 0 \<le> ss"
    if "parse_date_time t = Some (y, m, d, hh, mm, ss)" for y m d hh mm ss
  proof -
    have "0 \<le> n" if "parse_digits x w = Some n" "w \<le> 9" for x w n
      using that digits_loop_iff [of "take w x" n] number_bounds [of "take w x"] by (auto simp: parse_digits_def)
    then show ?thesis using that by (auto simp: parse_date_time_def split: if_splits Option.bind_splits)
  qed
  have steps: "(do { days \<leftarrow> days_from_civil y m d; d' \<leftarrow> i64 (days * 86400); h \<leftarrow> i64 (hh * 3600); m' \<leftarrow> i64 (mm * 60);
        dh \<leftarrow> i64 (d' + h); dhm \<leftarrow> i64 (dh + m'); seconds \<leftarrow> i64 (dhm + ss);
        Some (UT_TIME_OK, Some \<lparr>utc_seconds = seconds, utc_nanosecond = word_of_int n\<rparr>) })
      = Some (UT_TIME_OK, Some \<lparr>utc_seconds = day_number y m d * 86400 + hh * 3600 + mm * 60 + ss, utc_nanosecond = word_of_int n\<rparr>)"
    if "valid_date y m d" "0 \<le> hh" "hh \<le> 23" "0 \<le> mm" "mm \<le> 59" "0 \<le> ss" "ss \<le> 59" for y m d hh mm ss n
  proof -
    have v: "1 \<le> y" "y \<le> 9999" "1 \<le> m" "m \<le> 12" "1 \<le> d" "d \<le> 31"
      using that(1) month_length_31 [of m y] by (auto simp: valid_date_iff)
    have "march_days 0 \<le> march_days (march_year y m)" "march_days (march_year y m) \<le> march_days 10000"
      using v(1,2) by (auto simp: march_year_def intro!: march_days_mono)
    moreover have "0 \<le> month_start (march_month m)" "month_start (march_month m) \<le> 400"
      using month_twelve [OF v(3,4)] by (elim disjE; simp add: march_month_def month_start_def)+
    ultimately have b: "- 1000000 \<le> day_number y m d" "day_number y m d \<le> 5000000"
      using v(5,6) by (simp_all add: day_number_def march_days_def)
    show ?thesis
      using b that(2-7) by (simp add: civil_of_days_of_civil(1) [OF that(1)] int64_limits i64_def)
  qed
  show "?l = ?r"
    using nonneg steps by (auto simp: ut_time_rfc3339_parse_def Let_def split: option.splits if_splits)
  show "ut_time_rfc3339_parse (Some t) (Some r) = Some (UT_TIME_INVALID_ARGUMENT, Some r) \<or>
    (\<exists>u. ut_time_rfc3339_parse (Some t) (Some r) = Some (UT_TIME_OK, Some u))"
    using nonneg steps by (auto simp: ut_time_rfc3339_parse_def Let_def split: option.splits if_splits)
qed

lemma clock_sum: "sod div 3600 * 3600 + sod div 60 mod 60 * 60 + sod mod 60 = (sod :: int)"
proof -
  define a where "a = sod div 60"
  have "sod div 3600 = a div 60" using zdiv_zmult2_eq [of 60 sod 60] by (simp add: a_def)
  moreover have "a div 60 * 60 + a mod 60 = a" "a * 60 + sod mod 60 = sod" by (simp_all add: a_def)
  moreover have "q * 3600 + r * 60 = (q * 60 + r) * 60" for q r :: int by simp
  ultimately show ?thesis by (simp only: flip: a_def)
qed

lemma parse_clock_text:
  assumes v: "valid_date y m d" and sod: "0 \<le> sod" "sod < 86400" and ns: "0 \<le> ns" "ns < 1000000000"
  shows "ut_time_rfc3339_parse (Some (clock_text y m d sod ns)) (Some r) =
    Some (UT_TIME_OK, Some \<lparr>utc_seconds = day_number y m d * 86400 + sod, utc_nanosecond = word_of_int ns\<rparr>)"
proof -
  let ?t = "clock_text y m d sod ns"
  have vd: "1 \<le> y" "y \<le> 9999" "1 \<le> m" "m \<le> 12" "1 \<le> d" "d \<le> 31"
    using v month_length_31 [of m y] by (auto simp: valid_date_iff)
  have parts: "0 \<le> sod div 3600" "sod div 3600 \<le> 23" "0 \<le> sod div 60 mod 60" "sod div 60 mod 60 \<le> 59" "0 \<le> sod mod 60" "sod mod 60 \<le> 59"
    using sod pos_mod_bound [of 60 "sod div 60"] pos_mod_bound [of 60 sod] by (simp_all add: pos_imp_zdiv_nonneg_iff)
  have num: "number (digits w (nat x)) = x" if "0 \<le> x" "x < 10 ^ w" for x w
    using number_digits [of "nat x" w] that by (simp add: nat_less_iff)
  have dt: "parse_date_time ?t = Some (y, m, d, sod div 3600, sod div 60 mod 60, sod mod 60)"
  proof -
    have "number (digits 4 (nat y)) = y" "number (digits 2 (nat m)) = m" "number (digits 2 (nat d)) = d"
      using vd by (simp_all add: num)
    moreover have "sod div 3600 < 10 ^ 2" "sod div 60 mod 60 < 10 ^ 2" "sod mod 60 < 10 ^ 2"
      using parts(2,4,6) by (auto intro: le_less_trans)
    note num [OF parts(1) this(1)] num [OF parts(3) this(2)] num [OF parts(5) this(3)]
    ultimately show ?thesis
      by (simp only: clock_text_def parse_assembled(1) length_digits digits_all simp_thms if_True)
  qed
  have dr: "drop 19 ?t = CHR ''.'' # digits 9 (nat ns) @ ''Z''" by (simp add: clock_text_def parse_assembled(2))
  have fr: "parse_fraction_and_zone ?t = Some ns"
    using parse_fraction_iff [of ?t ns] dr ns num [of ns 9] length_clock_text [of y m d sod ns]
    by (auto intro!: exI [of _ "digits 9 (nat ns)"])
  have "ut_time_rfc3339_parse (Some ?t) (Some r) = Some (UT_TIME_OK, Some \<lparr>utc_seconds =
      day_number y m d * 86400 + sod div 3600 * 3600 + sod div 60 mod 60 * 60 + sod mod 60, utc_nanosecond = word_of_int ns\<rparr>)"
    unfolding parse_iff length_clock_text
    by (rule conjI, simp, rule conjI, simp, rule exI [of _ y], rule exI [of _ m], rule exI [of _ d],
        rule exI [of _ "sod div 3600"], rule exI [of _ "sod div 60 mod 60"], rule exI [of _ "sod mod 60"],
        rule exI [of _ ns], intro conjI) (rule dt fr v parts refl)+
  moreover have "day_number y m d * 86400 + sod div 3600 * 3600 + sod div 60 mod 60 * 60 + sod mod 60 = day_number y m d * 86400 + sod"
    using clock_sum [of sod] by (simp only: add.assoc)
  ultimately show ?thesis by (simp only:)
qed

lemma day_number_range:
  assumes "valid_date y m d"
  shows "- 719162 \<le> day_number y m d \<and> day_number y m d \<le> 2932896"
proof -
  have v: "1 \<le> y" "y \<le> 9999" "1 \<le> m" "m \<le> 12" "1 \<le> d" "d \<le> month_length y m"
    using assms by (simp_all add: valid_date_iff)
  define z doy where "z = march_year y m" and "doy = month_start (march_month m) + d - 1"
  have b: "0 \<le> doy" "doy < march_length z" unfolding z_def doy_def using date_of_march [OF assms] by simp_all
  have n: "day_number y m d = march_days z + doy - 719468" by (simp add: day_number_def z_def doy_def)
  have doy: "m \<le> 2 \<longrightarrow> 306 \<le> doy" "\<not> m \<le> 2 \<longrightarrow> doy < 306" "doy < 366"
    using month_twelve [OF v(3,4)] v(5,6)
    by (elim disjE; auto simp: doy_def march_month_def month_start_def month_length_def month_days_def split: if_splits)+
  have "march_days 0 + 306 \<le> march_days z + doy"
  proof (cases "m \<le> 2")
    case True
    then have "0 \<le> z" using v(1) by (simp add: z_def march_year_def)
    from march_days_mono [OF this] doy(1) True show ?thesis by simp
  next
    case False
    then have "1 \<le> z" using v(1) by (simp add: z_def march_year_def)
    from march_days_mono [OF this] b(1) show ?thesis by (simp add: march_days_def [of 0] march_days_def [of 1])
  qed
  moreover have "march_days z + doy < march_days 9999 + 306"
  proof (cases "m \<le> 2")
    case True
    then have "z \<le> 9998" using v(2) by (simp add: z_def march_year_def)
    from march_days_mono [OF this] doy(3) show ?thesis by (simp add: march_days_def [of 9998] march_days_def [of 9999])
  next
    case False
    then have "z \<le> 9999" using v(2) by (simp add: z_def march_year_def)
    from march_days_mono [OF this] doy(2) False show ?thesis by simp
  qed
  ultimately show ?thesis unfolding n by (simp add: march_days_def [of 0] march_days_def [of 9999])
qed

section \<open>Properties\<close>

text \<open>Property C27. The two calendar routines are inverse to each other and agree with counting days: day
  0 is 1970-01-01, every valid date has a day number from which it is recovered, the date after it (by
  month lengths and leap years alone) has the next number, and every day from 0001-01-01 to 9999-12-31 is
  the number of a valid date. No step overflows.\<close>

theorem calendar_counts_days:
  assumes "valid_date y m d" and "- 719162 \<le> k" and "k \<le> 2932896"
  shows "\<exists>n y' m' d'. days_from_civil 1970 1 1 = Some 0 \<and> days_from_civil y m d = Some n \<and>
    civil_from_days n = Some (y, m, d) \<and> next_date y m d = (y', m', d') \<and>
    (valid_date y' m' d' \<longrightarrow> days_from_civil y' m' d' = Some (n + 1)) \<and>
    (\<exists>a b c. civil_from_days k = Some (a, b, c) \<and> valid_date a b c \<and> days_from_civil a b c = Some k)"
proof -
  have "valid_date 1970 1 1" by (simp add: valid_date_def month_days_def)
  then have epoch: "days_from_civil 1970 1 1 = Some 0"
    using civil_of_days_of_civil(1) [of 1970 1 1]
    by (simp add: day_number_def march_year_def march_month_def month_start_def march_days_def)
  obtain y' m' d' where nd: "next_date y m d = (y', m', d')" by (metis prod_cases3)
  have "day_number y' m' d' = day_number y m d + 1"
    using day_number_next [OF _ _ _ _ nd] assms(1) by (simp add: valid_date_iff)
  with epoch nd civil_of_days_of_civil [OF assms(1)] civil_of_days_of_civil(1) [of y' m' d']
    days_of_civil_of_days [OF assms(2,3)] show ?thesis by metis
qed

theorem calendar_counts_days_witness:
  "\<exists>n y' m' d'. days_from_civil 1970 1 1 = Some 0 \<and> days_from_civil 2000 2 29 = Some n \<and>
    civil_from_days n = Some (2000, 2, 29) \<and> next_date 2000 2 29 = (y', m', d') \<and>
    (valid_date y' m' d' \<longrightarrow> days_from_civil y' m' d' = Some (n + 1)) \<and>
    (\<exists>a b c. civil_from_days 0 = Some (a, b, c) \<and> valid_date a b c \<and> days_from_civil a b c = Some 0)"
  by (rule calendar_counts_days) (simp_all add: valid_date_def is_leap_year_def month_days_def)

text \<open>Property C24. Formatting a timestamp of the years 1 to 9999 writes a text of 30 characters and its
  NUL and nothing else, whatever the buffer's size from 31 bytes on, and parsing that text returns the very
  timestamp; any other timestamp is OUT_OF_RANGE and the buffer is untouched. No step overflows.\<close>

theorem rfc3339_round_trip:
  assumes "utc_ok u" and "buffer \<noteq> []" and "31 \<le> len"
  shows "if in_calendar u
    then \<exists>text. ut_time_rfc3339_format (Some u) buffer len = Some (UT_TIME_OK, text @ [CHR 0x00] @ drop 31 buffer) \<and>
      length text = 30 \<and> ut_time_rfc3339_parse (Some text) (Some r) = Some (UT_TIME_OK, Some u)
    else ut_time_rfc3339_format (Some u) buffer len = Some (UT_TIME_OUT_OF_RANGE, buffer)"
proof (cases "in_calendar u")
  case False
  with assms utc_okD [OF assms(1)] show ?thesis
    by (auto simp: ut_time_rfc3339_format_def in_calendar_def UT_TIME_RFC3339_BUFFER_SIZE_def)
next
  case True
  let ?s = "utc_seconds u" and ?ns = "uint (utc_nanosecond u)"
  have "- 719162 \<le> ?s div 86400" "?s div 86400 \<le> 2932896"
    using True zdiv_mono1 [of "- 62135596800" ?s 86400] zdiv_mono1 [of ?s 253402300799 86400]
    by (simp_all add: in_calendar_def MIN_RFC3339_SECONDS_def MAX_RFC3339_SECONDS_def)
  then obtain y m d where c: "civil_from_days (?s div 86400) = Some (y, m, d)" "valid_date y m d"
      "days_from_civil y m d = Some (?s div 86400)"
    by (rule days_of_civil_of_days)
  have "day_number y m d * 86400 + ?s mod 86400 = ?s" using c(3) civil_of_days_of_civil(1) [OF c(2)] by simp
  with parse_clock_text [OF c(2), of "?s mod 86400" ?ns r] utc_okD [OF assms(1)]
  have "ut_time_rfc3339_parse (Some (clock_text y m d (?s mod 86400) ?ns)) (Some r) = Some (UT_TIME_OK, Some u)"
    by simp
  with True format_in_calendar [OF assms(1) True assms(2,3) c(1,2)] length_clock_text show ?thesis by auto
qed

theorem rfc3339_round_trip_witness:
  "let u = \<lparr>utc_seconds = - 1, utc_nanosecond = 5\<rparr> in
   \<exists>text. ut_time_rfc3339_format (Some u) (replicate 31 CHR ''x'') 31 = Some (UT_TIME_OK, text @ [CHR 0x00]) \<and>
      length text = 30 \<and> ut_time_rfc3339_parse (Some text) (Some u) = Some (UT_TIME_OK, Some u)"
  using rfc3339_round_trip [of "\<lparr>utc_seconds = - 1, utc_nanosecond = 5\<rparr>" "replicate 31 CHR ''x''" 31 "\<lparr>utc_seconds = - 1, utc_nanosecond = 5\<rparr>"]
  by (simp add: Let_def utc_ok_def int64_limits ut_time_utc_is_valid_def UT_TIME_NANOSECONDS_PER_SECOND_def
      in_calendar_def MIN_RFC3339_SECONDS_def MAX_RFC3339_SECONDS_def)

text \<open>The parts of a time of day come back from its seconds, the digits of a fraction from its value.\<close>

lemma clock_parts:
  fixes hh mm ss :: int
  assumes nn: "0 \<le> hh" "0 \<le> mm" "0 \<le> ss" and clock: "mm \<le> 59" "ss \<le> 59"
  defines "sod \<equiv> hh * 3600 + mm * 60 + ss"
  shows "sod div 3600 = hh" "sod div 60 mod 60 = mm" "sod mod 60 = ss"
proof -
  have "sod div 60 = hh * 60 + mm" unfolding sod_def using nn clock by (intro int_div_eqI) simp_all
  moreover show "sod div 3600 = hh" unfolding sod_def using nn clock by (intro int_div_eqI) simp_all
  ultimately show "sod div 60 mod 60 = mm" using nn clock by simp
  have "sod = (hh * 60 + mm) * 60 + ss" by (simp add: sod_def)
  then have "sod mod 60 = ss mod 60" by (simp only: mod_mult_self3)
  then show "sod mod 60 = ss" using nn clock by simp
qed

lemma fraction_layout:
  assumes "parse_fraction_and_zone t = Some n" "19 < length t"
  shows "0 \<le> n \<and> n < 10 ^ 9 \<and> (length t = 30 \<longrightarrow> drop 19 t = CHR ''.'' # digits 9 (nat n) @ ''Z'')"
proof -
  consider "drop 19 t = ''Z''" "n = 0"
    | ds where "drop 19 t = CHR ''.'' # ds @ ''Z''" "all_digit ds" "length ds \<le> 9" "n = number ds * 10 ^ (9 - length ds)"
    using parse_fraction_iff [OF assms(2), of n, THEN iffD1, OF assms(1)] by blast
  then show ?thesis
  proof cases
    case 1
    have "length (drop 19 t) = 1" unfolding 1(1) by simp
    then have "length t \<noteq> 30" by simp
    with 1(2) show ?thesis by simp
  next
    case 2
    have nb: "0 \<le> number ds" "number ds < 10 ^ length ds" using number_bounds [of ds] 2(2) by (simp_all add: all_digit_def)
    have "number ds * 10 ^ (9 - length ds) < 10 ^ length ds * 10 ^ (9 - length ds)" using nb by simp
    also have "\<dots> = 10 ^ 9" using 2(3) by (simp flip: power_add)
    finally have "n < 10 ^ 9" unfolding 2(4) .
    moreover have "drop 19 t = CHR ''.'' # digits 9 (nat n) @ ''Z''" if "length t = 30"
    proof -
      have "length (drop 19 t) = length ds + 2" unfolding 2(1) by simp
      then have l9: "length ds = 9" using that by simp
      then have "n = number ds" using 2(4) by simp
      with digits_number [of ds] 2(1,2) l9 show ?thesis by (simp add: all_digit_def)
    qed
    ultimately show ?thesis using nb 2(4) by simp
  qed
qed

text \<open>Property C26. Parsing never overflows and either refuses a text with INVALID_ARGUMENT, leaving the
  cell, or returns a normalised timestamp of the years 1 to 9999. A text of full length that it accepts
  is the one formatting that timestamp gives, so accepted texts name real dates and times only.\<close>

theorem rfc3339_parse_is_strict:
  assumes "buffer \<noteq> []" and "31 \<le> len"
  shows "ut_time_rfc3339_parse (Some t) (Some r) = Some (UT_TIME_INVALID_ARGUMENT, Some r) \<or>
    (\<exists>u. ut_time_rfc3339_parse (Some t) (Some r) = Some (UT_TIME_OK, Some u) \<and> utc_ok u \<and> in_calendar u \<and>
      (length t = 30 \<longrightarrow> ut_time_rfc3339_format (Some u) buffer len = Some (UT_TIME_OK, t @ [CHR 0x00] @ drop 31 buffer)))"
proof (cases "ut_time_rfc3339_parse (Some t) (Some r) = Some (UT_TIME_INVALID_ARGUMENT, Some r)")
  case False
  then obtain u where u: "ut_time_rfc3339_parse (Some t) (Some r) = Some (UT_TIME_OK, Some u)" using parse_total by blast
  then obtain y m d hh mm ss n where len: "20 \<le> length t" and dt: "parse_date_time t = Some (y, m, d, hh, mm, ss)"
    and fr: "parse_fraction_and_zone t = Some n" and v: "valid_date y m d" and clock: "hh \<le> 23" "mm \<le> 59" "ss \<le> 59"
    and ueq: "u = \<lparr>utc_seconds = day_number y m d * 86400 + hh * 3600 + mm * 60 + ss, utc_nanosecond = word_of_int n\<rparr>"
    unfolding parse_iff by blast
  obtain A a B b C c D d' E e F G where t: "t = assemble A a B b C c D d' E e F G"
    and L: "length A = 4" "length B = 2" "length C = 2" "length D = 2" "length E = 2" "length F = 2"
    by (rule that [OF assembled]) (use len in simp_all)
  have num: "a = CHR ''-''" "b = CHR ''-''" "c = CHR ''T''" "d' = CHR '':''" "e = CHR '':''"
      "all_digit A" "all_digit B" "all_digit C" "all_digit D" "all_digit E" "all_digit F"
      "y = number A" "m = number B" "d = number C" "hh = number D" "mm = number E" "ss = number F"
    using dt unfolding t parse_assembled(1) [OF L] by (simp_all split: if_splits)
  define sod where "sod = hh * 3600 + mm * 60 + ss"
  have nn: "0 \<le> hh" "0 \<le> mm" "0 \<le> ss" using num number_bounds by (auto simp: all_digit_def)
  have sod: "0 \<le> sod" "sod < 86400" using nn clock by (simp_all add: sod_def)
  have s: "utc_seconds u = day_number y m d * 86400 + sod" by (simp add: ueq sod_def)
  have dm: "utc_seconds u div 86400 = day_number y m d" "utc_seconds u mod 86400 = sod"
    unfolding s using sod by simp_all
  have parts: "sod div 3600 = hh" "sod div 60 mod 60 = mm" "sod mod 60 = ss"
    unfolding sod_def using clock_parts [OF nn clock(2,3)] by simp_all
  have dr: "drop 19 t = G" unfolding t using parse_assembled(2) [OF L] by simp
  have longer: "19 < length t" using len by simp
  have n: "0 \<le> n \<and> n < 10 ^ 9 \<and> (length t = 30 \<longrightarrow> G = CHR ''.'' # digits 9 (nat n) @ ''Z'')"
    using fraction_layout [OF fr longer] unfolding dr .
  have uns: "uint (utc_nanosecond u) = n" using n uint_word_of_int_ns [of n] by (simp add: ueq)
  note dn = civil_of_days_of_civil [OF v]
  have day: "- 719162 \<le> day_number y m d" "day_number y m d \<le> 2932896"
    using day_number_range [OF v] by simp_all
  have ok: "utc_ok u" "in_calendar u"
    using s sod day n uns by (simp_all add: utc_ok_def int64_limits ut_time_utc_is_valid_def ns_less in_calendar_def
        MIN_RFC3339_SECONDS_def MAX_RFC3339_SECONDS_def)
  have "clock_text y m d sod n = t" if "length t = 30"
  proof -
    have "digits 4 (nat y) = A" "digits 2 (nat m) = B" "digits 2 (nat d) = C" "digits 2 (nat hh) = D" "digits 2 (nat mm) = E"
        "digits 2 (nat ss) = F"
      using digits_number [of A] digits_number [of B] digits_number [of C] digits_number [of D] digits_number [of E]
        digits_number [of F] num L by (simp_all add: all_digit_def)
    with n that show ?thesis unfolding t clock_text_def parts num(1-5) by simp
  qed
  moreover have "ut_time_rfc3339_format (Some u) buffer len = Some (UT_TIME_OK, clock_text y m d sod n @ [CHR 0x00] @ drop 31 buffer)"
    using format_in_calendar [OF ok assms(1,2), unfolded dm uns, OF dn(2) v] .
  ultimately show ?thesis using u ok by metis
qed simp

theorem rfc3339_parse_is_strict_witness:
  "let t = ''2000-02-29T00:00:00.000000007Z''; r = \<lparr>utc_seconds = 0, utc_nanosecond = 0\<rparr>; b = replicate 31 CHR ''x'' in
   length t = 30 \<and>
   (ut_time_rfc3339_parse (Some t) (Some r) = Some (UT_TIME_INVALID_ARGUMENT, Some r) \<or>
    (\<exists>u. ut_time_rfc3339_parse (Some t) (Some r) = Some (UT_TIME_OK, Some u) \<and>
       ut_time_rfc3339_format (Some u) b 31 = Some (UT_TIME_OK, t @ [CHR 0x00])))"
  using rfc3339_parse_is_strict [of "replicate 31 CHR ''x''" 31 "''2000-02-29T00:00:00.000000007Z''"
      "\<lparr>utc_seconds = 0, utc_nanosecond = 0\<rparr>"]
  by (auto simp: Let_def)

end
