(* ===== verification/Time_Service.thy ===== *)
theory Time_Service
  imports Time_Core
begin

text \<open>
  The UTC synchronisation state of \<open>time_service.c\<close>: the last synchronised UTC and the monotonic tick
  it was taken at, advanced by the ticks that have passed since. The operations follow the C code; the
  specification they refine knows only whether there is a synchronisation and what it was.
  \<open>now\<close> is an \<open>option\<close> because it goes through \<open>int64_t\<close> arithmetic (see \<open>Time_Core\<close>).
\<close>

datatype time_service_result =
    TIME_SERVICE_OK | TIME_SERVICE_INVALID_ARGUMENT | TIME_SERVICE_UNAVAILABLE
  | TIME_SERVICE_MONOTONIC_REGRESSION | TIME_SERVICE_OVERFLOW

definition TIME_SERVICE_SOURCE_UNKNOWN :: u32 where
  "TIME_SERVICE_SOURCE_UNKNOWN = 0"

definition TIME_SERVICE_SOURCE_RTC :: u32 where
  "TIME_SERVICE_SOURCE_RTC = 1"

definition TIME_SERVICE_SOURCE_MANUAL :: u32 where
  "TIME_SERVICE_SOURCE_MANUAL = 5"

record time_service =
  svc_synchronized_utc :: ut_time_utc
  svc_last_sync_monotonic_ns :: u64
  svc_uncertainty_ns :: u64
  svc_source :: u32
  svc_available :: bool
  svc_synchronized :: bool

record time_service_status =
  status_available :: bool
  status_synchronized :: bool
  status_source :: u32
  status_uncertainty_ns :: u64
  status_last_sync_monotonic_ns :: u64

section \<open>Operations\<close>

definition valid_source :: "u32 \<Rightarrow> bool" where
  "valid_source source \<longleftrightarrow> TIME_SERVICE_SOURCE_RTC \<le> source \<and> source \<le> TIME_SERVICE_SOURCE_MANUAL"

definition valid_state :: "time_service option \<Rightarrow> bool" where
  "valid_state service =
     (case service of None \<Rightarrow> False
      | Some s \<Rightarrow>
          if \<not> svc_available s \<and> \<not> svc_synchronized s then svc_source s = TIME_SERVICE_SOURCE_UNKNOWN
          else svc_available s \<and> svc_synchronized s \<and> valid_source (svc_source s) \<and>
               ut_time_utc_is_valid (Some (svc_synchronized_utc s)))"

definition time_service_init :: "time_service option \<Rightarrow> time_service_result \<times> time_service option" where
  "time_service_init service =
     (if service = None then (TIME_SERVICE_INVALID_ARGUMENT, None)
      else (TIME_SERVICE_OK, Some \<lparr>
        svc_synchronized_utc = \<lparr>utc_seconds = 0, utc_nanosecond = 0\<rparr>,
        svc_last_sync_monotonic_ns = 0, svc_uncertainty_ns = 0,
        svc_source = TIME_SERVICE_SOURCE_UNKNOWN, svc_available = False, svc_synchronized = False\<rparr>))"

definition time_service_update ::
    "time_service option \<Rightarrow> ut_time_utc option \<Rightarrow> u64 \<Rightarrow> u32 \<Rightarrow> u64 \<Rightarrow>
     time_service_result \<times> time_service option" where
  "time_service_update service utc monotonic_ns source uncertainty_ns =
     (if \<not> valid_state service \<or> \<not> ut_time_utc_is_valid utc \<or> \<not> valid_source source
      then (TIME_SERVICE_INVALID_ARGUMENT, service)
      else let s = the service in
        if svc_synchronized s \<and> monotonic_ns < svc_last_sync_monotonic_ns s
        then (TIME_SERVICE_MONOTONIC_REGRESSION, service)
        else (TIME_SERVICE_OK, Some (s\<lparr>
          svc_synchronized_utc := the utc, svc_last_sync_monotonic_ns := monotonic_ns,
          svc_uncertainty_ns := uncertainty_ns, svc_source := source,
          svc_available := True, svc_synchronized := True\<rparr>)))"

definition time_service_set_unavailable :: "time_service option \<Rightarrow> time_service option" where
  "time_service_set_unavailable service =
     map_option (\<lambda>s. s\<lparr>svc_available := False, svc_synchronized := False,
       svc_source := TIME_SERVICE_SOURCE_UNKNOWN\<rparr>) service"

definition elapsed_duration :: "u64 \<Rightarrow> ut_time_duration" where
  "elapsed_duration elapsed =
     \<lparr>dur_seconds = sint (elapsed div 1000000000), dur_nanosecond = ucast (elapsed mod 1000000000)\<rparr>"

definition time_service_now ::
    "time_service option \<Rightarrow> u64 \<Rightarrow> ut_time_utc option \<Rightarrow>
     (time_service_result \<times> ut_time_utc option) option" where
  "time_service_now service monotonic_ns utc =
     (if service = None \<or> utc = None then Some (TIME_SERVICE_INVALID_ARGUMENT, utc)
      else if \<not> valid_state service then Some (TIME_SERVICE_INVALID_ARGUMENT, utc)
      else let s = the service in
        if \<not> svc_available s then Some (TIME_SERVICE_UNAVAILABLE, utc)
        else if monotonic_ns < svc_last_sync_monotonic_ns s
        then Some (TIME_SERVICE_MONOTONIC_REGRESSION, utc)
        else do {
          (status, temporary) \<leftarrow> ut_time_utc_add (Some (svc_synchronized_utc s))
              (Some (elapsed_duration (monotonic_ns - svc_last_sync_monotonic_ns s)))
              (Some \<lparr>utc_seconds = 0, utc_nanosecond = 0\<rparr>);
          Some (if status \<noteq> UT_TIME_OK then (TIME_SERVICE_OVERFLOW, utc) else (TIME_SERVICE_OK, temporary)) })"

definition time_service_get_status ::
    "time_service option \<Rightarrow> time_service_status option \<Rightarrow> time_service_result \<times> time_service_status option" where
  "time_service_get_status service status =
     (if status = None \<or> \<not> valid_state service then (TIME_SERVICE_INVALID_ARGUMENT, status)
      else let s = the service in
        (TIME_SERVICE_OK, Some \<lparr>
          status_available = svc_available s, status_synchronized = svc_synchronized s,
          status_source = svc_source s, status_uncertainty_ns = svc_uncertainty_ns s,
          status_last_sync_monotonic_ns = svc_last_sync_monotonic_ns s\<rparr>))"

section \<open>What the service promises\<close>

text \<open>
  The specification: at most one synchronisation, given by the exact nanosecond of its UTC, its tick, its
  source and its uncertainty.
\<close>

type_synonym sync = "(int \<times> int \<times> u32) option"

datatype service_call =
    Update ut_time_utc u64 u32 u64
  | Set_Unavailable
  | Now u64

datatype service_answer = Answer time_service_result "ut_time_utc option" | Undefined

definition service_step :: "service_call \<Rightarrow> time_service option \<Rightarrow> service_answer \<times> time_service option" where
  "service_step c service =
     (case c of
        Update utc tick source uncertainty \<Rightarrow>
          (let (r, s) = time_service_update service (Some utc) tick source uncertainty in (Answer r None, s))
      | Set_Unavailable \<Rightarrow> (Answer TIME_SERVICE_OK None, time_service_set_unavailable service)
      | Now tick \<Rightarrow>
          (case time_service_now service tick (Some \<lparr>utc_seconds = 0, utc_nanosecond = 0\<rparr>) of
             None \<Rightarrow> (Undefined, service)
           | Some (r, utc) \<Rightarrow> (Answer r (if r = TIME_SERVICE_OK then utc else None), service)))"

definition spec_step :: "service_call \<Rightarrow> sync \<Rightarrow> service_answer \<times> sync" where
  "spec_step c sync =
     (case c of
        Update utc tick source uncertainty \<Rightarrow>
          (if \<not> utc_ok utc \<or> \<not> (1 \<le> source \<and> source \<le> 5) then (Answer TIME_SERVICE_INVALID_ARGUMENT None, sync)
           else if \<exists>t0 tick0 s0. sync = Some (t0, tick0, s0) \<and> uint tick < tick0
           then (Answer TIME_SERVICE_MONOTONIC_REGRESSION None, sync)
           else (Answer TIME_SERVICE_OK None, Some (utc_ns utc, uint tick, source)))
      | Set_Unavailable \<Rightarrow> (Answer TIME_SERVICE_OK None, None)
      | Now tick \<Rightarrow>
          (case sync of None \<Rightarrow> (Answer TIME_SERVICE_UNAVAILABLE None, None)
           | Some (t0, tick0, s0) \<Rightarrow>
               let t = t0 + (uint tick - tick0) in
               (if uint tick < tick0 then Answer TIME_SERVICE_MONOTONIC_REGRESSION None
                else if representable t then Answer TIME_SERVICE_OK (Some (utc_at t))
                else Answer TIME_SERVICE_OVERFLOW None, sync)))"

fun service_run :: "service_call list \<Rightarrow> time_service option \<Rightarrow> service_answer list \<times> time_service option" where
  "service_run [] service = ([], service)"
| "service_run (c # cs) service =
     (let (a, service') = service_step c service; (as, end_state) = service_run cs service' in (a # as, end_state))"

fun spec_run :: "service_call list \<Rightarrow> sync \<Rightarrow> service_answer list \<times> sync" where
  "spec_run [] sync = ([], sync)"
| "spec_run (c # cs) sync =
     (let (a, sync') = spec_step c sync; (as, end_sync) = spec_run cs sync' in (a # as, end_sync))"

text \<open>The synchronisation a state stands for.\<close>

definition sync_of :: "time_service \<Rightarrow> sync" where
  "sync_of s = (if svc_synchronized s
     then Some (utc_ns (svc_synchronized_utc s), uint (svc_last_sync_monotonic_ns s), svc_source s) else None)"

definition service_ok :: "time_service \<Rightarrow> bool" where
  "service_ok s \<longleftrightarrow> valid_state (Some s) \<and> in_i64 (utc_seconds (svc_synchronized_utc s))"

lemma elapsed_exact: "dur_ok (elapsed_duration e) \<and> dur_ns (elapsed_duration e) = uint e"
proof -
  define x where "x = uint e"
  have x: "0 \<le> x" "x \<le> 18446744073709551615" using uint_lt2p [of e] by (simp_all add: x_def)
  have d: "uint (e div 1000000000) = x div 1000000000" by (simp add: uint_div x_def)
  have m: "uint (e mod 1000000000) = x mod 1000000000" by (simp add: uint_mod x_def)
  have "x div 1000000000 \<le> 18446744073709551615 div 1000000000" by (rule zdiv_mono1) (simp_all add: x)
  then have q: "0 \<le> x div 1000000000" "x div 1000000000 \<le> 18446744073" using x by (simp_all add: pos_imp_zdiv_nonneg_iff)
  have s: "sint (e div 1000000000) = x div 1000000000"
    unfolding sint_uint d using q by (intro signed_take_bit_int_eq_self) simp_all
  have r: "0 \<le> x mod 1000000000" "x mod 1000000000 < 1000000000" by simp_all
  have n: "uint (ucast (e mod 1000000000) :: u32) = x mod 1000000000"
    unfolding unsigned_ucast_eq m using r by (simp add: take_bit_int_eq_self del: mod_mod_trivial)
  have "dur_ok (elapsed_duration e)"
    using q r by (simp add: dur_ok_def elapsed_duration_def s n ut_time_duration_is_valid_def ns_less int64_limits)
  moreover have "dur_ns (elapsed_duration e) = x"
    by (simp add: dur_ns_def ns_total_def elapsed_duration_def s n)
  ultimately show ?thesis by (simp add: x_def)
qed

lemma service_init_ok: "\<exists>s. time_service_init (Some s0) = (TIME_SERVICE_OK, Some s) \<and> service_ok s \<and> sync_of s = None"
  by (simp add: time_service_init_def service_ok_def valid_state_def sync_of_def int64_limits)

lemma now_exact:
  assumes "service_ok s" "svc_synchronized s"
  shows "time_service_now (Some s) tick (Some r) = Some (
    let t = utc_ns (svc_synchronized_utc s) + (uint tick - uint (svc_last_sync_monotonic_ns s)) in
    if tick < svc_last_sync_monotonic_ns s then (TIME_SERVICE_MONOTONIC_REGRESSION, Some r)
    else if representable t then (TIME_SERVICE_OK, Some (utc_at t)) else (TIME_SERVICE_OVERFLOW, Some r))"
proof -
  have u: "utc_ok (svc_synchronized_utc s)" and v: "valid_state (Some s)" "svc_available s"
    using assms by (auto simp: service_ok_def valid_state_def utc_ok_def split: if_splits)
  let ?e = "tick - svc_last_sync_monotonic_ns s"
  have "uint ?e = uint tick - uint (svc_last_sync_monotonic_ns s)" if "\<not> tick < svc_last_sync_monotonic_ns s"
    using that by (intro uint_minus_simple_iff [THEN iffD1] word_sub_le) simp
  then show ?thesis
    using elapsed_exact [of ?e] utc_add_exact [OF u, of "elapsed_duration ?e"] v
    by (auto simp: time_service_now_def Let_def)
qed

lemma update_exact:
  assumes ok: "service_ok s" and utc: "in_i64 (utc_seconds utc)"
  shows "\<exists>s'. time_service_update (Some s) (Some utc) tick source uncertainty = (
      if \<not> utc_ok utc \<or> \<not> (1 \<le> source \<and> source \<le> 5) then TIME_SERVICE_INVALID_ARGUMENT
      else if svc_synchronized s \<and> tick < svc_last_sync_monotonic_ns s then TIME_SERVICE_MONOTONIC_REGRESSION
      else TIME_SERVICE_OK, Some s') \<and> service_ok s' \<and>
    sync_of s' = (if \<not> utc_ok utc \<or> \<not> (1 \<le> source \<and> source \<le> 5) \<or>
        svc_synchronized s \<and> tick < svc_last_sync_monotonic_ns s then sync_of s
      else Some (utc_ns utc, uint tick, source))"
proof -
  have v: "valid_state (Some s)" "utc_ok utc = ut_time_utc_is_valid (Some utc)"
    using ok utc by (simp_all add: service_ok_def utc_ok_def)
  have range: "valid_source x \<longleftrightarrow> 1 \<le> x \<and> x \<le> 5" for x
    by (simp add: valid_source_def TIME_SERVICE_SOURCE_RTC_def TIME_SERVICE_SOURCE_MANUAL_def)
  consider (bad) "\<not> utc_ok utc \<or> \<not> valid_source source"
    | (old) "utc_ok utc" "valid_source source" "svc_synchronized s" "tick < svc_last_sync_monotonic_ns s"
    | (new) "utc_ok utc" "valid_source source" "\<not> (svc_synchronized s \<and> tick < svc_last_sync_monotonic_ns s)" by blast
  then show ?thesis
  proof cases
    case bad
    then show ?thesis using ok v by (auto simp: time_service_update_def range)
  next
    case old
    then show ?thesis using ok v by (auto simp: time_service_update_def range Let_def)
  next
    case new
    then show ?thesis
      using utc v by (auto simp: time_service_update_def range Let_def service_ok_def sync_of_def valid_state_def)
  qed
qed

text \<open>The seconds of a timestamp argument are an \<open>int64_t\<close>.\<close>

primrec call_ok :: "service_call \<Rightarrow> bool" where
  "call_ok (Update utc tick source uncertainty) = in_i64 (utc_seconds utc)"
| "call_ok Set_Unavailable = True"
| "call_ok (Now tick) = True"

lemma service_step_refines:
  assumes ok: "service_ok s" and call: "call_ok c"
  shows "\<exists>s'. service_step c (Some s) = (fst (spec_step c (sync_of s)), Some s') \<and> service_ok s' \<and>
    sync_of s' = snd (spec_step c (sync_of s))"
proof (cases c)
  case (Update utc tick source uncertainty)
  obtain s' where u: "time_service_update (Some s) (Some utc) tick source uncertainty = (
      if \<not> utc_ok utc \<or> \<not> (1 \<le> source \<and> source \<le> 5) then TIME_SERVICE_INVALID_ARGUMENT
      else if svc_synchronized s \<and> tick < svc_last_sync_monotonic_ns s then TIME_SERVICE_MONOTONIC_REGRESSION
      else TIME_SERVICE_OK, Some s')" and s': "service_ok s'"
    "sync_of s' = (if \<not> utc_ok utc \<or> \<not> (1 \<le> source \<and> source \<le> 5) \<or>
        svc_synchronized s \<and> tick < svc_last_sync_monotonic_ns s then sync_of s
      else Some (utc_ns utc, uint tick, source))"
    using update_exact [OF ok call [unfolded Update call_ok.simps], of tick source uncertainty] by blast
  have "(\<exists>t0 tick0 s0. sync_of s = Some (t0, tick0, s0) \<and> uint tick < tick0) \<longleftrightarrow>
      svc_synchronized s \<and> tick < svc_last_sync_monotonic_ns s"
    by (simp add: sync_of_def word_less_def)
  with s' show ?thesis by (simp add: Update service_step_def spec_step_def u)
next
  case Set_Unavailable
  then show ?thesis
    using ok by (simp add: service_step_def spec_step_def time_service_set_unavailable_def service_ok_def
        valid_state_def sync_of_def)
next
  case (Now tick)
  show ?thesis
  proof (cases "svc_synchronized s")
    case True
    then show ?thesis
      using ok by (auto simp: Now service_step_def spec_step_def now_exact sync_of_def word_less_def Let_def)
  next
    case False
    then have "valid_state (Some s)" "\<not> svc_available s" using ok by (auto simp: service_ok_def valid_state_def split: if_splits)
    with False ok show ?thesis
      by (simp add: Now service_step_def spec_step_def time_service_now_def sync_of_def)
  qed
qed

lemma service_run_refines:
  assumes "service_ok s" "list_all call_ok cs"
  shows "\<exists>s'. service_run cs (Some s) = (fst (spec_run cs (sync_of s)), Some s') \<and> service_ok s' \<and>
    sync_of s' = snd (spec_run cs (sync_of s))"
  using assms
proof (induction cs arbitrary: s)
  case (Cons c cs)
  from Cons.prems obtain s1 where 1: "service_step c (Some s) = (fst (spec_step c (sync_of s)), Some s1)"
    "service_ok s1" "sync_of s1 = snd (spec_step c (sync_of s))"
    using service_step_refines [of s c] by auto
  from Cons.IH [OF 1(2)] Cons.prems obtain s2 where
    2: "service_run cs (Some s1) = (fst (spec_run cs (sync_of s1)), Some s2)" "service_ok s2" "sync_of s2 = snd (spec_run cs (sync_of s1))"
    by auto
  show ?case using 1 2 by (auto simp: Let_def split: prod.splits)
qed simp

text \<open>Property C29. Whatever sequence of updates, losses and queries follows \<open>time_service_init\<close>, every
  answer is the specification's: a query answers exactly the synchronised UTC plus the ticks since then,
  OVERFLOW only when no timestamp stands for that time, REGRESSION for ticks before the synchronisation and
  UNAVAILABLE without one; no step overflows, the state stays valid, and the status reports it.\<close>

theorem service_answers_exact_time:
  assumes "list_all call_ok cs"
    and "time_service_init (Some s0) = (TIME_SERVICE_OK, service)"
  shows "\<exists>s'. service_run cs service = (fst (spec_run cs None), Some s') \<and> valid_state (Some s') \<and>
    sync_of s' = snd (spec_run cs None) \<and>
    (\<exists>st. time_service_get_status (Some s') (Some st0) = (TIME_SERVICE_OK, Some st) \<and>
       status_available st = (snd (spec_run cs None) \<noteq> None) \<and> status_synchronized st = status_available st \<and>
       (\<forall>t tick source. snd (spec_run cs None) = Some (t, tick, source) \<longrightarrow>
          status_source st = source \<and> uint (status_last_sync_monotonic_ns st) = tick))"
proof -
  obtain s where s: "service = Some s" "service_ok s" "sync_of s = None"
    using service_init_ok [of s0] assms(2) by auto
  obtain s' where s': "service_run cs service = (fst (spec_run cs None), Some s')" "service_ok s'"
      "sync_of s' = snd (spec_run cs None)"
    using service_run_refines [OF s(2) assms(1)] s by auto
  have "valid_state (Some s')" using s'(2) by (simp add: service_ok_def)
  moreover have "svc_available s' = svc_synchronized s'" using calculation by (simp add: valid_state_def split: if_splits)
  ultimately show ?thesis
    using s' by (auto simp: time_service_get_status_def Let_def simp flip: s'(3) simp: sync_of_def)
qed

definition blank_service :: time_service where
  "blank_service = \<lparr>svc_synchronized_utc = \<lparr>utc_seconds = 7, utc_nanosecond = 7\<rparr>, svc_last_sync_monotonic_ns = 7,
     svc_uncertainty_ns = 7, svc_source = 7, svc_available = True, svc_synchronized = False\<rparr>"

theorem service_answers_exact_time_witness:
  "fst (service_run [Now 3, Update \<lparr>utc_seconds = - 1, utc_nanosecond = 500000000\<rparr> 100 2 0, Now 900000100, Now 99,
       Set_Unavailable, Now 5] (snd (time_service_init (Some blank_service)))) =
     [Answer TIME_SERVICE_UNAVAILABLE None, Answer TIME_SERVICE_OK None,
      Answer TIME_SERVICE_OK (Some \<lparr>utc_seconds = 0, utc_nanosecond = 400000000\<rparr>),
      Answer TIME_SERVICE_MONOTONIC_REGRESSION None, Answer TIME_SERVICE_OK None,
      Answer TIME_SERVICE_UNAVAILABLE None]"
proof -
  let ?cs = "[Now 3, Update \<lparr>utc_seconds = - 1, utc_nanosecond = 500000000\<rparr> 100 2 0, Now 900000100, Now 99, Set_Unavailable, Now 5]"
  let ?service = "snd (time_service_init (Some blank_service))"
  have "time_service_init (Some blank_service) = (TIME_SERVICE_OK, ?service)" by (simp add: time_service_init_def)
  moreover have "list_all call_ok ?cs" by (simp add: int64_limits)
  ultimately have "fst (service_run ?cs ?service) = fst (spec_run ?cs None)"
    using service_answers_exact_time [of ?cs blank_service ?service] by (metis fst_conv)
  then show ?thesis
    by (simp add: spec_step_def utc_ok_def int64_limits ut_time_utc_is_valid_def UT_TIME_NANOSECONDS_PER_SECOND_def
        utc_ns_def ns_total_def representable_def utc_at_def)
qed

end
