(* ===== verification/Platform_Time.thy ===== *)
theory Platform_Time
  imports Time_Core
begin

text \<open>
  The adapter from the Linux clocks to the time types (\<open>platform_linux_time.c\<close>). An adapter holds a
  clock callback; the one \<open>init\<close> installs calls \<open>clock_gettime\<close>, which is a parameter here, like the
  world \<open>'w\<close> it reads and whether \<open>time_t\<close> is signed. The fields of a \<open>struct timespec\<close> and of a
  snapshot are integers; the conversions between their C types are written out.
\<close>

datatype platform_linux_time_result =
    PLATFORM_LINUX_TIME_OK | PLATFORM_LINUX_TIME_INVALID_ARGUMENT
  | PLATFORM_LINUX_TIME_CLOCK_ERROR | PLATFORM_LINUX_TIME_OUT_OF_RANGE

definition PLATFORM_LINUX_CLOCK_MONOTONIC :: u32 where
  "PLATFORM_LINUX_CLOCK_MONOTONIC = 0"

definition PLATFORM_LINUX_CLOCK_REALTIME :: u32 where
  "PLATFORM_LINUX_CLOCK_REALTIME = 1"

datatype clockid = CLOCK_MONOTONIC | CLOCK_REALTIME

record timespec =
  tv_sec :: int
  tv_nsec :: int

record platform_linux_clock_snapshot =
  snap_seconds :: int
  snap_nanosecond :: int

text \<open>A clock callback gets the kind, the snapshot cell and its context, and leaves a code and the cell.\<close>

type_synonym 'w clock_fn =
  "u32 \<Rightarrow> platform_linux_clock_snapshot option \<Rightarrow> ptr \<Rightarrow> 'w \<Rightarrow>
   (platform_linux_time_result \<times> platform_linux_clock_snapshot option) \<times> 'w"

record 'w platform_linux_time_adapter =
  pa_gettime :: "'w clock_fn option"
  pa_context :: ptr

section \<open>Conversions\<close>

definition platform_linux_time_seconds_from_parts ::
    "bool \<Rightarrow> u64 \<Rightarrow> int option \<Rightarrow> platform_linux_time_result \<times> int option" where
  "platform_linux_time_seconds_from_parts negative magnitude seconds =
     (if seconds = None then (PLATFORM_LINUX_TIME_INVALID_ARGUMENT, seconds)
      else if negative then
        if 0x8000000000000000 < magnitude then (PLATFORM_LINUX_TIME_OUT_OF_RANGE, seconds)
        else if magnitude = 0x8000000000000000 then (PLATFORM_LINUX_TIME_OK, Some INT64_MIN)
        else (PLATFORM_LINUX_TIME_OK, Some (- sint magnitude))
      else if word_of_int INT64_MAX < magnitude then (PLATFORM_LINUX_TIME_OUT_OF_RANGE, seconds)
      else (PLATFORM_LINUX_TIME_OK, Some (sint magnitude)))"

definition time_t_to_seconds :: "bool \<Rightarrow> int \<Rightarrow> int option \<Rightarrow> platform_linux_time_result \<times> int option" where
  "time_t_to_seconds time_t_signed value seconds =
     (if time_t_signed \<and> value < 0
      then let magnitude = word_of_int (- (value + 1)) :: u64
           in platform_linux_time_seconds_from_parts True (magnitude + 1) seconds
      else platform_linux_time_seconds_from_parts False (word_of_int value) seconds)"

definition valid_nanosecond :: "platform_linux_clock_snapshot option \<Rightarrow> bool" where
  "valid_nanosecond snapshot =
     (snapshot \<noteq> None \<and> 0 \<le> snap_nanosecond (the snapshot) \<and>
      (word_of_int (snap_nanosecond (the snapshot)) :: u32) < UT_TIME_NANOSECONDS_PER_SECOND)"

definition platform_linux_time_snapshot_to_tick ::
    "platform_linux_clock_snapshot option \<Rightarrow> u64 option \<Rightarrow> platform_linux_time_result \<times> u64 option" where
  "platform_linux_time_snapshot_to_tick snapshot tick =
     (if \<not> valid_nanosecond snapshot \<or> tick = None \<or> snap_seconds (the snapshot) < 0
      then (PLATFORM_LINUX_TIME_INVALID_ARGUMENT, tick)
      else
        let seconds = word_of_int (snap_seconds (the snapshot)) :: u64;
            nanosecond = word_of_int (snap_nanosecond (the snapshot)) :: u64
        in if uint64_max div 1000000000 < seconds \<or>
              seconds = uint64_max div 1000000000 \<and> uint64_max mod 1000000000 < nanosecond
           then (PLATFORM_LINUX_TIME_OUT_OF_RANGE, tick)
           else (PLATFORM_LINUX_TIME_OK, Some (seconds * 1000000000 + nanosecond)))"

definition platform_linux_time_snapshot_to_utc ::
    "platform_linux_clock_snapshot option \<Rightarrow> ut_time_utc option \<Rightarrow>
     platform_linux_time_result \<times> ut_time_utc option" where
  "platform_linux_time_snapshot_to_utc snapshot utc =
     (if \<not> valid_nanosecond snapshot \<or> utc = None then (PLATFORM_LINUX_TIME_INVALID_ARGUMENT, utc)
      else (PLATFORM_LINUX_TIME_OK,
            Some \<lparr>utc_seconds = snap_seconds (the snapshot),
                  utc_nanosecond = word_of_int (snap_nanosecond (the snapshot))\<rparr>))"

section \<open>Clocks\<close>

definition system_gettime :: "bool \<Rightarrow> (clockid \<Rightarrow> 'w \<Rightarrow> (int \<times> timespec) \<times> 'w) \<Rightarrow> 'w clock_fn" where
  "system_gettime time_t_signed clock_gettime kind snapshot context w =
     (if snapshot = None then ((PLATFORM_LINUX_TIME_INVALID_ARGUMENT, snapshot), w)
      else if kind \<noteq> PLATFORM_LINUX_CLOCK_MONOTONIC \<and> kind \<noteq> PLATFORM_LINUX_CLOCK_REALTIME
      then ((PLATFORM_LINUX_TIME_INVALID_ARGUMENT, snapshot), w)
      else
        let clock_id = (if kind = PLATFORM_LINUX_CLOCK_MONOTONIC then CLOCK_MONOTONIC else CLOCK_REALTIME);
            ((rc, value), w') = clock_gettime clock_id w
        in if rc \<noteq> 0 then ((PLATFORM_LINUX_TIME_CLOCK_ERROR, snapshot), w')
           else
             let (result, seconds) = time_t_to_seconds time_t_signed (tv_sec value) (Some (snap_seconds (the snapshot)))
             in if result \<noteq> PLATFORM_LINUX_TIME_OK then ((result, snapshot), w')
                else ((PLATFORM_LINUX_TIME_OK,
                       Some \<lparr>snap_seconds = the seconds, snap_nanosecond = to_int32 (tv_nsec value)\<rparr>), w'))"

definition platform_linux_time_init ::
    "bool \<Rightarrow> (clockid \<Rightarrow> 'w \<Rightarrow> (int \<times> timespec) \<times> 'w) \<Rightarrow> 'w platform_linux_time_adapter option \<Rightarrow>
     platform_linux_time_result \<times> 'w platform_linux_time_adapter option" where
  "platform_linux_time_init time_t_signed clock_gettime adapter =
     (if adapter = None then (PLATFORM_LINUX_TIME_INVALID_ARGUMENT, None)
      else (PLATFORM_LINUX_TIME_OK,
            Some \<lparr>pa_gettime = Some (system_gettime time_t_signed clock_gettime), pa_context = 0\<rparr>))"

text \<open>The local \<open>snapshot\<close> of the two readers is not initialised; its contents are an argument.\<close>

definition platform_linux_time_monotonic ::
    "platform_linux_clock_snapshot \<Rightarrow> 'w platform_linux_time_adapter option \<Rightarrow> u64 option \<Rightarrow> 'w \<Rightarrow>
     (platform_linux_time_result \<times> u64 option) \<times> 'w" where
  "platform_linux_time_monotonic local adapter tick w =
     (if adapter = None \<or> pa_gettime (the adapter) = None \<or> tick = None
      then ((PLATFORM_LINUX_TIME_INVALID_ARGUMENT, tick), w)
      else
        let ((result, snapshot), w') =
              the (pa_gettime (the adapter)) PLATFORM_LINUX_CLOCK_MONOTONIC (Some local) (pa_context (the adapter)) w
        in if result \<noteq> PLATFORM_LINUX_TIME_OK then ((result, tick), w')
           else (platform_linux_time_snapshot_to_tick snapshot tick, w'))"

definition platform_linux_time_utc ::
    "platform_linux_clock_snapshot \<Rightarrow> 'w platform_linux_time_adapter option \<Rightarrow> ut_time_utc option \<Rightarrow> 'w \<Rightarrow>
     (platform_linux_time_result \<times> ut_time_utc option) \<times> 'w" where
  "platform_linux_time_utc local adapter utc w =
     (if adapter = None \<or> pa_gettime (the adapter) = None \<or> utc = None
      then ((PLATFORM_LINUX_TIME_INVALID_ARGUMENT, utc), w)
      else
        let ((result, snapshot), w') =
              the (pa_gettime (the adapter)) PLATFORM_LINUX_CLOCK_REALTIME (Some local) (pa_context (the adapter)) w
        in if result \<noteq> PLATFORM_LINUX_TIME_OK then ((result, utc), w')
           else (platform_linux_time_snapshot_to_utc snapshot utc, w'))"

section \<open>Exactness\<close>

text \<open>The values a \<open>time_t\<close> of at most 64 bits can hold.\<close>

definition time_t_value :: "bool \<Rightarrow> int \<Rightarrow> bool" where
  "time_t_value time_t_signed v \<longleftrightarrow> (if time_t_signed then in_i64 v else 0 \<le> v \<and> v < 2 ^ 64)"

lemma u64_of_int: "0 \<le> v \<Longrightarrow> v < 18446744073709551616 \<Longrightarrow> uint (word_of_int v :: u64) = v"
  by (simp add: uint_word_of_int)

lemma u64_eq_iff: "0 \<le> v \<Longrightarrow> v < 18446744073709551616 \<Longrightarrow> (m :: u64) = word_of_int v \<longleftrightarrow> uint m = v"
  using u64_of_int [of v] word_of_int_uint [of m] by metis

lemma u64_bounds: "0 \<le> uint (m :: u64)" "uint (m :: u64) < 18446744073709551616"
  using uint_lt2p [of m] by simp_all

lemma sint_u64: "uint (m :: u64) < 9223372036854775808 \<Longrightarrow> sint m = uint m"
  unfolding sint_uint by (intro signed_take_bit_int_eq_self) (rule order_trans [OF _ u64_bounds(1)], simp_all)

lemma parts_exact:
  "platform_linux_time_seconds_from_parts negative m (Some r) =
     (let v = (if negative then - uint m else uint m) in
      if in_i64 v then (PLATFORM_LINUX_TIME_OK, Some v) else (PLATFORM_LINUX_TIME_OUT_OF_RANGE, Some r))"
proof -
  define x where "x = uint m"
  have eq: "m = 0x8000000000000000 \<longleftrightarrow> x = 9223372036854775808"
    using u64_eq_iff [of 9223372036854775808 m] by (simp add: x_def)
  have big: "0x8000000000000000 < m \<longleftrightarrow> 9223372036854775808 < x"
      "word_of_int INT64_MAX < m \<longleftrightarrow> 9223372036854775807 < x"
    by (simp_all add: word_less_def INT64_MAX_def x_def)
  have x: "0 \<le> x" "x < 9223372036854775808 \<Longrightarrow> sint m = x"
    using u64_bounds(1) [of m] sint_u64 [of m] by (simp_all add: x_def)
  show ?thesis
    unfolding platform_linux_time_seconds_from_parts_def Let_def big eq x_def [symmetric]
    using x by (cases negative) (auto simp: int64_limits)
qed

lemma time_t_exact:
  assumes "time_t_value time_t_signed v"
  shows "time_t_to_seconds time_t_signed v (Some r) =
    (if in_i64 v then (PLATFORM_LINUX_TIME_OK, Some v) else (PLATFORM_LINUX_TIME_OUT_OF_RANGE, Some r))"
proof (cases "time_t_signed \<and> v < 0")
  case True
  then have range: "- 9223372036854775808 \<le> v" "v < 0" using assms by (auto simp: time_t_value_def int64_limits)
  have "word_of_int (- (v + 1)) + 1 = (word_of_int (- v) :: u64)" by simp
  then have m: "uint (word_of_int (- (v + 1)) + 1 :: u64) = - v"
    by (simp only:) (use range in \<open>simp only: u64_of_int\<close>)
  show ?thesis unfolding time_t_to_seconds_def parts_exact Let_def m using True by simp
next
  case False
  then have "0 \<le> v" "v < 18446744073709551616" using assms by (auto simp: time_t_value_def int64_limits split: if_splits)
  then have "uint (word_of_int v :: u64) = v" by (rule u64_of_int)
  then show ?thesis unfolding time_t_to_seconds_def if_not_P [OF False] parts_exact Let_def by simp
qed

text \<open>What the two readers answer for what the clock says.\<close>

definition expected_utc :: "int \<Rightarrow> timespec \<Rightarrow> ut_time_utc \<Rightarrow> platform_linux_time_result \<times> ut_time_utc" where
  "expected_utc rc ts u =
     (if rc \<noteq> 0 then (PLATFORM_LINUX_TIME_CLOCK_ERROR, u)
      else if \<not> in_i64 (tv_sec ts) then (PLATFORM_LINUX_TIME_OUT_OF_RANGE, u)
      else (PLATFORM_LINUX_TIME_OK, utc_at (tv_sec ts * 1000000000 + tv_nsec ts)))"

definition expected_tick :: "int \<Rightarrow> timespec \<Rightarrow> u64 \<Rightarrow> platform_linux_time_result \<times> u64" where
  "expected_tick rc ts tick =
     (if rc \<noteq> 0 then (PLATFORM_LINUX_TIME_CLOCK_ERROR, tick)
      else if \<not> in_i64 (tv_sec ts) then (PLATFORM_LINUX_TIME_OUT_OF_RANGE, tick)
      else if tv_sec ts < 0 then (PLATFORM_LINUX_TIME_INVALID_ARGUMENT, tick)
      else if 2 ^ 64 \<le> tv_sec ts * 1000000000 + tv_nsec ts then (PLATFORM_LINUX_TIME_OUT_OF_RANGE, tick)
      else (PLATFORM_LINUX_TIME_OK, word_of_int (tv_sec ts * 1000000000 + tv_nsec ts)))"

lemma valid_ns: "0 \<le> n \<Longrightarrow> n < 1000000000 \<Longrightarrow> valid_nanosecond (Some \<lparr>snap_seconds = s, snap_nanosecond = n\<rparr>)"
  by (simp add: valid_nanosecond_def ns_less uint_word_of_int)

lemma tick_fits:
  assumes "0 \<le> (n :: int)" "n < 1000000000"
  shows "2 ^ 64 \<le> s * 1000000000 + n \<longleftrightarrow> 18446744073 < s \<or> s = 18446744073 \<and> 709551615 < n"
  using assms by (simp, linarith)

lemma tick_exact:
  assumes "0 \<le> n" "n < 1000000000" "in_i64 s"
  shows "platform_linux_time_snapshot_to_tick (Some \<lparr>snap_seconds = s, snap_nanosecond = n\<rparr>) (Some t) =
    (if s < 0 then (PLATFORM_LINUX_TIME_INVALID_ARGUMENT, Some t)
     else if 2 ^ 64 \<le> s * 1000000000 + n then (PLATFORM_LINUX_TIME_OUT_OF_RANGE, Some t)
     else (PLATFORM_LINUX_TIME_OK, Some (word_of_int (s * 1000000000 + n))))"
proof (cases "s < 0")
  case True
  then show ?thesis by (simp add: platform_linux_time_snapshot_to_tick_def)
next
  case False
  let ?s = "word_of_int s :: u64" and ?n = "word_of_int n :: u64"
  have us: "uint ?s = s" and un: "uint ?n = n"
    using False assms by (auto intro!: u64_of_int simp: int64_limits)
  have "uint uint64_max = 18446744073709551615" by (simp add: uint64_max_def unsigned_minus_1_eq_mask mask_eq_exp_minus_1)
  then have c: "uint64_max div 1000000000 = 18446744073" "uint64_max mod 1000000000 = 709551615"
    by (simp_all add: word_div_def word_mod_def)
  have eq: "?s = 18446744073 \<longleftrightarrow> s = 18446744073"
    using u64_eq_iff [of 18446744073 ?s] us by simp
  have le: "18446744073 < ?s \<longleftrightarrow> 18446744073 < s" "709551615 < ?n \<longleftrightarrow> 709551615 < n"
    using us un by (simp_all add: word_less_def)
  show ?thesis
    using False assms(1,2) tick_fits [OF assms(1,2), of s]
    by (simp add: platform_linux_time_snapshot_to_tick_def valid_ns c eq le)
qed

text \<open>Property C33. With the system clock installed, the two readers return exactly the time the clock
  reports: the UTC whose nanosecond count is the clock's, and the tick that is the monotonic count whenever
  it fits 64 bits; a failing clock is CLOCK_ERROR and any refusal leaves the output cell alone. This holds
  for signed and unsigned \<open>time_t\<close>, provided the clock reports nanoseconds below a second, as POSIX has it.\<close>

theorem clock_readings_exact:
  assumes init: "platform_linux_time_init time_t_signed clock_gettime (Some a0) = (PLATFORM_LINUX_TIME_OK, adapter)"
    and clock: "clock_gettime CLOCK_REALTIME w = ((rc, ts), w')" "clock_gettime CLOCK_MONOTONIC w = ((rc', ts'), w'')"
    and posix: "time_t_value time_t_signed (tv_sec ts)" "0 \<le> tv_nsec ts" "tv_nsec ts < 1000000000"
      "time_t_value time_t_signed (tv_sec ts')" "0 \<le> tv_nsec ts'" "tv_nsec ts' < 1000000000"
  shows "platform_linux_time_utc local adapter (Some u) w =
      (let (r, u') = expected_utc rc ts u in ((r, Some u'), w'))
    \<and> platform_linux_time_monotonic local adapter (Some t) w =
      (let (r, t') = expected_tick rc' ts' t in ((r, Some t'), w''))"
proof -
  have adapter: "adapter = Some \<lparr>pa_gettime = Some (system_gettime time_t_signed clock_gettime), pa_context = 0\<rparr>"
    using init by (simp add: platform_linux_time_init_def)
  have ns: "to_int32 (tv_nsec ts) = tv_nsec ts" "to_int32 (tv_nsec ts') = tv_nsec ts'"
    using posix by (simp_all add: to_int32_id)
  have "platform_linux_time_utc local adapter (Some u) w = (let (r, u') = expected_utc rc ts u in ((r, Some u'), w'))"
    using posix by (simp add: platform_linux_time_utc_def adapter system_gettime_def clock ns time_t_exact
        PLATFORM_LINUX_CLOCK_MONOTONIC_def PLATFORM_LINUX_CLOCK_REALTIME_def expected_utc_def
        platform_linux_time_snapshot_to_utc_def valid_ns utc_at_eq)
  moreover have "platform_linux_time_monotonic local adapter (Some t) w = (let (r, t') = expected_tick rc' ts' t in ((r, Some t'), w''))"
    using posix by (simp add: platform_linux_time_monotonic_def adapter system_gettime_def clock ns time_t_exact
        PLATFORM_LINUX_CLOCK_MONOTONIC_def PLATFORM_LINUX_CLOCK_REALTIME_def expected_tick_def tick_exact)
  ultimately show ?thesis by simp
qed

definition sample_gettime :: "clockid \<Rightarrow> nat \<Rightarrow> (int \<times> timespec) \<times> nat" where
  "sample_gettime clock w = ((0, if clock = CLOCK_REALTIME then \<lparr>tv_sec = - 3, tv_nsec = 250000000\<rparr>
     else \<lparr>tv_sec = 18446744073, tv_nsec = 709551615\<rparr>), Suc w)"

theorem clock_readings_exact_witness:
  "let a = snd (platform_linux_time_init True sample_gettime (Some \<lparr>pa_gettime = None, pa_context = 0\<rparr>));
       l = \<lparr>snap_seconds = 0, snap_nanosecond = - 1\<rparr> in
   platform_linux_time_utc l a (Some \<lparr>utc_seconds = 0, utc_nanosecond = 0\<rparr>) 0 =
     ((PLATFORM_LINUX_TIME_OK, Some \<lparr>utc_seconds = - 3, utc_nanosecond = 250000000\<rparr>), 1) \<and>
   platform_linux_time_monotonic l a (Some 0) 0 = ((PLATFORM_LINUX_TIME_OK, Some uint64_max), 1)"
  using clock_readings_exact [of True sample_gettime "\<lparr>pa_gettime = None, pa_context = 0\<rparr>"
      "snd (platform_linux_time_init True sample_gettime (Some \<lparr>pa_gettime = None, pa_context = 0\<rparr>))"
      0 0 "\<lparr>tv_sec = - 3, tv_nsec = 250000000\<rparr>" 1 0 "\<lparr>tv_sec = 18446744073, tv_nsec = 709551615\<rparr>" 1
      "\<lparr>snap_seconds = 0, snap_nanosecond = - 1\<rparr>" "\<lparr>utc_seconds = 0, utc_nanosecond = 0\<rparr>" 0]
  by (simp add: Let_def platform_linux_time_init_def sample_gettime_def time_t_value_def int64_limits expected_utc_def
      expected_tick_def utc_at_def uint64_max_def)

end
