(* ===== verification/Retry_Id.thy ===== *)
theory Retry_Id
  imports Foundation_Prelude
begin

text \<open>
  The retry state (\<open>utility_retry.c\<close>) and the request id generator (\<open>utility_id.c\<close>). Delays and
  counters are machine words; the specifications are over unbounded naturals, so the theorems include
  that nothing wraps where it should not.
\<close>

section \<open>Retry policy and state\<close>

datatype ut_retry_result = UT_RETRY_OK | UT_RETRY_INVALID_ARGUMENT | UT_RETRY_EXHAUSTED

definition UT_RETRY_BACKOFF_FIXED :: u32 where
  "UT_RETRY_BACKOFF_FIXED = 0"

definition UT_RETRY_BACKOFF_EXPONENTIAL :: u32 where
  "UT_RETRY_BACKOFF_EXPONENTIAL = 1"

record ut_retry_policy =
  rp_max_attempts :: u32
  rp_base_delay :: u64
  rp_max_delay :: u64
  rp_backoff :: u32

record ut_retry_state =
  rs_policy :: ut_retry_policy
  rs_attempts :: u32

definition valid_policy :: "ut_retry_policy option \<Rightarrow> bool" where
  "valid_policy policy =
     (case policy of None \<Rightarrow> False
      | Some p \<Rightarrow> rp_max_attempts p \<noteq> 0 \<and> rp_base_delay p \<le> rp_max_delay p \<and>
          (rp_backoff p = UT_RETRY_BACKOFF_FIXED \<or> rp_backoff p = UT_RETRY_BACKOFF_EXPONENTIAL))"

definition ut_retry_init ::
    "ut_retry_state option \<Rightarrow> ut_retry_policy option \<Rightarrow> ut_retry_result \<times> ut_retry_state option" where
  "ut_retry_init state policy =
     (if state = None \<or> \<not> valid_policy policy then (UT_RETRY_INVALID_ARGUMENT, state)
      else (UT_RETRY_OK, Some \<lparr>rs_policy = the policy, rs_attempts = 0\<rparr>))"

definition ut_retry_can_attempt :: "ut_retry_state option \<Rightarrow> bool" where
  "ut_retry_can_attempt state =
     (case state of None \<Rightarrow> False
      | Some s \<Rightarrow> valid_policy (Some (rs_policy s)) \<and> rs_attempts s < rp_max_attempts (rs_policy s))"

definition ut_retry_begin_attempt :: "ut_retry_state option \<Rightarrow> ut_retry_result \<times> ut_retry_state option" where
  "ut_retry_begin_attempt state =
     (if state = None \<or> \<not> valid_policy (Some (rs_policy (the state))) then (UT_RETRY_INVALID_ARGUMENT, state)
      else if \<not> ut_retry_can_attempt state then (UT_RETRY_EXHAUSTED, state)
      else (UT_RETRY_OK, Some ((the state)\<lparr>rs_attempts := rs_attempts (the state) + 1\<rparr>)))"

text \<open>The doubling loop of \<open>ut_retry_failure\<close>; it ends because \<open>shifts\<close> counts down.\<close>

function backoff_loop :: "u64 \<Rightarrow> u32 \<Rightarrow> u64 \<Rightarrow> u64" where
  "backoff_loop max_delay shifts value =
     (if shifts \<noteq> 0 \<and> value < max_delay then
        if max_delay div 2 < value then max_delay
        else backoff_loop max_delay (shifts - 1) (value * 2)
      else value)"
  by auto
termination by (relation "measure (\<lambda>(m, shifts, v). unat shifts)") (auto simp: measure_unat)

declare backoff_loop.simps [simp del]

definition ut_retry_failure :: "ut_retry_state option \<Rightarrow> u64 option \<Rightarrow> ut_retry_result \<times> u64 option" where
  "ut_retry_failure state delay =
     (if state = None \<or> delay = None \<or> \<not> valid_policy (Some (rs_policy (the state))) \<or> rs_attempts (the state) = 0
      then (UT_RETRY_INVALID_ARGUMENT, delay)
      else if \<not> ut_retry_can_attempt state then (UT_RETRY_EXHAUSTED, delay)
      else
        let policy = rs_policy (the state); value = rp_base_delay policy; shifts = rs_attempts (the state) - 1
        in (UT_RETRY_OK,
            Some (if rp_backoff policy = UT_RETRY_BACKOFF_EXPONENTIAL \<and> value \<noteq> 0
                  then backoff_loop (rp_max_delay policy) shifts value else value)))"

definition ut_retry_reset :: "ut_retry_state option \<Rightarrow> ut_retry_state option" where
  "ut_retry_reset state = map_option (\<lambda>s. s\<lparr>rs_attempts := 0\<rparr>) state"

definition ut_retry_success :: "ut_retry_state option \<Rightarrow> ut_retry_state option" where
  "ut_retry_success state = ut_retry_reset state"

section \<open>Request ids\<close>

record ut_id_generator =
  id_current :: u32

definition ut_id_init :: "ut_id_generator option \<Rightarrow> u32 \<Rightarrow> ut_id_generator option" where
  "ut_id_init generator current = map_option (\<lambda>g. g\<lparr>id_current := current\<rparr>) generator"

definition ut_id_next :: "ut_id_generator option \<Rightarrow> u32 \<times> ut_id_generator option" where
  "ut_id_next generator =
     (case generator of None \<Rightarrow> (0, None)
      | Some g \<Rightarrow>
          let g' = (if id_current g = uint32_max then g\<lparr>id_current := 1\<rparr>
                    else let g1 = g\<lparr>id_current := id_current g + 1\<rparr>
                         in if id_current g1 = 0 then g1\<lparr>id_current := 1\<rparr> else g1)
          in (id_current g', Some g'))"

section \<open>Retry follows its policy\<close>

text \<open>The delay a policy asks for after its \<open>n\<close>-th attempt has failed.\<close>

definition policy_delay :: "ut_retry_policy \<Rightarrow> nat \<Rightarrow> nat" where
  "policy_delay p n =
     (if rp_backoff p = UT_RETRY_BACKOFF_FIXED then unat (rp_base_delay p)
      else min (unat (rp_max_delay p)) (unat (rp_base_delay p) * 2 ^ (n - 1)))"

datatype retry_call = Begin | Failure | Success

datatype retry_answer = Code ut_retry_result "nat option"

definition retry_step :: "retry_call \<Rightarrow> ut_retry_state option \<Rightarrow> retry_answer \<times> ut_retry_state option" where
  "retry_step c state =
     (case c of
        Begin \<Rightarrow> (let (r, s) = ut_retry_begin_attempt state in (Code r None, s))
      | Failure \<Rightarrow> (let (r, d) = ut_retry_failure state (Some 0) in
          (Code r (if r = UT_RETRY_OK then map_option unat d else None), state))
      | Success \<Rightarrow> (Code UT_RETRY_OK None, ut_retry_success state))"

text \<open>The specification counts the attempts of the current operation.\<close>

definition spec_retry :: "ut_retry_policy \<Rightarrow> retry_call \<Rightarrow> nat \<Rightarrow> retry_answer \<times> nat" where
  "spec_retry p c n =
     (case c of
        Begin \<Rightarrow> if n < unat (rp_max_attempts p) then (Code UT_RETRY_OK None, Suc n) else (Code UT_RETRY_EXHAUSTED None, n)
      | Failure \<Rightarrow>
          (if n = 0 then Code UT_RETRY_INVALID_ARGUMENT None
           else if n < unat (rp_max_attempts p) then Code UT_RETRY_OK (Some (policy_delay p n))
           else Code UT_RETRY_EXHAUSTED None, n)
      | Success \<Rightarrow> (Code UT_RETRY_OK None, 0))"

fun retry_run :: "retry_call list \<Rightarrow> ut_retry_state option \<Rightarrow> retry_answer list \<times> ut_retry_state option" where
  "retry_run [] state = ([], state)"
| "retry_run (c # cs) state =
     (let (a, state') = retry_step c state; (as, end_state) = retry_run cs state' in (a # as, end_state))"

fun spec_retries :: "ut_retry_policy \<Rightarrow> retry_call list \<Rightarrow> nat \<Rightarrow> retry_answer list \<times> nat" where
  "spec_retries p [] n = ([], n)"
| "spec_retries p (c # cs) n =
     (let (a, n') = spec_retry p c n; (as, end_n) = spec_retries p cs n' in (a # as, end_n))"

lemma backoff_loop_exact:
  "val \<noteq> 0 \<Longrightarrow> val \<le> max_delay \<Longrightarrow>
   unat (backoff_loop max_delay shifts val) = min (unat max_delay) (unat val * 2 ^ unat shifts)"
proof (induction max_delay shifts val rule: backoff_loop.induct)
  case (1 max_delay shifts val)
  have bounds: "1 \<le> unat val" "unat val \<le> unat max_delay"
    using 1(2,3) by (simp_all add: word_le_nat_alt Suc_le_eq unat_gt_0)
  show ?case
  proof (cases "shifts \<noteq> 0 \<and> val < max_delay")
    case going: True
    then have s: "unat shifts = Suc (unat (shifts - 1))"
      by (metis unat_minus_one Suc_pred' unat_gt_0)
    have half: "max_delay div 2 < val \<longleftrightarrow> unat max_delay < 2 * unat val"
      by (auto simp: word_less_nat_alt unat_div)
    show ?thesis
    proof (cases "max_delay div 2 < val")
      case True
      have "unat max_delay < 2 * unat val" using True half by simp
      also have "2 * unat val \<le> unat val * 2 ^ unat shifts" by (simp add: s)
      finally show ?thesis using going True by (simp add: backoff_loop.simps [of max_delay shifts])
    next
      case False
      have le: "2 * unat val \<le> unat max_delay" using False half by simp
      then have dbl: "unat (val * 2) = unat val * 2"
        using unat_u64_less [of max_delay] by (simp add: unat_word_ariths)
      have "val * 2 \<noteq> 0" "val * 2 \<le> max_delay"
        using dbl bounds le by (auto simp: word_le_nat_alt simp flip: unat_eq_zero)
      with 1(1) [OF going False] False going show ?thesis
        by (simp add: backoff_loop.simps [of max_delay shifts] dbl s)
    qed
  next
    case False
    then have "shifts = 0 \<or> val = max_delay" using 1(3) by auto
    then show ?thesis using False bounds by (auto simp: backoff_loop.simps [of max_delay shifts])
  qed
qed

text \<open>The states a policy's runs go through.\<close>

definition retrying :: "ut_retry_policy \<Rightarrow> nat \<Rightarrow> ut_retry_state" where
  "retrying p n = \<lparr>rs_policy = p, rs_attempts = of_nat n\<rparr>"

lemma retrying_simps [simp]:
  "rs_policy (retrying p n) = p" "(retrying p n)\<lparr>rs_attempts := 0\<rparr> = retrying p 0"
  "(retrying p n)\<lparr>rs_attempts := rs_attempts (retrying p n) + 1\<rparr> = retrying p (Suc n)"
  by (simp_all add: retrying_def add.commute)

lemma retrying_attempts:
  assumes "n \<le> unat (rp_max_attempts p)"
  shows "unat (rs_attempts (retrying p n)) = n"
    "rs_attempts (retrying p n) < rp_max_attempts p \<longleftrightarrow> n < unat (rp_max_attempts p)"
    "rs_attempts (retrying p n) = 0 \<longleftrightarrow> n = 0"
proof -
  show n: "unat (rs_attempts (retrying p n)) = n"
    using assms unat_u32_less [of "rp_max_attempts p"] unfolding retrying_def ut_retry_state.simps
    by (intro of_nat_inverse [OF refl]) simp
  show "rs_attempts (retrying p n) < rp_max_attempts p \<longleftrightarrow> n < unat (rp_max_attempts p)"
    unfolding word_less_nat_alt n ..
  have "rs_attempts (retrying p n) = 0 \<longleftrightarrow> unat (rs_attempts (retrying p n)) = 0" by (rule unat_eq_zero [symmetric])
  also have "\<dots> \<longleftrightarrow> n = 0" unfolding n ..
  finally show "rs_attempts (retrying p n) = 0 \<longleftrightarrow> n = 0" .
qed

lemma can_attempt_iff:
  assumes "valid_policy (Some p)" "n \<le> unat (rp_max_attempts p)"
  shows "ut_retry_can_attempt (Some (retrying p n)) \<longleftrightarrow> n < unat (rp_max_attempts p)"
  using assms retrying_attempts(2) [OF assms(2)] by (simp add: ut_retry_can_attempt_def)

lemma failure_exact:
  assumes "valid_policy (Some p)" "n \<le> unat (rp_max_attempts p)"
  shows "\<exists>d'. ut_retry_failure (Some (retrying p n)) (Some d) =
      (if n = 0 then (UT_RETRY_INVALID_ARGUMENT, Some d)
       else if n < unat (rp_max_attempts p) then (UT_RETRY_OK, Some d') else (UT_RETRY_EXHAUSTED, Some d)) \<and>
    (0 < n \<longrightarrow> unat d' = policy_delay p n)"
proof -
  let ?shifts = "rs_attempts (retrying p n) - 1"
  define d' where "d' = (if rp_backoff p = UT_RETRY_BACKOFF_EXPONENTIAL \<and> rp_base_delay p \<noteq> 0
      then backoff_loop (rp_max_delay p) ?shifts (rp_base_delay p) else rp_base_delay p)"
  have le: "rp_base_delay p \<le> rp_max_delay p"
    and kinds: "rp_backoff p = UT_RETRY_BACKOFF_FIXED \<or> rp_backoff p = UT_RETRY_BACKOFF_EXPONENTIAL"
    using assms(1) by (simp_all add: valid_policy_def)
  have "unat d' = policy_delay p n" if "0 < n"
  proof -
    have "unat ?shifts = unat (rs_attempts (retrying p n)) - 1"
      by (rule unat_minus_one) (simp add: retrying_attempts(3) [OF assms(2)] that)
    then have "unat ?shifts = n - 1" by (simp only: retrying_attempts(1) [OF assms(2)])
    then have loop: "unat (backoff_loop (rp_max_delay p) ?shifts (rp_base_delay p)) =
        min (unat (rp_max_delay p)) (unat (rp_base_delay p) * 2 ^ (n - 1))" if "rp_base_delay p \<noteq> 0"
      using backoff_loop_exact [OF that le, of ?shifts] by (simp only:)
    from kinds show ?thesis
    proof
      assume "rp_backoff p = UT_RETRY_BACKOFF_FIXED"
      then show ?thesis by (simp add: d'_def policy_delay_def UT_RETRY_BACKOFF_FIXED_def UT_RETRY_BACKOFF_EXPONENTIAL_def)
    next
      assume "rp_backoff p = UT_RETRY_BACKOFF_EXPONENTIAL"
      then show ?thesis
        using loop by (cases "rp_base_delay p = 0")
          (simp_all add: d'_def policy_delay_def UT_RETRY_BACKOFF_FIXED_def UT_RETRY_BACKOFF_EXPONENTIAL_def)
    qed
  qed
  moreover have "ut_retry_failure (Some (retrying p n)) (Some d) =
      (if n = 0 then (UT_RETRY_INVALID_ARGUMENT, Some d)
       else if n < unat (rp_max_attempts p) then (UT_RETRY_OK, Some d') else (UT_RETRY_EXHAUSTED, Some d))"
    using assms(1) by (simp add: ut_retry_failure_def can_attempt_iff [OF assms] retrying_attempts(3) [OF assms(2)] d'_def Let_def)
  ultimately show ?thesis by blast
qed

lemma retry_step_refines:
  assumes "valid_policy (Some p)" "n \<le> unat (rp_max_attempts p)"
  shows "retry_step c (Some (retrying p n)) = (fst (spec_retry p c n), Some (retrying p (snd (spec_retry p c n)))) \<and>
    snd (spec_retry p c n) \<le> unat (rp_max_attempts p)"
proof (cases c)
  case Begin
  then show ?thesis
    using assms by (simp add: retry_step_def spec_retry_def ut_retry_begin_attempt_def can_attempt_iff)
next
  case Failure
  then show ?thesis
    using failure_exact [OF assms, of 0] assms by (auto simp: retry_step_def spec_retry_def)
next
  case Success
  then show ?thesis by (simp add: retry_step_def spec_retry_def ut_retry_success_def ut_retry_reset_def)
qed

lemma retry_run_refines:
  assumes "valid_policy (Some p)"
  shows "n \<le> unat (rp_max_attempts p) \<Longrightarrow>
    retry_run cs (Some (retrying p n)) = (fst (spec_retries p cs n), Some (retrying p (snd (spec_retries p cs n))))"
proof (induction cs arbitrary: n)
  case (Cons c cs)
  from retry_step_refines [OF assms Cons.prems, of c] Cons.IH [of "snd (spec_retry p c n)"]
  show ?case by (simp add: case_prod_beta Let_def)
qed simp

text \<open>Property C30. A policy is accepted exactly when it allows an attempt, its base delay is at most its
  maximum and its backoff is known; then every sequence of attempts, failures and successes gets the
  policy's answers: at most \<open>max_attempts\<close> attempts per operation, and after the \<open>n\<close>-th failure the
  delay \<open>min max (base * 2^(n-1))\<close> of unbounded arithmetic, or the base delay for a fixed backoff.\<close>

theorem retry_follows_policy:
  "(case ut_retry_init (Some s0) (Some p) of (r, state) \<Rightarrow>
      if r = UT_RETRY_OK then fst (retry_run cs state) = fst (spec_retries p cs 0)
      else r = UT_RETRY_INVALID_ARGUMENT \<and> state = Some s0) \<and>
   (fst (ut_retry_init (Some s0) (Some p)) = UT_RETRY_OK) =
     (0 < unat (rp_max_attempts p) \<and> unat (rp_base_delay p) \<le> unat (rp_max_delay p) \<and> rp_backoff p \<in> {0, 1})"
proof (cases "valid_policy (Some p)")
  case True
  then show ?thesis
    using retry_run_refines [OF True, of 0 cs]
    by (auto simp: ut_retry_init_def retrying_def valid_policy_def word_le_nat_alt unat_gt_0
        UT_RETRY_BACKOFF_FIXED_def UT_RETRY_BACKOFF_EXPONENTIAL_def)
next
  case False
  then show ?thesis
    by (auto simp: ut_retry_init_def valid_policy_def word_le_nat_alt unat_gt_0
        UT_RETRY_BACKOFF_FIXED_def UT_RETRY_BACKOFF_EXPONENTIAL_def)
qed

section \<open>Ids cycle without zero\<close>

text \<open>The \<open>n\<close>-th id from a generator, counting from 0.\<close>

fun nth_id :: "ut_id_generator \<Rightarrow> nat \<Rightarrow> u32" where
  "nth_id g 0 = fst (ut_id_next (Some g))"
| "nth_id g (Suc n) = nth_id (the (snd (ut_id_next (Some g)))) n"

lemma next_id:
  "\<exists>i. ut_id_next (Some g) = (i, Some (g\<lparr>id_current := i\<rparr>)) \<and> unat i = unat (id_current g) mod (2 ^ 32 - 1) + 1"
proof (cases "id_current g = uint32_max")
  case True
  then show ?thesis by (simp add: ut_id_next_def Let_def)
next
  case False
  then have lt: "unat (id_current g) < 2 ^ 32 - 1"
    using unat_u32_less [of "id_current g"] by (metis unat_uint32_max word_unat_eq_iff less_antisym Suc_pred' zero_less_numeral zero_less_power)
  then have "unat (id_current g + 1) = unat (id_current g) + 1" by (simp add: unat_word_ariths)
  moreover from this have "id_current g + 1 \<noteq> 0" by (metis unat_0 add_is_0 one_neq_zero)
  ultimately show ?thesis using False lt by (simp add: ut_id_next_def Let_def)
qed

lemma nth_id_value: "unat (nth_id g n) = (unat (id_current g) + n) mod (2 ^ 32 - 1) + 1"
proof (induction n arbitrary: g)
  case 0
  then show ?case using next_id [of g] by auto
next
  case (Suc n)
  obtain i where i: "ut_id_next (Some g) = (i, Some (g\<lparr>id_current := i\<rparr>))" "unat i = unat (id_current g) mod (2 ^ 32 - 1) + 1"
    using next_id [of g] by blast
  have "(unat i + n) mod (2 ^ 32 - 1) = (unat (id_current g) + Suc n) mod (2 ^ 32 - 1)"
    unfolding i(2) by (metis add_Suc_right add_Suc_shift Suc_eq_plus1 mod_add_left_eq)
  then show ?case by (simp add: i(1) Suc.IH)
qed

lemma u32_values: "unat (x :: u32) \<le> 4294967295"
  using unat_u32_less [of x] by simp

lemma nth_id_eq_iff: "nth_id g m = nth_id g n \<longleftrightarrow> m mod 4294967295 = n mod 4294967295"
proof -
  have "nth_id g m = nth_id g n \<longleftrightarrow> unat (nth_id g m) = unat (nth_id g n)" by (simp add: word_unat_eq_iff)
  also have "\<dots> \<longleftrightarrow> (unat (id_current g) + m) mod 4294967295 = (unat (id_current g) + n) mod 4294967295"
    by (simp add: nth_id_value)
  also have "\<dots> \<longleftrightarrow> m mod 4294967295 = n mod 4294967295" by (simp only: nat_mod_eq_iff add.assoc add_left_cancel)
  finally show ?thesis .
qed

text \<open>Property C34. The ids of a generator are never 0, whatever value it starts from; two calls return the
  same id exactly when their numbers differ by a multiple of \<open>2^32 - 1\<close>, so that every 32-bit value but 0
  is used once before any is reused.\<close>

theorem request_ids_unique:
  "ut_id_init (Some g0) start = Some g \<Longrightarrow>
   nth_id g n \<noteq> 0 \<and> (nth_id g m = nth_id g n \<longleftrightarrow> m mod (2 ^ 32 - 1) = n mod (2 ^ 32 - 1)) \<and>
   (x \<noteq> 0 \<longleftrightarrow> (\<exists>k < 2 ^ 32 - 1. nth_id g k = x))"
proof (intro conjI)
  show nz: "nth_id g n \<noteq> 0" for n
    using nth_id_value [of g n] by (metis Suc_eq_plus1 nat.distinct(1) unat_0)
  show "nth_id g m = nth_id g n \<longleftrightarrow> m mod (2 ^ 32 - 1) = n mod (2 ^ 32 - 1)" by (simp add: nth_id_eq_iff)
  show "x \<noteq> 0 \<longleftrightarrow> (\<exists>k < 2 ^ 32 - 1. nth_id g k = x)"
  proof
    assume "x \<noteq> 0"
    then have x: "0 < unat x" "unat x \<le> 4294967295" using u32_values [of x] by (simp_all add: unat_gt_0)
    let ?c = "unat (id_current g)"
    define k where "k = (unat x + 4294967295 * 2 - 1 - ?c) mod 4294967295"
    have c: "?c \<le> 4294967295" by (rule u32_values)
    have "(?c + k) mod 4294967295 = (?c + (unat x + 4294967295 * 2 - 1 - ?c)) mod 4294967295"
      unfolding k_def by (rule mod_add_right_eq)
    also have "?c + (unat x + 4294967295 * 2 - 1 - ?c) = (unat x - 1) + 2 * 4294967295" using x c by simp
    also have "\<dots> mod 4294967295 = (unat x - 1) mod 4294967295" by (rule mod_mult_self1)
    also have "\<dots> = unat x - 1" using x by simp
    finally have "unat (nth_id g k) = unat x" using x by (simp add: nth_id_value)
    moreover have "k < 2 ^ 32 - 1" by (simp add: k_def)
    ultimately show "\<exists>k < 2 ^ 32 - 1. nth_id g k = x" by (auto simp: word_unat_eq_iff)
  qed (use nz in auto)
qed

theorem request_ids_unique_witness:
  "nth_id \<lparr>id_current = uint32_max\<rparr> 3 \<noteq> 0 \<and> nth_id \<lparr>id_current = uint32_max\<rparr> 7 \<noteq> nth_id \<lparr>id_current = uint32_max\<rparr> 3"
  using request_ids_unique [of "\<lparr>id_current = 0\<rparr>" uint32_max "\<lparr>id_current = uint32_max\<rparr>" 3 7 1]
  by (simp add: ut_id_init_def)

end
