(* ===== verification/Logger.thy ===== *)
theory Logger
  imports C_Text
begin

text \<open>
  The logger (\<open>utility_logger.c\<close>): level filters, records and the ring that keeps the latest of them,
  and the console adapter (\<open>utility_log_console.c\<close>). Callbacks are functions over a world \<open>'w\<close> that is
  outside the logger; the header forbids them to call the same logger while it holds its lock, and a
  console callback, which runs after the lock is released, adds no step that a later call could not take.
  Formatting is a parameter \<open>vformat\<close> of the write operations, so that every format is covered.
\<close>

datatype ut_log_result = UT_LOG_OK | UT_LOG_INVALID_ARGUMENT | UT_LOG_NOT_FOUND | UT_LOG_OUTPUT_ERROR

definition UT_LOG_LEVEL_TRACE :: int where
  "UT_LOG_LEVEL_TRACE = 0"

definition UT_LOG_LEVEL_COUNT :: int where
  "UT_LOG_LEVEL_COUNT = 6"

definition UT_LOG_MODULE_CAPACITY :: nat where
  "UT_LOG_MODULE_CAPACITY = 24"

definition UT_LOG_MESSAGE_CAPACITY :: nat where
  "UT_LOG_MESSAGE_CAPACITY = 160"

definition UT_LOG_FILE_CAPACITY :: nat where
  "UT_LOG_FILE_CAPACITY = 64"

definition UT_LOG_FUNCTION_CAPACITY :: nat where
  "UT_LOG_FUNCTION_CAPACITY = 48"

record ut_log_record =
  rec_sequence :: u64
  rec_timestamp :: u64
  rec_level :: int
  rec_line :: u32
  rec_module :: "char list"
  rec_message :: "char list"
  rec_file :: "char list"
  rec_function :: "char list"

text \<open>A callback takes its context and the world; a null function pointer is \<open>None\<close>.\<close>

type_synonym 'w ut_log_clock_fn = "ptr \<Rightarrow> 'w \<Rightarrow> u64 \<times> 'w"
type_synonym 'w ut_log_console_write_fn = "ut_log_record option \<Rightarrow> ptr \<Rightarrow> 'w \<Rightarrow> ut_log_result \<times> 'w"
type_synonym 'w ut_log_lock_fn = "ptr \<Rightarrow> 'w \<Rightarrow> 'w"
type_synonym 'w ut_log_dump_fn = "ut_log_record \<Rightarrow> ptr \<Rightarrow> 'w \<Rightarrow> bool \<times> 'w"

record 'w ut_logger_config =
  cf_console_write :: "'w ut_log_console_write_fn option"
  cf_console_context :: ptr
  cf_clock :: "'w ut_log_clock_fn option"
  cf_clock_context :: ptr
  cf_lock :: "'w ut_log_lock_fn option"
  cf_unlock :: "'w ut_log_lock_fn option"
  cf_lock_context :: ptr
  cf_console_level :: int
  cf_ring_level :: int
  cf_console_enabled :: bool
  cf_ring_enabled :: bool

record 'w ut_logger =
  lg_storage :: "ut_log_record list"
  lg_capacity :: nat
  lg_head :: nat
  lg_count :: nat
  lg_next_sequence :: u64
  lg_overwritten_count :: u64
  lg_console_write :: "'w ut_log_console_write_fn option"
  lg_console_context :: ptr
  lg_clock :: "'w ut_log_clock_fn option"
  lg_clock_context :: ptr
  lg_lock :: "'w ut_log_lock_fn option"
  lg_unlock :: "'w ut_log_lock_fn option"
  lg_lock_context :: ptr
  lg_console_level :: int
  lg_ring_level :: int
  lg_console_enabled :: bool
  lg_ring_enabled :: bool

section \<open>Operations on a logger\<close>

definition logger_is_valid :: "'w ut_logger option \<Rightarrow> bool" where
  "logger_is_valid logger =
     (case logger of None \<Rightarrow> False
      | Some l \<Rightarrow> lg_storage l \<noteq> [] \<and> 0 < lg_capacity l \<and>
          (lg_lock l = None \<and> lg_unlock l = None \<or> lg_lock l \<noteq> None \<and> lg_unlock l \<noteq> None))"

definition level_is_valid :: "int \<Rightarrow> bool" where
  "level_is_valid level \<longleftrightarrow> UT_LOG_LEVEL_TRACE \<le> level \<and> level < UT_LOG_LEVEL_COUNT"

definition write_arguments_are_valid ::
    "'w ut_logger option \<Rightarrow> int \<Rightarrow> string option \<Rightarrow> string option \<Rightarrow> string option \<Rightarrow> string option \<Rightarrow> bool" where
  "write_arguments_are_valid logger level module file function_name format =
     (logger_is_valid logger \<and> level_is_valid level \<and> module \<noteq> None \<and> file \<noteq> None \<and>
      function_name \<noteq> None \<and> format \<noteq> None)"

definition logger_lock :: "'w ut_logger \<Rightarrow> 'w \<Rightarrow> 'w" where
  "logger_lock l w = (case lg_lock l of None \<Rightarrow> w | Some f \<Rightarrow> f (lg_lock_context l) w)"

definition logger_unlock :: "'w ut_logger \<Rightarrow> 'w \<Rightarrow> 'w" where
  "logger_unlock l w = (case lg_unlock l of None \<Rightarrow> w | Some f \<Rightarrow> f (lg_lock_context l) w)"

definition copy_text :: "char list \<Rightarrow> nat \<Rightarrow> string \<Rightarrow> char list" where
  "copy_text destination capacity source = fst (snprintf destination capacity source)"

definition ring_push :: "'w ut_logger \<Rightarrow> ut_log_record \<Rightarrow> 'w ut_logger" where
  "ring_push l record =
     (let index = size_add (lg_head l) (lg_count l) mod lg_capacity l;
          (index, l) =
            (if lg_count l = lg_capacity l
             then (lg_head l, l\<lparr>lg_head := size_add (lg_head l) 1 mod lg_capacity l,
                                lg_overwritten_count := lg_overwritten_count l + 1\<rparr>)
             else (index, l\<lparr>lg_count := size_add (lg_count l) 1\<rparr>))
      in l\<lparr>lg_storage := (lg_storage l)[index := record]\<rparr>)"

definition ut_logger_init ::
    "'w ut_logger option \<Rightarrow> ut_log_record list \<Rightarrow> nat \<Rightarrow> 'w ut_logger_config option \<Rightarrow>
     ut_log_result \<times> 'w ut_logger option" where
  "ut_logger_init logger storage capacity config =
     (if logger = None \<or> storage = [] \<or> capacity = 0 \<or> config = None \<or>
         \<not> level_is_valid (cf_console_level (the config)) \<or> \<not> level_is_valid (cf_ring_level (the config)) \<or>
         (cf_lock (the config) = None) \<noteq> (cf_unlock (the config) = None)
      then (UT_LOG_INVALID_ARGUMENT, logger)
      else let c = the config in
        (UT_LOG_OK, Some \<lparr>
          lg_storage = storage, lg_capacity = capacity, lg_head = 0, lg_count = 0,
          lg_next_sequence = 0, lg_overwritten_count = 0,
          lg_console_write = cf_console_write c, lg_console_context = cf_console_context c,
          lg_clock = cf_clock c, lg_clock_context = cf_clock_context c,
          lg_lock = cf_lock c, lg_unlock = cf_unlock c, lg_lock_context = cf_lock_context c,
          lg_console_level = cf_console_level c, lg_ring_level = cf_ring_level c,
          lg_console_enabled = cf_console_enabled c, lg_ring_enabled = cf_ring_enabled c\<rparr>))"

definition ut_logger_set_console ::
    "'w ut_logger option \<Rightarrow> bool \<Rightarrow> int \<Rightarrow> 'w \<Rightarrow> ut_log_result \<times> 'w ut_logger option \<times> 'w" where
  "ut_logger_set_console logger enabled level w =
     (if \<not> logger_is_valid logger \<or> \<not> level_is_valid level then (UT_LOG_INVALID_ARGUMENT, logger, w)
      else
        let l = the logger; w1 = logger_lock l w;
            l1 = l\<lparr>lg_console_enabled := enabled, lg_console_level := level\<rparr>
        in (UT_LOG_OK, Some l1, logger_unlock l1 w1))"

definition ut_logger_set_ring ::
    "'w ut_logger option \<Rightarrow> bool \<Rightarrow> int \<Rightarrow> 'w \<Rightarrow> ut_log_result \<times> 'w ut_logger option \<times> 'w" where
  "ut_logger_set_ring logger enabled level w =
     (if \<not> logger_is_valid logger \<or> \<not> level_is_valid level then (UT_LOG_INVALID_ARGUMENT, logger, w)
      else
        let l = the logger; w1 = logger_lock l w;
            l1 = l\<lparr>lg_ring_enabled := enabled, lg_ring_level := level\<rparr>
        in (UT_LOG_OK, Some l1, logger_unlock l1 w1))"

definition ut_log_is_enabled :: "'w ut_logger option \<Rightarrow> int \<Rightarrow> 'w \<Rightarrow> bool \<times> 'w" where
  "ut_log_is_enabled logger level w =
     (if \<not> logger_is_valid logger \<or> \<not> level_is_valid level then (False, w)
      else
        let l = the logger; w1 = logger_lock l w;
            enabled = (lg_console_enabled l \<and> lg_console_write l \<noteq> None \<and> lg_console_level l \<le> level \<or>
                       lg_ring_enabled l \<and> lg_ring_level l \<le> level)
        in (enabled, logger_unlock l w1))"

text \<open>The \<open>record = {0}\<close> the write operation starts from.\<close>

definition zero_record :: ut_log_record where
  "zero_record = \<lparr>rec_sequence = 0, rec_timestamp = 0, rec_level = 0, rec_line = 0,
     rec_module = replicate UT_LOG_MODULE_CAPACITY (CHR 0x00),
     rec_message = replicate UT_LOG_MESSAGE_CAPACITY (CHR 0x00),
     rec_file = replicate UT_LOG_FILE_CAPACITY (CHR 0x00),
     rec_function = replicate UT_LOG_FUNCTION_CAPACITY (CHR 0x00)\<rparr>"

text \<open>The four stages of a write: the texts, the stamps, the ring, and the choice of the console.\<close>

definition record_texts :: "int \<Rightarrow> u32 \<Rightarrow> string \<Rightarrow> string \<Rightarrow> string \<Rightarrow> ut_log_record" where
  "record_texts level line module file function_name =
     zero_record\<lparr>rec_level := level, rec_line := line,
       rec_module := copy_text (rec_module zero_record) UT_LOG_MODULE_CAPACITY module,
       rec_file := copy_text (rec_file zero_record) UT_LOG_FILE_CAPACITY file,
       rec_function := copy_text (rec_function zero_record) UT_LOG_FUNCTION_CAPACITY function_name\<rparr>"

definition stamp_record :: "'w ut_logger \<Rightarrow> ut_log_record \<Rightarrow> 'w \<Rightarrow> ut_log_record \<times> 'w ut_logger \<times> 'w" where
  "stamp_record l record w =
     (let record = record\<lparr>rec_sequence := lg_next_sequence l\<rparr>;
          l1 = l\<lparr>lg_next_sequence := lg_next_sequence l + 1\<rparr>
      in case lg_clock l1 of
           None \<Rightarrow> (record, l1, w)
         | Some clock \<Rightarrow> let (t, w1) = clock (lg_clock_context l1) w in (record\<lparr>rec_timestamp := t\<rparr>, l1, w1))"

definition store_record :: "'w ut_logger \<Rightarrow> int \<Rightarrow> ut_log_record \<Rightarrow> 'w ut_logger" where
  "store_record l level record =
     (if lg_ring_enabled l \<and> lg_ring_level l \<le> level then ring_push l record else l)"

definition console_target :: "'w ut_logger \<Rightarrow> int \<Rightarrow> 'w ut_log_console_write_fn option" where
  "console_target l level =
     (if lg_console_enabled l \<and> lg_console_write l \<noteq> None \<and> lg_console_level l \<le> level
      then lg_console_write l else None)"

definition ut_log_write_v ::
    "(string \<Rightarrow> c_arg list \<Rightarrow> string option) \<Rightarrow> 'w ut_logger option \<Rightarrow> int \<Rightarrow> string option \<Rightarrow> string option \<Rightarrow>
     u32 \<Rightarrow> string option \<Rightarrow> string option \<Rightarrow> c_arg list \<Rightarrow> 'w \<Rightarrow> ut_log_result \<times> 'w ut_logger option \<times> 'w" where
  "ut_log_write_v vformat logger level module file line function_name format args w =
     (if \<not> write_arguments_are_valid logger level module file function_name format
      then (UT_LOG_INVALID_ARGUMENT, logger, w)
      else
        let l = the logger; record = record_texts level line (the module) (the file) (the function_name)
        in case vformat (the format) args of
          None \<Rightarrow> (UT_LOG_OUTPUT_ERROR, logger, w)
        | Some message \<Rightarrow>
            let record = record\<lparr>rec_message :=
                  fst (snprintf (rec_message record) UT_LOG_MESSAGE_CAPACITY message)\<rparr>;
                w1 = logger_lock l w;
                (record, l1, w2) = stamp_record l record w1;
                l2 = store_record l1 level record;
                console_write = console_target l2 level;
                console_context = lg_console_context l2;
                w3 = logger_unlock l2 w2
            in case console_write of
                 None \<Rightarrow> (UT_LOG_OK, Some l2, w3)
               | Some write \<Rightarrow>
                   let (result, w4) = write (Some record) console_context w3
                   in (if result \<noteq> UT_LOG_OK then UT_LOG_OUTPUT_ERROR else UT_LOG_OK, Some l2, w4))"

definition ut_log_write where
  "ut_log_write vformat logger level module file line function_name format args w =
     ut_log_write_v vformat logger level module file line function_name format args w"

definition ut_logger_count :: "'w ut_logger option \<Rightarrow> 'w \<Rightarrow> nat \<times> 'w" where
  "ut_logger_count logger w =
     (if \<not> logger_is_valid logger then (0, w)
      else let l = the logger in (lg_count l, logger_unlock l (logger_lock l w)))"

definition ut_logger_overwritten_count :: "'w ut_logger option \<Rightarrow> 'w \<Rightarrow> u64 \<times> 'w" where
  "ut_logger_overwritten_count logger w =
     (if \<not> logger_is_valid logger then (0, w)
      else let l = the logger in (lg_overwritten_count l, logger_unlock l (logger_lock l w)))"

definition ut_logger_read ::
    "'w ut_logger option \<Rightarrow> nat \<Rightarrow> ut_log_record option \<Rightarrow> 'w \<Rightarrow> ut_log_result \<times> ut_log_record option \<times> 'w" where
  "ut_logger_read logger logical_index out_record w =
     (if \<not> logger_is_valid logger \<or> out_record = None then (UT_LOG_INVALID_ARGUMENT, out_record, w)
      else
        let l = the logger; w1 = logger_lock l w
        in if lg_count l \<le> logical_index then (UT_LOG_NOT_FOUND, out_record, logger_unlock l w1)
           else (UT_LOG_OK,
                 Some (lg_storage l ! (size_add (lg_head l) logical_index mod lg_capacity l)),
                 logger_unlock l w1))"

text \<open>The loop of the dump; the first argument is the number of records it has still to show.\<close>

fun dump_loop :: "nat \<Rightarrow> nat \<Rightarrow> 'w ut_logger \<Rightarrow> 'w ut_log_dump_fn \<Rightarrow> ptr \<Rightarrow> 'w \<Rightarrow> 'w" where
  "dump_loop 0 index l callback context w = w"
| "dump_loop (Suc n) index l callback context w =
     (let (go_on, w1) = callback (lg_storage l ! (size_add (lg_head l) index mod lg_capacity l)) context w
      in if \<not> go_on then w1 else dump_loop n (size_add index 1) l callback context w1)"

definition ut_logger_dump ::
    "'w ut_logger option \<Rightarrow> 'w ut_log_dump_fn option \<Rightarrow> ptr \<Rightarrow> 'w \<Rightarrow> ut_log_result \<times> 'w" where
  "ut_logger_dump logger callback context w =
     (if \<not> logger_is_valid logger \<or> callback = None then (UT_LOG_INVALID_ARGUMENT, w)
      else
        let l = the logger; w1 = logger_lock l w;
            w2 = dump_loop (lg_count l) 0 l (the callback) context w1
        in (UT_LOG_OK, logger_unlock l w2))"

definition ut_logger_clear :: "'w ut_logger option \<Rightarrow> 'w \<Rightarrow> ut_log_result \<times> 'w ut_logger option \<times> 'w" where
  "ut_logger_clear logger w =
     (if \<not> logger_is_valid logger then (UT_LOG_INVALID_ARGUMENT, logger, w)
      else
        let l = the logger; w1 = logger_lock l w; l1 = l\<lparr>lg_head := 0, lg_count := 0\<rparr>
        in (UT_LOG_OK, Some l1, logger_unlock l1 w1))"

section \<open>The default logger\<close>

text \<open>
  The static pointer \<open>default_logger\<close> and the memory it points into. The address 0 is NULL; the other
  addresses hold whatever contexts the application has put there.
\<close>

record 'w log_process =
  lp_default_logger :: ptr
  lp_memory :: "ptr \<Rightarrow> 'w ut_logger"

definition logger_at :: "ptr \<Rightarrow> 'w log_process \<Rightarrow> 'w ut_logger option" where
  "logger_at p s = (if p = 0 then None else Some (lp_memory s p))"

definition write_back :: "ptr \<Rightarrow> 'w ut_logger option \<Rightarrow> 'w log_process \<Rightarrow> 'w log_process" where
  "write_back p logger s =
     (case logger of None \<Rightarrow> s | Some l \<Rightarrow> s\<lparr>lp_memory := (lp_memory s)(p := l)\<rparr>)"

definition ut_log_initialize ::
    "ptr \<Rightarrow> ut_log_record list \<Rightarrow> nat \<Rightarrow> 'w ut_logger_config option \<Rightarrow> 'w log_process \<Rightarrow>
     ut_log_result \<times> 'w log_process" where
  "ut_log_initialize logger storage capacity config s =
     (let (result, l) = ut_logger_init (logger_at logger s) storage capacity config;
          s1 = write_back logger l s
      in (result, if result = UT_LOG_OK then s1\<lparr>lp_default_logger := logger\<rparr> else s1))"

definition ut_log_shutdown :: "'w log_process \<Rightarrow> 'w log_process" where
  "ut_log_shutdown s = s\<lparr>lp_default_logger := 0\<rparr>"

abbreviation the_default :: "'w log_process \<Rightarrow> 'w ut_logger option" where
  "the_default s \<equiv> logger_at (lp_default_logger s) s"

definition ut_log_default_is_enabled :: "int \<Rightarrow> 'w log_process \<Rightarrow> 'w \<Rightarrow> bool \<times> 'w" where
  "ut_log_default_is_enabled level s w = ut_log_is_enabled (the_default s) level w"

definition ut_log_set_console :: "bool \<Rightarrow> int \<Rightarrow> 'w log_process \<Rightarrow> 'w \<Rightarrow> ut_log_result \<times> 'w log_process \<times> 'w" where
  "ut_log_set_console enabled level s w =
     (let (r, l, w') = ut_logger_set_console (the_default s) enabled level w
      in (r, write_back (lp_default_logger s) l s, w'))"

definition ut_log_set_ring :: "bool \<Rightarrow> int \<Rightarrow> 'w log_process \<Rightarrow> 'w \<Rightarrow> ut_log_result \<times> 'w log_process \<times> 'w" where
  "ut_log_set_ring enabled level s w =
     (let (r, l, w') = ut_logger_set_ring (the_default s) enabled level w
      in (r, write_back (lp_default_logger s) l s, w'))"

definition ut_log_write_default where
  "ut_log_write_default vformat level module file line function_name format args s w =
     (let (r, l, w') = ut_log_write_v vformat (the_default s) level module file line function_name format args w
      in (r, write_back (lp_default_logger s) l s, w'))"

definition ut_log_count :: "'w log_process \<Rightarrow> 'w \<Rightarrow> nat \<times> 'w" where
  "ut_log_count s w = ut_logger_count (the_default s) w"

definition ut_log_overwritten_count :: "'w log_process \<Rightarrow> 'w \<Rightarrow> u64 \<times> 'w" where
  "ut_log_overwritten_count s w = ut_logger_overwritten_count (the_default s) w"

definition ut_log_read ::
    "nat \<Rightarrow> ut_log_record option \<Rightarrow> 'w log_process \<Rightarrow> 'w \<Rightarrow> ut_log_result \<times> ut_log_record option \<times> 'w" where
  "ut_log_read logical_index out_record s w = ut_logger_read (the_default s) logical_index out_record w"

definition ut_log_dump :: "'w ut_log_dump_fn option \<Rightarrow> ptr \<Rightarrow> 'w log_process \<Rightarrow> 'w \<Rightarrow> ut_log_result \<times> 'w" where
  "ut_log_dump callback context s w = ut_logger_dump (the_default s) callback context w"

definition ut_log_clear :: "'w log_process \<Rightarrow> 'w \<Rightarrow> ut_log_result \<times> 'w log_process \<times> 'w" where
  "ut_log_clear s w =
     (let (r, l, w') = ut_logger_clear (the_default s) w in (r, write_back (lp_default_logger s) l s, w'))"

text \<open>The log macros ask first whether the level is enabled, so that their arguments are not evaluated otherwise.\<close>

definition log_macro where
  "log_macro vformat level module file line function_name format args s w =
     (let (enabled, w1) = ut_log_default_is_enabled level s w
      in if enabled
         then let (r, s2, w2) = ut_log_write_default vformat level (Some module) (Some file) line
                    (Some function_name) (Some format) args s w1 in (s2, w2)
         else (s, w1))"

section \<open>The console adapter\<close>

definition ut_log_level_name :: "int \<Rightarrow> string" where
  "ut_log_level_name level =
     (if level < UT_LOG_LEVEL_TRACE \<or> UT_LOG_LEVEL_COUNT \<le> level then ''UNKNOWN''
      else [''TRACE'', ''DEBUG'', ''INFO'', ''WARN'', ''ERROR'', ''FATAL''] ! nat level)"

text \<open>\<open>fputs\<close> stands for the stream output of \<open>fprintf\<close>: the stream, the text, and the result.\<close>

definition ut_log_console_write_file ::
    "(ptr \<Rightarrow> string \<Rightarrow> 'w \<Rightarrow> int \<times> 'w) \<Rightarrow> ptr \<Rightarrow> 'w ut_log_console_write_fn" where
  "ut_log_console_write_file fputs stderr record context w =
     (let stream = (if context \<noteq> 0 then context else stderr)
      in case record of
           None \<Rightarrow> (UT_LOG_INVALID_ARGUMENT, w)
         | Some r \<Rightarrow>
             let (result, w') = fputs stream
                   (''['' @ decimal (unat (rec_timestamp r)) @ ''] '' @
                    left_justified 5 (ut_log_level_name (rec_level r)) @ '' '' @
                    left_justified 23 (c_string (rec_module r)) @ '' '' @ c_string (rec_message r) @ '' ('' @
                    c_string (rec_file r) @ '':'' @ decimal (unat (rec_line r)) @ '' '' @
                    c_string (rec_function r) @ '')'' @ [CHR 0x0A]) w
             in (if result < 0 then UT_LOG_OUTPUT_ERROR else UT_LOG_OK, w'))"

end
