(* ===== verification/Logger_Refinement.thy ===== *)
theory Logger_Refinement
  imports Logger
begin

text \<open>
  What the logger promises: a history of the records stored since the last clear, of which the ring
  keeps the newest \<open>capacity\<close>. The operations of \<open>Logger\<close>, called through the default logger, give
  the answers of that specification and run the callbacks in the same order.
\<close>

section \<open>Specification\<close>

record log_spec =
  sp_history :: "ut_log_record list"
  sp_lost :: nat
  sp_sequence :: nat
  sp_console :: "bool \<times> int"
  sp_ring :: "bool \<times> int"

definition kept :: "nat \<Rightarrow> log_spec \<Rightarrow> ut_log_record list" where
  "kept capacity s = drop (length (sp_history s) - capacity) (sp_history s)"

definition overwritten :: "nat \<Rightarrow> log_spec \<Rightarrow> nat" where
  "overwritten capacity s = sp_lost s + (length (sp_history s) - capacity)"

datatype 'w log_call =
    Write int "string option" "string option" u32 "string option" "string option" "c_arg list"
  | Set_Console bool int
  | Set_Ring bool int
  | Is_Enabled int
  | Count
  | Overwritten
  | Read nat "ut_log_record"
  | Dump "'w ut_log_dump_fn option" ptr
  | Clear

datatype log_answer =
    A_Code ut_log_result
  | A_Bool bool
  | A_Count nat
  | A_Overwritten u64
  | A_Record ut_log_result "ut_log_record option"

definition enter :: "'w ut_logger_config \<Rightarrow> 'w \<Rightarrow> 'w" where
  "enter c w = (case cf_lock c of None \<Rightarrow> w | Some f \<Rightarrow> f (cf_lock_context c) w)"

definition leave :: "'w ut_logger_config \<Rightarrow> 'w \<Rightarrow> 'w" where
  "leave c w = (case cf_unlock c of None \<Rightarrow> w | Some f \<Rightarrow> f (cf_lock_context c) w)"

definition passes :: "bool \<times> int \<Rightarrow> int \<Rightarrow> bool" where
  "passes sink level \<longleftrightarrow> fst sink \<and> snd sink \<le> level"

definition timestamp_of :: "'w ut_logger_config \<Rightarrow> 'w \<Rightarrow> u64 \<times> 'w" where
  "timestamp_of c w = (case cf_clock c of None \<Rightarrow> (0, w) | Some f \<Rightarrow> f (cf_clock_context c) w)"

definition known_level :: "int \<Rightarrow> bool" where
  "known_level level \<longleftrightarrow> 0 \<le> level \<and> level < 6"

definition spec_write where
  "spec_write vformat c level module file line function_name format args s w =
     (if \<not> known_level level \<or> module = None \<or> file = None \<or> function_name = None \<or> format = None
      then (A_Code UT_LOG_INVALID_ARGUMENT, s, w)
      else case vformat (the format) args of
        None \<Rightarrow> (A_Code UT_LOG_OUTPUT_ERROR, s, w)
      | Some message \<Rightarrow>
          let (t, w1) = timestamp_of c (enter c w);
              r = \<lparr>rec_sequence = of_nat (sp_sequence s), rec_timestamp = t, rec_level = level, rec_line = line,
                   rec_module = field 24 (the module), rec_message = field 160 message,
                   rec_file = field 64 (the file), rec_function = field 48 (the function_name)\<rparr>;
              s1 = s\<lparr>sp_sequence := Suc (sp_sequence s),
                     sp_history := sp_history s @ (if passes (sp_ring s) level then [r] else [])\<rparr>;
              w2 = leave c w1
          in if passes (sp_console s) level \<and> cf_console_write c \<noteq> None
             then let (result, w3) = the (cf_console_write c) (Some r) (cf_console_context c) w2
                  in (A_Code (if result = UT_LOG_OK then UT_LOG_OK else UT_LOG_OUTPUT_ERROR), s1, w3)
             else (A_Code UT_LOG_OK, s1, w2))"

fun show_all :: "'w ut_log_dump_fn \<Rightarrow> ptr \<Rightarrow> ut_log_record list \<Rightarrow> 'w \<Rightarrow> 'w" where
  "show_all callback context [] w = w"
| "show_all callback context (r # rs) w =
     (let (go_on, w1) = callback r context w in if go_on then show_all callback context rs w1 else w1)"

definition spec_call ::
    "(string \<Rightarrow> c_arg list \<Rightarrow> string option) \<Rightarrow> 'w ut_logger_config \<Rightarrow> nat \<Rightarrow> 'w log_call \<Rightarrow> log_spec \<Rightarrow> 'w \<Rightarrow>
     log_answer \<times> log_spec \<times> 'w" where
  "spec_call vformat c capacity call s w =
     (case call of
        Write level module file line function_name format args \<Rightarrow>
          spec_write vformat c level module file line function_name format args s w
      | Set_Console enabled level \<Rightarrow>
          if known_level level then (A_Code UT_LOG_OK, s\<lparr>sp_console := (enabled, level)\<rparr>, leave c (enter c w))
          else (A_Code UT_LOG_INVALID_ARGUMENT, s, w)
      | Set_Ring enabled level \<Rightarrow>
          if known_level level then (A_Code UT_LOG_OK, s\<lparr>sp_ring := (enabled, level)\<rparr>, leave c (enter c w))
          else (A_Code UT_LOG_INVALID_ARGUMENT, s, w)
      | Is_Enabled level \<Rightarrow>
          if known_level level
          then (A_Bool (passes (sp_console s) level \<and> cf_console_write c \<noteq> None \<or> passes (sp_ring s) level), s,
                leave c (enter c w))
          else (A_Bool False, s, w)
      | Count \<Rightarrow> (A_Count (length (kept capacity s)), s, leave c (enter c w))
      | Overwritten \<Rightarrow> (A_Overwritten (of_nat (overwritten capacity s)), s, leave c (enter c w))
      | Read i cell \<Rightarrow>
          (if i < length (kept capacity s) then A_Record UT_LOG_OK (Some (kept capacity s ! i))
           else A_Record UT_LOG_NOT_FOUND (Some cell), s, leave c (enter c w))
      | Dump callback context \<Rightarrow>
          (case callback of
             None \<Rightarrow> (A_Code UT_LOG_INVALID_ARGUMENT, s, w)
           | Some f \<Rightarrow> (A_Code UT_LOG_OK, s, leave c (show_all f context (kept capacity s) (enter c w))))
      | Clear \<Rightarrow>
          (A_Code UT_LOG_OK, s\<lparr>sp_history := [], sp_lost := overwritten capacity s\<rparr>, leave c (enter c w)))"

section \<open>The model's answers\<close>

definition log_call ::
    "(string \<Rightarrow> c_arg list \<Rightarrow> string option) \<Rightarrow> 'w log_call \<Rightarrow> 'w log_process \<Rightarrow> 'w \<Rightarrow>
     log_answer \<times> 'w log_process \<times> 'w" where
  "log_call vformat call s w =
     (case call of
        Write level module file line function_name format args \<Rightarrow>
          apfst A_Code (ut_log_write_default vformat level module file line function_name format args s w)
      | Set_Console enabled level \<Rightarrow> apfst A_Code (ut_log_set_console enabled level s w)
      | Set_Ring enabled level \<Rightarrow> apfst A_Code (ut_log_set_ring enabled level s w)
      | Is_Enabled level \<Rightarrow> (let (b, w') = ut_log_default_is_enabled level s w in (A_Bool b, s, w'))
      | Count \<Rightarrow> (let (n, w') = ut_log_count s w in (A_Count n, s, w'))
      | Overwritten \<Rightarrow> (let (n, w') = ut_log_overwritten_count s w in (A_Overwritten n, s, w'))
      | Read i cell \<Rightarrow> (let (r, out, w') = ut_log_read i (Some cell) s w in (A_Record r out, s, w'))
      | Dump callback context \<Rightarrow> (let (r, w') = ut_log_dump callback context s w in (A_Code r, s, w'))
      | Clear \<Rightarrow> apfst A_Code (ut_log_clear s w))"

fun log_calls where
  "log_calls vformat [] s w = ([], s, w)"
| "log_calls vformat (c # cs) s w =
     (let (a, s1, w1) = log_call vformat c s w; (as, s2, w2) = log_calls vformat cs s1 w1 in (a # as, s2, w2))"

fun spec_calls where
  "spec_calls vformat c capacity [] s w = ([], s, w)"
| "spec_calls vformat c capacity (x # xs) s w =
     (let (a, s1, w1) = spec_call vformat c capacity x s w;
          (as, s2, w2) = spec_calls vformat c capacity xs s1 w1 in (a # as, s2, w2))"

text \<open>
  The abstraction: the ring holds the kept records, the counters are the specification's modulo \<open>2^64\<close>,
  and the callbacks are the configuration's. A record takes 320 bytes, so a storage array that exists in
  memory has at most \<open>size_max / 320\<close> of them and index sums do not wrap.
\<close>

definition log_abs :: "'w ut_logger_config \<Rightarrow> nat \<Rightarrow> 'w ut_logger \<Rightarrow> log_spec \<Rightarrow> bool" where
  "log_abs c capacity l s \<longleftrightarrow>
     0 < capacity \<and> capacity * 320 \<le> size_max \<and>
     length (lg_storage l) = capacity \<and> lg_capacity l = capacity \<and> lg_head l < capacity \<and>
     lg_count l = length (kept capacity s) \<and>
     ring_list (lg_storage l) (lg_head l) (lg_count l) = kept capacity s \<and>
     lg_next_sequence l = of_nat (sp_sequence s) \<and> lg_overwritten_count l = of_nat (overwritten capacity s) \<and>
     (lg_console_enabled l, lg_console_level l) = sp_console s \<and> (lg_ring_enabled l, lg_ring_level l) = sp_ring s \<and>
     lg_console_write l = cf_console_write c \<and> lg_console_context l = cf_console_context c \<and>
     lg_clock l = cf_clock c \<and> lg_clock_context l = cf_clock_context c \<and>
     lg_lock l = cf_lock c \<and> lg_unlock l = cf_unlock c \<and> lg_lock_context l = cf_lock_context c \<and>
     (cf_lock c = None \<longleftrightarrow> cf_unlock c = None)"

lemma level_known [simp]: "level_is_valid level = known_level level"
  by (simp add: level_is_valid_def known_level_def UT_LOG_LEVEL_TRACE_def UT_LOG_LEVEL_COUNT_def)

lemma abs_valid: "log_abs c capacity l s \<Longrightarrow> logger_is_valid (Some l)"
  by (auto simp: log_abs_def logger_is_valid_def)

lemma abs_lock: "log_abs c capacity l s \<Longrightarrow> logger_lock l = enter c \<and> logger_unlock l = leave c"
  by (auto simp: log_abs_def logger_lock_def enter_def logger_unlock_def leave_def fun_eq_iff)

lemma length_kept: "length (kept capacity s) = min (length (sp_history s)) capacity"
  by (simp add: kept_def)

text \<open>Storing one record keeps the newest \<open>capacity\<close>.\<close>

lemma kept_append:
  assumes "0 < capacity"
  shows "kept capacity (s\<lparr>sp_history := sp_history s @ [r]\<rparr>) =
    (if length (kept capacity s) = capacity then tl (kept capacity s) @ [r] else kept capacity s @ [r])"
proof (cases "capacity \<le> length (sp_history s)")
  case True
  then have "Suc (length (sp_history s)) - capacity = Suc (length (sp_history s) - capacity)" by (rule Suc_diff_le)
  with True assms show ?thesis by (simp add: kept_def drop_Suc tl_drop)
next
  case False
  then show ?thesis by (simp add: kept_def)
qed

lemma ring_push_abs:
  assumes "log_abs c capacity l s"
  shows "log_abs c capacity (ring_push l r) (s\<lparr>sp_history := sp_history s @ [r]\<rparr>)"
proof -
  let ?n = "length (kept capacity s)"
  have cap: "0 < capacity" "capacity * 320 \<le> size_max" and len: "length (lg_storage l) = capacity"
    and head: "lg_head l < capacity" and count: "lg_count l = ?n" "lg_capacity l = capacity"
    and ring: "ring_list (lg_storage l) (lg_head l) ?n = kept capacity s"
    using assms by (auto simp: log_abs_def)
  have n: "?n \<le> capacity" by (simp add: length_kept)
  have sums: "size_add (lg_head l) ?n = lg_head l + ?n" "size_add (lg_head l) 1 = lg_head l + 1" "size_add ?n 1 = ?n + 1"
    using cap head n by (auto intro!: size_add_exact)
  note k = kept_append [OF cap(1), of s r]
  show ?thesis
  proof (cases "?n = capacity")
    case True
    then have "overwritten capacity (s\<lparr>sp_history := sp_history s @ [r]\<rparr>) = Suc (overwritten capacity s)"
      by (simp add: overwritten_def length_kept min_def split: if_splits)
    with True show ?thesis
      using assms cap head ring_list_overwrite [of "lg_head l" "lg_storage l" r] ring len
      by (simp add: log_abs_def ring_push_def Let_def sums k count)
  next
    case False
    then have "overwritten capacity (s\<lparr>sp_history := sp_history s @ [r]\<rparr>) = overwritten capacity s"
      by (simp add: overwritten_def length_kept min_def split: if_splits)
    with False show ?thesis
      using assms cap n ring_list_push [of ?n "lg_storage l" "lg_head l" r] ring len
      by (simp add: log_abs_def ring_push_def Let_def sums k count)
  qed
qed

section \<open>Every call refines its specification\<close>

lemma texts_written:
  "(record_texts level line m f fn)\<lparr>rec_message :=
      fst (snprintf (rec_message (record_texts level line m f fn)) UT_LOG_MESSAGE_CAPACITY text)\<rparr> =
   \<lparr>rec_sequence = 0, rec_timestamp = 0, rec_level = level, rec_line = line, rec_module = field 24 m,
    rec_message = field 160 text, rec_file = field 64 f, rec_function = field 48 fn\<rparr>"
proof -
  have "copy_text (replicate n (CHR 0x00)) n s = field n s" if "0 < n" for n s
    by (simp add: copy_text_def snprintf_field [OF that])
  moreover have "fst (snprintf (replicate 160 (CHR 0x00)) 160 text) = field 160 text" by (rule snprintf_field) simp
  ultimately show ?thesis
    by (simp add: record_texts_def zero_record_def UT_LOG_MODULE_CAPACITY_def UT_LOG_MESSAGE_CAPACITY_def
        UT_LOG_FILE_CAPACITY_def UT_LOG_FUNCTION_CAPACITY_def)
qed

lemma spec_counts [simp]:
  "kept capacity (t\<lparr>sp_sequence := n\<rparr>) = kept capacity t" "overwritten capacity (t\<lparr>sp_sequence := n\<rparr>) = overwritten capacity t"
  "kept capacity (t\<lparr>sp_console := f\<rparr>) = kept capacity t" "overwritten capacity (t\<lparr>sp_console := f\<rparr>) = overwritten capacity t"
  "kept capacity (t\<lparr>sp_ring := f\<rparr>) = kept capacity t" "overwritten capacity (t\<lparr>sp_ring := f\<rparr>) = overwritten capacity t"
  by (simp_all add: kept_def overwritten_def)

lemma abs_sequence:
  "log_abs c capacity l t \<Longrightarrow> log_abs c capacity (l\<lparr>lg_next_sequence := lg_next_sequence l + 1\<rparr>) (t\<lparr>sp_sequence := Suc (sp_sequence t)\<rparr>)"
  by (auto simp: log_abs_def add.commute)

lemma abs_filters:
  assumes "log_abs c capacity l t"
  shows "(lg_console_enabled l \<and> lg_console_write l \<noteq> None \<and> lg_console_level l \<le> level) =
      (passes (sp_console t) level \<and> cf_console_write c \<noteq> None)"
    "(lg_ring_enabled l \<and> lg_ring_level l \<le> level) = passes (sp_ring t) level"
    "lg_console_write l = cf_console_write c" "lg_console_context l = cf_console_context c"
    "lg_clock l = cf_clock c" "lg_clock_context l = cf_clock_context c" "lg_next_sequence l = of_nat (sp_sequence t)"
proof -
  have s: "sp_console t = (lg_console_enabled l, lg_console_level l)" "sp_ring t = (lg_ring_enabled l, lg_ring_level l)"
    and c: "lg_console_write l = cf_console_write c" "lg_console_context l = cf_console_context c"
      "lg_clock l = cf_clock c" "lg_clock_context l = cf_clock_context c" "lg_next_sequence l = of_nat (sp_sequence t)"
    using assms by (simp_all add: log_abs_def)
  show "(lg_console_enabled l \<and> lg_console_write l \<noteq> None \<and> lg_console_level l \<le> level) =
      (passes (sp_console t) level \<and> cf_console_write c \<noteq> None)"
    "(lg_ring_enabled l \<and> lg_ring_level l \<le> level) = passes (sp_ring t) level"
    by (auto simp: s c passes_def)
  show "lg_console_write l = cf_console_write c" "lg_console_context l = cf_console_context c"
      "lg_clock l = cf_clock c" "lg_clock_context l = cf_clock_context c" "lg_next_sequence l = of_nat (sp_sequence t)"
    by (fact c)+
qed

lemma write_refines:
  assumes abs: "log_abs c capacity l t"
  shows "\<exists>r l' t' w'. ut_log_write_v vformat (Some l) level module file line function_name format args w = (r, Some l', w') \<and>
    spec_write vformat c level module file line function_name format args t w = (A_Code r, t', w') \<and> log_abs c capacity l' t'"
proof (cases "\<not> known_level level \<or> module = None \<or> file = None \<or> function_name = None \<or> format = None")
  case True
  then have "\<not> write_arguments_are_valid (Some l) level module file function_name format"
    unfolding write_arguments_are_valid_def level_known by blast
  with True abs show ?thesis by (auto simp: ut_log_write_v_def spec_write_def)
next
  case False
  then have ok: "write_arguments_are_valid (Some l) level module file function_name format"
    unfolding write_arguments_are_valid_def level_known using abs_valid [OF abs] by simp
  show ?thesis
  proof (cases "vformat (the format) args")
    case None
    with False ok abs show ?thesis by (auto simp: ut_log_write_v_def spec_write_def Let_def)
  next
    case (Some message)
    obtain time w1 where tm: "timestamp_of c (enter c w) = (time, w1)" by (metis surj_pair)
    let ?r = "\<lparr>rec_sequence = of_nat (sp_sequence t), rec_timestamp = time, rec_level = level, rec_line = line,
        rec_module = field 24 (the module), rec_message = field 160 message,
        rec_file = field 64 (the file), rec_function = field 48 (the function_name)\<rparr>"
    define l1 where "l1 = l\<lparr>lg_next_sequence := lg_next_sequence l + 1\<rparr>"
    define t1 where "t1 = t\<lparr>sp_sequence := Suc (sp_sequence t)\<rparr>"
    define l2 where "l2 = (if passes (sp_ring t) level then ring_push l1 ?r else l1)"
    define t2 where "t2 = t1\<lparr>sp_history := sp_history t1 @ (if passes (sp_ring t) level then [?r] else [])\<rparr>"
    have abs1: "log_abs c capacity l1 t1" unfolding l1_def t1_def by (rule abs_sequence [OF abs])
    have abs2: "log_abs c capacity l2 t2"
      using abs1 ring_push_abs [OF abs1, of ?r] by (simp add: l2_def t2_def)
    have stamp: "stamp_record l (?r\<lparr>rec_sequence := 0, rec_timestamp := 0\<rparr>) (enter c w) = (?r, l1, w1)"
      using tm by (cases "cf_clock c")
        (auto simp: stamp_record_def Let_def timestamp_of_def l1_def abs_filters [OF abs] simp del: One_nat_def)
    have store: "store_record l1 level ?r = l2"
      by (simp add: store_record_def l2_def abs_filters(2) [OF abs1], simp add: t1_def)
    have target: "console_target l2 level = (if passes (sp_console t) level then cf_console_write c else None)"
      using abs_filters(1) [OF abs2, of level] abs_filters(3) [OF abs2] by (auto simp: console_target_def t2_def t1_def)
    have w: "logger_lock l = enter c" "logger_unlock l2 = leave c"
      using abs_lock [OF abs] abs_lock [OF abs2] by simp_all
    note ctx = abs_filters(4) [OF abs2]
    show ?thesis
      using abs2 False ok Some stamp store
      by (auto simp: ut_log_write_v_def spec_write_def texts_written Let_def w target ctx tm t1_def t2_def
          split: prod.splits option.splits)
  qed
qed

lemma abs_ring:
  assumes "log_abs c capacity l t"
  shows "lg_count l = length (kept capacity t)" "lg_count l \<le> capacity" "lg_count l \<le> size_max"
    "i < lg_count l \<Longrightarrow> lg_storage l ! (size_add (lg_head l) i mod lg_capacity l) = kept capacity t ! i"
proof -
  have cap: "0 < capacity" "capacity * 320 \<le> size_max" "lg_head l < capacity" "lg_capacity l = capacity"
      "length (lg_storage l) = capacity"
    and n: "lg_count l = length (kept capacity t)"
    and ring: "ring_list (lg_storage l) (lg_head l) (lg_count l) = kept capacity t"
    using assms by (auto simp: log_abs_def)
  show "lg_count l = length (kept capacity t)" by (fact n)
  show le: "lg_count l \<le> capacity" by (simp add: n length_kept)
  then show "lg_count l \<le> size_max" using cap(2) by simp
  assume i: "i < lg_count l"
  then have "size_add (lg_head l) i = lg_head l + i" using cap le by (intro size_add_exact) simp
  with i show "lg_storage l ! (size_add (lg_head l) i mod lg_capacity l) = kept capacity t ! i"
    using ring_list_nth [OF i, of "lg_storage l" "lg_head l"] by (simp add: cap ring)
qed

lemma dump_shows:
  assumes "log_abs c capacity l t"
  shows "i + n = lg_count l \<Longrightarrow> dump_loop n i l f ctx w = show_all f ctx (drop i (kept capacity t)) w"
proof (induction n arbitrary: i w)
  case 0
  then show ?case by (simp add: abs_ring(1) [OF assms])
next
  case (Suc n)
  note ring = abs_ring [OF assms]
  have i: "i < length (kept capacity t)" using Suc.prems ring(1) by simp
  have "size_add i 1 = Suc i" using Suc.prems ring(3) by (simp add: size_add_exact)
  then show ?case
    using Suc.IH [of "Suc i"] Suc.prems ring(4) [of i] by (simp add: Cons_nth_drop_Suc [OF i, symmetric] Let_def split_beta)
qed

lemma abs_settings:
  assumes "log_abs c capacity l t"
  shows "log_abs c capacity (l\<lparr>lg_console_enabled := b, lg_console_level := level\<rparr>) (t\<lparr>sp_console := (b, level)\<rparr>)"
    "log_abs c capacity (l\<lparr>lg_ring_enabled := b, lg_ring_level := level\<rparr>) (t\<lparr>sp_ring := (b, level)\<rparr>)"
    "log_abs c capacity (l\<lparr>lg_head := 0, lg_count := 0\<rparr>) (t\<lparr>sp_history := [], sp_lost := overwritten capacity t\<rparr>)"
  using assms by (auto simp: log_abs_def kept_def overwritten_def)

text \<open>A process whose default logger is the one at \<open>p\<close>, which stands for the specification's state.\<close>

definition process_abs :: "'w ut_logger_config \<Rightarrow> nat \<Rightarrow> ptr \<Rightarrow> 'w log_process \<Rightarrow> log_spec \<Rightarrow> bool" where
  "process_abs c capacity p s t \<longleftrightarrow> p \<noteq> 0 \<and> lp_default_logger s = p \<and> log_abs c capacity (lp_memory s p) t"

lemma default_at: "process_abs c capacity p s t \<Longrightarrow> the_default s = Some (lp_memory s p)"
  by (simp add: process_abs_def logger_at_def)

lemma back_abs:
  "process_abs c capacity p s t \<Longrightarrow> log_abs c capacity l' t' \<Longrightarrow>
   process_abs c capacity p (write_back (lp_default_logger s) (Some l') s) t'"
  by (simp add: process_abs_def write_back_def)

lemma log_call_refines:
  assumes P: "process_abs c capacity p s t"
  shows "\<exists>s'. log_call vformat call s w =
      (fst (spec_call vformat c capacity call t w), s', snd (snd (spec_call vformat c capacity call t w))) \<and>
    process_abs c capacity p s' (fst (snd (spec_call vformat c capacity call t w)))"
proof -
  have abs: "log_abs c capacity (lp_memory s p) t" using P by (simp add: process_abs_def)
  note d = default_at [OF P] and valid = abs_valid [OF abs] and lock = abs_lock [OF abs] and ring = abs_ring [OF abs]
    and keep = abs_settings [OF abs]
  show ?thesis
  proof (cases call)
    case (Write level m fl line fn f args)
    obtain r l' t' w' where "ut_log_write_v vformat (Some (lp_memory s p)) level m fl line fn f args w = (r, Some l', w')"
      "spec_write vformat c level m fl line fn f args t w = (A_Code r, t', w')" "log_abs c capacity l' t'"
      using write_refines [OF abs, of vformat level m fl line fn f args w] by blast
    then show ?thesis
      by (simp add: Write log_call_def spec_call_def ut_log_write_default_def d back_abs [OF P])
  next
    case (Set_Console b level)
    note l = abs_lock [OF keep(1)]
    show ?thesis
      by (cases "known_level level") (simp_all add: Set_Console log_call_def spec_call_def ut_log_set_console_def
          ut_logger_set_console_def d valid Let_def lock l back_abs [OF P] keep abs)
  next
    case (Set_Ring b level)
    note l = abs_lock [OF keep(2)]
    show ?thesis
      by (cases "known_level level") (simp_all add: Set_Ring log_call_def spec_call_def ut_log_set_ring_def
          ut_logger_set_ring_def d valid Let_def lock l back_abs [OF P] keep abs)
  next
    case (Is_Enabled level)
    show ?thesis
      using P abs_filters(1,2) [OF abs, of level]
      by (auto simp: Is_Enabled log_call_def spec_call_def ut_log_default_is_enabled_def ut_log_is_enabled_def
          d valid Let_def lock)
  next
    case Count
    then show ?thesis
      using P by (simp add: log_call_def spec_call_def ut_log_count_def ut_logger_count_def d valid Let_def lock ring(1))
  next
    case Overwritten
    have "lg_overwritten_count (lp_memory s p) = of_nat (overwritten capacity t)" using abs by (simp add: log_abs_def)
    then show ?thesis
      using P by (simp add: Overwritten log_call_def spec_call_def ut_log_overwritten_count_def ut_logger_overwritten_count_def
          d valid Let_def lock)
  next
    case (Read i cell)
    show ?thesis
      using P ring(4) [of i] by (simp add: Read log_call_def spec_call_def ut_log_read_def ut_logger_read_def
          d valid Let_def lock ring(1))
  next
    case (Dump f ctx)
    show ?thesis
      using P by (cases f) (simp_all add: Dump log_call_def spec_call_def ut_log_dump_def ut_logger_dump_def
          d valid Let_def lock dump_shows [OF abs])
  next
    case Clear
    note l = abs_lock [OF keep(3)]
    show ?thesis
      by (simp add: Clear log_call_def spec_call_def ut_log_clear_def ut_logger_clear_def d valid Let_def lock l back_abs [OF P] keep)
  qed
qed

lemma log_calls_refine:
  "process_abs c capacity p s t \<Longrightarrow>
   \<exists>s'. log_calls vformat cs s w =
      (fst (spec_calls vformat c capacity cs t w), s', snd (snd (spec_calls vformat c capacity cs t w))) \<and>
    process_abs c capacity p s' (fst (snd (spec_calls vformat c capacity cs t w)))"
proof (induction cs arbitrary: s t w)
  case Nil
  then show ?case by auto
next
  case (Cons x cs)
  obtain a t1 w1 where spec: "spec_call vformat c capacity x t w = (a, t1, w1)" by (metis prod_cases3)
  with log_call_refines [OF Cons.prems, of vformat x w]
  obtain s1 where 1: "log_call vformat x s w = (a, s1, w1)" "process_abs c capacity p s1 t1" by auto
  from Cons.IH [OF 1(2), of w1] 1(1) spec show ?case by (auto simp: Let_def split_beta)
qed

text \<open>The start of the specification, and the answers of a process without a default logger.\<close>

definition initial_spec :: "'w ut_logger_config \<Rightarrow> log_spec" where
  "initial_spec c = \<lparr>sp_history = [], sp_lost = 0, sp_sequence = 0,
     sp_console = (cf_console_enabled c, cf_console_level c), sp_ring = (cf_ring_enabled c, cf_ring_level c)\<rparr>"

primrec refused :: "'w log_call \<Rightarrow> log_answer" where
  "refused (Write level module file line function_name format args) = A_Code UT_LOG_INVALID_ARGUMENT"
| "refused (Set_Console enabled level) = A_Code UT_LOG_INVALID_ARGUMENT"
| "refused (Set_Ring enabled level) = A_Code UT_LOG_INVALID_ARGUMENT"
| "refused (Is_Enabled level) = A_Bool False"
| "refused Count = A_Count 0"
| "refused Overwritten = A_Overwritten 0"
| "refused (Read i cell) = A_Record UT_LOG_INVALID_ARGUMENT (Some cell)"
| "refused (Dump callback ctx) = A_Code UT_LOG_INVALID_ARGUMENT"
| "refused Clear = A_Code UT_LOG_INVALID_ARGUMENT"

lemma call_without_default: "lp_default_logger s = 0 \<Longrightarrow> log_call vformat call s w = (refused call, s, w)"
  by (cases call) (simp_all add: log_call_def logger_at_def logger_is_valid_def write_back_def write_arguments_are_valid_def
      ut_log_write_default_def ut_log_write_v_def ut_log_set_console_def ut_logger_set_console_def
      ut_log_set_ring_def ut_logger_set_ring_def ut_log_default_is_enabled_def ut_log_is_enabled_def
      ut_log_count_def ut_logger_count_def ut_log_overwritten_count_def ut_logger_overwritten_count_def
      ut_log_read_def ut_logger_read_def ut_log_dump_def ut_logger_dump_def ut_log_clear_def ut_logger_clear_def)

lemma calls_without_default: "lp_default_logger s = 0 \<Longrightarrow> log_calls vformat cs s w = (map refused cs, s, w)"
  by (induction cs) (simp_all add: call_without_default)

lemma initialize_abs:
  assumes "ut_log_initialize p storage capacity (Some c) s = (UT_LOG_OK, s1)"
    and "length storage = capacity" "capacity * 320 \<le> size_max"
  shows "process_abs c capacity p s1 (initial_spec c)"
proof -
  let ?r = "ut_logger_init (logger_at p s) storage capacity (Some c)"
  have r: "fst ?r = UT_LOG_OK" "s1 = (write_back p (snd ?r) s)\<lparr>lp_default_logger := p\<rparr>"
    using assms(1) by (auto simp: ut_log_initialize_def split_beta Let_def split: if_splits)
  have bad: "\<not> (logger_at p s = None \<or> storage = [] \<or> capacity = 0 \<or> Some c = None \<or>
      \<not> level_is_valid (cf_console_level (the (Some c))) \<or> \<not> level_is_valid (cf_ring_level (the (Some c))) \<or>
      (cf_lock (the (Some c)) = None) \<noteq> (cf_unlock (the (Some c)) = None))"
  proof
    assume "logger_at p s = None \<or> storage = [] \<or> capacity = 0 \<or> Some c = None \<or>
      \<not> level_is_valid (cf_console_level (the (Some c))) \<or> \<not> level_is_valid (cf_ring_level (the (Some c))) \<or>
      (cf_lock (the (Some c)) = None) \<noteq> (cf_unlock (the (Some c)) = None)"
    then have "fst ?r = UT_LOG_INVALID_ARGUMENT" unfolding ut_logger_init_def by (simp only: if_True fst_conv)
    with r(1) show False by simp
  qed
  have "logger_at 0 s = None" by (simp add: logger_at_def)
  with bad have "p \<noteq> 0" by metis
  moreover have "0 < capacity" "(cf_lock c = None) = (cf_unlock c = None)" using bad by auto
  ultimately show ?thesis
    using assms(2,3) unfolding r(2) ut_logger_init_def if_not_P [OF bad]
    by (auto simp: write_back_def process_abs_def log_abs_def initial_spec_def kept_def overwritten_def Let_def)
qed

text \<open>Property C17. Once the default logger is initialised over an array of \<open>capacity\<close> records, every
  sequence of log calls, with any callbacks and any formatter, is answered from the history of stored
  records: count, read and dump see the newest \<open>capacity\<close> of those stored since the last clear, oldest
  first; sequence numbers count the writes; the overwritten count is what the ring has dropped; a record is
  stored and sent to the console by the levels in force; callbacks run inside one lock and unlock, the console
  after them. After shutdown every call is refused and runs no callback.\<close>

theorem logger_keeps_newest_records:
  assumes "ut_log_initialize p storage capacity (Some c) s = (UT_LOG_OK, s1)"
    and "length storage = capacity" and "capacity * 320 \<le> size_max"
  shows "\<exists>s2. log_calls vformat cs s1 w = (let (answers, t, w') = spec_calls vformat c capacity cs (initial_spec c) w in (answers, s2, w'))
    \<and> log_calls vformat cs' (ut_log_shutdown s2) w2 = (map refused cs', ut_log_shutdown s2, w2)"
proof -
  from log_calls_refine [OF initialize_abs [OF assms], of vformat cs w]
  obtain s2 where "log_calls vformat cs s1 w = (fst (spec_calls vformat c capacity cs (initial_spec c) w), s2,
      snd (snd (spec_calls vformat c capacity cs (initial_spec c) w)))" by blast
  moreover have "log_calls vformat cs' (ut_log_shutdown s2) w2 = (map refused cs', ut_log_shutdown s2, w2)"
    by (rule calls_without_default) (simp add: ut_log_shutdown_def)
  ultimately show ?thesis by (auto simp: split_beta Let_def)
qed

definition sample_config :: "nat ut_logger_config" where
  "sample_config = \<lparr>cf_console_write = Some (\<lambda>r ctx w. (UT_LOG_OK, w + 1)), cf_console_context = 0, cf_clock = None,
     cf_clock_context = 0, cf_lock = None, cf_unlock = None, cf_lock_context = 0, cf_console_level = 5,
     cf_ring_level = 2, cf_console_enabled = True, cf_ring_enabled = True\<rparr>"

definition sample_process :: "nat log_process" where
  "sample_process = \<lparr>lp_default_logger = 0, lp_memory = (\<lambda>_. \<lparr>
     lg_storage = [], lg_capacity = 0, lg_head = 0, lg_count = 0, lg_next_sequence = 0, lg_overwritten_count = 0,
     lg_console_write = None, lg_console_context = 0, lg_clock = None, lg_clock_context = 0, lg_lock = None,
     lg_unlock = None, lg_lock_context = 0, lg_console_level = 0, lg_ring_level = 0, lg_console_enabled = False,
     lg_ring_enabled = False\<rparr>)\<rparr>"

definition sample_write :: "int \<Rightarrow> nat log_call" where
  "sample_write level = Write level (Some ''m'') (Some ''f'') 1 (Some ''g'') (Some ''x=%u'') [C_Unsigned 3]"

theorem logger_keeps_newest_records_witness:
  "\<exists>s2. log_calls (\<lambda>f args. Some ''x'') [sample_write 1, sample_write 3, sample_write 4, sample_write 5, Count, Overwritten]
       (snd (ut_log_initialize 8 [zero_record, zero_record] 2 (Some sample_config) sample_process)) 0 =
     ([A_Code UT_LOG_OK, A_Code UT_LOG_OK, A_Code UT_LOG_OK, A_Code UT_LOG_OK, A_Count 2, A_Overwritten 1], s2, 1) \<and>
   log_calls (\<lambda>f args. Some ''x'') [Count] (ut_log_shutdown s2) 0 = ([A_Count 0], ut_log_shutdown s2, 0)"
proof -
  let ?i = "ut_log_initialize 8 [zero_record, zero_record] 2 (Some sample_config) sample_process"
  let ?cs = "[sample_write 1, sample_write 3, sample_write 4, sample_write 5, Count, Overwritten]"
  let ?spec = "spec_calls (\<lambda>f args. Some ''x'') sample_config 2 ?cs (initial_spec sample_config) 0"
  have init: "?i = (UT_LOG_OK, snd ?i)"
    by (simp add: ut_log_initialize_def ut_logger_init_def logger_at_def sample_config_def known_level_def)
  have "fst ?spec = [A_Code UT_LOG_OK, A_Code UT_LOG_OK, A_Code UT_LOG_OK, A_Code UT_LOG_OK, A_Count 2, A_Overwritten 1] \<and>
      snd (snd ?spec) = 1"
    by (simp add: sample_write_def spec_call_def spec_write_def sample_config_def initial_spec_def known_level_def passes_def
        enter_def leave_def timestamp_of_def kept_def overwritten_def)
  then obtain t where spec: "?spec =
      ([A_Code UT_LOG_OK, A_Code UT_LOG_OK, A_Code UT_LOG_OK, A_Code UT_LOG_OK, A_Count 2, A_Overwritten 1], t, 1)"
    by (metis prod.collapse)
  show ?thesis
    using logger_keeps_newest_records [of 8 "[zero_record, zero_record]" 2 sample_config sample_process "snd ?i"
        "\<lambda>f args. Some ''x''" ?cs 0 "[Count]" 0, OF init, unfolded spec]
    by (simp add: size_max_def)
qed

end
