(* ===== verification/Event_Trace_Log.thy ===== *)
theory Event_Trace_Log
  imports Event_Trace Logger_Refinement
begin

text \<open>
  The adapter that writes trace records to a logger (\<open>utility_event_trace_log.c\<close>): a trace sink whose
  context names a logger, or none for the default logger, a module and a level. It formats with
  \<open>c_format\<close>, since the formats are the adapter's own.
\<close>

definition UT_EVENT_TRACE_LOG_DEFAULT_MODULE :: string where
  "UT_EVENT_TRACE_LOG_DEFAULT_MODULE = ''event-trace''"

definition UT_EVENT_TRACE_LOG_FILE :: string where
  "UT_EVENT_TRACE_LOG_FILE = ''utility_event_trace''"

definition UT_EVENT_TRACE_LOG_LINE :: u32 where
  "UT_EVENT_TRACE_LOG_LINE = 0"

definition UT_EVENT_TRACE_LOG_FUNCTION :: string where
  "UT_EVENT_TRACE_LOG_FUNCTION = ''ut_event_trace_log_sink''"

record ut_event_trace_log_config =
  tl_logger :: ptr
  tl_module :: "string option"
  tl_level :: int

definition resolve_module :: "string option \<Rightarrow> string" where
  "resolve_module module = (case module of None \<Rightarrow> UT_EVENT_TRACE_LOG_DEFAULT_MODULE | Some m \<Rightarrow> m)"

text \<open>One log call of the sink: to the configured logger, or to the default one.\<close>

definition sink_write ::
    "ut_event_trace_log_config \<Rightarrow> string \<Rightarrow> c_arg list \<Rightarrow> 'w log_process \<Rightarrow> 'w \<Rightarrow> 'w log_process \<times> 'w" where
  "sink_write config format args s w =
     (if tl_logger config \<noteq> 0
      then let (r, l, w') = ut_log_write c_format (logger_at (tl_logger config) s) (tl_level config)
                 (Some (resolve_module (tl_module config))) (Some UT_EVENT_TRACE_LOG_FILE) UT_EVENT_TRACE_LOG_LINE
                 (Some UT_EVENT_TRACE_LOG_FUNCTION) (Some format) args w
           in (write_back (tl_logger config) l s, w')
      else let (r, s', w') = ut_log_write_default c_format (tl_level config)
                 (Some (resolve_module (tl_module config))) (Some UT_EVENT_TRACE_LOG_FILE) UT_EVENT_TRACE_LOG_LINE
                 (Some UT_EVENT_TRACE_LOG_FUNCTION) (Some format) args s w
           in (s', w'))"

definition ut_event_trace_log_sink ::
    "ut_event_trace_record option \<Rightarrow> ut_event_trace_log_config option \<Rightarrow> 'w log_process \<Rightarrow> 'w \<Rightarrow> 'w log_process \<times> 'w" where
  "ut_event_trace_log_sink record config s w =
     (case (record, config) of
        (Some r, Some cfg) \<Rightarrow>
          (case tr_kind r of
             UT_EVENT_TRACE_KIND_EVENT \<Rightarrow>
               sink_write cfg ''event id=%u source=%u payload_size=%zu''
                 [C_Unsigned (unat (tr_event_id r)), C_Unsigned (unat (tr_source r)), C_Unsigned (tr_payload_size r)] s w
           | UT_EVENT_TRACE_KIND_STATE_TRANSITION \<Rightarrow>
               sink_write cfg ''state source=%u from=%u to=%u reason=%u''
                 [C_Unsigned (unat (tr_source r)), C_Unsigned (unat (tr_from_state r)),
                  C_Unsigned (unat (tr_to_state r)), C_Unsigned (unat (tr_reason r))] s w
           | _ \<Rightarrow> (s, w))
      | _ \<Rightarrow> (s, w))"

section \<open>Trace records reach the log whole\<close>

definition event_text :: "ut_event_trace_record \<Rightarrow> string" where
  "event_text r = ''event id='' @ decimal (unat (tr_event_id r)) @ '' source='' @ decimal (unat (tr_source r)) @
     '' payload_size='' @ decimal (tr_payload_size r)"

definition state_text :: "ut_event_trace_record \<Rightarrow> string" where
  "state_text r = ''state source='' @ decimal (unat (tr_source r)) @ '' from='' @ decimal (unat (tr_from_state r)) @
     '' to='' @ decimal (unat (tr_to_state r)) @ '' reason='' @ decimal (unat (tr_reason r))"

definition trace_text :: "ut_event_trace_record \<Rightarrow> string" where
  "trace_text r = (if tr_kind r = UT_EVENT_TRACE_KIND_EVENT then event_text r else state_text r)"

lemma length_decimal: "n < 10 ^ k \<Longrightarrow> 0 < k \<Longrightarrow> length (decimal n) \<le> k"
proof (induction k arbitrary: n)
  case (Suc k)
  show ?case
  proof (cases "n < 10")
    case True
    then show ?thesis by (subst decimal.simps) simp
  next
    case False
    then have "k \<noteq> 0" using Suc.prems(1) by (cases k) auto
    then have "length (decimal (n div 10)) \<le> k" using Suc.IH [of "n div 10"] Suc.prems(1) by simp
    with False show ?thesis by (subst decimal.simps) simp
  qed
qed simp

lemma decimal_no_nul: "CHR 0x00 \<notin> set (decimal n)"
proof (induction n rule: less_induct)
  case (less n)
  have digit: "char_of (48 + k :: nat) \<noteq> CHR 0x00" if "k < 10" for k
  proof
    assume "char_of (48 + k) = CHR 0x00"
    then have "(of_char (char_of (48 + k)) :: nat) = of_char (CHR 0x00)" by (simp only:)
    with that show False by simp
  qed
  show ?case
  proof (cases "n < 10")
    case True
    then show ?thesis using digit [of n] by (subst decimal.simps) simp
  next
    case False
    with less [of "n div 10"] digit [of "n mod 10"] show ?thesis by (subst decimal.simps) simp
  qed
qed

lemma trace_format:
  "c_format ''event id=%u source=%u payload_size=%zu'' [C_Unsigned a, C_Unsigned b, C_Unsigned n] =
     Some (''event id='' @ decimal a @ '' source='' @ decimal b @ '' payload_size='' @ decimal n)"
  "c_format ''state source=%u from=%u to=%u reason=%u'' [C_Unsigned a, C_Unsigned b, C_Unsigned n, C_Unsigned m] =
     Some (''state source='' @ decimal a @ '' from='' @ decimal b @ '' to='' @ decimal n @ '' reason='' @ decimal m)"
  by (simp_all add: conversion_def length_modifier_def)

lemma u32_digits: "length (decimal (unat (x :: u32))) \<le> 10"
  by (rule length_decimal) (use unat_u32_less [of x] in simp_all)

lemma trace_text_fits:
  assumes "tr_payload_size r \<le> size_max"
  shows "length (trace_text r) < 160" "CHR 0x00 \<notin> set (trace_text r)"
proof -
  have "length (decimal (tr_payload_size r)) \<le> 20"
    using assms by (intro length_decimal) (simp_all add: size_max_def)
  then show "length (trace_text r) < 160"
    using u32_digits [of "tr_event_id r"] u32_digits [of "tr_source r"] u32_digits [of "tr_from_state r"]
      u32_digits [of "tr_to_state r"] u32_digits [of "tr_reason r"]
    by (simp add: trace_text_def event_text_def state_text_def)
  show "CHR 0x00 \<notin> set (trace_text r)"
    by (simp add: trace_text_def event_text_def state_text_def decimal_no_nul)
qed

text \<open>The logger a configuration writes to.\<close>

definition sink_target :: "ut_event_trace_log_config \<Rightarrow> 'w log_process \<Rightarrow> ptr" where
  "sink_target config s = (if tl_logger config \<noteq> 0 then tl_logger config else lp_default_logger s)"

lemma sink_write_target:
  "sink_target config s \<noteq> 0 \<Longrightarrow> sink_write config format args s w =
     (let (r, l, w') = ut_log_write_v c_format (Some (lp_memory s (sink_target config s))) (tl_level config)
                 (Some (resolve_module (tl_module config))) (Some UT_EVENT_TRACE_LOG_FILE) UT_EVENT_TRACE_LOG_LINE
                 (Some UT_EVENT_TRACE_LOG_FUNCTION) (Some format) args w
      in (write_back (sink_target config s) l s, w'))"
  by (auto simp: sink_write_def sink_target_def ut_log_write_def ut_log_write_default_def logger_at_def split_beta Let_def)

text \<open>Property C36. A trace record handed to the log sink, of an event or of a state transition, is appended
  to the history of the configured logger, or of the default one when none is configured, as a record whose
  message is the whole text of the trace record: with the widths its numbers can have it always fits the
  message field. A level the ring does not store leaves the history alone.\<close>

theorem trace_records_reach_log:
  assumes "log_abs c capacity (lp_memory s (sink_target config s)) t" and "sink_target config s \<noteq> 0"
    and "tr_kind record \<noteq> UT_EVENT_TRACE_KIND_COUNT" and "tr_payload_size record \<le> size_max"
    and "known_level (tl_level config)"
  shows "\<exists>s' w' t'. ut_event_trace_log_sink (Some record) (Some config) s w = (s', w')
    \<and> log_abs c capacity (lp_memory s' (sink_target config s)) t' \<and> sp_sequence t' = Suc (sp_sequence t)
    \<and> (\<exists>r. sp_history t' = sp_history t @ (if passes (sp_ring t) (tl_level config) then [r] else [])
        \<and> c_string (rec_message r) = trace_text record \<and> rec_level r = tl_level config
        \<and> rec_sequence r = of_nat (sp_sequence t) \<and> rec_module r = field 24 (resolve_module (tl_module config)))"
proof -
  define f where "f = (if tr_kind record = UT_EVENT_TRACE_KIND_EVENT then ''event id=%u source=%u payload_size=%zu''
      else ''state source=%u from=%u to=%u reason=%u'')"
  define args where "args = (if tr_kind record = UT_EVENT_TRACE_KIND_EVENT
      then [C_Unsigned (unat (tr_event_id record)), C_Unsigned (unat (tr_source record)), C_Unsigned (tr_payload_size record)]
      else [C_Unsigned (unat (tr_source record)), C_Unsigned (unat (tr_from_state record)),
        C_Unsigned (unat (tr_to_state record)), C_Unsigned (unat (tr_reason record))])"
  have text_of: "c_format f args = Some (trace_text record)"
    by (simp add: f_def args_def trace_format trace_text_def event_text_def state_text_def del: c_format.simps)
  have sink: "ut_event_trace_log_sink (Some record) (Some config) s w = sink_write config f args s w"
    using assms(3) by (cases "tr_kind record") (simp_all add: ut_event_trace_log_sink_def f_def args_def)
  let ?l = "lp_memory s (sink_target config s)"
  obtain r l' t' w' where wr: "ut_log_write_v c_format (Some ?l) (tl_level config) (Some (resolve_module (tl_module config)))
        (Some UT_EVENT_TRACE_LOG_FILE) UT_EVENT_TRACE_LOG_LINE (Some UT_EVENT_TRACE_LOG_FUNCTION) (Some f) args w = (r, Some l', w')"
      and spec: "spec_write c_format c (tl_level config) (Some (resolve_module (tl_module config)))
        (Some UT_EVENT_TRACE_LOG_FILE) UT_EVENT_TRACE_LOG_LINE (Some UT_EVENT_TRACE_LOG_FUNCTION) (Some f) args t w = (A_Code r, t', w')"
      and abs: "log_abs c capacity l' t'"
    using write_refines [OF assms(1), of c_format "tl_level config" "Some (resolve_module (tl_module config))"
        "Some UT_EVENT_TRACE_LOG_FILE" UT_EVENT_TRACE_LOG_LINE "Some UT_EVENT_TRACE_LOG_FUNCTION" "Some f" args w] by blast
  have field: "c_string (field 160 (trace_text record)) = trace_text record"
    using trace_text_fits [OF assms(4)] by (simp add: c_string_field)
  obtain time w1 where tm: "timestamp_of c (enter c w) = (time, w1)" by (metis surj_pair)
  define rr where "rr = \<lparr>rec_sequence = of_nat (sp_sequence t), rec_timestamp = time, rec_level = tl_level config,
      rec_line = UT_EVENT_TRACE_LOG_LINE, rec_module = field 24 (resolve_module (tl_module config)),
      rec_message = field 160 (trace_text record), rec_file = field 64 UT_EVENT_TRACE_LOG_FILE,
      rec_function = field 48 UT_EVENT_TRACE_LOG_FUNCTION\<rparr>"
  have t': "t' = t\<lparr>sp_sequence := Suc (sp_sequence t),
      sp_history := sp_history t @ (if passes (sp_ring t) (tl_level config) then [rr] else [])\<rparr>"
    using spec assms(5) by (auto simp: spec_write_def text_of tm Let_def rr_def split: if_splits prod.splits)
  have "ut_event_trace_log_sink (Some record) (Some config) s w = (write_back (sink_target config s) (Some l') s, w')"
    by (simp add: sink sink_write_target [OF assms(2)] wr)
  moreover have "c_string (rec_message rr) = trace_text record \<and> rec_level rr = tl_level config \<and>
      rec_sequence rr = of_nat (sp_sequence t) \<and> rec_module rr = field 24 (resolve_module (tl_module config))"
    by (simp add: rr_def field)
  moreover have "log_abs c capacity (lp_memory (write_back (sink_target config s) (Some l') s) (sink_target config s)) t'"
    using abs by (simp add: write_back_def)
  moreover have "sp_sequence t' = Suc (sp_sequence t)"
    "sp_history t' = sp_history t @ (if passes (sp_ring t) (tl_level config) then [rr] else [])" by (simp_all add: t')
  ultimately show ?thesis by blast
qed

definition sample_trace_record :: ut_event_trace_record where
  "sample_trace_record = \<lparr>tr_kind = UT_EVENT_TRACE_KIND_EVENT, tr_event_id = 7, tr_source = uint32_max,
     tr_from_state = 0, tr_to_state = 0, tr_reason = 0, tr_payload_size = 12\<rparr>"

definition sample_sink :: ut_event_trace_log_config where
  "sample_sink = \<lparr>tl_logger = 0, tl_module = None, tl_level = 3\<rparr>"

theorem trace_records_reach_log_witness:
  "\<exists>s' w' t' r. ut_event_trace_log_sink (Some sample_trace_record) (Some sample_sink)
       (snd (ut_log_initialize 8 [zero_record, zero_record] 2 (Some sample_config) sample_process)) 0 = (s', w') \<and>
     log_abs sample_config 2 (lp_memory s' 8) t' \<and> sp_history t' = [r] \<and>
     c_string (rec_message r) = trace_text sample_trace_record"
proof -
  let ?i = "ut_log_initialize 8 [zero_record, zero_record] 2 (Some sample_config) sample_process"
  have "?i = (UT_LOG_OK, snd ?i)"
    by (simp add: ut_log_initialize_def ut_logger_init_def logger_at_def sample_config_def known_level_def)
  from initialize_abs [OF this] have p: "process_abs sample_config 2 8 (snd ?i) (initial_spec sample_config)"
    by (simp add: size_max_def)
  then have target: "sink_target sample_sink (snd ?i) = 8" by (simp add: process_abs_def sink_target_def sample_sink_def)
  have "log_abs sample_config 2 (lp_memory (snd ?i) 8) (initial_spec sample_config)" using p by (simp add: process_abs_def)
  from trace_records_reach_log [of sample_config 2 "snd ?i" sample_sink "initial_spec sample_config" sample_trace_record 0,
      unfolded target, OF this]
  show ?thesis
    by (fastforce simp: sample_trace_record_def sample_sink_def size_max_def known_level_def initial_spec_def sample_config_def passes_def)
qed

end
