(* ===== verification/Unit_Mock.thy ===== *)
theory Unit_Mock
  imports Foundation_Prelude
begin

text \<open>
  The mock units (\<open>unit_mock.c\<close>): an input port, a worker thread that executes one command at a time, and
  a result callback. Each stretch the code runs under the unit's mutex is one atomic step; the worker's
  position between them is explicit, so every interleaving of clients and worker is a sequence of steps.
  \<open>calloc\<close>, the pthread constructors and the 500 ms operation may fail: their outcome is an argument.
\<close>

datatype unit_mock_command = UNIT_MOCK_COMMAND_NONE | UNIT_MOCK_COMMAND_EXECUTE
datatype unit_mock_status =
  UNIT_MOCK_STATUS_IDLE | UNIT_MOCK_STATUS_RUNNING | UNIT_MOCK_STATUS_COMPLETED | UNIT_MOCK_STATUS_ERROR
datatype unit_mock_error = UNIT_MOCK_ERROR_NONE | UNIT_MOCK_ERROR_EXECUTION
datatype unit_mock_input_result =
  UNIT_MOCK_INPUT_ACCEPTED | UNIT_MOCK_INPUT_BUSY | UNIT_MOCK_INPUT_INVALID_ARGUMENT

record unit_mock_input =
  ui_command :: unit_mock_command
  ui_request_id :: u32

record unit_mock_output =
  uo_status :: unit_mock_status
  uo_request_id :: u32
  uo_error :: unit_mock_error

record unit_mock_result =
  ur_unit_number :: u8
  ur_request_id :: u32
  ur_error :: unit_mock_error

record unit_mock_result_output =
  ro_handler :: ptr
  ro_context :: ptr

record unit_mock =
  um_input :: unit_mock_input
  um_output :: unit_mock_output
  um_result_output :: unit_mock_result_output
  um_operation :: nat
  um_unit_number :: u8
  um_has_input :: bool
  um_stop_requested :: bool

section \<open>Operations\<close>

text \<open>The operation of a unit is its index in the table of ten; each prints its name and sleeps.\<close>

definition unit_mock_find_operation :: "u8 \<Rightarrow> nat option" where
  "unit_mock_find_operation unit_number =
     (if unit_number = 0 \<or> 10 < unit_number then None else Some (unat (unit_number - 1)))"

text \<open>
  \<open>unit_mock_sleep\<close> retries \<open>nanosleep\<close> while it is interrupted. The list is what successive calls
  return: \<open>None\<close> success, \<open>Some True\<close> an interruption, \<open>Some False\<close> another error.
\<close>

fun unit_mock_sleep :: "bool option list \<Rightarrow> bool option" where
  "unit_mock_sleep [] = None"
| "unit_mock_sleep (None # rs) = Some True"
| "unit_mock_sleep (Some interrupted # rs) = (if \<not> interrupted then Some False else unit_mock_sleep rs)"

definition zero_unit :: unit_mock where
  "zero_unit = \<lparr>um_input = \<lparr>ui_command = UNIT_MOCK_COMMAND_NONE, ui_request_id = 0\<rparr>,
     um_output = \<lparr>uo_status = UNIT_MOCK_STATUS_IDLE, uo_request_id = 0, uo_error = UNIT_MOCK_ERROR_NONE\<rparr>,
     um_result_output = \<lparr>ro_handler = 0, ro_context = 0\<rparr>, um_operation = 0, um_unit_number = 0,
     um_has_input = False, um_stop_requested = False\<rparr>"

text \<open>The five resources of \<open>unit_mock_create\<close>, in the order it takes them; \<open>taken\<close> are those held after it.\<close>

datatype unit_resource = R_Memory | R_Mutex | R_Input_Ready | R_Operation_Finished | R_Thread

definition unit_mock_create :: "(unit_resource \<Rightarrow> bool) \<Rightarrow> u8 \<Rightarrow> unit_mock option \<times> unit_resource list" where
  "unit_mock_create available unit_number =
     (case unit_mock_find_operation unit_number of
        None \<Rightarrow> (None, [])
      | Some operation \<Rightarrow>
          if \<not> available R_Memory then (None, [])
          else let taken = [R_Memory] in
          if \<not> available R_Mutex then (None, removeAll R_Memory taken)
          else let taken = R_Mutex # taken in
          if \<not> available R_Input_Ready then (None, removeAll R_Memory (removeAll R_Mutex taken))
          else let taken = R_Input_Ready # taken in
          if \<not> available R_Operation_Finished
          then (None, removeAll R_Memory (removeAll R_Mutex (removeAll R_Input_Ready taken)))
          else
            let taken = R_Operation_Finished # taken;
                unit = zero_unit\<lparr>um_operation := operation, um_unit_number := unit_number,
                  um_output := (um_output zero_unit)\<lparr>uo_status := UNIT_MOCK_STATUS_IDLE\<rparr>\<rparr>
            in if \<not> available R_Thread
               then (None, removeAll R_Memory (removeAll R_Mutex (removeAll R_Input_Ready
                      (removeAll R_Operation_Finished taken))))
               else (Some unit, R_Thread # taken))"

definition unit_mock_set_result_output ::
    "unit_mock option \<Rightarrow> unit_mock_result_output option \<Rightarrow> unit_mock_input_result \<times> unit_mock option" where
  "unit_mock_set_result_output unit result_output =
     (if unit = None \<or> result_output = None \<or> ro_handler (the result_output) = 0
      then (UNIT_MOCK_INPUT_INVALID_ARGUMENT, unit)
      else if uo_status (um_output (the unit)) = UNIT_MOCK_STATUS_RUNNING then (UNIT_MOCK_INPUT_BUSY, unit)
      else (UNIT_MOCK_INPUT_ACCEPTED, Some ((the unit)\<lparr>um_result_output := the result_output\<rparr>)))"

definition unit_mock_write_input ::
    "unit_mock option \<Rightarrow> unit_mock_input option \<Rightarrow> unit_mock_input_result \<times> unit_mock option" where
  "unit_mock_write_input unit input =
     (if unit = None \<or> input = None \<or> ui_command (the input) \<noteq> UNIT_MOCK_COMMAND_EXECUTE
      then (UNIT_MOCK_INPUT_INVALID_ARGUMENT, unit)
      else let u = the unit in
        if uo_status (um_output u) = UNIT_MOCK_STATUS_RUNNING then (UNIT_MOCK_INPUT_BUSY, unit)
        else if ro_handler (um_result_output u) = 0 then (UNIT_MOCK_INPUT_INVALID_ARGUMENT, unit)
        else (UNIT_MOCK_INPUT_ACCEPTED, Some (u\<lparr>
               um_input := the input,
               um_output := \<lparr>uo_status = UNIT_MOCK_STATUS_RUNNING, uo_request_id = ui_request_id (the input),
                             uo_error = UNIT_MOCK_ERROR_NONE\<rparr>,
               um_has_input := True\<rparr>)))"

definition unit_mock_read_output ::
    "unit_mock option \<Rightarrow> unit_mock_output option \<Rightarrow> unit_mock_input_result \<times> unit_mock_output option" where
  "unit_mock_read_output unit output =
     (if unit = None \<or> output = None then (UNIT_MOCK_INPUT_INVALID_ARGUMENT, output)
      else (UNIT_MOCK_INPUT_ACCEPTED, Some (um_output (the unit))))"

text \<open>
  \<open>unit_mock_destroy\<close> up to the point where it waits for the worker to end: \<open>None\<close> while it waits for the
  running operation, then the stop flag is set. The resources are given back after the join.
\<close>

definition unit_mock_destroy :: "unit_mock \<Rightarrow> unit_mock option" where
  "unit_mock_destroy u =
     (if uo_status (um_output u) = UNIT_MOCK_STATUS_RUNNING then None else Some (u\<lparr>um_stop_requested := True\<rparr>))"

section \<open>The worker\<close>

text \<open>
  Where the worker is: waiting for input (the mutex is released while it waits), executing the operation
  outside the mutex, about to notify the result outside the mutex, or ended.
\<close>

datatype worker_position = Waiting | Operating | Notifying bool | Ended

definition worker_take :: "unit_mock \<Rightarrow> unit_mock" where
  "worker_take u = u\<lparr>um_has_input := False\<rparr>"

definition worker_finish :: "bool \<Rightarrow> unit_mock \<Rightarrow> unit_mock" where
  "worker_finish succeeded u = u\<lparr>um_output := (um_output u)\<lparr>
     uo_status := (if succeeded then UNIT_MOCK_STATUS_COMPLETED else UNIT_MOCK_STATUS_ERROR),
     uo_error := (if succeeded then UNIT_MOCK_ERROR_NONE else UNIT_MOCK_ERROR_EXECUTION)\<rparr>\<rparr>"

definition unit_mock_notify_result :: "unit_mock \<Rightarrow> bool \<Rightarrow> unit_mock_result" where
  "unit_mock_notify_result u succeeded =
     \<lparr>ur_unit_number = um_unit_number u, ur_request_id = uo_request_id (um_output u),
      ur_error = (if succeeded then UNIT_MOCK_ERROR_NONE else UNIT_MOCK_ERROR_EXECUTION)\<rparr>"

text \<open>
  The steps: a client call, or a step of the worker. A step that is not enabled is \<open>None\<close>: the worker
  takes an input that is there and ends when a stop is requested; \<open>destroy\<close> sets the stop flag once the
  unit is not running, and by its contract no client call comes after it.
\<close>

datatype unit_action =
    Write_Input unit_mock_input
  | Set_Result_Output unit_mock_result_output
  | Request_Stop
  | Worker_Take
  | Worker_Finish bool
  | Worker_Notify
  | Worker_End

datatype unit_label =
    Answered unit_mock_input_result
  | Accepted u32
  | Taken u32
  | Finished bool
  | Notified ptr ptr unit_mock_result
  | Stopping
  | Joined

fun unit_do :: "unit_action \<Rightarrow> unit_mock \<times> worker_position \<Rightarrow> (unit_label \<times> unit_mock \<times> worker_position) option" where
  "unit_do (Write_Input i) (u, pc) =
     (if um_stop_requested u then None
      else let (r, u') = unit_mock_write_input (Some u) (Some i)
           in Some (if r = UNIT_MOCK_INPUT_ACCEPTED then Accepted (ui_request_id i) else Answered r, the u', pc))"
| "unit_do (Set_Result_Output ro) (u, pc) =
     (if um_stop_requested u then None
      else let (r, u') = unit_mock_set_result_output (Some u) (Some ro) in Some (Answered r, the u', pc))"
| "unit_do Request_Stop (u, pc) =
     (case unit_mock_destroy u of None \<Rightarrow> None | Some u' \<Rightarrow> Some (Stopping, u', pc))"
| "unit_do Worker_Take (u, pc) =
     (if pc = Waiting \<and> um_has_input u \<and> \<not> um_stop_requested u
      then Some (Taken (ui_request_id (um_input u)), worker_take u, Operating) else None)"
| "unit_do (Worker_Finish succeeded) (u, pc) =
     (if pc = Operating then Some (Finished succeeded, worker_finish succeeded u, Notifying succeeded) else None)"
| "unit_do Worker_Notify (u, pc) =
     (case pc of
        Notifying succeeded \<Rightarrow>
          Some (Notified (ro_handler (um_result_output u)) (ro_context (um_result_output u))
                  (unit_mock_notify_result u succeeded), u, Waiting)
      | _ \<Rightarrow> None)"
| "unit_do Worker_End (u, pc) =
     (if pc = Waiting \<and> um_stop_requested u then Some (Joined, u, Ended) else None)"

inductive unit_trace :: "unit_mock \<times> worker_position \<Rightarrow> unit_label list \<Rightarrow> unit_mock \<times> worker_position \<Rightarrow> bool" where
  start: "unit_trace s [] s"
| step: "unit_trace s ls s1 \<Longrightarrow> unit_do a s1 = Some (l, s2) \<Longrightarrow> unit_trace s (ls @ [l]) s2"

section \<open>Every request is executed and notified once\<close>

definition accepted :: "unit_label list \<Rightarrow> u32 list" where
  "accepted ls = concat (map (\<lambda>l. case l of Accepted i \<Rightarrow> [i] | _ \<Rightarrow> []) ls)"

definition taken :: "unit_label list \<Rightarrow> u32 list" where
  "taken ls = concat (map (\<lambda>l. case l of Taken i \<Rightarrow> [i] | _ \<Rightarrow> []) ls)"

definition finished :: "unit_label list \<Rightarrow> unit_mock_error list" where
  "finished ls = concat (map (\<lambda>l. case l of
     Finished b \<Rightarrow> [if b then UNIT_MOCK_ERROR_NONE else UNIT_MOCK_ERROR_EXECUTION] | _ \<Rightarrow> []) ls)"

definition notified :: "unit_label list \<Rightarrow> (u32 \<times> unit_mock_error) list" where
  "notified ls = concat (map (\<lambda>l. case l of Notified h c r \<Rightarrow> [(ur_request_id r, ur_error r)] | _ \<Rightarrow> []) ls)"

lemmas label_views = accepted_def taken_def finished_def notified_def

text \<open>
  Clients that wait for a result before the next request: no request is accepted between the end of an
  operation and its notification.
\<close>

definition clients_wait :: "unit_label list \<Rightarrow> bool" where
  "clients_wait ls \<longleftrightarrow> (\<forall>k < length ls. \<forall>i. ls ! k = Accepted i \<longrightarrow>
     length (finished (take k ls)) = length (notified (take k ls)))"

lemma clients_wait_snoc:
  "clients_wait (ls @ [l]) \<longleftrightarrow> clients_wait ls \<and> (\<forall>i. l = Accepted i \<longrightarrow> length (finished ls) = length (notified ls))"
  by (auto simp: clients_wait_def nth_append less_Suc_eq)

lemma views_snoc [simp]:
  "accepted (ls @ [l]) = accepted ls @ accepted [l]" "taken (ls @ [l]) = taken ls @ taken [l]"
  "finished (ls @ [l]) = finished ls @ finished [l]" "notified (ls @ [l]) = notified ls @ notified [l]"
  by (simp_all add: label_views)

lemma views_single [simp]:
  "accepted [l] = (case l of Accepted i \<Rightarrow> [i] | _ \<Rightarrow> [])" "taken [l] = (case l of Taken i \<Rightarrow> [i] | _ \<Rightarrow> [])"
  "finished [l] = (case l of Finished b \<Rightarrow> [if b then UNIT_MOCK_ERROR_NONE else UNIT_MOCK_ERROR_EXECUTION] | _ \<Rightarrow> [])"
  "notified [l] = (case l of Notified h c r \<Rightarrow> [(ur_request_id r, ur_error r)] | _ \<Rightarrow> [])"
  by (simp_all add: label_views)

text \<open>What holds after every trace from a fresh unit.\<close>

definition unit_inv :: "unit_label list \<Rightarrow> unit_mock \<Rightarrow> worker_position \<Rightarrow> bool" where
  "unit_inv ls u pc \<longleftrightarrow>
     accepted ls = taken ls @ (if um_has_input u then [ui_request_id (um_input u)] else []) \<and>
     (uo_status (um_output u) = UNIT_MOCK_STATUS_RUNNING \<longleftrightarrow> um_has_input u \<or> pc = Operating) \<and>
     \<not> (um_has_input u \<and> pc = Operating) \<and> (um_stop_requested u \<longrightarrow> \<not> um_has_input u \<and> pc \<noteq> Operating) \<and>
     (pc = Ended \<longrightarrow> um_stop_requested u) \<and>
     length (taken ls) = length (finished ls) + (if pc = Operating then 1 else 0) \<and>
     (pc = Operating \<longrightarrow> uo_request_id (um_output u) = last (taken ls)) \<and>
     (um_has_input u \<longrightarrow> uo_request_id (um_output u) = ui_request_id (um_input u)) \<and>
     finished ls = map snd (notified ls) @
       (case pc of Notifying b \<Rightarrow> [if b then UNIT_MOCK_ERROR_NONE else UNIT_MOCK_ERROR_EXECUTION] | _ \<Rightarrow> []) \<and>
     (clients_wait ls \<longrightarrow>
        map fst (notified ls) = take (length (notified ls)) (taken ls) \<and>
        (\<forall>b. pc = Notifying b \<longrightarrow> \<not> um_has_input u \<and> uo_request_id (um_output u) = last (taken ls)))"

lemma unit_step_inv:
  assumes "unit_inv ls u pc" "unit_do a (u, pc) = Some (l, u', pc')"
  shows "unit_inv (ls @ [l]) u' pc'"
proof (cases a)
  case (Write_Input i)
  then show ?thesis
    using assms by (cases pc) (auto simp: unit_inv_def unit_mock_write_input_def Let_def clients_wait_snoc split: if_splits)
next
  case (Set_Result_Output ro)
  then show ?thesis
    using assms by (auto simp: unit_inv_def unit_mock_set_result_output_def clients_wait_snoc split: if_splits)
next
  case Request_Stop
  then show ?thesis
    using assms by (auto simp: unit_inv_def clients_wait_snoc unit_mock_destroy_def split: if_splits)
next
  case Worker_Take
  then show ?thesis
    using assms by (auto simp: unit_inv_def worker_take_def clients_wait_snoc split: if_splits)
next
  case (Worker_Finish b)
  then show ?thesis
    using assms by (auto simp: unit_inv_def worker_finish_def clients_wait_snoc split: if_splits)
next
  case Worker_Notify
  then obtain b where pc: "pc = Notifying b" "u' = u" "pc' = Waiting"
    and l: "l = Notified (ro_handler (um_result_output u)) (ro_context (um_result_output u)) (unit_mock_notify_result u b)"
    using assms(2) by (cases pc) auto
  have "finished ls = map snd (notified ls) @ [if b then UNIT_MOCK_ERROR_NONE else UNIT_MOCK_ERROR_EXECUTION]"
    and count: "length (taken ls) = length (finished ls)"
    using assms(1) by (simp_all add: unit_inv_def pc)
  then have len: "length (taken ls) = Suc (length (notified ls))" by simp
  then have split: "take (length (notified ls)) (taken ls) @ [last (taken ls)] = taken ls"
    using append_butlast_last_id [of "taken ls"] butlast_conv_take [of "taken ls"] by (cases "taken ls = []") simp_all
  have "map fst (notified ls) @ [uo_request_id (um_output u)] = taken ls" if "clients_wait ls"
  proof -
    have "map fst (notified ls) = take (length (notified ls)) (taken ls)" "uo_request_id (um_output u) = last (taken ls)"
      using assms(1) that by (simp_all add: unit_inv_def pc)
    then show ?thesis by (simp only: split)
  qed
  define r where "r = (uo_request_id (um_output u), if b then UNIT_MOCK_ERROR_NONE else UNIT_MOCK_ERROR_EXECUTION)"
  have new: "accepted (ls @ [l]) = accepted ls" "taken (ls @ [l]) = taken ls" "finished (ls @ [l]) = finished ls"
      "notified (ls @ [l]) = notified ls @ [r]" "clients_wait (ls @ [l]) = clients_wait ls"
    by (simp_all add: l r_def unit_mock_notify_result_def clients_wait_snoc)
  have named: "clients_wait ls \<Longrightarrow> map fst (notified ls @ [r]) = take (length (notified ls @ [r])) (taken ls)"
    using \<open>clients_wait ls \<Longrightarrow> _\<close> len by (simp add: r_def)
  have outcome: "finished ls = map snd (notified ls @ [r])" using assms(1) by (simp add: unit_inv_def pc r_def)
  show ?thesis
    using assms(1) named outcome unfolding unit_inv_def new pc by simp
next
  case Worker_End
  then show ?thesis
    using assms by (auto simp: unit_inv_def clients_wait_snoc split: if_splits)
qed

lemma unit_inv_start: "unit_inv [] (zero_unit\<lparr>um_operation := k, um_unit_number := n\<rparr>) Waiting"
  by (simp add: unit_inv_def zero_unit_def label_views clients_wait_def)

lemma unit_trace_inv:
  assumes "unit_trace s ls t" "unit_inv [] (fst s) (snd s)"
  shows "unit_inv ls (fst t) (snd t)"
  using assms
proof (induction rule: unit_trace.induct)
  case (step s ls s1 a l s2)
  then show ?case
    using unit_step_inv [of ls "fst s1" "snd s1" a l "fst s2" "snd s2"] by simp
qed

text \<open>Running a list of actions gives a trace.\<close>

fun unit_run :: "unit_action list \<Rightarrow> unit_mock \<times> worker_position \<Rightarrow> (unit_label list \<times> unit_mock \<times> worker_position) option" where
  "unit_run [] s = Some ([], s)"
| "unit_run (a # as) s =
     (case unit_do a s of
        None \<Rightarrow> None
      | Some (l, s1) \<Rightarrow> (case unit_run as s1 of None \<Rightarrow> None | Some (ls, s2) \<Rightarrow> Some (l # ls, s2)))"

lemma unit_run_trace: "unit_trace s ls s1 \<Longrightarrow> unit_run as s1 = Some (ls', s2) \<Longrightarrow> unit_trace s (ls @ ls') s2"
proof (induction as arbitrary: ls s1 ls')
  case (Cons a as)
  obtain l t ls1 where "unit_do a s1 = Some (l, t)" "unit_run as t = Some (ls1, s2)" "ls' = l # ls1"
    using Cons.prems(2) by (auto split: option.splits)
  with Cons.IH [OF unit_trace.step [OF Cons.prems(1)]] show ?case by fastforce
qed simp

lemma unit_run_from_start: "unit_run as s = Some (ls, s2) \<Longrightarrow> unit_trace s ls s2"
  using unit_run_trace [OF unit_trace.start] by fastforce

text \<open>A client that sees COMPLETED and writes the next request before the worker has notified.\<close>

definition overtaking :: "unit_action list" where
  "overtaking = [Set_Result_Output \<lparr>ro_handler = 1, ro_context = 2\<rparr>,
     Write_Input \<lparr>ui_command = UNIT_MOCK_COMMAND_EXECUTE, ui_request_id = 7\<rparr>, Worker_Take, Worker_Finish True,
     Write_Input \<lparr>ui_command = UNIT_MOCK_COMMAND_EXECUTE, ui_request_id = 8\<rparr>, Worker_Notify]"

lemma overtaking_runs:
  "\<exists>ls u. unit_run overtaking (zero_unit\<lparr>um_operation := k, um_unit_number := n\<rparr>, Waiting) = Some (ls, u, Waiting) \<and>
    taken ls = [7] \<and> notified ls = [(8, UNIT_MOCK_ERROR_NONE)] \<and> um_has_input u"
  by (simp add: overtaking_def zero_unit_def unit_mock_set_result_output_def unit_mock_write_input_def worker_take_def
      worker_finish_def unit_mock_notify_result_def label_views)

text \<open>Property C40. From creation on, in every interleaving of clients and worker: accepted requests are
  executed in order and each once, the last one possibly still waiting or running; the unit is RUNNING
  exactly then; every operation that ends is notified once, with its own outcome, before the next one
  starts; a unit that has stopped has left no accepted request undone. When clients wait for a result
  before the next request, the notifications name the executed requests. Without that they need not: the
  worker reads the request id after it has released the mutex, and some trace of every unit reports
  request 8 as completed when only request 7 has been executed.\<close>

theorem unit_executes_each_request_once:
  assumes "unit_mock_create available n = (Some u0, held)" and "unit_trace (u0, Waiting) ls (u, pc)"
  shows "accepted ls = taken ls @ (if um_has_input u then [ui_request_id (um_input u)] else [])
    \<and> (uo_status (um_output u) = UNIT_MOCK_STATUS_RUNNING \<longleftrightarrow> um_has_input u \<or> pc = Operating)
    \<and> length (taken ls) = length (finished ls) + (if pc = Operating then 1 else 0)
    \<and> finished ls = map snd (notified ls) @
        (case pc of Notifying b \<Rightarrow> [if b then UNIT_MOCK_ERROR_NONE else UNIT_MOCK_ERROR_EXECUTION] | _ \<Rightarrow> [])
    \<and> (pc = Ended \<longrightarrow> accepted ls = taken ls \<and> length (taken ls) = length (notified ls))
    \<and> (clients_wait ls \<longrightarrow> map fst (notified ls) = take (length (notified ls)) (accepted ls))
    \<and> (\<exists>ls' u' pc'. unit_trace (u0, Waiting) ls' (u', pc') \<and> taken ls' = [7] \<and> notified ls' = [(8, UNIT_MOCK_ERROR_NONE)])"
proof -
  obtain k where u0: "u0 = zero_unit\<lparr>um_operation := k, um_unit_number := n\<rparr>"
    using assms(1) by (auto simp: unit_mock_create_def Let_def zero_unit_def split: option.splits if_splits)
  then have "unit_inv [] u0 Waiting" by (simp only: unit_inv_start)
  moreover obtain ls' u' where "unit_run overtaking (u0, Waiting) = Some (ls', u', Waiting)" "taken ls' = [7]"
      "notified ls' = [(8, UNIT_MOCK_ERROR_NONE)]"
    using overtaking_runs [where k = k and n = n] u0 by blast
  moreover note unit_run_from_start [OF this(1)]
  ultimately have inv: "unit_inv ls u pc" and
      "\<exists>ls' u' pc'. unit_trace (u0, Waiting) ls' (u', pc') \<and> taken ls' = [7] \<and> notified ls' = [(8, UNIT_MOCK_ERROR_NONE)]"
    using unit_trace_inv [OF assms(2)] by auto
  have "take (length (notified ls)) (accepted ls) = take (length (notified ls)) (taken ls)"
  proof -
    have "length (notified ls) \<le> length (taken ls)" using inv by (cases pc) (auto simp: unit_inv_def)
    then show ?thesis using inv by (auto simp: unit_inv_def)
  qed
  with \<open>\<exists>ls' u' pc'. _\<close> show ?thesis using inv by (auto simp: unit_inv_def)
qed

definition unit_three :: unit_mock where
  "unit_three = zero_unit\<lparr>um_operation := 2, um_unit_number := 3\<rparr>"

definition one_request :: "unit_action list" where
  "one_request = take 4 overtaking @ [Worker_Notify, Request_Stop, Worker_End]"

theorem unit_executes_each_request_once_witness:
  "\<exists>ls u. unit_run one_request (unit_three, Waiting) = Some (ls, u, Ended) \<and> accepted ls = taken ls \<and>
     length (taken ls) = length (notified ls) \<and> notified ls = [(7, UNIT_MOCK_ERROR_NONE)]"
proof -
  have create: "unit_mock_create (\<lambda>r. True) 3 = (Some unit_three, [R_Thread, R_Operation_Finished, R_Input_Ready, R_Mutex, R_Memory])"
    by (simp add: unit_mock_create_def unit_mock_find_operation_def unit_three_def zero_unit_def Let_def)
  obtain ls u where run: "unit_run one_request (unit_three, Waiting) = Some (ls, u, Ended)"
      "notified ls = [(7, UNIT_MOCK_ERROR_NONE)]"
    by (simp add: one_request_def overtaking_def unit_three_def zero_unit_def unit_mock_set_result_output_def
        unit_mock_write_input_def worker_take_def worker_finish_def unit_mock_notify_result_def notified_def unit_mock_destroy_def)
  with unit_executes_each_request_once [OF create unit_run_from_start [OF run(1)]] show ?thesis by (auto split: if_splits)
qed

end
