(* ===== verification/Thread_Pool.thy ===== *)
theory Thread_Pool
  imports Bounded_Fifo
begin

text \<open>
  The thread pool (\<open>utility_thread_pool.c\<close>): a ring of jobs, worker threads that take from it, and two
  ways to shut down. What the code does under the pool's mutex is one atomic step; each worker has an
  explicit position, so every interleaving of submitters, workers and the managing thread is a sequence
  of steps. A worker that waits on the condition is asleep until a signal, a broadcast or a spurious wakeup.
\<close>

section \<open>Threads, mutexes and conditions\<close>

text \<open>
  The outcome of every pthread call that can fail, in the order of the calls, and what the pool holds: its
  mutex, its condition and the threads not yet joined. A thread's name is the number of the call that made
  it. \<open>pt_misused\<close> is set by what POSIX leaves undefined: initialising twice, destroying what is not
  there, joining a thread twice. While initialisation is still running the threads it has made run too;
  \<open>pt_waits\<close> says which of them get as far as waiting for the condition, and \<open>pt_asleep\<close> holds those.
\<close>

record pthreads =
  pt_outcome :: "nat \<Rightarrow> bool"
  pt_calls :: nat
  pt_mutex :: bool
  pt_condition :: bool
  pt_threads :: "nat list"
  pt_misused :: bool
  pt_waits :: "nat \<Rightarrow> bool"
  pt_asleep :: "nat list"

definition pthread_call :: "pthreads \<Rightarrow> bool \<times> pthreads" where
  "pthread_call e = (pt_outcome e (pt_calls e), e\<lparr>pt_calls := pt_calls e + 1\<rparr>)"

definition mutex_init :: "pthreads \<Rightarrow> bool \<times> pthreads" where
  "mutex_init e = (let (ok, e) = pthread_call e in
     if ok then (True, e\<lparr>pt_mutex := True, pt_misused := pt_misused e \<or> pt_mutex e\<rparr>) else (False, e))"

definition condition_init :: "pthreads \<Rightarrow> bool \<times> pthreads" where
  "condition_init e = (let (ok, e) = pthread_call e in
     if ok then (True, e\<lparr>pt_condition := True, pt_misused := pt_misused e \<or> pt_condition e, pt_asleep := []\<rparr>) else (False, e))"

definition condition_broadcast :: "pthreads \<Rightarrow> pthreads" where
  "condition_broadcast e = e\<lparr>pt_asleep := []\<rparr>"

definition mutex_destroy :: "pthreads \<Rightarrow> bool \<times> pthreads" where
  "mutex_destroy e = (let (ok, e) = pthread_call e; e = e\<lparr>pt_misused := pt_misused e \<or> \<not> pt_mutex e\<rparr> in
     if ok then (True, e\<lparr>pt_mutex := False\<rparr>) else (False, e))"

definition condition_destroy :: "pthreads \<Rightarrow> bool \<times> pthreads" where
  "condition_destroy e = (let (ok, e) = pthread_call e; e = e\<lparr>pt_misused := pt_misused e \<or> \<not> pt_condition e\<rparr> in
     if ok then (True, e\<lparr>pt_condition := False\<rparr>) else (False, e))"

definition thread_create :: "pthreads \<Rightarrow> nat option \<times> pthreads" where
  "thread_create e = (let thread = pt_calls e; (ok, e) = pthread_call e in
     if ok then (Some thread, e\<lparr>pt_threads := pt_threads e @ [thread],
       pt_asleep := pt_asleep e @ (if pt_waits e thread then [thread] else [])\<rparr>) else (None, e))"

definition thread_join :: "nat \<Rightarrow> pthreads \<Rightarrow> bool \<times> pthreads" where
  "thread_join thread e = (let (ok, e) = pthread_call e; e = e\<lparr>pt_misused := pt_misused e \<or> thread \<notin> set (pt_threads e)\<rparr> in
     if ok then (True, e\<lparr>pt_threads := remove1 thread (pt_threads e)\<rparr>) else (False, e))"

section \<open>The pool\<close>

datatype ut_thread_pool_result =
    UT_THREAD_POOL_OK
  | UT_THREAD_POOL_INVALID_ARGUMENT
  | UT_THREAD_POOL_QUEUE_FULL
  | UT_THREAD_POOL_STATE_ERROR
  | UT_THREAD_POOL_SYSTEM_ERROR

datatype ut_thread_pool_state =
    UT_THREAD_POOL_UNINITIALIZED
  | UT_THREAD_POOL_RUNNING
  | UT_THREAD_POOL_DRAINING
  | UT_THREAD_POOL_STOPPING
  | UT_THREAD_POOL_JOINED

record ut_thread_pool_job =
  tj_callback :: ptr
  tj_context :: ptr

record ut_thread_pool =
  tp_workers :: "nat list"
  tp_worker_count :: nat
  tp_created_workers :: nat
  tp_joined_workers :: nat
  tp_queue :: "ut_thread_pool_job list"
  tp_queue_capacity :: nat
  tp_queue_head :: nat
  tp_queue_tail :: nat
  tp_queue_count :: nat
  tp_state :: ut_thread_pool_state
  tp_mutex_initialized :: bool
  tp_condition_initialized :: bool

definition zero_pool :: ut_thread_pool where
  "zero_pool = \<lparr>tp_workers = [], tp_worker_count = 0, tp_created_workers = 0, tp_joined_workers = 0, tp_queue = [],
     tp_queue_capacity = 0, tp_queue_head = 0, tp_queue_tail = 0, tp_queue_count = 0,
     tp_state = UT_THREAD_POOL_UNINITIALIZED, tp_mutex_initialized = False, tp_condition_initialized = False\<rparr>"

text \<open>The part of a worker's loop under the mutex that takes the oldest job.\<close>

definition take_job :: "ut_thread_pool \<Rightarrow> ut_thread_pool_job \<times> ut_thread_pool" where
  "take_job p = (tp_queue p ! tp_queue_head p,
     p\<lparr>tp_queue_head := size_add (tp_queue_head p) 1 mod tp_queue_capacity p,
       tp_queue_count := size_sub (tp_queue_count p) 1\<rparr>)"

text \<open>
  One turn of \<open>worker_main\<close> under the mutex: the worker goes to sleep, leaves its loop, or takes a job
  that it then runs without the mutex.
\<close>

datatype worker_position = Awake | Asleep | Working ut_thread_pool_job | Ended

definition worker_main :: "ut_thread_pool \<Rightarrow> worker_position \<times> ut_thread_pool" where
  "worker_main p =
     (if tp_queue_count p = 0 \<and> tp_state p = UT_THREAD_POOL_RUNNING then (Asleep, p)
      else if tp_state p = UT_THREAD_POOL_STOPPING \<or> tp_state p = UT_THREAD_POOL_DRAINING \<and> tp_queue_count p = 0
      then (Ended, p)
      else let (job, p) = take_job p in (Working job, p))"

text \<open>Joining from the first worker that is not joined yet; the number is the rounds that are left.\<close>

fun join_loop :: "nat \<Rightarrow> ut_thread_pool \<Rightarrow> pthreads \<Rightarrow> bool \<times> ut_thread_pool \<times> pthreads" where
  "join_loop 0 p e = (True, p, e)"
| "join_loop (Suc n) p e =
     (let (ok, e) = thread_join (tp_workers p ! tp_joined_workers p) e in
      if ok then join_loop n (p\<lparr>tp_joined_workers := size_add (tp_joined_workers p) 1\<rparr>) e else (False, p, e))"

definition ut_thread_pool_join ::
    "ut_thread_pool option \<Rightarrow> pthreads \<Rightarrow> ut_thread_pool_result \<times> ut_thread_pool option \<times> pthreads" where
  "ut_thread_pool_join pool e =
     (if pool = None \<or> \<not> tp_mutex_initialized (the pool) \<or> \<not> tp_condition_initialized (the pool)
      then (UT_THREAD_POOL_INVALID_ARGUMENT, pool, e)
      else let p = the pool in
        if tp_state p \<noteq> UT_THREAD_POOL_DRAINING \<and> tp_state p \<noteq> UT_THREAD_POOL_STOPPING
        then (UT_THREAD_POOL_STATE_ERROR, pool, e)
        else
          let (ok, p, e) = join_loop (tp_created_workers p - tp_joined_workers p) p e in
          if \<not> ok then (UT_THREAD_POOL_SYSTEM_ERROR, Some p, e)
          else (UT_THREAD_POOL_OK, Some (p\<lparr>tp_state := UT_THREAD_POOL_JOINED\<rparr>), e))"

definition ut_thread_pool_destroy ::
    "ut_thread_pool option \<Rightarrow> pthreads \<Rightarrow> ut_thread_pool_result \<times> ut_thread_pool option \<times> pthreads" where
  "ut_thread_pool_destroy pool e =
     (if pool = None \<or> \<not> tp_mutex_initialized (the pool) \<and> \<not> tp_condition_initialized (the pool)
      then (UT_THREAD_POOL_INVALID_ARGUMENT, pool, e)
      else let p = the pool in
        if tp_state p \<noteq> UT_THREAD_POOL_JOINED then (UT_THREAD_POOL_STATE_ERROR, pool, e)
        else
          let (ok, e) = (if tp_condition_initialized p then condition_destroy e else (True, e)) in
          if \<not> ok then (UT_THREAD_POOL_SYSTEM_ERROR, Some p, e)
          else
            let p = p\<lparr>tp_condition_initialized := False\<rparr>;
                (ok, e) = (if tp_mutex_initialized p then mutex_destroy e else (True, e)) in
            if \<not> ok then (UT_THREAD_POOL_SYSTEM_ERROR, Some p, e)
            else (UT_THREAD_POOL_OK, Some zero_pool, e))"

definition cleanup_failed_init :: "ut_thread_pool \<Rightarrow> pthreads \<Rightarrow> ut_thread_pool \<times> pthreads" where
  "cleanup_failed_init p e =
     (let p = p\<lparr>tp_state := UT_THREAD_POOL_STOPPING\<rparr>;
          e = condition_broadcast e;
          (r, q, e) = ut_thread_pool_join (Some p) e in
      if r = UT_THREAD_POOL_OK then let (r, q, e) = ut_thread_pool_destroy q e in (the q, e) else (the q, e))"

text \<open>The loop that creates the workers with the given indices.\<close>

fun create_workers :: "nat list \<Rightarrow> ut_thread_pool \<Rightarrow> pthreads \<Rightarrow> ut_thread_pool_result \<times> ut_thread_pool \<times> pthreads" where
  "create_workers [] p e = (UT_THREAD_POOL_OK, p, e)"
| "create_workers (index # rest) p e =
     (let (thread, e) = thread_create e in
      case thread of
        None \<Rightarrow> (UT_THREAD_POOL_SYSTEM_ERROR, cleanup_failed_init p e)
      | Some t \<Rightarrow> create_workers rest (p\<lparr>tp_workers := (tp_workers p)[index := t],
                    tp_created_workers := size_add (tp_created_workers p) 1\<rparr>) e)"

definition ut_thread_pool_init ::
    "ut_thread_pool option \<Rightarrow> nat list \<Rightarrow> nat \<Rightarrow> ut_thread_pool_job list \<Rightarrow> nat \<Rightarrow> pthreads \<Rightarrow>
     ut_thread_pool_result \<times> ut_thread_pool option \<times> pthreads" where
  "ut_thread_pool_init pool worker_storage worker_count queue_storage queue_capacity e =
     (if pool = None \<or> worker_storage = [] \<or> worker_count = 0 \<or> queue_storage = [] \<or> queue_capacity = 0
      then (UT_THREAD_POOL_INVALID_ARGUMENT, pool, e)
      else
        let p = zero_pool\<lparr>tp_workers := worker_storage, tp_worker_count := worker_count, tp_queue := queue_storage,
                  tp_queue_capacity := queue_capacity\<rparr>;
            (ok, e) = mutex_init e in
        if \<not> ok then (UT_THREAD_POOL_SYSTEM_ERROR, Some p, e)
        else
          let p = p\<lparr>tp_mutex_initialized := True\<rparr>; (ok, e) = condition_init e in
          if \<not> ok then
            let (r, q, e) = ut_thread_pool_destroy (Some (p\<lparr>tp_state := UT_THREAD_POOL_JOINED\<rparr>)) e
            in (UT_THREAD_POOL_SYSTEM_ERROR, q, e)
          else
            let p = p\<lparr>tp_condition_initialized := True, tp_state := UT_THREAD_POOL_RUNNING\<rparr>;
                (r, p, e) = create_workers [0..<worker_count] p e in
            (r, Some p, e))"

text \<open>\<open>locked\<close> is whether \<open>pthread_mutex_lock\<close> succeeds.\<close>

definition ut_thread_pool_submit ::
    "bool \<Rightarrow> ptr \<Rightarrow> ptr \<Rightarrow> ut_thread_pool option \<Rightarrow> ut_thread_pool_result \<times> ut_thread_pool option" where
  "ut_thread_pool_submit locked callback context pool =
     (if pool = None \<or> callback = 0 \<or> \<not> tp_mutex_initialized (the pool) \<or> \<not> tp_condition_initialized (the pool)
      then (UT_THREAD_POOL_INVALID_ARGUMENT, pool)
      else let p = the pool in
        if \<not> locked then (UT_THREAD_POOL_SYSTEM_ERROR, pool)
        else if tp_state p \<noteq> UT_THREAD_POOL_RUNNING then (UT_THREAD_POOL_STATE_ERROR, pool)
        else if tp_queue_count p = tp_queue_capacity p then (UT_THREAD_POOL_QUEUE_FULL, pool)
        else (UT_THREAD_POOL_OK, Some (p\<lparr>
               tp_queue := (tp_queue p)[tp_queue_tail p := \<lparr>tj_callback = callback, tj_context = context\<rparr>],
               tp_queue_tail := size_add (tp_queue_tail p) 1 mod tp_queue_capacity p,
               tp_queue_count := size_add (tp_queue_count p) 1\<rparr>)))"

definition shutdown_pool ::
    "bool \<Rightarrow> ut_thread_pool_state \<Rightarrow> ut_thread_pool option \<Rightarrow> ut_thread_pool_result \<times> ut_thread_pool option" where
  "shutdown_pool locked state pool =
     (if pool = None \<or> \<not> tp_mutex_initialized (the pool) \<or> \<not> tp_condition_initialized (the pool)
      then (UT_THREAD_POOL_INVALID_ARGUMENT, pool)
      else let p = the pool in
        if \<not> locked then (UT_THREAD_POOL_SYSTEM_ERROR, pool)
        else if tp_state p \<noteq> UT_THREAD_POOL_RUNNING then (UT_THREAD_POOL_STATE_ERROR, pool)
        else
          let p = p\<lparr>tp_state := state\<rparr>;
              p = (if state = UT_THREAD_POOL_STOPPING
                   then p\<lparr>tp_queue_head := 0, tp_queue_tail := 0, tp_queue_count := 0\<rparr> else p)
          in (UT_THREAD_POOL_OK, Some p))"

definition ut_thread_pool_shutdown_drain ::
    "bool \<Rightarrow> ut_thread_pool option \<Rightarrow> ut_thread_pool_result \<times> ut_thread_pool option" where
  "ut_thread_pool_shutdown_drain locked = shutdown_pool locked UT_THREAD_POOL_DRAINING"

definition ut_thread_pool_shutdown_immediate ::
    "bool \<Rightarrow> ut_thread_pool option \<Rightarrow> ut_thread_pool_result \<times> ut_thread_pool option" where
  "ut_thread_pool_shutdown_immediate locked = shutdown_pool locked UT_THREAD_POOL_STOPPING"

text \<open>The replaceable table of pthread functions: each is an address, and a table with a NULL is refused.\<close>

record ut_thread_pool_pthread_ops =
  po_create :: ptr
  po_join :: ptr
  po_mutex_init :: ptr
  po_mutex_destroy :: ptr
  po_condition_init :: ptr
  po_condition_destroy :: ptr

definition ut_thread_pool_internal_set_pthread_ops ::
    "ut_thread_pool_pthread_ops option \<Rightarrow> ut_thread_pool_pthread_ops \<Rightarrow> ut_thread_pool_pthread_ops" where
  "ut_thread_pool_internal_set_pthread_ops operations current =
     (if operations \<noteq> None \<and> po_create (the operations) \<noteq> 0 \<and> po_join (the operations) \<noteq> 0 \<and>
         po_mutex_init (the operations) \<noteq> 0 \<and> po_mutex_destroy (the operations) \<noteq> 0 \<and>
         po_condition_init (the operations) \<noteq> 0 \<and> po_condition_destroy (the operations) \<noteq> 0
      then the operations else current)"

section \<open>Interleavings\<close>

text \<open>
  The actions of submitters, of the managing thread and of worker \<open>k\<close>. A submit that is accepted signals:
  it wakes one sleeping worker, if there is one, and the action says which. \<open>Join\<close> returns when the
  workers it has joined have ended. An action that is not possible is \<open>None\<close>.
\<close>

datatype pool_action =
    Submit bool ptr ptr "nat option"
  | Shutdown_Drain bool
  | Shutdown_Immediate bool
  | Join
  | Destroy
  | Wake_Up nat
  | Turn nat
  | Return nat

datatype pool_label =
    Submitted ut_thread_pool_job
  | Replied ut_thread_pool_result
  | Draining
  | Discarded "ut_thread_pool_job list"
  | Started nat ut_thread_pool_job
  | Finished nat ut_thread_pool_job
  | Waited nat
  | Woken nat
  | Left nat

type_synonym pool_system = "ut_thread_pool \<times> worker_position list \<times> pthreads"

definition signalled :: "nat option \<Rightarrow> worker_position list \<Rightarrow> bool" where
  "signalled woken ws \<longleftrightarrow> (case woken of None \<Rightarrow> Asleep \<notin> set ws | Some k \<Rightarrow> k < length ws \<and> ws ! k = Asleep)"

definition wake :: "nat option \<Rightarrow> worker_position list \<Rightarrow> worker_position list" where
  "wake woken ws = (case woken of None \<Rightarrow> ws | Some k \<Rightarrow> ws[k := Awake])"

definition wake_all :: "worker_position list \<Rightarrow> worker_position list" where
  "wake_all ws = map (\<lambda>w. if w = Asleep then Awake else w) ws"

text \<open>The jobs in the queue, oldest first.\<close>

definition pending :: "ut_thread_pool \<Rightarrow> ut_thread_pool_job list" where
  "pending p = ring_list (tp_queue p) (tp_queue_head p) (tp_queue_count p)"

fun pool_do :: "pool_action \<Rightarrow> pool_system \<Rightarrow> (pool_label \<times> pool_system) option" where
  "pool_do (Submit locked callback context woken) (p, ws, e) =
     (let (r, p') = ut_thread_pool_submit locked callback context (Some p) in
      if r = UT_THREAD_POOL_OK
      then if signalled woken ws
           then Some (Submitted \<lparr>tj_callback = callback, tj_context = context\<rparr>, the p', wake woken ws, e) else None
      else Some (Replied r, the p', ws, e))"
| "pool_do (Shutdown_Drain locked) (p, ws, e) =
     (let (r, p') = ut_thread_pool_shutdown_drain locked (Some p) in
      if r = UT_THREAD_POOL_OK then Some (Draining, the p', wake_all ws, e) else Some (Replied r, the p', ws, e))"
| "pool_do (Shutdown_Immediate locked) (p, ws, e) =
     (let (r, p') = ut_thread_pool_shutdown_immediate locked (Some p) in
      if r = UT_THREAD_POOL_OK then Some (Discarded (pending p), the p', wake_all ws, e)
      else Some (Replied r, the p', ws, e))"
| "pool_do Join (p, ws, e) =
     (let (r, p', e') = ut_thread_pool_join (Some p) e in
      if \<forall>k \<in> set [tp_joined_workers p..<tp_joined_workers (the p')]. ws ! k = Ended
      then Some (Replied r, the p', ws, e') else None)"
| "pool_do Destroy (p, ws, e) =
     (let (r, p', e') = ut_thread_pool_destroy (Some p) e in Some (Replied r, the p', ws, e'))"
| "pool_do (Wake_Up k) (p, ws, e) =
     (if k < length ws \<and> ws ! k = Asleep then Some (Woken k, p, ws[k := Awake], e) else None)"
| "pool_do (Turn k) (p, ws, e) =
     (if k < length ws \<and> ws ! k = Awake then
        let (w, p') = worker_main p in
        Some (case w of Working job \<Rightarrow> Started k job | Ended \<Rightarrow> Left k | _ \<Rightarrow> Waited k, p', ws[k := w], e)
      else None)"
| "pool_do (Return k) (p, ws, e) =
     (if k < length ws then
        case ws ! k of Working job \<Rightarrow> Some (Finished k job, p, ws[k := Awake], e) | _ \<Rightarrow> None
      else None)"

text \<open>
  Where the workers are when \<open>ut_thread_pool_init\<close> returns: the joined ones have ended, and of the others some
  may already wait.
\<close>

definition fresh_workers :: "ut_thread_pool \<Rightarrow> pthreads \<Rightarrow> worker_position list" where
  "fresh_workers p e = replicate (tp_joined_workers p) Ended @
     map (\<lambda>t. if t \<in> set (pt_asleep e) then Asleep else Awake)
       (drop (tp_joined_workers p) (take (tp_created_workers p) (tp_workers p)))"

inductive pool_trace :: "pool_system \<Rightarrow> pool_label list \<Rightarrow> pool_system \<Rightarrow> bool" where
  start: "pool_trace s [] s"
| step: "pool_trace s ls s1 \<Longrightarrow> pool_do a s1 = Some (l, s2) \<Longrightarrow> pool_trace s (ls @ [l]) s2"

section \<open>What the pool holds\<close>

text \<open>
  The pool's flags say what is initialised, its counters which threads are still to be joined; the names
  of these are in the worker array.
\<close>

definition threads_left :: "ut_thread_pool \<Rightarrow> nat list" where
  "threads_left p = drop (tp_joined_workers p) (take (tp_created_workers p) (tp_workers p))"

definition pool_holds :: "ut_thread_pool \<Rightarrow> pthreads \<Rightarrow> bool" where
  "pool_holds p e \<longleftrightarrow> \<not> pt_misused e \<and> pt_mutex e = tp_mutex_initialized p \<and> pt_condition e = tp_condition_initialized p \<and>
     tp_joined_workers p \<le> tp_created_workers p \<and> tp_created_workers p \<le> length (tp_workers p) \<and>
     length (tp_workers p) \<le> size_max \<and> pt_threads e = threads_left p \<and> distinct (threads_left p) \<and>
     (\<forall>t \<in> set (threads_left p). t < pt_calls e)"

definition active :: "ut_thread_pool \<Rightarrow> bool" where
  "active p \<longleftrightarrow> tp_state p \<in> {UT_THREAD_POOL_RUNNING, UT_THREAD_POOL_DRAINING, UT_THREAD_POOL_STOPPING}"

definition stage_ok :: "ut_thread_pool \<Rightarrow> bool" where
  "stage_ok p \<longleftrightarrow> (if active p then tp_mutex_initialized p \<and> tp_condition_initialized p
     else tp_joined_workers p = tp_created_workers p \<and>
       (tp_state p = UT_THREAD_POOL_UNINITIALIZED \<longrightarrow> \<not> tp_mutex_initialized p \<and> \<not> tp_condition_initialized p))"

lemmas pthread_ops = pthread_call_def mutex_init_def condition_init_def mutex_destroy_def condition_destroy_def
  thread_create_def thread_join_def Let_def

lemma threads_left_next:
  assumes "tp_joined_workers p < tp_created_workers p" "tp_created_workers p \<le> length (tp_workers p)"
  shows "threads_left p = tp_workers p ! tp_joined_workers p #
    threads_left (p\<lparr>tp_joined_workers := Suc (tp_joined_workers p)\<rparr>)"
  using assms by (simp add: threads_left_def Cons_nth_drop_Suc [symmetric])

lemma join_loop_holds:
  "join_loop n p e = (ok, p', e') \<Longrightarrow> pool_holds p e \<Longrightarrow> n = tp_created_workers p - tp_joined_workers p \<Longrightarrow>
    pool_holds p' e' \<and> (\<exists>j. p' = p\<lparr>tp_joined_workers := j\<rparr> \<and> tp_joined_workers p \<le> j \<and> j \<le> tp_created_workers p \<and>
      (ok \<longrightarrow> j = tp_created_workers p))"
proof (induction n arbitrary: p e)
  case 0
  then show ?case by (intro conjI exI [of _ "tp_joined_workers p"]) (simp_all add: pool_holds_def)
next
  case (Suc n)
  let ?t = "tp_workers p ! tp_joined_workers p"
  have next_left: "threads_left p = ?t # threads_left (p\<lparr>tp_joined_workers := Suc (tp_joined_workers p)\<rparr>)"
    using Suc.prems by (intro threads_left_next) (simp_all add: pool_holds_def)
  have "tp_joined_workers p < tp_created_workers p" "tp_created_workers p \<le> size_max"
    using Suc.prems by (auto simp: pool_holds_def)
  then have small: "size_add (tp_joined_workers p) 1 = Suc (tp_joined_workers p)" by simp
  obtain r e1 where j: "thread_join ?t e = (r, e1)" by fastforce
  show ?case
  proof (cases r)
    case True
    let ?p = "p\<lparr>tp_joined_workers := Suc (tp_joined_workers p)\<rparr>"
    have "pool_holds ?p e1"
      using j True Suc.prems(2,3) next_left by (auto simp: pool_holds_def pthread_ops split: if_splits)
    moreover have "join_loop n ?p e1 = (ok, p', e')" using Suc.prems(1) j True small by simp
    moreover have "n = tp_created_workers ?p - tp_joined_workers ?p" using Suc.prems(3) by simp
    ultimately obtain j where "pool_holds p' e'" "p' = ?p\<lparr>tp_joined_workers := j\<rparr>" "tp_joined_workers ?p \<le> j"
        "j \<le> tp_created_workers ?p" "ok \<longrightarrow> j = tp_created_workers ?p"
      using Suc.IH by blast
    then show ?thesis by (intro conjI exI [of _ j]) simp_all
  next
    case False
    have "pool_holds p e1" using j False Suc.prems(2) next_left by (auto simp: pool_holds_def pthread_ops split: if_splits)
    moreover have "\<not> ok" "p' = p" "e' = e1" using Suc.prems(1) j False by simp_all
    ultimately show ?thesis by (intro conjI exI [of _ "tp_joined_workers p"]) (simp_all add: pool_holds_def)
  qed
qed

lemma join_holds:
  assumes "ut_thread_pool_join (Some p) e = (r, q, e')" "pool_holds p e" "stage_ok p"
  obtains j where "q = Some (p\<lparr>tp_joined_workers := j, tp_state := if r = UT_THREAD_POOL_OK then UT_THREAD_POOL_JOINED else tp_state p\<rparr>)"
    and "tp_joined_workers p \<le> j" "j \<le> tp_created_workers p" "r = UT_THREAD_POOL_OK \<longrightarrow> j = tp_created_workers p"
    and "r = UT_THREAD_POOL_OK \<or> j \<noteq> tp_joined_workers p \<longrightarrow> tp_state p \<in> {UT_THREAD_POOL_DRAINING, UT_THREAD_POOL_STOPPING}"
    and "pool_holds (the q) e'" "stage_ok (the q)"
proof (cases "tp_mutex_initialized p \<and> tp_condition_initialized p \<and> tp_state p \<in> {UT_THREAD_POOL_DRAINING, UT_THREAD_POOL_STOPPING}")
  case False
  then have "q = Some p" "e' = e" "r \<noteq> UT_THREAD_POOL_OK"
    using assms(1) by (auto simp: ut_thread_pool_join_def Let_def split: if_splits)
  with assms(2,3) show ?thesis by (intro that [of "tp_joined_workers p"]) (simp_all add: pool_holds_def)
next
  case True
  obtain ok p' e1 where l: "join_loop (tp_created_workers p - tp_joined_workers p) p e = (ok, p', e1)"
    using prod_cases3 by blast
  from join_loop_holds [OF l assms(2) refl] obtain j where
    j: "pool_holds p' e1" "p' = p\<lparr>tp_joined_workers := j\<rparr>" "tp_joined_workers p \<le> j" "j \<le> tp_created_workers p"
      "ok \<longrightarrow> j = tp_created_workers p"
    by blast
  have r: "r = (if ok then UT_THREAD_POOL_OK else UT_THREAD_POOL_SYSTEM_ERROR)" "e' = e1"
      "q = Some (if ok then p'\<lparr>tp_state := UT_THREAD_POOL_JOINED\<rparr> else p')"
    using assms(1) True l by (auto simp: ut_thread_pool_join_def split: if_splits)
  have "pool_holds (the q) e'" using j(1) by (simp add: r pool_holds_def threads_left_def)
  moreover have "stage_ok (the q)" using True j by (auto simp: r stage_ok_def active_def)
  ultimately show ?thesis using j(2-5) True by (intro that [of j]) (simp_all add: r)
qed

lemma destroy_holds:
  assumes "ut_thread_pool_destroy (Some p) e = (r, q, e')" "pool_holds p e" "stage_ok p"
  shows "pool_holds (the q) e' \<and> stage_ok (the q) \<and>
    (q = Some p \<or> tp_state p = UT_THREAD_POOL_JOINED \<and>
      (q = Some zero_pool \<or> q = Some (p\<lparr>tp_condition_initialized := False\<rparr>)))"
proof (cases "tp_state p = UT_THREAD_POOL_JOINED \<and> (tp_mutex_initialized p \<or> tp_condition_initialized p)")
  case False
  with assms show ?thesis by (auto simp: ut_thread_pool_destroy_def Let_def split: if_splits)
next
  case True
  then have "tp_joined_workers p = tp_created_workers p" using assms(3) by (simp add: stage_ok_def active_def)
  then have none: "threads_left p = []" by (simp add: threads_left_def)
  with assms True show ?thesis
    by (auto simp: ut_thread_pool_destroy_def pool_holds_def stage_ok_def active_def pthread_ops zero_pool_def
        threads_left_def size_max_def split: if_splits)
qed

text \<open>What initialisation leaves behind when it fails: no job, and nothing that accepts or runs one.\<close>

definition idle_pool :: "ut_thread_pool \<Rightarrow> bool" where
  "idle_pool p \<longleftrightarrow> tp_queue_count p = 0 \<and> tp_state p \<notin> {UT_THREAD_POOL_RUNNING, UT_THREAD_POOL_DRAINING}"

text \<open>Joining and destroying put nobody to sleep.\<close>

lemma join_loop_asleep: "join_loop n p e = (ok, p', e') \<Longrightarrow> pt_asleep e' = pt_asleep e"
  by (induction n arbitrary: p e) (auto simp: pthread_ops split: prod.splits if_splits)

lemma join_asleep: "ut_thread_pool_join q e = (r, q', e') \<Longrightarrow> pt_asleep e' = pt_asleep e"
  by (auto simp: ut_thread_pool_join_def Let_def split: if_splits prod.splits dest: join_loop_asleep)

lemma destroy_asleep: "ut_thread_pool_destroy q e = (r, q', e') \<Longrightarrow> pt_asleep e' = pt_asleep e"
  by (auto simp: ut_thread_pool_destroy_def pthread_ops split: if_splits prod.splits)

lemma cleanup_holds:
  assumes c: "cleanup_failed_init p e = (p', e')" and p: "pool_holds p e" "stage_ok p" "tp_state p = UT_THREAD_POOL_RUNNING"
    and none: "tp_queue_count p = 0"
  shows "pool_holds p' e' \<and> stage_ok p' \<and> idle_pool p' \<and> pt_asleep e' = []"
proof -
  let ?p = "p\<lparr>tp_state := UT_THREAD_POOL_STOPPING\<rparr>"
  let ?e = "condition_broadcast e"
  have s: "pool_holds ?p ?e" "stage_ok ?p"
    using p by (simp_all add: pool_holds_def stage_ok_def active_def threads_left_def condition_broadcast_def)
  obtain r q e1 where j: "ut_thread_pool_join (Some ?p) ?e = (r, q, e1)" by (metis prod_cases3)
  from join_holds [OF j s] obtain i where
    q: "q = Some (?p\<lparr>tp_joined_workers := i, tp_state := if r = UT_THREAD_POOL_OK then UT_THREAD_POOL_JOINED else tp_state ?p\<rparr>)"
      "pool_holds (the q) e1" "stage_ok (the q)"
    by metis
  have awake: "pt_asleep e1 = []" using join_asleep [OF j] by (simp add: condition_broadcast_def)
  show ?thesis
  proof (cases "r = UT_THREAD_POOL_OK")
    case False
    with c j q none awake show ?thesis by (auto simp: cleanup_failed_init_def idle_pool_def Let_def)
  next
    case True
    obtain r2 q2 e2 where d: "ut_thread_pool_destroy q e1 = (r2, q2, e2)" by (metis prod_cases3)
    have some: "q = Some (the q)" using q(1) by simp
    from destroy_holds [OF _ q(2,3)] d some have
      "pool_holds (the q2) e2 \<and> stage_ok (the q2) \<and> (q2 = Some (the q) \<or>
        (q2 = Some zero_pool \<or> q2 = Some ((the q)\<lparr>tp_condition_initialized := False\<rparr>)))"
      by metis
    moreover have "pt_asleep e2 = []" using destroy_asleep [OF d] awake by simp
    ultimately show ?thesis using c j d True q(1) none
      by (auto simp: cleanup_failed_init_def idle_pool_def zero_pool_def Let_def)
  qed
qed

lemma create_workers_holds:
  "create_workers [i..<n] p e = (r, p', e') \<Longrightarrow> pool_holds p e \<Longrightarrow> stage_ok p \<Longrightarrow>
    tp_state p = UT_THREAD_POOL_RUNNING \<Longrightarrow> tp_queue_count p = 0 \<Longrightarrow> tp_created_workers p = i \<Longrightarrow>
    tp_joined_workers p = 0 \<Longrightarrow> i \<le> n \<Longrightarrow> length (tp_workers p) = n \<Longrightarrow>
    pool_holds p' e' \<and> stage_ok p' \<and> (if r = UT_THREAD_POOL_OK
      then \<exists>ids. p' = p\<lparr>tp_workers := ids, tp_created_workers := n\<rparr> \<and> length ids = n else idle_pool p' \<and> pt_asleep e' = [])"
proof (induction "n - i" arbitrary: i p e)
  case 0
  then have "r = UT_THREAD_POOL_OK" "p' = p" "e' = e" by simp_all
  with 0 show ?case by (simp add: exI [of _ "tp_workers p"])
next
  case (Suc m)
  then have i: "[i..<n] = i # [Suc i..<n]" "i < n" by (simp_all add: upt_conv_Cons)
  obtain t e1 where t: "thread_create e = (t, e1)" by fastforce
  show ?case
  proof (cases t)
    case None
    have "pool_holds p e1" using Suc.prems(2) t None by (auto simp: pool_holds_def pthread_ops split: if_splits)
    moreover have c: "cleanup_failed_init p e1 = (p', e')" "r = UT_THREAD_POOL_SYSTEM_ERROR"
      using Suc.prems(1) t None by (simp_all add: i(1))
    ultimately show ?thesis using cleanup_holds [OF c(1)] Suc.prems(3-5) by simp
  next
    case (Some k)
    let ?p = "p\<lparr>tp_workers := (tp_workers p)[i := k], tp_created_workers := Suc i\<rparr>"
    have k: "k = pt_calls e" "pt_threads e1 = pt_threads e @ [k]" "pt_calls e1 = Suc k" "pt_misused e1 = pt_misused e"
      "pt_mutex e1 = pt_mutex e" "pt_condition e1 = pt_condition e"
      using t Some by (auto simp: pthread_ops split: if_splits)
    have "take (Suc i) ((tp_workers p)[i := k]) = take i (tp_workers p) @ [k]"
      using i(2) Suc.prems(9) by (simp add: take_Suc_conv_app_nth)
    then have left: "threads_left ?p = threads_left p @ [k]"
      using Suc.prems(6,7) by (simp add: threads_left_def)
    have "pool_holds ?p e1"
      using Suc.prems(2,6,7,9) i(2) left k by (auto simp: pool_holds_def less_Suc_eq)
    moreover have "stage_ok ?p" using Suc.prems(3,4) by (simp add: stage_ok_def active_def)
    moreover have "size_add (tp_created_workers p) 1 = Suc i"
      using Suc.prems(2,6,9) i(2) by (intro trans [OF size_add_exact]) (simp_all add: pool_holds_def)
    then have "create_workers [Suc i..<n] ?p e1 = (r, p', e')"
      using Suc.prems(1) t Some by (simp add: i(1) Suc.prems(6))
    ultimately show ?thesis
      using Suc.hyps(1) [of "Suc i" ?p e1] Suc.hyps(2) Suc.prems i(2) by auto
  qed
qed

text \<open>A pool as it comes out of \<open>ut_thread_pool_init\<close>.\<close>

definition pool_storage :: "nat list \<Rightarrow> nat \<Rightarrow> ut_thread_pool_job list \<Rightarrow> nat \<Rightarrow> bool" where
  "pool_storage workers worker_count queue queue_capacity \<longleftrightarrow> workers \<noteq> [] \<and> queue \<noteq> [] \<and> length workers = worker_count \<and> worker_count \<le> size_max \<and>
     length queue = queue_capacity \<and> queue_capacity \<le> size_max"

definition no_pthreads :: "pthreads \<Rightarrow> bool" where
  "no_pthreads e \<longleftrightarrow> \<not> pt_misused e \<and> \<not> pt_mutex e \<and> \<not> pt_condition e \<and> pt_threads e = []"

definition job_ring :: "ut_thread_pool \<Rightarrow> bool" where
  "job_ring p \<longleftrightarrow> 0 < tp_queue_capacity p \<and> tp_queue_capacity p \<le> size_max \<and> length (tp_queue p) = tp_queue_capacity p \<and>
     tp_queue_head p < tp_queue_capacity p \<and> tp_queue_count p \<le> tp_queue_capacity p \<and>
     tp_queue_tail p = (tp_queue_head p + tp_queue_count p) mod tp_queue_capacity p"

lemma init_holds:
  assumes init: "ut_thread_pool_init (Some junk) workers n queue capacity e = (r, Some p, e')"
    and storage: "pool_storage workers n queue capacity" and e: "no_pthreads e"
  shows "pool_holds p e' \<and> stage_ok p \<and> (if r = UT_THREAD_POOL_OK
    then tp_state p = UT_THREAD_POOL_RUNNING \<and> tp_queue_count p = 0 \<and> tp_joined_workers p = 0 \<and>
      tp_created_workers p = n \<and> 0 < n \<and> tp_queue_capacity p = capacity \<and> job_ring p
    else idle_pool p \<and> (tp_created_workers p = 0 \<or> pt_asleep e' = []))"
proof -
  let ?p = "zero_pool\<lparr>tp_workers := workers, tp_worker_count := n, tp_queue := queue, tp_queue_capacity := capacity\<rparr>"
  have pos: "0 < n" "0 < capacity" "n \<le> size_max" "length workers = n"
    using storage by (auto simp: pool_storage_def)
  have some: "\<not> (Some junk = None \<or> workers = [] \<or> n = 0 \<or> queue = [] \<or> capacity = 0)" using pos storage by (simp add: pool_storage_def)
  obtain ok1 e1 where m: "mutex_init e = (ok1, e1)" by fastforce
  show ?thesis
  proof (cases ok1)
    case False
    then have "p = ?p" "e' = e1" "r = UT_THREAD_POOL_SYSTEM_ERROR"
      using init m some by (auto simp: ut_thread_pool_init_def)
    with m False e show ?thesis
      by (auto simp: no_pthreads_def pool_holds_def stage_ok_def active_def idle_pool_def threads_left_def zero_pool_def
          pos pthread_ops split: if_splits)
  next
    case True
    let ?p1 = "?p\<lparr>tp_mutex_initialized := True\<rparr>"
    obtain ok2 e2 where c: "condition_init e1 = (ok2, e2)" by fastforce
    have e2: "\<not> pt_misused e2" "pt_mutex e2" "pt_condition e2 = ok2" "pt_threads e2 = []"
      using m c True e by (auto simp: no_pthreads_def pthread_ops split: if_splits)
    show ?thesis
    proof (cases ok2)
      case False
      let ?j = "?p1\<lparr>tp_state := UT_THREAD_POOL_JOINED\<rparr>"
      have "pool_holds ?j e2" "stage_ok ?j"
        using e2 False pos by (simp_all add: pool_holds_def stage_ok_def active_def threads_left_def zero_pool_def)
      moreover obtain r2 where d: "ut_thread_pool_destroy (Some ?j) e2 = (r2, Some p, e')" "r = UT_THREAD_POOL_SYSTEM_ERROR"
        using init m c True False some by (auto simp: ut_thread_pool_init_def split: prod.splits)
      ultimately show ?thesis using destroy_holds [OF d(1)] d(2) by (auto simp: idle_pool_def zero_pool_def)
    next
      case True
      let ?p2 = "?p1\<lparr>tp_condition_initialized := True, tp_state := UT_THREAD_POOL_RUNNING\<rparr>"
      have "pool_holds ?p2 e2" "stage_ok ?p2"
        using e2 True pos by (simp_all add: pool_holds_def stage_ok_def active_def threads_left_def zero_pool_def)
      moreover have w: "create_workers [0..<n] ?p2 e2 = (r, p, e')"
        using init m c True \<open>ok1\<close> some by (auto simp: ut_thread_pool_init_def split: prod.splits)
      ultimately show ?thesis
        using create_workers_holds [OF w] pos storage
        by (auto simp: zero_pool_def job_ring_def pool_storage_def split: if_splits)
    qed
  qed
qed

section \<open>The jobs\<close>

definition jobs_submitted :: "pool_label list \<Rightarrow> ut_thread_pool_job list" where
  "jobs_submitted ls = concat (map (\<lambda>l. case l of Submitted j \<Rightarrow> [j] | _ \<Rightarrow> []) ls)"

definition jobs_discarded :: "pool_label list \<Rightarrow> ut_thread_pool_job list" where
  "jobs_discarded ls = concat (map (\<lambda>l. case l of Discarded js \<Rightarrow> js | _ \<Rightarrow> []) ls)"

definition jobs_started :: "pool_label list \<Rightarrow> ut_thread_pool_job list" where
  "jobs_started ls = concat (map (\<lambda>l. case l of Started k j \<Rightarrow> [j] | _ \<Rightarrow> []) ls)"

definition started_by :: "nat \<Rightarrow> pool_label list \<Rightarrow> ut_thread_pool_job list" where
  "started_by k ls = concat (map (\<lambda>l. case l of Started i j \<Rightarrow> if i = k then [j] else [] | _ \<Rightarrow> []) ls)"

definition finished_by :: "nat \<Rightarrow> pool_label list \<Rightarrow> ut_thread_pool_job list" where
  "finished_by k ls = concat (map (\<lambda>l. case l of Finished i j \<Rightarrow> if i = k then [j] else [] | _ \<Rightarrow> []) ls)"

lemmas job_views = jobs_submitted_def jobs_discarded_def jobs_started_def started_by_def finished_by_def

lemma job_views_append [simp]:
  "jobs_submitted (ls @ ls') = jobs_submitted ls @ jobs_submitted ls'"
  "jobs_discarded (ls @ ls') = jobs_discarded ls @ jobs_discarded ls'"
  "jobs_started (ls @ ls') = jobs_started ls @ jobs_started ls'"
  "started_by k (ls @ ls') = started_by k ls @ started_by k ls'"
  "finished_by k (ls @ ls') = finished_by k ls @ finished_by k ls'"
  by (simp_all add: job_views)

lemma job_views_single [simp]:
  "jobs_submitted [l] = (case l of Submitted j \<Rightarrow> [j] | _ \<Rightarrow> [])"
  "jobs_discarded [l] = (case l of Discarded js \<Rightarrow> js | _ \<Rightarrow> [])"
  "jobs_started [l] = (case l of Started k j \<Rightarrow> [j] | _ \<Rightarrow> [])"
  "started_by k [l] = (case l of Started i j \<Rightarrow> if i = k then [j] else [] | _ \<Rightarrow> [])"
  "finished_by k [l] = (case l of Finished i j \<Rightarrow> if i = k then [j] else [] | _ \<Rightarrow> [])"
  by (simp_all add: job_views)

lemma length_pending [simp]: "length (pending p) = tp_queue_count p"
  by (simp add: pending_def)

lemma pending_Nil: "pending p = [] \<longleftrightarrow> tp_queue_count p = 0"
  by (metis length_0_conv length_pending)

abbreviation awake_workers :: "worker_position list \<Rightarrow> nat" where
  "awake_workers \<equiv> count_slots (\<lambda>w. w = Awake)"

definition held_job :: "worker_position \<Rightarrow> ut_thread_pool_job list" where
  "held_job w = (case w of Working j \<Rightarrow> [j] | _ \<Rightarrow> [])"

lemma held_job_simps [simp]:
  "held_job Awake = []" "held_job Asleep = []" "held_job Ended = []" "held_job (Working j) = [j]"
  by (simp_all add: held_job_def)

text \<open>
  Where the workers can be in each state of the pool. While it runs, no sleeping worker is missed: either
  none sleeps or as many are awake as jobs wait.
\<close>

definition workers_ok :: "ut_thread_pool \<Rightarrow> worker_position list \<Rightarrow> bool" where
  "workers_ok p ws \<longleftrightarrow>
     (case tp_state p of
        UT_THREAD_POOL_RUNNING \<Rightarrow> Ended \<notin> set ws \<and> (Asleep \<in> set ws \<longrightarrow> tp_queue_count p \<le> awake_workers ws)
      | UT_THREAD_POOL_DRAINING \<Rightarrow> Asleep \<notin> set ws \<and> (Ended \<in> set ws \<longrightarrow> tp_queue_count p = 0)
      | UT_THREAD_POOL_STOPPING \<Rightarrow> Asleep \<notin> set ws \<and> tp_queue_count p = 0
      | _ \<Rightarrow> set ws \<subseteq> {Ended} \<and> tp_queue_count p = 0)"

definition jobs_ok :: "pool_label list \<Rightarrow> ut_thread_pool \<Rightarrow> worker_position list \<Rightarrow> bool" where
  "jobs_ok ls p ws \<longleftrightarrow> jobs_submitted ls = jobs_started ls @ jobs_discarded ls @ pending p \<and>
     (tp_state p \<in> {UT_THREAD_POOL_RUNNING, UT_THREAD_POOL_DRAINING} \<or> Draining \<in> set ls \<longrightarrow> jobs_discarded ls = []) \<and>
     (tp_state p = UT_THREAD_POOL_RUNNING \<longrightarrow> Draining \<notin> set ls) \<and>
     (\<forall>k < length ws. started_by k ls = finished_by k ls @ held_job (ws ! k))"

definition pool_inv :: "nat \<Rightarrow> pool_label list \<Rightarrow> pool_system \<Rightarrow> bool" where
  "pool_inv capacity ls = (\<lambda>(p, ws, e). pool_holds p e \<and> stage_ok p \<and> workers_ok p ws \<and> jobs_ok ls p ws \<and>
     (active p \<longrightarrow> length ws = tp_created_workers p) \<and> (\<forall>k < tp_joined_workers p. k < length ws \<longrightarrow> ws ! k = Ended) \<and>
     (tp_state p \<in> {UT_THREAD_POOL_RUNNING, UT_THREAD_POOL_DRAINING} \<longrightarrow>
        job_ring p \<and> tp_queue_capacity p = capacity \<and> ws \<noteq> []))"

lemma take_job_ring:
  assumes "job_ring p" "0 < tp_queue_count p"
  shows "job_ring (snd (take_job p)) \<and> pending p = fst (take_job p) # pending (snd (take_job p)) \<and>
    tp_queue_count (snd (take_job p)) = tp_queue_count p - 1"
proof -
  let ?h = "tp_queue_head p" and ?c = "tp_queue_count p" and ?n = "tp_queue_capacity p"
  have b: "0 < ?n" "?n \<le> size_max" "length (tp_queue p) = ?n" "?h < ?n" "?c \<le> ?n" "tp_queue_tail p = (?h + ?c) mod ?n"
    using assms(1) by (simp_all add: job_ring_def)
  then have size: "size_add ?h 1 = ?h + 1" "size_sub ?c 1 = ?c - 1" using assms(2) by simp_all
  have "((?h + 1) mod ?n + (?c - 1)) mod ?n = tp_queue_tail p"
    using ring_step [OF b(1), of ?h "?c - 1"] assms(2) b(6) by simp
  moreover have "pending p = tp_queue p ! ?h # ring_list (tp_queue p) ((?h + 1) mod ?n) (?c - 1)"
    using ring_list_pop [OF assms(2), of ?h "tp_queue p"] b(3,4) by (simp add: pending_def)
  moreover have "?c - 1 \<le> ?n" using b(5) by arith
  ultimately show ?thesis using b size by (simp add: take_job_def job_ring_def pending_def)
qed

text \<open>What a submit that is accepted does.\<close>

definition enqueued :: "ut_thread_pool_job \<Rightarrow> ut_thread_pool \<Rightarrow> ut_thread_pool" where
  "enqueued j p = p\<lparr>tp_queue := (tp_queue p)[tp_queue_tail p := j],
     tp_queue_tail := size_add (tp_queue_tail p) 1 mod tp_queue_capacity p,
     tp_queue_count := size_add (tp_queue_count p) 1\<rparr>"

lemma enqueued_ring:
  assumes "job_ring p" "tp_queue_count p \<noteq> tp_queue_capacity p"
  shows "job_ring (enqueued j p) \<and> pending (enqueued j p) = pending p @ [j] \<and>
    tp_queue_count (enqueued j p) = Suc (tp_queue_count p)"
proof -
  let ?h = "tp_queue_head p" and ?c = "tp_queue_count p" and ?n = "tp_queue_capacity p"
  have b: "0 < ?n" "?n \<le> size_max" "length (tp_queue p) = ?n" "?h < ?n" "?c < ?n" "tp_queue_tail p = (?h + ?c) mod ?n"
    using assms by (auto simp: job_ring_def)
  then have "tp_queue_tail p < ?n" by simp
  with b(2,5) have "tp_queue_tail p + 1 \<le> size_max" "?c + 1 \<le> size_max" by linarith+
  then have size: "size_add (tp_queue_tail p) 1 = tp_queue_tail p + 1" "size_add ?c 1 = Suc ?c" by simp_all
  have "ring_list ((tp_queue p)[(?h + ?c) mod ?n := j]) ?h (Suc ?c) = pending p @ [j]"
    using ring_list_push [of ?c "tp_queue p" ?h j] b(3,5) by (simp add: pending_def)
  then show ?thesis using b size by (simp add: enqueued_def job_ring_def pending_def mod_Suc_eq)
qed

lemma submit_result:
  assumes "ut_thread_pool_submit locked cb ctx (Some p) = (r, q)"
  shows "r \<noteq> UT_THREAD_POOL_OK \<and> q = Some p \<or>
    r = UT_THREAD_POOL_OK \<and> q = Some (enqueued \<lparr>tj_callback = cb, tj_context = ctx\<rparr> p) \<and>
    tp_state p = UT_THREAD_POOL_RUNNING \<and> tp_queue_count p \<noteq> tp_queue_capacity p"
  using assms by (auto simp: ut_thread_pool_submit_def enqueued_def Let_def split: if_splits)

lemma shutdown_result:
  assumes "shutdown_pool locked st (Some p) = (r, q)"
  shows "r \<noteq> UT_THREAD_POOL_OK \<and> q = Some p \<or>
    r = UT_THREAD_POOL_OK \<and> tp_state p = UT_THREAD_POOL_RUNNING \<and>
    q = Some (if st = UT_THREAD_POOL_STOPPING
      then p\<lparr>tp_state := st, tp_queue_head := 0, tp_queue_tail := 0, tp_queue_count := 0\<rparr> else p\<lparr>tp_state := st\<rparr>)"
  using assms by (auto simp: shutdown_pool_def Let_def split: if_splits)

lemma wake_all_simps [simp]:
  "length (wake_all ws) = length ws" "k < length ws \<Longrightarrow> held_job (wake_all ws ! k) = held_job (ws ! k)"
  "Asleep \<notin> set (wake_all ws)" "Ended \<in> set (wake_all ws) \<longleftrightarrow> Ended \<in> set ws"
  "k < length ws \<Longrightarrow> wake_all ws ! k = Ended \<longleftrightarrow> ws ! k = Ended" "wake_all ws = [] \<longleftrightarrow> ws = []"
  by (auto simp: wake_all_def split: if_splits)

lemma pool_invD:
  assumes "pool_inv n ls (p, ws, e)"
  shows "pool_holds p e" "stage_ok p" "workers_ok p ws" "jobs_ok ls p ws"
    "active p \<Longrightarrow> length ws = tp_created_workers p" "k < tp_joined_workers p \<Longrightarrow> k < length ws \<Longrightarrow> ws ! k = Ended"
    "tp_state p \<in> {UT_THREAD_POOL_RUNNING, UT_THREAD_POOL_DRAINING} \<Longrightarrow>
      job_ring p \<and> tp_queue_capacity p = n \<and> ws \<noteq> []"
  using assms by (auto simp: pool_inv_def)

text \<open>Steps that leave the pool and the workers alone, and those that move one worker.\<close>

lemma replied_inv: "pool_inv n ls (p, ws, e) \<Longrightarrow> pool_inv n (ls @ [Replied r]) (p, ws, e)"
  by (simp add: pool_inv_def jobs_ok_def)

lemma submit_inv:
  assumes inv: "pool_inv n ls (p, ws, e)" and s: "pool_do (Submit locked cb ctx woken) (p, ws, e) = Some (l, p', ws', e')"
  shows "pool_inv n (ls @ [l]) (p', ws', e')"
proof -
  let ?j = "\<lparr>tj_callback = cb, tj_context = ctx\<rparr>"
  obtain r q where q: "ut_thread_pool_submit locked cb ctx (Some p) = (r, q)" by fastforce
  show ?thesis
  proof (cases "r = UT_THREAD_POOL_OK")
    case False
    with s q submit_result [OF q] have "l = Replied r" "p' = p" "ws' = ws" "e' = e" by auto
    with replied_inv [OF inv] show ?thesis by simp
  next
    case True
    with submit_result [OF q] have run: "tp_state p = UT_THREAD_POOL_RUNNING" "tp_queue_count p \<noteq> tp_queue_capacity p"
      and some: "q = Some (enqueued ?j p)" by simp_all
    with s q True have st: "signalled woken ws" "l = Submitted ?j" "p' = enqueued ?j p" "ws' = wake woken ws" "e' = e"
      by (auto split: if_splits)
    note i = pool_invD [OF inv]
    have ring: "job_ring p" "tp_queue_capacity p = n" "ws \<noteq> []" using i(7) run by simp_all
    note new = enqueued_ring [OF ring(1) run(2), of ?j]
    have state: "tp_state p' = UT_THREAD_POOL_RUNNING" by (simp add: st enqueued_def run)
    have "pool_holds p' e" "stage_ok p'"
      using i(1,2) by (simp_all add: st enqueued_def pool_holds_def stage_ok_def active_def threads_left_def)
    moreover have "workers_ok p' ws'"
      using i(3) run state st(1) new
      by (cases woken) (auto simp: workers_ok_def signalled_def wake_def st(3,4) count_slots_fill
          dest: set_update_subset_insert [THEN subsetD] split: option.splits)
    moreover have "held_job (ws' ! k) = held_job (ws ! k)" for k
      using st(1) by (auto simp: st(4) wake_def signalled_def nth_list_update split: option.splits)
    then have "jobs_ok (ls @ [l]) p' ws'"
      using i(4) run state new by (auto simp: jobs_ok_def st wake_def split: option.splits)
    moreover have "ws' ! k = Ended \<longleftrightarrow> ws ! k = Ended" for k
      using st(1) by (auto simp: st(4) wake_def signalled_def nth_list_update split: option.splits)
    ultimately show ?thesis
      using i(5,6,7) run new ring by (auto simp: pool_inv_def st enqueued_def active_def wake_def split: option.splits)
  qed
qed

lemma shutdown_inv:
  assumes inv: "pool_inv n ls (p, ws, e)" and q: "shutdown_pool locked st (Some p) = (UT_THREAD_POOL_OK, Some p')"
    and l: "st = UT_THREAD_POOL_STOPPING \<and> l = Discarded (pending p) \<or> st = UT_THREAD_POOL_DRAINING \<and> l = Draining"
  shows "pool_inv n (ls @ [l]) (p', wake_all ws, e)"
proof -
  note i = pool_invD [OF inv]
  have run: "tp_state p = UT_THREAD_POOL_RUNNING"
    and p': "p' = (if st = UT_THREAD_POOL_STOPPING
      then p\<lparr>tp_state := st, tp_queue_head := 0, tp_queue_tail := 0, tp_queue_count := 0\<rparr> else p\<lparr>tp_state := st\<rparr>)"
    using shutdown_result [OF q] by auto
  have "pool_holds p' e" "stage_ok p'"
    using i(1,2) run l by (auto simp: p' pool_holds_def stage_ok_def active_def threads_left_def)
  moreover have "workers_ok p' (wake_all ws)" using i(3) run l by (auto simp: workers_ok_def p')
  moreover have "jobs_ok (ls @ [l]) p' (wake_all ws)"
    using i(4) run l by (auto simp: jobs_ok_def p' pending_def)
  ultimately show ?thesis
    using i(5-7) run l by (auto simp: pool_inv_def p' active_def job_ring_def)
qed

lemma join_inv:
  assumes inv: "pool_inv n ls (p, ws, e)" and s: "pool_do Join (p, ws, e) = Some (l, p', ws', e')"
  shows "pool_inv n (ls @ [l]) (p', ws', e')"
proof -
  note i = pool_invD [OF inv]
  obtain r q e1 where q: "ut_thread_pool_join (Some p) e = (r, q, e1)" by (metis prod_cases3)
  from join_holds [OF q i(1,2)] obtain j where
    j: "q = Some (p\<lparr>tp_joined_workers := j, tp_state := if r = UT_THREAD_POOL_OK then UT_THREAD_POOL_JOINED else tp_state p\<rparr>)"
      "tp_joined_workers p \<le> j" "j \<le> tp_created_workers p" "r = UT_THREAD_POOL_OK \<longrightarrow> j = tp_created_workers p"
      "r = UT_THREAD_POOL_OK \<or> j \<noteq> tp_joined_workers p \<longrightarrow> tp_state p \<in> {UT_THREAD_POOL_DRAINING, UT_THREAD_POOL_STOPPING}"
      "pool_holds (the q) e1" "stage_ok (the q)"
    by metis
  with s q have st: "l = Replied r" "p' = the q" "ws' = ws" "e' = e1" and "\<forall>k \<in> set [tp_joined_workers p..<j]. ws ! k = Ended"
    by (auto split: if_splits)
  then have ended: "\<forall>k < j. k < length ws \<longrightarrow> ws ! k = Ended" using i(6) by (metis atLeastLessThan_iff atLeastLessThan_upt linorder_not_le)
  have "r = UT_THREAD_POOL_OK \<Longrightarrow> set ws \<subseteq> {Ended} \<and> tp_queue_count p = 0"
  proof -
    assume ok: "r = UT_THREAD_POOL_OK"
    with j(5) have state: "tp_state p \<in> {UT_THREAD_POOL_DRAINING, UT_THREAD_POOL_STOPPING}" by simp
    then have "length ws = j" using i(5) j(4) ok by (auto simp: active_def)
    then have all: "set ws \<subseteq> {Ended}" using ended by (auto simp: in_set_conv_nth)
    moreover have "tp_queue_count p = 0"
      using i(3,7) state all by (cases ws) (auto simp: workers_ok_def)
    ultimately show ?thesis by simp
  qed
  then have "workers_ok p' ws" using i(3) by (cases "tp_state p") (auto simp: workers_ok_def st j(1))
  moreover have "jobs_ok (ls @ [l]) p' ws" using i(4) by (auto simp: jobs_ok_def st j(1) pending_def)
  ultimately show ?thesis
    using i(5,7) j(6,7) ended by (auto simp: pool_inv_def st j(1) active_def job_ring_def)
qed

lemma destroy_inv:
  assumes inv: "pool_inv n ls (p, ws, e)" and s: "pool_do Destroy (p, ws, e) = Some (l, p', ws', e')"
  shows "pool_inv n (ls @ [l]) (p', ws', e')"
proof -
  note i = pool_invD [OF inv]
  obtain r q e1 where q: "ut_thread_pool_destroy (Some p) e = (r, q, e1)" by (metis prod_cases3)
  with s have st: "l = Replied r" "p' = the q" "ws' = ws" "e' = e1" by auto
  note d = destroy_holds [OF q i(1,2)]
  show ?thesis
  proof (cases "q = Some p")
    case True
    with d inv show ?thesis by (auto simp: st pool_inv_def jobs_ok_def)
  next
    case False
    with d have joined: "tp_state p = UT_THREAD_POOL_JOINED"
      and p': "p' = zero_pool \<or> p' = p\<lparr>tp_condition_initialized := False\<rparr>" by (auto simp: st)
    have "set ws \<subseteq> {Ended}" "tp_queue_count p = 0" using i(3) joined by (simp_all add: workers_ok_def)
    then show ?thesis
      using d i(4-7) joined p' by (auto simp: pool_inv_def st(1,3,4) st(2) [symmetric] workers_ok_def jobs_ok_def pending_def
          zero_pool_def active_def)
  qed
qed

text \<open>One worker changes its position; what the others hold and whether they ended stays.\<close>

lemma set_list_update_other:
  "k < length ws \<Longrightarrow> y \<in> set (ws[k := x]) \<Longrightarrow> y \<noteq> x \<Longrightarrow> y \<in> set ws"
  by (meson insertE set_update_subset_insert subsetD)

lemma wake_up_inv:
  assumes inv: "pool_inv n ls (p, ws, e)" and k: "k < length ws" "ws ! k = Asleep"
  shows "pool_inv n (ls @ [Woken k]) (p, ws[k := Awake], e)"
proof -
  note i = pool_invD [OF inv]
  have running: "tp_state p = UT_THREAD_POOL_RUNNING"
    using i(3) nth_mem [OF k(1)] k(2) by (cases "tp_state p") (auto simp: workers_ok_def)
  have "workers_ok p (ws[k := Awake])"
    using i(3) running k nth_mem [OF k(1)]
    by (auto simp: workers_ok_def count_slots_fill dest: set_list_update_other)
  then show ?thesis
    using i running k by (auto simp: pool_inv_def jobs_ok_def nth_list_update)
qed

lemma return_inv:
  assumes inv: "pool_inv n ls (p, ws, e)" and k: "k < length ws" "ws ! k = Working j"
  shows "pool_inv n (ls @ [Finished k j]) (p, ws[k := Awake], e)"
proof -
  note i = pool_invD [OF inv]
  have "workers_ok p (ws[k := Awake])"
    using i(3) k nth_mem [OF k(1)]
    by (cases "tp_state p") (auto simp: workers_ok_def count_slots_fill dest: set_list_update_other)
  then show ?thesis
    using i k by (auto simp: pool_inv_def jobs_ok_def nth_list_update)
qed

lemma turn_inv:
  assumes inv: "pool_inv n ls (p, ws, e)" and k: "k < length ws" "ws ! k = Awake"
    and w: "worker_main p = (w, p')"
    and l: "l = (case w of Working job \<Rightarrow> Started k job | Ended \<Rightarrow> Left k | _ \<Rightarrow> Waited k)"
  shows "pool_inv n (ls @ [l]) (p', ws[k := w], e)"
proof -
  note i = pool_invD [OF inv]
  have here: "Awake \<in> set ws" using nth_mem [OF k(1)] k(2) by simp
  then have act: "active p" using i(3) by (cases "tp_state p") (auto simp: workers_ok_def active_def)
  consider (sleep) "tp_queue_count p = 0" "tp_state p = UT_THREAD_POOL_RUNNING"
    | (leave) "tp_queue_count p = 0" "tp_state p \<in> {UT_THREAD_POOL_STOPPING, UT_THREAD_POOL_DRAINING}"
    | (start) "0 < tp_queue_count p" "tp_state p \<in> {UT_THREAD_POOL_RUNNING, UT_THREAD_POOL_DRAINING}"
    using i(3) act by (auto simp: active_def workers_ok_def)
  then show ?thesis
  proof cases
    case sleep
    then have "w = Asleep" "p' = p" using w by (simp_all add: worker_main_def)
    moreover have "workers_ok p (ws[k := Asleep])"
      using i(3) sleep k(1) by (auto simp: workers_ok_def dest: set_list_update_other)
    ultimately show ?thesis using i sleep k by (auto simp: pool_inv_def jobs_ok_def l nth_list_update)
  next
    case leave
    then have w': "w = Ended" "p' = p" using w by (auto simp: worker_main_def)
    moreover have "workers_ok p (ws[k := Ended])"
      using i(3) leave k(1) by (auto simp: workers_ok_def dest: set_list_update_other)
    ultimately show ?thesis using i leave k by (auto simp: pool_inv_def jobs_ok_def l nth_list_update)
  next
    case start
    define j where "j = fst (take_job p)"
    have w': "w = Working j" "p' = snd (take_job p)"
      using w start by (auto simp: worker_main_def j_def split: prod.splits)
    have ring: "job_ring p" "tp_queue_capacity p = n" "ws \<noteq> []" using i(7) start(2) by auto
    note t = take_job_ring [OF ring(1) start(1), folded w'(2), folded j_def]
    have fields: "tp_state p' = tp_state p" "tp_queue_capacity p' = tp_queue_capacity p"
        "tp_created_workers p' = tp_created_workers p" "tp_joined_workers p' = tp_joined_workers p"
        "tp_mutex_initialized p' = tp_mutex_initialized p" "tp_condition_initialized p' = tp_condition_initialized p"
        "tp_workers p' = tp_workers p"
      by (simp_all add: w'(2) take_job_def)
    have "pool_holds p' e" "stage_ok p'"
      using i(1,2) by (simp_all add: pool_holds_def stage_ok_def active_def threads_left_def fields)
    moreover have "workers_ok p' (ws[k := Working j])"
      using i(3) start k t
      by (auto simp: workers_ok_def fields count_slots_drop dest: set_list_update_other)
    moreover have "jobs_ok (ls @ [l]) p' (ws[k := Working j])"
      using i(4) start(2) t k by (auto simp: jobs_ok_def l w'(1) fields nth_list_update)
    ultimately show ?thesis
      using i(5,6) start t ring k by (auto simp: pool_inv_def w'(1) fields active_def nth_list_update)
  qed
qed

lemma pool_step_inv:
  assumes inv: "pool_inv n ls s" and st: "pool_do a s = Some (l, s')"
  shows "pool_inv n (ls @ [l]) s'"
proof -
  obtain p ws e p' ws' e' where s: "s = (p, ws, e)" "s' = (p', ws', e')" using prod_cases3 by metis
  note inv = inv [unfolded s] and st = st [unfolded s]
  show ?thesis unfolding s
  proof (cases a)
    case (Submit b c d k)
    then show "pool_inv n (ls @ [l]) (p', ws', e')" using submit_inv [OF inv] st by simp
  next
    case (Shutdown_Drain b)
    obtain r q where q: "shutdown_pool b UT_THREAD_POOL_DRAINING (Some p) = (r, q)" by fastforce
    with shutdown_result [OF q] st Shutdown_Drain shutdown_inv [OF inv, of b UT_THREAD_POOL_DRAINING p' l] replied_inv [OF inv]
    show "pool_inv n (ls @ [l]) (p', ws', e')" by (auto simp: ut_thread_pool_shutdown_drain_def)
  next
    case (Shutdown_Immediate b)
    obtain r q where q: "shutdown_pool b UT_THREAD_POOL_STOPPING (Some p) = (r, q)" by fastforce
    with shutdown_result [OF q] st Shutdown_Immediate shutdown_inv [OF inv, of b UT_THREAD_POOL_STOPPING p' l] replied_inv [OF inv]
    show "pool_inv n (ls @ [l]) (p', ws', e')" by (auto simp: ut_thread_pool_shutdown_immediate_def)
  next
    case Join
    then show "pool_inv n (ls @ [l]) (p', ws', e')" using join_inv [OF inv] st by simp
  next
    case Destroy
    then show "pool_inv n (ls @ [l]) (p', ws', e')" using destroy_inv [OF inv] st by simp
  next
    case (Wake_Up k)
    then show "pool_inv n (ls @ [l]) (p', ws', e')" using wake_up_inv [OF inv, of k] st by (auto split: if_splits)
  next
    case (Turn k)
    then show "pool_inv n (ls @ [l]) (p', ws', e')"
      using turn_inv [OF inv, of k] st by (auto split: if_splits prod.splits)
  next
    case (Return k)
    then show "pool_inv n (ls @ [l]) (p', ws', e')"
      using return_inv [OF inv, of k] st by (auto split: if_splits worker_position.splits)
  qed
qed

lemma pool_trace_inv: "pool_trace s ls s' \<Longrightarrow> pool_inv n [] s \<Longrightarrow> pool_inv n ls s'"
  by (induction rule: pool_trace.induct) (auto intro: pool_step_inv)

lemma fresh_workers_set: "set (fresh_workers p e) \<subseteq> {Ended, Asleep, Awake}"
  by (auto simp: fresh_workers_def)

lemma init_inv:
  assumes "ut_thread_pool_init (Some junk) workers n queue capacity e = (r, Some p, e')"
    and "pool_storage workers n queue capacity" "no_pthreads e"
  shows "pool_inv capacity [] (p, fresh_workers p e', e')"
proof -
  note h = init_holds [OF assms]
  have count: "tp_queue_count p = 0" using h by (auto simp: idle_pool_def split: if_splits)
  have le: "tp_joined_workers p \<le> tp_created_workers p" "tp_created_workers p \<le> length (tp_workers p)" using h by (simp_all add: pool_holds_def)
  have "Asleep \<notin> set (fresh_workers p e')" if "r \<noteq> UT_THREAD_POOL_OK"
    using h that by (auto simp: fresh_workers_def)
  then have "workers_ok p (fresh_workers p e')"
    using h le by (cases "tp_state p") (auto simp: workers_ok_def fresh_workers_def idle_pool_def stage_ok_def active_def split: if_splits)
  moreover have "jobs_ok [] p (fresh_workers p e')"
    using count by (auto simp: jobs_ok_def job_views pending_def fresh_workers_def nth_append)
  ultimately show ?thesis
    using h le by (auto simp: pool_inv_def fresh_workers_def nth_append idle_pool_def split: if_splits)
qed

section \<open>Workers come to an end\<close>

text \<open>Steps of the workers alone, and how many are left after a shutdown.\<close>

definition worker_step :: "pool_action \<Rightarrow> bool" where
  "worker_step a \<longleftrightarrow> (case a of Turn k \<Rightarrow> True | Return k \<Rightarrow> True | _ \<Rightarrow> False)"

fun pool_run :: "pool_action list \<Rightarrow> pool_system \<Rightarrow> (pool_label list \<times> pool_system) option" where
  "pool_run [] s = Some ([], s)"
| "pool_run (a # as) s =
     (case pool_do a s of
        None \<Rightarrow> None
      | Some (l, s1) \<Rightarrow> map_option (\<lambda>(ls, s2). (l # ls, s2)) (pool_run as s1))"

definition steps_of_worker :: "worker_position \<Rightarrow> nat" where
  "steps_of_worker w = (case w of Working j \<Rightarrow> 2 | Ended \<Rightarrow> 0 | _ \<Rightarrow> 1)"

definition steps_left :: "pool_system \<Rightarrow> nat" where
  "steps_left = (\<lambda>(p, ws, e). 2 * length (pending p) + sum_list (map steps_of_worker ws))"

definition shut_down :: "ut_thread_pool \<Rightarrow> bool" where
  "shut_down p \<longleftrightarrow> tp_state p \<in> {UT_THREAD_POOL_DRAINING, UT_THREAD_POOL_STOPPING}"

lemma pool_run_trace: "pool_trace s ls s1 \<Longrightarrow> pool_run as s1 = Some (ls', s2) \<Longrightarrow> pool_trace s (ls @ ls') s2"
proof (induction as arbitrary: ls s1 ls')
  case (Cons a as)
  obtain l t ls1 where "pool_do a s1 = Some (l, t)" "pool_run as t = Some (ls1, s2)" "ls' = l # ls1"
    using Cons.prems(2) by (auto split: option.splits)
  with Cons.IH [OF pool_trace.step [OF Cons.prems(1)]] show ?case by fastforce
qed simp

lemma steps_left_update:
  "k < length ws \<Longrightarrow> sum_list (map steps_of_worker (ws[k := w])) + steps_of_worker (ws ! k) =
    sum_list (map steps_of_worker ws) + steps_of_worker w"
  by (induction ws arbitrary: k) (auto split: nat.split simp: nth_Cons)

lemma worker_step_counts:
  assumes inv: "pool_inv n ls (p, ws, e)" and "shut_down p" "worker_step a" "pool_do a (p, ws, e) = Some (l, p', ws', e')"
  shows "steps_left (p, ws, e) = Suc (steps_left (p', ws', e')) \<and> shut_down p'"
proof -
  note i = pool_invD [OF inv]
  have not_running: "tp_state p \<noteq> UT_THREAD_POOL_RUNNING" using assms(2) by (auto simp: shut_down_def)
  show ?thesis
  proof (cases a)
    case (Return k)
    with assms(4) obtain j where "k < length ws" "ws ! k = Working j" "p' = p" "ws' = ws[k := Awake]"
      by (auto split: if_splits worker_position.splits)
    with assms(2) steps_left_update [of k ws Awake] show ?thesis by (simp add: steps_left_def steps_of_worker_def)
  next
    case (Turn k)
    obtain w q where w: "worker_main p = (w, q)" by fastforce
    with assms(4) Turn have k: "k < length ws" "ws ! k = Awake" "p' = q" "ws' = ws[k := w]" by (auto split: if_splits)
    show ?thesis
    proof (cases "tp_queue_count p = 0")
      case True
      then have "w = Ended" "q = p" using w assms(2) by (auto simp: worker_main_def shut_down_def)
      with k assms(2) steps_left_update [of k ws Ended] show ?thesis by (simp add: steps_left_def steps_of_worker_def)
    next
      case False
      then have d: "tp_state p = UT_THREAD_POOL_DRAINING" using i(3) assms(2) by (auto simp: workers_ok_def shut_down_def)
      then have t: "w = Working (fst (take_job p))" "q = snd (take_job p)"
        using w False by (auto simp: worker_main_def split: prod.splits)
      have "job_ring p" using i(7) d by simp
      from take_job_ring [OF this] False have "tp_queue_count q = tp_queue_count p - 1" "tp_state q = tp_state p"
        by (simp_all add: t(2)) (simp add: take_job_def)
      with k t(1) False assms(2) steps_left_update [of k ws w] show ?thesis
        by (simp add: steps_left_def steps_of_worker_def shut_down_def)
    qed
  qed (use assms(3) in \<open>simp_all add: worker_step_def\<close>)
qed

lemma worker_run_counts:
  "pool_run as s = Some (ls', s') \<Longrightarrow> pool_inv n ls s \<Longrightarrow> shut_down (fst s) \<Longrightarrow> list_all worker_step as \<Longrightarrow>
    steps_left s = length as + steps_left s' \<and> shut_down (fst s') \<and> pool_inv n (ls @ ls') s'"
proof (induction as arbitrary: s ls ls')
  case (Cons a as)
  obtain l t ls1 where t: "pool_do a s = Some (l, t)" "pool_run as t = Some (ls1, s')" "ls' = l # ls1"
    using Cons.prems(1) by (auto split: option.splits)
  obtain p ws e p' ws' e' where st: "s = (p, ws, e)" "t = (p', ws', e')" using prod_cases3 by metis
  have "steps_left s = Suc (steps_left t) \<and> shut_down (fst t)"
    using worker_step_counts [of n ls p ws e a] Cons.prems(2-4) t(1) by (simp add: st)
  with Cons.IH [OF t(2) pool_step_inv [OF Cons.prems(2) t(1)]] Cons.prems(4) t(3) show ?case by simp
qed simp

text \<open>A worker that has not ended has a step; when all have ended, joining goes through.\<close>

lemma worker_progress:
  assumes inv: "pool_inv n ls (p, ws, e)" and "shut_down p" and "steps_left (p, ws, e) \<noteq> 0"
  shows "\<exists>a. worker_step a \<and> pool_do a (p, ws, e) \<noteq> None"
proof -
  note i = pool_invD [OF inv]
  have asleep: "Asleep \<notin> set ws" using i(3) assms(2) by (auto simp: workers_ok_def shut_down_def)
  have "\<exists>w \<in> set ws. w \<noteq> Ended"
  proof (rule ccontr)
    assume "\<not> (\<exists>w \<in> set ws. w \<noteq> Ended)"
    then have all: "\<forall>w \<in> set ws. w = Ended" by blast
    then have "sum_list (map steps_of_worker ws) = 0" by (auto simp: steps_of_worker_def)
    moreover have "tp_queue_count p = 0"
      using i(3,7) all assms(2) by (cases ws) (auto simp: workers_ok_def shut_down_def)
    ultimately show False using assms(3) by (simp add: steps_left_def)
  qed
  then obtain k where k: "k < length ws" "ws ! k \<noteq> Ended" by (auto simp: in_set_conv_nth)
  then have "ws ! k \<noteq> Asleep" using asleep nth_mem [OF k(1)] by metis
  with k consider "ws ! k = Awake" | j where "ws ! k = Working j" by (cases "ws ! k") auto
  then show ?thesis
  proof cases
    case 1
    then show ?thesis using k by (intro exI [of _ "Turn k"]) (simp add: worker_step_def split: prod.split)
  next
    case 2
    then show ?thesis using k by (intro exI [of _ "Return k"]) (simp add: worker_step_def)
  qed
qed

lemma workers_ended:
  assumes inv: "pool_inv n ls (p, ws, e)" and "shut_down p" and none: "steps_left (p, ws, e) = 0"
  shows "set ws \<subseteq> {Ended} \<and> pending p = [] \<and> pool_do Join (p, ws, e) \<noteq> None"
proof -
  note i = pool_invD [OF inv]
  have p: "pending p = []" and "\<forall>w \<in> set ws. steps_of_worker w = 0" using none by (auto simp: steps_left_def pending_Nil)
  have zero: "steps_of_worker w = 0 \<longleftrightarrow> w = Ended" for w by (cases w) (simp_all add: steps_of_worker_def)
  have all: "set ws \<subseteq> {Ended}" using \<open>\<forall>w \<in> set ws. steps_of_worker w = 0\<close> unfolding zero by blast
  obtain r q e1 where q: "ut_thread_pool_join (Some p) e = (r, q, e1)" by (metis prod_cases3)
  have "tp_joined_workers (the q) \<le> tp_created_workers p" by (rule join_holds [OF q i(1,2)]) simp
  moreover have "length ws = tp_created_workers p" using i(5) assms(2) by (auto simp: active_def shut_down_def)
  moreover have "ws ! k = Ended" if "k < length ws" for k using subsetD [OF all nth_mem [OF that]] by simp
  ultimately have "\<forall>k \<in> set [tp_joined_workers p..<tp_joined_workers (the q)]. ws ! k = Ended" by simp
  with q p all show ?thesis by simp
qed

section \<open>A sample pool\<close>

text \<open>Two workers, room for two jobs; the second run has a worker whose creation fails, and then its join.\<close>

definition sample_pthreads :: "nat \<Rightarrow> pthreads" where
  "sample_pthreads n = \<lparr>pt_outcome = (\<lambda>i. i < n), pt_calls = 0, pt_mutex = False, pt_condition = False, pt_threads = [],
     pt_misused = False, pt_waits = (\<lambda>_. False), pt_asleep = []\<rparr>"

definition no_job :: ut_thread_pool_job where
  "no_job = \<lparr>tj_callback = 0, tj_context = 0\<rparr>"

definition sample_pool :: ut_thread_pool where
  "sample_pool = \<lparr>tp_workers = [2, 3], tp_worker_count = 2, tp_created_workers = 2, tp_joined_workers = 0,
     tp_queue = [no_job, no_job], tp_queue_capacity = 2, tp_queue_head = 0, tp_queue_tail = 0, tp_queue_count = 0,
     tp_state = UT_THREAD_POOL_RUNNING, tp_mutex_initialized = True, tp_condition_initialized = True\<rparr>"

definition sample_holds :: pthreads where
  "sample_holds = (sample_pthreads 9)\<lparr>pt_calls := 4, pt_mutex := True, pt_condition := True, pt_threads := [2, 3]\<rparr>"

lemma upt_two: "[0..<2] = [0, 1]"
  by (simp add: upt_rec)

lemma sample_init: "ut_thread_pool_init (Some zero_pool) [0, 0] 2 [no_job, no_job] 2 (sample_pthreads 9) =
    (UT_THREAD_POOL_OK, Some sample_pool, sample_holds)"
  by (simp add: ut_thread_pool_init_def sample_pthreads_def sample_pool_def sample_holds_def pthread_ops zero_pool_def
      size_add_def upt_two)

lemma sample_ready:
  "pool_storage [0, 0] 2 [no_job, no_job] 2" "no_pthreads (sample_pthreads n)"
  "fresh_workers sample_pool sample_holds = [Awake, Awake]"
  by (simp_all add: pool_storage_def no_pthreads_def sample_pthreads_def fresh_workers_def sample_pool_def sample_holds_def size_max_def
      replicate_two)

definition two_jobs :: "pool_action list" where
  "two_jobs = [Turn 0, Submit True 5 6 (Some 0), Turn 1, Submit True 7 8 None]"

definition sample_jobs :: "ut_thread_pool_job list" where
  "sample_jobs = [\<lparr>tj_callback = 5, tj_context = 6\<rparr>, \<lparr>tj_callback = 7, tj_context = 8\<rparr>]"

lemmas sample_run = two_jobs_def sample_pool_def sample_jobs_def worker_main_def ut_thread_pool_submit_def signalled_def wake_def
  take_job_def size_add_def size_sub_def pending_def ring_list_def no_job_def job_views Let_def

lemma two_jobs_run:
  "\<exists>ls p. pool_run two_jobs (sample_pool, [Awake, Awake], sample_holds) =
      Some (ls, (p, [Awake, Working (sample_jobs ! 0)], sample_holds)) \<and>
    jobs_submitted ls = sample_jobs \<and> jobs_discarded ls = [] \<and> pending p = [sample_jobs ! 1] \<and>
    tp_state p = UT_THREAD_POOL_RUNNING"
  by (simp add: sample_run)

lemma pool_run_from_start: "pool_run as s = Some (ls, s2) \<Longrightarrow> pool_trace s ls s2"
  using pool_run_trace [OF pool_trace.start] by fastforce

section \<open>Properties\<close>

text \<open>Property C7. Once a pool has been initialised, in every interleaving of submitters, workers, wake-ups,
  shutdowns, joins and destruction: the jobs that were accepted are, in this order, those that workers
  have started, those an immediate shutdown discarded, and those still in the queue, which never holds more
  than its capacity; each worker runs one job at a time and finishes every job it started before the next;
  draining discards nothing, and when the pool is joined no job is left and every worker has ended.\<close>

theorem pool_runs_each_job_once:
  assumes "ut_thread_pool_init (Some junk) workers n queue capacity e0 = (r, Some p0, e1)"
    and "pool_storage workers n queue capacity" and "no_pthreads e0"
    and "pool_trace (p0, fresh_workers p0 e1, e1) ls (p, ws, e)"
  shows "jobs_submitted ls = jobs_started ls @ jobs_discarded ls @ pending p \<and> length (pending p) \<le> capacity
    \<and> (\<forall>k < length ws. started_by k ls = finished_by k ls @ held_job (ws ! k))
    \<and> (Draining \<in> set ls \<longrightarrow> jobs_discarded ls = [])
    \<and> (tp_state p \<in> {UT_THREAD_POOL_JOINED, UT_THREAD_POOL_UNINITIALIZED} \<longrightarrow>
        jobs_submitted ls = jobs_started ls @ jobs_discarded ls \<and> set ws \<subseteq> {Ended} \<and>
        (\<forall>k < length ws. started_by k ls = finished_by k ls))"
proof -
  note inv = pool_trace_inv [OF assms(4) init_inv [OF assms(1-3)]]
  note i = pool_invD [OF inv]
  have room: "tp_queue_count p \<le> capacity"
    using i(3,7) by (cases "tp_state p") (auto simp: workers_ok_def job_ring_def)
  have "set ws \<subseteq> {Ended} \<and> pending p = []" if "tp_state p \<in> {UT_THREAD_POOL_JOINED, UT_THREAD_POOL_UNINITIALIZED}"
    using i(3) that by (auto simp: workers_ok_def pending_Nil)
  moreover have "held_job (ws ! k) = []" if "set ws \<subseteq> {Ended}" "k < length ws" for k
    using subsetD [OF that(1) nth_mem [OF that(2)]] by simp
  ultimately show ?thesis using i(4) room by (auto simp: jobs_ok_def)
qed

theorem pool_runs_each_job_once_witness:
  "\<exists>ls s. pool_run two_jobs (sample_pool, [Awake, Awake], sample_holds) = Some (ls, s) \<and>
     jobs_started ls = [sample_jobs ! 0] \<and> started_by 1 ls = finished_by 1 ls @ [sample_jobs ! 0]"
proof -
  obtain ls p where r: "pool_run two_jobs (sample_pool, [Awake, Awake], sample_holds) =
      Some (ls, (p, [Awake, Working (sample_jobs ! 0)], sample_holds))"
      "jobs_submitted ls = sample_jobs" "jobs_discarded ls = []" "pending p = [sample_jobs ! 1]"
    using two_jobs_run by blast
  have t: "pool_trace (sample_pool, fresh_workers sample_pool sample_holds, sample_holds) ls (p, [Awake, Working (sample_jobs ! 0)], sample_holds)"
    using pool_run_from_start [OF r(1)] by (simp add: sample_ready)
  from pool_runs_each_job_once [OF sample_init sample_ready(1,2) t] r show ?thesis
    by (auto simp: sample_jobs_def less_Suc_eq)
qed

text \<open>Property C38. No wake-up is lost. While the pool accepts jobs, a worker sleeps only if at least as many
  workers are awake as jobs wait; and as long as a job waits, some worker can start the oldest one with its
  very next step, unless every worker is running a job.\<close>

theorem pool_wakes_a_worker_for_each_job:
  assumes "ut_thread_pool_init (Some junk) workers n queue capacity e0 = (r, Some p0, e1)"
    and "pool_storage workers n queue capacity" and "no_pthreads e0"
    and "pool_trace (p0, fresh_workers p0 e1, e1) ls (p, ws, e)" and "tp_state p = UT_THREAD_POOL_RUNNING"
  shows "(Asleep \<in> set ws \<longrightarrow> length (pending p) \<le> awake_workers ws)
    \<and> (pending p \<noteq> [] \<longrightarrow>
        (\<exists>k < length ws. \<exists>s. pool_do (Turn k) (p, ws, e) = Some (Started k (hd (pending p)), s)) \<or>
        (\<forall>w \<in> set ws. \<exists>j. w = Working j))"
proof -
  note inv = pool_trace_inv [OF assms(4) init_inv [OF assms(1-3)]]
  note i = pool_invD [OF inv]
  have w: "Ended \<notin> set ws" "Asleep \<in> set ws \<longrightarrow> tp_queue_count p \<le> awake_workers ws"
    using i(3) assms(5) by (simp_all add: workers_ok_def)
  have "(\<exists>k < length ws. \<exists>s. pool_do (Turn k) (p, ws, e) = Some (Started k (hd (pending p)), s))"
    if some: "pending p \<noteq> []" and free: "\<not> (\<forall>w \<in> set ws. \<exists>j. w = Working j)"
  proof -
    have pos: "0 < tp_queue_count p" using some by (simp add: pending_Nil)
    obtain v where v: "v \<in> set ws" "\<nexists>j. v = Working j" using free by blast
    have "Awake \<in> set ws"
    proof (cases v)
      case Asleep
      with w(2) v(1) pos have "0 < awake_workers ws" by simp
      then show ?thesis by (auto simp: count_slots_def filter_empty_conv)
    qed (use v w in auto)
    then obtain k where k: "k < length ws" "ws ! k = Awake" by (auto simp: in_set_conv_nth)
    have "job_ring p" using i(7) assms(5) by simp
    from take_job_ring [OF this pos] have "fst (take_job p) = hd (pending p)" by simp
    then have "\<exists>q. worker_main p = (Working (hd (pending p)), q)"
      using pos assms(5) by (auto simp: worker_main_def split: prod.split)
    with k show ?thesis by (intro exI [of _ k]) auto
  qed
  then show ?thesis using w(2) by (simp del: pool_do.simps) blast
qed

theorem pool_wakes_a_worker_for_each_job_witness:
  "\<exists>ls p ws e. pool_run two_jobs (sample_pool, [Awake, Awake], sample_holds) = Some (ls, (p, ws, e)) \<and>
     (\<exists>k < length ws. \<exists>s. pool_do (Turn k) (p, ws, e) = Some (Started k (sample_jobs ! 1), s))"
proof -
  obtain ls p where r: "pool_run two_jobs (sample_pool, [Awake, Awake], sample_holds) =
      Some (ls, (p, [Awake, Working (sample_jobs ! 0)], sample_holds))"
      "pending p = [sample_jobs ! 1]" "tp_state p = UT_THREAD_POOL_RUNNING"
    using two_jobs_run by blast
  have t: "pool_trace (sample_pool, fresh_workers sample_pool sample_holds, sample_holds) ls (p, [Awake, Working (sample_jobs ! 0)], sample_holds)"
    using pool_run_from_start [OF r(1)] by (simp add: sample_ready)
  from pool_wakes_a_worker_for_each_job [OF sample_init sample_ready(1,2) t r(3)] r(1,2) show ?thesis
    by (simp del: pool_do.simps)
qed

text \<open>Property C8. A shutdown comes to an end. From any moment after either shutdown, whatever order the
  workers run in, exactly as many worker steps happen as \<open>steps_left\<close> says, two for each waiting job and at
  most two for each worker. Until then some worker can always step, no worker is stuck; after them every
  worker has ended, no job waits, every accepted job has been run (or was discarded by an immediate
  shutdown), and joining the pool goes through.\<close>

theorem pool_shutdown_ends:
  assumes "ut_thread_pool_init (Some junk) workers n queue capacity e0 = (r, Some p0, e1)"
    and "pool_storage workers n queue capacity" and "no_pthreads e0"
    and "pool_trace (p0, fresh_workers p0 e1, e1) ls (p, ws, e)" and "shut_down p"
    and "list_all worker_step as" and "pool_run as (p, ws, e) = Some (ls', (p', ws', e'))"
  shows "steps_left (p, ws, e) = length as + steps_left (p', ws', e')
    \<and> (steps_left (p', ws', e') \<noteq> 0 \<longrightarrow> (\<exists>a. worker_step a \<and> pool_do a (p', ws', e') \<noteq> None))
    \<and> (steps_left (p', ws', e') = 0 \<longrightarrow> set ws' \<subseteq> {Ended} \<and> pool_do Join (p', ws', e') \<noteq> None \<and>
        jobs_submitted (ls @ ls') = jobs_started (ls @ ls') @ jobs_discarded (ls @ ls'))"
proof -
  note inv = pool_trace_inv [OF assms(4) init_inv [OF assms(1-3)]]
  from worker_run_counts [OF assms(7) inv] assms(5,6) have
    c: "steps_left (p, ws, e) = length as + steps_left (p', ws', e')" "shut_down p'" "pool_inv capacity (ls @ ls') (p', ws', e')"
    by simp_all
  then show ?thesis
    using worker_progress [OF c(3,2)] workers_ended [OF c(3,2)] pool_invD(4) [OF c(3)] by (auto simp: jobs_ok_def)
qed

theorem pool_shutdown_ends_witness:
  "\<exists>ls s ls' s'. pool_run (two_jobs @ [Shutdown_Drain True]) (sample_pool, [Awake, Awake], sample_holds) = Some (ls, s) \<and>
     pool_run [Return 1, Turn 0, Return 0, Turn 0, Turn 1] s = Some (ls', s') \<and> steps_left s = 5 \<and>
     jobs_submitted (ls @ ls') = jobs_started (ls @ ls') @ jobs_discarded (ls @ ls')"
proof -
  let ?as = "[Return 1, Turn 0, Return 0, Turn 0, Turn 1]"
  obtain ls p ls' p' where r:
    "pool_run (two_jobs @ [Shutdown_Drain True]) (sample_pool, [Awake, Awake], sample_holds) =
      Some (ls, (p, [Awake, Working (sample_jobs ! 0)], sample_holds))"
    "pool_run ?as (p, [Awake, Working (sample_jobs ! 0)], sample_holds) = Some (ls', (p', [Ended, Ended], sample_holds))"
    "tp_state p = UT_THREAD_POOL_DRAINING" "pending p' = []"
    by (simp add: sample_run ut_thread_pool_shutdown_drain_def shutdown_pool_def wake_all_def)
  have t: "pool_trace (sample_pool, fresh_workers sample_pool sample_holds, sample_holds) ls (p, [Awake, Working (sample_jobs ! 0)], sample_holds)"
    using pool_run_from_start [OF r(1)] by (simp add: sample_ready)
  have "steps_left (p', [Ended, Ended], sample_holds) = 0" using r(4) by (simp add: steps_left_def steps_of_worker_def pending_Nil)
  with pool_shutdown_ends [OF sample_init sample_ready(1,2) t _ _ r(2)] r(3) have
    "steps_left (p, [Awake, Working (sample_jobs ! 0)], sample_holds) = 5"
    "jobs_submitted (ls @ ls') = jobs_started (ls @ ls') @ jobs_discarded (ls @ ls')"
    by (simp_all add: shut_down_def worker_step_def)
  with r(1,2) show ?thesis by blast
qed

text \<open>Property C39. Whichever pthread call fails, in initialisation (and its cleanup), joining or destruction,
  and however often these are tried again: the pool never initialises or destroys anything twice and joins
  no thread twice; its flags say exactly what is still initialised, and the threads that are not joined are
  the ones its counters name. When it is back to UNINITIALIZED nothing is left.\<close>

theorem pool_tracks_its_pthreads:
  assumes "ut_thread_pool_init (Some junk) workers n queue capacity e0 = (r, Some p0, e1)"
    and "pool_storage workers n queue capacity" and "no_pthreads e0"
    and "pool_trace (p0, fresh_workers p0 e1, e1) ls (p, ws, e)"
  shows "\<not> pt_misused e \<and> pt_mutex e = tp_mutex_initialized p \<and> pt_condition e = tp_condition_initialized p
    \<and> pt_threads e = drop (tp_joined_workers p) (take (tp_created_workers p) (tp_workers p))
    \<and> (r = UT_THREAD_POOL_OK \<longleftrightarrow> tp_state p0 = UT_THREAD_POOL_RUNNING)
    \<and> (tp_state p = UT_THREAD_POOL_UNINITIALIZED \<longrightarrow> no_pthreads e)"
proof -
  note inv = pool_trace_inv [OF assms(4) init_inv [OF assms(1-3)]]
  have "r = UT_THREAD_POOL_OK \<longleftrightarrow> tp_state p0 = UT_THREAD_POOL_RUNNING"
    using init_holds [OF assms(1-3)] by (auto simp: idle_pool_def split: if_splits)
  with pool_invD(1,2) [OF inv] show ?thesis
    by (auto simp: pool_holds_def stage_ok_def active_def threads_left_def no_pthreads_def)
qed

theorem pool_tracks_its_pthreads_witness:
  "\<exists>p e. ut_thread_pool_init (Some zero_pool) [0, 0] 2 [no_job, no_job] 2 (sample_pthreads 3) =
      (UT_THREAD_POOL_SYSTEM_ERROR, Some p, e) \<and> tp_state p = UT_THREAD_POOL_STOPPING \<and> pt_threads e = [2] \<and> pt_mutex e"
proof -
  obtain p e where init: "ut_thread_pool_init (Some zero_pool) [0, 0] 2 [no_job, no_job] 2 (sample_pthreads 3) =
      (UT_THREAD_POOL_SYSTEM_ERROR, Some p, e)"
      "tp_state p = UT_THREAD_POOL_STOPPING" "tp_workers p = [2, 0]" "tp_created_workers p = 1" "tp_joined_workers p = 0"
      "tp_mutex_initialized p"
    by (simp add: ut_thread_pool_init_def sample_pthreads_def pthread_ops zero_pool_def cleanup_failed_init_def
        condition_broadcast_def ut_thread_pool_join_def size_add_def upt_two)
  from pool_tracks_its_pthreads [OF init(1) sample_ready(1,2) pool_trace.start] init show ?thesis by simp
qed

end
