(* ===== verification/Memory_Buffer_Adapter.thy ===== *)
theory Memory_Buffer_Adapter
  imports Event_Buffer
begin

text \<open>
  The adapter that makes a memory buffer an event pool (\<open>memory_buffer_event_adapter.c\<close>). The memory buffer
  is a library written in Rust, so its four operations are a parameter; the results it answers with are
  those of \<open>memory_buffer.h\<close>. What its header promises of them is the hypothesis \<open>memory_buffer_laws\<close>. Event
  buffers over the adapter are shown to be variables and a queue of letters, the bytes of a letter being the
  contents of its buffer, and the buffers in use those of the letters there are.
\<close>

section \<open>Results\<close>

definition MB_OK :: u32 where "MB_OK = 0"
definition MB_OUT_OF_MEMORY :: u32 where "MB_OUT_OF_MEMORY = 4"
definition MB_INVALID_HANDLE :: u32 where "MB_INVALID_HANDLE = 5"
definition MB_OUT_OF_BOUNDS :: u32 where "MB_OUT_OF_BOUNDS = 6"
definition MB_BUSY :: u32 where "MB_BUSY = 7"

definition map_result :: "u32 \<Rightarrow> ut_event_result" where
  "map_result result =
     (if result = MB_OK then UT_EVENT_OK
      else if result = MB_OUT_OF_MEMORY then UT_EVENT_FULL
      else if result = MB_BUSY then UT_EVENT_BUSY
      else if result = MB_INVALID_HANDLE then UT_EVENT_NOT_FOUND
      else UT_EVENT_INVALID_ARGUMENT)"

lemma map_result_OK [simp]: "map_result result = UT_EVENT_OK \<longleftrightarrow> result = MB_OK"
  by (simp add: map_result_def)

section \<open>The adapter\<close>

text \<open>The operations of the library on the state \<open>'w\<close> of its contexts and arenas.\<close>

record 'w memory_buffer =
  mb_alloc :: "ptr \<Rightarrow> nat \<Rightarrow> 'w \<Rightarrow> u32 \<times> u32 \<times> 'w"
  mb_free :: "ptr \<Rightarrow> u32 \<Rightarrow> 'w \<Rightarrow> u32 \<times> 'w"
  mb_write :: "ptr \<Rightarrow> u32 \<Rightarrow> nat \<Rightarrow> u8 list \<Rightarrow> 'w \<Rightarrow> u32 \<times> 'w"
  mb_read :: "ptr \<Rightarrow> u32 \<Rightarrow> nat \<Rightarrow> nat \<Rightarrow> 'w \<Rightarrow> u32 \<times> u8 list \<times> 'w"

definition adapter_alloc ::
    "'w memory_buffer \<Rightarrow> ptr \<Rightarrow> nat \<Rightarrow> 'w \<Rightarrow> ut_event_result \<times> ut_event_buffer_handle \<times> 'w" where
  "adapter_alloc lib pool_context capacity w =
     (let (result, handle, w1) = mb_alloc lib pool_context capacity w in (map_result result, handle, w1))"

definition adapter_free :: "'w memory_buffer \<Rightarrow> ptr \<Rightarrow> ut_event_buffer_handle \<Rightarrow> 'w \<Rightarrow> ut_event_result \<times> 'w" where
  "adapter_free lib pool_context handle w =
     (let (result, w1) = mb_free lib pool_context handle w in (map_result result, w1))"

definition adapter_write ::
    "'w memory_buffer \<Rightarrow> ptr \<Rightarrow> ut_event_buffer_handle \<Rightarrow> nat \<Rightarrow> u8 list \<Rightarrow> 'w \<Rightarrow> ut_event_result \<times> 'w" where
  "adapter_write lib pool_context handle offset source w =
     (let (result, w1) = mb_write lib pool_context handle offset source w in (map_result result, w1))"

definition adapter_read ::
    "'w memory_buffer \<Rightarrow> ptr \<Rightarrow> ut_event_buffer_handle \<Rightarrow> nat \<Rightarrow> nat \<Rightarrow> 'w \<Rightarrow> ut_event_result \<times> u8 list \<times> 'w" where
  "adapter_read lib pool_context handle offset len w =
     (let (result, bytes, w1) = mb_read lib pool_context handle offset len w in (map_result result, bytes, w1))"

text \<open>The addresses of the four functions.\<close>

record adapter_symbols =
  as_alloc :: ptr
  as_free :: ptr
  as_write :: ptr
  as_read :: ptr

definition mb_event_buffer_pool :: "adapter_symbols \<Rightarrow> ptr \<Rightarrow> ut_event_buffer_pool" where
  "mb_event_buffer_pool symbols context_address =
     \<lparr>bp_context = context_address, bp_alloc = as_alloc symbols, bp_free = as_free symbols,
      bp_write = as_write symbols, bp_read = as_read symbols\<rparr>"

text \<open>
  What calling the function at an address does. An address that is not the one of the function asked for is
  not called by the event buffers, whose pools are made by \<open>mb_event_buffer_pool\<close>.
\<close>

definition adapter_code :: "adapter_symbols \<Rightarrow> 'w memory_buffer \<Rightarrow> 'w pool_code" where
  "adapter_code symbols lib =
     \<lparr>pc_alloc = (\<lambda>f c n w. if f = as_alloc symbols then adapter_alloc lib c n w else (UT_EVENT_NOT_FOUND, 0, w)),
      pc_free = (\<lambda>f c h w. if f = as_free symbols then adapter_free lib c h w else (UT_EVENT_NOT_FOUND, w)),
      pc_write = (\<lambda>f c h off bs w. if f = as_write symbols then adapter_write lib c h off bs w else (UT_EVENT_NOT_FOUND, w)),
      pc_read = (\<lambda>f c h off n w. if f = as_read symbols then adapter_read lib c h off n w else (UT_EVENT_NOT_FOUND, [], w))\<rparr>"

section \<open>The library\<close>

text \<open>
  What \<open>memory_buffer.h\<close> promises, with \<open>contents\<close> the initialised bytes of each valid handle of each context:
  an allocation that succeeds gives a handle that was not valid, of an empty buffer; a valid handle that is
  not mapped, and the event buffers never map one, can be freed; a write at offset 0 that succeeds puts its
  bytes there, and changes no other buffer even when it fails; a read within the initialised bytes gives them.
\<close>

definition memory_buffer_laws :: "'w memory_buffer \<Rightarrow> ('w \<Rightarrow> ptr \<times> u32 \<Rightarrow> u8 list option) \<Rightarrow> bool" where
  "memory_buffer_laws lib contents \<longleftrightarrow>
     (\<forall>c n w r h w1. mb_alloc lib c n w = (r, h, w1) \<longrightarrow>
        (if r = MB_OK then contents w (c, h) = None \<and> contents w1 = (contents w)((c, h) \<mapsto> []) else contents w1 = contents w)) \<and>
     (\<forall>c h w r w1 xs. mb_free lib c h w = (r, w1) \<longrightarrow> contents w (c, h) = Some xs \<longrightarrow>
        r = MB_OK \<and> contents w1 = (contents w)((c, h) := None)) \<and>
     (\<forall>c h bs w r w1 xs. mb_write lib c h 0 bs w = (r, w1) \<longrightarrow> contents w (c, h) = Some xs \<longrightarrow>
        (\<exists>ys. contents w1 = (contents w)((c, h) \<mapsto> ys) \<and> (r = MB_OK \<longrightarrow> ys = bs @ drop (length bs) xs))) \<and>
     (\<forall>c h off n w r bs w1 xs. mb_read lib c h off n w = (r, bs, w1) \<longrightarrow> contents w (c, h) = Some xs \<longrightarrow>
        off + n \<le> length xs \<longrightarrow> r = MB_OK \<and> bs = take n (drop off xs) \<and> contents w1 = contents w)"

section \<open>Events that carry bytes\<close>

text \<open>
  What a client of event buffers over memory buffers works with: variables that hold a letter or none and a
  queue of letters, a letter being an event id, a source id and bytes.
\<close>

type_synonym letter = "u32 \<times> u32 \<times> u8 list"
type_synonym mail = "letter option list \<times> letter list"

text \<open>
  The calls on it. Only a creation can fail for want of memory, with the answer \<open>a\<close> of the library; the other
  answers follow from the letters there are. A read within a letter succeeds, all others are refused.
\<close>

fun mail_step :: "nat \<Rightarrow> u32 \<Rightarrow> mail \<Rightarrow> buf_call \<Rightarrow> ut_event_result \<times> mail" where
  "mail_step capacity a (vs, q) (BCreate i p e src bs) =
     (if length vs \<le> i \<or> vs ! i \<noteq> None \<or> bs = [] then (UT_EVENT_INVALID_ARGUMENT, (vs, q))
      else if a = MB_OK then (UT_EVENT_OK, (vs[i := Some (e, src, bs)], q))
      else (map_result a, (vs, q)))"
| "mail_step capacity a (vs, q) (BRelease i) =
     (if length vs \<le> i \<or> vs ! i = None then (UT_EVENT_INVALID_ARGUMENT, (vs, q))
      else (UT_EVENT_OK, (vs[i := None], q)))"
| "mail_step capacity a (vs, q) (BPush i) =
     (if length vs \<le> i \<or> vs ! i = None then (UT_EVENT_INVALID_ARGUMENT, (vs, q))
      else if length q = capacity then (UT_EVENT_FULL, (vs, q))
      else (UT_EVENT_OK, (vs[i := None], q @ [the (vs ! i)])))"
| "mail_step capacity a (vs, q) (BPop i) =
     (if length vs \<le> i \<or> vs ! i \<noteq> None then (UT_EVENT_INVALID_ARGUMENT, (vs, q))
      else case q of [] \<Rightarrow> (UT_EVENT_EMPTY, (vs, q)) | x # xs \<Rightarrow> (UT_EVENT_OK, (vs[i := Some x], xs)))"
| "mail_step capacity a (vs, q) BReleaseAll = (UT_EVENT_OK, (vs, []))"
| "mail_step capacity a (vs, q) (BRead i off n) =
     (if length vs \<le> i \<or> vs ! i = None \<or> length (snd (snd (the (vs ! i)))) < off + n
      then (UT_EVENT_INVALID_ARGUMENT, (vs, q)) else (UT_EVENT_OK, (vs, q)))"

text \<open>The letters of a client, looked up in the buffers of the library.\<close>

definition letter_of :: "(ptr \<times> u32 \<Rightarrow> u8 list option) \<Rightarrow> envelope \<Rightarrow> letter" where
  "letter_of buffers = (\<lambda>(i, s, r). (i, s, the (buffers (handle_in r))))"

definition var_letter :: "(ptr \<times> u32 \<Rightarrow> u8 list option) \<Rightarrow> ut_event_buffer_message \<Rightarrow> letter option" where
  "var_letter buffers m = (if bm_owns_handle m then Some (letter_of buffers (envelope_of m)) else None)"

definition mail_of :: "('w \<Rightarrow> ptr \<times> u32 \<Rightarrow> u8 list option) \<Rightarrow> 'w buffer_client \<Rightarrow> mail" where
  "mail_of contents s =
     (map (var_letter (contents (bc_pools s))) (bc_vars s), map (letter_of (contents (bc_pools s))) (buffer_items (bc_queue s)))"

text \<open>The answer of the library to what a creation asks of it, and the calls a client makes.\<close>

definition library_answer :: "'w memory_buffer \<Rightarrow> buf_call \<Rightarrow> 'w \<Rightarrow> u32" where
  "library_answer lib call w =
     (case call of
        BCreate i p e src bs \<Rightarrow>
          let (r, h, w1) = mb_alloc lib (bp_context p) (length bs) w
          in if r \<noteq> MB_OK then r else fst (mb_write lib (bp_context p) h 0 bs w1)
      | _ \<Rightarrow> MB_OK)"

definition adapter_call :: "adapter_symbols \<Rightarrow> buf_call \<Rightarrow> bool" where
  "adapter_call symbols call =
     (case call of
        BCreate i p e src bs \<Rightarrow> p = mb_event_buffer_pool symbols (bp_context p) \<and> length bs \<le> size_max
      | _ \<Rightarrow> True)"

definition symbols_ok :: "adapter_symbols \<Rightarrow> bool" where
  "symbols_ok symbols \<longleftrightarrow> as_alloc symbols \<noteq> 0 \<and> as_free symbols \<noteq> 0 \<and> as_write symbols \<noteq> 0 \<and> as_read symbols \<noteq> 0"

lemma pool_fields [simp]:
  "bp_context (mb_event_buffer_pool symbols c) = c" "bp_alloc (mb_event_buffer_pool symbols c) = as_alloc symbols"
  "bp_free (mb_event_buffer_pool symbols c) = as_free symbols" "bp_write (mb_event_buffer_pool symbols c) = as_write symbols"
  "bp_read (mb_event_buffer_pool symbols c) = as_read symbols"
  by (simp_all add: mb_event_buffer_pool_def)

lemma pool_valid [simp]: "pool_is_valid (Some (mb_event_buffer_pool symbols c)) \<longleftrightarrow> symbols_ok symbols"
  by (auto simp: pool_is_valid_def symbols_ok_def)

lemma adapter_code_fields [simp]:
  "pc_alloc (adapter_code symbols lib) (as_alloc symbols) = adapter_alloc lib"
  "pc_free (adapter_code symbols lib) (as_free symbols) = adapter_free lib"
  "pc_write (adapter_code symbols lib) (as_write symbols) = adapter_write lib"
  "pc_read (adapter_code symbols lib) (as_read symbols) = adapter_read lib"
  by (simp_all add: adapter_code_def fun_eq_iff)

section \<open>One call\<close>

text \<open>A reference to a buffer of the library that holds as many bytes as it says.\<close>

definition good_ref :: "adapter_symbols \<Rightarrow> (ptr \<times> u32 \<Rightarrow> u8 list option) \<Rightarrow> ut_event_buffer_ref \<Rightarrow> bool" where
  "good_ref symbols buffers r \<longleftrightarrow> (\<exists>c bs. br_pool r = Some (mb_event_buffer_pool symbols c) \<and>
     buffers (handle_in r) = Some bs \<and> br_length r = length bs \<and> length bs \<le> size_max)"

definition good_vars :: "adapter_symbols \<Rightarrow> (ptr \<times> u32 \<Rightarrow> u8 list option) \<Rightarrow> ut_event_buffer_message list \<Rightarrow> bool" where
  "good_vars symbols buffers ms \<longleftrightarrow> (\<forall>m \<in> set ms. bm_owns_handle m \<longrightarrow> good_ref symbols buffers (bm_buffer_ref m))"

definition good_items :: "adapter_symbols \<Rightarrow> (ptr \<times> u32 \<Rightarrow> u8 list option) \<Rightarrow> envelope list \<Rightarrow> bool" where
  "good_items symbols buffers es \<longleftrightarrow> (\<forall>e \<in> set es. good_ref symbols buffers (snd (snd e)))"

definition items_held :: "envelope list \<Rightarrow> (ptr \<times> u32) multiset" where
  "items_held es = mset (map (handle_in \<circ> snd \<circ> snd) es)"

definition mail_ok ::
    "adapter_symbols \<Rightarrow> ('w \<Rightarrow> ptr \<times> u32 \<Rightarrow> u8 list option) \<Rightarrow> ptr \<Rightarrow> 'w buffer_client \<Rightarrow> bool" where
  "mail_ok symbols contents vb s \<longleftrightarrow> client_wf vb s \<and> finite (dom (contents (bc_pools s))) \<and>
     held s = mset_set (dom (contents (bc_pools s))) \<and>
     good_vars symbols (contents (bc_pools s)) (bc_vars s) \<and> good_items symbols (contents (bc_pools s)) (buffer_items (bc_queue s))"

lemma held_items: "held s = handles_owned (bc_vars s) + items_held (buffer_items (bc_queue s))"
  by (simp add: held_split items_held_def)

lemma items_held_simps [simp]: "items_held [] = {#}" "items_held (e # es) = add_mset (handle_in (snd (snd e))) (items_held es)"
  "items_held (es @ es') = items_held es + items_held es'"
  by (simp_all add: items_held_def)

lemma owned_handles: "m \<in> set ms \<Longrightarrow> bm_owns_handle m \<Longrightarrow> handle_in (bm_buffer_ref m) \<in># handles_owned ms"
  by (auto simp: handles_owned_def)

lemma item_handles: "e \<in> set es \<Longrightarrow> handle_in (snd (snd e)) \<in># items_held es"
  by (auto simp: items_held_def)

text \<open>Only the buffers of the handles there are matter.\<close>

lemma good_ref_cong: "B (handle_in r) = B' (handle_in r) \<Longrightarrow> good_ref symbols B r = good_ref symbols B' r"
  by (simp add: good_ref_def)

lemma vars_cong:
  assumes "\<forall>k \<in># handles_owned ms. B k = B' k"
  shows "map (var_letter B) ms = map (var_letter B') ms" "good_vars symbols B ms = good_vars symbols B' ms"
proof -
  have k: "B (handle_in (bm_buffer_ref m)) = B' (handle_in (bm_buffer_ref m))" if "m \<in> set ms" "bm_owns_handle m" for m
    using assms owned_handles [OF that] by blast
  then show "map (var_letter B) ms = map (var_letter B') ms"
    by (auto simp: var_letter_def letter_of_def envelope_of_def)
  show "good_vars symbols B ms = good_vars symbols B' ms" unfolding good_vars_def using good_ref_cong k by blast
qed

lemma items_cong:
  assumes "\<forall>k \<in># items_held es. B k = B' k"
  shows "map (letter_of B) es = map (letter_of B') es" "good_items symbols B es = good_items symbols B' es"
proof -
  have k: "B (handle_in (snd (snd e))) = B' (handle_in (snd (snd e)))" if "e \<in> set es" for e
    using assms item_handles [OF that] by blast
  then show "map (letter_of B) es = map (letter_of B') es" by (auto simp: letter_of_def split: prod.splits)
  show "good_items symbols B es = good_items symbols B' es" unfolding good_items_def using good_ref_cong k by blast
qed

lemma good_vars_update: "good_vars symbols B ms \<Longrightarrow> bm_owns_handle m \<longrightarrow> good_ref symbols B (bm_buffer_ref m) \<Longrightarrow> good_vars symbols B (ms[i := m])"
  unfolding good_vars_def using set_update_subset_insert [of ms i m] by blast

lemma mail_pools:
  assumes "contents w = contents (bc_pools s)"
  shows "mail_of contents (s\<lparr>bc_pools := w\<rparr>) = mail_of contents s"
    "mail_ok symbols contents vb (s\<lparr>bc_pools := w\<rparr>) \<longleftrightarrow> mail_ok symbols contents vb s"
  using assms by (simp_all add: mail_of_def mail_ok_def held_def)

lemma var_at_None: "var_at vb s i = None \<longleftrightarrow> length (bc_vars s) \<le> i"
  by (simp add: var_at_def)

lemma var_letter_None [simp]: "var_letter B m = None \<longleftrightarrow> \<not> bm_owns_handle m"
  by (simp add: var_letter_def)

lemma zero_owns [simp]: "\<not> bm_owns_handle zero_message" "var_letter B zero_message = None"
  by (simp_all add: zero_message_def var_letter_def)

lemma var_letter_at [simp]: "var_letter B (message_at a e) = Some (letter_of B e)"
  by (simp add: var_letter_def)

text \<open>The laws of the library, one at a time.\<close>

lemma alloc_law:
  assumes "memory_buffer_laws lib contents" "mb_alloc lib c n w = (r, h, w1)"
  shows "r \<noteq> MB_OK \<Longrightarrow> contents w1 = contents w"
    "r = MB_OK \<Longrightarrow> contents w (c, h) = None \<and> contents w1 = (contents w)((c, h) \<mapsto> [])"
  using assms unfolding memory_buffer_laws_def by metis+

lemma free_law:
  assumes "memory_buffer_laws lib contents" "mb_free lib c h w = (r, w1)" "contents w (c, h) = Some xs"
  shows "r = MB_OK" "contents w1 = (contents w)((c, h) := None)"
  using assms unfolding memory_buffer_laws_def by metis+

lemma write_law:
  assumes "memory_buffer_laws lib contents" "mb_write lib c h 0 bs w = (r, w1)" "contents w (c, h) = Some xs"
  obtains ys where "contents w1 = (contents w)((c, h) \<mapsto> ys)" "r = MB_OK \<Longrightarrow> ys = bs @ drop (length bs) xs"
  using assms unfolding memory_buffer_laws_def by metis

lemma read_law:
  assumes "memory_buffer_laws lib contents" "mb_read lib c h off n w = (r, bs, w1)" "contents w (c, h) = Some xs" "off + n \<le> length xs"
  shows "r = MB_OK" "bs = take n (drop off xs)" "contents w1 = contents w"
  using assms unfolding memory_buffer_laws_def by metis+

text \<open>What a call does, of a client that is in order.\<close>

definition call_refines ::
    "adapter_symbols \<Rightarrow> 'w memory_buffer \<Rightarrow> ('w \<Rightarrow> ptr \<times> u32 \<Rightarrow> u8 list option) \<Rightarrow> ptr \<Rightarrow> 'w buffer_client \<Rightarrow> buf_call \<Rightarrow> bool" where
  "call_refines symbols lib contents vb s call \<longleftrightarrow>
     (case buf_step (adapter_code symbols lib) vb s call of (r, s') \<Rightarrow>
        mail_ok symbols contents vb s' \<and> bq_capacity (bc_queue s') = bq_capacity (bc_queue s) \<and>
        mail_step (bq_capacity (bc_queue s)) (library_answer lib call (bc_pools s)) (mail_of contents s) call = (r, mail_of contents s'))"

lemma call_refinesI:
  assumes "buf_step (adapter_code symbols lib) vb s call = (r, s')" "mail_ok symbols contents vb s'"
    "bq_capacity (bc_queue s') = bq_capacity (bc_queue s)"
    "mail_step (bq_capacity (bc_queue s)) (library_answer lib call (bc_pools s)) (mail_of contents s) call = (r, mail_of contents s')"
  shows "call_refines symbols lib contents vb s call"
  unfolding call_refines_def assms(1) using assms(2-4) by simp

lemma create_refines:
  assumes laws: "memory_buffer_laws lib contents" and ok: "mail_ok symbols contents vb s" and sy: "symbols_ok symbols"
    and call: "adapter_call symbols (BCreate i p e src bs)"
  shows "call_refines symbols lib contents vb s (BCreate i p e src bs)"
proof -
  define w where "w = bc_pools s"
  obtain c where p: "p = mb_event_buffer_pool symbols c" and len: "length bs \<le> size_max"
    using call by (auto simp: adapter_call_def)
  show ?thesis
  proof (cases "length (bc_vars s) \<le> i \<or> bm_owns_handle (bc_vars s ! i) \<or> bs = []")
    case True
    then have "buf_step (adapter_code symbols lib) vb s (BCreate i p e src bs) = (UT_EVENT_INVALID_ARGUMENT, s)"
      by (auto simp: ut_event_buffer_message_create_copy_def var_at_def set_var_def)
    moreover from True have "mail_step n a (mail_of contents s) (BCreate i p e src bs) = (UT_EVENT_INVALID_ARGUMENT, mail_of contents s)" for n a
      by (cases "i < length (bc_vars s)") (auto simp: mail_of_def simp del: not_None_eq)
    ultimately show ?thesis using ok by (simp add: call_refines_def)
  next
    case False
    then have i: "i < length (bc_vars s)" "\<not> bm_owns_handle (bc_vars s ! i)" "bs \<noteq> []" by auto
    let ?a = "vb + i * sizeof_message"
    have v: "var_at vb s i = Some (?a, bc_vars s ! i)" using i(1) by (simp add: var_at_def)
    obtain r h w1 where al: "mb_alloc lib c (length bs) w = (r, h, w1)" by (cases "mb_alloc lib c (length bs) w") auto
    obtain r2 w2 where wr: "mb_write lib c h 0 bs w1 = (r2, w2)" by fastforce
    obtain r3 w3 where fr: "mb_free lib c h w2 = (r3, w3)" by fastforce
    have mail: "fst (mail_of contents s) ! i = None" "i < length (fst (mail_of contents s))" using i by (simp_all add: mail_of_def)
    note create = ut_event_buffer_message_create_copy_def v sy al wr fr Let_def p adapter_alloc_def adapter_write_def adapter_free_def
    consider (refused) "r \<noteq> MB_OK" | (unwritten) "r = MB_OK" "r2 \<noteq> MB_OK" | (created) "r = MB_OK" "r2 = MB_OK" by blast
    then show ?thesis
    proof cases
      case refused
      have "buf_step (adapter_code symbols lib) vb s (BCreate i p e src bs) = (map_result r, s\<lparr>bc_pools := w1\<rparr>)"
        using refused i by (simp add: create set_var_pools [OF v] flip: w_def)
      moreover have "library_answer lib (BCreate i p e src bs) w = r" using refused by (simp add: library_answer_def p al)
      moreover have "contents w1 = contents (bc_pools s)" using alloc_law(1) [OF laws al refused] by (simp add: w_def)
      note keep = mail_pools [where contents = contents, OF this]
      have "mail_ok symbols contents vb (s\<lparr>bc_pools := w1\<rparr>)" using keep ok by simp
      moreover have "mail_step n r (mail_of contents s) (BCreate i p e src bs) = (map_result r, mail_of contents s)" for n
        using refused i mail by (cases "mail_of contents s") simp
      ultimately show ?thesis using keep by (intro call_refinesI [where s' = "s\<lparr>bc_pools := w1\<rparr>"]) (simp_all add: w_def)
    next
      case unwritten
      note k = alloc_law(2) [OF laws al unwritten(1)]
      have "contents w1 (c, h) = Some []" using k by simp
      from write_law [OF laws wr this] obtain ys where ys: "contents w2 = (contents w1)((c, h) \<mapsto> ys)" by blast
      then have "contents w2 (c, h) = Some ys" by simp
      note f = free_law [OF laws fr this]
      have "contents w3 = contents (bc_pools s)" using f(2) ys k by (auto simp: w_def fun_eq_iff)
      moreover have "buf_step (adapter_code symbols lib) vb s (BCreate i p e src bs) = (map_result r2, s\<lparr>bc_pools := w3\<rparr>)"
        using unwritten i f(1) by (simp add: create set_var_pools [OF v] flip: w_def)
      moreover have "library_answer lib (BCreate i p e src bs) w = r2" using unwritten by (simp add: library_answer_def p al wr)
      moreover have "mail_step n r2 (mail_of contents s) (BCreate i p e src bs) = (map_result r2, mail_of contents s)" for n
        using unwritten i mail by (cases "mail_of contents s") simp
      ultimately show ?thesis
        using mail_pools [where contents = contents and w = w3 and s = s] ok
        by (intro call_refinesI [where s' = "s\<lparr>bc_pools := w3\<rparr>"]) (simp_all add: w_def)
    next
      case created
      note k = alloc_law(2) [OF laws al created(1)]
      have "contents w1 (c, h) = Some []" using k by simp
      from write_law [OF laws wr this] obtain ys where "contents w2 = (contents w1)((c, h) \<mapsto> ys)" "ys = bs"
        using created(2) by (metis append_Nil2 drop_Nil)
      then have w2: "contents w2 = (contents w)((c, h) \<mapsto> bs)" using k by simp
      define m where "m = message_at ?a (e, src, \<lparr>br_pool = Some p, br_handle = h, br_length = length bs\<rparr>)"
      have m: "bm_owns_handle m" "handle_in (bm_buffer_ref m) = (c, h)" "good_ref symbols (contents w2) (bm_buffer_ref m)"
        "var_letter (contents w2) m = Some (e, src, bs)" "message_is_owned (Some (?a, m))"
        using len sy by (auto simp: m_def handle_in_def good_ref_def p w2 letter_of_def envelope_ok_def)
      let ?s = "(s\<lparr>bc_pools := w2\<rparr>)\<lparr>bc_vars := (bc_vars s)[i := m]\<rparr>"
      have new: "(c, h) \<notin># held s" using ok k by (auto simp: mail_ok_def w_def)
      have same: "\<forall>x \<in># handles_owned (bc_vars s). contents w2 x = contents w x"
        "\<forall>x \<in># items_held (buffer_items (bc_queue s)). contents w2 x = contents w x"
        using new by (auto simp: w2 held_items)
      have "buf_step (adapter_code symbols lib) vb s (BCreate i p e src bs) = (UT_EVENT_OK, ?s)"
        using created i by (simp add: create set_var_def m_def message_at_def flip: w_def)
      moreover have "library_answer lib (BCreate i p e src bs) w = MB_OK" using created by (simp add: library_answer_def p al wr)
      moreover have "mail_of contents ?s = ((fst (mail_of contents s))[i := Some (e, src, bs)], snd (mail_of contents s))"
        using vars_cong(1) [OF same(1)] items_cong(1) [OF same(2)] m(4)
        by (simp add: mail_of_def map_update w_def del: map_eq_conv)
      moreover have "mail_ok symbols contents vb ?s"
      proof -
        have "handles_owned ((bc_vars s)[i := m]) = add_mset (c, h) (handles_owned (bc_vars s))"
          using handles_gain [OF i(1,2) m(1)] m(2) by simp
        then have "held ?s = add_mset (c, h) (held s)" by (simp add: held_items)
        moreover have "mset_set (insert (c, h) (dom (contents w))) = add_mset (c, h) (mset_set (dom (contents w)))"
          using ok k by (simp add: mail_ok_def w_def domIff)
        ultimately have "held ?s = mset_set (dom (contents w2))" using ok by (simp add: mail_ok_def w2 w_def)
        moreover have "client_wf vb ?s" using client_wf_var [of vb "s\<lparr>bc_pools := w2\<rparr>" i m] ok i(1) m(5) by (simp add: mail_ok_def)
        moreover have "good_vars symbols (contents w2) ((bc_vars s)[i := m])"
          using ok m(3) vars_cong(2) [OF same(1)] by (intro good_vars_update) (simp_all add: mail_ok_def w_def)
        moreover have "good_items symbols (contents w2) (buffer_items (bc_queue s))"
          using ok items_cong(2) [OF same(2)] by (simp add: mail_ok_def w_def)
        moreover have "finite (dom (contents w2))" using ok by (simp add: mail_ok_def w2 w_def)
        ultimately show ?thesis by (simp add: mail_ok_def)
      qed
      moreover have "mail_step n MB_OK (mail_of contents s) (BCreate i p e src bs) =
          (UT_EVENT_OK, ((fst (mail_of contents s))[i := Some (e, src, bs)], snd (mail_of contents s)))" for n
        using i mail by (cases "mail_of contents s") simp
      ultimately show ?thesis by (intro call_refinesI [where s' = ?s]) (simp_all add: w_def)
    qed
  qed
qed

text \<open>A variable or the head of the queue loses its buffer, which is freed.\<close>

lemma free_owned:
  assumes laws: "memory_buffer_laws lib contents" and good: "good_ref symbols (contents w) r" and dom: "finite (dom (contents w))"
    and held: "add_mset (handle_in r) rest = mset_set (dom (contents w))"
  obtains w1 where "pc_free (adapter_code symbols lib) (bp_free (the (br_pool r))) (bp_context (the (br_pool r))) (br_handle r) w =
      (UT_EVENT_OK, w1)" "contents w1 = (contents w)(handle_in r := None)" "finite (dom (contents w1))"
    "rest = mset_set (dom (contents w1))" "\<forall>k \<in># rest. contents w1 k = contents w k"
proof -
  from good obtain c bs where c: "br_pool r = Some (mb_event_buffer_pool symbols c)" "contents w (handle_in r) = Some bs"
    unfolding good_ref_def by blast
  have k: "handle_in r = (c, br_handle r)" by (simp add: handle_in_def c(1))
  obtain a w1 where fr: "mb_free lib c (br_handle r) w = (a, w1)" by fastforce
  have "contents w (c, br_handle r) = Some bs" using c(2) k by simp
  note f = free_law [OF laws fr this]
  have "rest = mset_set (dom (contents w)) - {#handle_in r#}" using arg_cong [OF held, of "\<lambda>x. x - {#handle_in r#}"] by simp
  also have "\<dots> = mset_set (dom (contents w) - {handle_in r})" using dom by (simp add: mset_set_Diff c(2) domIff)
  finally have rest: "rest = mset_set (dom (contents w1))" by (simp add: f(2) k)
  moreover have fin: "finite (dom (contents w1))" using dom by (simp add: f(2))
  moreover have "contents w1 = (contents w)(handle_in r := None)" using f(2) k by simp
  moreover have "\<forall>k \<in># rest. contents w1 k = contents w k" using fin unfolding rest by (auto simp: f(2))
  ultimately show thesis using that [of w1] by (simp add: c(1) adapter_free_def fr f(1))
qed

lemma var_owned:
  "mail_ok symbols contents vb s \<Longrightarrow> i < length (bc_vars s) \<Longrightarrow> bm_owns_handle (bc_vars s ! i) \<Longrightarrow>
    message_is_owned (Some (vb + i * sizeof_message, bc_vars s ! i)) \<and>
    good_ref symbols (contents (bc_pools s)) (bm_buffer_ref (bc_vars s ! i))"
  by (auto simp: mail_ok_def client_wf_def var_at_def good_vars_def)

lemma mail_step_no_letter:
  "length (bc_vars s) \<le> i \<or> \<not> bm_owns_handle (bc_vars s ! i) \<Longrightarrow> call \<in> {BRelease i, BPush i, BRead i off n} \<Longrightarrow>
    mail_step m a (mail_of contents s) call = (UT_EVENT_INVALID_ARGUMENT, mail_of contents s)"
  by (cases "i < length (bc_vars s)") (auto simp: mail_of_def)

lemma not_owned:
  "length (bc_vars s) \<le> i \<or> \<not> bm_owns_handle (bc_vars s ! i) \<Longrightarrow> \<not> message_is_owned (var_at vb s i)"
  by (auto simp: var_at_def message_is_owned_def)

lemma release_refines:
  assumes laws: "memory_buffer_laws lib contents" and ok: "mail_ok symbols contents vb s"
  shows "call_refines symbols lib contents vb s (BRelease i)"
proof (cases "length (bc_vars s) \<le> i \<or> \<not> bm_owns_handle (bc_vars s ! i)")
  case True
  have "buf_step (adapter_code symbols lib) vb s (BRelease i) = (UT_EVENT_INVALID_ARGUMENT, s)"
    using not_owned [OF True] by (simp add: ut_event_buffer_message_release_def)
  with ok mail_step_no_letter [OF True] show ?thesis by (intro call_refinesI [where s' = s]) simp_all
next
  case False
  then have i: "i < length (bc_vars s)" "bm_owns_handle (bc_vars s ! i)" by auto
  let ?m = "bc_vars s ! i" and ?a = "vb + i * sizeof_message"
  let ?rest = "handles_owned ((bc_vars s)[i := zero_message]) + items_held (buffer_items (bc_queue s))"
  have own: "message_is_owned (Some (?a, ?m))" "good_ref symbols (contents (bc_pools s)) (bm_buffer_ref ?m)"
    using var_owned [OF ok i] by simp_all
  have "held s = add_mset (handle_in (bm_buffer_ref ?m)) ?rest"
    using handles_lose [OF i zero_owns(1)] by (simp add: held_items)
  then have "add_mset (handle_in (bm_buffer_ref ?m)) ?rest = mset_set (dom (contents (bc_pools s)))"
    using ok by (simp add: mail_ok_def)
  moreover have "finite (dom (contents (bc_pools s)))" using ok by (simp add: mail_ok_def)
  ultimately obtain w1 where
    fr: "pc_free (adapter_code symbols lib) (bp_free (the (br_pool (bm_buffer_ref ?m)))) (bp_context (the (br_pool (bm_buffer_ref ?m))))
        (br_handle (bm_buffer_ref ?m)) (bc_pools s) = (UT_EVENT_OK, w1)"
    and w1: "finite (dom (contents w1))" "?rest = mset_set (dom (contents w1))" "\<forall>k \<in># ?rest. contents w1 k = contents (bc_pools s) k"
    using free_owned [OF laws own(2)] by metis
  let ?s = "(s\<lparr>bc_pools := w1\<rparr>)\<lparr>bc_vars := (bc_vars s)[i := zero_message]\<rparr>"
  have v: "var_at vb s i = Some (?a, ?m)" using i(1) by (simp add: var_at_def)
  have "buf_step (adapter_code symbols lib) vb s (BRelease i) = (UT_EVENT_OK, ?s)"
    using own(1) fr by (simp add: ut_event_buffer_message_release_def v Let_def set_var_def)
  moreover have same: "\<forall>k \<in># handles_owned ((bc_vars s)[i := zero_message]). contents w1 k = contents (bc_pools s) k"
    "\<forall>k \<in># items_held (buffer_items (bc_queue s)). contents w1 k = contents (bc_pools s) k"
    using w1(3) by auto
  have "mail_of contents ?s = ((fst (mail_of contents s))[i := None], snd (mail_of contents s))"
    using vars_cong(1) [OF same(1)] items_cong(1) [OF same(2)] by (simp add: mail_of_def map_update del: map_eq_conv)
  moreover have "mail_ok symbols contents vb ?s"
  proof -
    have "client_wf vb ?s" using client_wf_var [of vb "s\<lparr>bc_pools := w1\<rparr>" i zero_message] ok i(1) by (simp add: mail_ok_def)
    moreover have "good_vars symbols (contents w1) ((bc_vars s)[i := zero_message])"
      unfolding vars_cong(2) [OF same(1)] using ok by (intro good_vars_update) (simp_all add: mail_ok_def)
    moreover have "good_items symbols (contents w1) (buffer_items (bc_queue s))"
      unfolding items_cong(2) [OF same(2)] using ok by (simp add: mail_ok_def)
    ultimately show ?thesis using w1(1,2) by (simp add: mail_ok_def held_items)
  qed
  ultimately show ?thesis using i by (intro call_refinesI [where s' = ?s]) (simp_all add: mail_of_def)
qed

lemma push_refines:
  assumes ok: "mail_ok symbols contents vb s"
  shows "call_refines symbols lib contents vb s (BPush i)"
proof (cases "length (bc_vars s) \<le> i \<or> \<not> bm_owns_handle (bc_vars s ! i)")
  case True
  have "buf_step (adapter_code symbols lib) vb s (BPush i) = (UT_EVENT_INVALID_ARGUMENT, s)"
    using not_owned [OF True] by (simp add: ut_event_buffer_queue_push_move_def)
  with ok mail_step_no_letter [OF True] show ?thesis by (intro call_refinesI [where s' = s]) simp_all
next
  case False
  then have i: "i < length (bc_vars s)" "bm_owns_handle (bc_vars s ! i)" by auto
  let ?m = "bc_vars s ! i" and ?a = "vb + i * sizeof_message" and ?q = "bc_queue s" and ?C = "contents (bc_pools s)"
  have own: "message_is_owned (Some (?a, ?m))" "good_ref symbols ?C (bm_buffer_ref ?m)" using var_owned [OF ok i] by simp_all
  have q: "buffer_queue_wf ?q" using ok by (simp add: mail_ok_def client_wf_def)
  have v: "var_at vb s i = Some (?a, ?m)" using i(1) by (simp add: var_at_def)
  show ?thesis
  proof (cases "bq_count ?q = bq_capacity ?q")
    case True
    have "buf_step (adapter_code symbols lib) vb s (BPush i) = (UT_EVENT_FULL, s)"
      using push_move_full [OF q True own(1)] by (simp add: v set_var_same [OF v])
    with True i ok show ?thesis by (intro call_refinesI [where s' = s]) (simp_all add: mail_of_def)
  next
    case False
    then have "bq_count ?q < bq_capacity ?q" using q by (simp add: buffer_queue_wf_def)
    from push_move_ok [OF q this own(1)] obtain q' where push:
      "ut_event_buffer_queue_push_move (Some ?q) (Some (?a, ?m)) = (UT_EVENT_OK, Some q', Some (?a, zero_message))"
      "buffer_queue_wf q'" "bq_capacity q' = bq_capacity ?q" "buffer_items q' = buffer_items ?q @ [envelope_of ?m]" by blast
    let ?s = "(s\<lparr>bc_queue := q'\<rparr>)\<lparr>bc_vars := (bc_vars s)[i := zero_message]\<rparr>"
    have "buf_step (adapter_code symbols lib) vb s (BPush i) = (UT_EVENT_OK, ?s)" using push(1) by (simp add: v set_var_def)
    moreover have "mail_ok symbols contents vb ?s"
    proof -
      have "held ?s = held s"
        using handles_lose [OF i zero_owns(1)] by (simp add: held_items push(4) envelope_of_def)
      moreover have "client_wf vb ?s"
        using client_wf_var [of vb "s\<lparr>bc_queue := q'\<rparr>" i zero_message] client_wf_queue [OF _ push(2), of vb s] ok i(1)
        by (simp add: mail_ok_def)
      moreover have "good_vars symbols ?C ((bc_vars s)[i := zero_message])"
        using ok by (intro good_vars_update) (simp_all add: mail_ok_def)
      moreover have "good_items symbols ?C (buffer_items q')"
        using ok own(2) by (auto simp: mail_ok_def good_items_def push(4) envelope_of_def)
      ultimately show ?thesis using ok by (simp add: mail_ok_def)
    qed
    moreover have "mail_of contents ?s = ((fst (mail_of contents s))[i := None], snd (mail_of contents s) @ [the (var_letter ?C ?m)])"
      using i by (simp add: mail_of_def map_update push(4) var_letter_def)
    ultimately show ?thesis using i False push(3) by (intro call_refinesI [where s' = ?s]) (simp_all add: mail_of_def)
  qed
qed

lemma pop_refines:
  assumes ok: "mail_ok symbols contents vb s"
  shows "call_refines symbols lib contents vb s (BPop i)"
proof -
  let ?q = "bc_queue s" and ?a = "vb + i * sizeof_message" and ?C = "contents (bc_pools s)"
  have q: "buffer_queue_wf ?q" using ok by (simp add: mail_ok_def client_wf_def)
  consider (refused) "length (bc_vars s) \<le> i \<or> bm_owns_handle (bc_vars s ! i)"
    | (empty) "i < length (bc_vars s)" "\<not> bm_owns_handle (bc_vars s ! i)" "buffer_items ?q = []"
    | (popped) e es where "i < length (bc_vars s)" "\<not> bm_owns_handle (bc_vars s ! i)" "buffer_items ?q = e # es"
    by (metis list.exhaust not_less)
  then show ?thesis
  proof cases
    case refused
    then have "buf_step (adapter_code symbols lib) vb s (BPop i) = (UT_EVENT_INVALID_ARGUMENT, s)"
      by (auto simp: ut_event_buffer_queue_pop_move_def var_at_def set_var_def)
    moreover from refused have "mail_step n a (mail_of contents s) (BPop i) = (UT_EVENT_INVALID_ARGUMENT, mail_of contents s)" for n a
      by (cases "i < length (bc_vars s)") (auto simp: mail_of_def simp del: not_None_eq)
    ultimately show ?thesis using ok by (intro call_refinesI [where s' = s]) simp_all
  next
    case empty
    have v: "var_at vb s i = Some (?a, bc_vars s ! i)" using empty(1) by (simp add: var_at_def)
    have "bq_count ?q = 0" using empty(3) length_buffer_items [of ?q] by simp
    then have "buf_step (adapter_code symbols lib) vb s (BPop i) = (UT_EVENT_EMPTY, s)"
      using pop_move_empty [OF q _ empty(2), of ?a] by (simp add: v set_var_same [OF v])
    with empty ok show ?thesis by (intro call_refinesI [where s' = s]) (simp_all add: mail_of_def)
  next
    case popped
    have v: "var_at vb s i = Some (?a, bc_vars s ! i)" using popped(1) by (simp add: var_at_def)
    from pop_move_ok [OF q popped(3,2)] obtain q' where pop:
      "ut_event_buffer_queue_pop_move (Some ?q) (Some (?a, bc_vars s ! i)) = (UT_EVENT_OK, Some q', Some (?a, message_at ?a e))"
      "buffer_queue_wf q'" "bq_capacity q' = bq_capacity ?q" "buffer_items q' = es" "envelope_ok e" by blast
    let ?s = "(s\<lparr>bc_queue := q'\<rparr>)\<lparr>bc_vars := (bc_vars s)[i := message_at ?a e]\<rparr>"
    have "buf_step (adapter_code symbols lib) vb s (BPop i) = (UT_EVENT_OK, ?s)" using pop(1) by (simp add: v set_var_def)
    moreover have "mail_ok symbols contents vb ?s"
    proof -
      have "held ?s = held s"
        using handles_gain [of i "bc_vars s" "message_at ?a e"] popped by (simp add: held_items pop(4))
      moreover have "client_wf vb ?s"
        using client_wf_var [of vb "s\<lparr>bc_queue := q'\<rparr>" i "message_at ?a e"] client_wf_queue [OF _ pop(2), of vb s] ok popped(1) pop(5)
        by (simp add: mail_ok_def)
      moreover have "good_vars symbols ?C ((bc_vars s)[i := message_at ?a e])"
        using ok popped(3) by (intro good_vars_update) (simp_all add: mail_ok_def good_items_def)
      moreover have "good_items symbols ?C (buffer_items q')" using ok popped(3) by (simp add: mail_ok_def good_items_def pop(4))
      ultimately show ?thesis using ok by (simp add: mail_ok_def)
    qed
    moreover have "mail_of contents ?s = ((fst (mail_of contents s))[i := Some (letter_of ?C e)], map (letter_of ?C) es)"
      by (simp add: mail_of_def map_update pop(4))
    ultimately show ?thesis using popped pop(3) by (intro call_refinesI [where s' = ?s]) (simp_all add: mail_of_def)
  qed
qed

lemma free_all_items:
  assumes laws: "memory_buffer_laws lib contents"
  shows "good_items symbols (contents w) es \<Longrightarrow> finite (dom (contents w)) \<Longrightarrow>
    items_held es + rest = mset_set (dom (contents w)) \<Longrightarrow>
    \<exists>w1. free_all (adapter_code symbols lib) es w = (UT_EVENT_OK, [], w1) \<and> finite (dom (contents w1)) \<and>
      rest = mset_set (dom (contents w1)) \<and> (\<forall>k \<in># rest. contents w1 k = contents w k)"
proof (induction es arbitrary: w)
  case (Cons e es)
  have e: "good_ref symbols (contents w) (snd (snd e))" and es: "good_items symbols (contents w) es"
    using Cons.prems(1) by (simp_all add: good_items_def)
  have "add_mset (handle_in (snd (snd e))) (items_held es + rest) = mset_set (dom (contents w))" using Cons.prems(3) by simp
  from free_owned [OF laws e Cons.prems(2) this] obtain w1 where
    fr: "pc_free (adapter_code symbols lib) (bp_free (the (br_pool (snd (snd e))))) (bp_context (the (br_pool (snd (snd e)))))
        (br_handle (snd (snd e))) w = (UT_EVENT_OK, w1)"
    and w1: "finite (dom (contents w1))" "items_held es + rest = mset_set (dom (contents w1))"
      "\<forall>k \<in># items_held es + rest. contents w1 k = contents w k"
    by metis
  have "\<forall>k \<in># items_held es. contents w1 k = contents w k" using w1(3) by auto
  from items_cong(2) [OF this] es have "good_items symbols (contents w1) es" by simp
  from Cons.IH [OF this w1(1,2)] obtain w2 where
    w2: "free_all (adapter_code symbols lib) es w1 = (UT_EVENT_OK, [], w2)" "finite (dom (contents w2))"
      "rest = mset_set (dom (contents w2))" "\<forall>k \<in># rest. contents w2 k = contents w1 k"
    by blast
  moreover have "\<forall>k \<in># rest. contents w2 k = contents w k" using w2(4) w1(3) by simp
  ultimately show ?case using fr by (simp add: Let_def)
qed simp

lemma release_all_refines:
  assumes laws: "memory_buffer_laws lib contents" and ok: "mail_ok symbols contents vb s"
  shows "call_refines symbols lib contents vb s BReleaseAll"
proof -
  have q: "buffer_queue_wf (bc_queue s)" using ok by (simp add: mail_ok_def client_wf_def)
  have "items_held (buffer_items (bc_queue s)) + handles_owned (bc_vars s) = mset_set (dom (contents (bc_pools s)))"
    using ok by (simp add: mail_ok_def held_items add.commute)
  from free_all_items [OF laws _ _ this, of symbols] ok obtain w1 where
    w1: "free_all (adapter_code symbols lib) (buffer_items (bc_queue s)) (bc_pools s) = (UT_EVENT_OK, [], w1)"
      "finite (dom (contents w1))" "handles_owned (bc_vars s) = mset_set (dom (contents w1))"
      "\<forall>k \<in># handles_owned (bc_vars s). contents w1 k = contents (bc_pools s) k"
    by (auto simp: mail_ok_def)
  from release_all_free_all [OF q, of "adapter_code symbols lib" "bc_pools s"] w1(1) obtain Q where
    ra: "ut_event_buffer_queue_release_all (adapter_code symbols lib) (Some (bc_queue s)) (bc_pools s) = (UT_EVENT_OK, Some Q, w1)"
      "buffer_queue_wf Q" "bq_capacity Q = bq_capacity (bc_queue s)" "buffer_items Q = []"
    by auto
  let ?s = "(s\<lparr>bc_queue := Q\<rparr>)\<lparr>bc_pools := w1\<rparr>"
  have "buf_step (adapter_code symbols lib) vb s BReleaseAll = (UT_EVENT_OK, ?s)" using ra(1) by simp
  moreover have "mail_ok symbols contents vb ?s"
    using ok client_wf_queue [OF _ ra(2), of vb s] w1(2,3) vars_cong(2) [OF w1(4)]
    by (simp add: mail_ok_def held_items ra(4) good_items_def)
  moreover have "mail_of contents ?s = (fst (mail_of contents s), [])"
    using vars_cong(1) [OF w1(4)] by (simp add: mail_of_def ra(4) del: map_eq_conv)
  ultimately show ?thesis using ra(3) by (intro call_refinesI [where s' = ?s]) (simp_all add: mail_of_def)
qed

text \<open>A read within a letter gives its bytes, and any other is refused.\<close>

lemma read_letter:
  assumes laws: "memory_buffer_laws lib contents" and ok: "mail_ok symbols contents vb s"
    and i: "i < length (bc_vars s)" "fst (mail_of contents s) ! i = Some (e, src, bs)" and dest: "length dest = n"
  shows "\<exists>w1. contents w1 = contents (bc_pools s) \<and>
    ut_event_buffer_message_read (adapter_code symbols lib) (var_at vb s i) off dest n (bc_pools s) =
      (if off + n \<le> length bs then (UT_EVENT_OK, take n (drop off bs), w1) else (UT_EVENT_INVALID_ARGUMENT, dest, bc_pools s))"
proof -
  let ?m = "bc_vars s ! i" and ?a = "vb + i * sizeof_message" and ?r = "bm_buffer_ref (bc_vars s ! i)"
  have letter: "var_letter (contents (bc_pools s)) ?m = Some (e, src, bs)" using i by (simp add: mail_of_def)
  then have owns: "bm_owns_handle ?m" by (auto simp: var_letter_def split: if_splits)
  have own: "message_is_owned (Some (?a, ?m))" "good_ref symbols (contents (bc_pools s)) ?r" using var_owned [OF ok i(1) owns] by simp_all
  then obtain c where c: "br_pool ?r = Some (mb_event_buffer_pool symbols c)" "contents (bc_pools s) (handle_in ?r) = Some bs"
      "br_length ?r = length bs" "length bs \<le> size_max"
    using letter owns by (auto simp: good_ref_def var_letter_def letter_of_def envelope_of_def)
  have k: "handle_in ?r = (c, br_handle ?r)" by (simp add: handle_in_def c(1))
  have v: "var_at vb s i = Some (?a, ?m)" using i(1) by (simp add: var_at_def)
  have size: "off \<le> length bs \<Longrightarrow> size_sub (length bs) off = length bs - off" using c(4) by simp
  show ?thesis
  proof (cases "off + n \<le> length bs")
    case True
    obtain a d w1 where rd: "mb_read lib c (br_handle ?r) off n (bc_pools s) = (a, d, w1)"
      by (cases "mb_read lib c (br_handle ?r) off n (bc_pools s)") auto
    note law = read_law [OF laws rd, of bs]
    have "a = MB_OK" "d = take n (drop off bs)" "contents w1 = contents (bc_pools s)" using law c(2) k True by simp_all
    with True own(1) dest size show ?thesis
      by (intro exI [of _ w1]) (auto simp: ut_event_buffer_message_read_def v c(1,3) adapter_read_def rd Let_def)
  next
    case False
    then have "length bs < off \<or> size_sub (length bs) off < n" using size by (cases "off \<le> length bs") auto
    with False own(1) show ?thesis
      by (intro exI [of _ "bc_pools s"]) (simp add: ut_event_buffer_message_read_def v c(3))
  qed
qed

lemma read_refines:
  assumes laws: "memory_buffer_laws lib contents" and ok: "mail_ok symbols contents vb s"
  shows "call_refines symbols lib contents vb s (BRead i off n)"
proof (cases "length (bc_vars s) \<le> i \<or> \<not> bm_owns_handle (bc_vars s ! i)")
  case True
  have "buf_step (adapter_code symbols lib) vb s (BRead i off n) = (UT_EVENT_INVALID_ARGUMENT, s)"
    using not_owned [OF True] by (simp add: ut_event_buffer_message_read_def)
  with ok mail_step_no_letter [OF True] show ?thesis by (intro call_refinesI [where s' = s]) simp_all
next
  case False
  then have i: "i < length (bc_vars s)" by auto
  then obtain e src bs where l: "fst (mail_of contents s) ! i = Some (e, src, bs)"
    using False by (auto simp: mail_of_def var_letter_def letter_of_def envelope_of_def)
  from read_letter [OF laws ok i l, of "replicate n 0" n off] obtain w1 where w1: "contents w1 = contents (bc_pools s)"
    "ut_event_buffer_message_read (adapter_code symbols lib) (var_at vb s i) off (replicate n 0) n (bc_pools s) =
      (if off + n \<le> length bs then (UT_EVENT_OK, take n (drop off bs), w1) else (UT_EVENT_INVALID_ARGUMENT, replicate n 0, bc_pools s))"
    by auto
  have "buf_step (adapter_code symbols lib) vb s (BRead i off n) =
      (if off + n \<le> length bs then (UT_EVENT_OK, s\<lparr>bc_pools := w1\<rparr>) else (UT_EVENT_INVALID_ARGUMENT, s))"
    by (simp add: w1(2))
  moreover have "mail_step m a (mail_of contents s) (BRead i off n) =
      (if off + n \<le> length bs then UT_EVENT_OK else UT_EVENT_INVALID_ARGUMENT, mail_of contents s)" for m a
    using l i by (cases "mail_of contents s") (auto simp: mail_of_def)
  ultimately show ?thesis
    using mail_pools [where contents = contents, OF w1(1)] ok unfolding call_refines_def by (simp split: if_splits)
qed

lemma call_refines_all:
  "memory_buffer_laws lib contents \<Longrightarrow> symbols_ok symbols \<Longrightarrow> mail_ok symbols contents vb s \<Longrightarrow> adapter_call symbols call \<Longrightarrow>
    call_refines symbols lib contents vb s call"
  by (cases call) (simp_all only: create_refines release_refines push_refines pop_refines release_all_refines read_refines)

lemma mail_run_ok:
  assumes "memory_buffer_laws lib contents" "symbols_ok symbols"
  shows "mail_ok symbols contents vb s \<Longrightarrow> list_all (adapter_call symbols) calls \<Longrightarrow>
    mail_ok symbols contents vb (buf_run (adapter_code symbols lib) vb s calls) \<and>
    bq_capacity (bc_queue (buf_run (adapter_code symbols lib) vb s calls)) = bq_capacity (bc_queue s)"
proof (induction calls arbitrary: s)
  case (Cons call calls)
  let ?s = "snd (buf_step (adapter_code symbols lib) vb s call)"
  have "call_refines symbols lib contents vb s call" using Cons.prems assms by (intro call_refines_all) simp_all
  then have "mail_ok symbols contents vb ?s" "bq_capacity (bc_queue ?s) = bq_capacity (bc_queue s)"
    unfolding call_refines_def by (simp_all only: split_beta simp_thms)
  with Cons.IH [of ?s] Cons.prems(2) show ?case by simp
qed simp

text \<open>
  Property C35. Event buffers over memory buffers carry bytes and lose no memory. Start with envelopes that own
  nothing, a fresh queue and a library with no buffer in use, and create, release, push, pop and read in any
  order, through pools made by \<open>mb_event_buffer_pool\<close> for any contexts. If the library keeps what its header
  promises, every call does what it would do to variables and a queue of letters (event id, source id, bytes),
  with the answer of that call; the bytes of a letter are the contents the library has for its handle, and a
  read within them gives them. At every moment the buffers in use in the library are exactly those of the
  letters there are, one each: also when an arena is full, or a write is refused and the new handle is freed.
\<close>

theorem adapter_carries_letters:
  assumes "memory_buffer_laws lib contents" "symbols_ok symbols"
    and "ut_event_buffer_queue_init (Some q0) base storage (length storage) = (UT_EVENT_OK, Some q)"
    and "\<forall>m\<in>set vars. \<not> bm_owns_handle m" "contents w = Map.empty"
    and "list_all (adapter_call symbols) (calls @ [call])"
    and "s = buf_run (adapter_code symbols lib) vb \<lparr>bc_vars = vars, bc_queue = q, bc_pools = w\<rparr> calls"
    and "buf_step (adapter_code symbols lib) vb s call = (r, s')"
  shows "mail_step (bq_capacity q) (library_answer lib call (bc_pools s)) (mail_of contents s) call = (r, mail_of contents s') \<and>
    held s' = mset_set (dom (contents (bc_pools s'))) \<and>
    (\<forall>i e src bs off n dest. i < length (bc_vars s') \<and> fst (mail_of contents s') ! i = Some (e, src, bs) \<and>
       off + n \<le> length bs \<and> length dest = n \<longrightarrow>
       (\<exists>w1. ut_event_buffer_message_read (adapter_code symbols lib) (var_at vb s' i) off dest n (bc_pools s') =
          (UT_EVENT_OK, take n (drop off bs), w1)))"
proof -
  let ?s0 = "\<lparr>bc_vars = vars, bc_queue = q, bc_pools = w\<rparr>"
  note q = buffer_queue_init_wf [OF assms(3)]
  have "filter bm_owns_handle vars = []" using assms(4) by (simp add: filter_empty_conv)
  then have "mail_ok symbols contents vb ?s0"
    using q assms(4,5) by (simp add: mail_ok_def client_wf_def held_def good_vars_def good_items_def)
  with mail_run_ok [OF assms(1,2)] assms(6)
  have s: "mail_ok symbols contents vb s" "bq_capacity (bc_queue s) = bq_capacity q" by (auto simp: assms(7))
  have "call_refines symbols lib contents vb s call" using call_refines_all [OF assms(1,2) s(1)] assms(6) by simp
  then have s': "mail_ok symbols contents vb s'"
    "mail_step (bq_capacity q) (library_answer lib call (bc_pools s)) (mail_of contents s) call = (r, mail_of contents s')"
    unfolding call_refines_def assms(8) using s(2) by simp_all
  have "\<exists>w1. ut_event_buffer_message_read (adapter_code symbols lib) (var_at vb s' i) off dest n (bc_pools s') =
      (UT_EVENT_OK, take n (drop off bs), w1)"
    if "i < length (bc_vars s')" "fst (mail_of contents s') ! i = Some (e, src, bs)" "off + n \<le> length bs" "length dest = n"
    for i e src bs off n dest
    using read_letter [OF assms(1) s'(1) that(1,2,4), of off] that(3) by auto
  with s' show ?thesis by (auto simp: mail_ok_def)
qed

text \<open>An arena of four buffers of eight bytes: the contents of the handles in use, and the next handle.\<close>

definition small_arena :: "((ptr \<times> u32 \<Rightarrow> u8 list option) \<times> u32) memory_buffer" where
  "small_arena = \<lparr>
     mb_alloc = (\<lambda>c n (used, k). if k < 4 \<and> used (c, k) = None then (MB_OK, k, (used((c, k) \<mapsto> []), k + 1))
       else (MB_OUT_OF_MEMORY, 0, (used, k))),
     mb_free = (\<lambda>c h (used, k). if used (c, h) \<noteq> None then (MB_OK, (used((c, h) := None), k)) else (MB_INVALID_HANDLE, (used, k))),
     mb_write = (\<lambda>c h off bs (used, k). case used (c, h) of None \<Rightarrow> (MB_INVALID_HANDLE, (used, k))
       | Some xs \<Rightarrow> if 8 < off + length bs then (MB_OUT_OF_BOUNDS, (used, k))
           else (MB_OK, (used((c, h) \<mapsto> take off xs @ bs @ drop (off + length bs) xs), k))),
     mb_read = (\<lambda>c h off n (used, k). case used (c, h) of None \<Rightarrow> (MB_INVALID_HANDLE, [], (used, k))
       | Some xs \<Rightarrow> if length xs < off + n then (MB_OUT_OF_BOUNDS, [], (used, k)) else (MB_OK, take n (drop off xs), (used, k)))\<rparr>"

lemma small_arena_laws: "memory_buffer_laws small_arena fst"
proof -
  have "buffers (c, h) = Some xs \<Longrightarrow> \<exists>ys. buffers = buffers((c, h) \<mapsto> ys)" for buffers :: "ptr \<times> u32 \<Rightarrow> u8 list option" and c h xs
    by (metis fun_upd_triv)
  then show ?thesis
    unfolding memory_buffer_laws_def small_arena_def
    by (auto simp: MB_OK_def MB_OUT_OF_MEMORY_def MB_OUT_OF_BOUNDS_def split: if_splits option.splits)
qed

definition some_symbols :: adapter_symbols where
  "some_symbols = \<lparr>as_alloc = 16, as_free = 32, as_write = 48, as_read = 64\<rparr>"

theorem adapter_carries_letters_witness:
  "\<exists>s'. buf_step (adapter_code some_symbols small_arena) 64
      \<lparr>bc_vars = [zero_message, zero_message], bc_queue = empty_buffer_queue, bc_pools = (Map.empty, 1)\<rparr>
      (BCreate 0 (mb_event_buffer_pool some_symbols 8) 5 6 [1, 2]) = (UT_EVENT_OK, s') \<and>
    mail_of fst s' = ([Some (5, 6, [1, 2]), None], []) \<and> held s' = mset_set (dom (fst (bc_pools s')))"
proof -
  let ?lib = small_arena
  let ?s = "\<lparr>bc_vars = [zero_message, zero_message], bc_queue = empty_buffer_queue,
    bc_pools = (Map.empty :: ptr \<times> u32 \<Rightarrow> u8 list option, 1 :: u32)\<rparr>"
  let ?call = "BCreate 0 (mb_event_buffer_pool some_symbols 8) 5 6 [1, 2]"
  obtain r s' where step: "buf_step (adapter_code some_symbols ?lib) 64 ?s ?call = (r, s')" by fastforce
  have init: "ut_event_buffer_queue_init (Some empty_buffer_queue) 512 [zero_message, zero_message] (length [zero_message, zero_message]) =
      (UT_EVENT_OK, Some empty_buffer_queue)"
    by (simp add: ut_event_buffer_queue_init_def empty_buffer_queue_def size_max_def sizeof_message_def flip: replicate_two)
  have "symbols_ok some_symbols" "\<forall>m\<in>set [zero_message, zero_message]. \<not> bm_owns_handle m"
    "fst (Map.empty :: ptr \<times> u32 \<Rightarrow> u8 list option, 1 :: u32) = Map.empty" "list_all (adapter_call some_symbols) ([] @ [?call])"
    by (simp_all add: symbols_ok_def some_symbols_def adapter_call_def size_max_def mb_event_buffer_pool_def)
  from adapter_carries_letters [OF small_arena_laws this(1) init this(2-4) refl, of 64 r s'] step
  have "mail_step (bq_capacity empty_buffer_queue) (library_answer ?lib ?call (Map.empty, 1)) (mail_of fst ?s) ?call = (r, mail_of fst s')"
    "held s' = mset_set (dom (fst (bc_pools s')))" by simp_all
  moreover have "library_answer ?lib ?call (Map.empty, 1) = MB_OK"
    by (simp add: library_answer_def small_arena_def Let_def)
  moreover have "mail_of fst ?s = ([None, None], [])"
    by (simp add: mail_of_def empty_buffer_queue_def buffer_items_def)
  ultimately show ?thesis using step by auto
qed

end
