(* ===== verification/Json_Reader.thy ===== *)
theory Json_Reader
  imports Foundation_Prelude
begin

text \<open>
  The JSON reader of the workflow loader (\<open>domain_workflow_loader.c\<close>): a validator of the grammar, a
  tokenizer, and lookups in the tokens. The source is the bytes of the file as characters and the length
  the code passes along is the length of that list; a file has at most a megabyte, so a position is a plain
  natural number. A validating function that answers false is \<open>None\<close>, one that answers true is the
  position it has moved to. An index that the code gives as \<open>SIZE_MAX\<close> when there is none is an option.
\<close>

section \<open>Characters\<close>

definition json_is_space :: "char \<Rightarrow> bool" where
  "json_is_space c \<longleftrightarrow> c = CHR '' '' \<or> c = CHR 0x09 \<or> c = CHR 0x0D \<or> c = CHR 0x0A"

definition json_is_delimiter :: "char \<Rightarrow> bool" where
  "json_is_delimiter c \<longleftrightarrow> json_is_space c \<or> c = CHR '','' \<or> c = CHR '']'' \<or> c = CHR ''}''"

abbreviation code :: "char \<Rightarrow> nat" where
  "code \<equiv> of_char"

definition is_digit :: "char \<Rightarrow> bool" where
  "is_digit c \<longleftrightarrow> code CHR ''0'' \<le> code c \<and> code c \<le> code CHR ''9''"

definition json_is_hex :: "char \<Rightarrow> bool" where
  "json_is_hex c \<longleftrightarrow> is_digit c \<or> code CHR ''a'' \<le> code c \<and> code c \<le> code CHR ''f'' \<or>
     code CHR ''A'' \<le> code c \<and> code c \<le> code CHR ''F''"

text \<open>\<open>strchr\<close> finds the terminating NUL of the literal as well.\<close>

definition is_escape :: "char \<Rightarrow> bool" where
  "is_escape c \<longleftrightarrow> c \<in> {CHR 0x22, CHR 0x5C, CHR ''/'', CHR ''b'', CHR ''f'', CHR ''n'', CHR ''r'', CHR ''t''} \<or> c = CHR 0x00"

abbreviation quote :: char where "quote \<equiv> CHR 0x22"
abbreviation backslash :: char where "backslash \<equiv> CHR 0x5C"

section \<open>Validation\<close>

text \<open>The position after the longest run of characters that pass a test.\<close>

function skip_while :: "(char \<Rightarrow> bool) \<Rightarrow> string \<Rightarrow> nat \<Rightarrow> nat" where
  "skip_while P source position =
     (if position < length source \<and> P (source ! position) then skip_while P source (position + 1) else position)"
  by pat_completeness auto
termination by (relation "measure (\<lambda>(P, source, position). length source - position)") auto

declare skip_while.simps [simp del]

definition json_skip_space :: "string \<Rightarrow> nat \<Rightarrow> nat" where
  "json_skip_space = skip_while json_is_space"

text \<open>The loop over the four digits of a unicode escape; it starts at the \<open>u\<close>.\<close>

fun hex_digits :: "nat \<Rightarrow> string \<Rightarrow> nat \<Rightarrow> nat option" where
  "hex_digits 0 source position = Some position"
| "hex_digits (Suc n) source position =
     (if length source \<le> position + 1 \<or> \<not> json_is_hex (source ! (position + 1)) then None
      else hex_digits n source (position + 1))"

lemma hex_digits_advance: "hex_digits n source p = Some q \<Longrightarrow> q = p + n"
  by (induction n arbitrary: p) (fastforce split: if_splits)+

function string_loop :: "string \<Rightarrow> nat \<Rightarrow> nat option" where
  "string_loop source position =
     (if position < length source then
        if source ! position = quote then Some (position + 1)
        else if source ! position = backslash then
          if length source \<le> position + 1 then None
          else if source ! (position + 1) = CHR ''u'' then
            (case hex_digits 4 source (position + 1) of None \<Rightarrow> None | Some p \<Rightarrow> string_loop source (p + 1))
          else if \<not> is_escape (source ! (position + 1)) then None
          else string_loop source (position + 2)
        else if code (source ! position) < 32 then None
        else string_loop source (position + 1)
      else None)"
  by pat_completeness auto
termination
  by (relation "measure (\<lambda>(source, position). length source - position)") (auto dest: hex_digits_advance)

declare string_loop.simps [simp del]

definition json_validate_string :: "string \<Rightarrow> nat \<Rightarrow> nat option" where
  "json_validate_string source position =
     (if length source \<le> position \<or> source ! position \<noteq> quote then None else string_loop source (position + 1))"

definition json_consume_integer :: "string \<Rightarrow> nat \<Rightarrow> nat option" where
  "json_consume_integer source position =
     (let index = (if position < length source \<and> source ! position = CHR ''-'' then position + 1 else position) in
      if length source \<le> index then None
      else if source ! index = CHR ''0'' then Some (index + 1)
      else if code CHR ''1'' \<le> code (source ! index) \<and> code (source ! index) \<le> code CHR ''9''
      then Some (skip_while is_digit source (index + 1))
      else None)"

definition json_consume_fraction :: "string \<Rightarrow> nat \<Rightarrow> nat option" where
  "json_consume_fraction source position =
     (if length source \<le> position \<or> source ! position \<noteq> CHR ''.'' then Some position
      else let index = position + 1 in
        if length source \<le> index \<or> \<not> is_digit (source ! index) then None
        else Some (skip_while is_digit source index))"

definition json_consume_exponent :: "string \<Rightarrow> nat \<Rightarrow> nat option" where
  "json_consume_exponent source position =
     (if length source \<le> position \<or> source ! position \<noteq> CHR ''e'' \<and> source ! position \<noteq> CHR ''E'' then Some position
      else
        let index = position + 1;
            index = (if index < length source \<and> (source ! index = CHR ''+'' \<or> source ! index = CHR ''-'')
                     then index + 1 else index)
        in if length source \<le> index \<or> \<not> is_digit (source ! index) then None
           else Some (skip_while is_digit source index))"

definition json_validate_number :: "string \<Rightarrow> nat \<Rightarrow> nat option" where
  "json_validate_number source position =
     (case json_consume_integer source position of None \<Rightarrow> None | Some p \<Rightarrow>
      (case json_consume_fraction source p of None \<Rightarrow> None | Some q \<Rightarrow> json_consume_exponent source q))"

text \<open>The loop over the literals: the first one that the source has at the position.\<close>

fun validate_literal :: "string list \<Rightarrow> string \<Rightarrow> nat \<Rightarrow> nat option" where
  "validate_literal [] source position = None"
| "validate_literal (l # ls) source position =
     (if length l \<le> length source - position \<and> take (length l) (drop position source) = l
      then Some (position + length l) else validate_literal ls source position)"

lemma skip_while_ge: "p \<le> skip_while P source p"
proof (induction "length source - p" arbitrary: p rule: less_induct)
  case less
  have "p < length source \<Longrightarrow> p + 1 \<le> skip_while P source (p + 1)" by (rule less) simp
  then show ?case by (subst skip_while.simps) (simp add: Suc_leD)
qed

lemma string_loop_advance: "string_loop source p = Some q \<Longrightarrow> p < q"
proof (induction "length source - p" arbitrary: p rule: less_induct)
  case less
  have more: "p < q" if "string_loop source r = Some q" "p < r" for r
  proof (cases "r < length source")
    case True
    then have "length source - r < length source - p" using that(2) by (intro diff_less_mono2) simp_all
    from less.hyps [OF this that(1)] that(2) show ?thesis by simp
  next
    case False
    with that show ?thesis by (simp add: string_loop.simps [of source r])
  qed
  show ?case
    using less.prems
    by (subst (asm) string_loop.simps) (auto split: if_splits option.splits dest!: hex_digits_advance dest: more)
qed

lemma validate_string_advance: "json_validate_string source p = Some q \<Longrightarrow> p < q"
  by (auto simp: json_validate_string_def dest!: string_loop_advance split: if_splits)

lemma consume_integer_advance: "json_consume_integer source p = Some q \<Longrightarrow> p < q"
  using skip_while_ge [of "Suc p" is_digit source] skip_while_ge [of "Suc (Suc p)" is_digit source]
  by (auto simp: json_consume_integer_def Let_def split: if_splits)

lemma consume_fraction_advance: "json_consume_fraction source p = Some q \<Longrightarrow> p \<le> q"
  using skip_while_ge [of "Suc p" is_digit source]
  by (auto simp: json_consume_fraction_def Let_def split: if_splits)

lemma consume_exponent_advance: "json_consume_exponent source p = Some q \<Longrightarrow> p \<le> q"
  using skip_while_ge [of "Suc p" is_digit source] skip_while_ge [of "Suc (Suc p)" is_digit source]
  by (auto simp: json_consume_exponent_def Let_def split: if_splits)

lemma validate_number_advance: "json_validate_number source p = Some q \<Longrightarrow> p < q"
  by (auto simp: json_validate_number_def split: option.splits
      dest!: consume_integer_advance consume_fraction_advance consume_exponent_advance)

lemma validate_literal_advance: "validate_literal ls source p = Some q \<Longrightarrow> [] \<notin> set ls \<Longrightarrow> p < q"
  by (induction ls) (auto split: if_splits)

definition literals :: "string list" where
  "literals = [''true'', ''false'', ''null'']"

text \<open>
  A value, an array after its bracket, an object after its brace, and the loops over elements and members.
  The position moves on in every round, which the termination proof shows first for runs that end.
\<close>

function json_validate_value :: "string \<Rightarrow> nat \<Rightarrow> nat \<Rightarrow> nat option"
  and json_validate_array :: "string \<Rightarrow> nat \<Rightarrow> nat \<Rightarrow> nat option"
  and json_validate_object :: "string \<Rightarrow> nat \<Rightarrow> nat \<Rightarrow> nat option"
  and array_loop :: "string \<Rightarrow> nat \<Rightarrow> nat \<Rightarrow> nat option"
  and object_loop :: "string \<Rightarrow> nat \<Rightarrow> nat \<Rightarrow> nat option" where
  "json_validate_value source position depth =
     (if 64 < depth \<or> length source \<le> position then None
      else if source ! position = CHR ''{'' then json_validate_object source position depth
      else if source ! position = CHR ''['' then json_validate_array source position depth
      else if source ! position = quote then json_validate_string source position
      else if source ! position = CHR ''-'' \<or> is_digit (source ! position) then json_validate_number source position
      else validate_literal literals source position)"
| "json_validate_array source position depth =
     (let p = json_skip_space source (position + 1) in
      if p < length source \<and> source ! p = CHR '']'' then Some (p + 1)
      else if p < length source then array_loop source p depth else None)"
| "json_validate_object source position depth =
     (let p = json_skip_space source (position + 1) in
      if p < length source \<and> source ! p = CHR ''}'' then Some (p + 1)
      else if p < length source then object_loop source p depth else None)"
| "array_loop source position depth =
     (if position < length source then
        case json_validate_value source position (depth + 1) of
          None \<Rightarrow> None
        | Some p \<Rightarrow>
            (let q = json_skip_space source p in
             if q < length source \<and> source ! q = CHR '','' then array_loop source (json_skip_space source (q + 1)) depth
             else if q < length source \<and> source ! q = CHR '']'' then Some (q + 1)
             else None)
      else None)"
| "object_loop source position depth =
     (if position < length source then
        case json_validate_string source position of
          None \<Rightarrow> None
        | Some p \<Rightarrow>
            (let q = json_skip_space source p in
             if length source \<le> q \<or> source ! q \<noteq> CHR '':'' then None
             else
               case json_validate_value source (json_skip_space source (q + 1)) (depth + 1) of
                 None \<Rightarrow> None
               | Some p \<Rightarrow>
                   (let q = json_skip_space source p in
                    if q < length source \<and> source ! q = CHR '','' then object_loop source (json_skip_space source (q + 1)) depth
                    else if q < length source \<and> source ! q = CHR ''}'' then Some (q + 1)
                    else None))
      else None)"
  by pat_completeness auto

lemma skip_space_ge: "p \<le> json_skip_space source p"
  by (simp add: json_skip_space_def skip_while_ge)

lemma skip_space_less: "p < q \<Longrightarrow> p < json_skip_space source q"
  using skip_space_ge [of q source] by simp

lemma literals_nonempty: "[] \<notin> set literals"
  by (simp add: literals_def)

abbreviation "reads \<equiv> json_validate_value_json_validate_array_json_validate_object_array_loop_object_loop_dom"

lemma value_advance_partial:
  "reads (Inl (Inl (s1, p1, d1))) \<Longrightarrow> json_validate_value s1 p1 d1 = Some q1 \<Longrightarrow> p1 < q1"
  "reads (Inl (Inr (s2, p2, d2))) \<Longrightarrow> json_validate_array s2 p2 d2 = Some q2 \<Longrightarrow> p2 < q2"
  "reads (Inr (Inl (s3, p3, d3))) \<Longrightarrow> json_validate_object s3 p3 d3 = Some q3 \<Longrightarrow> p3 < q3"
  "reads (Inr (Inr (Inl (s4, p4, d4)))) \<Longrightarrow> array_loop s4 p4 d4 = Some q4 \<Longrightarrow> p4 < q4"
  "reads (Inr (Inr (Inr (s5, p5, d5)))) \<Longrightarrow> object_loop s5 p5 d5 = Some q5 \<Longrightarrow> p5 < q5"
proof (induction s1 p1 d1 and s2 p2 d2 and s3 p3 d3 and s4 p4 d4 and s5 p5 d5 arbitrary: q1 and q2 and q3 and q4 and q5
    rule: json_validate_value_json_validate_array_json_validate_object_array_loop_object_loop.pinduct)
  case (1 source p d)
  then show ?case
    by (auto simp: json_validate_value.psimps split: if_splits
        dest: validate_string_advance validate_number_advance validate_literal_advance [OF _ literals_nonempty])
next
  case (2 source p d)
  let ?r = "json_skip_space source (p + 1)"
  have "p < ?r" by (rule skip_space_less) simp
  moreover from "2.prems" have "q2 = ?r + 1 \<or>
      \<not> (?r < length source \<and> source ! ?r = CHR '']'') \<and> ?r < length source \<and> array_loop source ?r d = Some q2"
    by (simp add: json_validate_array.psimps [OF "2.hyps"] Let_def split: if_splits)
  moreover note "2.IH" [OF refl]
  ultimately show ?case by force
next
  case (3 source p d)
  let ?r = "json_skip_space source (p + 1)"
  have "p < ?r" by (rule skip_space_less) simp
  moreover from "3.prems" have "q3 = ?r + 1 \<or>
      \<not> (?r < length source \<and> source ! ?r = CHR ''}'') \<and> ?r < length source \<and> object_loop source ?r d = Some q3"
    by (simp add: json_validate_object.psimps [OF "3.hyps"] Let_def split: if_splits)
  moreover note "3.IH" [OF refl]
  ultimately show ?case by force
next
  case (4 source p d)
  from "4.prems" obtain x where x: "p < length source" "json_validate_value source p (d + 1) = Some x"
    by (auto simp: array_loop.psimps [OF "4.hyps"] split: if_splits option.splits)
  let ?y = "json_skip_space source x"
  have y: "p < ?y" using "4.IH"(1) [OF x] by (rule skip_space_less)
  from "4.prems" x have "q4 = ?y + 1 \<or> ?y < length source \<and> source ! ?y = CHR '','' \<and>
      array_loop source (json_skip_space source (?y + 1)) d = Some q4"
    by (simp add: array_loop.psimps [OF "4.hyps"] Let_def split: if_splits)
  with "4.IH"(2) [OF x refl] y skip_space_less [of p "?y + 1" source] show ?case by force
next
  case (5 source p d)
  from "5.prems" obtain x where x: "p < length source" "json_validate_string source p = Some x"
    by (auto simp: object_loop.psimps [OF "5.hyps"] split: if_splits option.splits)
  let ?y = "json_skip_space source x"
  let ?v = "json_skip_space source (?y + 1)"
  have y: "p < ?v" using validate_string_advance [OF x(2)] skip_space_less [of p x source] skip_space_less [of p "?y + 1" source]
    by simp
  from "5.prems" x obtain z where z: "\<not> (length source \<le> ?y \<or> source ! ?y \<noteq> CHR '':'')"
      "json_validate_value source ?v (d + 1) = Some z"
    by (auto simp: object_loop.psimps [OF "5.hyps"] Let_def split: if_splits option.splits)
  let ?w = "json_skip_space source z"
  have w: "p < ?w" using "5.IH"(1) [OF x refl z] y skip_space_ge [of z source] by simp
  from "5.prems" x z have "q5 = ?w + 1 \<or> ?w < length source \<and> source ! ?w = CHR '','' \<and>
      object_loop source (json_skip_space source (?w + 1)) d = Some q5"
    by (simp add: object_loop.psimps [OF "5.hyps"] Let_def split: if_splits)
  with "5.IH"(2) [OF x refl z refl] w skip_space_less [of p "?w + 1" source] show ?case by force
qed

termination json_validate_value
  apply (relation "measure (\<lambda>a. case a of
    Inl (Inl (s, p, d)) \<Rightarrow> 3 * (length s - p) + 1
  | Inl (Inr (s, p, d)) \<Rightarrow> 3 * (length s - p)
  | Inr (Inl (s, p, d)) \<Rightarrow> 3 * (length s - p)
  | Inr (Inr (Inl (s, p, d))) \<Rightarrow> 3 * (length s - p) + 2
  | Inr (Inr (Inr (s, p, d))) \<Rightarrow> 3 * (length s - p) + 2)")
  apply auto
  subgoal for s p using skip_space_less [of p "Suc p" s] by arith
  subgoal for s p using skip_space_less [of p "Suc p" s] by arith
  subgoal for s p d x
    using value_advance_partial(1) [of s p "Suc d" x] skip_space_less [of p x s]
      skip_space_less [of p "Suc (json_skip_space s x)" s] by arith
  subgoal for s p x
    using validate_string_advance [of s p x] skip_space_less [of p x s]
      skip_space_less [of p "Suc (json_skip_space s x)" s] by arith
  subgoal for s p d x z
    using validate_string_advance [of s p x] skip_space_less [of p x s]
      skip_space_less [of p "Suc (json_skip_space s x)" s]
      value_advance_partial(1) [of s "json_skip_space s (Suc (json_skip_space s x))" "Suc d" z]
      skip_space_less [of p z s] skip_space_less [of p "Suc (json_skip_space s z)" s] by arith
  done

declare json_validate_value.simps [simp del] json_validate_array.simps [simp del] json_validate_object.simps [simp del]
  array_loop.simps [simp del] object_loop.simps [simp del]

definition json_validate_document :: "string \<Rightarrow> bool" where
  "json_validate_document source =
     (case json_validate_value source (json_skip_space source 0) 0 of
        None \<Rightarrow> False
      | Some p \<Rightarrow> json_skip_space source p = length source)"

section \<open>Tokens\<close>

datatype json_token_type =
  JSON_TOKEN_UNDEFINED | JSON_TOKEN_OBJECT | JSON_TOKEN_ARRAY | JSON_TOKEN_STRING | JSON_TOKEN_PRIMITIVE

record json_token =
  tk_type :: json_token_type
  tk_start :: nat
  tk_end :: nat
  tk_child_count :: nat
  tk_parent :: "nat option"

text \<open>The token array has \<open>capacity\<close> places, of which \<open>count\<close> are in use.\<close>

record json_parser =
  js_tokens :: "json_token list"
  js_capacity :: nat
  js_count :: nat
  js_current_parent :: "nat option"

definition set_end :: "nat \<Rightarrow> nat \<Rightarrow> json_parser \<Rightarrow> json_parser" where
  "set_end index position parser =
     parser\<lparr>js_tokens := (js_tokens parser)[index := (js_tokens parser ! index)\<lparr>tk_end := position\<rparr>]\<rparr>"

definition json_allocate_token :: "json_parser \<Rightarrow> json_token_type \<Rightarrow> nat \<Rightarrow> nat option \<times> json_parser" where
  "json_allocate_token parser kind start =
     (if js_count parser < js_capacity parser then
        let index = js_count parser;
            token = \<lparr>tk_type = kind, tk_start = start, tk_end = 0, tk_child_count = 0, tk_parent = js_current_parent parser\<rparr>;
            tokens = (js_tokens parser)[index := token];
            tokens = (case js_current_parent parser of
                        None \<Rightarrow> tokens
                      | Some k \<Rightarrow> tokens[k := (tokens ! k)\<lparr>tk_child_count := tk_child_count (tokens ! k) + 1\<rparr>])
        in (Some index, parser\<lparr>js_count := index + 1, js_tokens := tokens\<rparr>)
      else (None, parser))"

text \<open>The scan of a string for its closing quote.\<close>

function string_end :: "string \<Rightarrow> bool \<Rightarrow> nat \<Rightarrow> nat option" where
  "string_end source escaped index =
     (if index < length source then
        if escaped then string_end source False (index + 1)
        else if source ! index = backslash then string_end source True (index + 1)
        else if source ! index = quote then Some index
        else if code (source ! index) < 32 then None
        else string_end source False (index + 1)
      else None)"
  by pat_completeness auto
termination by (relation "measure (\<lambda>(source, escaped, index). length source - index)") auto

declare string_end.simps [simp del]

definition json_parse_string :: "string \<Rightarrow> nat \<Rightarrow> json_parser \<Rightarrow> (nat \<times> json_parser) option" where
  "json_parse_string source position parser =
     (case json_allocate_token parser JSON_TOKEN_STRING (position + 1) of
        (None, _) \<Rightarrow> None
      | (Some token_index, parser) \<Rightarrow>
          (case string_end source False (position + 1) of
             None \<Rightarrow> None
           | Some index \<Rightarrow> Some (index, set_end token_index index parser)))"

text \<open>The end of a primitive, or none if it runs into a control character or a colon.\<close>

function primitive_end :: "string \<Rightarrow> nat \<Rightarrow> nat option" where
  "primitive_end source index =
     (if index < length source \<and> \<not> json_is_delimiter (source ! index) then
        if code (source ! index) < 32 \<or> source ! index = CHR '':'' then None else primitive_end source (index + 1)
      else Some index)"
  by pat_completeness auto
termination by (relation "measure (\<lambda>(source, index). length source - index)") auto

declare primitive_end.simps [simp del]

definition json_parse_primitive :: "string \<Rightarrow> nat \<Rightarrow> json_parser \<Rightarrow> (nat \<times> json_parser) option" where
  "json_parse_primitive source position parser =
     (case primitive_end source position of
        None \<Rightarrow> None
      | Some e \<Rightarrow>
          if e = position then None
          else
            (case json_allocate_token parser JSON_TOKEN_PRIMITIVE position of
               (None, _) \<Rightarrow> None
             | (Some token_index, parser) \<Rightarrow> Some (e - 1, set_end token_index e parser)))"

definition json_close_container :: "json_parser \<Rightarrow> json_token_type \<Rightarrow> nat \<Rightarrow> json_parser option" where
  "json_close_container parser kind e =
     (case js_current_parent parser of
        None \<Rightarrow> None
      | Some current \<Rightarrow>
          if tk_type (js_tokens parser ! current) \<noteq> kind then None
          else Some ((set_end current (e + 1) parser)\<lparr>js_current_parent := tk_parent (js_tokens parser ! current)\<rparr>))"

definition json_tokenize_at :: "string \<Rightarrow> nat \<Rightarrow> json_parser \<Rightarrow> (nat \<times> json_parser) option" where
  "json_tokenize_at source position parser =
     (let c = source ! position in
      if c = CHR ''{'' \<or> c = CHR ''['' then
        (case json_allocate_token parser (if c = CHR ''{'' then JSON_TOKEN_OBJECT else JSON_TOKEN_ARRAY) position of
           (None, _) \<Rightarrow> None
         | (Some token_index, parser) \<Rightarrow> Some (position, parser\<lparr>js_current_parent := Some token_index\<rparr>))
      else if c = CHR ''}'' then map_option (Pair position) (json_close_container parser JSON_TOKEN_OBJECT position)
      else if c = CHR '']'' then map_option (Pair position) (json_close_container parser JSON_TOKEN_ARRAY position)
      else if c = quote then json_parse_string source position parser
      else if json_is_space c \<or> c = CHR '':'' \<or> c = CHR '','' then Some (position, parser)
      else json_parse_primitive source position parser)"

lemma string_end_ge: "string_end source escaped p = Some q \<Longrightarrow> p \<le> q"
  by (induction source escaped p rule: string_end.induct)
    (subst (asm) (2) string_end.simps, fastforce split: if_splits dest: Suc_leD)

lemma primitive_end_ge: "primitive_end source p = Some q \<Longrightarrow> p \<le> q"
  by (induction source p rule: primitive_end.induct)
    (subst (asm) (2) primitive_end.simps, fastforce split: if_splits dest: Suc_leD)

lemma tokenize_at_ge: "json_tokenize_at source p parser = Some (q, parser') \<Longrightarrow> p \<le> q"
  by (auto simp: json_tokenize_at_def json_parse_string_def json_parse_primitive_def Let_def
      split: if_splits option.splits prod.splits dest!: string_end_ge primitive_end_ge)

function tokenize_loop :: "string \<Rightarrow> nat \<Rightarrow> json_parser \<Rightarrow> json_parser option" where
  "tokenize_loop source index parser =
     (if index < length source then
        (case json_tokenize_at source index parser of
           None \<Rightarrow> None
         | Some (p, parser') \<Rightarrow> tokenize_loop source (p + 1) parser')
      else Some parser)"
  by pat_completeness auto
termination
  by (relation "measure (\<lambda>(source, index, parser). length source - index)") (auto dest!: tokenize_at_ge)

declare tokenize_loop.simps [simp del]

definition json_tokenize :: "string \<Rightarrow> json_parser \<Rightarrow> json_parser option" where
  "json_tokenize source parser =
     (case tokenize_loop source 0 parser of
        None \<Rightarrow> None
      | Some p \<Rightarrow> if js_current_parent p = None \<and> 0 < js_count p \<and> tk_parent (js_tokens p ! 0) = None then Some p else None)"

section \<open>Lookups\<close>

text \<open>What a token spans in the source.\<close>

definition token_length :: "json_token \<Rightarrow> nat" where
  "token_length t = size_sub (tk_end t) (tk_start t)"

definition token_text :: "string \<Rightarrow> json_token \<Rightarrow> string" where
  "token_text source t = take (token_length t) (drop (tk_start t) source)"

definition json_token_equals :: "string \<Rightarrow> json_token \<Rightarrow> string \<Rightarrow> bool" where
  "json_token_equals source t expected \<longleftrightarrow>
     tk_type t = JSON_TOKEN_STRING \<and> length expected = token_length t \<and> token_text source t = expected"

text \<open>The loop ends at the second match; then there is no value.\<close>

fun object_find_loop :: "(nat \<Rightarrow> bool) \<Rightarrow> nat list \<Rightarrow> nat option \<Rightarrow> nat option" where
  "object_find_loop matches [] result = result"
| "object_find_loop matches (index # rest) result =
     (if matches index
      then (if result = None then object_find_loop matches rest (Some (index + 1)) else None)
      else object_find_loop matches rest result)"

definition json_object_find :: "string \<Rightarrow> json_token list \<Rightarrow> nat \<Rightarrow> nat \<Rightarrow> string \<Rightarrow> nat option" where
  "json_object_find source tokens token_count object_index key =
     (if token_count \<le> object_index \<or> tk_type (tokens ! object_index) \<noteq> JSON_TOKEN_OBJECT then None
      else object_find_loop
             (\<lambda>index. tk_parent (tokens ! index) = Some object_index \<and> json_token_equals source (tokens ! index) key \<and>
                tk_parent (tokens ! (index + 1)) = Some object_index)
             [object_index + 1..<token_count - 1] None)"

fun array_at_loop :: "(nat \<Rightarrow> bool) \<Rightarrow> nat list \<Rightarrow> nat \<Rightarrow> nat \<Rightarrow> nat option" where
  "array_at_loop is_child [] element_index found = None"
| "array_at_loop is_child (index # rest) element_index found =
     (if is_child index
      then (if found = element_index then Some index else array_at_loop is_child rest element_index (found + 1))
      else array_at_loop is_child rest element_index found)"

definition json_array_at :: "json_token list \<Rightarrow> nat \<Rightarrow> nat \<Rightarrow> nat \<Rightarrow> nat option" where
  "json_array_at tokens token_count array_index element_index =
     (if token_count \<le> array_index \<or> tk_type (tokens ! array_index) \<noteq> JSON_TOKEN_ARRAY then None
      else array_at_loop (\<lambda>index. tk_parent (tokens ! index) = Some array_index) [array_index + 1..<token_count]
             element_index 0)"

text \<open>
  \<open>strtoull\<close> in base 10, on a string without NUL: leading white space, a sign, digits; the value, whether
  it is out of range, and the rest of the string. Without digits the rest is the whole string.
\<close>

definition is_c_space :: "char \<Rightarrow> bool" where
  "is_c_space c \<longleftrightarrow> c = CHR '' '' \<or> 9 \<le> code c \<and> code c \<le> 13"

definition decimal_value :: "string \<Rightarrow> nat" where
  "decimal_value = foldl (\<lambda>n c. 10 * n + (code c - code CHR ''0'')) 0"

definition strtoull :: "string \<Rightarrow> u64 \<times> bool \<times> string" where
  "strtoull s =
     (let t = dropWhile is_c_space s;
          negative = (t \<noteq> [] \<and> hd t = CHR ''-'');
          t = (if t \<noteq> [] \<and> (hd t = CHR ''-'' \<or> hd t = CHR ''+'') then tl t else t);
          digits = takeWhile is_digit t; n = decimal_value digits
      in if digits = [] then (0, False, s)
         else if 2 ^ 64 \<le> n then (uint64_max, True, dropWhile is_digit t)
         else (if negative then - of_nat n else of_nat n, False, dropWhile is_digit t))"

definition json_read_u64 :: "string \<Rightarrow> json_token \<Rightarrow> u64 option" where
  "json_read_u64 source t =
     (let n = token_length t in
      if tk_type t \<noteq> JSON_TOKEN_PRIMITIVE \<or> n = 0 \<or> 32 \<le> n then None
      else
        let buffer = takeWhile (\<lambda>c. c \<noteq> CHR 0x00) (token_text source t);
            (v, out_of_range, rest) = strtoull buffer
        in if out_of_range \<or> rest = buffer \<or> rest \<noteq> [] \<or> buffer ! 0 = CHR ''-'' then None else Some v)"

text \<open>
  The text \<open>json_copy_string\<close> copies, if it copies one; the allocation is the caller's, \<open>Workflow_Loader\<close>.
\<close>

definition string_to_copy :: "string \<Rightarrow> json_token \<Rightarrow> string option" where
  "string_to_copy source t =
     (if tk_type t = JSON_TOKEN_STRING \<and> 0 < token_length t \<and> backslash \<notin> set (token_text source t)
      then Some (token_text source t) else None)"

definition json_object_u32 :: "string \<Rightarrow> json_token list \<Rightarrow> nat \<Rightarrow> nat \<Rightarrow> string \<Rightarrow> u32 option" where
  "json_object_u32 source tokens token_count object_index key =
     (case json_object_find source tokens token_count object_index key of
        None \<Rightarrow> None
      | Some k \<Rightarrow>
          (case json_read_u64 source (tokens ! k) of
             None \<Rightarrow> None
           | Some v \<Rightarrow> if v \<le> ucast uint32_max then Some (ucast v) else None))"

definition json_object_u64 :: "string \<Rightarrow> json_token list \<Rightarrow> nat \<Rightarrow> nat \<Rightarrow> string \<Rightarrow> u64 option" where
  "json_object_u64 source tokens token_count object_index key =
     (case json_object_find source tokens token_count object_index key of
        None \<Rightarrow> None
      | Some k \<Rightarrow> json_read_u64 source (tokens ! k))"

end
