(* ===== verification/Domain_Workflow.thy ===== *)
theory Domain_Workflow
  imports Unit_Mock
begin

text \<open>
  Workflow definitions (\<open>domain_workflow.h\<close>, \<open>domain_workflow.c\<close>) and their lookup in a catalog
  (\<open>domain_workflow_catalog_find\<close>). A pointer to a definition is the definition: they are constant while
  they are in use. Names are for the log only.
\<close>

record domain_step =
  ds_unit_index :: nat
  ds_command :: unit_mock_command
  ds_timeout_ms :: u64

record domain_sequence =
  dq_name :: string
  dq_steps :: "domain_step list"
  dq_step_count :: nat

record domain_scenario =
  dc_id :: u32
  dc_name :: string
  dc_sequences :: "domain_sequence list"
  dc_sequence_count :: nat
  dc_total_step_count :: nat

record domain_workflow_entry =
  we_feature :: u32
  we_condition :: u32
  we_scenario :: domain_scenario

record domain_workflow_catalog =
  wc_entries :: "domain_workflow_entry list"
  wc_entry_count :: nat

datatype domain_workflow_load_result =
    DOMAIN_WORKFLOW_LOAD_OK | DOMAIN_WORKFLOW_LOAD_INVALID_ARGUMENT | DOMAIN_WORKFLOW_LOAD_IO_ERROR
  | DOMAIN_WORKFLOW_LOAD_PARSE_ERROR | DOMAIN_WORKFLOW_LOAD_SCHEMA_ERROR | DOMAIN_WORKFLOW_LOAD_NO_MEMORY
  | DOMAIN_WORKFLOW_LOAD_BUSY

section \<open>The built-in workflows\<close>

definition DOMAIN_SAMPLE_STEP_TIMEOUT_MS :: u64 where
  "DOMAIN_SAMPLE_STEP_TIMEOUT_MS = 2000"

definition sample_step :: "nat \<Rightarrow> domain_step" where
  "sample_step unit_index = \<lparr>ds_unit_index = unit_index, ds_command = UNIT_MOCK_COMMAND_EXECUTE,
     ds_timeout_ms = DOMAIN_SAMPLE_STEP_TIMEOUT_MS\<rparr>"

definition feature_a_standard_first_steps :: "domain_step list" where
  "feature_a_standard_first_steps = map sample_step [0, 1, 2, 3, 4]"

definition feature_a_standard_second_steps :: "domain_step list" where
  "feature_a_standard_second_steps = map sample_step [5, 6, 7, 8, 9]"

definition feature_a_standard_sequences :: "domain_sequence list" where
  "feature_a_standard_sequences =
     [\<lparr>dq_name = ''standard-first'', dq_steps = feature_a_standard_first_steps,
       dq_step_count = length feature_a_standard_first_steps\<rparr>,
      \<lparr>dq_name = ''standard-second'', dq_steps = feature_a_standard_second_steps,
       dq_step_count = length feature_a_standard_second_steps\<rparr>]"

definition feature_a_reverse_first_steps :: "domain_step list" where
  "feature_a_reverse_first_steps = map sample_step [9, 8, 7, 6, 5]"

definition feature_a_reverse_second_steps :: "domain_step list" where
  "feature_a_reverse_second_steps = map sample_step [4, 3, 2, 1, 0]"

definition feature_a_reverse_sequences :: "domain_sequence list" where
  "feature_a_reverse_sequences =
     [\<lparr>dq_name = ''reverse-first'', dq_steps = feature_a_reverse_first_steps,
       dq_step_count = length feature_a_reverse_first_steps\<rparr>,
      \<lparr>dq_name = ''reverse-second'', dq_steps = feature_a_reverse_second_steps,
       dq_step_count = length feature_a_reverse_second_steps\<rparr>]"

definition feature_a_standard :: domain_scenario where
  "feature_a_standard = \<lparr>dc_id = 1, dc_name = ''feature-a-standard'', dc_sequences = feature_a_standard_sequences,
     dc_sequence_count = length feature_a_standard_sequences, dc_total_step_count = 10\<rparr>"

definition feature_a_reverse :: domain_scenario where
  "feature_a_reverse = \<lparr>dc_id = 2, dc_name = ''feature-a-reverse'', dc_sequences = feature_a_reverse_sequences,
     dc_sequence_count = length feature_a_reverse_sequences, dc_total_step_count = 10\<rparr>"

definition domain_workflow_feature_a :: "u32 \<Rightarrow> domain_scenario option" where
  "domain_workflow_feature_a condition =
     (if condition = 1 then Some feature_a_standard
      else if condition = 2 then Some feature_a_reverse
      else None)"

section \<open>Lookup\<close>

text \<open>The loop ends at the first entry that matches.\<close>

fun find_entry :: "domain_workflow_entry list \<Rightarrow> u32 \<Rightarrow> u32 \<Rightarrow> domain_scenario option" where
  "find_entry [] feature condition = None"
| "find_entry (e # es) feature condition =
     (if we_feature e = feature \<and> we_condition e = condition then Some (we_scenario e)
      else find_entry es feature condition)"

definition domain_workflow_catalog_find ::
    "domain_workflow_catalog option \<Rightarrow> u32 \<Rightarrow> u32 \<Rightarrow> domain_scenario option" where
  "domain_workflow_catalog_find catalog feature condition =
     (case catalog of
        None \<Rightarrow> None
      | Some c \<Rightarrow> find_entry (take (wc_entry_count c) (wc_entries c)) feature condition)"

section \<open>Well-formed definitions\<close>

text \<open>
  What the loader checks and the built-in tables satisfy: counts that are the array lengths, at least one
  sequence and one step in each, units that exist and the one command there is.
\<close>

definition step_ok :: "nat \<Rightarrow> domain_step \<Rightarrow> bool" where
  "step_ok unit_count s \<longleftrightarrow> ds_unit_index s < unit_count \<and> ds_command s = UNIT_MOCK_COMMAND_EXECUTE"

definition sequence_ok :: "nat \<Rightarrow> domain_sequence \<Rightarrow> bool" where
  "sequence_ok unit_count q \<longleftrightarrow> dq_step_count q = length (dq_steps q) \<and> dq_steps q \<noteq> [] \<and>
     list_all (step_ok unit_count) (dq_steps q)"

definition all_steps :: "domain_scenario \<Rightarrow> domain_step list" where
  "all_steps c = concat (map dq_steps (dc_sequences c))"

definition scenario_ok :: "nat \<Rightarrow> domain_scenario \<Rightarrow> bool" where
  "scenario_ok unit_count c \<longleftrightarrow> dc_sequence_count c = length (dc_sequences c) \<and> dc_sequences c \<noteq> [] \<and>
     list_all (sequence_ok unit_count) (dc_sequences c) \<and> dc_total_step_count c = length (all_steps c) \<and>
     length (all_steps c) \<le> size_max"

definition catalog_ok :: "nat \<Rightarrow> domain_workflow_catalog \<Rightarrow> bool" where
  "catalog_ok unit_count k \<longleftrightarrow> list_all (scenario_ok unit_count \<circ> we_scenario) (wc_entries k)"

lemma built_in_ok:
  assumes "10 \<le> unit_count" "domain_workflow_feature_a condition = Some c"
  shows "scenario_ok unit_count c"
  using assms
  by (auto simp: domain_workflow_feature_a_def scenario_ok_def sequence_ok_def step_ok_def all_steps_def size_max_def
      feature_a_standard_def feature_a_reverse_def feature_a_standard_sequences_def feature_a_reverse_sequences_def
      feature_a_standard_first_steps_def feature_a_standard_second_steps_def feature_a_reverse_first_steps_def
      feature_a_reverse_second_steps_def sample_step_def split: if_splits)

lemma find_entry_member: "find_entry es feature condition = Some c \<Longrightarrow> \<exists>e \<in> set es. we_scenario e = c"
  by (induction es) (auto split: if_splits)

lemma catalog_find_ok: "catalog_ok unit_count k \<Longrightarrow> domain_workflow_catalog_find (Some k) feature condition = Some c \<Longrightarrow>
    scenario_ok unit_count c"
  using find_entry_member [of "take (wc_entry_count k) (wc_entries k)" feature condition c]
  by (auto simp: domain_workflow_catalog_find_def catalog_ok_def list_all_iff dest: in_set_takeD)

end
