(* ===== verification/C_Heap.thy ===== *)
theory C_Heap
  imports Foundation_Prelude
begin

text \<open>
  The heap, as far as the code's contracts need it: the outcome of every request, in the order of the
  requests, and the number of blocks in use, as an integer so that a block freed twice would show.
\<close>

record heap =
  hp_outcome :: "nat \<Rightarrow> bool"
  hp_requests :: nat
  hp_live :: int

definition heap_alloc :: "heap \<Rightarrow> bool \<times> heap" where
  "heap_alloc h =
     (let ok = hp_outcome h (hp_requests h)
      in (ok, h\<lparr>hp_requests := hp_requests h + 1, hp_live := hp_live h + (if ok then 1 else 0)\<rparr>))"

definition heap_free :: "heap \<Rightarrow> heap" where
  "heap_free h = h\<lparr>hp_live := hp_live h - 1\<rparr>"

text \<open>\<open>free\<close> of a pointer that may be NULL.\<close>

definition free_option :: "'a option \<Rightarrow> heap \<Rightarrow> heap" where
  "free_option p h = (if p = None then h else heap_free h)"

lemma alloc_live [simp]: "hp_live (snd (heap_alloc h)) = hp_live h + (if fst (heap_alloc h) then 1 else 0)"
  by (simp add: heap_alloc_def Let_def)

lemma alloc_liveD: "heap_alloc h = (ok, h') \<Longrightarrow> hp_live h' = hp_live h + (if ok then 1 else 0)"
  using alloc_live [of h] by simp

lemma free_live [simp]: "hp_live (heap_free h) = hp_live h - 1"
  by (simp add: heap_free_def)

lemma free_option_live [simp]: "hp_live (free_option p h) = hp_live h - (if p = None then 0 else 1)"
  by (simp add: free_option_def)

end
