(* ===== verification/Workflow_Loader.thy ===== *)
theory Workflow_Loader
  imports Json_Reader Domain_Workflow C_Heap
begin

text \<open>
  The workflow loader (\<open>domain_workflow_loader.c\<close>): it reads a file, validates and tokenizes it with
  \<open>Json_Reader\<close> and builds a catalog. Every block it requests and frees is on the heap of \<open>C_Heap\<close>.
\<close>

section \<open>Strings\<close>

definition json_copy_string :: "string \<Rightarrow> json_token \<Rightarrow> heap \<Rightarrow> string option \<times> heap" where
  "json_copy_string source t h =
     (case string_to_copy source t of
        None \<Rightarrow> (None, h)
      | Some text \<Rightarrow> let (ok, h1) = heap_alloc h in (if ok then Some text else None, h1))"

definition json_object_string ::
    "string \<Rightarrow> json_token list \<Rightarrow> nat \<Rightarrow> nat \<Rightarrow> string \<Rightarrow> heap \<Rightarrow> string option \<times> heap" where
  "json_object_string source tokens token_count object_index key h =
     (case json_object_find source tokens token_count object_index key of
        None \<Rightarrow> (None, h)
      | Some k \<Rightarrow> json_copy_string source (tokens ! k) h)"

section \<open>Destruction\<close>

definition free_sequence :: "domain_sequence \<Rightarrow> heap \<Rightarrow> heap" where
  "free_sequence q h = heap_free (heap_free h)"

definition free_sequences :: "domain_sequence list \<Rightarrow> heap \<Rightarrow> heap" where
  "free_sequences qs h = fold free_sequence qs h"

text \<open>The sequences of a scenario that has any, their array, and its name.\<close>

definition destroy_scenario :: "domain_scenario \<Rightarrow> heap \<Rightarrow> heap" where
  "destroy_scenario c h = heap_free (heap_free (free_sequences (take (dc_sequence_count c) (dc_sequences c)) h))"

definition domain_workflow_catalog_destroy :: "domain_workflow_catalog option \<Rightarrow> heap \<Rightarrow> heap" where
  "domain_workflow_catalog_destroy catalog h =
     (case catalog of
        None \<Rightarrow> h
      | Some k \<Rightarrow> heap_free (heap_free
          (fold (\<lambda>e. destroy_scenario (we_scenario e)) (take (wc_entry_count k) (wc_entries k)) h)))"

section \<open>Building a catalog from tokens\<close>

definition parse_step :: "string \<Rightarrow> json_token list \<Rightarrow> nat \<Rightarrow> nat \<Rightarrow> nat \<Rightarrow> domain_step option" where
  "parse_step source tokens token_count object_index unit_count =
     (if tk_type (tokens ! object_index) \<noteq> JSON_TOKEN_OBJECT then None
      else
        case json_object_u32 source tokens token_count object_index ''unit'' of
          None \<Rightarrow> None
        | Some unit_number \<Rightarrow>
            if unit_number = 0 \<or> unit_count < unat unit_number then None
            else
              case json_object_find source tokens token_count object_index ''command'' of
                None \<Rightarrow> None
              | Some command_index \<Rightarrow>
                  if \<not> json_token_equals source (tokens ! command_index) ''execute'' then None
                  else
                    case json_object_u64 source tokens token_count object_index ''timeout_ms'' of
                      None \<Rightarrow> None
                    | Some timeout_ms \<Rightarrow>
                        if timeout_ms = 0 then None
                        else Some \<lparr>ds_unit_index = unat unit_number - 1, ds_command = UNIT_MOCK_COMMAND_EXECUTE,
                               ds_timeout_ms = timeout_ms\<rparr>)"

text \<open>The loop over the elements of an array; it ends at the first one that cannot be parsed.\<close>

fun parse_steps :: "(nat \<Rightarrow> domain_step option) \<Rightarrow> (nat \<Rightarrow> nat option) \<Rightarrow> nat list \<Rightarrow> domain_step list option" where
  "parse_steps parse element [] = Some []"
| "parse_steps parse element (index # rest) =
     (case element index of
        None \<Rightarrow> None
      | Some k \<Rightarrow>
          (case parse k of
             None \<Rightarrow> None
           | Some s \<Rightarrow> map_option (Cons s) (parse_steps parse element rest)))"

definition parse_sequence ::
    "string \<Rightarrow> json_token list \<Rightarrow> nat \<Rightarrow> nat \<Rightarrow> nat \<Rightarrow> heap \<Rightarrow>
     (domain_workflow_load_result + domain_sequence) \<times> heap" where
  "parse_sequence source tokens token_count object_index unit_count h =
     (let found = json_object_find source tokens token_count object_index ''steps'';
          (name, h1) = json_object_string source tokens token_count object_index ''name'' h
      in if tk_type (tokens ! object_index) \<noteq> JSON_TOKEN_OBJECT \<or> name = None \<or> found = None \<or>
            tk_type (tokens ! the found) \<noteq> JSON_TOKEN_ARRAY \<or> tk_child_count (tokens ! the found) = 0
         then (Inl DOMAIN_WORKFLOW_LOAD_SCHEMA_ERROR, free_option name h1)
         else
           let steps_index = the found; n = tk_child_count (tokens ! steps_index); (ok, h2) = heap_alloc h1 in
           if \<not> ok then (Inl DOMAIN_WORKFLOW_LOAD_NO_MEMORY, heap_free h2)
           else
             case parse_steps (\<lambda>k. parse_step source tokens token_count k unit_count)
                    (json_array_at tokens token_count steps_index) [0..<n] of
               None \<Rightarrow> (Inl DOMAIN_WORKFLOW_LOAD_SCHEMA_ERROR, heap_free (heap_free h2))
             | Some steps \<Rightarrow> (Inr \<lparr>dq_name = the name, dq_steps = steps, dq_step_count = n\<rparr>, h2))"

text \<open>The result and the sequences parsed so far with the number of their steps.\<close>

fun sequences_loop ::
    "(nat \<Rightarrow> heap \<Rightarrow> (domain_workflow_load_result + domain_sequence) \<times> heap) \<Rightarrow> (nat \<Rightarrow> nat option) \<Rightarrow> nat list \<Rightarrow>
     domain_sequence list \<Rightarrow> nat \<Rightarrow> heap \<Rightarrow> domain_workflow_load_result \<times> domain_sequence list \<times> nat \<times> heap" where
  "sequences_loop parse element [] parsed step_total h = (DOMAIN_WORKFLOW_LOAD_OK, parsed, step_total, h)"
| "sequences_loop parse element (index # rest) parsed step_total h =
     (case element index of
        None \<Rightarrow> (DOMAIN_WORKFLOW_LOAD_SCHEMA_ERROR, parsed, step_total, h)
      | Some k \<Rightarrow>
          (case parse k h of
             (Inl e, h1) \<Rightarrow> (e, parsed, step_total, h1)
           | (Inr q, h1) \<Rightarrow>
               if size_max - step_total < dq_step_count q
               then (DOMAIN_WORKFLOW_LOAD_SCHEMA_ERROR, parsed @ [q], step_total, h1)
               else sequences_loop parse element rest (parsed @ [q]) (step_total + dq_step_count q) h1))"

definition parse_sequences ::
    "string \<Rightarrow> json_token list \<Rightarrow> nat \<Rightarrow> nat \<Rightarrow> nat \<Rightarrow> heap \<Rightarrow>
     (domain_workflow_load_result + domain_sequence list \<times> nat) \<times> heap" where
  "parse_sequences source tokens token_count array_index unit_count h =
     (let (ok, h1) = heap_alloc h in
      if \<not> ok then (Inl DOMAIN_WORKFLOW_LOAD_NO_MEMORY, h1)
      else
        let (result, parsed, step_total, h2) =
              sequences_loop (\<lambda>k. parse_sequence source tokens token_count k unit_count)
                (json_array_at tokens token_count array_index) [0..<tk_child_count (tokens ! array_index)] [] 0 h1
        in if result = DOMAIN_WORKFLOW_LOAD_OK then (Inr (parsed, step_total), h2)
           else (Inl result, heap_free (free_sequences parsed h2)))"

definition parse_scenario ::
    "string \<Rightarrow> json_token list \<Rightarrow> nat \<Rightarrow> nat \<Rightarrow> nat \<Rightarrow> heap \<Rightarrow>
     (domain_workflow_load_result + domain_scenario) \<times> heap" where
  "parse_scenario source tokens token_count object_index unit_count h =
     (let found = json_object_find source tokens token_count object_index ''sequences'';
          (name, h1) = json_object_string source tokens token_count object_index ''name'' h;
          scenario_id = (if tk_type (tokens ! object_index) \<noteq> JSON_TOKEN_OBJECT then None
                         else json_object_u32 source tokens token_count object_index ''id'')
      in if scenario_id = None \<or> scenario_id = Some 0 \<or> name = None \<or> found = None \<or>
            tk_type (tokens ! the found) \<noteq> JSON_TOKEN_ARRAY \<or> tk_child_count (tokens ! the found) = 0
         then (Inl DOMAIN_WORKFLOW_LOAD_SCHEMA_ERROR, free_option name h1)
         else
           case parse_sequences source tokens token_count (the found) unit_count h1 of
             (Inl e, h2) \<Rightarrow> (Inl e, heap_free h2)
           | (Inr (sequences, step_total), h2) \<Rightarrow>
               (Inr \<lparr>dc_id = the scenario_id, dc_name = the name, dc_sequences = sequences,
                     dc_sequence_count = tk_child_count (tokens ! the found), dc_total_step_count = step_total\<rparr>, h2))"

fun entry_is_duplicate :: "domain_workflow_entry list \<Rightarrow> u32 \<Rightarrow> u32 \<Rightarrow> u32 \<Rightarrow> bool" where
  "entry_is_duplicate [] feature condition scenario_id = False"
| "entry_is_duplicate (e # es) feature condition scenario_id =
     (we_feature e = feature \<and> we_condition e = condition \<or> dc_id (we_scenario e) = scenario_id \<or>
      entry_is_duplicate es feature condition scenario_id)"

definition parse_entry ::
    "string \<Rightarrow> json_token list \<Rightarrow> nat \<Rightarrow> nat \<Rightarrow> nat \<Rightarrow> domain_workflow_entry list \<Rightarrow> heap \<Rightarrow>
     (domain_workflow_load_result + domain_workflow_entry) \<times> heap" where
  "parse_entry source tokens token_count object_index unit_count entries h =
     (let found = json_object_find source tokens token_count object_index ''scenario'';
          feature = (if tk_type (tokens ! object_index) \<noteq> JSON_TOKEN_OBJECT then None
                     else json_object_u32 source tokens token_count object_index ''feature'');
          condition = json_object_u32 source tokens token_count object_index ''condition''
      in if feature = None \<or> feature = Some 0 \<or> condition = None \<or> found = None
         then (Inl DOMAIN_WORKFLOW_LOAD_SCHEMA_ERROR, h)
         else
           case parse_scenario source tokens token_count (the found) unit_count h of
             (Inl e, h1) \<Rightarrow> (Inl e, h1)
           | (Inr scenario, h1) \<Rightarrow>
               if entry_is_duplicate entries (the feature) (the condition) (dc_id scenario)
               then (Inl DOMAIN_WORKFLOW_LOAD_SCHEMA_ERROR, destroy_scenario scenario h1)
               else (Inr \<lparr>we_feature = the feature, we_condition = the condition, we_scenario = scenario\<rparr>, h1))"

fun entries_loop ::
    "(nat \<Rightarrow> domain_workflow_entry list \<Rightarrow> heap \<Rightarrow> (domain_workflow_load_result + domain_workflow_entry) \<times> heap) \<Rightarrow>
     (nat \<Rightarrow> nat option) \<Rightarrow> nat list \<Rightarrow> domain_workflow_entry list \<Rightarrow> heap \<Rightarrow>
     domain_workflow_load_result \<times> domain_workflow_entry list \<times> heap" where
  "entries_loop parse element [] parsed h = (DOMAIN_WORKFLOW_LOAD_OK, parsed, h)"
| "entries_loop parse element (index # rest) parsed h =
     (case element index of
        None \<Rightarrow> (DOMAIN_WORKFLOW_LOAD_SCHEMA_ERROR, parsed, h)
      | Some k \<Rightarrow>
          (case parse k parsed h of
             (Inl e, h1) \<Rightarrow> (e, parsed, h1)
           | (Inr e, h1) \<Rightarrow> entries_loop parse element rest (parsed @ [e]) h1))"

definition DOMAIN_WORKFLOW_SCHEMA_VERSION :: u64 where
  "DOMAIN_WORKFLOW_SCHEMA_VERSION = 1"

definition build_catalog ::
    "string \<Rightarrow> json_token list \<Rightarrow> nat \<Rightarrow> nat \<Rightarrow> heap \<Rightarrow>
     (domain_workflow_load_result + domain_workflow_catalog) \<times> heap" where
  "build_catalog source tokens token_count unit_count h =
     (let version_index = json_object_find source tokens token_count 0 ''schema_version'';
          found = json_object_find source tokens token_count 0 ''workflows''
      in if tk_type (tokens ! 0) \<noteq> JSON_TOKEN_OBJECT \<or> version_index = None \<or>
            json_read_u64 source (tokens ! the version_index) \<noteq> Some DOMAIN_WORKFLOW_SCHEMA_VERSION \<or> found = None \<or>
            tk_type (tokens ! the found) \<noteq> JSON_TOKEN_ARRAY \<or> tk_child_count (tokens ! the found) = 0
         then (Inl DOMAIN_WORKFLOW_LOAD_SCHEMA_ERROR, h)
         else
           let (ok1, h1) = heap_alloc h in
           if \<not> ok1 then (Inl DOMAIN_WORKFLOW_LOAD_NO_MEMORY, h1)
           else let (ok2, h2) = heap_alloc h1 in
             if \<not> ok2 then (Inl DOMAIN_WORKFLOW_LOAD_NO_MEMORY, heap_free h2)
             else
               let (result, entries, h3) =
                     entries_loop (\<lambda>k es. parse_entry source tokens token_count k unit_count es)
                       (json_array_at tokens token_count (the found)) [0..<tk_child_count (tokens ! the found)] [] h2;
                   catalog = \<lparr>wc_entries = entries, wc_entry_count = length entries\<rparr>
               in if result = DOMAIN_WORKFLOW_LOAD_OK then (Inr catalog, h3)
                  else (Inl result, domain_workflow_catalog_destroy (Some catalog) h3))"

section \<open>Files\<close>

text \<open>
  What the C library answers for a file that can be opened: whether it can seek to the end and back, the
  size it tells, and the bytes it reads when that many are requested.
\<close>

record json_file =
  jf_seek_end :: bool
  jf_size :: int
  jf_seek_start :: bool
  jf_read :: string

definition DOMAIN_WORKFLOW_JSON_MAX_BYTES :: int where
  "DOMAIN_WORKFLOW_JSON_MAX_BYTES = 1024 * 1024"

definition read_json_file ::
    "(string \<Rightarrow> json_file option) \<Rightarrow> string \<Rightarrow> heap \<Rightarrow> (domain_workflow_load_result + string) \<times> heap" where
  "read_json_file open_file path h =
     (case open_file path of
        None \<Rightarrow> (Inl DOMAIN_WORKFLOW_LOAD_IO_ERROR, h)
      | Some f \<Rightarrow>
          if jf_seek_end f \<and> 0 < jf_size f \<and> jf_size f \<le> DOMAIN_WORKFLOW_JSON_MAX_BYTES \<and> jf_seek_start f then
            let (ok, h1) = heap_alloc h in
            if \<not> ok then (Inl DOMAIN_WORKFLOW_LOAD_NO_MEMORY, h1)
            else if int (length (jf_read f)) \<noteq> jf_size f then (Inl DOMAIN_WORKFLOW_LOAD_IO_ERROR, heap_free h1)
            else (Inr (jf_read f), h1)
          else (Inl DOMAIN_WORKFLOW_LOAD_IO_ERROR, h))"

definition zero_token :: json_token where
  "zero_token = \<lparr>tk_type = JSON_TOKEN_UNDEFINED, tk_start = 0, tk_end = 0, tk_child_count = 0, tk_parent = Some 0\<rparr>"

definition new_parser :: "nat \<Rightarrow> json_parser" where
  "new_parser capacity = \<lparr>js_tokens = replicate capacity zero_token, js_capacity = capacity, js_count = 0,
     js_current_parent = None\<rparr>"

text \<open>The catalog goes to \<open>out_catalog\<close>, which the caller gives; it is NULL unless the result is OK.\<close>

definition domain_workflow_catalog_load_json_file ::
    "(string \<Rightarrow> json_file option) \<Rightarrow> string option \<Rightarrow> nat \<Rightarrow> heap \<Rightarrow>
     (domain_workflow_load_result \<times> domain_workflow_catalog option) \<times> heap" where
  "domain_workflow_catalog_load_json_file open_file path unit_count h =
     (if path = None \<or> path = Some '''' \<or> unit_count = 0 then ((DOMAIN_WORKFLOW_LOAD_INVALID_ARGUMENT, None), h)
      else
        case read_json_file open_file (the path) h of
          (Inl e, h1) \<Rightarrow> ((e, None), h1)
        | (Inr source, h1) \<Rightarrow>
            let (ok, h2) = heap_alloc h1 in
            if \<not> ok then ((DOMAIN_WORKFLOW_LOAD_NO_MEMORY, None), heap_free h2)
            else
              let parser = new_parser (length source div 2 + 2) in
              case (if json_validate_document source then json_tokenize source parser else None) of
                None \<Rightarrow> ((DOMAIN_WORKFLOW_LOAD_PARSE_ERROR, None), heap_free (heap_free h2))
              | Some p \<Rightarrow>
                  (case build_catalog source (js_tokens p) (js_count p) unit_count h2 of
                     (Inl e, h3) \<Rightarrow> ((e, None), heap_free (heap_free h3))
                   | (Inr catalog, h3) \<Rightarrow> ((DOMAIN_WORKFLOW_LOAD_OK, Some catalog), heap_free (heap_free h3))))"

section \<open>What the loader lets through\<close>

text \<open>The checks beyond \<open>catalog_ok\<close>: a timeout for every step, ids that are set and unique, keys that are unique.\<close>

definition timeouts_set :: "domain_sequence \<Rightarrow> bool" where
  "timeouts_set q \<longleftrightarrow> list_all (\<lambda>s. ds_timeout_ms s \<noteq> 0) (dq_steps q)"

definition entry_ok :: "nat \<Rightarrow> domain_workflow_entry \<Rightarrow> bool" where
  "entry_ok unit_count e \<longleftrightarrow> we_feature e \<noteq> 0 \<and> dc_id (we_scenario e) \<noteq> 0 \<and> scenario_ok unit_count (we_scenario e) \<and>
     list_all timeouts_set (dc_sequences (we_scenario e))"

definition unique_entries :: "domain_workflow_entry list \<Rightarrow> bool" where
  "unique_entries es \<longleftrightarrow> distinct (map (\<lambda>e. (we_feature e, we_condition e)) es) \<and>
     distinct (map (\<lambda>e. dc_id (we_scenario e)) es)"

definition loaded_ok :: "nat \<Rightarrow> domain_workflow_catalog \<Rightarrow> bool" where
  "loaded_ok unit_count k \<longleftrightarrow> wc_entry_count k = length (wc_entries k) \<and> wc_entries k \<noteq> [] \<and>
     list_all (entry_ok unit_count) (wc_entries k) \<and> unique_entries (wc_entries k)"

text \<open>The blocks a definition keeps: a name and an array for every list, the catalog and its entries.\<close>

definition scenario_blocks :: "domain_scenario \<Rightarrow> int" where
  "scenario_blocks c = 2 + 2 * int (length (dc_sequences c))"

definition catalog_blocks :: "domain_workflow_catalog \<Rightarrow> int" where
  "catalog_blocks k = 2 + (\<Sum>e\<leftarrow>wc_entries k. scenario_blocks (we_scenario e))"

lemma free_sequences_live [simp]: "hp_live (free_sequences qs h) = hp_live h - 2 * int (length qs)"
  by (induction qs arbitrary: h) (simp_all add: free_sequences_def free_sequence_def)

lemma destroy_scenario_live:
  "dc_sequence_count c = length (dc_sequences c) \<Longrightarrow> hp_live (destroy_scenario c h) = hp_live h - scenario_blocks c"
  by (simp add: destroy_scenario_def scenario_blocks_def)

lemma destroy_catalog_live:
  assumes "wc_entry_count k = length (wc_entries k)"
    and "list_all (\<lambda>e. dc_sequence_count (we_scenario e) = length (dc_sequences (we_scenario e))) (wc_entries k)"
  shows "hp_live (domain_workflow_catalog_destroy (Some k) h) = hp_live h - catalog_blocks k"
proof -
  have "list_all (\<lambda>e. dc_sequence_count (we_scenario e) = length (dc_sequences (we_scenario e))) es \<Longrightarrow>
      hp_live (fold (\<lambda>e. destroy_scenario (we_scenario e)) es h) = hp_live h - (\<Sum>e\<leftarrow>es. scenario_blocks (we_scenario e))" for es
    by (induction es arbitrary: h) (simp_all add: destroy_scenario_live)
  with assms show ?thesis by (simp add: domain_workflow_catalog_destroy_def catalog_blocks_def)
qed

lemma object_string_live:
  "json_object_string source tokens n k key h = (name, h') \<Longrightarrow> hp_live h' = hp_live h + (if name = None then 0 else 1)"
  by (auto simp: json_object_string_def json_copy_string_def dest: alloc_liveD split: option.splits prod.splits if_splits)

lemma parse_step_ok: "parse_step source tokens n k unit_count = Some s \<Longrightarrow> step_ok unit_count s \<and> ds_timeout_ms s \<noteq> 0"
proof -
  have "unat u - 1 < unit_count" if "u \<noteq> 0" "\<not> unit_count < unat u" for u :: u32
    using that by (metis One_nat_def Suc_pred bot_nat_0.not_eq_extremum not_less_eq unat_eq_zero)
  then show "parse_step source tokens n k unit_count = Some s \<Longrightarrow> step_ok unit_count s \<and> ds_timeout_ms s \<noteq> 0"
    by (auto simp: parse_step_def step_ok_def split: if_splits option.splits)
qed

lemma parse_steps_all:
  "parse_steps parse element is = Some ss \<Longrightarrow> (\<And>k s. parse k = Some s \<Longrightarrow> P s) \<Longrightarrow> length ss = length is \<and> list_all P ss"
  by (induction "is" arbitrary: ss) (auto split: option.splits)

lemma parse_sequence_ok:
  assumes "parse_sequence source tokens n k unit_count h = (r, h')"
  shows "case r of
      Inl e \<Rightarrow> hp_live h' = hp_live h \<and> e \<noteq> DOMAIN_WORKFLOW_LOAD_OK
    | Inr q \<Rightarrow> hp_live h' = hp_live h + 2 \<and> sequence_ok unit_count q \<and> timeouts_set q"
proof -
  obtain name h1 where name: "json_object_string source tokens n k ''name'' h = (name, h1)" by fastforce
  obtain ok h2 where alloc: "heap_alloc h1 = (ok, h2)" by fastforce
  note live = object_string_live [OF name] alloc_liveD [OF alloc]
  note steps = parse_steps_all [where P = "\<lambda>s. step_ok unit_count s \<and> ds_timeout_ms s \<noteq> 0", OF _ parse_step_ok]
  show ?thesis
    using assms live
    by (auto simp: parse_sequence_def name alloc Let_def sequence_ok_def timeouts_set_def list_all_iff
        dest!: steps split: if_splits option.splits)
qed

definition steps_of :: "domain_sequence list \<Rightarrow> nat" where
  "steps_of qs = length (concat (map dq_steps qs))"

lemma steps_of_simps [simp]: "steps_of [] = 0" "steps_of (qs @ [q]) = steps_of qs + length (dq_steps q)"
  by (simp_all add: steps_of_def)

lemma sequences_loop_ok:
  assumes parse: "\<And>k h r h'. parse k h = (r, h') \<Longrightarrow> case r of
      Inl e \<Rightarrow> hp_live h' = hp_live h \<and> e \<noteq> DOMAIN_WORKFLOW_LOAD_OK
    | Inr q \<Rightarrow> hp_live h' = hp_live h + 2 \<and> sequence_ok unit_count q \<and> timeouts_set q"
  shows "sequences_loop parse element is parsed n h = (result, parsed', n', h') \<Longrightarrow>
    list_all (\<lambda>q. sequence_ok unit_count q \<and> timeouts_set q) parsed \<Longrightarrow> n = steps_of parsed \<Longrightarrow> n \<le> size_max \<Longrightarrow>
    hp_live h' = hp_live h + 2 * (int (length parsed') - int (length parsed)) \<and>
    list_all (\<lambda>q. sequence_ok unit_count q \<and> timeouts_set q) parsed' \<and>
    (result = DOMAIN_WORKFLOW_LOAD_OK \<longrightarrow>
       length parsed' = length parsed + length is \<and> n' = steps_of parsed' \<and> n' \<le> size_max)"
proof (induction "is" arbitrary: parsed n h)
  case (Cons i "is")
  obtain k where k: "element i = Some k \<or> element i = None \<and> result = DOMAIN_WORKFLOW_LOAD_SCHEMA_ERROR \<and> parsed' = parsed \<and> h' = h"
    using Cons.prems(1) by (auto split: option.splits)
  obtain r h1 where r: "parse k h = (r, h1)" by fastforce
  show ?case
  proof (cases r)
    case (Inl e)
    with Cons.prems k r parse [OF r] show ?thesis by auto
  next
    case (Inr q)
    note q = parse [OF r, unfolded Inr sum.case]
    then have "dq_step_count q = length (dq_steps q)" by (simp add: sequence_ok_def)
    moreover have "\<not> size_max - n < dq_step_count q \<Longrightarrow> n + dq_step_count q \<le> size_max" using Cons.prems(4) by linarith
    ultimately show ?thesis
      using Inr Cons.prems k r q Cons.IH [of "parsed @ [q]" "n + dq_step_count q" h1] by (auto split: if_splits)
  qed
qed simp

lemma parse_sequences_ok:
  assumes "parse_sequences source tokens n k unit_count h = (r, h')"
  shows "case r of
      Inl e \<Rightarrow> hp_live h' = hp_live h \<and> e \<noteq> DOMAIN_WORKFLOW_LOAD_OK
    | Inr (qs, m) \<Rightarrow> hp_live h' = hp_live h + 1 + 2 * int (length qs) \<and> length qs = tk_child_count (tokens ! k) \<and>
        list_all (\<lambda>q. sequence_ok unit_count q \<and> timeouts_set q) qs \<and> m = steps_of qs \<and> m \<le> size_max"
proof -
  obtain ok h1 where alloc: "heap_alloc h = (ok, h1)" by fastforce
  obtain result parsed m h2 where loop: "sequences_loop (\<lambda>k. parse_sequence source tokens n k unit_count)
      (json_array_at tokens n k) [0..<tk_child_count (tokens ! k)] [] 0 h1 = (result, parsed, m, h2)"
    by (metis prod_cases4)
  have "hp_live h2 = hp_live h1 + 2 * (int (length parsed) - int (length ([] :: domain_sequence list))) \<and>
    list_all (\<lambda>q. sequence_ok unit_count q \<and> timeouts_set q) parsed \<and>
    (result = DOMAIN_WORKFLOW_LOAD_OK \<longrightarrow> length parsed = length ([] :: domain_sequence list) +
      length [0..<tk_child_count (tokens ! k)] \<and> m = steps_of parsed \<and> m \<le> size_max)"
    by (rule sequences_loop_ok [OF _ loop]) (rule parse_sequence_ok, assumption, simp_all)
  with assms alloc_liveD [OF alloc] show ?thesis by (auto simp: parse_sequences_def alloc loop split: if_splits)
qed

lemma parse_scenario_ok:
  assumes "parse_scenario source tokens n k unit_count h = (r, h')"
  shows "case r of
      Inl e \<Rightarrow> hp_live h' = hp_live h \<and> e \<noteq> DOMAIN_WORKFLOW_LOAD_OK
    | Inr c \<Rightarrow> hp_live h' = hp_live h + scenario_blocks c \<and> scenario_ok unit_count c \<and> dc_id c \<noteq> 0 \<and>
        list_all timeouts_set (dc_sequences c)"
proof -
  obtain name h1 where name: "json_object_string source tokens n k ''name'' h = (name, h1)" by fastforce
  let ?found = "json_object_find source tokens n k ''sequences''"
  obtain q h2 where qs: "parse_sequences source tokens n (the ?found) unit_count h1 = (q, h2)" by fastforce
  show ?thesis
    using assms object_string_live [OF name] parse_sequences_ok [OF qs]
    by (auto simp: parse_scenario_def name qs Let_def scenario_blocks_def scenario_ok_def all_steps_def steps_of_def
        list_all_iff split: if_splits sum.splits prod.splits)
qed

lemma duplicate_iff:
  "entry_is_duplicate es f c i \<longleftrightarrow>
    (f, c) \<in> set (map (\<lambda>e. (we_feature e, we_condition e)) es) \<or> i \<in> set (map (\<lambda>e. dc_id (we_scenario e)) es)"
  by (induction es) auto

definition entry_blocks :: "domain_workflow_entry list \<Rightarrow> int" where
  "entry_blocks es = (\<Sum>e\<leftarrow>es. scenario_blocks (we_scenario e))"

lemma entry_blocks_simps [simp]:
  "entry_blocks [] = 0" "entry_blocks (es @ [e]) = entry_blocks es + scenario_blocks (we_scenario e)"
  by (simp_all add: entry_blocks_def)

lemma parse_entry_ok:
  assumes "parse_entry source tokens n k unit_count es h = (r, h')" "unique_entries es"
  shows "case r of
      Inl e \<Rightarrow> hp_live h' = hp_live h \<and> e \<noteq> DOMAIN_WORKFLOW_LOAD_OK
    | Inr e \<Rightarrow> hp_live h' = hp_live h + scenario_blocks (we_scenario e) \<and> entry_ok unit_count e \<and> unique_entries (es @ [e])"
proof -
  let ?found = "json_object_find source tokens n k ''scenario''"
  obtain c h1 where c: "parse_scenario source tokens n (the ?found) unit_count h = (c, h1)" by fastforce
  show ?thesis
    using assms parse_scenario_ok [OF c]
    by (auto simp: parse_entry_def c Let_def entry_ok_def unique_entries_def duplicate_iff destroy_scenario_live
        scenario_ok_def split: if_splits sum.splits)
qed

lemma entries_loop_ok:
  assumes parse: "\<And>k es h r h'. parse k es h = (r, h') \<Longrightarrow> unique_entries es \<Longrightarrow> case r of
      Inl e \<Rightarrow> hp_live h' = hp_live h \<and> e \<noteq> DOMAIN_WORKFLOW_LOAD_OK
    | Inr e \<Rightarrow> hp_live h' = hp_live h + scenario_blocks (we_scenario e) \<and> entry_ok unit_count e \<and> unique_entries (es @ [e])"
  shows "entries_loop parse element is parsed h = (result, parsed', h') \<Longrightarrow>
    list_all (entry_ok unit_count) parsed \<Longrightarrow> unique_entries parsed \<Longrightarrow>
    hp_live h' = hp_live h + entry_blocks parsed' - entry_blocks parsed \<and>
    list_all (entry_ok unit_count) parsed' \<and> unique_entries parsed' \<and>
    (result = DOMAIN_WORKFLOW_LOAD_OK \<longrightarrow> length parsed' = length parsed + length is)"
proof (induction "is" arbitrary: parsed h)
  case (Cons i "is")
  obtain k where k: "element i = Some k \<or> element i = None \<and> result = DOMAIN_WORKFLOW_LOAD_SCHEMA_ERROR \<and> parsed' = parsed \<and> h' = h"
    using Cons.prems(1) by (auto split: option.splits)
  obtain r h1 where r: "parse k parsed h = (r, h1)" by fastforce
  show ?case
    using Cons.prems k r parse [OF r Cons.prems(3)] Cons.IH [of "parsed @ [projr r]" h1] by (cases r) auto
qed simp

lemma build_catalog_ok:
  assumes "build_catalog source tokens n unit_count h = (r, h')"
  shows "case r of
      Inl e \<Rightarrow> hp_live h' = hp_live h \<and> e \<noteq> DOMAIN_WORKFLOW_LOAD_OK
    | Inr k \<Rightarrow> hp_live h' = hp_live h + catalog_blocks k \<and> loaded_ok unit_count k"
proof -
  define j where "j = the (json_object_find source tokens n 0 ''workflows'')"
  obtain ok1 h1 where a1: "heap_alloc h = (ok1, h1)" by fastforce
  obtain ok2 h2 where a2: "heap_alloc h1 = (ok2, h2)" by fastforce
  obtain result es h3 where loop: "entries_loop (\<lambda>k es. parse_entry source tokens n k unit_count es)
      (json_array_at tokens n j) [0..<tk_child_count (tokens ! j)] [] h2 = (result, es, h3)"
    using prod_cases3 by blast
  have none: "unique_entries []" by (simp add: unique_entries_def)
  let ?k = "\<lparr>wc_entries = es, wc_entry_count = length es\<rparr>"
  from entries_loop_ok [OF parse_entry_ok [of source tokens n _ unit_count] loop _ none]
  have l: "hp_live h3 = hp_live h2 + entry_blocks es" "list_all (entry_ok unit_count) es" "unique_entries es"
    "result = DOMAIN_WORKFLOW_LOAD_OK \<Longrightarrow> length es = tk_child_count (tokens ! j)"
    by simp_all
  have "list_all (\<lambda>e. dc_sequence_count (we_scenario e) = length (dc_sequences (we_scenario e))) es"
    using l(2) by (auto simp: list_all_iff entry_ok_def scenario_ok_def)
  with destroy_catalog_live [of ?k h3]
  have "hp_live (domain_workflow_catalog_destroy (Some ?k) h3) = hp_live h3 - catalog_blocks ?k" by simp
  with assms l alloc_liveD [OF a1] alloc_liveD [OF a2] show ?thesis
    unfolding build_catalog_def Let_def j_def [symmetric]
    by (auto simp: a1 a2 loop catalog_blocks_def loaded_ok_def simp flip: entry_blocks_def split: if_splits)
qed

lemma load_json_ok:
  assumes "domain_workflow_catalog_load_json_file open_file path unit_count h = ((r, k), h')"
  shows "(r = DOMAIN_WORKFLOW_LOAD_OK \<longleftrightarrow> k \<noteq> None) \<and>
    hp_live h' = hp_live h + (case k of None \<Rightarrow> 0 | Some c \<Rightarrow> catalog_blocks c) \<and> (\<forall>c. k = Some c \<longrightarrow> loaded_ok unit_count c)"
proof -
  obtain s h1 where src: "read_json_file open_file (the path) h = (s, h1)" by fastforce
  have f: "case s of Inl e \<Rightarrow> hp_live h1 = hp_live h \<and> e \<noteq> DOMAIN_WORKFLOW_LOAD_OK | Inr _ \<Rightarrow> hp_live h1 = hp_live h + 1"
    using src by (auto simp: read_json_file_def Let_def dest: alloc_liveD split: option.splits if_splits prod.splits)
  obtain ok h2 where a: "heap_alloc h1 = (ok, h2)" by fastforce
  have b: "build_catalog source (js_tokens p) (js_count p) unit_count h2 = (x, h3) \<Longrightarrow> case x of
      Inl e \<Rightarrow> hp_live h3 = hp_live h2 \<and> e \<noteq> DOMAIN_WORKFLOW_LOAD_OK
    | Inr k \<Rightarrow> hp_live h3 = hp_live h2 + catalog_blocks k \<and> loaded_ok unit_count k" for source p x h3
    by (rule build_catalog_ok)
  show ?thesis
    using assms f alloc_liveD [OF a]
    by (auto simp: domain_workflow_catalog_load_json_file_def src a Let_def dest!: b
        split: if_splits sum.splits option.splits prod.splits)
qed

text \<open>A catalog that the loader gave is destroyed block by block.\<close>

lemma destroy_loaded:
  "\<forall>c. k = Some c \<longrightarrow> loaded_ok n c \<Longrightarrow>
    hp_live (domain_workflow_catalog_destroy k h) = hp_live h - (case k of None \<Rightarrow> 0 | Some c \<Rightarrow> catalog_blocks c)"
proof (cases k)
  case None
  then show ?thesis by (simp add: domain_workflow_catalog_destroy_def)
next
  case (Some c)
  moreover assume "\<forall>c. k = Some c \<longrightarrow> loaded_ok n c"
  ultimately show ?thesis
    by (auto simp: loaded_ok_def entry_ok_def scenario_ok_def list_all_iff intro!: destroy_catalog_live)
qed

section \<open>Property\<close>

text \<open>Property C3. Whatever the file holds and whichever request for memory fails, the loader gives a
  catalog exactly when its result is OK. That catalog has at least one entry, its counts are the lengths of
  its arrays, each scenario has an id, a sequence and a step in each sequence, each step names a unit that
  exists and a timeout, and no two entries share an id or a feature and condition. On every other path no
  block of memory is left behind, and destroying a loaded catalog frees exactly what loading it took.\<close>

theorem loader_builds_checked_catalog:
  assumes "domain_workflow_catalog_load_json_file open_file path unit_count h = ((result, catalog), h')"
  shows "(result = DOMAIN_WORKFLOW_LOAD_OK \<longleftrightarrow> catalog \<noteq> None)
    \<and> (\<forall>k. catalog = Some k \<longrightarrow> loaded_ok unit_count k)
    \<and> (result \<noteq> DOMAIN_WORKFLOW_LOAD_OK \<longrightarrow> hp_live h' = hp_live h)
    \<and> hp_live (domain_workflow_catalog_destroy catalog h') = hp_live h"
  using load_json_ok [OF assms] destroy_loaded [of catalog unit_count h'] by (cases catalog) auto

theorem loader_builds_checked_catalog_witness:
  "\<exists>result catalog h'. domain_workflow_catalog_load_json_file
      (\<lambda>_. Some \<lparr>jf_seek_end = True, jf_size = 2, jf_seek_start = True, jf_read = ''{}''\<rparr>) (Some ''w.json'') 10
      \<lparr>hp_outcome = (\<lambda>i. i = 0), hp_requests = 0, hp_live = 0\<rparr> = ((result, catalog), h') \<and>
    result = DOMAIN_WORKFLOW_LOAD_NO_MEMORY \<and> hp_live h' = 0"
proof -
  let ?load = "domain_workflow_catalog_load_json_file
      (\<lambda>_. Some \<lparr>jf_seek_end = True, jf_size = 2, jf_seek_start = True, jf_read = ''{}''\<rparr>) (Some ''w.json'') 10
      \<lparr>hp_outcome = (\<lambda>i. i = 0), hp_requests = 0, hp_live = 0\<rparr>"
  obtain catalog h' where load: "?load = ((DOMAIN_WORKFLOW_LOAD_NO_MEMORY, catalog), h')"
    by (simp add: domain_workflow_catalog_load_json_file_def read_json_file_def heap_alloc_def
        DOMAIN_WORKFLOW_JSON_MAX_BYTES_def)
  from loader_builds_checked_catalog [OF load] load show ?thesis by simp
qed

end
