(* ===== verification/Domain_Events.thy ===== *)
theory Domain_Events
  imports Event_Publisher Byte_Codec Unit_Mock C_Heap
begin

text \<open>
  The domain event publisher (\<open>domain_event_publisher.c\<close>): an event publisher over storage of its own,
  whose payloads are domain payloads and whose lock is a mutex. A payload is copied as the bytes of its
  struct; the layout is that of an LP64 target, with its padding zero.
\<close>

definition DOMAIN_EVENT_QUEUE_CAPACITY :: nat where
  "DOMAIN_EVENT_QUEUE_CAPACITY = 32"

definition DOMAIN_EVENT_SUBSCRIPTION_CAPACITY :: nat where
  "DOMAIN_EVENT_SUBSCRIPTION_CAPACITY = 16"

definition DOMAIN_EVENT_UNIT_COMPLETED :: u32 where "DOMAIN_EVENT_UNIT_COMPLETED = 2001"
definition DOMAIN_EVENT_UNIT_ERROR :: u32 where "DOMAIN_EVENT_UNIT_ERROR = 2002"
definition DOMAIN_EVENT_STEP_TIMEOUT :: u32 where "DOMAIN_EVENT_STEP_TIMEOUT = 2003"
definition DOMAIN_EVENT_SEQUENCE_COMPLETED :: u32 where "DOMAIN_EVENT_SEQUENCE_COMPLETED = 2101"
definition DOMAIN_EVENT_SEQUENCE_ERROR :: u32 where "DOMAIN_EVENT_SEQUENCE_ERROR = 2102"
definition DOMAIN_EVENT_SCENARIO_COMPLETED :: u32 where "DOMAIN_EVENT_SCENARIO_COMPLETED = 2201"
definition DOMAIN_EVENT_SCENARIO_ERROR :: u32 where "DOMAIN_EVENT_SCENARIO_ERROR = 2202"
definition DOMAIN_EVENT_FEATURE_COMPLETED :: u32 where "DOMAIN_EVENT_FEATURE_COMPLETED = 2301"
definition DOMAIN_EVENT_FEATURE_ERROR :: u32 where "DOMAIN_EVENT_FEATURE_ERROR = 2302"

lemmas domain_event_ids = DOMAIN_EVENT_UNIT_COMPLETED_def DOMAIN_EVENT_UNIT_ERROR_def
  DOMAIN_EVENT_STEP_TIMEOUT_def DOMAIN_EVENT_SEQUENCE_COMPLETED_def DOMAIN_EVENT_SEQUENCE_ERROR_def
  DOMAIN_EVENT_SCENARIO_COMPLETED_def DOMAIN_EVENT_SCENARIO_ERROR_def
  DOMAIN_EVENT_FEATURE_COMPLETED_def DOMAIN_EVENT_FEATURE_ERROR_def

record domain_event_payload =
  dp_feature_request_id :: u32
  dp_unit_request_id :: u32
  dp_scenario_id :: u32
  dp_sequence_index :: nat
  dp_step_index :: nat
  dp_unit_number :: u8
  dp_error :: u32

section \<open>Payload bytes\<close>

definition sizeof_payload :: nat where
  "sizeof_payload = 40"

definition encode_payload :: "domain_event_payload \<Rightarrow> u8 list" where
  "encode_payload p =
     layout True 4 (ucast (dp_feature_request_id p)) @ layout True 4 (ucast (dp_unit_request_id p)) @
     layout True 4 (ucast (dp_scenario_id p)) @ replicate 4 0 @
     layout True 8 (of_nat (dp_sequence_index p)) @ layout True 8 (of_nat (dp_step_index p)) @
     [dp_unit_number p] @ replicate 3 0 @ layout True 4 (ucast (dp_error p))"

definition word_at :: "nat \<Rightarrow> nat \<Rightarrow> u8 list \<Rightarrow> u64" where
  "word_at offset n bytes = value_of True (take n (drop offset bytes))"

definition decode_payload :: "u8 list \<Rightarrow> domain_event_payload" where
  "decode_payload bytes = \<lparr>
     dp_feature_request_id = ucast (word_at 0 4 bytes), dp_unit_request_id = ucast (word_at 4 4 bytes),
     dp_scenario_id = ucast (word_at 8 4 bytes), dp_sequence_index = unat (word_at 16 8 bytes),
     dp_step_index = unat (word_at 24 8 bytes), dp_unit_number = bytes ! 32,
     dp_error = ucast (word_at 36 4 bytes)\<rparr>"

lemma length_encode_payload [simp]: "length (encode_payload p) = sizeof_payload"
  by (simp add: encode_payload_def sizeof_payload_def)

lemma encode_payload_nonempty [simp]: "encode_payload p \<noteq> []"
  by (metis length_encode_payload list.size(3) sizeof_payload_def zero_neq_numeral)

definition payload_ok :: "domain_event_payload \<Rightarrow> bool" where
  "payload_ok p \<longleftrightarrow> dp_sequence_index p \<le> size_max \<and> dp_step_index p \<le> size_max"

lemma decode_encode_payload:
  assumes "payload_ok p"
  shows "decode_payload (encode_payload p) = p"
proof -
  have low: "take_bit 32 (ucast (x :: u32) :: u64) = ucast x" for x
    by (rule bit_eqI) (auto simp: bit_simps dest: bit_imp_le_length)
  have all: "take_bit 64 (x :: u64) = x" for x by (rule take_bit_word_eq_self) simp
  have size: "unat (of_nat n :: u64) = n" if "n \<le> size_max" for n
    using that by (intro of_nat_inverse [OF refl]) (simp add: size_max_def)
  have w: "word_at 0 4 (encode_payload p) = ucast (dp_feature_request_id p)"
      "word_at 4 4 (encode_payload p) = ucast (dp_unit_request_id p)"
      "word_at 8 4 (encode_payload p) = ucast (dp_scenario_id p)"
      "word_at 16 8 (encode_payload p) = of_nat (dp_sequence_index p)"
      "word_at 24 8 (encode_payload p) = of_nat (dp_step_index p)"
      "word_at 36 4 (encode_payload p) = ucast (dp_error p)"
    by (simp_all add: word_at_def encode_payload_def value_of_layout low all)
  have "encode_payload p ! 32 = dp_unit_number p" by (simp add: encode_payload_def nth_append)
  moreover have "ucast (ucast (x :: u32) :: u64) = x" for x by (rule bit_eqI) (auto simp: bit_simps)
  ultimately show ?thesis using assms by (simp add: decode_payload_def w size payload_ok_def)
qed

section \<open>Operations\<close>

text \<open>Code addresses of the two lock callbacks.\<close>

definition domain_event_lock :: ptr where
  "domain_event_lock = 1"

definition domain_event_unlock :: ptr where
  "domain_event_unlock = 2"

text \<open>
  The mutex may fail to initialise; the address of the payload storage and of the mutex are where the
  allocator puts them.
\<close>

definition domain_event_publisher_create ::
    "bool \<Rightarrow> ptr \<Rightarrow> ptr \<Rightarrow> heap \<Rightarrow> ut_event_publisher option \<times> heap" where
  "domain_event_publisher_create mutex_available payload_address mutex_address h =
     (let (ok, h1) = heap_alloc h in
      if \<not> ok then (None, h1)
      else if \<not> mutex_available then (None, heap_free h1)
      else
        let (r, publisher) =
          ut_event_publisher_init (Some zero_publisher) (replicate DOMAIN_EVENT_QUEUE_CAPACITY zero_event)
            payload_address (replicate (DOMAIN_EVENT_QUEUE_CAPACITY * sizeof_payload) 0)
            (replicate DOMAIN_EVENT_QUEUE_CAPACITY False) DOMAIN_EVENT_QUEUE_CAPACITY sizeof_payload
            (replicate DOMAIN_EVENT_SUBSCRIPTION_CAPACITY zero_subscription) DOMAIN_EVENT_SUBSCRIPTION_CAPACITY
            domain_event_lock domain_event_unlock mutex_address
        in if r \<noteq> UT_EVENT_OK then (None, heap_free h1) else (publisher, h1))"

definition domain_event_publisher_destroy :: "ut_event_publisher option \<Rightarrow> heap \<Rightarrow> heap" where
  "domain_event_publisher_destroy publisher h = (if publisher \<noteq> None then heap_free h else h)"

definition domain_event_publisher_subscribe ::
    "ut_event_publisher option \<Rightarrow> u32 \<Rightarrow> ptr \<Rightarrow> ptr \<Rightarrow> ut_event_result \<times> ut_event_publisher option" where
  "domain_event_publisher_subscribe publisher event_id handler context =
     (if publisher = None then (UT_EVENT_INVALID_ARGUMENT, None)
      else ut_event_publisher_subscribe publisher event_id handler context)"

definition domain_event_publisher_publish ::
    "(ptr \<Rightarrow> ptr \<Rightarrow> 'e \<Rightarrow> 'e) \<Rightarrow> u32 \<Rightarrow> u32 \<Rightarrow> domain_event_payload option \<Rightarrow> 'e pworld option \<Rightarrow>
     ut_event_result \<times> 'e pworld option" where
  "domain_event_publisher_publish lock_fn event_id source payload publisher =
     (if publisher = None then (UT_EVENT_INVALID_ARGUMENT, None)
      else ut_event_publisher_publish_copy lock_fn event_id source
             (case payload of None \<Rightarrow> [] | Some p \<Rightarrow> encode_payload p) sizeof_payload publisher)"

definition unit_payload :: "unit_mock_result \<Rightarrow> domain_event_payload" where
  "unit_payload r = \<lparr>dp_feature_request_id = 0, dp_unit_request_id = ur_request_id r, dp_scenario_id = 0,
     dp_sequence_index = 0, dp_step_index = 0, dp_unit_number = ur_unit_number r,
     dp_error = (if ur_error r = UNIT_MOCK_ERROR_NONE then 0 else 1)\<rparr>"

definition domain_event_publisher_on_unit_result ::
    "(ptr \<Rightarrow> ptr \<Rightarrow> 'e \<Rightarrow> 'e) \<Rightarrow> unit_mock_result option \<Rightarrow> 'e pworld option \<Rightarrow> 'e pworld option" where
  "domain_event_publisher_on_unit_result lock_fn result publisher =
     (if publisher \<noteq> None \<and> result \<noteq> None then
        let event_id = (if ur_error (the result) = UNIT_MOCK_ERROR_NONE
                        then DOMAIN_EVENT_UNIT_COMPLETED else DOMAIN_EVENT_UNIT_ERROR)
        in snd (domain_event_publisher_publish lock_fn event_id (ucast (ur_unit_number (the result)))
                  (Some (unit_payload (the result))) publisher)
      else publisher)"

definition domain_event_publisher_dispatch ::
    "(ptr \<Rightarrow> ptr \<Rightarrow> 'u \<Rightarrow> 'u) \<Rightarrow> (ptr \<Rightarrow> ut_event \<Rightarrow> ptr \<Rightarrow> 'u pworld \<Rightarrow> 'u pworld) \<Rightarrow> nat \<Rightarrow> nat option \<Rightarrow>
     'u pworld option \<Rightarrow> ut_event_result \<times> 'u pworld option \<times> nat option" where
  "domain_event_publisher_dispatch lock_fn call budget out_dispatched publisher =
     (if publisher = None then (UT_EVENT_INVALID_ARGUMENT, None, out_dispatched)
      else ut_event_publisher_dispatch lock_fn call budget out_dispatched publisher)"

end
