(* ===== verification/Domain_Service.thy ===== *)
theory Domain_Service
  imports Workflow_Loader Domain_Events Event_State_Machine
begin

text \<open>
  The domain service (\<open>domain_service.c\<close>): three levels of runners (feature, scenario, sequence) that
  execute a workflow step by step and talk to each other and to the units through the domain event
  publisher. The service with the units it drives and the control layer's data is the handlers' data; a
  handler is a program over the publisher's operations (\<open>pub_task\<close> of \<open>Event_Publisher\<close>), since it
  publishes from inside a dispatch. \<open>k\<close> is what the caller does next. Log output is left out: it has no
  effect on the service.
\<close>

section \<open>Data\<close>

datatype domain_feature =
    DOMAIN_FEATURE_NONE | DOMAIN_FEATURE_A | DOMAIN_FEATURE_B | DOMAIN_FEATURE_C | DOMAIN_FEATURE_D | DOMAIN_FEATURE_E

primrec feature_number :: "domain_feature \<Rightarrow> u32" where
  "feature_number DOMAIN_FEATURE_NONE = 0"
| "feature_number DOMAIN_FEATURE_A = 1"
| "feature_number DOMAIN_FEATURE_B = 2"
| "feature_number DOMAIN_FEATURE_C = 3"
| "feature_number DOMAIN_FEATURE_D = 4"
| "feature_number DOMAIN_FEATURE_E = 5"

datatype domain_status = DOMAIN_STATUS_IDLE | DOMAIN_STATUS_RUNNING | DOMAIN_STATUS_COMPLETED | DOMAIN_STATUS_ERROR

text \<open>An error travels in payloads as a number, so the values of the enumeration are numbers.\<close>

definition DOMAIN_ERROR_NONE :: u32 where "DOMAIN_ERROR_NONE = 0"
definition DOMAIN_ERROR_UNIT_REJECTED :: u32 where "DOMAIN_ERROR_UNIT_REJECTED = 2"
definition DOMAIN_ERROR_UNIT_FAILED :: u32 where "DOMAIN_ERROR_UNIT_FAILED = 3"
definition DOMAIN_ERROR_STEP_TIMEOUT :: u32 where "DOMAIN_ERROR_STEP_TIMEOUT = 4"
definition DOMAIN_ERROR_INTERNAL :: u32 where "DOMAIN_ERROR_INTERNAL = 5"

lemmas domain_errors = DOMAIN_ERROR_NONE_def DOMAIN_ERROR_UNIT_REJECTED_def DOMAIN_ERROR_UNIT_FAILED_def
  DOMAIN_ERROR_STEP_TIMEOUT_def DOMAIN_ERROR_INTERNAL_def

datatype domain_input_result =
  DOMAIN_INPUT_ACCEPTED | DOMAIN_INPUT_BUSY | DOMAIN_INPUT_INVALID_ARGUMENT | DOMAIN_INPUT_UNSUPPORTED

record domain_service_input =
  in_feature :: domain_feature
  in_condition :: u32
  in_request_id :: u32

record domain_service_output =
  out_status :: domain_status
  out_feature :: domain_feature
  out_request_id :: u32
  out_scenario_id :: u32
  out_sequence_index :: nat
  out_step_index :: nat
  out_completed_step_count :: nat
  out_total_step_count :: nat
  out_error :: u32

record domain_sequence_runner =
  sq_machine :: ut_event_state_machine
  sq_definition :: "domain_sequence option"
  sq_step_index :: nat
  sq_unit_request_id :: u32
  sq_step_deadline_ms :: u64
  sq_step_running :: bool
  sq_timeout_published :: bool

record domain_scenario_runner =
  sc_machine :: ut_event_state_machine
  sc_definition :: "domain_scenario option"
  sc_sequence_index :: nat
  sc_sequence :: domain_sequence_runner

type_synonym 'c domain_control = "domain_service_output \<Rightarrow> ptr \<Rightarrow> 'c \<Rightarrow> 'c"

record 'c domain_service =
  dv_feature_machine :: ut_event_state_machine
  dv_scenario :: domain_scenario_runner
  dv_units :: "unit_mock option list"
  dv_unit_count :: nat
  dv_workflow_catalog :: "domain_workflow_catalog option"
  dv_output :: domain_service_output
  dv_current_time_ms :: u64
  dv_workflow_started :: bool
  dv_control_handler :: "'c domain_control option"
  dv_control_context :: ptr
  dv_control :: 'c

abbreviation sequence_of :: "'c domain_service \<Rightarrow> domain_sequence_runner" where
  "sequence_of s \<equiv> sc_sequence (dv_scenario s)"

definition with_sequence :: "domain_sequence_runner \<Rightarrow> 'c domain_service \<Rightarrow> 'c domain_service" where
  "with_sequence q s = s\<lparr>dv_scenario := (dv_scenario s)\<lparr>sc_sequence := q\<rparr>\<rparr>"

section \<open>Runner state machines\<close>

definition DOMAIN_FEATURE_SOURCE :: u32 where "DOMAIN_FEATURE_SOURCE = 100"
definition DOMAIN_SCENARIO_SOURCE :: u32 where "DOMAIN_SCENARIO_SOURCE = 200"
definition DOMAIN_SEQUENCE_SOURCE :: u32 where "DOMAIN_SEQUENCE_SOURCE = 300"
definition DOMAIN_DISPATCH_BUDGET :: nat where "DOMAIN_DISPATCH_BUDGET = 32"

definition DOMAIN_RUNNER_IDLE :: u32 where "DOMAIN_RUNNER_IDLE = 1"
definition DOMAIN_RUNNER_RUNNING :: u32 where "DOMAIN_RUNNER_RUNNING = 2"
definition DOMAIN_RUNNER_COMPLETED :: u32 where "DOMAIN_RUNNER_COMPLETED = 3"
definition DOMAIN_RUNNER_ERROR :: u32 where "DOMAIN_RUNNER_ERROR = 4"

definition DOMAIN_RUNNER_START :: u32 where "DOMAIN_RUNNER_START = 1"
definition DOMAIN_RUNNER_COMPLETE :: u32 where "DOMAIN_RUNNER_COMPLETE = 2"
definition DOMAIN_RUNNER_FAIL :: u32 where "DOMAIN_RUNNER_FAIL = 3"

lemmas runner_numbers = DOMAIN_RUNNER_IDLE_def DOMAIN_RUNNER_RUNNING_def DOMAIN_RUNNER_COMPLETED_def
  DOMAIN_RUNNER_ERROR_def DOMAIN_RUNNER_START_def DOMAIN_RUNNER_COMPLETE_def DOMAIN_RUNNER_FAIL_def

text \<open>The names of the states are addresses of literals.\<close>

definition runner_states :: "ut_event_state list" where
  "runner_states = map (\<lambda>(i, name). \<lparr>st_id = i, st_name = name, st_entry = 0, st_exit = 0, st_user_context = 0\<rparr>)
     [(DOMAIN_RUNNER_IDLE, 31), (DOMAIN_RUNNER_RUNNING, 32), (DOMAIN_RUNNER_COMPLETED, 33), (DOMAIN_RUNNER_ERROR, 34)]"

definition runner_transitions :: "ut_event_state_transition list" where
  "runner_transitions = map (\<lambda>(source, signal, target). \<lparr>tn_from_state = source, tn_event_id = signal,
       tn_to_state = target, tn_guard = 0, tn_action = 0, tn_user_context = 0, tn_options = 0, tn_reason = signal\<rparr>)
     [(DOMAIN_RUNNER_IDLE, DOMAIN_RUNNER_START, DOMAIN_RUNNER_RUNNING),
      (DOMAIN_RUNNER_RUNNING, DOMAIN_RUNNER_COMPLETE, DOMAIN_RUNNER_COMPLETED),
      (DOMAIN_RUNNER_RUNNING, DOMAIN_RUNNER_FAIL, DOMAIN_RUNNER_ERROR)]"

definition runner_initialize :: "ut_event_state_machine \<Rightarrow> u32 \<Rightarrow> bool \<times> ut_event_state_machine" where
  "runner_initialize machine source =
     (let (r, m) = ut_event_state_machine_init (Some machine) runner_states (length runner_states)
            runner_transitions (length runner_transitions) DOMAIN_RUNNER_IDLE source 0
      in (r = UT_EVENT_OK, the m))"

text \<open>The tables have no guards, hooks or trace, so the machine is all the state a signal touches.\<close>

definition runner_signal :: "ut_event_state_machine \<Rightarrow> u32 \<Rightarrow> bool \<times> ut_event_state_machine" where
  "runner_signal machine signal =
     (let (r, m, _) = ut_event_state_machine_dispatch Some (\<lambda>m _. m) (\<lambda>_ _ _ w. (True, w)) (\<lambda>_ _ _ w. w)
            (\<lambda>_ _ _ w. w) (Some \<lparr>ev_id = signal, ev_source = 0, ev_payload = 0, ev_payload_size = 0\<rparr>) None machine
      in (r = UT_EVENT_OK, m))"

definition runner_is :: "ut_event_state_machine \<Rightarrow> u32 \<Rightarrow> bool" where
  "runner_is machine state \<longleftrightarrow> ut_event_state_machine_current_state (Some machine) = state"

section \<open>Publishing\<close>

definition domain_current_payload :: "'c domain_service \<Rightarrow> u32 \<Rightarrow> domain_event_payload" where
  "domain_current_payload s error = \<lparr>
     dp_feature_request_id = out_request_id (dv_output s),
     dp_unit_request_id = sq_unit_request_id (sequence_of s),
     dp_scenario_id = out_scenario_id (dv_output s),
     dp_sequence_index = out_sequence_index (dv_output s),
     dp_step_index = out_step_index (dv_output s),
     dp_unit_number = 0, dp_error = error\<rparr>"

definition domain_publish ::
    "u32 \<Rightarrow> u32 \<Rightarrow> domain_event_payload \<Rightarrow> 'c domain_service \<Rightarrow> ('c domain_service \<Rightarrow> 'c domain_service pub_task) \<Rightarrow>
     'c domain_service pub_task" where
  "domain_publish event_id source payload s k =
     PPublish event_id source (encode_payload payload) (\<lambda>r.
       if r = UT_EVENT_OK then k s
       else k (s\<lparr>dv_output := (dv_output s)\<lparr>out_status := DOMAIN_STATUS_ERROR, out_error := DOMAIN_ERROR_INTERNAL\<rparr>\<rparr>))"

definition sequence_publish_error ::
    "u32 \<Rightarrow> 'c domain_service \<Rightarrow> ('c domain_service \<Rightarrow> 'c domain_service pub_task) \<Rightarrow> 'c domain_service pub_task" where
  "sequence_publish_error error s k =
     (let payload = domain_current_payload s error;
          q = sequence_of s;
          q1 = (if runner_is (sq_machine q) DOMAIN_RUNNER_RUNNING
                then q\<lparr>sq_machine := snd (runner_signal (sq_machine q) DOMAIN_RUNNER_FAIL)\<rparr> else q);
          s1 = with_sequence (q1\<lparr>sq_step_running := False\<rparr>) s
      in domain_publish DOMAIN_EVENT_SEQUENCE_ERROR DOMAIN_SEQUENCE_SOURCE payload s1 k)"

section \<open>Sequence runner\<close>

definition sequence_start_step ::
    "u64 \<Rightarrow> 'c domain_service \<Rightarrow> ('c domain_service \<Rightarrow> 'c domain_service pub_task) \<Rightarrow> 'c domain_service pub_task" where
  "sequence_start_step now_ms s k =
     (let q = sequence_of s;
          step = dq_steps (the (sq_definition q)) ! sq_step_index q;
          request_id = out_request_id (dv_output s) + of_nat (out_completed_step_count (dv_output s)) + 1;
          input = \<lparr>ui_command = ds_command step, ui_request_id = request_id\<rparr>
      in if dv_unit_count s \<le> ds_unit_index step \<or> dv_units s ! ds_unit_index step = None
         then sequence_publish_error DOMAIN_ERROR_INTERNAL s k
         else
           let (r, unit) = unit_mock_write_input (dv_units s ! ds_unit_index step) (Some input);
               s1 = s\<lparr>dv_units := (dv_units s)[ds_unit_index step := unit]\<rparr>
           in if r \<noteq> UNIT_MOCK_INPUT_ACCEPTED then sequence_publish_error DOMAIN_ERROR_UNIT_REJECTED s1 k
              else
                k (with_sequence (q\<lparr>sq_unit_request_id := request_id,
                       sq_step_deadline_ms := now_ms + ds_timeout_ms step,
                       sq_step_running := True, sq_timeout_published := False\<rparr>)
                     (s1\<lparr>dv_output := (dv_output s1)\<lparr>out_step_index := sq_step_index q\<rparr>\<rparr>)))"

definition scenario_start_sequence ::
    "u64 \<Rightarrow> 'c domain_service \<Rightarrow> ('c domain_service \<Rightarrow> 'c domain_service pub_task) \<Rightarrow> 'c domain_service pub_task" where
  "scenario_start_sequence now_ms s k =
     (let sc = dv_scenario s;
          (ok, machine) = runner_initialize (sq_machine (sc_sequence sc)) DOMAIN_SEQUENCE_SOURCE;
          s1 = with_sequence ((sc_sequence sc)\<lparr>sq_machine := machine\<rparr>) s
      in if \<not> ok then sequence_publish_error DOMAIN_ERROR_INTERNAL s1 k
         else
           let q = (sequence_of s1)\<lparr>
                 sq_definition := Some (dc_sequences (the (sc_definition sc)) ! sc_sequence_index sc),
                 sq_step_index := 0, sq_step_running := False\<rparr>;
               s2 = (with_sequence q s1)\<lparr>dv_output := (dv_output s1)\<lparr>out_sequence_index := sc_sequence_index sc\<rparr>\<rparr>;
               (started, machine) = runner_signal (sq_machine q) DOMAIN_RUNNER_START;
               s3 = with_sequence (q\<lparr>sq_machine := machine\<rparr>) s2
           in if \<not> started then sequence_publish_error DOMAIN_ERROR_INTERNAL s3 k
              else sequence_start_step now_ms s3 k)"

text \<open>The handlers receive the descriptor's id and the payload it points at.\<close>

definition sequence_on_unit_completed ::
    "domain_event_payload \<Rightarrow> 'c domain_service \<Rightarrow> 'c domain_service pub_task" where
  "sequence_on_unit_completed payload s =
     (let q = sequence_of s in
      if out_status (dv_output s) \<noteq> DOMAIN_STATUS_RUNNING \<or> \<not> sq_step_running q \<or>
         dp_unit_request_id payload \<noteq> sq_unit_request_id q
      then PDone s
      else
        let q1 = q\<lparr>sq_step_running := False, sq_step_index := size_add (sq_step_index q) 1\<rparr>;
            s1 = (with_sequence q1 s)\<lparr>dv_output := (dv_output s)\<lparr>
                    out_completed_step_count := size_add (out_completed_step_count (dv_output s)) 1\<rparr>\<rparr>
        in if dq_step_count (the (sq_definition q1)) \<le> sq_step_index q1 then
             let completed = domain_current_payload s1 DOMAIN_ERROR_NONE;
                 (ok, machine) = runner_signal (sq_machine q1) DOMAIN_RUNNER_COMPLETE;
                 s2 = with_sequence (q1\<lparr>sq_machine := machine\<rparr>) s1
             in if \<not> ok then sequence_publish_error DOMAIN_ERROR_INTERNAL s2 PDone
                else domain_publish DOMAIN_EVENT_SEQUENCE_COMPLETED DOMAIN_SEQUENCE_SOURCE completed s2 PDone
           else sequence_start_step (dv_current_time_ms s1) s1 PDone)"

definition sequence_on_failure ::
    "u32 \<Rightarrow> domain_event_payload \<Rightarrow> 'c domain_service \<Rightarrow> 'c domain_service pub_task" where
  "sequence_on_failure event_id payload s =
     (let q = sequence_of s in
      if out_status (dv_output s) = DOMAIN_STATUS_RUNNING \<and> sq_step_running q \<and>
         (event_id = DOMAIN_EVENT_STEP_TIMEOUT \<or> dp_unit_request_id payload = sq_unit_request_id q)
      then sequence_publish_error
             (if event_id = DOMAIN_EVENT_STEP_TIMEOUT then DOMAIN_ERROR_STEP_TIMEOUT else DOMAIN_ERROR_UNIT_FAILED)
             s PDone
      else PDone s)"

section \<open>Scenario and feature runners\<close>

definition with_scenario :: "domain_scenario_runner \<Rightarrow> 'c domain_service \<Rightarrow> 'c domain_service" where
  "with_scenario c s = s\<lparr>dv_scenario := c\<rparr>"

definition scenario_on_sequence_completed :: "'c domain_service \<Rightarrow> 'c domain_service pub_task" where
  "scenario_on_sequence_completed s =
     (let sc = (dv_scenario s)\<lparr>sc_sequence_index := size_add (sc_sequence_index (dv_scenario s)) 1\<rparr>;
          s1 = with_scenario sc s
      in if dc_sequence_count (the (sc_definition sc)) \<le> sc_sequence_index sc then
           let payload = domain_current_payload s1 DOMAIN_ERROR_NONE;
               (ok, machine) = runner_signal (sc_machine sc) DOMAIN_RUNNER_COMPLETE;
               s2 = with_scenario (sc\<lparr>sc_machine := machine\<rparr>) s1
           in if \<not> ok
              then domain_publish DOMAIN_EVENT_SCENARIO_ERROR DOMAIN_SCENARIO_SOURCE
                     (payload\<lparr>dp_error := DOMAIN_ERROR_INTERNAL\<rparr>) s2 PDone
              else domain_publish DOMAIN_EVENT_SCENARIO_COMPLETED DOMAIN_SCENARIO_SOURCE payload s2 PDone
         else scenario_start_sequence (dv_current_time_ms s1) s1 PDone)"

definition scenario_on_sequence_error ::
    "domain_event_payload \<Rightarrow> 'c domain_service \<Rightarrow> 'c domain_service pub_task" where
  "scenario_on_sequence_error payload s =
     (let sc = dv_scenario s;
          s1 = (if runner_is (sc_machine sc) DOMAIN_RUNNER_RUNNING
                then with_scenario (sc\<lparr>sc_machine := snd (runner_signal (sc_machine sc) DOMAIN_RUNNER_FAIL)\<rparr>) s else s)
      in domain_publish DOMAIN_EVENT_SCENARIO_ERROR DOMAIN_SCENARIO_SOURCE payload s1 PDone)"

definition feature_on_scenario_completed ::
    "domain_event_payload \<Rightarrow> 'c domain_service \<Rightarrow> 'c domain_service pub_task" where
  "feature_on_scenario_completed payload s =
     (let (ok, machine) = runner_signal (dv_feature_machine s) DOMAIN_RUNNER_COMPLETE;
          s1 = s\<lparr>dv_feature_machine := machine\<rparr>
      in if \<not> ok
         then domain_publish DOMAIN_EVENT_FEATURE_ERROR DOMAIN_FEATURE_SOURCE
                (payload\<lparr>dp_error := DOMAIN_ERROR_INTERNAL\<rparr>) s1 PDone
         else domain_publish DOMAIN_EVENT_FEATURE_COMPLETED DOMAIN_FEATURE_SOURCE payload s1 PDone)"

definition feature_on_scenario_error ::
    "domain_event_payload \<Rightarrow> 'c domain_service \<Rightarrow> 'c domain_service pub_task" where
  "feature_on_scenario_error payload s =
     (let s1 = (if runner_is (dv_feature_machine s) DOMAIN_RUNNER_RUNNING
                then s\<lparr>dv_feature_machine := snd (runner_signal (dv_feature_machine s) DOMAIN_RUNNER_FAIL)\<rparr> else s)
      in domain_publish DOMAIN_EVENT_FEATURE_ERROR DOMAIN_FEATURE_SOURCE payload s1 PDone)"

definition control_on_feature_event ::
    "u32 \<Rightarrow> domain_event_payload \<Rightarrow> 'c domain_service \<Rightarrow> 'c domain_service pub_task" where
  "control_on_feature_event event_id payload s =
     (let s1 = s\<lparr>dv_output := (dv_output s)\<lparr>
             out_status := (if event_id = DOMAIN_EVENT_FEATURE_COMPLETED then DOMAIN_STATUS_COMPLETED else DOMAIN_STATUS_ERROR),
             out_error := dp_error payload\<rparr>\<rparr>
      in PDone (case dv_control_handler s1 of
           None \<Rightarrow> s1
         | Some f \<Rightarrow> s1\<lparr>dv_control := f (dv_output s1) (dv_control_context s1) (dv_control s1)\<rparr>))"

section \<open>Subscriptions\<close>

text \<open>
  The code address of each handler, in the order \<open>domain_subscribe\<close> registers them, and what calling the
  function at an address does. The context every handler gets is the service.
\<close>

definition subscriptions :: "(u32 \<times> ptr) list" where
  "subscriptions =
     [(DOMAIN_EVENT_UNIT_COMPLETED, 11), (DOMAIN_EVENT_UNIT_ERROR, 12), (DOMAIN_EVENT_STEP_TIMEOUT, 12),
      (DOMAIN_EVENT_SEQUENCE_COMPLETED, 13), (DOMAIN_EVENT_SEQUENCE_ERROR, 14),
      (DOMAIN_EVENT_SCENARIO_COMPLETED, 15), (DOMAIN_EVENT_SCENARIO_ERROR, 16),
      (DOMAIN_EVENT_FEATURE_COMPLETED, 17), (DOMAIN_EVENT_FEATURE_ERROR, 17)]"

definition domain_handlers :: "ptr \<Rightarrow> message \<Rightarrow> ptr \<Rightarrow> 'c domain_service \<Rightarrow> 'c domain_service pub_task" where
  "domain_handlers h m context s =
     (let event_id = fst m; payload = decode_payload (snd (snd m)) in
      if h = 11 then sequence_on_unit_completed payload s
      else if h = 12 then sequence_on_failure event_id payload s
      else if h = 13 then scenario_on_sequence_completed s
      else if h = 14 then scenario_on_sequence_error payload s
      else if h = 15 then feature_on_scenario_completed payload s
      else if h = 16 then feature_on_scenario_error payload s
      else if h = 17 then control_on_feature_event event_id payload s
      else PDone s)"

text \<open>The chain of \<open>&&\<close>: it stops at the first registration that fails.\<close>

fun domain_subscribe_all ::
    "(u32 \<times> ptr) list \<Rightarrow> ptr \<Rightarrow> ut_event_publisher option \<Rightarrow> bool \<times> ut_event_publisher option" where
  "domain_subscribe_all [] service publisher = (True, publisher)"
| "domain_subscribe_all ((event_id, handler) # rest) service publisher =
     (let (r, publisher') = domain_event_publisher_subscribe publisher event_id handler service
      in if r = UT_EVENT_OK then domain_subscribe_all rest service publisher' else (False, publisher'))"

definition domain_subscribe :: "ptr \<Rightarrow> ut_event_publisher option \<Rightarrow> bool \<times> ut_event_publisher option" where
  "domain_subscribe service publisher = domain_subscribe_all subscriptions service publisher"

section \<open>The service interface\<close>

definition domain_prepare :: "domain_scenario \<Rightarrow> 'c domain_service \<Rightarrow> bool \<times> 'c domain_service" where
  "domain_prepare scenario s =
     (let (ok1, feature) = runner_initialize (dv_feature_machine s) DOMAIN_FEATURE_SOURCE;
          s1 = s\<lparr>dv_feature_machine := feature\<rparr>
      in if \<not> ok1 then (False, s1)
         else
           let (ok2, machine) = runner_initialize (sc_machine (dv_scenario s1)) DOMAIN_SCENARIO_SOURCE;
               s2 = with_scenario ((dv_scenario s1)\<lparr>sc_machine := machine\<rparr>) s1
           in if \<not> ok2 then (False, s2)
              else
                let s3 = with_scenario ((dv_scenario s2)\<lparr>sc_definition := Some scenario, sc_sequence_index := 0,
                           sc_sequence := (sequence_of s2)\<lparr>sq_definition := None\<rparr>\<rparr>) s2;
                    (ok3, feature) = runner_signal (dv_feature_machine s3) DOMAIN_RUNNER_START;
                    s4 = s3\<lparr>dv_feature_machine := feature\<rparr>
                in if \<not> ok3 then (False, s4)
                   else
                     let (ok4, machine) = runner_signal (sc_machine (dv_scenario s4)) DOMAIN_RUNNER_START
                     in (ok4, with_scenario ((dv_scenario s4)\<lparr>sc_machine := machine\<rparr>) s4))"

definition zero_machine :: ut_event_state_machine where
  "zero_machine = \<lparr>sm_states = [], sm_state_count = 0, sm_transitions = [], sm_transition_count = 0,
     sm_current_state = 0, sm_source = 0, sm_user_context = 0, sm_trace = None, sm_dispatching = False\<rparr>"

definition idle_output :: domain_service_output where
  "idle_output = \<lparr>out_status = DOMAIN_STATUS_IDLE, out_feature = DOMAIN_FEATURE_NONE, out_request_id = 0,
     out_scenario_id = 0, out_sequence_index = 0, out_step_index = 0, out_completed_step_count = 0,
     out_total_step_count = 0, out_error = DOMAIN_ERROR_NONE\<rparr>"

text \<open>The service as \<open>calloc\<close> leaves it, with the units it was given.\<close>

definition new_service :: "unit_mock option list \<Rightarrow> nat \<Rightarrow> 'c \<Rightarrow> 'c domain_service" where
  "new_service units unit_count control = \<lparr>
     dv_feature_machine = zero_machine,
     dv_scenario = \<lparr>sc_machine = zero_machine, sc_definition = None, sc_sequence_index = 0,
       sc_sequence = \<lparr>sq_machine = zero_machine, sq_definition = None, sq_step_index = 0, sq_unit_request_id = 0,
         sq_step_deadline_ms = 0, sq_step_running = False, sq_timeout_published = False\<rparr>\<rparr>,
     dv_units = units, dv_unit_count = unit_count, dv_workflow_catalog = None, dv_output = idle_output,
     dv_current_time_ms = 0, dv_workflow_started = False, dv_control_handler = None, dv_control_context = 0,
     dv_control = control\<rparr>"

text \<open>Directing every unit's results to the publisher; the loop stops at the first unit that refuses.\<close>

fun connect_units :: "unit_mock_result_output \<Rightarrow> unit_mock option list \<Rightarrow> bool \<times> unit_mock option list" where
  "connect_units out [] = (True, [])"
| "connect_units out (u # us) =
     (if u = None then (False, u # us)
      else let (r, u') = unit_mock_set_result_output u (Some out) in
        if r \<noteq> UNIT_MOCK_INPUT_ACCEPTED then (False, u' # us)
        else let (ok, us') = connect_units out us in (ok, u' # us'))"

definition domain_event_publisher_on_unit_result_fn :: ptr where
  "domain_event_publisher_on_unit_result_fn = 21"

text \<open>
  The addresses are where the allocator puts the service, the publisher, its payloads and its mutex. The
  result is the service and its publisher, and the units, which the caller owns, in both cases.
\<close>

definition domain_service_create ::
    "bool \<Rightarrow> ptr \<Rightarrow> ptr \<Rightarrow> ptr \<Rightarrow> ptr \<Rightarrow> 'c \<Rightarrow> unit_mock option list \<Rightarrow> nat \<Rightarrow> heap \<Rightarrow>
     (ut_event_publisher \<times> 'c domain_service) option \<times> unit_mock option list \<times> heap" where
  "domain_service_create mutex_available service_address publisher_address payload_address
       mutex_address control units unit_count h =
     (if units = [] \<or> unit_count < 10 then (None, units, h)
      else
        let (ok, h1) = heap_alloc h in
        if \<not> ok then (None, units, h1)
        else
          let (publisher, h2) = domain_event_publisher_create mutex_available payload_address mutex_address h1;
              (subscribed, publisher) =
                (if publisher = None then (False, publisher) else domain_subscribe service_address publisher);
              (connected, head_units) =
                (if subscribed
                 then connect_units \<lparr>ro_handler = domain_event_publisher_on_unit_result_fn, ro_context = publisher_address\<rparr>
                        (take unit_count units)
                 else (False, take unit_count units));
              units = head_units @ drop unit_count units
          in if \<not> connected then (None, units, heap_free (domain_event_publisher_destroy publisher h2))
             else (Some (the publisher, new_service units unit_count control), units, h2))"

definition domain_service_destroy :: "(ut_event_publisher \<times> 'c domain_service) option \<Rightarrow> heap \<Rightarrow> heap" where
  "domain_service_destroy service h =
     (case service of
        None \<Rightarrow> h
      | Some (publisher, s) \<Rightarrow>
          heap_free (domain_workflow_catalog_destroy (dv_workflow_catalog s)
            (domain_event_publisher_destroy (Some publisher) h)))"

definition domain_service_set_event_handler ::
    "'c domain_control option \<Rightarrow> ptr \<Rightarrow> 'c domain_service option \<Rightarrow> domain_input_result \<times> 'c domain_service option" where
  "domain_service_set_event_handler handler context service =
     (if service = None \<or> handler = None then (DOMAIN_INPUT_INVALID_ARGUMENT, service)
      else (DOMAIN_INPUT_ACCEPTED,
            Some ((the service)\<lparr>dv_control_handler := handler, dv_control_context := context\<rparr>)))"

definition domain_service_load_workflows_json ::
    "(string \<Rightarrow> json_file option) \<Rightarrow> string option \<Rightarrow> 'c domain_service option \<Rightarrow> heap \<Rightarrow>
     domain_workflow_load_result \<times> 'c domain_service option \<times> heap" where
  "domain_service_load_workflows_json open_file path service h =
     (if service = None \<or> path = None then (DOMAIN_WORKFLOW_LOAD_INVALID_ARGUMENT, service, h)
      else let s = the service in
        if out_status (dv_output s) = DOMAIN_STATUS_RUNNING then (DOMAIN_WORKFLOW_LOAD_BUSY, service, h)
        else
          let ((result, loaded_catalog), h1) = domain_workflow_catalog_load_json_file open_file path (dv_unit_count s) h
          in if result \<noteq> DOMAIN_WORKFLOW_LOAD_OK then (result, service, h1)
             else (result, Some (s\<lparr>
                    dv_scenario := (dv_scenario s)\<lparr>sc_definition := None,
                      sc_sequence := (sequence_of s)\<lparr>sq_definition := None\<rparr>\<rparr>,
                    dv_workflow_catalog := loaded_catalog\<rparr>),
                    domain_workflow_catalog_destroy (dv_workflow_catalog s) h1))"

definition domain_service_write_input ::
    "domain_service_input option \<Rightarrow> 'c domain_service option \<Rightarrow> domain_input_result \<times> 'c domain_service option" where
  "domain_service_write_input input service =
     (if service = None \<or> input = None \<or> in_feature (the input) = DOMAIN_FEATURE_NONE
      then (DOMAIN_INPUT_INVALID_ARGUMENT, service)
      else let s = the service; i = the input in
        if out_status (dv_output s) = DOMAIN_STATUS_RUNNING then (DOMAIN_INPUT_BUSY, service)
        else if in_feature i \<noteq> DOMAIN_FEATURE_A then (DOMAIN_INPUT_UNSUPPORTED, service)
        else
          let scenario = (if dv_workflow_catalog s = None then domain_workflow_feature_a (in_condition i)
                          else domain_workflow_catalog_find (dv_workflow_catalog s)
                                 (feature_number (in_feature i)) (in_condition i))
          in if scenario = None then (DOMAIN_INPUT_UNSUPPORTED, service)
             else
               let (prepared, s1) = domain_prepare (the scenario) s
               in if \<not> prepared then (DOMAIN_INPUT_INVALID_ARGUMENT, Some s1)
                  else (DOMAIN_INPUT_ACCEPTED, Some (s1\<lparr>
                    dv_output := \<lparr>out_status = DOMAIN_STATUS_RUNNING, out_feature = in_feature i,
                      out_request_id = in_request_id i, out_scenario_id = dc_id (the scenario),
                      out_sequence_index = 0, out_step_index = 0, out_completed_step_count = 0,
                      out_total_step_count = dc_total_step_count (the scenario), out_error = DOMAIN_ERROR_NONE\<rparr>,
                    dv_current_time_ms := 0, dv_workflow_started := False\<rparr>)))"

text \<open>What one cycle does before it dispatches: start the workflow, or publish a step's timeout.\<close>

definition process_task :: "u64 \<Rightarrow> 'c domain_service \<Rightarrow> 'c domain_service pub_task" where
  "process_task now_ms s =
     (let s1 = s\<lparr>dv_current_time_ms := now_ms\<rparr>; q = sequence_of s1 in
      if out_status (dv_output s1) = DOMAIN_STATUS_RUNNING then
        if \<not> dv_workflow_started s1
        then scenario_start_sequence now_ms (s1\<lparr>dv_workflow_started := True\<rparr>) PDone
        else if sq_step_running q \<and> \<not> sq_timeout_published q \<and> sq_step_deadline_ms q \<le> now_ms
        then domain_publish DOMAIN_EVENT_STEP_TIMEOUT DOMAIN_SEQUENCE_SOURCE
               (domain_current_payload s1 DOMAIN_ERROR_STEP_TIMEOUT)
               (with_sequence (q\<lparr>sq_timeout_published := True\<rparr>) s1) PDone
        else PDone s1
      else PDone s1)"

text \<open>\<open>lock_fn\<close> is what the mutex callbacks do to the rest of the world \<open>'e\<close>.\<close>

definition domain_service_process ::
    "(ptr \<Rightarrow> ptr \<Rightarrow> 'e \<Rightarrow> 'e) \<Rightarrow> u64 \<Rightarrow> ('e \<times> 'c domain_service) pworld option \<Rightarrow>
     ('e \<times> 'c domain_service) pworld option" where
  "domain_service_process lock_fn now_ms service =
     (case service of
        None \<Rightarrow> None
      | Some (p, (env, s)) \<Rightarrow>
          let ((p1, env1), s1) = run_ptask lock_fn (process_task now_ms s) (p, env);
              (r, service', n) = domain_event_publisher_dispatch (on_env lock_fn) (p_call lock_fn domain_handlers)
                 DOMAIN_DISPATCH_BUDGET None (Some (p1, (env1, s1)))
          in service')"

definition domain_service_read_output ::
    "'c domain_service option \<Rightarrow> domain_service_output option \<Rightarrow> domain_input_result \<times> domain_service_output option" where
  "domain_service_read_output service output =
     (if service = None \<or> output = None then (DOMAIN_INPUT_INVALID_ARGUMENT, output)
      else (DOMAIN_INPUT_ACCEPTED, Some (dv_output (the service))))"

end
