(* ===== verification/Domain_Safety.thy ===== *)
theory Domain_Safety
  imports Domain_Service
begin

text \<open>
  What the domain service guarantees under every driver: any order of inputs, cycles, unit results and
  unit states. The proofs run on the publisher's specification, a list of messages with their bytes
  (\<open>abs_ptask\<close>, \<open>abs_pdispatch\<close>), to which the refinement of \<open>Event_Publisher\<close> reduces the code.
\<close>

section \<open>Runner machines\<close>

text \<open>A runner's machine is its source and its state.\<close>

definition runner_at :: "u32 \<Rightarrow> u32 \<Rightarrow> ut_event_state_machine" where
  "runner_at source state = \<lparr>sm_states = runner_states, sm_state_count = length runner_states,
     sm_transitions = runner_transitions, sm_transition_count = length runner_transitions,
     sm_current_state = state, sm_source = source, sm_user_context = 0, sm_trace = None, sm_dispatching = False\<rparr>"

lemmas runner_tables = runner_states_def runner_transitions_def runner_numbers UT_EVENT_STATE_ID_ANY_def UT_EVENT_ID_ANY_def uint32_max_def

lemma runner_initialize_at: "runner_initialize m source = (True, runner_at source DOMAIN_RUNNER_IDLE)"
  by (simp add: runner_initialize_def runner_at_def ut_event_state_machine_init_def states_are_valid_def
      transitions_are_valid_def find_state_def runner_tables)

lemma runner_signal_at:
  "runner_signal (runner_at source DOMAIN_RUNNER_IDLE) DOMAIN_RUNNER_START = (True, runner_at source DOMAIN_RUNNER_RUNNING)"
  "runner_signal (runner_at source DOMAIN_RUNNER_RUNNING) DOMAIN_RUNNER_COMPLETE =
     (True, runner_at source DOMAIN_RUNNER_COMPLETED)"
  by (simp_all add: runner_signal_def ut_event_state_machine_dispatch_def runner_at_def machine_is_valid_def find_state_def
      runner_tables call_hook_def trace_transition_def Let_def)

section \<open>Domain events in the publisher's specification\<close>

definition chain_ids :: "u32 set" where
  "chain_ids = {DOMAIN_EVENT_SEQUENCE_COMPLETED, DOMAIN_EVENT_SEQUENCE_ERROR, DOMAIN_EVENT_SCENARIO_COMPLETED,
     DOMAIN_EVENT_SCENARIO_ERROR, DOMAIN_EVENT_FEATURE_COMPLETED, DOMAIN_EVENT_FEATURE_ERROR}"

definition failure_ids :: "u32 set" where
  "failure_ids = {DOMAIN_EVENT_SEQUENCE_ERROR, DOMAIN_EVENT_SCENARIO_ERROR, DOMAIN_EVENT_FEATURE_ERROR}"

definition domain_failures :: "u32 set" where
  "domain_failures = {DOMAIN_ERROR_UNIT_REJECTED, DOMAIN_ERROR_UNIT_FAILED, DOMAIN_ERROR_STEP_TIMEOUT, DOMAIN_ERROR_INTERNAL}"

text \<open>The messages one runner has for the next one up, and the payload of a message.\<close>

definition chain_messages :: "message list \<Rightarrow> message list" where
  "chain_messages ms = filter (\<lambda>m. fst m \<in> chain_ids) ms"

definition payload_of :: "message \<Rightarrow> domain_event_payload" where
  "payload_of m = decode_payload (snd (snd m))"

definition room :: "nat \<Rightarrow> message list \<Rightarrow> bool" where
  "room infl ms \<longleftrightarrow> length ms \<noteq> DOMAIN_EVENT_QUEUE_CAPACITY \<and>
     length (filter has_payload ms) + infl \<noteq> DOMAIN_EVENT_QUEUE_CAPACITY"

definition publish_failed :: "'c domain_service \<Rightarrow> 'c domain_service" where
  "publish_failed s = s\<lparr>dv_output := (dv_output s)\<lparr>out_status := DOMAIN_STATUS_ERROR, out_error := DOMAIN_ERROR_INTERNAL\<rparr>\<rparr>"

abbreviation run_task :: "nat \<Rightarrow> 'u pub_task \<Rightarrow> message list \<Rightarrow> message list \<times> 'u" where
  "run_task \<equiv> abs_ptask DOMAIN_EVENT_QUEUE_CAPACITY sizeof_payload"

lemma run_domain_publish:
  "run_task infl (domain_publish i source p s PDone) ms =
     (if room infl ms then (ms @ [(i, source, encode_payload p)], s) else (ms, publish_failed s))"
  by (simp add: domain_publish_def abs_publish_def room_def publish_failed_def has_payload_def)

lemma chain_messages_simps [simp]:
  "chain_messages [] = []" "chain_messages (ms @ ms') = chain_messages ms @ chain_messages ms'"
  "chain_messages (m # ms) = (if fst m \<in> chain_ids then m # chain_messages ms else chain_messages ms)"
  by (simp_all add: chain_messages_def)

lemma event_ids_chain [simp]:
  "DOMAIN_EVENT_SEQUENCE_COMPLETED \<in> chain_ids" "DOMAIN_EVENT_SEQUENCE_ERROR \<in> chain_ids"
  "DOMAIN_EVENT_SCENARIO_COMPLETED \<in> chain_ids" "DOMAIN_EVENT_SCENARIO_ERROR \<in> chain_ids"
  "DOMAIN_EVENT_FEATURE_COMPLETED \<in> chain_ids" "DOMAIN_EVENT_FEATURE_ERROR \<in> chain_ids"
  "DOMAIN_EVENT_UNIT_COMPLETED \<notin> chain_ids" "DOMAIN_EVENT_UNIT_ERROR \<notin> chain_ids"
  "DOMAIN_EVENT_STEP_TIMEOUT \<notin> chain_ids"
  by (simp_all add: chain_ids_def domain_event_ids)

lemma payload_of_encode:
  "payload_ok p \<Longrightarrow> payload_of (i, source, encode_payload p) = p"
  by (simp add: payload_of_def decode_encode_payload)

text \<open>The error and the request id survive the encoding whatever the indexes are.\<close>

lemma payload_error_encode [simp]:
  "dp_error (payload_of (i, source, encode_payload p)) = dp_error p"
  "dp_unit_request_id (payload_of (i, source, encode_payload p)) = dp_unit_request_id p"
proof -
  let ?p = "p\<lparr>dp_sequence_index := 0, dp_step_index := 0\<rparr>"
  have low: "take_bit 32 (ucast (x :: u32) :: u64) = ucast x" for x
    by (rule bit_eqI) (auto simp: bit_simps dest: bit_imp_le_length)
  have same: "ucast (ucast (x :: u32) :: u64) = x" for x by (rule bit_eqI) (auto simp: bit_simps)
  show "dp_error (payload_of (i, source, encode_payload p)) = dp_error p"
    "dp_unit_request_id (payload_of (i, source, encode_payload p)) = dp_unit_request_id p"
    by (simp_all add: payload_of_def decode_payload_def word_at_def encode_payload_def value_of_layout low same)
qed

section \<open>The invariant\<close>

text \<open>The steps of the sequences before a sequence, and a scenario that is being executed.\<close>

definition steps_before :: "domain_scenario \<Rightarrow> nat \<Rightarrow> nat" where
  "steps_before c i = length (concat (map dq_steps (take i (dc_sequences c))))"

definition running_scenario :: "domain_scenario \<Rightarrow> 'c domain_service \<Rightarrow> bool" where
  "running_scenario c s \<longleftrightarrow> scenario_ok (dv_unit_count s) c \<and> sc_definition (dv_scenario s) = Some c \<and>
     out_total_step_count (dv_output s) = dc_total_step_count c \<and>
     dv_feature_machine s = runner_at DOMAIN_FEATURE_SOURCE DOMAIN_RUNNER_RUNNING \<and>
     sc_machine (dv_scenario s) = runner_at DOMAIN_SCENARIO_SOURCE DOMAIN_RUNNER_RUNNING"

text \<open>The sequence runner is at a step of the current sequence, as many steps into the scenario as it counted.\<close>

definition at_step :: "domain_scenario \<Rightarrow> 'c domain_service \<Rightarrow> bool" where
  "at_step c s \<longleftrightarrow> (let q = sequence_of s; i = sc_sequence_index (dv_scenario s) in
     running_scenario c s \<and> i < length (dc_sequences c) \<and> sq_definition q = Some (dc_sequences c ! i) \<and>
     sq_machine q = runner_at DOMAIN_SEQUENCE_SOURCE DOMAIN_RUNNER_RUNNING \<and>
     sq_step_index q < length (dq_steps (dc_sequences c ! i)) \<and>
     out_completed_step_count (dv_output s) = steps_before c i + sq_step_index q)"

definition step_request :: "'c domain_service \<Rightarrow> nat \<Rightarrow> u32" where
  "step_request s k = out_request_id (dv_output s) + of_nat k + 1"

text \<open>
  No message between runners is on its way: the service is at rest, has yet to start (but not while the
  publisher is dispatching), or waits for a unit.
\<close>

definition quiet :: "bool \<Rightarrow> 'c domain_service \<Rightarrow> bool" where
  "quiet dispatching s \<longleftrightarrow> (let out = dv_output s in
     case out_status out of
       DOMAIN_STATUS_IDLE \<Rightarrow> out_error out = DOMAIN_ERROR_NONE
     | DOMAIN_STATUS_COMPLETED \<Rightarrow> out_error out = DOMAIN_ERROR_NONE \<and> out_completed_step_count out = out_total_step_count out
     | DOMAIN_STATUS_ERROR \<Rightarrow> out_error out \<in> domain_failures
     | DOMAIN_STATUS_RUNNING \<Rightarrow> out_error out = DOMAIN_ERROR_NONE \<and> (dispatching \<longrightarrow> dv_workflow_started s) \<and>
         (\<exists>c. if dv_workflow_started s
              then at_step c s \<and> sq_step_running (sequence_of s) \<and>
                sq_unit_request_id (sequence_of s) = step_request s (out_completed_step_count out)
              else running_scenario c s \<and> sc_sequence_index (dv_scenario s) = 0 \<and> out_completed_step_count out = 0))"

text \<open>One message is on its way up, and the service has got as far as it says.\<close>

definition reporting :: "message \<Rightarrow> 'c domain_service \<Rightarrow> bool" where
  "reporting m s \<longleftrightarrow> (let out = dv_output s; i = sc_sequence_index (dv_scenario s); error = dp_error (payload_of m) in
     out_status out = DOMAIN_STATUS_RUNNING \<and> out_error out = DOMAIN_ERROR_NONE \<and> dv_workflow_started s \<and>
     \<not> sq_step_running (sequence_of s) \<and>
     (fst m = DOMAIN_EVENT_SEQUENCE_COMPLETED \<and>
        (\<exists>c. running_scenario c s \<and> i < length (dc_sequences c) \<and>
           out_completed_step_count out = steps_before c (Suc i)) \<or>
      fst m = DOMAIN_EVENT_SCENARIO_COMPLETED \<and> error = DOMAIN_ERROR_NONE \<and>
        out_completed_step_count out = out_total_step_count out \<and>
        dv_feature_machine s = runner_at DOMAIN_FEATURE_SOURCE DOMAIN_RUNNER_RUNNING \<or>
      fst m = DOMAIN_EVENT_FEATURE_COMPLETED \<and> error = DOMAIN_ERROR_NONE \<and>
        out_completed_step_count out = out_total_step_count out \<or>
      fst m \<in> failure_ids \<and> error \<in> domain_failures))"

text \<open>
  What has happened so far: the request ids that units have reported as completed, and the catalog that
  was loaded last.
\<close>

type_synonym history = "u32 set \<times> domain_workflow_catalog option"

definition reports_ok :: "history \<Rightarrow> message list \<Rightarrow> 'c domain_service \<Rightarrow> bool" where
  "reports_ok reported ms s \<longleftrightarrow>
     (\<forall>m \<in> set ms. fst m = DOMAIN_EVENT_UNIT_COMPLETED \<longrightarrow> dp_unit_request_id (payload_of m) \<in> fst reported) \<and>
     (\<forall>k < out_completed_step_count (dv_output s). step_request s k \<in> fst reported) \<and>
     out_completed_step_count (dv_output s) \<le> out_total_step_count (dv_output s) \<and> 10 \<le> dv_unit_count s \<and>
     (out_status (dv_output s) \<noteq> DOMAIN_STATUS_IDLE \<longrightarrow> (\<exists>c. scenario_ok (dv_unit_count s) c \<and>
        dc_id c = out_scenario_id (dv_output s) \<and> dc_total_step_count c = out_total_step_count (dv_output s))) \<and>
     dv_workflow_catalog s = snd reported \<and> (\<forall>k. snd reported = Some k \<longrightarrow> loaded_ok (dv_unit_count s) k)"

definition domain_inv :: "bool \<Rightarrow> history \<Rightarrow> message list \<times> 'c domain_service \<Rightarrow> bool" where
  "domain_inv dispatching reported = (\<lambda>(ms, s). reports_ok reported ms s \<and>
     (case chain_messages ms of [] \<Rightarrow> quiet dispatching s | [m] \<Rightarrow> reporting m s | _ \<Rightarrow> False))"

lemma steps_before_Suc:
  "i < length (dc_sequences c) \<Longrightarrow> steps_before c (Suc i) = steps_before c i + length (dq_steps (dc_sequences c ! i))"
  by (simp add: steps_before_def take_Suc_conv_app_nth)

lemma steps_before_all: "scenario_ok n c \<Longrightarrow> steps_before c (length (dc_sequences c)) = dc_total_step_count c"
  by (simp add: steps_before_def scenario_ok_def all_steps_def)

lemma steps_before_le: "scenario_ok n c \<Longrightarrow> steps_before c i \<le> dc_total_step_count c"
proof -
  assume "scenario_ok n c"
  moreover have "length (concat (map dq_steps (take i cs))) \<le> length (concat (map dq_steps cs))" for cs
    by (metis append_take_drop_id concat_append length_append le_add1 map_append)
  ultimately show ?thesis by (simp add: steps_before_def scenario_ok_def all_steps_def)
qed

lemma scenario_sequence:
  "scenario_ok n c \<Longrightarrow> i < length (dc_sequences c) \<Longrightarrow>
    dq_step_count (dc_sequences c ! i) = length (dq_steps (dc_sequences c ! i)) \<and> dq_steps (dc_sequences c ! i) \<noteq> []"
  by (auto simp: scenario_ok_def sequence_ok_def list_all_length)

lemma scenario_size: "scenario_ok n c \<Longrightarrow> dc_total_step_count c \<le> size_max"
  by (simp add: scenario_ok_def)

text \<open>A message of the chain, and the messages that are not one.\<close>

lemma domain_inv_quiet: "chain_messages ms = [] \<Longrightarrow> domain_inv b R (ms, s) \<longleftrightarrow> reports_ok R ms s \<and> quiet b s"
  by (simp add: domain_inv_def)

lemma domain_inv_reporting:
  "chain_messages ms = [] \<Longrightarrow> fst m \<in> chain_ids \<Longrightarrow> domain_inv b R (ms @ [m], s) \<longleftrightarrow> reports_ok R ms s \<and> reporting m s"
  by (auto simp: domain_inv_def reports_ok_def)

lemma reports_ok_publish_failed:
  "reports_ok R ms s \<Longrightarrow> out_status (dv_output s) = DOMAIN_STATUS_RUNNING \<Longrightarrow> reports_ok R ms (publish_failed s)"
  by (simp add: reports_ok_def publish_failed_def step_request_def)

lemma quiet_publish_failed [simp]: "quiet b (publish_failed s)"
  by (simp add: quiet_def publish_failed_def domain_failures_def)

text \<open>Sending a message up the chain, or failing to for want of room.\<close>

lemma publish_chain_inv:
  assumes "chain_messages ms = []" "i \<in> chain_ids" "reports_ok R ms s" "reporting (i, source, encode_payload p) s"
  shows "domain_inv b R (run_task infl (domain_publish i source p s PDone) ms)"
proof -
  have "out_status (dv_output s) = DOMAIN_STATUS_RUNNING" using assms(4) by (simp add: reporting_def Let_def)
  with assms show ?thesis
    by (auto simp: run_domain_publish domain_inv_reporting domain_inv_quiet reports_ok_publish_failed)
qed

lemma failure_id_chain: "i \<in> failure_ids \<Longrightarrow> i \<in> chain_ids"
  by (auto simp: failure_ids_def)

lemma publish_failure_inv:
  assumes "chain_messages ms = []" "i \<in> failure_ids" "reports_ok R ms s" "dp_error p \<in> domain_failures"
    and "out_status (dv_output s) = DOMAIN_STATUS_RUNNING" "out_error (dv_output s) = DOMAIN_ERROR_NONE"
    and "dv_workflow_started s" "\<not> sq_step_running (sequence_of s)"
  shows "domain_inv b R (run_task infl (domain_publish i source p s PDone) ms)"
  using assms(2) by (intro publish_chain_inv failure_id_chain) (simp_all add: assms reporting_def Let_def)

section \<open>The handlers keep the invariant\<close>

text \<open>What a handler may change without touching what the messages and counters say.\<close>

lemma reports_ok_cong:
  assumes "out_status (dv_output s) \<noteq> DOMAIN_STATUS_IDLE \<longleftrightarrow> out_status (dv_output t) \<noteq> DOMAIN_STATUS_IDLE"
    and "out_scenario_id (dv_output t) = out_scenario_id (dv_output s)"
    and "out_request_id (dv_output t) = out_request_id (dv_output s)"
    and "out_completed_step_count (dv_output t) = out_completed_step_count (dv_output s)"
    and "out_total_step_count (dv_output t) = out_total_step_count (dv_output s)"
    and "dv_unit_count t = dv_unit_count s" "dv_workflow_catalog t = dv_workflow_catalog s"
  shows "reports_ok R ms t = reports_ok R ms s"
  using assms by (simp add: reports_ok_def step_request_def)

lemma failures_member [simp]:
  "DOMAIN_ERROR_UNIT_REJECTED \<in> domain_failures" "DOMAIN_ERROR_UNIT_FAILED \<in> domain_failures"
  "DOMAIN_ERROR_STEP_TIMEOUT \<in> domain_failures" "DOMAIN_ERROR_INTERNAL \<in> domain_failures"
  by (simp_all add: domain_failures_def)

lemma failure_ids_member [simp]:
  "DOMAIN_EVENT_SEQUENCE_ERROR \<in> failure_ids" "DOMAIN_EVENT_SCENARIO_ERROR \<in> failure_ids"
  "DOMAIN_EVENT_FEATURE_ERROR \<in> failure_ids"
  by (simp_all add: failure_ids_def)

definition in_progress :: "'c domain_service \<Rightarrow> bool" where
  "in_progress s \<longleftrightarrow> out_status (dv_output s) = DOMAIN_STATUS_RUNNING \<and> out_error (dv_output s) = DOMAIN_ERROR_NONE \<and>
     dv_workflow_started s"

lemma reports_ok_frame [simp]:
  "reports_ok R ms (s\<lparr>dv_units := us\<rparr>) = reports_ok R ms s"
  "reports_ok R ms (s\<lparr>dv_feature_machine := m\<rparr>) = reports_ok R ms s"
  "reports_ok R ms (s\<lparr>dv_current_time_ms := now\<rparr>) = reports_ok R ms s"
  "reports_ok R ms (s\<lparr>dv_workflow_started := b\<rparr>) = reports_ok R ms s"
  "reports_ok R ms (s\<lparr>dv_control := c\<rparr>) = reports_ok R ms s"
  by (simp_all add: reports_ok_def step_request_def)

lemma with_sequence_frame [simp]:
  "reports_ok R ms (with_sequence q s) = reports_ok R ms s" "in_progress (with_sequence q s) = in_progress s"
  by (simp_all add: with_sequence_def reports_ok_def step_request_def in_progress_def)

lemma publish_error_inv:
  assumes "chain_messages ms = []" "reports_ok R ms s" "in_progress s" "error \<in> domain_failures"
  shows "domain_inv b R (run_task infl (sequence_publish_error error s PDone) ms)"
  unfolding sequence_publish_error_def Let_def
  using assms
  by (intro publish_failure_inv)
    (simp_all add: domain_current_payload_def in_progress_def, simp_all add: with_sequence_def)

lemma start_step_inv:
  assumes "chain_messages ms = []" "reports_ok R ms s" "in_progress s" "at_step c s"
  shows "domain_inv b R (run_task infl (sequence_start_step now s PDone) ms)"
proof -
  let ?q = "sequence_of s"
  let ?step = "dq_steps (the (sq_definition ?q)) ! sq_step_index ?q"
  let ?id = "step_request s (out_completed_step_count (dv_output s))"
  obtain r unit where w: "unit_mock_write_input (dv_units s ! ds_unit_index ?step)
      (Some \<lparr>ui_command = ds_command ?step, ui_request_id = ?id\<rparr>) = (r, unit)"
    by (metis prod.collapse)
  let ?s = "s\<lparr>dv_units := (dv_units s)[ds_unit_index ?step := unit]\<rparr>"
  have s: "reports_ok R ms ?s" "in_progress ?s"
    using assms(2,3) by (simp_all add: in_progress_def)
  let ?t = "with_sequence (?q\<lparr>sq_unit_request_id := ?id, sq_step_deadline_ms := now + ds_timeout_ms ?step,
      sq_step_running := True, sq_timeout_published := False\<rparr>)
      (?s\<lparr>dv_output := (dv_output ?s)\<lparr>out_step_index := sq_step_index ?q\<rparr>\<rparr>)"
  have t: "reports_ok R ms ?t" using assms(2) by (rule reports_ok_cong [THEN iffD2, rotated -1]) (simp_all add: with_sequence_def)
  moreover have "at_step c ?t"
    using assms(4) by (simp add: at_step_def running_scenario_def with_sequence_def Let_def)
  then have "quiet b ?t"
    using assms(3) by (auto simp: quiet_def in_progress_def with_sequence_def Let_def step_request_def)
  ultimately have waits: "domain_inv b R (ms, ?t)" using assms(1) by (simp add: domain_inv_quiet)
  have id: "out_request_id (dv_output s) + of_nat (out_completed_step_count (dv_output s)) + 1 = ?id"
    by (simp add: step_request_def)
  show ?thesis
    unfolding sequence_start_step_def Let_def id w prod.case
    using publish_error_inv [OF assms(1-3)] publish_error_inv [OF assms(1) s] waits by simp
qed

lemma start_sequence_inv:
  assumes "chain_messages ms = []" "reports_ok R ms s" "in_progress s" "running_scenario c s"
    and "sc_sequence_index (dv_scenario s) < length (dc_sequences c)"
    and "out_completed_step_count (dv_output s) = steps_before c (sc_sequence_index (dv_scenario s))"
  shows "domain_inv b R (run_task infl (scenario_start_sequence now s PDone) ms)"
proof -
  let ?i = "sc_sequence_index (dv_scenario s)"
  let ?q = "(sequence_of s)\<lparr>sq_definition := Some (dc_sequences c ! ?i), sq_step_index := 0,
      sq_step_running := False, sq_machine := runner_at DOMAIN_SEQUENCE_SOURCE DOMAIN_RUNNER_RUNNING\<rparr>"
  let ?t = "with_sequence ?q (s\<lparr>dv_output := (dv_output s)\<lparr>out_sequence_index := ?i\<rparr>\<rparr>)"
  have c: "sc_definition (dv_scenario s) = Some c" "scenario_ok (dv_unit_count s) c"
    using assms(4) by (simp_all add: running_scenario_def)
  have "reports_ok R ms ?t" using assms(2) by (rule reports_ok_cong [THEN iffD2, rotated -1]) (simp_all add: with_sequence_def)
  moreover have "in_progress ?t" using assms(3) by (simp add: in_progress_def with_sequence_def)
  moreover have "at_step c ?t"
    using assms(4-6) scenario_sequence [OF c(2) assms(5)]
    by (simp add: at_step_def running_scenario_def with_sequence_def)
  ultimately have "domain_inv b R (run_task infl (sequence_start_step now ?t PDone) ms)"
    by (rule start_step_inv [OF assms(1)])
  moreover have "scenario_start_sequence now s PDone = sequence_start_step now ?t PDone"
    by (simp add: scenario_start_sequence_def runner_initialize_at runner_signal_at with_sequence_def c(1) Let_def)
  ultimately show ?thesis by simp
qed

text \<open>A step is counted when its unit has reported it.\<close>

lemma inv_step_running:
  assumes "domain_inv b R (ms, s)" "out_status (dv_output s) = DOMAIN_STATUS_RUNNING" "dv_workflow_started s"
    and "sq_step_running (sequence_of s)"
  obtains c where "chain_messages ms = []" "reports_ok R ms s" "in_progress s" "at_step c s"
    "sq_unit_request_id (sequence_of s) = step_request s (out_completed_step_count (dv_output s))"
  using assms by (auto simp: domain_inv_def quiet_def reporting_def in_progress_def Let_def split: list.splits)

lemma reports_ok_count:
  assumes "reports_ok R ms s" "step_request s (out_completed_step_count (dv_output s)) \<in> fst R"
    and "out_completed_step_count (dv_output s) < out_total_step_count (dv_output s)"
    and "dv_output t = (dv_output s)\<lparr>out_completed_step_count := Suc (out_completed_step_count (dv_output s))\<rparr>"
    and "dv_unit_count t = dv_unit_count s" "dv_workflow_catalog t = dv_workflow_catalog s"
  shows "reports_ok R ms t"
  using assms by (auto simp: reports_ok_def step_request_def less_Suc_eq)

lemma unit_completed_inv:
  assumes inv: "domain_inv b R (ms, s)" and started: "out_status (dv_output s) = DOMAIN_STATUS_RUNNING \<longrightarrow> dv_workflow_started s"
    and id: "dp_unit_request_id payload \<in> fst R"
  shows "domain_inv b R (run_task infl (sequence_on_unit_completed payload s) ms)"
proof (cases "out_status (dv_output s) \<noteq> DOMAIN_STATUS_RUNNING \<or> \<not> sq_step_running (sequence_of s) \<or>
    dp_unit_request_id payload \<noteq> sq_unit_request_id (sequence_of s)")
  case True
  then have "sequence_on_unit_completed payload s = PDone s" by (auto simp: sequence_on_unit_completed_def)
  with inv show ?thesis by simp
next
  case False
  with inv started obtain c where st: "chain_messages ms = []" "reports_ok R ms s" "in_progress s" "at_step c s"
    and expected: "sq_unit_request_id (sequence_of s) = step_request s (out_completed_step_count (dv_output s))"
    by (auto elim: inv_step_running)
  let ?q = "sequence_of s" let ?i = "sc_sequence_index (dv_scenario s)"
  let ?n = "length (dq_steps (dc_sequences c ! ?i))" let ?done = "out_completed_step_count (dv_output s)"
  have c: "running_scenario c s" "scenario_ok (dv_unit_count s) c" "?i < length (dc_sequences c)"
      "sq_definition ?q = Some (dc_sequences c ! ?i)" "?done = steps_before c ?i + sq_step_index ?q"
      "sq_step_index ?q < ?n" "out_total_step_count (dv_output s) = dc_total_step_count c"
      "sq_machine ?q = runner_at DOMAIN_SEQUENCE_SOURCE DOMAIN_RUNNER_RUNNING"
    using st(4) by (simp_all add: at_step_def running_scenario_def Let_def)
  have less: "?done < dc_total_step_count c"
    using steps_before_le [OF c(2), of "Suc ?i"] steps_before_Suc [OF c(3)] c(5,6) by simp
  have adds: "size_add ?done (Suc 0) = Suc ?done" "size_add (sq_step_index ?q) (Suc 0) = Suc (sq_step_index ?q)"
    using less scenario_size [OF c(2)] c(5) by (simp_all add: size_add_exact)
  have count: "dq_step_count (dc_sequences c ! ?i) = ?n" using scenario_sequence [OF c(2,3)] by simp
  let ?u = "(with_sequence (?q\<lparr>sq_step_running := False, sq_step_index := Suc (sq_step_index ?q)\<rparr>) s)
      \<lparr>dv_output := (dv_output s)\<lparr>out_completed_step_count := Suc ?done\<rparr>\<rparr>"
  let ?v = "with_sequence ((sequence_of ?u)\<lparr>sq_machine := runner_at DOMAIN_SEQUENCE_SOURCE DOMAIN_RUNNER_COMPLETED\<rparr>) ?u"
  have u: "reports_ok R ms ?u" "in_progress ?u"
    using st(2,3) less False id expected c(7)
    by (auto intro: reports_ok_count simp: with_sequence_def in_progress_def)
  then have v: "reports_ok R ms ?v" "in_progress ?v" by (simp_all only: with_sequence_frame)
  show ?thesis
  proof (cases "?n \<le> Suc (sq_step_index ?q)")
    case True
    have "sequence_on_unit_completed payload s = domain_publish DOMAIN_EVENT_SEQUENCE_COMPLETED DOMAIN_SEQUENCE_SOURCE
        (domain_current_payload ?u DOMAIN_ERROR_NONE) ?v PDone"
      using False True by (simp add: sequence_on_unit_completed_def Let_def adds c(4,8) count runner_signal_at with_sequence_def)
    moreover have "reporting (DOMAIN_EVENT_SEQUENCE_COMPLETED, DOMAIN_SEQUENCE_SOURCE,
        encode_payload (domain_current_payload ?u DOMAIN_ERROR_NONE)) ?v"
      using v(2) True c steps_before_Suc [OF c(3)]
      by (auto simp: reporting_def in_progress_def running_scenario_def with_sequence_def Let_def intro: exI [of _ c])
    ultimately show ?thesis using publish_chain_inv [OF st(1) _ v(1)] by simp
  next
    case more: False
    have "sequence_on_unit_completed payload s = sequence_start_step (dv_current_time_ms s) ?u PDone"
      using False more by (simp add: sequence_on_unit_completed_def Let_def adds c(4) count with_sequence_def)
    moreover have "at_step c ?u"
      using st(4) more by (simp add: at_step_def running_scenario_def with_sequence_def Let_def)
    ultimately show ?thesis using start_step_inv [OF st(1) u] by simp
  qed
qed

lemma failure_inv:
  assumes inv: "domain_inv b R (ms, s)" and started: "out_status (dv_output s) = DOMAIN_STATUS_RUNNING \<longrightarrow> dv_workflow_started s"
  shows "domain_inv b R (run_task infl (sequence_on_failure i payload s) ms)"
proof (cases "out_status (dv_output s) = DOMAIN_STATUS_RUNNING \<and> sq_step_running (sequence_of s)")
  case True
  with inv started obtain c where "chain_messages ms = []" "reports_ok R ms s" "in_progress s"
    by (auto elim: inv_step_running)
  with inv publish_error_inv [OF this] show ?thesis by (simp add: sequence_on_failure_def Let_def)
next
  case False
  with inv show ?thesis by (auto simp: sequence_on_failure_def Let_def)
qed

text \<open>The three levels above a sequence. What the message said is what \<open>reporting\<close> gives for its id.\<close>

lemma reportingD:
  assumes "reporting m s"
  shows "in_progress s" "\<not> sq_step_running (sequence_of s)"
    "fst m = DOMAIN_EVENT_SEQUENCE_COMPLETED \<Longrightarrow> \<exists>c. running_scenario c s \<and>
       sc_sequence_index (dv_scenario s) < length (dc_sequences c) \<and>
       out_completed_step_count (dv_output s) = steps_before c (Suc (sc_sequence_index (dv_scenario s)))"
    "fst m \<in> {DOMAIN_EVENT_SCENARIO_COMPLETED, DOMAIN_EVENT_FEATURE_COMPLETED} \<Longrightarrow>
       dp_error (payload_of m) = DOMAIN_ERROR_NONE \<and>
       out_completed_step_count (dv_output s) = out_total_step_count (dv_output s)"
    "fst m = DOMAIN_EVENT_SCENARIO_COMPLETED \<Longrightarrow>
       dv_feature_machine s = runner_at DOMAIN_FEATURE_SOURCE DOMAIN_RUNNER_RUNNING"
    "fst m \<in> failure_ids \<Longrightarrow> dp_error (payload_of m) \<in> domain_failures"
  using assms by (auto simp: reporting_def in_progress_def Let_def failure_ids_def domain_event_ids)

lemma sequences_le_steps:
  assumes "scenario_ok n c"
  shows "length (dc_sequences c) \<le> dc_total_step_count c"
proof -
  have "list_all (\<lambda>q. dq_steps q \<noteq> []) qs \<Longrightarrow> length qs \<le> length (concat (map dq_steps qs))" for qs
    by (induction qs) (auto simp: neq_Nil_conv)
  moreover have "list_all (\<lambda>q. dq_steps q \<noteq> []) (dc_sequences c)"
    using assms by (auto simp: scenario_ok_def sequence_ok_def list_all_iff)
  ultimately show ?thesis using assms by (simp add: scenario_ok_def all_steps_def)
qed

lemma with_scenario_frame [simp]:
  "reports_ok R ms (with_scenario c s) = reports_ok R ms s" "in_progress (with_scenario c s) = in_progress s"
  by (simp_all add: with_scenario_def reports_ok_def step_request_def in_progress_def)

lemma sequence_completed_inv:
  assumes chain: "chain_messages ms = []" and ok: "reports_ok R ms s" and m: "reporting m s"
    and id: "fst m = DOMAIN_EVENT_SEQUENCE_COMPLETED"
  shows "domain_inv b R (run_task infl (scenario_on_sequence_completed s) ms)"
proof -
  let ?i = "sc_sequence_index (dv_scenario s)"
  obtain c where c: "running_scenario c s" "?i < length (dc_sequences c)"
      "out_completed_step_count (dv_output s) = steps_before c (Suc ?i)"
    using reportingD(3) [OF m id] by blast
  have def: "sc_definition (dv_scenario s) = Some c" "scenario_ok (dv_unit_count s) c"
      "sc_machine (dv_scenario s) = runner_at DOMAIN_SCENARIO_SOURCE DOMAIN_RUNNER_RUNNING"
      "dc_sequence_count c = length (dc_sequences c)" "out_total_step_count (dv_output s) = dc_total_step_count c"
      "dv_feature_machine s = runner_at DOMAIN_FEATURE_SOURCE DOMAIN_RUNNER_RUNNING"
    using c(1) by (simp_all add: running_scenario_def scenario_ok_def)
  have add: "size_add ?i (Suc 0) = Suc ?i"
    using c(2) sequences_le_steps [OF def(2)] scenario_size [OF def(2)] by (simp add: size_add_exact)
  let ?u = "with_scenario ((dv_scenario s)\<lparr>sc_sequence_index := Suc ?i\<rparr>) s"
  let ?v = "with_scenario ((dv_scenario ?u)\<lparr>sc_machine := runner_at DOMAIN_SCENARIO_SOURCE DOMAIN_RUNNER_COMPLETED\<rparr>) ?u"
  have frame: "in_progress ?u" "in_progress ?v" "reports_ok R ms ?u" "reports_ok R ms ?v" "\<not> sq_step_running (sequence_of ?v)"
    using reportingD(1,2) [OF m] ok by simp_all (simp add: with_scenario_def)
  show ?thesis
  proof (cases "length (dc_sequences c) \<le> Suc ?i")
    case True
    then have "Suc ?i = length (dc_sequences c)" using c(2) by simp
    then have all: "out_completed_step_count (dv_output s) = out_total_step_count (dv_output s)"
      using c(3) def(5) steps_before_all [OF def(2)] by simp
    have "scenario_on_sequence_completed s = domain_publish DOMAIN_EVENT_SCENARIO_COMPLETED DOMAIN_SCENARIO_SOURCE
        (domain_current_payload ?u DOMAIN_ERROR_NONE) ?v PDone"
      using True by (simp add: scenario_on_sequence_completed_def Let_def add def runner_signal_at with_scenario_def)
    moreover have "reporting (DOMAIN_EVENT_SCENARIO_COMPLETED, DOMAIN_SCENARIO_SOURCE,
        encode_payload (domain_current_payload ?u DOMAIN_ERROR_NONE)) ?v"
      using frame(2,5) all def(6) by (simp add: reporting_def in_progress_def with_scenario_def domain_current_payload_def)
    ultimately show ?thesis using publish_chain_inv [OF chain _ frame(4)] by simp
  next
    case False
    then have "scenario_on_sequence_completed s = scenario_start_sequence (dv_current_time_ms ?u) ?u PDone"
      by (simp add: scenario_on_sequence_completed_def Let_def add def with_scenario_def)
    moreover have "running_scenario c ?u" using c(1) by (simp add: running_scenario_def with_scenario_def)
    moreover have "sc_sequence_index (dv_scenario ?u) = Suc ?i" "dv_output ?u = dv_output s"
      by (simp_all add: with_scenario_def)
    ultimately show ?thesis using start_sequence_inv [OF chain frame(3,1)] False c(3) by simp
  qed
qed

lemma upper_failure_inv:
  assumes "chain_messages ms = []" "reports_ok R ms s" "in_progress s" "\<not> sq_step_running (sequence_of s)"
    and "dp_error payload \<in> domain_failures"
  shows "domain_inv b R (run_task infl (scenario_on_sequence_error payload s) ms)"
    and "domain_inv b R (run_task infl (feature_on_scenario_error payload s) ms)"
proof -
  note frame = assms(2-4) [unfolded in_progress_def]
  show "domain_inv b R (run_task infl (scenario_on_sequence_error payload s) ms)"
    unfolding scenario_on_sequence_error_def Let_def
    using frame assms(1,5)
    by (intro publish_failure_inv) (simp_all, simp_all add: with_scenario_def)
  show "domain_inv b R (run_task infl (feature_on_scenario_error payload s) ms)"
    unfolding feature_on_scenario_error_def Let_def
    using frame assms(1,5)
    by (intro publish_failure_inv) simp_all
qed

lemma scenario_completed_inv:
  assumes chain: "chain_messages ms = []" and ok: "reports_ok R ms s" and m: "reporting m s"
    and id: "fst m = DOMAIN_EVENT_SCENARIO_COMPLETED"
  shows "domain_inv b R (run_task infl (feature_on_scenario_completed (payload_of m) s) ms)"
proof -
  let ?s = "s\<lparr>dv_feature_machine := runner_at DOMAIN_FEATURE_SOURCE DOMAIN_RUNNER_COMPLETED\<rparr>"
  have "feature_on_scenario_completed (payload_of m) s =
      domain_publish DOMAIN_EVENT_FEATURE_COMPLETED DOMAIN_FEATURE_SOURCE (payload_of m) ?s PDone"
    using reportingD(5) [OF m id] by (simp add: feature_on_scenario_completed_def runner_signal_at)
  moreover have "reports_ok R ms ?s" using ok by simp
  moreover have "reporting (DOMAIN_EVENT_FEATURE_COMPLETED, DOMAIN_FEATURE_SOURCE, encode_payload (payload_of m)) ?s"
    using reportingD(1,2,4) [OF m] id by (simp add: reporting_def in_progress_def)
  ultimately show ?thesis by (simp only: publish_chain_inv [OF chain event_ids_chain(5)])
qed

lemma feature_event_inv:
  assumes chain: "chain_messages ms = []" and ok: "reports_ok R ms s" and m: "reporting m s"
    and id: "fst m = DOMAIN_EVENT_FEATURE_COMPLETED \<or> fst m = DOMAIN_EVENT_FEATURE_ERROR"
  shows "domain_inv b R (run_task infl (control_on_feature_event (fst m) (payload_of m) s) ms)"
proof -
  obtain s' where s': "control_on_feature_event (fst m) (payload_of m) s = PDone s'"
    and same: "dv_output s' = (dv_output s)\<lparr>out_status := (if fst m = DOMAIN_EVENT_FEATURE_COMPLETED
        then DOMAIN_STATUS_COMPLETED else DOMAIN_STATUS_ERROR), out_error := dp_error (payload_of m)\<rparr>"
      "dv_unit_count s' = dv_unit_count s" "dv_workflow_catalog s' = dv_workflow_catalog s"
    by (cases "dv_control_handler s") (simp_all add: control_on_feature_event_def Let_def)
  have "reports_ok R ms s'"
    using ok by (subst reports_ok_cong [where s = s]) (use same reportingD(1) [OF m] in \<open>simp_all add: in_progress_def\<close>)
  moreover have "quiet b s'"
    using id reportingD(4,6) [OF m] by (auto simp: quiet_def same)
  ultimately show ?thesis using chain by (simp add: s' domain_inv_quiet)
qed

section \<open>Dispatching\<close>

text \<open>The dispatcher as \<open>domain_subscribe\<close> leaves it: one handler per event id.\<close>

definition wired :: "ptr \<Rightarrow> ut_event_dispatcher \<Rightarrow> bool" where
  "wired service d \<longleftrightarrow> (\<forall>i. handlers_of d i = (case map_of subscriptions i of None \<Rightarrow> [] | Some h \<Rightarrow> [(h, service)]))"

abbreviation deliver :: "ut_event_dispatcher \<Rightarrow> nat \<Rightarrow> message \<Rightarrow> message list \<times> 'c domain_service \<Rightarrow>
    message list \<times> 'c domain_service" where
  "deliver d infl m \<equiv> abs_pdeliver DOMAIN_EVENT_QUEUE_CAPACITY sizeof_payload infl domain_handlers m (handlers_of d (fst m))"

lemma deliver_handler:
  assumes "wired service d"
  shows "deliver d infl m (ms, s) = (case map_of subscriptions (fst m) of
      None \<Rightarrow> (ms, s) | Some h \<Rightarrow> run_task infl (domain_handlers h m service s) ms)"
  using assms by (auto simp: wired_def split: option.split)

lemma map_of_subscriptions [simp]:
  "map_of subscriptions DOMAIN_EVENT_UNIT_COMPLETED = Some 11" "map_of subscriptions DOMAIN_EVENT_UNIT_ERROR = Some 12"
  "map_of subscriptions DOMAIN_EVENT_STEP_TIMEOUT = Some 12" "map_of subscriptions DOMAIN_EVENT_SEQUENCE_COMPLETED = Some 13"
  "map_of subscriptions DOMAIN_EVENT_SEQUENCE_ERROR = Some 14" "map_of subscriptions DOMAIN_EVENT_SCENARIO_COMPLETED = Some 15"
  "map_of subscriptions DOMAIN_EVENT_SCENARIO_ERROR = Some 16" "map_of subscriptions DOMAIN_EVENT_FEATURE_COMPLETED = Some 17"
  "map_of subscriptions DOMAIN_EVENT_FEATURE_ERROR = Some 17"
  by (simp_all add: subscriptions_def domain_event_ids)

lemma map_of_subscriptions_other:
  "i \<notin> chain_ids \<Longrightarrow> i \<noteq> DOMAIN_EVENT_UNIT_COMPLETED \<Longrightarrow> i \<noteq> DOMAIN_EVENT_UNIT_ERROR \<Longrightarrow> i \<noteq> DOMAIN_EVENT_STEP_TIMEOUT \<Longrightarrow>
    map_of subscriptions i = None"
  by (simp add: subscriptions_def chain_ids_def)

lemma handler_cases:
  "domain_handlers 11 m c s = sequence_on_unit_completed (payload_of m) s"
  "domain_handlers 12 m c s = sequence_on_failure (fst m) (payload_of m) s"
  "domain_handlers 13 m c s = scenario_on_sequence_completed s"
  "domain_handlers 14 m c s = scenario_on_sequence_error (payload_of m) s"
  "domain_handlers 15 m c s = feature_on_scenario_completed (payload_of m) s"
  "domain_handlers 16 m c s = feature_on_scenario_error (payload_of m) s"
  "domain_handlers 17 m c s = control_on_feature_event (fst m) (payload_of m) s"
  by (simp_all add: domain_handlers_def payload_of_def)

lemma deliver_inv:
  assumes inv: "domain_inv True R (m # ms, s)" and d: "wired service d"
  shows "domain_inv True R (deliver d infl m (ms, s))"
proof (cases "fst m \<in> chain_ids")
  case True
  then have st: "chain_messages ms = []" "reports_ok R ms s" "reporting m s"
    using inv by (auto simp: domain_inv_def reports_ok_def split: list.splits)
  note failed = upper_failure_inv [OF st(1,2) reportingD(1,2) [OF st(3)], of "payload_of m"]
  consider "fst m = DOMAIN_EVENT_SEQUENCE_COMPLETED" | "fst m = DOMAIN_EVENT_SEQUENCE_ERROR"
    | "fst m = DOMAIN_EVENT_SCENARIO_COMPLETED" | "fst m = DOMAIN_EVENT_SCENARIO_ERROR"
    | "fst m = DOMAIN_EVENT_FEATURE_COMPLETED \<or> fst m = DOMAIN_EVENT_FEATURE_ERROR"
    using True by (auto simp: chain_ids_def)
  then show ?thesis
  proof cases
    case 1
    then show ?thesis unfolding deliver_handler [OF d] using sequence_completed_inv [OF st] by (simp add: handler_cases)
  next
    case 2
    then show ?thesis unfolding deliver_handler [OF d] using failed(1) reportingD(6) [OF st(3)] by (simp add: handler_cases)
  next
    case 3
    then show ?thesis unfolding deliver_handler [OF d] using scenario_completed_inv [OF st] by (simp add: handler_cases)
  next
    case 4
    then show ?thesis unfolding deliver_handler [OF d] using failed(2) reportingD(6) [OF st(3)] by (simp add: handler_cases)
  next
    case 5
    then show ?thesis unfolding deliver_handler [OF d] using feature_event_inv [OF st] by (auto simp: handler_cases)
  qed
next
  case False
  then have rest: "domain_inv True R (ms, s)" and id: "fst m = DOMAIN_EVENT_UNIT_COMPLETED \<Longrightarrow> dp_unit_request_id (payload_of m) \<in> fst R"
    using inv by (auto simp: domain_inv_def reports_ok_def)
  have started: "out_status (dv_output s) = DOMAIN_STATUS_RUNNING \<longrightarrow> dv_workflow_started s"
    using rest by (auto simp: domain_inv_def quiet_def reporting_def Let_def split: list.splits)
  show ?thesis
    unfolding deliver_handler [OF d]
    using False map_of_subscriptions_other [OF False] rest id unit_completed_inv [OF rest started] failure_inv [OF rest started]
    by (cases "fst m \<in> {DOMAIN_EVENT_UNIT_COMPLETED, DOMAIN_EVENT_UNIT_ERROR, DOMAIN_EVENT_STEP_TIMEOUT}")
      (auto simp: handler_cases)
qed

lemma dispatch_inv:
  assumes "wired service d"
  shows "domain_inv True R st \<Longrightarrow>
    domain_inv True R (snd (abs_pdispatch DOMAIN_EVENT_QUEUE_CAPACITY sizeof_payload d domain_handlers n st))"
proof (induction n arbitrary: st)
  case (Suc n)
  show ?case
  proof (cases "fst st")
    case Nil
    with Suc.prems show ?thesis by (cases st) simp
  next
    case (Cons m ms)
    then obtain s where st: "st = (m # ms, s)" by (cases st) simp
    with Suc.IH deliver_inv [OF Suc.prems [unfolded st] assms] show ?thesis
      by (simp add: Let_def split: prod.split) (metis snd_conv)
  qed
qed simp

section \<open>Inputs and cycles\<close>

lemma chain_frame: "domain_inv b R (ms @ [m], s) = domain_inv b R (ms, s)"
  if "fst m \<notin> chain_ids" "fst m = DOMAIN_EVENT_UNIT_COMPLETED \<Longrightarrow> dp_unit_request_id (payload_of m) \<in> fst R"
  using that by (auto simp: domain_inv_def reports_ok_def)

lemma domain_inv_frame:
  assumes "quiet b t = quiet b s" "\<And>m. reporting m t = reporting m s" "reports_ok R ms t = reports_ok R ms s"
  shows "domain_inv b R (ms, t) = domain_inv b R (ms, s)"
  using assms by (auto simp: domain_inv_def split: list.split)

lemma time_frame [simp]:
  "domain_inv b R (ms, s\<lparr>dv_current_time_ms := now\<rparr>) = domain_inv b R (ms, s)"
proof -
  have "quiet b (s\<lparr>dv_current_time_ms := now\<rparr>) = quiet b s" "reporting m (s\<lparr>dv_current_time_ms := now\<rparr>) = reporting m s" for m
    by (cases "out_status (dv_output s)";
        simp add: quiet_def reporting_def at_step_def running_scenario_def step_request_def Let_def)+
  then show ?thesis by (rule domain_inv_frame) simp
qed

lemma domain_inv_weaken: "domain_inv True R st \<Longrightarrow> domain_inv False R st"
  by (cases st) (auto simp: domain_inv_def quiet_def Let_def split: list.splits domain_status.splits)

lemma domain_inv_strengthen:
  "domain_inv False R (ms, s) \<Longrightarrow> out_status (dv_output s) = DOMAIN_STATUS_RUNNING \<longrightarrow> dv_workflow_started s \<Longrightarrow>
    domain_inv True R (ms, s)"
  by (auto simp: domain_inv_def quiet_def Let_def split: list.splits domain_status.splits)

lemma inv_not_started:
  assumes "domain_inv b R (ms, s)" "out_status (dv_output s) = DOMAIN_STATUS_RUNNING" "\<not> dv_workflow_started s"
  obtains c where "chain_messages ms = []" "reports_ok R ms s" "out_error (dv_output s) = DOMAIN_ERROR_NONE"
    "running_scenario c s" "sc_sequence_index (dv_scenario s) = 0" "out_completed_step_count (dv_output s) = 0"
  using assms by (auto simp: domain_inv_def quiet_def reporting_def Let_def split: list.splits)

lemma process_task_inv:
  assumes inv: "domain_inv False R (ms, s)"
  shows "domain_inv True R (run_task infl (process_task now s) ms)"
proof (cases "out_status (dv_output s) = DOMAIN_STATUS_RUNNING")
  case False
  with domain_inv_strengthen [OF inv] show ?thesis by (simp add: process_task_def Let_def)
next
  case running: True
  show ?thesis
  proof (cases "dv_workflow_started s")
    case False
    then obtain c where st: "chain_messages ms = []" "reports_ok R ms s" "out_error (dv_output s) = DOMAIN_ERROR_NONE"
        "running_scenario c s" "sc_sequence_index (dv_scenario s) = 0" "out_completed_step_count (dv_output s) = 0"
      using inv running by (auto elim: inv_not_started)
    let ?s = "s\<lparr>dv_current_time_ms := now, dv_workflow_started := True\<rparr>"
    have "0 < length (dc_sequences c)" using st(4) by (simp add: running_scenario_def scenario_ok_def)
    moreover have "running_scenario c ?s" using st(4) by (simp add: running_scenario_def)
    moreover have "reports_ok R ms ?s" "in_progress ?s" using st(2,3) running by (simp_all add: in_progress_def)
    ultimately show ?thesis
      using start_sequence_inv [OF st(1), of R ?s c True infl now] running False st(5,6)
      by (simp add: process_task_def Let_def steps_before_def)
  next
    case started: True
    let ?q = "sequence_of s"
    have here: "domain_inv True R (ms, s)" using domain_inv_strengthen [OF inv] started by simp
    show ?thesis
    proof (cases "sq_step_running ?q \<and> \<not> sq_timeout_published ?q \<and> sq_step_deadline_ms ?q \<le> now")
      case True
      let ?s = "with_sequence (?q\<lparr>sq_timeout_published := True\<rparr>) (s\<lparr>dv_current_time_ms := now\<rparr>)"
      obtain c where st: "chain_messages ms = []" "reports_ok R ms s" "in_progress s" "at_step c s"
          "sq_unit_request_id ?q = step_request s (out_completed_step_count (dv_output s))"
        using inv_step_running [OF inv running started] True by blast
      have "at_step c ?s" using st(4) by (simp add: at_step_def running_scenario_def with_sequence_def Let_def)
      then have "quiet True ?s"
        using st(3,5) True by (auto simp: quiet_def in_progress_def with_sequence_def step_request_def Let_def)
      moreover have "reports_ok R ms ?s" using st(2) by simp
      ultimately have "domain_inv True R (ms, ?s)" using st(1) by (simp add: domain_inv_quiet)
      moreover have "reports_ok R ms (publish_failed ?s)"
        using st(2) running by (intro reports_ok_publish_failed) (simp, simp add: with_sequence_def)
      then have "domain_inv True R (ms, publish_failed ?s)" using st(1) by (simp add: domain_inv_quiet)
      moreover have "DOMAIN_EVENT_STEP_TIMEOUT \<noteq> DOMAIN_EVENT_UNIT_COMPLETED" by (simp add: domain_event_ids)
      ultimately show ?thesis
        using running started True unfolding process_task_def Let_def
        by (simp add: run_domain_publish) (subst chain_frame, simp_all)
    next
      case False
      then show ?thesis using running started here by (auto simp: process_task_def Let_def)
    qed
  qed
qed

text \<open>An accepted input starts a new run, whatever the last one left behind.\<close>

lemma inv_not_running:
  assumes "domain_inv b R (ms, s)" "out_status (dv_output s) \<noteq> DOMAIN_STATUS_RUNNING"
  shows "chain_messages ms = []" "reports_ok R ms s" "quiet b s"
  using assms by (auto simp: domain_inv_def reporting_def Let_def split: list.splits)

lemma prepare_running:
  "domain_prepare c s = (True, s\<lparr>
     dv_feature_machine := runner_at DOMAIN_FEATURE_SOURCE DOMAIN_RUNNER_RUNNING,
     dv_scenario := \<lparr>sc_machine = runner_at DOMAIN_SCENARIO_SOURCE DOMAIN_RUNNER_RUNNING, sc_definition = Some c,
       sc_sequence_index = 0, sc_sequence = (sequence_of s)\<lparr>sq_definition := None\<rparr>\<rparr>\<rparr>)"
  by (simp add: domain_prepare_def runner_initialize_at runner_signal_at with_scenario_def)

lemma loaded_catalog_ok: "loaded_ok n k \<Longrightarrow> catalog_ok n k"
  by (auto simp: loaded_ok_def catalog_ok_def entry_ok_def list_all_iff)

lemma input_scenario_ok:
  assumes "reports_ok R ms s"
    and "(if dv_workflow_catalog s = None then domain_workflow_feature_a n
          else domain_workflow_catalog_find (dv_workflow_catalog s) f n) = Some c"
  shows "scenario_ok (dv_unit_count s) c"
proof (cases "dv_workflow_catalog s")
  case None
  with assms built_in_ok [of "dv_unit_count s" n c] show ?thesis by (simp add: reports_ok_def)
next
  case (Some k)
  with assms(1) have "loaded_ok (dv_unit_count s) k" by (simp add: reports_ok_def)
  with Some assms(2) catalog_find_ok [OF loaded_catalog_ok, of "dv_unit_count s" k f n c] show ?thesis by simp
qed

lemma write_input_service: "\<exists>r s'. domain_service_write_input (Some i) (Some s) = (r, Some s')"
  by (simp add: domain_service_write_input_def prepare_running Let_def)

lemma write_input_inv:
  assumes inv: "domain_inv False R (ms, s)" and w: "domain_service_write_input (Some i) (Some s) = (r, Some s')"
  shows "domain_inv False R (ms, s')"
proof (cases "r = DOMAIN_INPUT_ACCEPTED")
  case False
  with w inv show ?thesis
    by (auto simp: domain_service_write_input_def prepare_running Let_def split: if_splits)
next
  case True
  let ?c = "if dv_workflow_catalog s = None then domain_workflow_feature_a (in_condition i)
    else domain_workflow_catalog_find (dv_workflow_catalog s) (feature_number (in_feature i)) (in_condition i)"
  from True w obtain c where c: "?c = Some c" and idle: "out_status (dv_output s) \<noteq> DOMAIN_STATUS_RUNNING"
    and s': "s' = (snd (domain_prepare c s))\<lparr>dv_output := \<lparr>out_status = DOMAIN_STATUS_RUNNING, out_feature = in_feature i,
        out_request_id = in_request_id i, out_scenario_id = dc_id c, out_sequence_index = 0, out_step_index = 0,
        out_completed_step_count = 0, out_total_step_count = dc_total_step_count c, out_error = DOMAIN_ERROR_NONE\<rparr>,
        dv_current_time_ms := 0, dv_workflow_started := False\<rparr>"
    by (cases ?c) (auto simp: domain_service_write_input_def prepare_running Let_def split: if_splits)
  note st = inv_not_running [OF inv idle]
  have ok: "scenario_ok (dv_unit_count s) c" by (rule input_scenario_ok [OF st(2) c])
  then have "reports_ok R ms s'"
    using st(2) by (auto simp: reports_ok_def s' prepare_running)
  moreover have "quiet False s'"
    using ok by (auto simp: quiet_def s' prepare_running running_scenario_def)
  ultimately show ?thesis using st(1) by (simp add: domain_inv_quiet)
qed

section \<open>From the publisher to its specification\<close>

text \<open>A program that only publishes runs outside a dispatch as well.\<close>

primrec publishing :: "'u pub_task \<Rightarrow> bool" where
  "publishing (PDone u) = True"
| "publishing (PPublish i s bs k) = (\<forall>r. publishing (k r))"
| "publishing (PCount k) = False"
| "publishing (PSubscribe i h c k) = False"
| "publishing (PDispatch n k) = False"

lemma publishing_domain_publish [simp]:
  "(\<And>s. publishing (k s)) \<Longrightarrow> publishing (domain_publish i source payload s k)"
  by (simp add: domain_publish_def)

lemma publishing_process_task: "publishing (process_task now s)"
  by (simp add: process_task_def scenario_start_sequence_def sequence_start_step_def sequence_publish_error_def Let_def
      split: prod.split)

lemma run_publishing_abs:
  "publisher_wf [] p \<Longrightarrow> publishing t \<Longrightarrow>
    \<exists>p' n u. run_ptask lock_fn t (p, env) = ((p', (critical lock_fn p ^^ n) env), u) \<and>
      publisher_wf [] p' \<and> same_config p p' \<and> p_dispatcher p' = p_dispatcher p \<and>
      abs_ptask (p_capacity p) (p_payload_capacity p) 0 t (messages p) = (messages p', u)"
proof (induction t arbitrary: p env)
  case (PDone u)
  then show ?case by (intro exI [of _ p] exI [of _ 0]) simp
next
  case (PPublish i s bs k)
  obtain r ms where a: "abs_publish (p_capacity p) (p_payload_capacity p) (length ([] :: nat list)) (messages p) (i, s, bs) = (r, ms)"
    by (metis prod.collapse)
  from publish_abs [OF PPublish.prems(1) a, of lock_fn env] obtain p1 n1 where
    p1: "ut_event_publisher_publish_copy lock_fn i s bs (length bs) (Some (p, env)) = (r, Some (p1, (critical lock_fn p ^^ n1) env))"
      "publisher_wf [] p1" "same_config p p1" "p_dispatcher p1 = p_dispatcher p" "messages p1 = ms"
    by blast
  have "publishing (k r)" using PPublish.prems(2) by simp
  from PPublish.IH [OF _ p1(2) this, of "(critical lock_fn p ^^ n1) env"] obtain p2 n2 u where
    p2: "run_ptask lock_fn (k r) (p1, (critical lock_fn p ^^ n1) env) =
        ((p2, (critical lock_fn p1 ^^ n2) ((critical lock_fn p ^^ n1) env)), u)" "publisher_wf [] p2"
      "same_config p1 p2" "p_dispatcher p2 = p_dispatcher p1"
      "abs_ptask (p_capacity p1) (p_payload_capacity p1) 0 (k r) (messages p1) = (messages p2, u)"
    by blast
  have caps: "p_capacity p1 = p_capacity p" "p_payload_capacity p1 = p_payload_capacity p"
    using p1(3) by (simp_all add: same_config_def)
  show ?case
    using p1 p2 a caps critical_cong [OF p1(3), of lock_fn] same_config_trans [OF p1(3) p2(3)]
    by (intro exI [of _ p2] exI [of _ "n2 + n1"] exI [of _ u]) (simp add: funpow_add_apply)
qed simp_all

text \<open>The state of the application: a publisher for domain events, wired to the service.\<close>

definition system_ok :: "ptr \<Rightarrow> u32 set \<Rightarrow> ut_event_publisher \<Rightarrow> 'c domain_service \<Rightarrow> bool" where
  "system_ok service reported p s \<longleftrightarrow> publisher_wf [] p \<and> \<not> d_dispatching (p_dispatcher p) \<and> \<not> p_dispatching p \<and>
     p_capacity p = DOMAIN_EVENT_QUEUE_CAPACITY \<and> p_payload_capacity p = sizeof_payload \<and>
     wired service (p_dispatcher p) \<and> domain_inv False (reported, dv_workflow_catalog s) (messages p, s)"

text \<open>One cycle of the service, on the specification.\<close>

definition spec_process :: "ut_event_dispatcher \<Rightarrow> u64 \<Rightarrow> message list \<times> 'c domain_service \<Rightarrow>
    message list \<times> 'c domain_service" where
  "spec_process d now = (\<lambda>(ms, s). snd (abs_pdispatch DOMAIN_EVENT_QUEUE_CAPACITY sizeof_payload d domain_handlers
     DOMAIN_DISPATCH_BUDGET (run_task 0 (process_task now s) ms)))"

lemma dispatch_without_count:
  "fst (snd (ut_event_publisher_dispatch l f b None w)) = fst (snd (ut_event_publisher_dispatch l f b (Some 0) w))"
  by (simp add: ut_event_publisher_dispatch_def Let_def split: prod.split)

lemma process_refines:
  assumes ok: "publisher_wf [] p" "\<not> d_dispatching (p_dispatcher p)" "\<not> p_dispatching p"
    "p_capacity p = DOMAIN_EVENT_QUEUE_CAPACITY" "p_payload_capacity p = sizeof_payload"
  shows "\<exists>p' j s'. domain_service_process lock_fn now (Some (p, (env, s))) =
      Some (p', ((critical lock_fn p ^^ j) env, s')) \<and>
    publisher_wf [] p' \<and> same_config p p' \<and> p_dispatcher p' = p_dispatcher p \<and>
    spec_process (p_dispatcher p) now (messages p, s) = (messages p', s')"
proof -
  from run_publishing_abs [OF ok(1) publishing_process_task [of now s], of lock_fn env] obtain p1 n s1 where
    p1: "run_ptask lock_fn (process_task now s) (p, env) = ((p1, (critical lock_fn p ^^ n) env), s1)" "publisher_wf [] p1"
      "same_config p p1" "p_dispatcher p1 = p_dispatcher p" "run_task 0 (process_task now s) (messages p) = (messages p1, s1)"
    unfolding ok(4,5) by blast
  have flags: "\<not> d_dispatching (p_dispatcher p1)" "\<not> p_dispatching p1" "p_capacity p1 = DOMAIN_EVENT_QUEUE_CAPACITY"
      "p_payload_capacity p1 = sizeof_payload" "0 < DOMAIN_DISPATCH_BUDGET"
    using ok p1(3,4) by (simp_all add: same_config_def DOMAIN_DISPATCH_BUDGET_def)
  from pdispatch_abs [OF p1(2) flags(1,2,5), of lock_fn domain_handlers "(critical lock_fn p ^^ n) env" s1]
  obtain p2 j s2 c where
    p2: "ut_event_publisher_dispatch (on_env lock_fn) (p_call lock_fn domain_handlers) DOMAIN_DISPATCH_BUDGET (Some 0)
        (Some (p1, ((critical lock_fn p ^^ n) env, s1))) =
        (UT_EVENT_OK, Some (p2, ((critical lock_fn p1 ^^ j) ((critical lock_fn p ^^ n) env), s2)), Some c)"
      "publisher_wf [] p2" "same_config p1 p2" "p_dispatcher p2 = p_dispatcher p1"
      "abs_pdispatch DOMAIN_EVENT_QUEUE_CAPACITY sizeof_payload (p_dispatcher p1) domain_handlers DOMAIN_DISPATCH_BUDGET
        (messages p1, s1) = (c, messages p2, s2)"
    unfolding flags(3,4) by blast
  from p2(1) have "fst (snd (ut_event_publisher_dispatch (on_env lock_fn) (p_call lock_fn domain_handlers) DOMAIN_DISPATCH_BUDGET
      None (Some (p1, ((critical lock_fn p ^^ n) env, s1))))) = Some (p2, ((critical lock_fn p ^^ (j + n)) env, s2))"
    by (simp add: dispatch_without_count critical_cong [OF p1(3)] funpow_add_apply)
  then have "domain_service_process lock_fn now (Some (p, (env, s))) = Some (p2, ((critical lock_fn p ^^ (j + n)) env, s2))"
    using p1(1) by (simp add: domain_service_process_def domain_event_publisher_dispatch_def split: prod.split)
      (metis fst_conv snd_conv)
  then show ?thesis
    using p2(2-5) p1(3-5) same_config_trans [OF p1(3) p2(3)]
    by (intro exI [of _ p2] exI [of _ "j + n"] exI [of _ s2]) (simp add: spec_process_def)
qed

end
