(* ===== verification/Domain_System.thy ===== *)
theory Domain_System
  imports Domain_Safety
begin

text \<open>
  The life of a domain service: its creation, the drivers that can run it, and its destruction.
\<close>

section \<open>Creation\<close>

lemma subscribe_handlers:
  assumes "dispatcher_wf d" "\<not> d_dispatching d" "h \<noteq> 0" "e \<noteq> UT_EVENT_ID_ANY" "handlers_of d e = []"
    and "length (registrations d) < d_capacity d"
  shows "\<exists>d'. ut_event_subscribe (Some d) e h c = (UT_EVENT_OK, Some d') \<and> dispatcher_wf d' \<and> d_capacity d' = d_capacity d \<and>
    \<not> d_dispatching d' \<and> length (registrations d') = Suc (length (registrations d)) \<and>
    handlers_of d' = (handlers_of d)(e := [(h, c)])"
proof -
  have new: "(e, h, c) \<notin> set (registrations d)" using assms(5) by (force simp: handlers_of_def filter_empty_conv)
  have "d_count d < d_capacity d" using assms(1,6) length_registrations [of d] by (simp add: dispatcher_wf_def)
  from subscribe_ok [OF assms(1-3) new this] obtain d' i where
    d': "ut_event_subscribe (Some d) e h c = (UT_EVENT_OK, Some d')" "dispatcher_wf d'" "d_capacity d' = d_capacity d"
      "\<not> d_dispatching d'" "registrations d' = take i (registrations d) @ (e, h, c) # drop i (registrations d)"
    by blast
  let ?sel = "\<lambda>j. filter (\<lambda>(k, _). k = j \<or> k = UT_EVENT_ID_ANY)"
  have parts: "?sel j (take i (registrations d)) @ ?sel j (drop i (registrations d)) = ?sel j (registrations d)" for j
    by (metis append_take_drop_id filter_append)
  have "?sel e (registrations d) = []" using assms(5) by (simp add: handlers_of_def)
  with parts [of e] have none: "?sel e (take i (registrations d)) = []" "?sel e (drop i (registrations d)) = []" by simp_all
  have "handlers_of d' e = [(h, c)]" using none by (simp add: handlers_of_def d'(5))
  moreover have "handlers_of d' j = handlers_of d j" if "j \<noteq> e" for j
    using that assms(4) parts [of j] by (simp add: handlers_of_def d'(5) flip: map_append)
  moreover have "length (registrations d') = Suc (length (registrations d))"
    unfolding d'(5) by (metis append_take_drop_id length_Cons length_append add_Suc_right)
  ultimately show ?thesis using d'(1-4) by (auto simp: fun_eq_iff)
qed

text \<open>A publisher that is ready, and what registering on it does.\<close>

definition publisher_ready :: "ut_event_publisher \<Rightarrow> bool" where
  "publisher_ready p \<longleftrightarrow> publisher_wf [] p \<and> messages p = [] \<and> \<not> d_dispatching (p_dispatcher p) \<and> \<not> p_dispatching p \<and>
     p_capacity p = DOMAIN_EVENT_QUEUE_CAPACITY \<and> p_payload_capacity p = sizeof_payload \<and>
     d_capacity (p_dispatcher p) = DOMAIN_EVENT_SUBSCRIPTION_CAPACITY"

lemma publisher_ready_dispatcher:
  assumes "publisher_ready p" "dispatcher_wf d" "\<not> d_dispatching d" "d_capacity d = d_capacity (p_dispatcher p)"
  shows "publisher_ready (p\<lparr>p_dispatcher := d\<rparr>)"
proof -
  have conf: "same_config p (p\<lparr>p_dispatcher := d\<rparr>)" by (simp add: same_config_def)
  have "payload_bytes (p\<lparr>p_dispatcher := d\<rparr>) = payload_bytes p" by (rule payload_bytes_cong [OF conf]) simp
  then have "messages (p\<lparr>p_dispatcher := d\<rparr>) = messages p" by (simp add: messages_def message_def [abs_def])
  moreover have "publisher_wf [] p" using assms(1) by (simp add: publisher_ready_def)
  then have "publisher_wf [] (p\<lparr>p_dispatcher := d\<rparr>)"
    using assms(2) same_config_views [OF conf] by (simp add: publisher_wf_def publisher_is_valid_def)
  ultimately show ?thesis using assms by (simp add: publisher_ready_def)
qed

lemma subscribe_all_wires:
  assumes "publisher_ready p" "distinct (map fst subs)" "\<forall>(e, h) \<in> set subs. h \<noteq> 0 \<and> e \<noteq> UT_EVENT_ID_ANY"
    and "\<forall>e \<in> fst ` set subs. handlers_of (p_dispatcher p) e = []"
    and "length (registrations (p_dispatcher p)) + length subs \<le> DOMAIN_EVENT_SUBSCRIPTION_CAPACITY"
  shows "\<exists>p'. domain_subscribe_all subs service (Some p) = (True, Some p') \<and> publisher_ready p' \<and>
    (\<forall>i. handlers_of (p_dispatcher p') i = (case map_of subs i of None \<Rightarrow> handlers_of (p_dispatcher p) i | Some h \<Rightarrow> [(h, service)]))"
  using assms
proof (induction subs arbitrary: p)
  case (Cons eh subs)
  obtain e h where eh: "eh = (e, h)" by (cases eh) simp
  let ?d = "p_dispatcher p"
  have ready: "dispatcher_wf ?d" "\<not> d_dispatching ?d" "publisher_is_valid (Some p)"
    using Cons.prems(1) publisher_wf_valid [of "[]" p] by (auto simp: publisher_ready_def publisher_wf_def)
  obtain d' where d': "ut_event_subscribe (Some ?d) e h service = (UT_EVENT_OK, Some d')" "dispatcher_wf d'"
      "d_capacity d' = d_capacity ?d" "\<not> d_dispatching d'" "length (registrations d') = Suc (length (registrations ?d))"
      "handlers_of d' = (handlers_of ?d)(e := [(h, service)])"
    using subscribe_handlers [OF ready(1,2), of h e service] Cons.prems by (auto simp: eh publisher_ready_def)
  let ?p = "p\<lparr>p_dispatcher := d'\<rparr>"
  have p: "publisher_ready ?p" by (rule publisher_ready_dispatcher [OF Cons.prems(1) d'(2,4,3)])
  moreover have "\<forall>i \<in> fst ` set subs. handlers_of (p_dispatcher ?p) i = []"
    using Cons.prems(2,4) d'(6) by (auto simp: eh)
  moreover have "length (registrations (p_dispatcher ?p)) + length subs \<le> DOMAIN_EVENT_SUBSCRIPTION_CAPACITY"
    using Cons.prems(5) d'(5) by simp
  ultimately obtain p' where p': "domain_subscribe_all subs service (Some ?p) = (True, Some p')" "publisher_ready p'"
      "\<And>i. handlers_of (p_dispatcher p') i = (case map_of subs i of None \<Rightarrow> handlers_of (p_dispatcher ?p) i | Some h \<Rightarrow> [(h, service)])"
    using Cons.IH [of ?p] Cons.prems(2,3) by auto
  moreover have "map_of subs e = None" using Cons.prems(2) by (simp add: eh map_of_eq_None_iff)
  moreover have "domain_event_publisher_subscribe (Some p) e h service = (UT_EVENT_OK, Some ?p)"
    using d'(1) ready(3) by (simp add: domain_event_publisher_subscribe_def ut_event_publisher_subscribe_def)
  ultimately show ?case using d'(6) by (auto simp: eh split: option.split)
qed auto

lemma publisher_create_exists:
  assumes "payload \<noteq> 0" "heap_alloc h = (True, h')"
  shows "\<exists>q. domain_event_publisher_create True payload mutex h = (Some q, h') \<and> publisher_ready q \<and> registrations (p_dispatcher q) = []"
proof -
  let ?n = DOMAIN_EVENT_QUEUE_CAPACITY
  note init = publisher_init_wf [of "replicate ?n zero_event" payload "replicate ?n False" sizeof_payload
      "replicate (?n * sizeof_payload) 0" "replicate DOMAIN_EVENT_SUBSCRIPTION_CAPACITY zero_subscription"
      domain_event_lock domain_event_unlock zero_publisher mutex]
  show ?thesis
    using init assms
    by (auto simp: domain_event_publisher_create_def publisher_ready_def DOMAIN_EVENT_QUEUE_CAPACITY_def
        DOMAIN_EVENT_SUBSCRIPTION_CAPACITY_def sizeof_payload_def size_max_def sizeof_subscription_def
        domain_event_lock_def domain_event_unlock_def)
qed

lemma publisher_create_some:
  assumes "domain_event_publisher_create mutex_available payload mutex h = (Some p, h')" "payload \<noteq> 0"
  shows "mutex_available" "publisher_ready p" "registrations (p_dispatcher p) = []" "hp_live h' = hp_live h + 1"
proof -
  obtain ok h1 where a: "heap_alloc h = (ok, h1)" by fastforce
  with assms(1) have "ok" and m: "mutex_available" by (auto simp: domain_event_publisher_create_def Let_def split: if_splits)
  then show "mutex_available" "publisher_ready p" "registrations (p_dispatcher p) = []" "hp_live h' = hp_live h + 1"
    using publisher_create_exists [OF assms(2), of h h1 mutex] alloc_liveD [OF a] a assms(1) by auto
qed

lemma publisher_create_none:
  assumes "domain_event_publisher_create mutex_available payload mutex h = (None, h')" "payload \<noteq> 0"
  shows "hp_live h' = hp_live h"
proof -
  obtain ok h1 where a: "heap_alloc h = (ok, h1)" by fastforce
  with assms(1) publisher_create_exists [OF assms(2), of h h1 mutex] have "\<not> (ok \<and> mutex_available)" by auto
  with a assms(1) alloc_liveD [OF a] show ?thesis by (auto simp: domain_event_publisher_create_def split: if_splits)
qed

lemma subscriptions_wire:
  assumes "publisher_ready p" "registrations (p_dispatcher p) = []" "domain_subscribe service (Some p) = (ok, p')"
  shows "ok \<and> (\<exists>q. p' = Some q \<and> publisher_ready q \<and> wired service (p_dispatcher q))"
proof -
  have table: "distinct (map fst subscriptions)" "\<forall>(e, h) \<in> set subscriptions. h \<noteq> 0 \<and> e \<noteq> UT_EVENT_ID_ANY"
    "length subscriptions \<le> DOMAIN_EVENT_SUBSCRIPTION_CAPACITY"
    by (simp_all add: subscriptions_def domain_event_ids UT_EVENT_ID_ANY_def uint32_max_def
        DOMAIN_EVENT_SUBSCRIPTION_CAPACITY_def)
  have none: "handlers_of (p_dispatcher p) i = []" for i using assms(2) by (simp add: handlers_of_def)
  with subscribe_all_wires [OF assms(1) table(1,2), of service] table(3) assms(2) obtain q where
    "domain_subscribe_all subscriptions service (Some p) = (True, Some q)" "publisher_ready q"
    "\<And>i. handlers_of (p_dispatcher q) i =
      (case map_of subscriptions i of None \<Rightarrow> handlers_of (p_dispatcher p) i | Some h \<Rightarrow> [(h, service)])"
    by auto
  with assms(3) none show ?thesis by (auto simp: domain_subscribe_def wired_def split: option.split)
qed

text \<open>What a service keeps: itself, its publisher and the catalog that was loaded last.\<close>

definition service_blocks :: "'c domain_service \<Rightarrow> int" where
  "service_blocks s = 2 + (case dv_workflow_catalog s of None \<Rightarrow> 0 | Some k \<Rightarrow> catalog_blocks k)"

lemma service_blocks_cong: "dv_workflow_catalog s' = dv_workflow_catalog s \<Longrightarrow> service_blocks s' = service_blocks s"
  by (simp add: service_blocks_def)

lemma create_system_ok:
  assumes c: "domain_service_create mutex_ok service pa payload ma control units n h = (Some (p, s), units', h')"
    and "payload \<noteq> 0"
  shows "system_ok service {} p s \<and> hp_live h' = hp_live h + service_blocks s"
proof -
  obtain ok1 h1 where a: "heap_alloc h = (ok1, h1)" by fastforce
  obtain p0 h2 where p0: "domain_event_publisher_create mutex_ok payload ma h1 = (p0, h2)" by fastforce
  obtain ok p1 where sub: "domain_subscribe service p0 = (ok, p1)" by fastforce
  have "ok1" and "p0 \<noteq> None" using c a p0 by (auto simp: domain_service_create_def Let_def split: if_splits)
  then obtain q0 where q0: "p0 = Some q0" by blast
  note ready = publisher_create_some [OF p0 [unfolded q0] assms(2)]
  from subscriptions_wire [OF ready(2,3) sub [unfolded q0]] obtain q where
    q: "ok" "p1 = Some q" "publisher_ready q" "wired service (p_dispatcher q)"
    by blast
  have n: "10 \<le> n" and p: "p = q" and s: "s = new_service units' n control" and h: "h' = h2"
    using c a p0 sub q(1,2) q0 by (auto simp: domain_service_create_def Let_def split: if_splits prod.splits)
  have "reports_ok ({}, None) [] s" using n by (simp add: s reports_ok_def new_service_def idle_output_def)
  moreover have "quiet False s" by (simp add: s quiet_def new_service_def idle_output_def)
  moreover have k: "dv_workflow_catalog s = None" by (simp add: s new_service_def)
  ultimately have "domain_inv False ({}, dv_workflow_catalog s) ([], s)" by (simp add: domain_inv_quiet)
  with q(3,4) k h ready(4) alloc_liveD [OF a] \<open>ok1\<close> show ?thesis
    by (simp add: system_ok_def publisher_ready_def p service_blocks_def)
qed

lemma create_none:
  assumes c: "domain_service_create mutex_ok service pa payload ma control units n h = (None, units', h')"
    and "payload \<noteq> 0"
  shows "hp_live h' = hp_live h"
proof -
  obtain ok1 h1 where a: "heap_alloc h = (ok1, h1)" by fastforce
  obtain p0 h2 where p0: "domain_event_publisher_create mutex_ok payload ma h1 = (p0, h2)" by fastforce
  show ?thesis
  proof (cases p0)
    case None
    with c a p0 publisher_create_none [OF p0 [unfolded None] assms(2)] alloc_liveD [OF a] show ?thesis
      by (auto simp: domain_service_create_def domain_event_publisher_destroy_def Let_def split: if_splits)
  next
    case (Some q0)
    note ready = publisher_create_some [OF p0 [unfolded Some] assms(2)]
    obtain ok p1 where sub: "domain_subscribe service p0 = (ok, p1)" by fastforce
    from subscriptions_wire [OF ready(2,3) sub [unfolded Some]] obtain q where "p1 = Some q" by blast
    with c a p0 sub Some ready(4) alloc_liveD [OF a] show ?thesis
      by (auto simp: domain_service_create_def domain_event_publisher_destroy_def Let_def split: if_splits prod.splits)
  qed
qed

section \<open>Drivers\<close>

text \<open>
  What can happen between two calls: an input, a cycle at some time, a result a unit's worker publishes,
  any change of the units by their workers, a new control handler, a catalog loaded from a file.
\<close>

datatype 'c domain_action =
    Write_Service domain_service_input
  | Process_At u64
  | Unit_Result unit_mock_result
  | Change_Units "unit_mock option list"
  | Set_Control "'c domain_control" ptr
  | Load_Workflows "string \<Rightarrow> json_file option" string

type_synonym ('e, 'c) domain_system = "('e \<times> 'c domain_service) pworld \<times> heap"

fun domain_act ::
    "(ptr \<Rightarrow> ptr \<Rightarrow> 'e \<Rightarrow> 'e) \<Rightarrow> 'c domain_action \<Rightarrow> ('e, 'c) domain_system \<Rightarrow> ('e, 'c) domain_system" where
  "domain_act lock_fn (Write_Service i) ((p, (env, s)), h) =
     ((p, (env, the (snd (domain_service_write_input (Some i) (Some s))))), h)"
| "domain_act lock_fn (Process_At now) (w, h) = (the (domain_service_process lock_fn now (Some w)), h)"
| "domain_act lock_fn (Unit_Result r) (w, h) =
     (the (domain_event_publisher_on_unit_result (on_env lock_fn) (Some r) (Some w)), h)"
| "domain_act lock_fn (Change_Units us) ((p, (env, s)), h) = ((p, (env, s\<lparr>dv_units := us\<rparr>)), h)"
| "domain_act lock_fn (Set_Control f c) ((p, (env, s)), h) =
     ((p, (env, the (snd (domain_service_set_event_handler (Some f) c (Some s))))), h)"
| "domain_act lock_fn (Load_Workflows files path) ((p, (env, s)), h) =
     (let (r, s', h') = domain_service_load_workflows_json files (Some path) (Some s) h in ((p, (env, the s')), h'))"

fun domain_run where
  "domain_run lock_fn [] w = w"
| "domain_run lock_fn (a # as) w = domain_run lock_fn as (domain_act lock_fn a w)"

text \<open>The request ids that units have reported as completed.\<close>

definition completed_by :: "unit_mock_result \<Rightarrow> u32 set" where
  "completed_by r = (if ur_error r = UNIT_MOCK_ERROR_NONE then {ur_request_id r} else {})"

primrec completed_ids :: "'c domain_action list \<Rightarrow> u32 set" where
  "completed_ids [] = {}"
| "completed_ids (a # as) = (case a of Unit_Result r \<Rightarrow> completed_by r | _ \<Rightarrow> {}) \<union> completed_ids as"

lemma domain_inv_mono: "domain_inv b (R, k) st \<Longrightarrow> R \<subseteq> R' \<Longrightarrow> domain_inv b (R', k) st"
  by (cases st) (auto simp: domain_inv_def reports_ok_def)

lemma domain_inv_catalog: "domain_inv b (R, k) (ms, s) \<Longrightarrow> dv_workflow_catalog s = k"
  by (simp add: domain_inv_def reports_ok_def)

lemma load_inv:
  assumes inv: "domain_inv False (R, dv_workflow_catalog s) (ms, s)"
    and l: "domain_service_load_workflows_json files (Some path) (Some s) h = (r, t, h')"
  shows "\<exists>s'. t = Some s' \<and> domain_inv False (R, dv_workflow_catalog s') (ms, s') \<and>
    hp_live h' - service_blocks s' = hp_live h - service_blocks s"
proof -
  obtain r' k h1 where load: "domain_workflow_catalog_load_json_file files (Some path) (dv_unit_count s) h = ((r', k), h1)"
    by (metis prod.collapse)
  note ok = load_json_ok [OF load]
  show ?thesis
  proof (cases "out_status (dv_output s) = DOMAIN_STATUS_RUNNING \<or> r' \<noteq> DOMAIN_WORKFLOW_LOAD_OK")
    case True
    with l load ok inv show ?thesis
      by (cases k) (auto simp: domain_service_load_workflows_json_def Let_def split: if_splits)
  next
    case False
    let ?s = "s\<lparr>dv_scenario := (dv_scenario s)\<lparr>sc_definition := None, sc_sequence := (sequence_of s)\<lparr>sq_definition := None\<rparr>\<rparr>,
      dv_workflow_catalog := k\<rparr>"
    note st = inv_not_running [OF inv]
    have old: "\<forall>c. dv_workflow_catalog s = Some c \<longrightarrow> loaded_ok (dv_unit_count s) c"
      using st(2) False by (simp add: reports_ok_def)
    have t: "t = Some ?s" "h' = domain_workflow_catalog_destroy (dv_workflow_catalog s) h1"
      using l load False by (simp_all add: domain_service_load_workflows_json_def)
    have "reports_ok (R, k) ms ?s" using st(2) False ok by (auto simp: reports_ok_def step_request_def)
    moreover have "quiet False ?s" using st(3) False by (cases "out_status (dv_output s)") (simp_all add: quiet_def)
    ultimately have "domain_inv False (R, k) (ms, ?s)" using st(1) False by (simp add: domain_inv_quiet)
    with t ok destroy_loaded [OF old, of h1] show ?thesis by (simp add: service_blocks_def)
  qed
qed

lemma unit_result_inv:
  assumes ok: "system_ok service R p s"
  shows "\<exists>p' j. domain_event_publisher_on_unit_result (on_env lock_fn) (Some r) (Some (p, (env, s))) =
      Some (p', ((critical lock_fn p ^^ j) env, s)) \<and> same_config p p' \<and>
    system_ok service (R \<union> completed_by r) p' s"
proof -
  let ?id = "if ur_error r = UNIT_MOCK_ERROR_NONE then DOMAIN_EVENT_UNIT_COMPLETED else DOMAIN_EVENT_UNIT_ERROR"
  let ?m = "(?id, ucast (ur_unit_number r), encode_payload (unit_payload r))"
  have wf: "publisher_wf [] p" using ok by (simp add: system_ok_def)
  obtain x ms where a: "abs_publish (p_capacity p) (p_payload_capacity p) (length ([] :: nat list)) (messages p) ?m = (x, ms)"
    by (metis prod.collapse)
  from publish_abs [OF wf a, of "on_env lock_fn" "(env, s)"] obtain p' j where
    p': "ut_event_publisher_publish_copy (on_env lock_fn) ?id (ucast (ur_unit_number r)) (encode_payload (unit_payload r))
        sizeof_payload (Some (p, (env, s))) = (x, Some (p', ((critical lock_fn p ^^ j) env, s)))"
      "publisher_wf [] p'" "same_config p p'" "p_dispatcher p' = p_dispatcher p" "messages p' = ms"
    unfolding critical_on_env by auto
  let ?R = "R \<union> completed_by r"
  have unit_ids: "DOMAIN_EVENT_UNIT_ERROR \<noteq> DOMAIN_EVENT_UNIT_COMPLETED" by (simp add: domain_event_ids)
  let ?H = "(?R, dv_workflow_catalog s)"
  have "domain_inv False ?H (messages p, s)" using ok by (auto simp: system_ok_def intro: domain_inv_mono)
  moreover have "ms = messages p \<or> ms = messages p @ [?m]" using a by (simp add: abs_publish_def split: if_splits)
  moreover have "domain_inv False ?H (messages p @ [?m], s) = domain_inv False ?H (messages p, s)"
    using unit_ids by (intro chain_frame) (auto simp: completed_by_def unit_payload_def)
  ultimately have "domain_inv False ?H (messages p', s)" using p'(5) by auto
  then have "system_ok service ?R p' s" using ok p'(2-4) by (simp add: system_ok_def same_config_def)
  then show ?thesis
    using p'(1,3) by (auto simp: domain_event_publisher_on_unit_result_def domain_event_publisher_publish_def Let_def)
qed

lemma act_inv:
  assumes ok: "system_ok service R p s"
  shows "\<exists>p' j s' h'. domain_act lock_fn a ((p, (env, s)), h) = ((p', ((critical lock_fn p ^^ j) env, s')), h') \<and>
    same_config p p' \<and> system_ok service (R \<union> completed_ids [a]) p' s' \<and>
    hp_live h' - service_blocks s' = hp_live h - service_blocks s"
proof -
  let ?H = "(R, dv_workflow_catalog s)"
  have inv: "domain_inv False ?H (messages p, s)" using ok by (simp add: system_ok_def)
  have here: ?thesis if "domain_act lock_fn a ((p, (env, s)), h) = ((p, (env, s')), h')"
      "domain_inv False (R, dv_workflow_catalog s') (messages p, s')" "completed_ids [a] = {}"
      "hp_live h' - service_blocks s' = hp_live h - service_blocks s" for s' h'
    using that ok by (intro exI [of _ p] exI [of _ 0] exI [of _ s'] exI [of _ h']) (simp add: system_ok_def)
  show ?thesis
  proof (cases a)
    case (Write_Service i)
    obtain r s' where w: "domain_service_write_input (Some i) (Some s) = (r, Some s')"
      using write_input_service by blast
    note inv' = write_input_inv [OF inv w]
    with here [of s' h] service_blocks_cong [OF domain_inv_catalog [OF inv']] domain_inv_catalog [OF inv'] w Write_Service show ?thesis by simp
  next
    case (Process_At now)
    from process_refines [of p lock_fn now env s] ok obtain p' j s' where
      p': "domain_service_process lock_fn now (Some (p, (env, s))) = Some (p', ((critical lock_fn p ^^ j) env, s'))"
        "publisher_wf [] p'" "same_config p p'" "p_dispatcher p' = p_dispatcher p"
        "spec_process (p_dispatcher p) now (messages p, s) = (messages p', s')"
      by (auto simp: system_ok_def)
    have "domain_inv True ?H (spec_process (p_dispatcher p) now (messages p, s))"
      unfolding spec_process_def prod.case
      by (rule dispatch_inv [OF _ process_task_inv [OF inv], of service]) (use ok in \<open>simp add: system_ok_def\<close>)
    then have inv': "domain_inv False ?H (messages p', s')" using p'(5) domain_inv_weaken by auto
    then have "system_ok service R p' s'"
      using ok p'(2-4) domain_inv_catalog [OF inv'] by (simp add: system_ok_def same_config_def)
    then show ?thesis using p'(1,3) Process_At service_blocks_cong [OF domain_inv_catalog [OF inv']] by auto
  next
    case (Unit_Result r)
    then show ?thesis using unit_result_inv [OF ok, of lock_fn r env] by (auto simp: Un_commute)
  next
    case (Change_Units us)
    have "quiet False (s\<lparr>dv_units := us\<rparr>) = quiet False s" "reporting m (s\<lparr>dv_units := us\<rparr>) = reporting m s" for m
      by (cases "out_status (dv_output s)";
          simp add: quiet_def reporting_def at_step_def running_scenario_def step_request_def Let_def)+
    then have "domain_inv False ?H (messages p, s\<lparr>dv_units := us\<rparr>)" using inv by (subst domain_inv_frame) simp_all
    then show ?thesis using here [of "s\<lparr>dv_units := us\<rparr>" h] Change_Units by (simp add: service_blocks_def)
  next
    case (Set_Control f c)
    let ?s = "s\<lparr>dv_control_handler := Some f, dv_control_context := c\<rparr>"
    have "quiet False ?s = quiet False s" "reporting m ?s = reporting m s" "reports_ok ?H (messages p) ?s = reports_ok ?H (messages p) s" for m
      by (cases "out_status (dv_output s)";
          simp add: quiet_def reporting_def at_step_def running_scenario_def step_request_def reports_ok_def Let_def)+
    then have "domain_inv False ?H (messages p, ?s)" using inv by (subst domain_inv_frame) simp_all
    then show ?thesis using here [of ?s h] Set_Control by (simp add: domain_service_set_event_handler_def service_blocks_def)
  next
    case (Load_Workflows files path)
    obtain r t h' where l: "domain_service_load_workflows_json files (Some path) (Some s) h = (r, t, h')"
      by (metis prod.collapse)
    with load_inv [OF inv l] here Load_Workflows show ?thesis by auto
  qed
qed

lemma run_inv:
  "system_ok service R p s \<Longrightarrow>
    \<exists>p' j s' h'. domain_run lock_fn as ((p, (env, s)), h) = ((p', ((critical lock_fn p ^^ j) env, s')), h') \<and>
      system_ok service (R \<union> completed_ids as) p' s' \<and> hp_live h' - service_blocks s' = hp_live h - service_blocks s"
proof (induction as arbitrary: R p env s h)
  case Nil
  then show ?case by (intro exI [of _ p] exI [of _ 0] exI [of _ s] exI [of _ h]) simp
next
  case (Cons a as)
  from act_inv [OF Cons.prems, of lock_fn a env h] obtain p1 j1 s1 h1 where
    a: "domain_act lock_fn a ((p, (env, s)), h) = ((p1, ((critical lock_fn p ^^ j1) env, s1)), h1)" "same_config p p1"
      "system_ok service (R \<union> completed_ids [a]) p1 s1" "hp_live h1 - service_blocks s1 = hp_live h - service_blocks s"
    by blast
  from Cons.IH [OF a(3), of "(critical lock_fn p ^^ j1) env" h1] obtain p2 j2 s2 h2 where
    "domain_run lock_fn as ((p1, ((critical lock_fn p ^^ j1) env, s1)), h1) =
      ((p2, ((critical lock_fn p1 ^^ j2) ((critical lock_fn p ^^ j1) env), s2)), h2)"
    "system_ok service (R \<union> completed_ids [a] \<union> completed_ids as) p2 s2"
    "hp_live h2 - service_blocks s2 = hp_live h1 - service_blocks s1"
    by blast
  with a show ?case
    by (intro exI [of _ p2] exI [of _ "j2 + j1"] exI [of _ s2] exI [of _ h2])
      (simp add: critical_cong [OF a(2)] funpow_add_apply Un_assoc)
qed

text \<open>What the invariant says of the output.\<close>

lemma system_output:
  assumes "system_ok service R p s"
  shows "out_completed_step_count (dv_output s) \<le> out_total_step_count (dv_output s)"
    and "\<forall>k < out_completed_step_count (dv_output s). out_request_id (dv_output s) + of_nat k + 1 \<in> R"
    and "out_status (dv_output s) = DOMAIN_STATUS_COMPLETED \<longrightarrow>
      out_completed_step_count (dv_output s) = out_total_step_count (dv_output s)"
    and "if out_status (dv_output s) = DOMAIN_STATUS_ERROR then out_error (dv_output s) \<in> domain_failures
      else out_error (dv_output s) = DOMAIN_ERROR_NONE"
    and "out_status (dv_output s) \<noteq> DOMAIN_STATUS_IDLE \<longrightarrow> (\<exists>c. scenario_ok (dv_unit_count s) c \<and>
      dc_id c = out_scenario_id (dv_output s) \<and> length (all_steps c) = out_total_step_count (dv_output s))"
proof -
  have inv: "domain_inv False (R, dv_workflow_catalog s) (messages p, s)" using assms by (simp add: system_ok_def)
  then have ok: "reports_ok (R, dv_workflow_catalog s) (messages p) s" by (simp add: domain_inv_def)
  then show "out_completed_step_count (dv_output s) \<le> out_total_step_count (dv_output s)"
    "\<forall>k < out_completed_step_count (dv_output s). out_request_id (dv_output s) + of_nat k + 1 \<in> R"
    by (simp_all add: reports_ok_def step_request_def)
  show "out_status (dv_output s) \<noteq> DOMAIN_STATUS_IDLE \<longrightarrow> (\<exists>c. scenario_ok (dv_unit_count s) c \<and>
      dc_id c = out_scenario_id (dv_output s) \<and> length (all_steps c) = out_total_step_count (dv_output s))"
    using ok by (auto simp: reports_ok_def scenario_ok_def)
  show "out_status (dv_output s) = DOMAIN_STATUS_COMPLETED \<longrightarrow>
      out_completed_step_count (dv_output s) = out_total_step_count (dv_output s)"
    "if out_status (dv_output s) = DOMAIN_STATUS_ERROR then out_error (dv_output s) \<in> domain_failures
      else out_error (dv_output s) = DOMAIN_ERROR_NONE"
    using inv by (auto simp: domain_inv_def quiet_def reporting_def Let_def split: list.splits domain_status.splits)
qed

text \<open>A service that is destroyed gives everything back.\<close>

lemma destroy_system:
  assumes "system_ok service R p s"
  shows "hp_live (domain_service_destroy (Some (p, s)) h) = hp_live h - service_blocks s"
proof -
  have "\<forall>c. dv_workflow_catalog s = Some c \<longrightarrow> loaded_ok (dv_unit_count s) c"
    using assms by (simp add: system_ok_def domain_inv_def reports_ok_def)
  from destroy_loaded [OF this] show ?thesis
    by (simp add: domain_service_destroy_def domain_event_publisher_destroy_def service_blocks_def)
qed

section \<open>Properties\<close>

text \<open>Property C2. A service that has been created is safe under every driver: whatever order inputs,
  cycles at any times, unit results (between two calls of the service), changes of the units, control handlers
  and workflow files come in,
  the service counts a step only when some unit has reported the request id of that very step as
  completed, it never counts more steps than its scenario has, it is COMPLETED only with every step of
  the scenario counted and no error, and it shows an error exactly when its status is ERROR. This covers a
  full event queue, results nobody asked for, late results, repeated results, and timeouts.\<close>

theorem domain_completes_only_after_all_steps:
  fixes control :: 'c and acts :: "'c domain_action list"
  assumes "domain_service_create mutex_ok service publisher payload mutex control units n h0
      = (Some (p, s), units', h)"
    and "payload \<noteq> 0"
    and "domain_run lock_fn acts ((p, (env, s)), h) = ((p', (env', s')), h')"
  shows "out_completed_step_count (dv_output s') \<le> out_total_step_count (dv_output s')
    \<and> (\<forall>k < out_completed_step_count (dv_output s'). out_request_id (dv_output s') + of_nat k + 1 \<in> completed_ids acts)
    \<and> (out_status (dv_output s') = DOMAIN_STATUS_COMPLETED \<longrightarrow>
        out_completed_step_count (dv_output s') = out_total_step_count (dv_output s'))
    \<and> (if out_status (dv_output s') = DOMAIN_STATUS_ERROR then out_error (dv_output s') \<in> domain_failures
       else out_error (dv_output s') = DOMAIN_ERROR_NONE)
    \<and> (out_status (dv_output s') \<noteq> DOMAIN_STATUS_IDLE \<longrightarrow> (\<exists>c. scenario_ok (dv_unit_count s') c \<and>
        dc_id c = out_scenario_id (dv_output s') \<and> length (all_steps c) = out_total_step_count (dv_output s')))"
proof -
  have "system_ok service {} p s" using create_system_ok [OF assms(1,2)] by simp
  from run_inv [OF this, of lock_fn acts env h] assms(3) have "system_ok service (completed_ids acts) p' s'" by auto
  from system_output [OF this] show ?thesis by simp
qed

text \<open>Ten fresh units, and a driver that cycles once before the first unit has answered.\<close>

definition ten_units :: "unit_mock option list" where
  "ten_units = map (\<lambda>i. Some (zero_unit\<lparr>um_operation := i, um_unit_number := of_nat (Suc i)\<rparr>)) [0..<10]"

definition no_file :: "string \<Rightarrow> json_file option" where
  "no_file path = None"

definition endless_heap :: heap where
  "endless_heap = \<lparr>hp_outcome = (\<lambda>_. True), hp_requests = 0, hp_live = 0\<rparr>"

lemma connect_units_ok:
  "list_all (\<lambda>u. u \<noteq> None \<and> uo_status (um_output (the u)) \<noteq> UNIT_MOCK_STATUS_RUNNING) us \<Longrightarrow> ro_handler ro \<noteq> 0 \<Longrightarrow>
    \<exists>us'. connect_units ro us = (True, us')"
  by (induction us) (auto simp: unit_mock_set_result_output_def Let_def)

lemma create_ok:
  assumes "10 \<le> n" "payload \<noteq> 0" "units \<noteq> []" "hp_outcome h = (\<lambda>_. True)"
    and "list_all (\<lambda>u. u \<noteq> None \<and> uo_status (um_output (the u)) \<noteq> UNIT_MOCK_STATUS_RUNNING) (take n units)"
  shows "\<exists>p s units' h'. domain_service_create True service publisher payload mutex control units n h = (Some (p, s), units', h')"
proof -
  obtain h1 where a: "heap_alloc h = (True, h1)" "hp_outcome h1 = (\<lambda>_. True)" using assms(4) by (simp add: heap_alloc_def)
  then obtain h2 where b: "heap_alloc h1 = (True, h2)" by (simp add: heap_alloc_def)
  obtain p where p: "domain_event_publisher_create True payload mutex h1 = (Some p, h2)" "publisher_ready p" "registrations (p_dispatcher p) = []"
    using publisher_create_exists [OF assms(2) b] by blast
  obtain ok q where sub: "domain_subscribe service (Some p) = (ok, q)" by fastforce
  obtain us' where "connect_units \<lparr>ro_handler = domain_event_publisher_on_unit_result_fn, ro_context = publisher\<rparr> (take n units) = (True, us')"
    using connect_units_ok [OF assms(5)] by (fastforce simp: domain_event_publisher_on_unit_result_fn_def)
  with p a sub subscriptions_wire [OF p(2,3) sub] assms show ?thesis
    by (auto simp: domain_service_create_def Let_def)
qed

lemma ten_units_create:
  obtains p s units' h where
    "domain_service_create True 50 60 4096 70 () ten_units 10 endless_heap = (Some (p, s), units', h)"
proof -
  have "length ten_units = 10" "list_all (\<lambda>u. u \<noteq> None \<and> uo_status (um_output (the u)) \<noteq> UNIT_MOCK_STATUS_RUNNING) ten_units"
    by (simp_all add: ten_units_def zero_unit_def list_all_iff)
  then have "\<exists>p s units' h. domain_service_create True 50 60 4096 70 () ten_units 10 endless_heap = (Some (p, s), units', h)"
    by (intro create_ok) (auto simp: endless_heap_def)
  with that show thesis by blast
qed

definition early_cycle :: "unit domain_action list" where
  "early_cycle = [Load_Workflows no_file ''missing.json'',
     Write_Service \<lparr>in_feature = DOMAIN_FEATURE_A, in_condition = 1, in_request_id = 40\<rparr>, Process_At 5]"

theorem domain_completes_only_after_all_steps_witness:
  "\<exists>p s units' h w'. domain_service_create True 50 60 4096 70 () ten_units 10 endless_heap = (Some (p, s), units', h) \<and>
     w' = domain_run (\<lambda>f c e. e @ [f]) early_cycle ((p, ([], s)), h) \<and>
     out_completed_step_count (dv_output (snd (snd (fst w')))) = 0"
proof -
  obtain p s units' h where create:
    "domain_service_create True 50 60 4096 70 () ten_units 10 endless_heap = (Some (p, s), units', h)"
    by (rule ten_units_create)
  obtain p' env' s' h' where run: "domain_run (\<lambda>f c e. e @ [f]) early_cycle ((p, ([], s)), h) = ((p', (env', s')), h')"
    by (metis prod.collapse)
  have "completed_ids early_cycle = {}" by (simp add: early_cycle_def)
  with domain_completes_only_after_all_steps [OF create _ run] have "out_completed_step_count (dv_output s') = 0"
    by fastforce
  with create run show ?thesis by fastforce
qed

text \<open>Property C4. A service gives back every block of memory it took: if it cannot be created, whichever
  request fails, nothing is left behind; and if it is created, driven in any way (including workflow
  files that replace each other or are refused at any point, with any request for memory failing on the
  way) and destroyed, exactly as many blocks are in use as before.\<close>

theorem domain_service_returns_every_block:
  fixes control :: 'c and acts :: "'c domain_action list"
  assumes "domain_service_create mutex_ok service publisher payload mutex control units n h0 = (system, units', h)"
    and "payload \<noteq> 0"
  shows "case system of
      None \<Rightarrow> hp_live h = hp_live h0
    | Some (p, s) \<Rightarrow> \<forall>p' env' s' h'. domain_run lock_fn acts ((p, (env, s)), h) = ((p', (env', s')), h') \<longrightarrow>
        hp_live (domain_service_destroy (Some (p', s')) h') = hp_live h0"
proof (cases system)
  case None
  with assms show ?thesis using create_none [of mutex_ok service publisher payload mutex control units n h0] by simp
next
  case (Some ps)
  then obtain p s where ps: "system = Some (p, s)" by (cases ps) simp
  note ok = create_system_ok [OF assms(1) [unfolded ps] assms(2)]
  from run_inv [of service "{}" p s lock_fn acts env h] ok destroy_system ps show ?thesis by fastforce
qed

theorem domain_service_returns_every_block_witness:
  "\<exists>p s units' h w'. domain_service_create True 50 60 4096 70 () ten_units 10 endless_heap = (Some (p, s), units', h) \<and>
     w' = domain_run (\<lambda>f c e. e @ [f]) early_cycle ((p, ([], s)), h) \<and>
     hp_live (domain_service_destroy (Some (fst (fst w'), snd (snd (fst w')))) (snd w')) = 0"
proof -
  obtain p s units' h where create:
    "domain_service_create True 50 60 4096 70 () ten_units 10 endless_heap = (Some (p, s), units', h)"
    by (rule ten_units_create)
  obtain p' env' s' h' where run: "domain_run (\<lambda>f c e. e @ [f]) early_cycle ((p, ([], s)), h) = ((p', (env', s')), h')"
    by (metis prod.collapse)
  with domain_service_returns_every_block [OF create, of "\<lambda>f c e. e @ [f]" early_cycle "[]"]
  have "hp_live (domain_service_destroy (Some (p', s')) h') = 0" by (simp add: endless_heap_def)
  with create run show ?thesis by fastforce
qed

end
