(* ===== verification/Json_Grammar.thy ===== *)
theory Json_Grammar
  imports Json_Reader
begin

text \<open>
  The grammar of JSON texts (RFC 8259) as an inductive relation between a tree and the string that spells it,
  and the proof of what the validator of \<open>Json_Reader\<close> accepts. The grammar has the characters that may
  follow a backslash as a parameter: with those of the RFC it is JSON, nested at most 64 deep, over bytes,
  so that the encoding of characters is not looked at; with NUL among them it is what the validator takes,
  because its test \<open>strchr\<close> finds the terminating NUL of its list of escapes.
\<close>

section \<open>The grammar\<close>

datatype json =
    J_String string
  | J_Primitive string
  | J_Array "json list"
  | J_Object "(string \<times> json) list"

abbreviation spaces :: "string \<Rightarrow> bool" where
  "spaces w \<equiv> list_all json_is_space w"

abbreviation digits :: "string \<Rightarrow> bool" where
  "digits w \<equiv> list_all is_digit w"

definition rfc_escapes :: "char set" where
  "rfc_escapes = {quote, backslash, CHR ''/'', CHR ''b'', CHR ''f'', CHR ''n'', CHR ''r'', CHR ''t''}"

definition scanned_escapes :: "char set" where
  "scanned_escapes = insert (CHR 0x00) rfc_escapes"

inductive body_with :: "char set \<Rightarrow> string \<Rightarrow> bool" for escapes :: "char set" where
  empty: "body_with escapes []"
| plain: "c \<notin> {quote, backslash} \<Longrightarrow> 32 \<le> code c \<Longrightarrow> body_with escapes s \<Longrightarrow> body_with escapes (c # s)"
| escape: "e \<in> escapes \<Longrightarrow> body_with escapes s \<Longrightarrow> body_with escapes (backslash # e # s)"
| unicode: "length hs = 4 \<Longrightarrow> list_all json_is_hex hs \<Longrightarrow> body_with escapes s \<Longrightarrow>
    body_with escapes (backslash # CHR ''u'' # hs @ s)"

definition integer_part :: "string \<Rightarrow> bool" where
  "integer_part s \<longleftrightarrow> s = ''0'' \<or> (\<exists>c ds. s = c # ds \<and> is_digit c \<and> c \<noteq> CHR ''0'' \<and> digits ds)"

definition fraction_part :: "string \<Rightarrow> bool" where
  "fraction_part s \<longleftrightarrow> s = [] \<or> (\<exists>ds. s = CHR ''.'' # ds \<and> ds \<noteq> [] \<and> digits ds)"

definition exponent_part :: "string \<Rightarrow> bool" where
  "exponent_part s \<longleftrightarrow> s = [] \<or> (\<exists>e sign ds. s = e # sign @ ds \<and> e \<in> {CHR ''e'', CHR ''E''} \<and>
     sign \<in> {[], ''+'', ''-''} \<and> ds \<noteq> [] \<and> digits ds)"

definition number_text :: "string \<Rightarrow> bool" where
  "number_text s \<longleftrightarrow> (\<exists>sign i f e. s = sign @ i @ f @ e \<and> sign \<in> {[], ''-''} \<and>
     integer_part i \<and> fraction_part f \<and> exponent_part e)"

inductive spells_with :: "char set \<Rightarrow> nat \<Rightarrow> json \<Rightarrow> string \<Rightarrow> bool"
  and elements_with :: "char set \<Rightarrow> nat \<Rightarrow> json list \<Rightarrow> string \<Rightarrow> bool"
  and members_with :: "char set \<Rightarrow> nat \<Rightarrow> (string \<times> json) list \<Rightarrow> string \<Rightarrow> bool" for escapes :: "char set" where
  string: "d \<le> 64 \<Longrightarrow> body_with escapes s \<Longrightarrow> spells_with escapes d (J_String s) (quote # s @ [quote])"
| number: "d \<le> 64 \<Longrightarrow> number_text s \<Longrightarrow> spells_with escapes d (J_Primitive s) s"
| literal: "d \<le> 64 \<Longrightarrow> s \<in> {''true'', ''false'', ''null''} \<Longrightarrow> spells_with escapes d (J_Primitive s) s"
| no_elements: "d \<le> 64 \<Longrightarrow> spaces w \<Longrightarrow> spells_with escapes d (J_Array []) (''['' @ w @ '']'')"
| array: "d \<le> 64 \<Longrightarrow> spaces w \<Longrightarrow> js \<noteq> [] \<Longrightarrow> elements_with escapes (Suc d) js t \<Longrightarrow> spells_with escapes d (J_Array js) (''['' @ w @ t @ '']'')"
| no_members: "d \<le> 64 \<Longrightarrow> spaces w \<Longrightarrow> spells_with escapes d (J_Object []) (''{'' @ w @ ''}'')"
| object: "d \<le> 64 \<Longrightarrow> spaces w \<Longrightarrow> ms \<noteq> [] \<Longrightarrow> members_with escapes (Suc d) ms t \<Longrightarrow> spells_with escapes d (J_Object ms) (''{'' @ w @ t @ ''}'')"
| last_element: "spells_with escapes d j t \<Longrightarrow> spaces w \<Longrightarrow> elements_with escapes d [j] (t @ w)"
| more_elements: "spells_with escapes d j t \<Longrightarrow> spaces w \<Longrightarrow> spaces v \<Longrightarrow> elements_with escapes d js u \<Longrightarrow> js \<noteq> [] \<Longrightarrow>
    elements_with escapes d (j # js) (t @ w @ '','' @ v @ u)"
| last_member: "body_with escapes k \<Longrightarrow> spaces w1 \<Longrightarrow> spaces w2 \<Longrightarrow> spells_with escapes d j t \<Longrightarrow> spaces w \<Longrightarrow>
    members_with escapes d [(k, j)] (quote # k @ quote # w1 @ '':'' @ w2 @ t @ w)"
| more_members: "body_with escapes k \<Longrightarrow> spaces w1 \<Longrightarrow> spaces w2 \<Longrightarrow> spells_with escapes d j t \<Longrightarrow> spaces w \<Longrightarrow> spaces v \<Longrightarrow>
    members_with escapes d ms u \<Longrightarrow> ms \<noteq> [] \<Longrightarrow> members_with escapes d ((k, j) # ms) (quote # k @ quote # w1 @ '':'' @ w2 @ t @ w @ '','' @ v @ u)"

definition text_with :: "char set \<Rightarrow> json \<Rightarrow> string \<Rightarrow> bool" where
  "text_with escapes j s \<longleftrightarrow> (\<exists>w t v. s = w @ t @ v \<and> spaces w \<and> spaces v \<and> spells_with escapes 0 j t)"

text \<open>JSON, and the texts the validator is shown to accept.\<close>

definition json_text :: "json \<Rightarrow> string \<Rightarrow> bool" where
  "json_text j s \<longleftrightarrow> text_with rfc_escapes j s"

definition accepted_text :: "json \<Rightarrow> string \<Rightarrow> bool" where
  "accepted_text j s \<longleftrightarrow> text_with scanned_escapes j s"

text \<open>In the proofs about the code, strings and values are those its scanner takes.\<close>

abbreviation string_body :: "string \<Rightarrow> bool" where
  "string_body \<equiv> body_with scanned_escapes"

abbreviation spells :: "nat \<Rightarrow> json \<Rightarrow> string \<Rightarrow> bool" where
  "spells \<equiv> spells_with scanned_escapes"

abbreviation elements :: "nat \<Rightarrow> json list \<Rightarrow> string \<Rightarrow> bool" where
  "elements \<equiv> elements_with scanned_escapes"

abbreviation members :: "nat \<Rightarrow> (string \<times> json) list \<Rightarrow> string \<Rightarrow> bool" where
  "members \<equiv> members_with scanned_escapes"

lemmas escapes_defs = scanned_escapes_def rfc_escapes_def
lemmas accepted_text_unfold = accepted_text_def text_with_def

section \<open>Segments of the source\<close>

definition segment :: "string \<Rightarrow> nat \<Rightarrow> string \<Rightarrow> nat \<Rightarrow> bool" where
  "segment source p t q \<longleftrightarrow> q = p + length t \<and> q \<le> length source \<and> take (length t) (drop p source) = t"

lemma segment_Nil [simp]: "segment source p [] q \<longleftrightarrow> q = p \<and> p \<le> length source"
  by (auto simp: segment_def)

lemma segment_Cons [simp]:
  "segment source p (c # t) q \<longleftrightarrow> p < length source \<and> source ! p = c \<and> segment source (Suc p) t q"
proof (cases "p < length source")
  case True
  then have "drop p source = source ! p # drop (Suc p) source" by (rule Cons_nth_drop_Suc [symmetric])
  then show ?thesis by (auto simp: segment_def True)
qed (auto simp: segment_def)

lemma segment_le: "segment source p t q \<Longrightarrow> p \<le> q \<and> q \<le> length source"
  by (simp add: segment_def)

lemma segment_append: "segment source p (t @ u) q \<longleftrightarrow> (\<exists>r. segment source p t r \<and> segment source r u q)"
  by (induction t arbitrary: p) (auto dest: segment_le)

lemma segment_appendI: "segment source p t r \<Longrightarrow> segment source r u q \<Longrightarrow> segment source p (t @ u) q"
  unfolding segment_append by blast

lemma segment_whole: "segment source 0 t (length source) \<longleftrightarrow> t = source"
  by (auto simp: segment_def)

lemma segment_take: "p \<le> q \<Longrightarrow> q \<le> length source \<Longrightarrow> segment source p (take (q - p) (drop p source)) q"
  by (simp add: segment_def)

text \<open>A scan stops where its test first fails.\<close>

lemma skip_while_spec:
  assumes "p \<le> length source"
  shows "\<exists>w. segment source p w (skip_while P source p) \<and> list_all P w"
    and "skip_while P source p < length source \<Longrightarrow> \<not> P (source ! skip_while P source p)"
proof -
  have "p \<le> length source \<Longrightarrow> (\<exists>w. segment source p w (skip_while P source p) \<and> list_all P w) \<and>
    (skip_while P source p < length source \<longrightarrow> \<not> P (source ! skip_while P source p))"
  proof (induction "length source - p" arbitrary: p rule: less_induct)
    case less
    show ?case
    proof (cases "p < length source \<and> P (source ! p)")
      case True
      then have step: "skip_while P source p = skip_while P source (Suc p)" by (subst skip_while.simps) simp
      from True have "length source - Suc p < length source - p" "Suc p \<le> length source" by auto
      with less.hyps [of "Suc p"] obtain w where
        w: "segment source (Suc p) w (skip_while P source (Suc p))" "list_all P w"
          "skip_while P source (Suc p) < length source \<longrightarrow> \<not> P (source ! skip_while P source (Suc p))"
        by auto
      then show ?thesis using True unfolding step by (intro conjI exI [of _ "source ! p # w"]) auto
    next
      case False
      then have "skip_while P source p = p" by (subst skip_while.simps) auto
      with False less.prems show ?thesis by (intro conjI exI [of _ "[]"]) auto
    qed
  qed
  with assms show "\<exists>w. segment source p w (skip_while P source p) \<and> list_all P w"
    "skip_while P source p < length source \<Longrightarrow> \<not> P (source ! skip_while P source p)" by blast+
qed

lemma skip_while_segment:
  "segment source p w q \<Longrightarrow> list_all P w \<Longrightarrow> q = length source \<or> \<not> P (source ! q) \<Longrightarrow> skip_while P source p = q"
proof (induction w arbitrary: p)
  case Nil
  then show ?case by (subst skip_while.simps) auto
next
  case (Cons c w)
  then have "skip_while P source (Suc p) = q" by auto
  with Cons.prems show ?case by (subst skip_while.simps) auto
qed

section \<open>Strings\<close>

lemma ex_length_Suc: "(\<exists>xs. length xs = Suc n \<and> P xs) \<longleftrightarrow> (\<exists>x xs. length xs = n \<and> P (x # xs))"
  by (auto simp: length_Suc_conv)

lemma hex_digits_segment:
  "p < length source \<Longrightarrow> hex_digits n source p = Some q \<longleftrightarrow>
    q = p + n \<and> (\<exists>hs. length hs = n \<and> list_all json_is_hex hs \<and> segment source (Suc p) hs (Suc q))"
proof (induction n arbitrary: p)
  case 0
  then show ?case by auto
next
  case (Suc n)
  show ?case
  proof (cases "Suc p < length source \<and> json_is_hex (source ! Suc p)")
    case True
    with Suc.IH [of "Suc p"] show ?thesis by (auto simp: ex_length_Suc)
  next
    case False
    then show ?thesis by (auto simp: ex_length_Suc)
  qed
qed

lemma string_loop_sound: "string_loop source p = Some q \<Longrightarrow> \<exists>s. string_body s \<and> segment source p (s @ [quote]) q"
proof (induction source p arbitrary: q rule: string_loop.induct)
  case (1 source p)
  from "1.prems" have p: "p < length source" by (subst (asm) string_loop.simps) (simp split: if_splits)
  consider (close) "source ! p = quote" "q = Suc p"
    | (unicode) x where "source ! p = backslash" "Suc p < length source" "source ! Suc p = CHR ''u''"
        "hex_digits 4 source (Suc p) = Some x" "string_loop source (Suc x) = Some q"
    | (escape) "source ! p = backslash" "Suc p < length source" "source ! Suc p \<noteq> CHR ''u''" "is_escape (source ! Suc p)"
        "string_loop source (p + 2) = Some q"
    | (plain) "source ! p \<notin> {quote, backslash}" "32 \<le> code (source ! p)" "string_loop source (Suc p) = Some q"
    using "1.prems" p by (subst (asm) string_loop.simps) (auto split: if_splits option.splits)
  then show ?case
  proof cases
    case close
    then show ?thesis using p by (intro exI [of _ "[]"]) (auto intro: body_with.empty)
  next
    case unicode
    from "1.IH"(1) [of x] unicode p obtain s where s: "string_body s" "segment source (Suc x) (s @ [quote]) q" by auto
    obtain hs where "length hs = 4" "list_all json_is_hex hs" "segment source (Suc (Suc p)) hs (Suc x)"
      using hex_digits_segment [OF unicode(2)] unicode(4) by blast
    with s unicode p show ?thesis
      by (intro exI [of _ "backslash # CHR ''u'' # hs @ s"]) (auto simp: segment_append intro: body_with.unicode)
  next
    case escape
    from "1.IH"(2) escape p obtain s where s: "string_body s" "segment source (p + 2) (s @ [quote]) q" by auto
    with escape p show ?thesis
      by (intro exI [of _ "backslash # source ! Suc p # s"]) (auto simp: is_escape_def escapes_defs intro: body_with.escape)
  next
    case plain
    from "1.IH"(3) plain p obtain s where "string_body s" "segment source (Suc p) (s @ [quote]) q" by auto
    with plain p show ?thesis by (intro exI [of _ "source ! p # s"]) (auto intro: body_with.plain)
  qed
qed

lemma string_loop_complete: "string_body s \<Longrightarrow> segment source p (s @ [quote]) q \<Longrightarrow> string_loop source p = Some q"
proof (induction s arbitrary: p rule: body_with.induct)
  case empty
  then show ?case by (subst string_loop.simps) auto
next
  case (plain c s)
  then show ?case by (subst string_loop.simps) auto
next
  case (escape e s)
  from escape.prems have b: "p < length source" "source ! p = backslash" "Suc p < length source" "source ! Suc p = e"
    "segment source (Suc (Suc p)) (s @ [quote]) q" by auto
  have "e \<noteq> CHR ''u''" "is_escape e" using escape.hyps by (auto simp: is_escape_def escapes_defs)
  with b escape.IH [OF b(5)] show ?case by (subst string_loop.simps) simp
next
  case (unicode hs s)
  from unicode.prems obtain x where b: "p < length source" "source ! p = backslash" "Suc p < length source"
      "source ! Suc p = CHR ''u''" "segment source (Suc (Suc p)) hs x" "segment source x (s @ [quote]) q"
    by (auto simp: segment_append)
  have x: "x = Suc (Suc (Suc p + 3))" using b(5) unicode.hyps(1) by (simp add: segment_def)
  have "hex_digits 4 source (Suc p) = Some (Suc p + 4)"
    using hex_digits_segment [OF b(3), of 4 "Suc p + 4"] b(5) x unicode.hyps by auto
  with b unicode.IH [OF b(6)] x show ?case by (subst string_loop.simps) (simp add: numeral_eq_Suc)
qed

lemma validate_string_iff:
  "json_validate_string source p = Some q \<longleftrightarrow> (\<exists>s. string_body s \<and> segment source p (quote # s @ [quote]) q)"
  using string_loop_sound [of source "Suc p" q] string_loop_complete [of _ source "Suc p" q]
  by (auto simp: json_validate_string_def)

section \<open>Numbers\<close>

text \<open>What may not follow a number, for the number not to go on.\<close>

definition number_stops :: "string \<Rightarrow> nat \<Rightarrow> bool" where
  "number_stops source q \<longleftrightarrow> q = length source \<or>
     \<not> is_digit (source ! q) \<and> source ! q \<notin> {CHR ''.'', CHR ''e'', CHR ''E''}"

lemma digit_range: "is_digit c \<and> c \<noteq> CHR ''0'' \<longleftrightarrow> code CHR ''1'' \<le> code c \<and> code c \<le> code CHR ''9''"
proof -
  have "c = CHR ''0'' \<longleftrightarrow> code c = code CHR ''0''" by (simp only: of_char_eq_iff)
  then show ?thesis by (auto simp: is_digit_def)
qed

lemma not_digits [simp]: "\<not> is_digit CHR ''.''" "\<not> is_digit CHR ''e''" "\<not> is_digit CHR ''E''" "\<not> is_digit CHR ''-''"
  "\<not> is_digit CHR ''+''" "is_digit CHR ''0''"
  by (simp_all add: is_digit_def)

lemma digits_after:
  assumes "p < length source" "is_digit (source ! p)"
  obtains ds where "ds \<noteq> []" "digits ds" "segment source p ds (skip_while is_digit source p)"
proof -
  obtain ds where "segment source p ds (skip_while is_digit source p)" "digits ds"
    using skip_while_spec(1) [of p source is_digit] assms(1) by auto
  moreover have "ds \<noteq> []"
  proof
    assume "ds = []"
    with \<open>segment source p ds _\<close> have "skip_while is_digit source p = p" by simp
    with skip_while_spec(2) [of p source is_digit] assms show False by simp
  qed
  ultimately show thesis using that by blast
qed

lemma consume_integer_sound:
  assumes "json_consume_integer source p = Some q"
  shows "\<exists>sign i. sign \<in> {[], ''-''} \<and> integer_part i \<and> segment source p (sign @ i) q"
proof -
  define r where "r = (if p < length source \<and> source ! p = CHR ''-'' then Suc p else p)"
  have r: "r < length source" and q: "source ! r = CHR ''0'' \<and> q = Suc r \<or>
      is_digit (source ! r) \<and> source ! r \<noteq> CHR ''0'' \<and> q = skip_while is_digit source (Suc r)"
    using assms digit_range [of "source ! r"] by (auto simp: json_consume_integer_def r_def Let_def split: if_splits)
  define sign where "sign = (if r = p then [] else ''-'')"
  have sign: "sign \<in> {[], ''-''}" "segment source p sign r" using r by (auto simp: sign_def r_def split: if_splits)
  have "\<exists>i. integer_part i \<and> segment source r i q"
    using q
  proof
    assume "source ! r = CHR ''0'' \<and> q = Suc r"
    then show ?thesis using r by (intro exI [of _ "''0''"]) (simp add: integer_part_def)
  next
    assume d: "is_digit (source ! r) \<and> source ! r \<noteq> CHR ''0'' \<and> q = skip_while is_digit source (Suc r)"
    obtain ds where "segment source (Suc r) ds q" "digits ds"
      using skip_while_spec(1) [of "Suc r" source is_digit] r d by auto
    with d r show ?thesis by (intro exI [of _ "source ! r # ds"]) (auto simp: integer_part_def)
  qed
  with sign show ?thesis by (auto simp: segment_append)
qed

lemma consume_integer_complete:
  assumes "segment source p (sign @ i) q" "sign \<in> {[], ''-''}" "integer_part i" "q = length source \<or> \<not> is_digit (source ! q)"
  shows "json_consume_integer source p = Some q"
proof -
  obtain r where r: "segment source p sign r" "segment source r i q" using assms(1) by (auto simp: segment_append)
  have i: "r < length source" "is_digit (source ! r)" using r(2) assms(3) by (auto simp: integer_part_def)
  have here: "r = (if p < length source \<and> source ! p = CHR ''-'' then Suc p else p)"
    using r(1) i assms(2) by (auto split: if_splits)
  from assms(3) have "source ! r = CHR ''0'' \<and> q = Suc r \<or>
      is_digit (source ! r) \<and> source ! r \<noteq> CHR ''0'' \<and> q = skip_while is_digit source (Suc r)"
    using r(2) skip_while_segment [of source "Suc r" _ q is_digit] assms(4) by (auto simp: integer_part_def)
  then show ?thesis
    using i(1) digit_range [of "source ! r"] unfolding json_consume_integer_def here Let_def by (auto split: if_splits)
qed

lemma consume_fraction_sound:
  assumes "json_consume_fraction source p = Some q" "p \<le> length source"
  shows "\<exists>f. fraction_part f \<and> segment source p f q"
proof (cases "p < length source \<and> source ! p = CHR ''.''")
  case False
  with assms show ?thesis by (intro exI [of _ "[]"]) (auto simp: json_consume_fraction_def fraction_part_def)
next
  case True
  with assms have d: "Suc p < length source" "is_digit (source ! Suc p)" "q = skip_while is_digit source (Suc p)"
    by (auto simp: json_consume_fraction_def Let_def split: if_splits)
  obtain ds where "ds \<noteq> []" "digits ds" "segment source (Suc p) ds q" using digits_after [OF d(1,2)] d(3) by metis
  with True show ?thesis by (intro exI [of _ "CHR ''.'' # ds"]) (auto simp: fraction_part_def)
qed

lemma consume_fraction_complete:
  assumes "segment source p f q" "fraction_part f" "q = length source \<or> \<not> is_digit (source ! q) \<and> source ! q \<noteq> CHR ''.''"
  shows "json_consume_fraction source p = Some q"
proof (cases "f = []")
  case True
  with assms show ?thesis by (auto simp: json_consume_fraction_def)
next
  case False
  then obtain ds where f: "f = CHR ''.'' # ds" "ds \<noteq> []" "digits ds" using assms(2) by (auto simp: fraction_part_def)
  then obtain c cs where "ds = c # cs" by (cases ds) auto
  with f assms skip_while_segment [of source "Suc p" ds q is_digit] show ?thesis
    by (auto simp: json_consume_fraction_def)
qed

lemma consume_exponent_sound:
  assumes "json_consume_exponent source p = Some q" "p \<le> length source"
  shows "\<exists>e. exponent_part e \<and> segment source p e q"
proof (cases "p < length source \<and> (source ! p = CHR ''e'' \<or> source ! p = CHR ''E'')")
  case False
  with assms show ?thesis by (intro exI [of _ "[]"]) (auto simp: json_consume_exponent_def exponent_part_def)
next
  case True
  define r where "r = (if Suc p < length source \<and> (source ! Suc p = CHR ''+'' \<or> source ! Suc p = CHR ''-'')
    then Suc (Suc p) else Suc p)"
  have d: "r < length source" "is_digit (source ! r)" "q = skip_while is_digit source r"
    using True assms by (auto simp: json_consume_exponent_def Let_def r_def split: if_splits)
  obtain ds where "ds \<noteq> []" "digits ds" "segment source r ds q" using digits_after [OF d(1,2)] d(3) by metis
  moreover define sign where "sign = (if r = Suc p then [] else [source ! Suc p])"
  have sign: "sign \<in> {[], ''+'', ''-''}" "segment source (Suc p) sign r"
    using d(1) by (auto simp: sign_def r_def split: if_splits)
  ultimately have "segment source p (source ! p # sign @ ds) q" using True segment_append [of source "Suc p" sign ds q] by auto
  moreover have "exponent_part (source ! p # sign @ ds)"
    unfolding exponent_part_def using True sign(1) \<open>ds \<noteq> []\<close> \<open>digits ds\<close> by blast
  ultimately show ?thesis by blast
qed

lemma consume_exponent_complete:
  assumes "segment source p e q" "exponent_part e" "number_stops source q"
  shows "json_consume_exponent source p = Some q"
proof (cases "e = []")
  case True
  with assms show ?thesis by (auto simp: json_consume_exponent_def number_stops_def)
next
  case False
  then obtain c sign ds where e: "e = c # sign @ ds" "c \<in> {CHR ''e'', CHR ''E''}" "sign \<in> {[], ''+'', ''-''}"
      "ds \<noteq> []" "digits ds"
    using assms(2) by (auto simp: exponent_part_def)
  obtain r where r: "p < length source" "source ! p = c" "segment source (Suc p) sign r" "segment source r ds q"
    using assms(1) e(1) by (auto simp: segment_append)
  have i: "r < length source" "is_digit (source ! r)" using r(4) e(4,5) by (cases ds; simp)+
  have here: "r = (if Suc p < length source \<and> (source ! Suc p = CHR ''+'' \<or> source ! Suc p = CHR ''-'')
      then Suc (Suc p) else Suc p)"
    using r(3) i e(3) by (auto split: if_splits)
  have "skip_while is_digit source r = q"
    using skip_while_segment [OF r(4) e(5)] assms(3) by (auto simp: number_stops_def)
  with r(1,2) e(2) i here show ?thesis by (auto simp: json_consume_exponent_def Let_def)
qed

lemma validate_number_sound:
  assumes "json_validate_number source p = Some q"
  shows "\<exists>s. number_text s \<and> segment source p s q"
proof -
  obtain x y where x: "json_consume_integer source p = Some x" and y: "json_consume_fraction source x = Some y"
    and q: "json_consume_exponent source y = Some q"
    using assms by (auto simp: json_validate_number_def split: option.splits)
  obtain sign i where i: "sign \<in> {[], ''-''}" "integer_part i" "segment source p (sign @ i) x"
    using consume_integer_sound [OF x] by blast
  obtain f where f: "fraction_part f" "segment source x f y"
    using consume_fraction_sound [OF y] segment_le [OF i(3)] by blast
  obtain e where e: "exponent_part e" "segment source y e q"
    using consume_exponent_sound [OF q] segment_le [OF f(2)] by blast
  have "segment source p (sign @ i @ f @ e) q" using i(3) f(2) e(2) by (auto simp: segment_append)
  then show ?thesis unfolding number_text_def using i(1,2) f(1) e(1) by blast
qed

lemma fraction_start: "fraction_part f \<Longrightarrow> segment source x f y \<Longrightarrow> f = [] \<and> y = x \<or> x < length source \<and> source ! x = CHR ''.''"
  by (auto simp: fraction_part_def)

lemma exponent_start:
  "exponent_part e \<Longrightarrow> segment source y e q \<Longrightarrow>
    e = [] \<and> q = y \<or> y < length source \<and> (source ! y = CHR ''e'' \<or> source ! y = CHR ''E'')"
  by (auto simp: exponent_part_def)

lemma validate_number_complete:
  assumes "number_text s" "segment source p s q" "number_stops source q"
  shows "json_validate_number source p = Some q"
proof -
  obtain sign i f e where s: "s = (sign @ i) @ f @ e" "sign \<in> {[], ''-''}" "integer_part i" "fraction_part f" "exponent_part e"
    using assms(1) by (auto simp: number_text_def)
  obtain x y where x: "segment source p (sign @ i) x" and y: "segment source x f y" and q: "segment source y e q"
    using assms(2) by (auto simp: s(1) segment_append)
  have after_y: "y = length source \<or> \<not> is_digit (source ! y) \<and> source ! y \<noteq> CHR ''.''"
    using exponent_start [OF s(5) q] assms(3) by (auto simp: number_stops_def)
  then have "x = length source \<or> \<not> is_digit (source ! x)" using fraction_start [OF s(4) y] by auto
  from consume_integer_complete [OF x s(2,3) this] consume_fraction_complete [OF y s(4) after_y]
    consume_exponent_complete [OF q s(5) assms(3)]
  show ?thesis by (simp add: json_validate_number_def)
qed

lemma number_first:
  assumes "number_text s"
  obtains c t where "s = c # t" "c = CHR ''-'' \<or> is_digit c"
  using assms by (auto simp: number_text_def integer_part_def)

section \<open>Values\<close>

lemma literal_step:
  "length l \<le> length source - p \<and> take (length l) (drop p source) = l \<longleftrightarrow> segment source p l (p + length l)" if "p < length source"
  using that by (auto simp: segment_def)

lemma validate_literal_sound:
  "p < length source \<Longrightarrow> validate_literal ls source p = Some q \<Longrightarrow> \<exists>l \<in> set ls. segment source p l q"
  by (induction ls) (auto simp: literal_step split: if_splits)

lemma validate_literal_Cons: "p < length source \<Longrightarrow> validate_literal (l # ls) source p =
    (if segment source p l (p + length l) then Some (p + length l) else validate_literal ls source p)"
  by (simp only: validate_literal.simps literal_step)

lemma validate_literal_complete:
  assumes l: "l \<in> {''true'', ''false'', ''null''}" and s: "segment source p l q"
  shows "validate_literal literals source p = Some q"
proof -
  have p: "p < length source" and q: "q = p + length l" using assms by (auto simp: segment_def)
  from l consider "l = ''true''" | "l = ''false''" | "l = ''null''" by blast
  then show ?thesis
  proof cases
    case 1
    with s q p show ?thesis by (simp add: literals_def validate_literal_Cons del: validate_literal.simps)
  next
    case 2
    with s q p show ?thesis by (simp add: literals_def validate_literal_Cons del: validate_literal.simps)
  next
    case 3
    with s q p show ?thesis by (simp add: literals_def validate_literal_Cons del: validate_literal.simps)
  qed
qed

lemma skip_space_segment: "p \<le> length source \<Longrightarrow> \<exists>w. spaces w \<and> segment source p w (json_skip_space source p)"
  using skip_while_spec(1) [of p source json_is_space] by (auto simp: json_skip_space_def)

lemma skip_space_stop:
  "segment source p w q \<Longrightarrow> spaces w \<Longrightarrow> q = length source \<or> \<not> json_is_space (source ! q) \<Longrightarrow> json_skip_space source p = q"
  by (simp add: json_skip_space_def skip_while_segment)

lemma not_spaces [simp]: "\<not> json_is_space CHR '']''" "\<not> json_is_space CHR ''}''" "\<not> json_is_space CHR '',''"
  "\<not> json_is_space CHR '':''" "\<not> json_is_space quote" "\<not> json_is_space CHR ''[''" "\<not> json_is_space CHR ''{''"
  "\<not> json_is_space CHR ''-''" "\<not> json_is_space CHR ''t''" "\<not> json_is_space CHR ''f''" "\<not> json_is_space CHR ''n''"
  by (simp_all add: json_is_space_def)

lemma digit_not_special:
  "is_digit c \<Longrightarrow> c \<noteq> quote \<and> c \<noteq> CHR ''{'' \<and> c \<noteq> CHR ''['' \<and> c \<noteq> CHR '']'' \<and> c \<noteq> CHR ''}'' \<and> \<not> json_is_space c"
  by (auto simp: is_digit_def json_is_space_def)

section \<open>The validator is sound\<close>

text \<open>One round of the loops over elements and members, given what the value and the rest mean.\<close>

lemma array_loop_sound:
  assumes loop: "array_loop s p d = Some q"
    and val: "\<And>x. p < length s \<Longrightarrow> json_validate_value s p (d + 1) = Some x \<Longrightarrow> \<exists>j t. spells (Suc d) j t \<and> segment s p t x"
    and rest: "\<And>x r. p < length s \<Longrightarrow> json_validate_value s p (d + 1) = Some x \<Longrightarrow> json_skip_space s x < length s \<Longrightarrow>
      s ! json_skip_space s x = CHR '','' \<Longrightarrow> array_loop s (json_skip_space s (Suc (json_skip_space s x))) d = Some q \<Longrightarrow>
      \<exists>js t. js \<noteq> [] \<and> elements (Suc d) js t \<and> segment s (json_skip_space s (Suc (json_skip_space s x))) (t @ '']'') q"
  shows "\<exists>js t. js \<noteq> [] \<and> elements (Suc d) js t \<and> segment s p (t @ '']'') q"
proof -
  from loop obtain x where x: "p < length s" "json_validate_value s p (d + 1) = Some x"
    by (subst (asm) array_loop.simps) (auto split: if_splits option.splits)
  obtain j t where j: "spells (Suc d) j t" "segment s p t x" using val x by blast
  let ?y = "json_skip_space s x"
  obtain w where w: "spaces w" "segment s x w ?y" using skip_space_segment segment_le [OF j(2)] by blast
  from loop x have y: "?y < length s" "s ! ?y = CHR '']'' \<and> q = Suc ?y \<or>
      s ! ?y = CHR '','' \<and> array_loop s (json_skip_space s (Suc ?y)) d = Some q"
    by (subst (asm) (1) array_loop.simps, simp add: Let_def split: if_splits)+
  from y(2) show ?thesis
  proof
    assume "s ! ?y = CHR '']'' \<and> q = Suc ?y"
    then have "segment s p ((t @ w) @ '']'') q" using j(2) w(2) y(1) by (auto simp: segment_append)
    then show ?thesis using spells_with_elements_with_members_with.last_element [OF j(1) w(1)] by blast
  next
    assume m: "s ! ?y = CHR '','' \<and> array_loop s (json_skip_space s (Suc ?y)) d = Some q"
    obtain v where v: "spaces v" "segment s (Suc ?y) v (json_skip_space s (Suc ?y))"
      using skip_space_segment [of "Suc ?y" s] y(1) by auto
    obtain js u where u: "js \<noteq> []" "elements (Suc d) js u" "segment s (json_skip_space s (Suc ?y)) (u @ '']'') q"
      using rest [OF x] y(1) m by blast
    have "segment s p ((t @ w @ '','' @ v @ u) @ '']'') q"
      using j(2) w(2) y(1) m v(2) u(3) by (auto simp: segment_append)
    then show ?thesis using spells_with_elements_with_members_with.more_elements [OF j(1) w(1) v(1) u(2,1)] by blast
  qed
qed

lemma object_loop_sound:
  assumes loop: "object_loop s p d = Some q"
    and val: "\<And>x z. p < length s \<Longrightarrow> json_validate_string s p = Some x \<Longrightarrow> json_skip_space s x < length s \<Longrightarrow>
      s ! json_skip_space s x = CHR '':'' \<Longrightarrow> json_validate_value s (json_skip_space s (Suc (json_skip_space s x))) (d + 1) = Some z \<Longrightarrow>
      \<exists>j t. spells (Suc d) j t \<and> segment s (json_skip_space s (Suc (json_skip_space s x))) t z"
    and rest: "\<And>x z. p < length s \<Longrightarrow> json_validate_string s p = Some x \<Longrightarrow> json_skip_space s x < length s \<Longrightarrow>
      s ! json_skip_space s x = CHR '':'' \<Longrightarrow> json_validate_value s (json_skip_space s (Suc (json_skip_space s x))) (d + 1) = Some z \<Longrightarrow>
      json_skip_space s z < length s \<Longrightarrow> s ! json_skip_space s z = CHR '','' \<Longrightarrow>
      object_loop s (json_skip_space s (Suc (json_skip_space s z))) d = Some q \<Longrightarrow>
      \<exists>ms t. ms \<noteq> [] \<and> members (Suc d) ms t \<and> segment s (json_skip_space s (Suc (json_skip_space s z))) (t @ ''}'') q"
  shows "\<exists>ms t. ms \<noteq> [] \<and> members (Suc d) ms t \<and> segment s p (t @ ''}'') q"
proof -
  from loop obtain x where x: "p < length s" "json_validate_string s p = Some x"
    by (subst (asm) object_loop.simps) (auto split: if_splits option.splits)
  obtain k where k: "string_body k" "segment s p (quote # k @ [quote]) x" using x(2) by (auto simp: validate_string_iff)
  let ?y = "json_skip_space s x" let ?v = "json_skip_space s (Suc ?y)"
  obtain w1 where w1: "spaces w1" "segment s x w1 ?y" using skip_space_segment segment_le [OF k(2)] by blast
  from loop x obtain z where y: "?y < length s" "s ! ?y = CHR '':''" and z: "json_validate_value s ?v (d + 1) = Some z"
    by (subst (asm) (1) object_loop.simps) (auto simp: Let_def split: if_splits option.splits)
  obtain w2 where w2: "spaces w2" "segment s (Suc ?y) w2 ?v" using skip_space_segment [of "Suc ?y" s] y(1) by auto
  obtain j t where j: "spells (Suc d) j t" "segment s ?v t z" using val [OF x y z] by blast
  let ?a = "json_skip_space s z" let ?b = "json_skip_space s (Suc ?a)"
  obtain w where w: "spaces w" "segment s z w ?a" using skip_space_segment segment_le [OF j(2)] by blast
  have a: "?a < length s" "s ! ?a = CHR ''}'' \<and> q = Suc ?a \<or> s ! ?a = CHR '','' \<and> object_loop s ?b d = Some q"
    using loop x y z by (subst (asm) (1) object_loop.simps, simp add: Let_def split: if_splits)+
  note head = k(2) w1(2) y w2(2) j(2) w(2) a(1)
  from a(2) show ?thesis
  proof
    assume "s ! ?a = CHR ''}'' \<and> q = Suc ?a"
    then have "segment s p ((quote # k @ quote # w1 @ '':'' @ w2 @ t @ w) @ ''}'') q"
      using head by (auto simp: segment_append)
    then show ?thesis using spells_with_elements_with_members_with.last_member [OF k(1) w1(1) w2(1) j(1) w(1)] by blast
  next
    assume m: "s ! ?a = CHR '','' \<and> object_loop s ?b d = Some q"
    obtain v where v: "spaces v" "segment s (Suc ?a) v ?b" using skip_space_segment [of "Suc ?a" s] a(1) by auto
    obtain ms u where u: "ms \<noteq> []" "members (Suc d) ms u" "segment s ?b (u @ ''}'') q"
      using rest [OF x y z a(1)] m by blast
    have "segment s ?a ('','' @ v @ u @ ''}'') q" using a(1) m segment_appendI [OF v(2) u(3)] by simp
    then have "segment s ?y ('':'' @ w2 @ t @ w @ '','' @ v @ u @ ''}'') q"
      using y segment_appendI [OF w2(2) segment_appendI [OF j(2) segment_appendI [OF w(2)]]] by simp
    from segment_appendI [OF k(2) segment_appendI [OF w1(2) this]]
    have "segment s p ((quote # k @ quote # w1 @ '':'' @ w2 @ t @ w @ '','' @ v @ u) @ ''}'') q" by simp
    then show ?thesis using spells_with_elements_with_members_with.more_members [OF k(1) w1(1) w2(1) j(1) w(1) v(1) u(2,1)] by blast
  qed
qed

lemma validate_sound:
  "json_validate_value s1 p1 d1 = Some q1 \<Longrightarrow> \<exists>j t. spells d1 j t \<and> segment s1 p1 t q1"
  "json_validate_array s2 p2 d2 = Some q2 \<Longrightarrow> d2 \<le> 64 \<Longrightarrow> p2 < length s2 \<Longrightarrow> s2 ! p2 = CHR ''['' \<Longrightarrow>
    \<exists>j t. spells d2 j t \<and> segment s2 p2 t q2"
  "json_validate_object s3 p3 d3 = Some q3 \<Longrightarrow> d3 \<le> 64 \<Longrightarrow> p3 < length s3 \<Longrightarrow> s3 ! p3 = CHR ''{'' \<Longrightarrow>
    \<exists>j t. spells d3 j t \<and> segment s3 p3 t q3"
  "array_loop s4 p4 d4 = Some q4 \<Longrightarrow> \<exists>js t. js \<noteq> [] \<and> elements (Suc d4) js t \<and> segment s4 p4 (t @ '']'') q4"
  "object_loop s5 p5 d5 = Some q5 \<Longrightarrow> \<exists>ms t. ms \<noteq> [] \<and> members (Suc d5) ms t \<and> segment s5 p5 (t @ ''}'') q5"
proof (induction s1 p1 d1 and s2 p2 d2 and s3 p3 d3 and s4 p4 d4 and s5 p5 d5 arbitrary: q1 and q2 and q3 and q4 and q5
    rule: json_validate_value_json_validate_array_json_validate_object_array_loop_object_loop.induct)
  case (1 s p d)
  then have d: "d \<le> 64" "p < length s" by (auto simp: json_validate_value.simps [of s p d] split: if_splits)
  then consider "s ! p = CHR ''{''" "json_validate_object s p d = Some q1"
    | "s ! p = CHR ''[''" "json_validate_array s p d = Some q1"
    | "json_validate_string s p = Some q1" | "json_validate_number s p = Some q1"
    | "validate_literal literals s p = Some q1"
    using "1.prems" by (auto simp: json_validate_value.simps [of s p d] split: if_splits)
  then show ?case
  proof cases
    case 1
    then show ?thesis using "1.IH"(1) d by simp
  next
    case 2
    then show ?thesis using "1.IH"(2) d by simp
  next
    case 3
    then obtain k where "string_body k" "segment s p (quote # k @ [quote]) q1" unfolding validate_string_iff by blast
    then show ?thesis using spells_with_elements_with_members_with.string [OF d(1)] by blast
  next
    case 4
    then show ?thesis using d spells_with_elements_with_members_with.number validate_number_sound by blast
  next
    case 5
    obtain l where "l \<in> {''true'', ''false'', ''null''}" "segment s p l q1"
      using validate_literal_sound [OF d(2) 5] unfolding literals_def list.set by blast
    then show ?thesis using spells_with_elements_with_members_with.literal [OF d(1)] by blast
  qed
next
  case (2 s p d)
  let ?x = "json_skip_space s (Suc p)"
  obtain w where w: "spaces w" "segment s (Suc p) w ?x" using skip_space_segment [of "Suc p" s] "2.prems"(3) by auto
  from "2.prems"(1) have x: "?x < length s" "s ! ?x = CHR '']'' \<and> q2 = Suc ?x \<or> s ! ?x \<noteq> CHR '']'' \<and> array_loop s ?x d = Some q2"
    by (auto simp: json_validate_array.simps [of s p d] Let_def split: if_splits)
  show ?case
  proof (cases "s ! ?x = CHR '']''")
    case True
    then have "segment s p (''['' @ w @ '']'') q2" using w x "2.prems" by (auto simp: segment_append)
    then show ?thesis using spells_with_elements_with_members_with.no_elements "2.prems"(2) w(1) by blast
  next
    case False
    with "2.IH" [of ?x q2] x obtain js t where "js \<noteq> []" "elements (Suc d) js t" "segment s ?x (t @ '']'') q2" by auto
    moreover from this have "segment s p (''['' @ w @ t @ '']'') q2"
      using w "2.prems" segment_append [of s "Suc p" w "t @ '']''" q2] by auto
    ultimately show ?thesis using spells_with_elements_with_members_with.array "2.prems"(2) w(1) by blast
  qed
next
  case (3 s p d)
  let ?x = "json_skip_space s (Suc p)"
  obtain w where w: "spaces w" "segment s (Suc p) w ?x" using skip_space_segment [of "Suc p" s] "3.prems"(3) by auto
  from "3.prems"(1) have x: "?x < length s" "s ! ?x = CHR ''}'' \<and> q3 = Suc ?x \<or> s ! ?x \<noteq> CHR ''}'' \<and> object_loop s ?x d = Some q3"
    by (auto simp: json_validate_object.simps [of s p d] Let_def split: if_splits)
  show ?case
  proof (cases "s ! ?x = CHR ''}''")
    case True
    then have "segment s p (''{'' @ w @ ''}'') q3" using w x "3.prems" by (auto simp: segment_append)
    then show ?thesis using spells_with_elements_with_members_with.no_members "3.prems"(2) w(1) by blast
  next
    case False
    with "3.IH" [of ?x q3] x obtain ms t where "ms \<noteq> []" "members (Suc d) ms t" "segment s ?x (t @ ''}'') q3" by auto
    moreover from this have "segment s p (''{'' @ w @ t @ ''}'') q3"
      using w "3.prems" segment_append [of s "Suc p" w "t @ ''}''" q3] by auto
    ultimately show ?thesis using spells_with_elements_with_members_with.object "3.prems"(2) w(1) by blast
  qed
next
  case (4 s p d)
  show ?case
    by (rule array_loop_sound [OF "4.prems"]) (use "4.IH" in auto)
next
  case (5 s p d)
  show ?case
    by (rule object_loop_sound [OF "5.prems"]) (use "5.IH" in auto)
qed

section \<open>The validator is complete\<close>

text \<open>A value starts with its own character and ends where the text goes on with a delimiter.\<close>

lemma spells_start:
  assumes "spells d j t"
  shows "\<exists>c u. t = c # u \<and> \<not> json_is_space c \<and> c \<notin> {CHR '']'', CHR ''}''}"
  using assms
proof cases
  case number
  then obtain c u where "t = c # u" "c = CHR ''-'' \<or> is_digit c" by (auto elim: number_first)
  then show ?thesis using digit_not_special [of c] by auto
next
  case literal
  then consider "t = ''true''" | "t = ''false''" | "t = ''null''" by blast
  then show ?thesis by cases simp_all
qed simp_all

lemma elements_start: "elements d js t \<Longrightarrow> \<exists>c u. t = c # u \<and> \<not> json_is_space c \<and> c \<noteq> CHR '']''"
  by (cases rule: elements_with.cases, assumption) (auto dest!: spells_start)

lemma members_start: "members d ms t \<Longrightarrow> \<exists>u. t = quote # u"
  by (cases rule: members_with.cases, assumption) auto

definition text_stops :: "string \<Rightarrow> nat \<Rightarrow> bool" where
  "text_stops s q \<longleftrightarrow> q = length s \<or> json_is_delimiter (s ! q)"

lemma delimiter_stops: "text_stops s q \<Longrightarrow> number_stops s q"
  by (auto simp: text_stops_def number_stops_def json_is_delimiter_def json_is_space_def is_digit_def)

lemma stops_before: "segment s q w r \<Longrightarrow> spaces w \<Longrightarrow> r < length s \<Longrightarrow> s ! r \<in> {CHR '','', CHR '']'', CHR ''}''} \<Longrightarrow> text_stops s q"
  by (cases w) (auto simp: text_stops_def json_is_delimiter_def)

lemma skip_to: "segment s p w q \<Longrightarrow> spaces w \<Longrightarrow> q < length s \<Longrightarrow> \<not> json_is_space (s ! q) \<Longrightarrow> json_skip_space s p = q"
  by (simp add: skip_space_stop)

lemma segment_first: "segment s p (c # t) q \<Longrightarrow> p < length s \<and> s ! p = c"
  by simp

text \<open>What it means that the validator accepts a text wherever it stands, and what each rule of the grammar adds.\<close>

definition accepts_value :: "string \<Rightarrow> nat \<Rightarrow> string \<Rightarrow> bool" where
  "accepts_value s d t \<longleftrightarrow> (\<forall>p q. segment s p t q \<longrightarrow> text_stops s q \<longrightarrow> json_validate_value s p d = Some q)"

definition accepts_elements :: "string \<Rightarrow> nat \<Rightarrow> string \<Rightarrow> bool" where
  "accepts_elements s e t \<longleftrightarrow> (\<forall>p q d. e = Suc d \<longrightarrow> segment s p (t @ '']'') q \<longrightarrow> array_loop s p d = Some q)"

definition accepts_members :: "string \<Rightarrow> nat \<Rightarrow> string \<Rightarrow> bool" where
  "accepts_members s e t \<longleftrightarrow> (\<forall>p q d. e = Suc d \<longrightarrow> segment s p (t @ ''}'') q \<longrightarrow> object_loop s p d = Some q)"

lemmas accepts_defs = accepts_value_def accepts_elements_def accepts_members_def

lemma accepts_string:
  assumes prem: "d \<le> 64" "string_body k"
  shows "accepts_value s d (quote # k @ [quote])"
  unfolding accepts_defs
proof (intro allI impI)
  fix p q assume g: "segment s p (quote # k @ [quote]) q"
  then have "json_validate_string s p = Some q" using prem validate_string_iff by blast
  with g prem show "json_validate_value s p d = Some q" by (simp add: json_validate_value.simps [of s p d])
qed

lemma accepts_number:
  assumes prem: "d \<le> 64" "number_text k"
  shows "accepts_value s d k"
  unfolding accepts_defs
proof (intro allI impI)
  fix p q assume g: "segment s p k q" "text_stops s q"
  obtain c u where c: "k = c # u" "c = CHR ''-'' \<or> is_digit c" using prem by (auto elim: number_first)
  with validate_number_complete [OF prem(2) g(1) delimiter_stops [OF g(2)]] g(1) prem(1)
  show "json_validate_value s p d = Some q"
    by (auto simp: json_validate_value.simps [of s p d] dest: digit_not_special)
qed

lemma accepts_literal:
  assumes prem: "d \<le> 64" "k \<in> {''true'', ''false'', ''null''}"
  shows "accepts_value s d k"
  unfolding accepts_defs
proof (intro allI impI)
  fix p q assume g: "segment s p k q"
  have "p < length s" "s ! p \<in> {CHR ''t'', CHR ''f'', CHR ''n''}" using g prem(2) by auto
  with validate_literal_complete [OF prem(2) g] prem(1) show "json_validate_value s p d = Some q"
    by (auto simp: json_validate_value.simps [of s p d] is_digit_def)
qed

lemma accepts_no_elements:
  assumes prem: "d \<le> 64" "spaces w"
  shows "accepts_value s d (''['' @ w @ '']'')"
  unfolding accepts_defs
proof (intro allI impI)
  fix p q assume g: "segment s p (''['' @ w @ '']'') q"
  then obtain x where x: "p < length s" "s ! p = CHR ''[''" "segment s (Suc p) w x" "x < length s" "s ! x = CHR '']''" "q = Suc x"
    by (auto simp: segment_append)
  have "json_skip_space s (Suc p) = x" by (rule skip_to [OF x(3) prem(2) x(4)]) (simp add: x(5))
  with x prem(1) show "json_validate_value s p d = Some q"
    by (simp add: json_validate_value.simps [of s p d] json_validate_array.simps [of s p d])
qed

lemma accepts_array:
  assumes prem: "d \<le> 64" "spaces w" "js \<noteq> []" "elements (Suc d) js t" "accepts_elements s (Suc d) t"
  shows "accepts_value s d (''['' @ w @ t @ '']'')"
  unfolding accepts_defs
proof (intro allI impI)
  fix p q assume g: "segment s p (''['' @ w @ t @ '']'') q"
  then obtain x where x: "p < length s" "s ! p = CHR ''[''" "segment s (Suc p) w x" "segment s x (t @ '']'') q"
    by (auto simp: segment_append)
  obtain c u where c: "t = c # u" "\<not> json_is_space c" "c \<noteq> CHR '']''" using elements_start [OF prem(4)] by blast
  then have "x < length s" "s ! x = c" using x(4) by auto
  moreover from this c have "json_skip_space s (Suc p) = x" using skip_to [OF x(3) prem(2)] by simp
  moreover have "array_loop s x d = Some q" using prem(5) [unfolded accepts_defs] x(4) by blast
  ultimately show "json_validate_value s p d = Some q"
    using x(1,2) c prem(1) by (simp add: json_validate_value.simps [of s p d] json_validate_array.simps [of s p d])
qed

lemma accepts_no_members:
  assumes prem: "d \<le> 64" "spaces w"
  shows "accepts_value s d (''{'' @ w @ ''}'')"
  unfolding accepts_defs
proof (intro allI impI)
  fix p q assume g: "segment s p (''{'' @ w @ ''}'') q"
  then obtain x where x: "p < length s" "s ! p = CHR ''{''" "segment s (Suc p) w x" "x < length s" "s ! x = CHR ''}''" "q = Suc x"
    by (auto simp: segment_append)
  have "json_skip_space s (Suc p) = x" by (rule skip_to [OF x(3) prem(2) x(4)]) (simp add: x(5))
  with x prem(1) show "json_validate_value s p d = Some q"
    by (simp add: json_validate_value.simps [of s p d] json_validate_object.simps [of s p d])
qed

lemma accepts_object:
  assumes prem: "d \<le> 64" "spaces w" "ms \<noteq> []" "members (Suc d) ms t" "accepts_members s (Suc d) t"
  shows "accepts_value s d (''{'' @ w @ t @ ''}'')"
  unfolding accepts_defs
proof (intro allI impI)
  fix p q assume g: "segment s p (''{'' @ w @ t @ ''}'') q"
  then obtain x where x: "p < length s" "s ! p = CHR ''{''" "segment s (Suc p) w x" "segment s x (t @ ''}'') q"
    by (auto simp: segment_append)
  obtain u where c: "t = quote # u" using members_start [OF prem(4)] by blast
  then have "x < length s" "s ! x = quote" using x(4) by auto
  moreover from this have "json_skip_space s (Suc p) = x" using skip_to [OF x(3) prem(2)] by simp
  moreover have "object_loop s x d = Some q" using prem(5) [unfolded accepts_defs] x(4) by blast
  ultimately show "json_validate_value s p d = Some q"
    using x(1,2) prem(1) by (simp add: json_validate_value.simps [of s p d] json_validate_object.simps [of s p d])
qed

lemma accepts_last_element:
  assumes prem: "spells e j t" "spaces w" "accepts_value s e t"
  shows "accepts_elements s e (t @ w)"
  unfolding accepts_defs
proof (intro allI impI)
  fix p q d assume e: "e = Suc d" and g: "segment s p ((t @ w) @ '']'') q"
  then obtain x y where x: "segment s p t x" "segment s x w y" "y < length s" "s ! y = CHR '']''" "q = Suc y"
    by (auto simp: segment_append)
  have v: "json_validate_value s p (d + 1) = Some x"
    using prem(3) [unfolded accepts_defs] x(1) stops_before [OF x(2) prem(2) x(3)] x(4) e by simp
  have "p < length s" using segment_le [OF x(1)] segment_le [OF x(2)] x(3) by linarith
  with v x skip_to [OF x(2) prem(2) x(3)] show "array_loop s p d = Some q"
    by (subst array_loop.simps) simp
qed

lemma accepts_more_elements:
  assumes prem: "spells e j t" "spaces w" "spaces v" "elements e js u" "accepts_value s e t" "accepts_elements s e u"
  shows "accepts_elements s e (t @ w @ '','' @ v @ u)"
  unfolding accepts_defs
proof (intro allI impI)
  fix p q d assume e: "e = Suc d" and g: "segment s p ((t @ w @ '','' @ v @ u) @ '']'') q"
  then obtain x y z where x: "segment s p t x" "segment s x w y" "y < length s" "s ! y = CHR '',''"
      "segment s (Suc y) v z" "segment s z (u @ '']'') q"
    by (auto simp: segment_append)
  have val: "json_validate_value s p (d + 1) = Some x"
    using prem(5) [unfolded accepts_defs] x(1) stops_before [OF x(2) prem(2) x(3)] x(4) e by simp
  have p: "p < length s" using segment_le [OF x(1)] segment_le [OF x(2)] x(3) by linarith
  obtain c r where c: "u = c # r" "\<not> json_is_space c" using elements_start [OF prem(4)] by blast
  have z: "json_skip_space s (Suc y) = z" using skip_to [OF x(5) prem(3)] x(6) c by simp
  have "array_loop s z d = Some q" using prem(6) [unfolded accepts_defs] x(6) e by blast
  with val p x skip_to [OF x(2) prem(2) x(3)] z show "array_loop s p d = Some q"
    by (subst array_loop.simps) simp
qed

lemma accepts_last_member:
  assumes prem: "string_body k" "spaces w1" "spaces w2" "spells e j t" "spaces w" "accepts_value s e t"
  shows "accepts_members s e (quote # k @ quote # w1 @ '':'' @ w2 @ t @ w)"
  unfolding accepts_defs
proof (intro allI impI)
  fix p q d assume e: "e = Suc d" and g: "segment s p ((quote # k @ quote # w1 @ '':'' @ w2 @ t @ w) @ ''}'') q"
  then have "segment s p ((quote # k @ [quote]) @ w1 @ '':'' @ w2 @ t @ w @ ''}'') q" by simp
  then obtain x where x1: "segment s p (quote # k @ [quote]) x"
    and tail: "segment s x (w1 @ '':'' @ w2 @ t @ w @ ''}'') q"
    unfolding segment_append [of s p "quote # k @ [quote]"] by blast
  from tail obtain y z a b where "segment s x w1 y" "y < length s" "s ! y = CHR '':''"
      "segment s (Suc y) w2 z" "segment s z t a" "segment s a w b" "b < length s" "s ! b = CHR ''}''" "q = Suc b"
    by (auto simp: segment_append)
  note x = x1 this
  have str: "json_validate_string s p = Some x" unfolding validate_string_iff using x(1) prem(1) by blast
  have y: "json_skip_space s x = y" using skip_to [OF x(2) prem(2) x(3)] x(4) by simp
  obtain c r where c: "t = c # r" "\<not> json_is_space c" using spells_start [OF prem(4)] by blast
  have z: "json_skip_space s (Suc y) = z" using skip_to [OF x(5) prem(3)] x(6) c by simp
  have val: "json_validate_value s z (d + 1) = Some a"
    using prem(6) [unfolded accepts_defs] x(6) stops_before [OF x(7) prem(5) x(8)] x(9) e by simp
  have "json_skip_space s a = b" using skip_to [OF x(7) prem(5) x(8)] x(9) by simp
  with str y z val x(1,3,4,8-10) show "object_loop s p d = Some q" by (subst object_loop.simps) simp
qed

lemma accepts_more_members:
  assumes prem: "string_body k" "spaces w1" "spaces w2" "spells e j t" "spaces w" "spaces v" "members e ms u" "accepts_value s e t" "accepts_members s e u"
  shows "accepts_members s e (quote # k @ quote # w1 @ '':'' @ w2 @ t @ w @ '','' @ v @ u)"
  unfolding accepts_defs
proof (intro allI impI)
  fix p q d assume e: "e = Suc d"
    and g: "segment s p ((quote # k @ quote # w1 @ '':'' @ w2 @ t @ w @ '','' @ v @ u) @ ''}'') q"
  then have "segment s p ((quote # k @ [quote]) @ w1 @ '':'' @ w2 @ t @ w @ '','' @ v @ u @ ''}'') q" by simp
  then obtain x where x1: "segment s p (quote # k @ [quote]) x"
    and tail: "segment s x (w1 @ '':'' @ w2 @ t @ w @ '','' @ v @ u @ ''}'') q"
    unfolding segment_append [of s p "quote # k @ [quote]"] by blast
  from tail obtain y z a b f where "segment s x w1 y" "y < length s" "s ! y = CHR '':''"
      "segment s (Suc y) w2 z" "segment s z t a" "segment s a w b" "b < length s" "s ! b = CHR '',''"
      "segment s (Suc b) v f" "segment s f (u @ ''}'') q"
    by (auto simp: segment_append)
  note x = x1 this
  have str: "json_validate_string s p = Some x" unfolding validate_string_iff using x(1) prem(1) by blast
  have y: "json_skip_space s x = y" using skip_to [OF x(2) prem(2) x(3)] x(4) by simp
  obtain c r where c: "t = c # r" "\<not> json_is_space c" using spells_start [OF prem(4)] by blast
  have z: "json_skip_space s (Suc y) = z" using skip_to [OF x(5) prem(3)] x(6) c by simp
  have val: "json_validate_value s z (d + 1) = Some a"
    using prem(8) [unfolded accepts_defs] x(6) stops_before [OF x(7) prem(5) x(8)] x(9) e by simp
  have b: "json_skip_space s a = b" using skip_to [OF x(7) prem(5) x(8)] x(9) by simp
  obtain m where "u = quote # m" using members_start [OF prem(7)] by blast
  then have f: "json_skip_space s (Suc b) = f" using skip_to [OF x(10) prem(6)] x(11) by simp
  have "object_loop s f d = Some q" using prem(9) [unfolded accepts_defs] x(11) e by blast
  with str y z val b f x(1,3,4,8,9) show "object_loop s p d = Some q" by (subst object_loop.simps) simp
qed

lemma validate_complete:
  "spells d j t \<Longrightarrow> accepts_value s d t"
  "elements e js t' \<Longrightarrow> accepts_elements s e t'"
  "members e ms t'' \<Longrightarrow> accepts_members s e t''"
proof (induction rule: spells_with_elements_with_members_with.inducts)
  case (string d s)
  then show ?case by (rule accepts_string)
next
  case (number d s)
  then show ?case by (rule accepts_number)
next
  case (literal d s)
  then show ?case by (rule accepts_literal)
next
  case (no_elements d w)
  then show ?case by (rule accepts_no_elements)
next
  case (array d w js t)
  then show ?case by (intro accepts_array)
next
  case (no_members d w)
  then show ?case by (rule accepts_no_members)
next
  case (object d w ms t)
  then show ?case by (intro accepts_object)
next
  case (last_element d j t w)
  then show ?case by (intro accepts_last_element)
next
  case (more_elements d j t w v js u)
  then show ?case by (intro accepts_more_elements)
next
  case (last_member k w1 w2 d j t w)
  then show ?case by (intro accepts_last_member)
next
  case (more_members k w1 w2 d j t w v ms u)
  then show ?case by (intro accepts_more_members)
qed

section \<open>Documents\<close>

lemma validates_accepted_text:
  assumes "json_validate_document s"
  shows "\<exists>j. accepted_text j s"
proof -
  from assms
  obtain p where p: "json_validate_value s (json_skip_space s 0) 0 = Some p" "json_skip_space s p = length s"
    by (auto simp: json_validate_document_def split: option.splits)
  obtain w where w: "spaces w" "segment s 0 w (json_skip_space s 0)" using skip_space_segment [of 0 s] by auto
  obtain j t where j: "spells 0 j t" "segment s (json_skip_space s 0) t p" using validate_sound(1) [OF p(1)] by blast
  obtain v where v: "spaces v" "segment s p v (json_skip_space s p)" using skip_space_segment segment_le [OF j(2)] by blast
  have "segment s 0 (w @ t @ v) (length s)"
    using segment_appendI [OF w(2) segment_appendI [OF j(2) v(2)]] p(2) by simp
  then have "s = w @ t @ v" unfolding segment_whole by (rule sym)
  with w(1) v(1) j(1) show ?thesis unfolding accepted_text_unfold by blast
qed

lemma accepted_text_validates:
  assumes "accepted_text j s"
  shows "json_validate_document s"
proof -
  from assms obtain w t v where s: "s = w @ t @ v" and w: "spaces w" "spaces v" and j: "spells 0 j t"
    unfolding accepted_text_unfold by blast
  have "segment s 0 (w @ t @ v) (length s)" unfolding segment_whole s by (rule refl)
  then obtain p q where p: "segment s 0 w p" "segment s p t q" "segment s q v (length s)" by (auto simp: segment_append)
  obtain c u where c: "t = c # u" "\<not> json_is_space c" using spells_start [OF j] by blast
  then have "json_skip_space s 0 = p" using p(2) skip_to [OF p(1) w(1)] by simp
  moreover have "text_stops s q"
    using p(3) w(2) by (cases v) (auto simp: text_stops_def json_is_delimiter_def)
  then have "json_validate_value s p 0 = Some q" using validate_complete(1) [OF j] p(2) unfolding accepts_value_def by blast
  moreover have "json_skip_space s q = length s" using skip_space_stop [OF p(3) w(2)] by simp
  ultimately show ?thesis by (simp add: json_validate_document_def)
qed

section \<open>JSON and what is accepted\<close>

text \<open>Only the escapes that occur in a text matter.\<close>

lemma body_escapes: "body_with E s \<Longrightarrow> E \<inter> set s \<subseteq> E' \<Longrightarrow> body_with E' s"
  by (induction rule: body_with.induct) (auto intro: body_with.intros)

lemma spells_escapes:
  "spells_with E d j t \<Longrightarrow> E \<inter> set t \<subseteq> E' \<Longrightarrow> spells_with E' d j t"
  "elements_with E d js t' \<Longrightarrow> E \<inter> set t' \<subseteq> E' \<Longrightarrow> elements_with E' d js t'"
  "members_with E d ms t'' \<Longrightarrow> E \<inter> set t'' \<subseteq> E' \<Longrightarrow> members_with E' d ms t''"
proof (induction rule: spells_with_elements_with_members_with.inducts)
  case (string d s)
  then have "E \<inter> set s \<subseteq> E'" by auto
  then show ?case using string body_escapes [of E s E'] by (intro spells_with_elements_with_members_with.string)
next
  case (array d w js t)
  then have "E \<inter> set t \<subseteq> E'" by auto
  then show ?case using array by (intro spells_with_elements_with_members_with.array)
next
  case (object d w ms t)
  then have "E \<inter> set t \<subseteq> E'" by auto
  then show ?case using object by (intro spells_with_elements_with_members_with.object)
next
  case (last_element d j t w)
  then have "E \<inter> set t \<subseteq> E'" by auto
  then show ?case using last_element by (intro spells_with_elements_with_members_with.last_element)
next
  case (more_elements d j t w v js u)
  then have "E \<inter> set t \<subseteq> E'" "E \<inter> set u \<subseteq> E'" by auto
  then show ?case using more_elements by (intro spells_with_elements_with_members_with.more_elements)
next
  case (last_member k w1 w2 d j t w)
  then have "E \<inter> set k \<subseteq> E'" "E \<inter> set t \<subseteq> E'" by auto
  then show ?case
    using last_member body_escapes [of E k E'] by (intro spells_with_elements_with_members_with.last_member)
next
  case (more_members k w1 w2 d j t w v ms u)
  then have "E \<inter> set k \<subseteq> E'" "E \<inter> set t \<subseteq> E'" "E \<inter> set u \<subseteq> E'" by auto
  then show ?case
    using more_members body_escapes [of E k E'] by (intro spells_with_elements_with_members_with.more_members)
next
  case (no_elements d w)
  then show ?case by (intro spells_with_elements_with_members_with.no_elements)
next
  case (no_members d w)
  then show ?case by (intro spells_with_elements_with_members_with.no_members)
qed (auto intro: spells_with_elements_with_members_with.intros)

text \<open>A JSON text has no NUL byte.\<close>

abbreviation no_nul :: "string \<Rightarrow> bool" where
  "no_nul s \<equiv> list_all (\<lambda>c. c \<noteq> CHR 0x00) s"

lemma no_nul_chars: "list_all P s \<Longrightarrow> \<not> P (CHR 0x00) \<Longrightarrow> no_nul s"
  by (induction s) auto

lemma no_nul_spaces: "spaces w \<Longrightarrow> no_nul w"
  by (erule no_nul_chars) (simp add: json_is_space_def)

lemma no_nul_digits: "digits w \<Longrightarrow> no_nul w"
  by (erule no_nul_chars) (simp add: is_digit_def)

lemma no_nul_body: "body_with rfc_escapes s \<Longrightarrow> no_nul s"
proof (induction rule: body_with.induct)
  case (unicode hs s)
  have "no_nul hs" using unicode(2) by (rule no_nul_chars) (simp add: json_is_hex_def is_digit_def)
  then show ?case using unicode.IH by simp
qed (auto simp: rfc_escapes_def)

lemma no_nul_number: "number_text s \<Longrightarrow> no_nul s"
proof -
  assume "number_text s"
  then obtain sign i f e where s: "s = sign @ i @ f @ e" "sign \<in> {[], ''-''}" and parts: "integer_part i" "fraction_part f" "exponent_part e"
    unfolding number_text_def by blast
  have zero: "\<not> is_digit (CHR 0x00)" by (simp add: is_digit_def)
  have "no_nul sign" using s(2) by auto
  moreover have "no_nul i" using parts(1) no_nul_digits zero unfolding integer_part_def by auto
  moreover have "no_nul f" using parts(2) no_nul_digits unfolding fraction_part_def by auto
  moreover have "no_nul e" using parts(3) no_nul_digits unfolding exponent_part_def by auto
  ultimately show ?thesis by (simp add: s(1))
qed

lemma no_nul_spells:
  "spells_with rfc_escapes d j t \<Longrightarrow> no_nul t"
  "elements_with rfc_escapes d js t' \<Longrightarrow> no_nul t'"
  "members_with rfc_escapes d ms t'' \<Longrightarrow> no_nul t''"
  by (induction rule: spells_with_elements_with_members_with.inducts)
    (auto simp: no_nul_spaces no_nul_body no_nul_number)

lemma json_accepted:
  assumes "json_text j s"
  shows "accepted_text j s" "no_nul s"
proof -
  obtain w t v where s: "s = w @ t @ v" "spaces w" "spaces v" "spells_with rfc_escapes 0 j t"
    using assms unfolding json_text_def text_with_def by blast
  have "spells 0 j t" using spells_escapes(1) [OF s(4), of scanned_escapes] by (auto simp: scanned_escapes_def)
  with s(1-3) show "accepted_text j s" unfolding accepted_text_unfold by blast
  show "no_nul s" using s no_nul_spells(1) by (simp add: no_nul_spaces)
qed

lemma accepted_json:
  assumes "accepted_text j s" "no_nul s"
  shows "json_text j s"
proof -
  obtain w t v where s: "s = w @ t @ v" "spaces w" "spaces v" "spells 0 j t"
    using assms(1) unfolding accepted_text_unfold by blast
  have "scanned_escapes \<inter> set t \<subseteq> rfc_escapes" using assms(2) s(1) by (auto simp: scanned_escapes_def list_all_iff)
  from spells_escapes(1) [OF s(4) this] s(1-3) show ?thesis unfolding json_text_def text_with_def by blast
qed

text \<open>
  Property C6. \<open>json_validate_document\<close> decides JSON for every source without a NUL byte, and takes one thing
  that is not JSON. A source is a JSON text that nests at most 64 deep, with white space around it and nothing
  else, exactly when the validator accepts it and no byte of it is NUL: numbers have no leading zeros, strings
  no bare control characters and only the escapes of the RFC, arrays and objects no trailing commas (the
  grammar is over bytes, the UTF-8 encoding of what strings hold is not looked at). What the
  validator accepts with a NUL in it is no JSON, and this does happen: the four bytes quote, backslash, NUL,
  quote are accepted. Every other text it accepts is one of the same grammar with backslash NUL as an escape.
\<close>

theorem validator_accepts_json_and_escaped_nul:
  "((\<exists>j. json_text j s) \<longleftrightarrow> json_validate_document s \<and> CHR 0x00 \<notin> set s) \<and>
   (json_validate_document s \<longleftrightarrow> (\<exists>j. accepted_text j s)) \<and>
   json_validate_document [quote, backslash, CHR 0x00, quote]"
proof -
  have exact: "json_validate_document s \<longleftrightarrow> (\<exists>j. accepted_text j s)" for s
    using validates_accepted_text accepted_text_validates by blast
  have nul: "CHR 0x00 \<notin> set s \<longleftrightarrow> no_nul s" by (auto simp: list_all_iff)
  have "body_with scanned_escapes [backslash, CHR 0x00]"
    by (intro body_with.escape body_with.empty) (simp add: scanned_escapes_def)
  then have "accepted_text (J_String [backslash, CHR 0x00]) [quote, backslash, CHR 0x00, quote]"
    unfolding accepted_text_unfold
    using spells_with_elements_with_members_with.string [of 0 scanned_escapes "[backslash, CHR 0x00]"]
    by (intro exI [of _ "[]"] exI [of _ "[quote, backslash, CHR 0x00, quote]"]) simp
  then show ?thesis unfolding nul exact using json_accepted accepted_json by blast
qed

end
