(* ===== verification/Json_Layout.thy ===== *)
theory Json_Layout
  imports Json_Grammar Workflow_Loader
begin

text \<open>
  What the tokenizer of \<open>Json_Reader\<close> leaves in the token array: for a text the validator accepts, a text of
  the grammar of \<open>Json_Grammar\<close>, the nodes of its tree in preorder, each with its type, its text, the number of its children and the index
  of its parent. A token array of half the length of the source is large enough.
\<close>

section \<open>The nodes of a tree\<close>

type_synonym node = "json_token_type \<times> string option \<times> nat \<times> nat option"

text \<open>
  What a token shows: its type, the text of a leaf that spans as much of the source as its positions say,
  the number of its children and the index of its parent.
\<close>

definition shown :: "string \<Rightarrow> json_token \<Rightarrow> node" where
  "shown source t = (tk_type t,
     if tk_type t \<in> {JSON_TOKEN_STRING, JSON_TOKEN_PRIMITIVE} \<and> length (token_text source t) = token_length t
     then Some (token_text source t) else None,
     tk_child_count t, tk_parent t)"

text \<open>The nodes of a tree, of a list of elements and of a list of members, when the first has index \<open>n\<close>.\<close>

fun nodes :: "nat option \<Rightarrow> nat \<Rightarrow> json \<Rightarrow> node list"
  and element_nodes :: "nat \<Rightarrow> nat \<Rightarrow> json list \<Rightarrow> node list"
  and member_nodes :: "nat \<Rightarrow> nat \<Rightarrow> (string \<times> json) list \<Rightarrow> node list" where
  "nodes parent n (J_String s) = [(JSON_TOKEN_STRING, Some s, 0, parent)]"
| "nodes parent n (J_Primitive s) = [(JSON_TOKEN_PRIMITIVE, Some s, 0, parent)]"
| "nodes parent n (J_Array js) = (JSON_TOKEN_ARRAY, None, length js, parent) # element_nodes n (n + 1) js"
| "nodes parent n (J_Object ms) = (JSON_TOKEN_OBJECT, None, 2 * length ms, parent) # member_nodes n (n + 1) ms"
| "element_nodes k n [] = []"
| "element_nodes k n (j # js) = nodes (Some k) n j @ element_nodes k (n + length (nodes (Some k) n j)) js"
| "member_nodes k n [] = []"
| "member_nodes k n ((key, j) # ms) =
     (JSON_TOKEN_STRING, Some key, 0, Some k) # nodes (Some k) (n + 1) j @
     member_nodes k (n + 1 + length (nodes (Some k) (n + 1) j)) ms"

lemma nodes_fit:
  "spells d j t \<Longrightarrow> (\<forall>c n. 2 * length (nodes c n j) \<le> length t + 1)"
  "elements d js t' \<Longrightarrow> (\<forall>k n. 2 * length (element_nodes k n js) \<le> length t' + 1)"
  "members d ms t'' \<Longrightarrow> (\<forall>k n. 2 * length (member_nodes k n ms) \<le> length t'' + 1)"
proof (induction rule: spells_with_elements_with_members_with.inducts)
  case (number d s)
  then show ?case by (auto elim: number_first)
next
  case (more_elements d j t w v js u)
  show ?case
  proof (intro allI)
    fix k n
    show "2 * length (element_nodes k n (j # js)) \<le> length (t @ w @ '','' @ v @ u) + 1"
      using more_elements.IH(2)[rule_format, of "Some k" n]
        more_elements.IH(4)[rule_format, of k "n + length (nodes (Some k) n j)"] by simp
  qed
next
  case (more_members key w1 w2 d j t w v ms u)
  show ?case
  proof (intro allI)
    fix k n
    show "2 * length (member_nodes k n ((key, j) # ms)) \<le>
        length (quote # key @ quote # w1 @ '':'' @ w2 @ t @ w @ '','' @ v @ u) + 1"
      using more_members.IH(3)[rule_format, of "Some k" "n + 1"]
        more_members.IH(5)[rule_format, of k "n + 1 + length (nodes (Some k) (n + 1) j)"] by simp
  qed
next
  case (last_member key w1 w2 d j t w)
  show ?case
  proof (intro allI)
    fix k n
    show "2 * length (member_nodes k n [(key, j)]) \<le> length (quote # key @ quote # w1 @ '':'' @ w2 @ t @ w) + 1"
      using last_member.IH(3)[rule_format, of "Some k" "n + 1"] by simp
  qed
next
  case (last_element d j t w)
  show ?case
  proof (intro allI)
    fix k n
    show "2 * length (element_nodes k n [j]) \<le> length (t @ w) + 1"
      using last_element.IH(2)[rule_format, of "Some k" n] by simp
  qed
next
  case (array d w js t)
  show ?case
  proof (intro allI)
    fix c n
    show "2 * length (nodes c n (J_Array js)) \<le> length (''['' @ w @ t @ '']'') + 1"
      using array.IH(2)[rule_format, of n "n + 1"] by simp
  qed
next
  case (object d w ms t)
  show ?case
  proof (intro allI)
    fix c n
    show "2 * length (nodes c n (J_Object ms)) \<le> length (''{'' @ w @ t @ ''}'') + 1"
      using object.IH(2)[rule_format, of n "n + 1"] by simp
  qed
qed auto

section \<open>One step of the tokenizer\<close>

definition parser_shows :: "string \<Rightarrow> json_parser \<Rightarrow> node list \<Rightarrow> nat option \<Rightarrow> bool" where
  "parser_shows source parser ns cur \<longleftrightarrow>
     js_current_parent parser = cur \<and> js_count parser = length ns \<and> length ns \<le> js_capacity parser \<and>
     length (js_tokens parser) = js_capacity parser \<and> map (shown source) (take (length ns) (js_tokens parser)) = ns"

definition cur_ok :: "nat option \<Rightarrow> node list \<Rightarrow> bool" where
  "cur_ok cur ns \<longleftrightarrow> (\<forall>k. cur = Some k \<longrightarrow> k < length ns)"

lemma cur_ok_simps [simp]: "cur_ok None ns" "cur_ok (Some k) ns \<longleftrightarrow> k < length ns"
  by (auto simp: cur_ok_def)

text \<open>A node gets more children.\<close>

definition grow :: "nat \<Rightarrow> nat \<Rightarrow> node list \<Rightarrow> node list" where
  "grow m k ns = ns[k := (case ns ! k of (kind, text, n, parent) \<Rightarrow> (kind, text, n + m, parent))]"

definition grow_parent :: "nat option \<Rightarrow> node list \<Rightarrow> node list" where
  "grow_parent cur ns = (case cur of None \<Rightarrow> ns | Some k \<Rightarrow> grow 1 k ns)"

lemma length_grow [simp]: "length (grow m k ns) = length ns" "length (grow_parent cur ns) = length ns"
  by (auto simp: grow_def grow_parent_def split: option.splits)

lemma grow_append [simp]: "k < length ns \<Longrightarrow> grow m k (ns @ xs) = grow m k ns @ xs"
  by (simp add: grow_def list_update_append nth_append)

lemma grow_parent_append [simp]: "cur_ok cur ns \<Longrightarrow> grow_parent cur (ns @ xs) = grow_parent cur ns @ xs"
  by (auto simp: grow_parent_def split: option.splits)

lemma grow_grow [simp]: "k < length ns \<Longrightarrow> grow m k (grow n k ns) = grow (n + m) k ns"
  by (simp add: grow_def add.assoc split: prod.splits)

lemma grow_0 [simp]: "k < length ns \<Longrightarrow> grow 0 k ns = ns"
  by (simp add: grow_def list_update_same_conv split: prod.splits)

lemma grow_last [simp]: "grow m (length ns) (ns @ (kind, text, n, parent) # xs) = ns @ (kind, text, n + m, parent) # xs"
  by (simp add: grow_def list_update_append nth_append)

lemma grow_parent_Some [simp]: "grow_parent (Some k) ns = grow 1 k ns"
  by (simp add: grow_parent_def)

lemma cur_ok_grow [simp]: "cur_ok cur (grow m k ns) \<longleftrightarrow> cur_ok cur ns" "cur_ok cur (grow_parent cur' ns) \<longleftrightarrow> cur_ok cur ns"
  by (simp_all add: cur_ok_def)

text \<open>A token in use: changing it changes its node.\<close>

lemma shows_nth: "parser_shows source parser ns cur \<Longrightarrow> k < length ns \<Longrightarrow> shown source (js_tokens parser ! k) = ns ! k"
  unfolding parser_shows_def by (metis length_take min.absorb2 nth_map nth_take)

lemma shows_update:
  "parser_shows source parser ns cur \<Longrightarrow>
    parser_shows source (parser\<lparr>js_tokens := (js_tokens parser)[k := t]\<rparr>) (ns[k := shown source t]) cur"
  by (auto simp: parser_shows_def take_update_swap map_update)

lemma token_text_segment:
  assumes "segment source st u e" "length source \<le> size_max" "tk_start t = st" "tk_end t = e"
  shows "token_text source t = u \<and> token_length t = length u"
proof -
  have "length u \<le> size_max" using assms(1,2) by (simp add: segment_def)
  then have "token_length t = length u"
    using assms by (simp add: token_length_def size_sub_def segment_def size_max_def)
  with assms(1,3) show ?thesis by (simp add: token_text_def segment_def)
qed

text \<open>A new token.\<close>

lemma allocate_shows:
  assumes p: "parser_shows source parser ns cur" "cur_ok cur ns" "length ns < js_capacity parser"
  obtains parser' t where "json_allocate_token parser kind st = (Some (length ns), parser')"
    "parser_shows source parser' (grow_parent cur ns @ [shown source t]) cur" "js_capacity parser' = js_capacity parser"
    "js_tokens parser' ! length ns = t" "tk_type t = kind" "tk_start t = st" "tk_child_count t = 0" "tk_parent t = cur"
proof -
  let ?n = "length ns"
  let ?t = "\<lparr>tk_type = kind, tk_start = st, tk_end = 0, tk_child_count = 0, tk_parent = cur\<rparr>"
  from p(1) have c: "js_current_parent parser = cur" "js_count parser = ?n" "length (js_tokens parser) = js_capacity parser"
    by (auto simp: parser_shows_def)
  let ?p = "parser\<lparr>js_count := ?n + 1, js_tokens := (js_tokens parser)[?n := ?t]\<rparr>"
  have s: "parser_shows source ?p (ns @ [shown source ?t]) cur"
    using p by (auto simp: parser_shows_def take_Suc_conv_app_nth)
  show thesis
  proof (cases cur)
    case None
    with that [of ?p ?t] s p(3) c show thesis by (simp add: json_allocate_token_def grow_parent_def Let_def)
  next
    case (Some k)
    then have k: "k < ?n" using p(2) by simp
    define t where "t = (js_tokens parser ! k)\<lparr>tk_child_count := tk_child_count (js_tokens parser ! k) + 1\<rparr>"
    let ?q = "?p\<lparr>js_tokens := (js_tokens ?p)[k := t]\<rparr>"
    have "shown source t = (case ns ! k of (kind, text, n, parent) \<Rightarrow> (kind, text, n + 1, parent))"
      using shows_nth [OF p(1) k] by (auto simp: t_def shown_def token_text_def token_length_def split: prod.splits)
    then have "(ns @ [shown source ?t])[k := shown source t] = grow 1 k ns @ [shown source ?t]"
      using k by (simp add: list_update_append grow_def)
    then have "parser_shows source ?q (grow_parent cur ns @ [shown source ?t]) cur"
      using shows_update [OF s, of k t] Some by simp
    with that [of ?q ?t] p(3) c k Some show thesis by (simp add: json_allocate_token_def t_def Let_def)
  qed
qed

section \<open>Runs of the tokenizer\<close>

text \<open>From \<open>p\<close> to \<open>q\<close> the tokenizer turns the nodes \<open>ns\<close> into \<open>ns'\<close>, if the array holds them.\<close>

definition goes :: "string \<Rightarrow> nat \<Rightarrow> node list \<Rightarrow> nat option \<Rightarrow> nat \<Rightarrow> node list \<Rightarrow> nat option \<Rightarrow> bool" where
  "goes source p ns cur q ns' cur' \<longleftrightarrow> length ns \<le> length ns' \<and>
     (\<forall>parser. parser_shows source parser ns cur \<and> length ns' \<le> js_capacity parser \<longrightarrow>
       (\<exists>parser'. parser_shows source parser' ns' cur' \<and> js_capacity parser' = js_capacity parser \<and>
          tokenize_loop source p parser = tokenize_loop source q parser'))"

lemma goes_refl [simp]: "goes source p ns cur p ns cur"
  unfolding goes_def by blast

lemma goes_trans [trans]:
  assumes "goes source p ns cur q ns' cur'" "goes source q ns' cur' r ns'' cur''"
  shows "goes source p ns cur r ns'' cur''"
  using assms unfolding goes_def by (metis le_trans)

lemma tokenize_loop_step:
  "p < length source \<Longrightarrow> json_tokenize_at source p parser = Some (r, parser') \<Longrightarrow>
    tokenize_loop source p parser = tokenize_loop source (Suc r) parser'"
  by (simp add: tokenize_loop.simps [of source p])

text \<open>White space, colons and commas leave no token.\<close>

lemma goes_blank:
  "segment source p w q \<Longrightarrow> list_all (\<lambda>c. json_is_space c \<or> c = CHR '':'' \<or> c = CHR '','') w \<Longrightarrow> goes source p ns cur q ns cur"
proof (induction w arbitrary: p)
  case (Cons c w)
  then have c: "p < length source" "source ! p = c" "json_is_space c \<or> c = CHR '':'' \<or> c = CHR '',''" by auto
  then have "json_tokenize_at source p parser = Some (p, parser)" for parser
    by (auto simp: json_tokenize_at_def json_is_space_def)
  from tokenize_loop_step [OF c(1) this] have "goes source p ns cur (Suc p) ns cur" unfolding goes_def by blast
  also from Cons have "goes source (Suc p) ns cur q ns cur" by simp
  finally show ?case .
qed simp

lemma goes_spaces: "segment source p w q \<Longrightarrow> spaces w \<Longrightarrow> goes source p ns cur q ns cur"
  by (rule goes_blank) (auto simp: list_all_iff)

lemma goes_char:
  "q = Suc p \<Longrightarrow> p < length source \<Longrightarrow> source ! p \<in> {CHR '':'', CHR '',''} \<Longrightarrow> goes source p ns cur q ns cur"
  using goes_blank [of source p "[source ! p]" q] by auto

text \<open>A container opens and closes.\<close>

definition opens :: "json_token_type \<Rightarrow> char \<Rightarrow> char \<Rightarrow> bool" where
  "opens kind c c' \<longleftrightarrow> kind = JSON_TOKEN_ARRAY \<and> c = CHR ''['' \<and> c' = CHR '']'' \<or>
     kind = JSON_TOKEN_OBJECT \<and> c = CHR ''{'' \<and> c' = CHR ''}''"

lemma goes_open:
  assumes "p < length source" "opens kind (source ! p) c'" "cur_ok cur ns"
  shows "goes source p ns cur (Suc p) (grow_parent cur ns @ [(kind, None, 0, cur)]) (Some (length ns))"
  unfolding goes_def
proof (intro conjI allI impI; (elim conjE)?)
  fix parser assume a: "parser_shows source parser ns cur" "length (grow_parent cur ns @ [(kind, None, 0, cur)]) \<le> js_capacity parser"
  then have room: "length ns < js_capacity parser" by simp
  obtain parser' t where t: "json_allocate_token parser kind p = (Some (length ns), parser')"
    "parser_shows source parser' (grow_parent cur ns @ [shown source t]) cur" "js_capacity parser' = js_capacity parser"
    "tk_type t = kind" "tk_child_count t = 0" "tk_parent t = cur"
    using allocate_shows [OF a(1) assms(3) room] by blast
  have "shown source t = (kind, None, 0, cur)" using t assms(2) by (auto simp: shown_def opens_def)
  then have "parser_shows source (parser'\<lparr>js_current_parent := Some (length ns)\<rparr>)
      (grow_parent cur ns @ [(kind, None, 0, cur)]) (Some (length ns))"
    using t(2) by (simp add: parser_shows_def)
  moreover have "json_tokenize_at source p parser = Some (p, parser'\<lparr>js_current_parent := Some (length ns)\<rparr>)"
    using t(1) assms(2) by (auto simp: json_tokenize_at_def opens_def)
  ultimately show "\<exists>parser'. parser_shows source parser' (grow_parent cur ns @ [(kind, None, 0, cur)]) (Some (length ns)) \<and>
      js_capacity parser' = js_capacity parser \<and> tokenize_loop source p parser = tokenize_loop source (Suc p) parser'"
    using tokenize_loop_step [OF assms(1)] t(3) by fastforce
qed simp

lemma goes_close:
  assumes "p < length source" "opens kind c (source ! p)" "k < length ns" "ns ! k = (kind, None, n, cur)"
  shows "goes source p ns (Some k) (Suc p) ns cur"
  unfolding goes_def
proof (intro conjI allI impI; (elim conjE)?)
  fix parser assume a: "parser_shows source parser ns (Some k)"
  define t where "t = (js_tokens parser ! k)\<lparr>tk_end := p + 1\<rparr>"
  let ?q = "(set_end k (p + 1) parser)\<lparr>js_current_parent := cur\<rparr>"
  have k: "tk_type (js_tokens parser ! k) = kind" "tk_parent (js_tokens parser ! k) = cur"
      "kind \<notin> {JSON_TOKEN_STRING, JSON_TOKEN_PRIMITIVE}"
    using shows_nth [OF a assms(3)] assms(2,4) by (auto simp: shown_def opens_def)
  have "shown source t = shown source (js_tokens parser ! k)" using k by (simp add: t_def shown_def)
  then have "parser_shows source (set_end k (p + 1) parser) ns (Some k)"
    using shows_update [OF a, of k t] shows_nth [OF a assms(3)] assms(3) by (simp add: set_end_def t_def)
  then have "parser_shows source ?q ns cur" by (simp add: parser_shows_def)
  moreover have "json_tokenize_at source p parser = Some (p, ?q)"
    using a k assms(2) by (auto simp: json_tokenize_at_def opens_def json_close_container_def parser_shows_def)
  ultimately show "\<exists>parser'. parser_shows source parser' ns cur \<and> js_capacity parser' = js_capacity parser \<and>
      tokenize_loop source p parser = tokenize_loop source (Suc p) parser'"
    using tokenize_loop_step [OF assms(1)] by (intro exI [of _ ?q]) (simp add: set_end_def)
qed simp

text \<open>A leaf: its token is new, then its end is set.\<close>

lemma goes_leaf:
  assumes p: "p < length source" "cur_ok cur ns" and t: "segment source st u e" "length source \<le> size_max"
    and kind: "kind \<in> {JSON_TOKEN_STRING, JSON_TOKEN_PRIMITIVE}"
    and at: "\<And>parser parser'. json_allocate_token parser kind st = (Some (length ns), parser') \<Longrightarrow>
      json_tokenize_at source p parser = Some (r, set_end (length ns) e parser')"
  shows "goes source p ns cur (Suc r) (grow_parent cur ns @ [(kind, Some u, 0, cur)]) cur"
  unfolding goes_def
proof (intro conjI allI impI; (elim conjE)?)
  fix parser assume a: "parser_shows source parser ns cur" "length (grow_parent cur ns @ [(kind, Some u, 0, cur)]) \<le> js_capacity parser"
  then have room: "length ns < js_capacity parser" by simp
  obtain parser' t where t': "json_allocate_token parser kind st = (Some (length ns), parser')"
    "parser_shows source parser' (grow_parent cur ns @ [shown source t]) cur" "js_capacity parser' = js_capacity parser"
    "js_tokens parser' ! length ns = t" "tk_type t = kind" "tk_start t = st" "tk_child_count t = 0" "tk_parent t = cur"
    using allocate_shows [OF a(1) p(2) room] by blast
  let ?t = "t\<lparr>tk_end := e\<rparr>"
  have "shown source ?t = (kind, Some u, 0, cur)"
    using token_text_segment [OF t, of ?t] t' kind by (simp add: shown_def)
  then have "parser_shows source (set_end (length ns) e parser') (grow_parent cur ns @ [(kind, Some u, 0, cur)]) cur"
    using shows_update [OF t'(2), of "length ns" ?t] t'(4) by (simp add: set_end_def list_update_append)
  with tokenize_loop_step [OF p(1) at [OF t'(1)]] t'(3)
  show "\<exists>parser'. parser_shows source parser' (grow_parent cur ns @ [(kind, Some u, 0, cur)]) cur \<and>
      js_capacity parser' = js_capacity parser \<and> tokenize_loop source p parser = tokenize_loop source (Suc r) parser'"
    by (intro exI [of _ "set_end (length ns) e parser'"]) (simp add: set_end_def)
qed simp

section \<open>Strings and primitives\<close>

lemma hex_plain: "json_is_hex c \<Longrightarrow> 32 \<le> code c \<and> c \<noteq> backslash \<and> c \<noteq> quote"
  by (auto simp: json_is_hex_def is_digit_def)

lemma string_end_plain:
  "list_all (\<lambda>c. 32 \<le> code c \<and> c \<noteq> backslash \<and> c \<noteq> quote) u \<Longrightarrow> segment source p u r \<Longrightarrow>
    string_end source False p = string_end source False r"
  by (induction u arbitrary: p) (auto simp: string_end.simps [of source False])

lemma string_end_body:
  "string_body u \<Longrightarrow> segment source p u q \<Longrightarrow> q < length source \<Longrightarrow> source ! q = quote \<Longrightarrow> string_end source False p = Some q"
proof (induction u arbitrary: p rule: body_with.induct)
  case empty
  then show ?case by (simp add: string_end.simps [of source False])
next
  case (plain c u)
  then show ?case by (simp add: string_end.simps [of source False p])
next
  case (escape e u)
  then show ?case
    by (simp add: string_end.simps [of source False p] string_end.simps [of source True "Suc p"])
next
  case (unicode hs u)
  then obtain r where r: "p < length source" "source ! p = backslash" "Suc p < length source" "source ! Suc p = CHR ''u''"
      "segment source (Suc (Suc p)) hs r" "segment source r u q"
    by (auto simp: segment_append)
  have "list_all (\<lambda>c. 32 \<le> code c \<and> c \<noteq> backslash \<and> c \<noteq> quote) hs"
    using unicode.hyps(2) hex_plain by (auto simp: list_all_iff)
  from string_end_plain [OF this r(5)] unicode.IH [OF r(6)] unicode.prems r
  show ?case by (simp add: string_end.simps [of source False p] string_end.simps [of source True "Suc p"])
qed

lemma goes_string:
  assumes "string_body u" "segment source p (quote # u @ [quote]) q" "cur_ok cur ns" "length source \<le> size_max"
  shows "goes source p ns cur q (grow_parent cur ns @ [(JSON_TOKEN_STRING, Some u, 0, cur)]) cur"
proof -
  from assms(2) obtain e where e: "p < length source" "source ! p = quote" "segment source (p + 1) u e"
      "e < length source" "source ! e = quote" "q = Suc e"
    by (auto simp: segment_append)
  have "goes source p ns cur (Suc e) (grow_parent cur ns @ [(JSON_TOKEN_STRING, Some u, 0, cur)]) cur"
    using string_end_body [OF assms(1) e(3-5)] e(2)
    by (intro goes_leaf [OF e(1) assms(3) e(3) assms(4)]) (auto simp: json_tokenize_at_def json_parse_string_def)
  then show ?thesis using e(6) by simp
qed

text \<open>The characters of numbers and literals.\<close>

definition primitive_char :: "char \<Rightarrow> bool" where
  "primitive_char c \<longleftrightarrow> is_digit c \<or> c \<in> set ''+-.eEtrufalsn''"

lemma primitive_specials [simp]: "list_all primitive_char ''+-.eEtrufalsn''"
  by (simp add: primitive_char_def)

lemma primitive_digits [simp]: "digits ds \<Longrightarrow> list_all primitive_char ds"
  by (auto simp: list_all_iff primitive_char_def)

lemma number_chars:
  assumes "number_text t"
  shows "list_all primitive_char t"
proof -
  from assms obtain sign i f e where t: "t = sign @ i @ f @ e" and sign: "sign \<in> {[], ''-''}"
    and "integer_part i" "fraction_part f" "exponent_part e"
    unfolding number_text_def by blast
  have "list_all primitive_char sign" using sign primitive_specials by auto
  moreover have "list_all primitive_char i" using \<open>integer_part i\<close> by (auto simp: integer_part_def primitive_char_def)
  moreover have "list_all primitive_char f" using \<open>fraction_part f\<close> primitive_specials by (auto simp: fraction_part_def)
  moreover have "list_all primitive_char e" using \<open>exponent_part e\<close> primitive_specials by (auto simp: exponent_part_def)
  ultimately show ?thesis by (simp add: t)
qed

lemma literal_chars: "t \<in> {''true'', ''false'', ''null''} \<Longrightarrow> list_all primitive_char t"
  using primitive_specials by (elim insertE) simp_all

lemma primitive_plain:
  assumes "primitive_char c"
  shows "\<not> json_is_delimiter c \<and> 32 \<le> code c \<and> c \<noteq> CHR '':'' \<and> c \<noteq> quote \<and> c \<noteq> CHR ''{'' \<and> c \<noteq> CHR ''[''"
proof (cases "is_digit c")
  case True
  then show ?thesis by (auto simp: is_digit_def json_is_delimiter_def json_is_space_def)
next
  case False
  with assms have "c \<in> set ''+-.eEtrufalsn''" unfolding primitive_char_def by blast
  moreover have "list_all (\<lambda>c. \<not> json_is_delimiter c \<and> 32 \<le> code c \<and> c \<noteq> CHR '':'' \<and> c \<noteq> quote \<and>
      c \<noteq> CHR ''{'' \<and> c \<noteq> CHR ''['') ''+-.eEtrufalsn''"
    by (simp add: json_is_delimiter_def json_is_space_def)
  ultimately show ?thesis unfolding list_all_iff by blast
qed

lemma primitive_end_segment:
  "list_all primitive_char t \<Longrightarrow> segment source p t q \<Longrightarrow> text_stops source q \<Longrightarrow> primitive_end source p = Some q"
proof (induction t arbitrary: p)
  case Nil
  then show ?case by (auto simp: primitive_end.simps [of source p] text_stops_def)
next
  case (Cons c t)
  then show ?case using primitive_plain [of c] by (simp add: primitive_end.simps [of source p])
qed

lemma goes_primitive:
  assumes "list_all primitive_char t" "segment source p t q" "t \<noteq> []" "text_stops source q" "cur_ok cur ns"
    "length source \<le> size_max"
  shows "goes source p ns cur q (grow_parent cur ns @ [(JSON_TOKEN_PRIMITIVE, Some t, 0, cur)]) cur"
proof -
  obtain c u where c: "t = c # u" using assms(3) by (cases t) auto
  have p: "p < length source" "source ! p = c" "p < q" using assms(2) c by (auto dest: segment_le)
  have "primitive_char c" using assms(1) c by simp
  from primitive_plain [OF this] have "json_tokenize_at source p parser = json_parse_primitive source p parser" for parser
    using p(2) by (simp add: json_tokenize_at_def json_is_delimiter_def Let_def)
  then have "goes source p ns cur (Suc (q - 1)) (grow_parent cur ns @ [(JSON_TOKEN_PRIMITIVE, Some t, 0, cur)]) cur"
    using primitive_end_segment [OF assms(1,2,4)] p(3)
    by (intro goes_leaf [OF p(1) assms(5,2,6)]) (auto simp: json_parse_primitive_def)
  then show ?thesis using p(3) by simp
qed

section \<open>The tokenizer lays out the tree\<close>

lemma stops_over: "segment s q w r \<Longrightarrow> spaces w \<Longrightarrow> text_stops s r \<Longrightarrow> text_stops s q"
  by (cases w) (auto simp: text_stops_def json_is_delimiter_def)

lemma stops_at: "s ! q \<in> {CHR '','', CHR '']'', CHR ''}''} \<Longrightarrow> text_stops s q"
  by (auto simp: text_stops_def json_is_delimiter_def)

text \<open>What the tokenizer does with a value, with elements and with members.\<close>

definition lays_value :: "string \<Rightarrow> json \<Rightarrow> string \<Rightarrow> bool" where
  "lays_value source j t \<longleftrightarrow> (\<forall>p q ns cur. segment source p t q \<and> text_stops source q \<and> cur_ok cur ns \<longrightarrow>
     goes source p ns cur q (grow_parent cur ns @ nodes cur (length ns) j) cur)"

definition lays_elements :: "string \<Rightarrow> json list \<Rightarrow> string \<Rightarrow> bool" where
  "lays_elements source js t \<longleftrightarrow> (\<forall>p q ns k. segment source p t q \<and> text_stops source q \<and> k < length ns \<longrightarrow>
     goes source p ns (Some k) q (grow (length js) k ns @ element_nodes k (length ns) js) (Some k))"

definition lays_members :: "string \<Rightarrow> (string \<times> json) list \<Rightarrow> string \<Rightarrow> bool" where
  "lays_members source ms t \<longleftrightarrow> (\<forall>p q ns k. segment source p t q \<and> text_stops source q \<and> k < length ns \<longrightarrow>
     goes source p ns (Some k) q (grow (2 * length ms) k ns @ member_nodes k (length ns) ms) (Some k))"

lemma lays_value_child:
  assumes "lays_value s j t" "segment s p t q" "text_stops s q" "k < length ns"
  shows "goes s p ns (Some k) q (grow 1 k ns @ nodes (Some k) (length ns) j) (Some k)"
  using assms unfolding lays_value_def by (metis cur_ok_simps(2) grow_parent_Some)

lemma lays_elementsD:
  "lays_elements s js t \<Longrightarrow> segment s p t q \<Longrightarrow> text_stops s q \<Longrightarrow> k < length ns \<Longrightarrow>
    goes s p ns (Some k) q (grow (length js) k ns @ element_nodes k (length ns) js) (Some k)"
  by (simp add: lays_elements_def)

lemma lays_membersD:
  "lays_members s ms t \<Longrightarrow> segment s p t q \<Longrightarrow> text_stops s q \<Longrightarrow> k < length ns \<Longrightarrow>
    goes s p ns (Some k) q (grow (2 * length ms) k ns @ member_nodes k (length ns) ms) (Some k)"
  by (simp add: lays_members_def)

lemma goes_key:
  assumes "string_body u" "segment s p (quote # u @ [quote]) q" "k < length ns" "length s \<le> size_max"
  shows "goes s p ns (Some k) q (grow 1 k ns @ [(JSON_TOKEN_STRING, Some u, 0, Some k)]) (Some k)"
  using goes_string [OF assms(1,2) _ assms(4), of "Some k" ns] assms(3) by simp

lemma lays_container:
  assumes "opens kind c c'" "length s \<le> size_max"
    and inner: "\<forall>p q ns k. segment s p t q \<and> text_stops s q \<and> k < length ns \<longrightarrow>
      goes s p ns (Some k) q (grow m k ns @ inner k (length ns)) (Some k)"
    and at: "segment s p (c # w @ t @ [c']) q" "spaces w" "cur_ok cur ns"
  shows "goes s p ns cur q (grow_parent cur ns @ (kind, None, m, cur) # inner (length ns) (length ns + 1)) cur"
proof -
  let ?k = "length ns" and ?ns = "grow_parent cur ns @ [(kind, None, 0, cur)]"
  obtain x y where x: "p < length s" "s ! p = c" "segment s (Suc p) w x" "segment s x t y" "y < length s" "s ! y = c'" "q = Suc y"
    using at(1) by (auto simp: segment_append)
  have "goes s p ns cur (Suc p) ?ns (Some ?k)" using goes_open [OF x(1) _ at(3), of kind c'] assms(1) x(2) by simp
  also have "goes s (Suc p) ?ns (Some ?k) x ?ns (Some ?k)" using goes_spaces x(3) at(2) by blast
  also have "goes s x ?ns (Some ?k) y (grow m ?k ?ns @ inner ?k (length ?ns)) (Some ?k)"
    using x(6) assms(1) by (intro inner [rule_format] conjI x(4) stops_at) (auto simp: opens_def)
  also have "grow m ?k ?ns @ inner ?k (length ?ns) = grow_parent cur ns @ (kind, None, m, cur) # inner ?k (?k + 1)"
    using grow_last [where ns = "grow_parent cur ns"] by simp
  also have "goes s y (grow_parent cur ns @ (kind, None, m, cur) # inner ?k (?k + 1)) (Some ?k) (Suc y)
      (grow_parent cur ns @ (kind, None, m, cur) # inner ?k (?k + 1)) cur"
    by (rule goes_close [OF x(5), where kind = kind and c = c and n = m]) (use assms(1) x(6) in \<open>simp_all add: nth_append\<close>)
  finally show ?thesis using x(7) by simp
qed

lemma lays_more_elements:
  assumes "lays_value s j t" "lays_elements s js u" "spaces w" "spaces v"
  shows "lays_elements s (j # js) (t @ w @ '','' @ v @ u)"
  unfolding lays_elements_def
proof (intro allI impI, elim conjE)
  fix p q k and ns :: "node list" assume "segment s p (t @ w @ '','' @ v @ u) q" and stop: "text_stops s q" and k: "k < length ns"
  then obtain x y z where x: "segment s p t x" "segment s x w y" "y < length s" "s ! y = CHR '',''"
      "segment s (Suc y) v z" "segment s z u q"
    by (auto simp: segment_append)
  let ?ns = "grow 1 k ns @ nodes (Some k) (length ns) j"
  have "goes s p ns (Some k) x ?ns (Some k)"
    using assms(1) x(1) stops_over [OF x(2) assms(3) stops_at] x(4) k by (intro lays_value_child) simp_all
  also have "goes s x ?ns (Some k) y ?ns (Some k)" using goes_spaces x(2) assms(3) by blast
  also have "goes s y ?ns (Some k) (Suc y) ?ns (Some k)" using goes_char x(3,4) by simp
  also have "goes s (Suc y) ?ns (Some k) z ?ns (Some k)" using goes_spaces x(5) assms(4) by blast
  also have "goes s z ?ns (Some k) q (grow (length js) k ?ns @ element_nodes k (length ?ns) js) (Some k)"
    by (rule lays_elementsD [OF assms(2) x(6) stop]) (use k in simp)
  finally show "goes s p ns (Some k) q (grow (length (j # js)) k ns @ element_nodes k (length ns) (j # js)) (Some k)"
    using k by simp
qed

lemma lays_member:
  assumes "lays_value s j t" "string_body key" "spaces w1" "spaces w2" "spaces w" "length s \<le> size_max"
    and at: "segment s p ((quote # key @ [quote]) @ w1 @ '':'' @ w2 @ t @ w) q" "text_stops s q" "k < length ns"
  shows "goes s p ns (Some k) q
    (grow 2 k ns @ (JSON_TOKEN_STRING, Some key, 0, Some k) # nodes (Some k) (length ns + 1) j) (Some k)"
proof -
  obtain x where x: "segment s p (quote # key @ [quote]) x" "segment s x (w1 @ '':'' @ w2 @ t @ w) q"
    using at(1) unfolding segment_append [of s p "quote # key @ [quote]"] by blast
  then obtain y z a where y: "segment s x w1 y" "y < length s" "s ! y = CHR '':''" "segment s (Suc y) w2 z"
      "segment s z t a" "segment s a w q"
    by (auto simp: segment_append)
  let ?ns = "grow 1 k ns @ [(JSON_TOKEN_STRING, Some key, 0, Some k)]"
  have "goes s p ns (Some k) x ?ns (Some k)" by (rule goes_key [OF assms(2) x(1) at(3) assms(6)])
  also have "goes s x ?ns (Some k) y ?ns (Some k)" using goes_spaces y(1) assms(3) by blast
  also have "goes s y ?ns (Some k) (Suc y) ?ns (Some k)" using goes_char y(2,3) by simp
  also have "goes s (Suc y) ?ns (Some k) z ?ns (Some k)" using goes_spaces y(4) assms(4) by blast
  also have "goes s z ?ns (Some k) a (grow 1 k ?ns @ nodes (Some k) (length ?ns) j) (Some k)"
    using at(3) stops_over [OF y(6) assms(5) at(2)] by (intro lays_value_child [OF assms(1) y(5)]) simp_all
  also have "goes s a (grow 1 k ?ns @ nodes (Some k) (length ?ns) j) (Some k) q (grow 1 k ?ns @ nodes (Some k) (length ?ns) j) (Some k)"
    using goes_spaces y(6) assms(5) by blast
  finally show ?thesis using at(3) by (simp add: numeral_2_eq_2)
qed

lemma lays_more_members:
  assumes "lays_value s j t" "lays_members s ms u" "string_body key" "spaces w1" "spaces w2" "spaces w" "spaces v" "length s \<le> size_max"
  shows "lays_members s ((key, j) # ms) (quote # key @ quote # w1 @ '':'' @ w2 @ t @ w @ '','' @ v @ u)"
  unfolding lays_members_def
proof (intro allI impI, elim conjE)
  fix p q k and ns :: "node list" assume g: "segment s p (quote # key @ quote # w1 @ '':'' @ w2 @ t @ w @ '','' @ v @ u) q"
    and stop: "text_stops s q" and k: "k < length ns"
  have "segment s p (((quote # key @ [quote]) @ w1 @ '':'' @ w2 @ t @ w) @ '','' @ v @ u) q" using g by simp
  then obtain y where y: "segment s p ((quote # key @ [quote]) @ w1 @ '':'' @ w2 @ t @ w) y" "segment s y ('','' @ v @ u) q"
    unfolding segment_append [of s p "(quote # key @ [quote]) @ w1 @ '':'' @ w2 @ t @ w"] by blast
  then obtain z where z: "y < length s" "s ! y = CHR '',''" "segment s (Suc y) v z" "segment s z u q"
    by (auto simp: segment_append)
  let ?ns = "grow 2 k ns @ (JSON_TOKEN_STRING, Some key, 0, Some k) # nodes (Some k) (length ns + 1) j"
  have "goes s p ns (Some k) y ?ns (Some k)"
    using lays_member [OF assms(1,3-6,8) y(1) stops_at k] z(2) by simp
  also have "goes s y ?ns (Some k) (Suc y) ?ns (Some k)" using goes_char z(1,2) by simp
  also have "goes s (Suc y) ?ns (Some k) z ?ns (Some k)" using goes_spaces z(3) assms(7) by blast
  also have "goes s z ?ns (Some k) q (grow (2 * length ms) k ?ns @ member_nodes k (length ?ns) ms) (Some k)"
    by (rule lays_membersD [OF assms(2) z(4) stop]) (use k in simp)
  finally show "goes s p ns (Some k) q (grow (2 * length ((key, j) # ms)) k ns @ member_nodes k (length ns) ((key, j) # ms)) (Some k)"
    using k by simp
qed

lemma tokenizer_lays:
  assumes "length s \<le> size_max"
  shows "spells d j t \<Longrightarrow> lays_value s j t"
    and "elements d js t' \<Longrightarrow> lays_elements s js t'"
    and "members d ms t'' \<Longrightarrow> lays_members s ms t''"
proof (induction rule: spells_with_elements_with_members_with.inducts)
  case (string d u)
  then show ?case unfolding lays_value_def using goes_string [OF _ _ _ assms] by (simp del: segment_Cons)
next
  case (number d t)
  then have "t \<noteq> []" by (auto elim: number_first)
  with number(2) show ?case
    unfolding lays_value_def using goes_primitive [OF number_chars _ _ _ _ assms] by simp
next
  case (literal d t)
  then have "t \<noteq> []" by auto
  with literal(2) show ?case
    unfolding lays_value_def using goes_primitive [OF literal_chars _ _ _ _ assms] by simp
next
  case (no_elements d w)
  show ?case unfolding lays_value_def
    using lays_container [where kind = JSON_TOKEN_ARRAY and c = "CHR ''[''" and c' = "CHR '']''" and t = "[]" and w = w
        and m = 0 and inner = "\<lambda>_ _. []", OF _ assms] no_elements(2)
    by (simp add: opens_def del: segment_Cons)
next
  case (array d w js t)
  show ?case unfolding lays_value_def
    using lays_container [where kind = JSON_TOKEN_ARRAY and c = "CHR ''[''" and c' = "CHR '']''" and w = w
        and inner = "\<lambda>k n. element_nodes k n js", OF _ assms array.IH(2) [unfolded lays_elements_def]] array(2)
    by (simp add: opens_def del: segment_Cons)
next
  case (no_members d w)
  show ?case unfolding lays_value_def
    using lays_container [where kind = JSON_TOKEN_OBJECT and c = "CHR ''{''" and c' = "CHR ''}''" and t = "[]" and w = w
        and m = 0 and inner = "\<lambda>_ _. []", OF _ assms] no_members(2)
    by (simp add: opens_def del: segment_Cons)
next
  case (object d w ms t)
  show ?case unfolding lays_value_def
    using lays_container [where kind = JSON_TOKEN_OBJECT and c = "CHR ''{''" and c' = "CHR ''}''" and w = w
        and inner = "\<lambda>k n. member_nodes k n ms", OF _ assms object.IH(2) [unfolded lays_members_def]] object(2)
    by (simp add: opens_def del: segment_Cons)
next
  case (last_element d j t w)
  show ?case unfolding lays_elements_def
  proof (intro allI impI, elim conjE)
    fix p q k and ns :: "node list" assume g: "segment s p (t @ w) q" "text_stops s q" "k < length ns"
    then obtain x where x: "segment s p t x" "segment s x w q" unfolding segment_append by blast
    have "goes s p ns (Some k) x (grow 1 k ns @ nodes (Some k) (length ns) j) (Some k)"
      using stops_over [OF x(2) last_element(3) g(2)] by (rule lays_value_child [OF last_element.IH(2) x(1) _ g(3)])
    with goes_spaces [OF x(2) last_element(3)]
    show "goes s p ns (Some k) q (grow (length [j]) k ns @ element_nodes k (length ns) [j]) (Some k)"
      using goes_trans by fastforce
  qed
next
  case (more_elements d j t w v js u)
  then show ?case by (intro lays_more_elements)
next
  case (last_member key w1 w2 d j t w)
  show ?case unfolding lays_members_def
    using lays_member [OF last_member.IH(3) last_member(1,4-6) assms] by simp
next
  case (more_members key w1 w2 d j t w v ms u)
  then show ?case by (intro lays_more_members assms)
qed

lemma tokenizer_layout:
  assumes "accepted_text j s" "length s \<le> size_max"
  shows "\<exists>parser. json_tokenize s (new_parser (length s div 2 + 2)) = Some parser \<and>
    js_count parser = length (nodes None 0 j) \<and> js_count parser \<le> length (js_tokens parser) \<and>
    map (shown s) (take (js_count parser) (js_tokens parser)) = nodes None 0 j"
proof -
  let ?new = "new_parser (length s div 2 + 2)"
  obtain w t v where s: "s = w @ t @ v" and w: "spaces w" "spaces v" and j: "spells 0 j t"
    using assms(1) unfolding accepted_text_unfold by blast
  have "segment s 0 (w @ t @ v) (length s)" unfolding segment_whole s by (rule refl)
  then obtain p q where p: "segment s 0 w p" "segment s p t q" "segment s q v (length s)" by (auto simp: segment_append)
  have fit: "length (nodes None 0 j) \<le> js_capacity ?new"
    using nodes_fit(1) [OF j, rule_format, of None 0] by (simp add: new_parser_def s)
  have "text_stops s q" using stops_over [OF p(3) w(2)] by (simp add: text_stops_def)
  then have "goes s p [] None q (nodes None 0 j) None"
    using tokenizer_lays(1) [OF assms(2) j, unfolded lays_value_def, rule_format, of p q None "[]"] p(2)
    by (simp add: grow_parent_def)
  from goes_trans [OF goes_trans [OF goes_spaces [OF p(1) w(1)] this] goes_spaces [OF p(3) w(2)]]
  have "goes s 0 [] None (length s) (nodes None 0 j) None" .
  moreover have "parser_shows s ?new [] None" by (simp add: parser_shows_def new_parser_def)
  ultimately obtain parser where parser: "parser_shows s parser (nodes None 0 j) None"
      "tokenize_loop s 0 ?new = tokenize_loop s (length s) parser"
    using fit unfolding goes_def by blast
  obtain kind u m where "nodes None 0 j ! 0 = (kind, u, m, None)" "0 < length (nodes None 0 j)" by (cases j) auto
  with shows_nth [OF parser(1), of 0] have "tk_parent (js_tokens parser ! 0) = None" "0 < length (nodes None 0 j)"
    by (auto simp: shown_def)
  with parser show ?thesis
    by (intro exI [of _ parser]) (simp add: json_tokenize_def parser_shows_def tokenize_loop.simps [of s "length s"])
qed

text \<open>
  Property C9. Every text the validator accepts, which is every JSON text that nests at most 64 deep and those
  with a NUL after a backslash in a string, is tokenized: the token array the loader allocates is large enough,
  and it ends up holding the nodes of the tree in preorder, strings and primitives with the exact part of the
  source they stand for, containers with the number of their children, each with the index of its parent.
\<close>

theorem tokenizer_lays_out_the_tree:
  assumes "accepted_text j s" "length s \<le> size_max"
  shows "\<exists>parser. json_tokenize s (new_parser (length s div 2 + 2)) = Some parser \<and>
    map (shown s) (take (js_count parser) (js_tokens parser)) = nodes None 0 j"
  using tokenizer_layout [OF assms] by blast

theorem tokenizer_lays_out_the_tree_witness:
  "\<exists>parser. json_tokenize ''[true]'' (new_parser 5) = Some parser \<and>
    map (shown ''[true]'') (take (js_count parser) (js_tokens parser)) =
      [(JSON_TOKEN_ARRAY, None, 1, None), (JSON_TOKEN_PRIMITIVE, Some ''true'', 0, Some 0)]"
proof -
  have "spells 1 (J_Primitive ''true'') ''true''" by (rule spells_with_elements_with_members_with.literal) simp_all
  from last_element [OF this, of "[]"] have "elements (Suc 0) [J_Primitive ''true''] ''true''" by simp
  from array [OF _ _ _ this, of "[]"] have "spells 0 (J_Array [J_Primitive ''true'']) ''[true]''" by simp
  then have "accepted_text (J_Array [J_Primitive ''true'']) ''[true]''"
    unfolding accepted_text_unfold by (intro exI [of _ "[]"] exI [of _ "''[true]''"]) simp
  moreover have "length ''[true]'' div 2 + 2 = 5" "length ''[true]'' \<le> size_max" by (simp_all add: size_max_def)
  moreover have "nodes None 0 (J_Array [J_Primitive ''true'']) =
      [(JSON_TOKEN_ARRAY, None, 1, None), (JSON_TOKEN_PRIMITIVE, Some ''true'', 0, Some 0)]" by simp
  ultimately show ?thesis using tokenizer_lays_out_the_tree [of "J_Array [J_Primitive ''true'']" "''[true]''"]
    by (simp only: simp_thms)
qed

end
