(* ===== verification/Workflow_Reading.thy ===== *)
theory Workflow_Reading
  imports Json_Layout
begin

text \<open>
  What a workflow file means: the catalog that a JSON tree describes by the members of its objects, as a function
  of the tree alone, and the proof that the loader of \<open>Workflow_Loader\<close> computes it from the tokens. The lookups
  of \<open>Json_Reader\<close> scan the whole token array; that they find the children of the container they are asked
  about rests on the layout of \<open>Json_Layout\<close>. The lookup of the code, \<open>scan_find\<close>, takes values for keys too; it
  is the lookup of a member, \<open>member_value\<close>, on trees where no value of a member is one of the loader's keys.
\<close>

section \<open>Children and their places\<close>

definition flat_members :: "(string \<times> json) list \<Rightarrow> json list" where
  "flat_members ms = concat (map (\<lambda>(key, v). [J_String key, v]) ms)"

fun children :: "json \<Rightarrow> json list" where
  "children (J_Array js) = js"
| "children (J_Object ms) = flat_members ms"
| "children _ = []"

fun json_kind :: "json \<Rightarrow> json_token_type" where
  "json_kind (J_String s) = JSON_TOKEN_STRING"
| "json_kind (J_Primitive s) = JSON_TOKEN_PRIMITIVE"
| "json_kind (J_Array js) = JSON_TOKEN_ARRAY"
| "json_kind (J_Object ms) = JSON_TOKEN_OBJECT"

fun own_text :: "json \<Rightarrow> string option" where
  "own_text (J_String s) = Some s"
| "own_text (J_Primitive s) = Some s"
| "own_text _ = None"

lemma flat_members_simps [simp]: "flat_members [] = []" "flat_members ((key, v) # ms) = J_String key # v # flat_members ms"
  by (simp_all add: flat_members_def)

lemma length_flat_members [simp]: "length (flat_members ms) = 2 * length ms"
  by (induction ms) auto

lemma member_nodes_children: "member_nodes k n ms = element_nodes k n (flat_members ms)"
  by (induction ms arbitrary: n) auto

lemma nodes_children: "nodes c n j = (json_kind j, own_text j, length (children j), c) # element_nodes n (n + 1) (children j)"
  by (cases j) (simp_all add: member_nodes_children)

lemma length_nodes_eq:
  "\<forall>c' n'. length (nodes c' n' j) = length (nodes c n j)"
  "\<forall>k' n'. length (element_nodes k' n' js) = length (element_nodes k n js)"
  "\<forall>k' n'. length (member_nodes k' n' ms) = length (member_nodes k n ms)"
proof (induction c n j and k n js and k n ms rule: nodes_element_nodes_member_nodes.induct)
  case (6 k n j js)
  show ?case
  proof (intro allI)
    fix k' n'
    have "length (nodes (Some k') n' j) = length (nodes (Some k) n j)"
      "length (element_nodes k' (n' + length (nodes (Some k') n' j)) js) =
        length (element_nodes k (n + length (nodes (Some k) n j)) js)"
      using 6 by blast+
    then show "length (element_nodes k' n' (j # js)) = length (element_nodes k n (j # js))"
      by (simp only: element_nodes.simps length_append)
  qed
next
  case (8 k n key j ms)
  show ?case
  proof (intro allI)
    fix k' n'
    have "length (nodes (Some k') (n' + 1) j) = length (nodes (Some k) (n + 1) j)"
      "length (member_nodes k' (n' + 1 + length (nodes (Some k') (n' + 1) j)) ms) =
        length (member_nodes k (n + 1 + length (nodes (Some k) (n + 1) j)) ms)"
      using 8 by blast+
    then show "length (member_nodes k' n' ((key, j) # ms)) = length (member_nodes k n ((key, j) # ms))"
      by (simp only: member_nodes.simps length_append list.size)
  qed
qed simp_all

definition node_count :: "json \<Rightarrow> nat" where
  "node_count j = length (nodes None 0 j)"

definition nodes_count :: "json list \<Rightarrow> nat" where
  "nodes_count js = (\<Sum>j\<leftarrow>js. node_count j)"

lemma length_nodes [simp]: "length (nodes c n j) = node_count j"
  unfolding node_count_def using length_nodes_eq(1) by blast

lemma length_element_nodes [simp]: "length (element_nodes k n js) = nodes_count js"
  by (induction js arbitrary: n) (simp_all add: nodes_count_def)

lemma nodes_count_simps [simp]: "nodes_count [] = 0" "nodes_count (j # js) = node_count j + nodes_count js"
  "nodes_count (js @ js') = nodes_count js + nodes_count js'"
  by (simp_all add: nodes_count_def)

lemma node_count_children: "node_count j = 1 + nodes_count (children j)"
  unfolding node_count_def nodes_children [of None 0] by simp

lemma element_nodes_append:
  "element_nodes k n (js @ js') = element_nodes k n js @ element_nodes k (n + nodes_count js) js'"
  by (induction js arbitrary: n) (simp_all add: add.assoc)

text \<open>The index of each child, when the first has index \<open>n\<close>.\<close>

fun starts :: "nat \<Rightarrow> json list \<Rightarrow> nat list" where
  "starts n [] = []"
| "starts n (j # js) = n # starts (n + node_count j) js"

lemma length_starts [simp]: "length (starts n js) = length js"
  by (induction js arbitrary: n) auto

lemma starts_nth: "i < length js \<Longrightarrow> starts n js ! i = n + nodes_count (take i js)"
  by (induction js arbitrary: n i) (auto simp: nth_Cons split: nat.splits)

section \<open>Parents\<close>

abbreviation parent_of :: "node \<Rightarrow> nat option" where
  "parent_of x \<equiv> snd (snd (snd x))"

definition parents_in :: "node list \<Rightarrow> nat option \<Rightarrow> nat \<Rightarrow> nat \<Rightarrow> bool" where
  "parents_in ns c n m \<longleftrightarrow> (\<forall>x \<in> set ns. parent_of x = c \<or> (\<exists>p. parent_of x = Some p \<and> n \<le> p \<and> p < m))"

lemma parents_in_simps [simp]:
  "parents_in [] c n m"
  "parents_in (x # ns) c n m \<longleftrightarrow> (parent_of x = c \<or> (\<exists>p. parent_of x = Some p \<and> n \<le> p \<and> p < m)) \<and> parents_in ns c n m"
  "parents_in (ns @ ns') c n m \<longleftrightarrow> parents_in ns c n m \<and> parents_in ns' c n m"
  by (auto simp: parents_in_def)

lemma parents_in_mono: "parents_in ns c n m \<Longrightarrow> n' \<le> n \<Longrightarrow> m \<le> m' \<Longrightarrow> c = c' \<or> (\<exists>p. c = Some p \<and> n' \<le> p \<and> p < m') \<Longrightarrow> parents_in ns c' n' m'"
  unfolding parents_in_def by (auto dest!: bspec)

lemma parents_in_nodes:
  "parents_in (tl (nodes (Some k) n j)) (Some n) (n + 1) (n + node_count j) \<Longrightarrow> l \<le> n \<Longrightarrow> n + node_count j \<le> m \<Longrightarrow>
    parents_in (nodes (Some k) n j) (Some k) l m"
proof -
  assume a: "parents_in (tl (nodes (Some k) n j)) (Some n) (n + 1) (n + node_count j)" "l \<le> n" "n + node_count j \<le> m"
  then have "n < m" by (simp add: node_count_children)
  with a have "parents_in (tl (nodes (Some k) n j)) (Some k) l m" by (intro parents_in_mono [OF a(1)]) auto
  then show ?thesis unfolding nodes_children [of "Some k" n j] by simp
qed

lemma inner_parents:
  "parents_in (tl (nodes c n j)) (Some n) (n + 1) (n + node_count j)"
  "parents_in (element_nodes k n js) (Some k) n (n + nodes_count js)"
  "parents_in (member_nodes k n ms) (Some k) n (n + nodes_count (flat_members ms))"
proof (induction c n j and k n js and k n ms rule: nodes_element_nodes_member_nodes.induct)
  case (3 c n js)
  then show ?case by (simp add: node_count_children)
next
  case (4 c n ms)
  then show ?case by (simp add: node_count_children)
next
  case (6 k n j js)
  then have tail: "parents_in (tl (nodes (Some k) n j)) (Some n) (n + 1) (n + node_count j)"
    and more: "parents_in (element_nodes k (n + node_count j) js) (Some k) (n + node_count j) (n + node_count j + nodes_count js)"
    by simp_all
  let ?m = "n + nodes_count (j # js)"
  have "parents_in (element_nodes k (n + node_count j) js) (Some k) n ?m" by (rule parents_in_mono [OF more]) simp_all
  with parents_in_nodes [OF tail, of n ?m] show ?case by simp
next
  case (8 k n key j ms)
  then have tail: "parents_in (tl (nodes (Some k) (n + 1) j)) (Some (n + 1)) (n + 1 + 1) (n + 1 + node_count j)"
    and more: "parents_in (member_nodes k (n + 1 + node_count j) ms) (Some k) (n + 1 + node_count j)
      (n + 1 + node_count j + nodes_count (flat_members ms))"
    by simp_all
  let ?m = "n + nodes_count (flat_members ((key, j) # ms))"
  have m: "n + 1 + node_count j + nodes_count (flat_members ms) = ?m" by (simp add: node_count_children [of "J_String key"])
  have "parents_in (member_nodes k (n + 1 + node_count j) ms) (Some k) n ?m"
    by (rule parents_in_mono [OF more]) (use m in simp_all)
  moreover have "parents_in (nodes (Some k) (n + 1) j) (Some k) n ?m"
    by (rule parents_in_nodes [OF tail]) (use m in simp_all)
  ultimately show ?case by simp
qed simp_all

section \<open>A tree in its place\<close>

text \<open>
  The nodes of \<open>j\<close> stand in \<open>ns\<close> from index \<open>k\<close> on, below the parent \<open>c\<close>, and no node outside is a child
  of one of them.
\<close>

definition outside :: "node list \<Rightarrow> nat \<Rightarrow> nat \<Rightarrow> bool" where
  "outside ns k m \<longleftrightarrow> (\<forall>x \<in> set ns. \<forall>p. parent_of x = Some p \<longrightarrow> p < k \<or> m \<le> p)"

lemma outside_simps [simp]: "outside [] k m" "outside (ns @ ns') k m \<longleftrightarrow> outside ns k m \<and> outside ns' k m"
  "outside (x # ns) k m \<longleftrightarrow> (\<forall>p. parent_of x = Some p \<longrightarrow> p < k \<or> m \<le> p) \<and> outside ns k m"
  by (auto simp: outside_def)

definition placed :: "node list \<Rightarrow> nat \<Rightarrow> nat option \<Rightarrow> json \<Rightarrow> bool" where
  "placed ns k c j \<longleftrightarrow> (\<exists>pre post. ns = pre @ nodes c k j @ post \<and> length pre = k \<and>
     outside (pre @ post) k (k + node_count j) \<and> (\<forall>p. c = Some p \<longrightarrow> p < k))"

lemma placed_root: "placed (nodes None 0 j) 0 None j"
  unfolding placed_def by (intro exI [of _ "[]"]) simp

lemma parents_outside: "parents_in ns c n m \<Longrightarrow> (\<forall>p. c = Some p \<longrightarrow> p < k) \<Longrightarrow> m \<le> k \<or> m' \<le> n \<and> k \<le> m' \<Longrightarrow> outside ns k m'"
  unfolding parents_in_def outside_def by (auto dest!: bspec)

lemma placed_child:
  assumes "placed ns k c j" "i < length (children j)"
  shows "placed ns (starts (k + 1) (children j) ! i) (Some k) (children j ! i)"
proof -
  let ?cs = "children j"
  define as bs v where "as = take i ?cs" and "bs = drop (Suc i) ?cs" and "v = ?cs ! i"
  have cs: "?cs = as @ v # bs" unfolding as_def bs_def v_def by (rule id_take_nth_drop [OF assms(2)])
  obtain pre post where pre: "ns = pre @ nodes c k j @ post" "length pre = k"
      "outside (pre @ post) k (k + node_count j)" "\<forall>p. c = Some p \<longrightarrow> p < k"
    using assms(1) unfolding placed_def by blast
  define n where "n = k + 1 + nodes_count as"
  have n: "starts (k + 1) ?cs ! i = n" using assms(2) by (simp add: starts_nth n_def as_def)
  let ?m = "n + node_count v"
  define head where "head = (json_kind j, own_text j, length ?cs, c)"
  have e: "nodes c k j = head # element_nodes k (k + 1) as @ nodes (Some k) n v @ element_nodes k ?m bs"
    unfolding nodes_children [of c k j] cs head_def element_nodes_append n_def by (simp add: add.assoc)
  have all: "k + node_count j = ?m + nodes_count bs" by (simp add: node_count_children [of j] cs n_def)
  let ?pre = "pre @ head # element_nodes k (k + 1) as" and ?post = "element_nodes k ?m bs @ post"
  have "outside (element_nodes k (k + 1) as) n ?m"
    by (rule parents_outside [OF inner_parents(2)]) (simp_all add: n_def)
  moreover have "outside (element_nodes k ?m bs) n ?m"
    by (rule parents_outside [OF inner_parents(2)]) (simp_all add: n_def)
  moreover have "outside pre n ?m" "outside post n ?m" "\<forall>p. c = Some p \<longrightarrow> p < n"
    using pre(3,4) all unfolding outside_def by (fastforce simp: n_def)+
  ultimately have "outside (?pre @ ?post) n ?m" by (simp add: head_def)
  moreover have "ns = ?pre @ nodes (Some k) n v @ ?post" "length ?pre = n" by (simp_all add: pre(1,2) e n_def)
  ultimately show ?thesis
    unfolding placed_def n v_def [symmetric] by (intro exI [of _ ?pre] exI [of _ ?post]) (simp add: n_def)
qed

lemma placed_node:
  assumes "placed ns k c j"
  shows "k < length ns" "ns ! k = (json_kind j, own_text j, length (children j), c)"
  using assms unfolding placed_def nodes_children [of c k j] by (auto simp: nth_append)

lemma upt_split: "a \<le> b \<Longrightarrow> b \<le> c \<Longrightarrow> [a..<c] = [a..<b] @ [b..<c]" for a b c :: nat
  using upt_add_eq_append [of a b "c - b"] by simp

text \<open>The nodes whose parent is the container are its children, in order.\<close>

lemma child_starts:
  "k < n \<Longrightarrow> filter (\<lambda>i. parent_of ((pre @ element_nodes k n js @ post) ! i) = Some k) [n..<n + nodes_count js] = starts n js"
  if "length pre = n" for pre
  using that
proof (induction js arbitrary: n pre)
  case (Cons j js)
  let ?x = "nodes (Some k) n j" and ?ns = "pre @ element_nodes k n (j # js) @ post"
  let ?P = "\<lambda>i. parent_of (?ns ! i) = Some k"
  have "[n..<n + nodes_count (j # js)] = [n..<n + node_count j] @ [n + node_count j..<n + node_count j + nodes_count js]"
    by (simp only: nodes_count_simps add.assoc [symmetric], rule upt_split) simp_all
  moreover have "filter ?P [n..<n + node_count j] = [n]"
  proof -
    have tl: "\<not> ?P i" if "i \<in> set [n + 1..<n + node_count j]" for i
    proof -
      have i: "?ns ! i = ?x ! (i - n)" "i - n < node_count j" "0 < i - n"
        using that Cons.prems(2) by (auto simp: nth_append)
      moreover have "tl ?x ! (i - n - 1) = ?x ! (i - n)" "i - n - 1 < length (tl ?x)" using i(2,3) by (simp_all add: nth_tl Suc_diff_Suc)
      ultimately have "?ns ! i \<in> set (tl ?x)" using nth_mem [of "i - n - 1" "tl ?x"] by simp
      with inner_parents(1) [of "Some k" n j] have "\<exists>p. parent_of (?ns ! i) = Some p \<and> n \<le> p"
        unfolding parents_in_def by auto
      then show ?thesis using Cons.prems(1) by auto
    qed
    have "?P n" using Cons.prems(2) nodes_children [of "Some k" n j] by (simp add: nth_append)
    moreover have "[n..<n + node_count j] = n # [n + 1..<n + node_count j]" by (simp add: node_count_children upt_conv_Cons)
    ultimately show ?thesis using tl by (simp add: filter_empty_conv)
  qed
  moreover have "?ns = (pre @ ?x) @ element_nodes k (n + node_count j) js @ post" by simp
  moreover have "filter (\<lambda>i. parent_of (((pre @ ?x) @ element_nodes k (n + node_count j) js @ post) ! i) = Some k)
      [n + node_count j..<n + node_count j + nodes_count js] = starts (n + node_count j) js"
    using Cons.prems by (intro Cons.IH) simp_all
  ultimately show ?case by simp
qed simp

lemma placed_starts:
  assumes "placed ns k c j"
  shows "filter (\<lambda>i. parent_of (ns ! i) = Some k) [k + 1..<length ns] = starts (k + 1) (children j)"
proof -
  obtain pre post where pre: "ns = pre @ nodes c k j @ post" "length pre = k"
      "outside (pre @ post) k (k + node_count j)" "\<forall>p. c = Some p \<longrightarrow> p < k"
    using assms unfolding placed_def by blast
  let ?head = "(json_kind j, own_text j, length (children j), c)" and ?m = "k + node_count j"
  have ns: "ns = (pre @ [?head]) @ element_nodes k (k + 1) (children j) @ post"
    using pre(1) unfolding nodes_children [of c k j] by simp
  have m: "?m = k + 1 + nodes_count (children j)" by (simp add: node_count_children [of j])
  have "[k + 1..<length ns] = [k + 1..<?m] @ [?m..<length ns]"
    using ns pre(2) m by (intro upt_split) simp_all
  moreover have "parent_of (ns ! i) \<noteq> Some k" if "i \<in> set [?m..<length ns]" for i
  proof -
    have "ns ! i \<in> set post" using that pre(1,2) by (auto simp: nth_append)
    with pre(3) have "parent_of (ns ! i) = Some k \<Longrightarrow> k < k \<or> ?m \<le> k" unfolding outside_def set_append by blast
    then show ?thesis by (auto simp: node_count_children)
  qed
  then have "filter (\<lambda>i. parent_of (ns ! i) = Some k) [?m..<length ns] = []" by (simp add: filter_empty_conv)
  moreover have "filter (\<lambda>i. parent_of (ns ! i) = Some k) [k + 1..<?m] = starts (k + 1) (children j)"
    unfolding m ns by (rule child_starts) (simp_all add: pre(2))
  ultimately show ?thesis by simp
qed

section \<open>The lookups find the children\<close>

definition tokens_show :: "string \<Rightarrow> json_token list \<Rightarrow> nat \<Rightarrow> node list \<Rightarrow> bool" where
  "tokens_show source tokens n ns \<longleftrightarrow> n = length ns \<and> n \<le> length tokens \<and> map (shown source) (take n tokens) = ns"

lemma tokens_show_nth: "tokens_show source tokens n ns \<Longrightarrow> i < n \<Longrightarrow> shown source (tokens ! i) = ns ! i"
  unfolding tokens_show_def by (metis length_take min.absorb2 nth_map nth_take)

lemma tokens_show_parent: "tokens_show source tokens n ns \<Longrightarrow> i < n \<Longrightarrow> parent_of (ns ! i) = tk_parent (tokens ! i)"
  using tokens_show_nth [of source tokens n ns i] by (simp add: shown_def flip: tokens_show_nth [of source tokens n ns i])

text \<open>The token of a tree in its place.\<close>

lemma placed_token:
  assumes "tokens_show source tokens n ns" "placed ns k c j"
  shows "k < n" "tk_type (tokens ! k) = json_kind j" "tk_child_count (tokens ! k) = length (children j)"
    "tk_parent (tokens ! k) = c"
    "own_text j = Some s \<Longrightarrow> token_text source (tokens ! k) = s \<and> token_length (tokens ! k) = length s"
proof -
  show k: "k < n" using assms(1) placed_node(1) [OF assms(2)] by (simp add: tokens_show_def)
  have "shown source (tokens ! k) = (json_kind j, own_text j, length (children j), c)"
    using tokens_show_nth [OF assms(1) k] placed_node(2) [OF assms(2)] by simp
  then show "tk_type (tokens ! k) = json_kind j" "tk_child_count (tokens ! k) = length (children j)"
    "tk_parent (tokens ! k) = c"
    "own_text j = Some s \<Longrightarrow> token_text source (tokens ! k) = s \<and> token_length (tokens ! k) = length s"
    by (auto simp: shown_def split: if_splits)
qed

lemma token_equals_iff:
  assumes "tokens_show source tokens n ns" "placed ns k c j"
  shows "json_token_equals source (tokens ! k) key \<longleftrightarrow> j = J_String key"
  using placed_token(2,5) [OF assms] by (cases j) (auto simp: json_token_equals_def)

lemma array_at_loop_filter:
  "m \<le> i \<Longrightarrow> array_at_loop P is i m = (if i - m < length (filter P is) then Some (filter P is ! (i - m)) else None)"
  by (induction "is" arbitrary: m) (auto simp: nth_Cons')

lemma object_find_loop_Some: "object_find_loop P is (Some r) = (if filter P is = [] then Some r else None)"
  by (induction "is") auto

lemma object_find_loop_filter: "object_find_loop P is None = (case filter P is of [i] \<Rightarrow> Some (i + 1) | _ \<Rightarrow> None)"
  by (induction "is") (auto simp: object_find_loop_Some split: list.splits)

lemma filter_parents:
  assumes "tokens_show source tokens n ns" "placed ns k c j"
  shows "filter (\<lambda>i. tk_parent (tokens ! i) = Some k) [k + 1..<n] = starts (k + 1) (children j)"
proof -
  have "filter (\<lambda>i. tk_parent (tokens ! i) = Some k) [k + 1..<n] = filter (\<lambda>i. parent_of (ns ! i) = Some k) [k + 1..<n]"
    by (intro filter_cong) (simp_all add: tokens_show_parent [OF assms(1)])
  moreover have "n = length ns" using assms(1) by (simp add: tokens_show_def)
  ultimately show ?thesis using placed_starts [OF assms(2)] by simp
qed

lemma array_at_tree:
  assumes "tokens_show source tokens n ns" "placed ns k c (J_Array js)" "i < length js"
  shows "json_array_at tokens n k i = Some (starts (k + 1) js ! i)" "placed ns (starts (k + 1) js ! i) (Some k) (js ! i)"
proof -
  show "json_array_at tokens n k i = Some (starts (k + 1) js ! i)"
    using placed_token(1,2) [OF assms(1,2)] filter_parents [OF assms(1,2)] assms(3)
    by (simp add: json_array_at_def array_at_loop_filter)
  show "placed ns (starts (k + 1) js ! i) (Some k) (js ! i)" using placed_child [OF assms(2)] assms(3) by simp
qed

text \<open>
  What \<open>json_object_find\<close> finds, in terms of the tree: the child after the one child that reads as the key. The
  children it looks at are the keys and the values of the members, so that a value that reads as the key is
  taken for it, and hides it where it is there too.
\<close>

type_synonym lookup = "json \<Rightarrow> string \<Rightarrow> json option"

definition scan_find :: lookup where
  "scan_find j key =
     (case j of
        J_Object ms \<Rightarrow>
          let cs = flat_members ms in
          (case filter (\<lambda>i. cs ! i = J_String key) [0..<length cs - 1] of
             [i] \<Rightarrow> Some (cs ! (i + 1))
           | _ \<Rightarrow> None)
      | _ \<Rightarrow> None)"

lemma nodes_count_take_less: "i < length cs \<Longrightarrow> nodes_count (take i cs) < nodes_count cs"
proof -
  assume "i < length cs"
  then have "nodes_count cs = nodes_count (take i cs) + (node_count (cs ! i) + nodes_count (drop (Suc i) cs))"
    using id_take_nth_drop [of i cs] by (metis nodes_count_simps(2,3))
  then show ?thesis by (simp add: node_count_children)
qed

lemma next_is_child:
  assumes "placed ns k c j" "i < length (children j)" "children j ! i = J_String key"
  defines "p \<equiv> starts (k + 1) (children j) ! i + 1"
  shows "p < length ns \<and> parent_of (ns ! p) = Some k \<longleftrightarrow> i + 1 < length (children j)"
    and "i + 1 < length (children j) \<Longrightarrow> p = starts (k + 1) (children j) ! (i + 1)"
proof -
  let ?cs = "children j" and ?A = "\<lambda>i. parent_of (ns ! i) = Some k"
  have p: "p = k + 1 + nodes_count (take (i + 1) ?cs)"
    using assms(2,3) by (simp add: p_def starts_nth take_Suc_conv_app_nth node_count_children [of "J_String key"])
  show eq: "i + 1 < length ?cs \<Longrightarrow> p = starts (k + 1) ?cs ! (i + 1)" unfolding p by (simp add: starts_nth)
  show "p < length ns \<and> ?A p \<longleftrightarrow> i + 1 < length ?cs"
  proof
    assume a: "p < length ns \<and> ?A p"
    then have "p \<in> set (starts (k + 1) ?cs)" unfolding placed_starts [OF assms(1), symmetric] by (simp add: p)
    then obtain i' where "i' < length ?cs" "p = k + 1 + nodes_count (take i' ?cs)"
      by (auto simp: in_set_conv_nth starts_nth)
    then have "nodes_count (take (i + 1) ?cs) < nodes_count ?cs" using nodes_count_take_less [of i' ?cs] p by simp
    then show "i + 1 < length ?cs" by (metis leI nat_less_le take_all)
  next
    assume a: "i + 1 < length ?cs"
    show "p < length ns \<and> ?A p" using placed_node [OF placed_child [OF assms(1) a]] eq [OF a] by simp
  qed
qed

lemma object_find_filter:
  assumes "tokens_show source tokens n ns" "placed ns k c j"
  shows "filter (\<lambda>i. tk_parent (tokens ! i) = Some k \<and> json_token_equals source (tokens ! i) key \<and>
      tk_parent (tokens ! (i + 1)) = Some k) [k + 1..<n - 1] =
    map ((!) (starts (k + 1) (children j))) (filter (\<lambda>i. children j ! i = J_String key) [0..<length (children j) - 1])"
proof -
  let ?cs = "children j" and ?S = "starts (k + 1) (children j)"
  let ?A = "\<lambda>i. tk_parent (tokens ! i) = Some k"
  let ?B = "\<lambda>i. json_token_equals source (tokens ! i) key \<and> i + 1 < n \<and> ?A (i + 1)"
  have n: "n = length ns" using assms(1) by (simp add: tokens_show_def)
  have A: "i < n \<Longrightarrow> ?A i \<longleftrightarrow> parent_of (ns ! i) = Some k" for i
    by (simp add: tokens_show_parent [OF assms(1)])
  have "filter (\<lambda>i. ?A i \<and> json_token_equals source (tokens ! i) key \<and> ?A (i + 1)) [k + 1..<n - 1] =
      filter (\<lambda>i. ?A i \<and> ?B i) [k + 1..<n - 1]"
    by (rule filter_cong) auto
  also have "\<dots> = filter (\<lambda>i. ?A i \<and> ?B i) [k + 1..<n]" by (cases n) auto
  also have "\<dots> = filter ?B (filter ?A [k + 1..<n])" by (simp add: conj_commute)
  also have "filter ?A [k + 1..<n] = map ((!) ?S) [0..<length ?S]" unfolding filter_parents [OF assms] map_nth by (rule refl)
  also have "filter ?B (map ((!) ?S) [0..<length ?S]) = map ((!) ?S) (filter (?B \<circ> (!) ?S) [0..<length ?S])"
    by (rule filter_map)
  also have "filter (?B \<circ> (!) ?S) [0..<length ?S] = filter (\<lambda>i. ?cs ! i = J_String key \<and> i + 1 < length ?cs) [0..<length ?cs]"
  proof (rule filter_cong)
    fix i assume "i \<in> set [0..<length ?cs]"
    then have i: "i < length ?cs" by simp
    have "(?B \<circ> (!) ?S) i \<longleftrightarrow> ?cs ! i = J_String key \<and> ?S ! i + 1 < n \<and> ?A (?S ! i + 1)"
      using token_equals_iff [OF assms(1) placed_child [OF assms(2) i]] by simp
    also have "\<dots> \<longleftrightarrow> ?cs ! i = J_String key \<and> i + 1 < length ?cs"
      using next_is_child(1) [OF assms(2) i, of key] A [of "?S ! i + 1"] unfolding n by blast
    finally show "(?B \<circ> (!) ?S) i \<longleftrightarrow> ?cs ! i = J_String key \<and> i + 1 < length ?cs" .
  qed simp
  also have "\<dots> = filter (\<lambda>i. ?cs ! i = J_String key) [0..<length ?cs - 1]"
    by (cases "length ?cs") (auto intro!: filter_cong)
  finally show ?thesis .
qed

lemma object_find_tree:
  assumes "tokens_show source tokens n ns" "placed ns k c j"
  shows "case scan_find j key of
      None \<Rightarrow> json_object_find source tokens n k key = None
    | Some v \<Rightarrow> \<exists>m. json_object_find source tokens n k key = Some m \<and> placed ns m (Some k) v"
proof (cases j)
  case (J_Object ms)
  let ?cs = "flat_members ms" and ?is = "filter (\<lambda>i. flat_members ms ! i = J_String key) [0..<length (flat_members ms) - 1]"
  have f: "json_object_find source tokens n k key =
      (case map ((!) (starts (k + 1) ?cs)) ?is of [i] \<Rightarrow> Some (i + 1) | _ \<Rightarrow> None)"
    using placed_token(1,2) [OF assms] object_find_filter [OF assms, of key]
    by (simp add: json_object_find_def J_Object object_find_loop_filter)
  show ?thesis
  proof (cases "\<exists>i. ?is = [i]")
    case True
    then obtain i where i: "?is = [i]" by blast
    then have "i \<in> set ?is" by simp
    then have b: "i + 1 < length (children j)" "children j ! i = J_String key" using J_Object by auto
    from placed_child [OF assms(2) b(1)] next_is_child(2) [OF assms(2) _ b(2) b(1)] b(1)
    have "placed ns (starts (k + 1) ?cs ! i + 1) (Some k) (?cs ! (i + 1))" using J_Object by simp
    with f i show ?thesis by (simp add: scan_find_def J_Object Let_def)
  next
    case False
    then show ?thesis by (auto simp: f scan_find_def J_Object Let_def split: list.splits)
  qed
qed (use placed_token(1,2) [OF assms] in \<open>simp_all add: scan_find_def json_object_find_def\<close>)

section \<open>What a tree says\<close>

text \<open>A number is read when it is written in fewer than 32 decimal digits and fits 64 bits.\<close>

fun tree_u64 :: "json \<Rightarrow> u64 option" where
  "tree_u64 (J_Primitive s) =
     (if length s < 32 \<and> digits s \<and> decimal_value s < 2 ^ 64 then Some (of_nat (decimal_value s)) else None)"
| "tree_u64 _ = None"

fun tree_string :: "json \<Rightarrow> string option" where
  "tree_string (J_String s) = (if s \<noteq> [] \<and> backslash \<notin> set s then Some s else None)"
| "tree_string _ = None"

fun tree_array :: "json \<Rightarrow> json list option" where
  "tree_array (J_Array js) = (if js \<noteq> [] then Some js else None)"
| "tree_array _ = None"

definition find_u64 :: "lookup \<Rightarrow> json \<Rightarrow> string \<Rightarrow> u64 option" where
  "find_u64 look j key = Option.bind (look j key) tree_u64"

definition find_u32 :: "lookup \<Rightarrow> json \<Rightarrow> string \<Rightarrow> u32 option" where
  "find_u32 look j key = (case find_u64 look j key of None \<Rightarrow> None | Some v \<Rightarrow> if v \<le> ucast uint32_max then Some (ucast v) else None)"

definition find_string :: "lookup \<Rightarrow> json \<Rightarrow> string \<Rightarrow> string option" where
  "find_string look j key = Option.bind (look j key) tree_string"

definition find_array :: "lookup \<Rightarrow> json \<Rightarrow> string \<Rightarrow> json list option" where
  "find_array look j key = Option.bind (look j key) tree_array"

text \<open>
  A step, a sequence, a scenario, an entry and a catalog, as a tree describes them, when \<open>look\<close> gives the value
  of the member with a key.
\<close>

definition read_step :: "lookup \<Rightarrow> nat \<Rightarrow> json \<Rightarrow> domain_step option" where
  "read_step look unit_count j =
     (case (find_u32 look j ''unit'', find_u64 look j ''timeout_ms'') of
        (Some u, Some ms) \<Rightarrow>
          if u \<noteq> 0 \<and> unat u \<le> unit_count \<and> look j ''command'' = Some (J_String ''execute'') \<and> ms \<noteq> 0
          then Some \<lparr>ds_unit_index = unat u - 1, ds_command = UNIT_MOCK_COMMAND_EXECUTE, ds_timeout_ms = ms\<rparr>
          else None
      | _ \<Rightarrow> None)"

definition read_sequence :: "lookup \<Rightarrow> nat \<Rightarrow> json \<Rightarrow> domain_sequence option" where
  "read_sequence look unit_count j =
     (case (find_string look j ''name'', find_array look j ''steps'') of
        (Some name, Some js) \<Rightarrow>
          map_option (\<lambda>steps. \<lparr>dq_name = name, dq_steps = steps, dq_step_count = length js\<rparr>)
            (those (map (read_step look unit_count) js))
      | _ \<Rightarrow> None)"

definition total_steps :: "domain_sequence list \<Rightarrow> nat" where
  "total_steps qs = sum_list (map dq_step_count qs)"

definition read_scenario :: "lookup \<Rightarrow> nat \<Rightarrow> json \<Rightarrow> domain_scenario option" where
  "read_scenario look unit_count j =
     (case (find_u32 look j ''id'', find_string look j ''name'', find_array look j ''sequences'') of
        (Some i, Some name, Some js) \<Rightarrow>
          (case those (map (read_sequence look unit_count) js) of
             None \<Rightarrow> None
           | Some qs \<Rightarrow>
               if i \<noteq> 0 \<and> total_steps qs \<le> size_max
               then Some \<lparr>dc_id = i, dc_name = name, dc_sequences = qs, dc_sequence_count = length js,
                      dc_total_step_count = total_steps qs\<rparr>
               else None)
      | _ \<Rightarrow> None)"

definition read_entry :: "lookup \<Rightarrow> nat \<Rightarrow> json \<Rightarrow> domain_workflow_entry option" where
  "read_entry look unit_count j =
     (case (find_u32 look j ''feature'', find_u32 look j ''condition'', Option.bind (look j ''scenario'') (read_scenario look unit_count)) of
        (Some f, Some c, Some scenario) \<Rightarrow>
          if f \<noteq> 0 then Some \<lparr>we_feature = f, we_condition = c, we_scenario = scenario\<rparr> else None
      | _ \<Rightarrow> None)"

definition read_catalog :: "lookup \<Rightarrow> nat \<Rightarrow> json \<Rightarrow> domain_workflow_catalog option" where
  "read_catalog look unit_count j =
     (if find_u64 look j ''schema_version'' = Some 1 then
        (case Option.bind (find_array look j ''workflows'') (\<lambda>js. those (map (read_entry look unit_count) js)) of
           None \<Rightarrow> None
         | Some es \<Rightarrow> if unique_entries es then Some \<lparr>wc_entries = es, wc_entry_count = length es\<rparr> else None)
      else None)"

section \<open>Texts of primitives\<close>

definition plain_text :: "string \<Rightarrow> bool" where
  "plain_text s \<longleftrightarrow> number_text s \<or> s \<in> {''true'', ''false'', ''null''}"

fun plain :: "json \<Rightarrow> bool" where
  "plain (J_String s) = True"
| "plain (J_Primitive s) = plain_text s"
| "plain (J_Array js) = list_all plain js"
| "plain (J_Object ms) = list_all (\<lambda>m. plain (snd m)) ms"

lemma spells_plain:
  "spells d j t \<Longrightarrow> plain j" "elements d js t' \<Longrightarrow> list_all plain js" "members d ms t'' \<Longrightarrow> list_all (\<lambda>m. plain (snd m)) ms"
  by (induction rule: spells_with_elements_with_members_with.inducts) (auto simp: plain_text_def)

lemma plain_flat: "list_all (\<lambda>m. plain (snd m)) ms \<Longrightarrow> list_all plain (flat_members ms)"
  by (induction ms) auto

lemma plain_children: "plain j \<Longrightarrow> list_all plain (children j)"
  by (cases j) (auto intro: plain_flat)

lemma plain_scan: "plain j \<Longrightarrow> scan_find j key = Some v \<Longrightarrow> plain v"
proof -
  assume j: "plain j" "scan_find j key = Some v"
  then obtain ms i where ms: "j = J_Object ms" "filter (\<lambda>i. flat_members ms ! i = J_String key) [0..<length (flat_members ms) - 1] = [i]"
      "v = flat_members ms ! (i + 1)"
    by (auto simp: scan_find_def Let_def split: json.splits list.splits)
  from ms(2) have "i \<in> set (filter (\<lambda>i. flat_members ms ! i = J_String key) [0..<length (flat_members ms) - 1])" by simp
  then have "i + 1 < length (flat_members ms)" by auto
  then have "v \<in> set (children j)" using ms(1,3) by (auto intro: nth_mem)
  then show "plain v" using plain_children [OF j(1)] by (auto simp: list_all_iff)
qed

lemma plain_first:
  assumes "plain_text s"
  obtains c u where "s = c # u" "c = CHR ''-'' \<or> is_digit c \<or> c \<in> {CHR ''t'', CHR ''f'', CHR ''n''}"
  using assms by (auto simp: plain_text_def elim: number_first)

lemma plain_chars: "plain_text s \<Longrightarrow> list_all primitive_char s"
  using number_chars literal_chars unfolding plain_text_def by blast

section \<open>The loader reads the tree\<close>

lemma takeWhile_all: "list_all P s \<Longrightarrow> takeWhile P s = s"
  by (simp add: list_all_iff)

lemma takeWhile_rest: "dropWhile P s = [] \<longleftrightarrow> list_all P s"
  by (simp add: list_all_iff)

text \<open>\<open>strtoull\<close> on a primitive: a minus sign is refused afterwards, so only digits are left to read.\<close>

lemma strtoull_plain:
  assumes "plain_text s" "hd s \<noteq> CHR ''-''"
  shows "strtoull s =
    (let ds = takeWhile is_digit s in
     if ds = [] then (0, False, s)
     else if 2 ^ 64 \<le> decimal_value ds then (uint64_max, True, dropWhile is_digit s)
     else (of_nat (decimal_value ds), False, dropWhile is_digit s))"
proof -
  obtain c u where s: "s = c # u" "c = CHR ''-'' \<or> is_digit c \<or> c \<in> {CHR ''t'', CHR ''f'', CHR ''n''}"
    by (rule plain_first [OF assms(1)])
  then have c: "is_digit c \<or> c \<in> {CHR ''t'', CHR ''f'', CHR ''n''}" using assms(2) by auto
  then have "\<not> is_c_space c" "c \<noteq> CHR ''-''" "c \<noteq> CHR ''+''" by (auto simp: is_c_space_def is_digit_def)
  then show ?thesis by (simp add: strtoull_def s(1) Let_def)
qed

lemma read_u64_primitive:
  assumes "plain_text s" "tk_type t = JSON_TOKEN_PRIMITIVE" "token_text source t = s" "token_length t = length s"
  shows "json_read_u64 source t = tree_u64 (J_Primitive s)"
proof -
  obtain c u where s: "s = c # u" "c = CHR ''-'' \<or> is_digit c \<or> c \<in> {CHR ''t'', CHR ''f'', CHR ''n''}"
    by (rule plain_first [OF assms(1)])
  have "list_all (\<lambda>c. c \<noteq> CHR 0x00) s"
    using plain_chars [OF assms(1)] primitive_plain by (fastforce simp: list_all_iff)
  then have buffer: "takeWhile (\<lambda>c. c \<noteq> CHR 0x00) (token_text source t) = s" using assms(3) takeWhile_all by simp
  show ?thesis
  proof (cases "c = CHR ''-''")
    case True
    then have "\<not> is_digit c" by (simp add: is_digit_def)
    with True s(1) assms(2,4) buffer show ?thesis by (auto simp: json_read_u64_def Let_def split: prod.splits)
  next
    case False
    then have h: "hd s \<noteq> CHR ''-''" "s ! 0 \<noteq> CHR ''-''" "s \<noteq> []" using s(1) by simp_all
    show ?thesis
    proof (cases "digits s")
      case True
      then have "takeWhile is_digit s = s" "dropWhile is_digit s = []"
        using takeWhile_all [OF True] takeWhile_rest [of is_digit s] by (simp_all only: simp_thms)
      then have "strtoull s = (if 2 ^ 64 \<le> decimal_value s then (uint64_max, True, []) else (of_nat (decimal_value s), False, []))"
        using h(3) by (simp only: strtoull_plain [OF assms(1) h(1)] Let_def if_False)
      then show ?thesis using True assms(2,4) h(2,3) by (simp add: json_read_u64_def buffer Let_def)
    next
      case False
      then have "snd (snd (strtoull s)) \<noteq> []"
        using h(3) takeWhile_rest [of is_digit s] by (simp add: strtoull_plain [OF assms(1) h(1)] Let_def del: dropWhile_eq_Nil_conv)
      then show ?thesis using False assms(2,4) h by (auto simp: json_read_u64_def buffer Let_def split: prod.splits)
    qed
  qed
qed

lemma read_u64_tree:
  assumes "tokens_show source tokens n ns" "placed ns k c j" "plain j"
  shows "json_read_u64 source (tokens ! k) = tree_u64 j"
  using placed_token(2,5) [OF assms(1,2)] assms(3) read_u64_primitive
  by (cases j) (auto simp: json_read_u64_def)

lemma string_tree:
  assumes "tokens_show source tokens n ns" "placed ns k c j"
  shows "string_to_copy source (tokens ! k) = tree_string j"
  using placed_token(2,5) [OF assms(1,2)] by (cases j) (auto simp: string_to_copy_def)

lemma find_cases:
  assumes "tokens_show source tokens n ns" "placed ns k c j" "plain j"
  obtains "scan_find j key = None" "json_object_find source tokens n k key = None"
  | m v where "scan_find j key = Some v" "json_object_find source tokens n k key = Some m" "placed ns m (Some k) v" "plain v"
  using object_find_tree [OF assms(1,2), of key] plain_scan [OF assms(3), of key] by (cases "scan_find j key") auto

lemma object_u64_tree:
  assumes "tokens_show source tokens n ns" "placed ns k c j" "plain j"
  shows "json_object_u64 source tokens n k key = find_u64 scan_find j key"
  by (rule find_cases [OF assms, of key])
    (simp_all add: json_object_u64_def find_u64_def read_u64_tree [OF assms(1)])

lemma object_u32_tree:
  assumes "tokens_show source tokens n ns" "placed ns k c j" "plain j"
  shows "json_object_u32 source tokens n k key = find_u32 scan_find j key"
  by (rule find_cases [OF assms, of key])
    (simp_all add: json_object_u32_def find_u32_def find_u64_def read_u64_tree [OF assms(1)])

lemma object_array_tree:
  assumes "tokens_show source tokens n ns" "placed ns k c j" "plain j"
  obtains "find_array scan_find j key = None" "json_object_find source tokens n k key = None \<or>
      (\<exists>m. json_object_find source tokens n k key = Some m \<and>
        (tk_type (tokens ! m) \<noteq> JSON_TOKEN_ARRAY \<or> tk_child_count (tokens ! m) = 0))"
  | m js where "find_array scan_find j key = Some js" "json_object_find source tokens n k key = Some m" "placed ns m (Some k) (J_Array js)"
      "list_all plain js" "tk_type (tokens ! m) = JSON_TOKEN_ARRAY" "tk_child_count (tokens ! m) = length js" "js \<noteq> []"
proof (rule find_cases [OF assms, of key])
  fix m v assume v: "scan_find j key = Some v" "json_object_find source tokens n k key = Some m" "placed ns m (Some k) v" "plain v"
  note t = placed_token(2,3) [OF assms(1) v(3)]
  show thesis
  proof (cases "tree_array v")
    case None
    then have "json_kind v \<noteq> JSON_TOKEN_ARRAY \<or> length (children v) = 0" by (cases v) (auto split: if_splits)
    with that(1) v t None show thesis by (simp add: find_array_def)
  next
    case (Some js)
    then have "v = J_Array js" "js \<noteq> []" by (cases v; simp split: if_splits)+
    with that(2) v t Some show thesis by (simp add: find_array_def)
  qed
qed (use that(1) in \<open>simp add: find_array_def\<close>)

text \<open>A heap that never refuses a request.\<close>

definition ample :: "heap \<Rightarrow> bool" where
  "ample h \<longleftrightarrow> (\<forall>i. hp_outcome h i)"

lemma ample_alloc: "heap_alloc h = (ok, h') \<Longrightarrow> ample h \<Longrightarrow> ok \<and> ample h'"
  by (auto simp: heap_alloc_def ample_def Let_def)

lemma ample_free [simp]: "ample (heap_free h) = ample h" "ample (free_option p h) = ample h"
  "ample (free_sequences qs h) = ample h" "ample (destroy_scenario s h) = ample h"
proof -
  show f: "ample (heap_free h) = ample h" for h by (simp add: heap_free_def ample_def)
  then show "ample (free_option p h) = ample h" by (simp add: free_option_def)
  show q: "ample (free_sequences qs h) = ample h" for qs h
    by (induction qs arbitrary: h) (simp_all add: free_sequences_def free_sequence_def f)
  then show "ample (destroy_scenario s h) = ample h" by (simp add: destroy_scenario_def f)
qed

lemma ample_destroy [simp]: "ample (domain_workflow_catalog_destroy k h) = ample h"
proof -
  have "ample (fold (\<lambda>e. destroy_scenario (we_scenario e)) es h) = ample h" for es :: "domain_workflow_entry list" and h
    by (induction es arbitrary: h) simp_all
  then show ?thesis by (simp add: domain_workflow_catalog_destroy_def split: option.splits)
qed

lemma object_string_tree:
  assumes "tokens_show source tokens n ns" "placed ns k c j" "plain j" "ample h"
  obtains h' where "json_object_string source tokens n k key h = (find_string scan_find j key, h')" "ample h'"
proof (rule find_cases [OF assms(1-3), of key])
  fix m v assume v: "scan_find j key = Some v" "json_object_find source tokens n k key = Some m" "placed ns m (Some k) v"
  obtain ok h1 where a: "heap_alloc h = (ok, h1)" by fastforce
  with ample_alloc [OF a assms(4)] that v string_tree [OF assms(1) v(3)] assms(4) show thesis
    by (cases "tree_string v") (auto simp: json_object_string_def json_copy_string_def find_string_def)
qed (use that assms(4) in \<open>simp add: json_object_string_def find_string_def\<close>)

lemma parse_step_tree:
  assumes "tokens_show source tokens n ns" "placed ns k c j" "plain j"
  shows "parse_step source tokens n k unit_count = read_step scan_find unit_count j"
proof (cases "tk_type (tokens ! k) = JSON_TOKEN_OBJECT")
  case True
  note u = object_u32_tree [OF assms] object_u64_tree [OF assms]
  show ?thesis
    by (rule find_cases [OF assms, of "''command''"])
      (auto simp: parse_step_def read_step_def True u token_equals_iff [OF assms(1)] not_less split: option.splits)
next
  case False
  then have "scan_find j key = None" for key
    using placed_token(2) [OF assms(1,2)] by (cases j) (simp_all add: scan_find_def)
  then show ?thesis using False by (simp add: parse_step_def read_step_def find_u32_def find_u64_def)
qed

lemma parse_steps_those:
  "(\<And>i. i \<in> set is \<Longrightarrow> \<exists>m. element i = Some m \<and> parse m = f i) \<Longrightarrow> parse_steps parse element is = those (map f is)"
proof (induction "is")
  case (Cons i "is")
  then obtain m where "element i = Some m" "parse m = f i" by auto
  with Cons show ?case by (auto split: option.splits)
qed simp

lemma those_nth: "those (map (\<lambda>i. f (js ! i)) [0..<length js]) = those (map f js)"
proof -
  have "map (\<lambda>i. f (js ! i)) [0..<length js] = map f (map ((!) js) [0..<length js])" by simp
  then show ?thesis by (simp only: map_nth)
qed

text \<open>A found array is worked off element by element, each in its place.\<close>

lemma array_element:
  assumes "tokens_show source tokens n ns" "placed ns m c (J_Array js)" "list_all plain js" "i < length js"
  obtains l where "json_array_at tokens n m i = Some l" "placed ns l (Some m) (js ! i)" "plain (js ! i)"
  using array_at_tree [OF assms(1,2,4)] assms(3,4) that by (auto simp: list_all_length)

definition schema_or :: "'a option \<Rightarrow> domain_workflow_load_result + 'a" where
  "schema_or r = (case r of None \<Rightarrow> Inl DOMAIN_WORKFLOW_LOAD_SCHEMA_ERROR | Some x \<Rightarrow> Inr x)"

lemma parse_sequence_tree:
  assumes "tokens_show source tokens n ns" "placed ns k c j" "plain j" "ample h"
  obtains h' where "parse_sequence source tokens n k unit_count h = (schema_or (read_sequence scan_find unit_count j), h')" "ample h'"
proof -
  obtain h1 where name: "json_object_string source tokens n k ''name'' h = (find_string scan_find j ''name'', h1)" "ample h1"
    by (rule object_string_tree [OF assms])
  obtain ok h2 where alloc: "heap_alloc h1 = (ok, h2)" by fastforce
  note h2 = ample_alloc [OF alloc name(2)]
  have obj: "find_string scan_find j ''name'' \<noteq> None \<Longrightarrow> tk_type (tokens ! k) = JSON_TOKEN_OBJECT"
    using placed_token(2) [OF assms(1,2)] by (cases j) (simp_all add: scan_find_def find_string_def)
  show thesis
  proof (cases "find_string scan_find j ''name''")
    case None
    with that name(2) show thesis by (simp add: parse_sequence_def name(1) Let_def schema_or_def read_sequence_def)
  next
    case (Some s)
    show thesis
    proof (rule object_array_tree [OF assms(1-3), of "''steps''"])
      assume "find_array scan_find j ''steps'' = None" "json_object_find source tokens n k ''steps'' = None \<or>
        (\<exists>m. json_object_find source tokens n k ''steps'' = Some m \<and>
          (tk_type (tokens ! m) \<noteq> JSON_TOKEN_ARRAY \<or> tk_child_count (tokens ! m) = 0))"
      with that name(2) show thesis by (auto simp: parse_sequence_def name(1) Let_def schema_or_def read_sequence_def split: option.splits)
    next
      fix m js assume m: "find_array scan_find j ''steps'' = Some js" "json_object_find source tokens n k ''steps'' = Some m"
        "placed ns m (Some k) (J_Array js)" "list_all plain js" "tk_type (tokens ! m) = JSON_TOKEN_ARRAY"
        "tk_child_count (tokens ! m) = length js" "js \<noteq> []"
      have "parse_steps (\<lambda>k. parse_step source tokens n k unit_count) (json_array_at tokens n m) [0..<length js] =
          those (map (\<lambda>i. read_step scan_find unit_count (js ! i)) [0..<length js])"
      proof (rule parse_steps_those)
        fix i assume "i \<in> set [0..<length js]"
        then have "i < length js" by simp
        from array_element [OF assms(1) m(3,4) this] parse_step_tree [OF assms(1)]
        show "\<exists>l. json_array_at tokens n m i = Some l \<and> parse_step source tokens n l unit_count = read_step scan_find unit_count (js ! i)"
          by metis
      qed
      then show thesis
        using that h2 m Some obj
        by (cases "those (map (read_step scan_find unit_count) js)")
          (simp_all add: parse_sequence_def name(1) alloc Let_def schema_or_def read_sequence_def those_nth)
    qed
  qed
qed

lemma total_steps_Cons: "total_steps (q # qs) = dq_step_count q + total_steps qs"
  by (simp add: total_steps_def)

lemma sequences_loop_tree:
  assumes "\<And>i h. i \<in> set is \<Longrightarrow> ample h \<Longrightarrow> \<exists>m h'. element i = Some m \<and> parse m h = (schema_or (f i), h') \<and> ample h'"
  shows "ample h \<Longrightarrow> count \<le> size_max \<Longrightarrow> \<exists>result parsed' count' h'.
    sequences_loop parse element is parsed count h = (result, parsed', count', h') \<and> ample h' \<and>
    (case those (map f is) of
       None \<Rightarrow> result = DOMAIN_WORKFLOW_LOAD_SCHEMA_ERROR
     | Some qs \<Rightarrow>
         if count + total_steps qs \<le> size_max
         then result = DOMAIN_WORKFLOW_LOAD_OK \<and> parsed' = parsed @ qs \<and> count' = count + total_steps qs
         else result = DOMAIN_WORKFLOW_LOAD_SCHEMA_ERROR)"
  using assms
proof (induction "is" arbitrary: parsed count h)
  case Nil
  then show ?case by (simp add: total_steps_def)
next
  case (Cons i "is")
  obtain m h1 where m: "element i = Some m" "parse m h = (schema_or (f i), h1)" "ample h1" using Cons.prems(1,3) by force
  show ?case
  proof (cases "f i")
    case None
    with m show ?thesis by (simp add: schema_or_def)
  next
    case (Some q)
    show ?thesis
    proof (cases "size_max - count < dq_step_count q")
      case True
      then have "\<not> count + total_steps (q # qs) \<le> size_max" for qs by (simp add: total_steps_def)
      with True m Some show ?thesis by (auto simp: schema_or_def split: option.splits)
    next
      case False
      then have le: "count + dq_step_count q \<le> size_max" using Cons.prems(2) by linarith
      have step: "sequences_loop parse element (i # is) parsed count h =
          sequences_loop parse element is (parsed @ [q]) (count + dq_step_count q) h1"
        using False m Some by (simp add: schema_or_def)
      have "\<exists>m h'. element i = Some m \<and> parse m h = (schema_or (f i), h') \<and> ample h'" if "i \<in> set is" "ample h" for i h
        using Cons.prems(3) that by simp
      from Cons.IH [OF m(3) le this, of "parsed @ [q]"] Some show ?thesis
        unfolding step by (cases "those (map f is)") (simp_all add: total_steps_Cons add.assoc cong: if_cong split del: if_split)
    qed
  qed
qed

definition read_sequences :: "lookup \<Rightarrow> nat \<Rightarrow> json list \<Rightarrow> (domain_sequence list \<times> nat) option" where
  "read_sequences look unit_count js =
     (case those (map (read_sequence look unit_count) js) of
        None \<Rightarrow> None
      | Some qs \<Rightarrow> if total_steps qs \<le> size_max then Some (qs, total_steps qs) else None)"

lemma parse_sequences_tree:
  assumes "tokens_show source tokens n ns" "placed ns m c (J_Array js)" "list_all plain js" "ample h"
  obtains h' where "parse_sequences source tokens n m unit_count h = (schema_or (read_sequences scan_find unit_count js), h')" "ample h'"
proof -
  obtain ok h1 where alloc: "heap_alloc h = (ok, h1)" by fastforce
  note h1 = ample_alloc [OF alloc assms(4)]
  have count: "tk_child_count (tokens ! m) = length js" using placed_token(3) [OF assms(1,2)] by simp
  have step: "\<exists>l h'. json_array_at tokens n m i = Some l \<and>
      parse_sequence source tokens n l unit_count h = (schema_or (read_sequence scan_find unit_count (js ! i)), h') \<and> ample h'"
    if "i \<in> set [0..<length js]" "ample h" for i h
  proof -
    from that have "i < length js" by simp
    from array_element [OF assms(1-3) this] parse_sequence_tree [OF assms(1) _ _ that(2)] show ?thesis by metis
  qed
  have "\<exists>result parsed total' h'. sequences_loop (\<lambda>k. parse_sequence source tokens n k unit_count)
      (json_array_at tokens n m) [0..<length js] [] 0 h1 = (result, parsed, total', h') \<and> ample h' \<and>
    (case those (map (\<lambda>i. read_sequence scan_find unit_count (js ! i)) [0..<length js]) of
       None \<Rightarrow> result = DOMAIN_WORKFLOW_LOAD_SCHEMA_ERROR
     | Some qs \<Rightarrow>
         if 0 + total_steps qs \<le> size_max
         then result = DOMAIN_WORKFLOW_LOAD_OK \<and> parsed = [] @ qs \<and> total' = 0 + total_steps qs
         else result = DOMAIN_WORKFLOW_LOAD_SCHEMA_ERROR)"
    by (rule sequences_loop_tree [OF step]) (use h1 in simp_all)
  then obtain result parsed total' h2 where loop: "sequences_loop (\<lambda>k. parse_sequence source tokens n k unit_count)
      (json_array_at tokens n m) [0..<length js] [] 0 h1 = (result, parsed, total', h2)" "ample h2"
    "case those (map (read_sequence scan_find unit_count) js) of
       None \<Rightarrow> result = DOMAIN_WORKFLOW_LOAD_SCHEMA_ERROR
     | Some qs \<Rightarrow>
         if total_steps qs \<le> size_max then result = DOMAIN_WORKFLOW_LOAD_OK \<and> parsed = qs \<and> total' = total_steps qs
         else result = DOMAIN_WORKFLOW_LOAD_SCHEMA_ERROR"
    unfolding those_nth append_Nil add_0 by blast
  show thesis
    using that h1 loop
    by (cases "those (map (read_sequence scan_find unit_count) js)")
      (auto simp: parse_sequences_def alloc count schema_or_def read_sequences_def Let_def split: if_splits)
qed

lemma read_scenario_eq:
  "read_scenario look unit_count j =
     (case (find_u32 look j ''id'', find_string look j ''name'', find_array look j ''sequences'') of
        (Some i, Some name, Some js) \<Rightarrow>
          if i = 0 then None
          else map_option (\<lambda>(qs, m). \<lparr>dc_id = i, dc_name = name, dc_sequences = qs, dc_sequence_count = length js,
                 dc_total_step_count = m\<rparr>) (read_sequences look unit_count js)
      | _ \<Rightarrow> None)"
  by (auto simp: read_scenario_def read_sequences_def split: option.splits)

lemma parse_scenario_tree:
  assumes "tokens_show source tokens n ns" "placed ns k c j" "plain j" "ample h"
  obtains h' where "parse_scenario source tokens n k unit_count h = (schema_or (read_scenario scan_find unit_count j), h')" "ample h'"
proof -
  obtain h1 where name: "json_object_string source tokens n k ''name'' h = (find_string scan_find j ''name'', h1)" "ample h1"
    by (rule object_string_tree [OF assms])
  have i: "(if tk_type (tokens ! k) \<noteq> JSON_TOKEN_OBJECT then None else json_object_u32 source tokens n k ''id'') = find_u32 scan_find j ''id''"
    using placed_token(2) [OF assms(1,2)] object_u32_tree [OF assms(1-3)]
    by (cases j) (simp_all add: find_u32_def find_u64_def scan_find_def)
  note defs = parse_scenario_def name(1) i Let_def schema_or_def read_scenario_eq
  show thesis
  proof (rule object_array_tree [OF assms(1-3), of "''sequences''"])
    assume "find_array scan_find j ''sequences'' = None" "json_object_find source tokens n k ''sequences'' = None \<or>
        (\<exists>m. json_object_find source tokens n k ''sequences'' = Some m \<and>
          (tk_type (tokens ! m) \<noteq> JSON_TOKEN_ARRAY \<or> tk_child_count (tokens ! m) = 0))"
    with that name(2) show thesis by (auto simp: defs split: option.splits)
  next
    fix m js assume m: "find_array scan_find j ''sequences'' = Some js" "json_object_find source tokens n k ''sequences'' = Some m"
        "placed ns m (Some k) (J_Array js)" "list_all plain js" "tk_type (tokens ! m) = JSON_TOKEN_ARRAY"
        "tk_child_count (tokens ! m) = length js" "js \<noteq> []"
    obtain h2 where qs: "parse_sequences source tokens n m unit_count h1 = (schema_or (read_sequences scan_find unit_count js), h2)" "ample h2"
      by (rule parse_sequences_tree [OF assms(1) m(3,4) name(2)])
    have "fst (parse_scenario source tokens n k unit_count h) = schema_or (read_scenario scan_find unit_count j) \<and>
        ample (snd (parse_scenario source tokens n k unit_count h))"
      using name(2) qs m
      by (cases "find_u32 scan_find j ''id''"; cases "find_string scan_find j ''name''"; cases "read_sequences scan_find unit_count js")
        (auto simp: defs split: if_splits)
    then show thesis using that by (metis prod.collapse)
  qed
qed

lemma duplicate_unique:
  "unique_entries es \<Longrightarrow>
    entry_is_duplicate es (we_feature e) (we_condition e) (dc_id (we_scenario e)) \<longleftrightarrow> \<not> unique_entries (es @ [e])"
  by (auto simp: duplicate_iff unique_entries_def)

lemma parse_entry_tree:
  assumes "tokens_show source tokens n ns" "placed ns k c j" "plain j" "ample h" "unique_entries es"
  obtains h' where "parse_entry source tokens n k unit_count es h =
      (schema_or (Option.bind (read_entry scan_find unit_count j) (\<lambda>e. if unique_entries (es @ [e]) then Some e else None)), h')" "ample h'"
proof -
  have f: "(if tk_type (tokens ! k) \<noteq> JSON_TOKEN_OBJECT then None else json_object_u32 source tokens n k ''feature'') = find_u32 scan_find j ''feature''"
    using placed_token(2) [OF assms(1,2)] object_u32_tree [OF assms(1-3)]
    by (cases j) (simp_all add: find_u32_def find_u64_def scan_find_def)
  note defs = parse_entry_def f object_u32_tree [OF assms(1-3)] Let_def schema_or_def read_entry_def
  show thesis
  proof (rule find_cases [OF assms(1-3), of "''scenario''"])
    assume "scan_find j ''scenario'' = None" "json_object_find source tokens n k ''scenario'' = None"
    with that assms(4) show thesis by (auto simp: defs split: option.splits)
  next
    fix m v assume m: "scan_find j ''scenario'' = Some v" "json_object_find source tokens n k ''scenario'' = Some m"
        "placed ns m (Some k) v" "plain v"
    obtain h1 where s: "parse_scenario source tokens n m unit_count h = (schema_or (read_scenario scan_find unit_count v), h1)" "ample h1"
      by (rule parse_scenario_tree [OF assms(1) m(3,4) assms(4)])
    have "fst (parse_entry source tokens n k unit_count es h) =
          schema_or (Option.bind (read_entry scan_find unit_count j) (\<lambda>e. if unique_entries (es @ [e]) then Some e else None)) \<and>
        ample (snd (parse_entry source tokens n k unit_count es h))"
      using assms(4) s m duplicate_unique [OF assms(5), of "\<lparr>we_feature = f, we_condition = c, we_scenario = x\<rparr>" for f c x]
      by (cases "find_u32 scan_find j ''feature''"; cases "find_u32 scan_find j ''condition''"; cases "read_scenario scan_find unit_count v")
        (auto simp: defs split: if_splits)
    then show thesis using that by (metis prod.collapse)
  qed
qed

lemma unique_prefix: "unique_entries (es @ es') \<Longrightarrow> unique_entries es"
  by (simp add: unique_entries_def)

lemma entries_loop_tree:
  assumes "\<And>i es h. i \<in> set is \<Longrightarrow> ample h \<Longrightarrow> unique_entries es \<Longrightarrow> \<exists>m h'. element i = Some m \<and> ample h' \<and>
      parse m es h = (schema_or (Option.bind (f i) (\<lambda>e. if unique_entries (es @ [e]) then Some e else None)), h')"
  shows "ample h \<Longrightarrow> unique_entries parsed \<Longrightarrow> \<exists>result parsed' h'.
    entries_loop parse element is parsed h = (result, parsed', h') \<and> ample h' \<and>
    (case those (map f is) of
       None \<Rightarrow> result = DOMAIN_WORKFLOW_LOAD_SCHEMA_ERROR
     | Some es \<Rightarrow>
         if unique_entries (parsed @ es) then result = DOMAIN_WORKFLOW_LOAD_OK \<and> parsed' = parsed @ es
         else result = DOMAIN_WORKFLOW_LOAD_SCHEMA_ERROR)"
  using assms
proof (induction "is" arbitrary: parsed h)
  case (Cons i "is")
  obtain m h1 where m: "element i = Some m" "ample h1"
    "parse m parsed h = (schema_or (Option.bind (f i) (\<lambda>e. if unique_entries (parsed @ [e]) then Some e else None)), h1)"
    using Cons.prems(3) [of i h parsed] Cons.prems(1,2) by auto
  show ?case
  proof (cases "\<exists>e. f i = Some e \<and> unique_entries (parsed @ [e])")
    case True
    then obtain e where e: "f i = Some e" "unique_entries (parsed @ [e])" by blast
    then have step: "entries_loop parse element (i # is) parsed h = entries_loop parse element is (parsed @ [e]) h1"
      using m by (simp add: schema_or_def)
    have "\<exists>m h'. element i = Some m \<and> ample h' \<and>
        parse m es h = (schema_or (Option.bind (f i) (\<lambda>e. if unique_entries (es @ [e]) then Some e else None)), h')"
      if "i \<in> set is" "ample h" "unique_entries es" for i es h
      using Cons.prems(3) that by simp
    from Cons.IH [OF m(2) e(2) this] e show ?thesis
      unfolding step by (cases "those (map f is)") (simp_all cong: if_cong split del: if_split)
  next
    case False
    then have "f i = Some e \<Longrightarrow> \<not> unique_entries (parsed @ e # es)" for e es
      using unique_prefix [of "parsed @ [e]" es] by auto
    with m False show ?thesis by (cases "f i"; cases "those (map f is)") (auto simp: schema_or_def)
  qed
qed simp

lemma build_catalog_tree:
  assumes "tokens_show source tokens n ns" "placed ns 0 c j" "plain j" "ample h"
  shows "fst (build_catalog source tokens n unit_count h) = schema_or (read_catalog scan_find unit_count j)"
proof (cases "find_u64 scan_find j ''schema_version'' = Some 1")
  case False
  have "\<not> (\<exists>m. json_object_find source tokens n 0 ''schema_version'' = Some m \<and>
      json_read_u64 source (tokens ! m) = Some DOMAIN_WORKFLOW_SCHEMA_VERSION)"
    by (rule find_cases [OF assms(1-3), of "''schema_version''"])
      (use False in \<open>simp_all add: find_u64_def read_u64_tree [OF assms(1)] DOMAIN_WORKFLOW_SCHEMA_VERSION_def\<close>)
  then have "fst (build_catalog source tokens n unit_count h) = Inl DOMAIN_WORKFLOW_LOAD_SCHEMA_ERROR"
    by (cases "json_object_find source tokens n 0 ''schema_version''") (auto simp: build_catalog_def Let_def)
  with False show ?thesis by (simp add: read_catalog_def schema_or_def)
next
  case True
  then obtain v where v: "json_object_find source tokens n 0 ''schema_version'' = Some v"
      "json_read_u64 source (tokens ! v) = Some DOMAIN_WORKFLOW_SCHEMA_VERSION" "tk_type (tokens ! 0) = JSON_TOKEN_OBJECT"
  proof (rule_tac find_cases [OF assms(1-3), of "''schema_version''"])
    fix m v assume "scan_find j ''schema_version'' = Some v" "json_object_find source tokens n 0 ''schema_version'' = Some m"
        "placed ns m (Some 0) v" "plain v"
    with that True placed_token(2) [OF assms(1,2)] show thesis
      by (cases j) (simp_all add: find_u64_def read_u64_tree [OF assms(1)] DOMAIN_WORKFLOW_SCHEMA_VERSION_def scan_find_def)
  qed (simp add: find_u64_def)
  show ?thesis
  proof (rule object_array_tree [OF assms(1-3), of "''workflows''"])
    assume "find_array scan_find j ''workflows'' = None" "json_object_find source tokens n 0 ''workflows'' = None \<or>
        (\<exists>m. json_object_find source tokens n 0 ''workflows'' = Some m \<and>
          (tk_type (tokens ! m) \<noteq> JSON_TOKEN_ARRAY \<or> tk_child_count (tokens ! m) = 0))"
    then show ?thesis by (auto simp: build_catalog_def v Let_def read_catalog_def schema_or_def)
  next
    fix m js assume m: "find_array scan_find j ''workflows'' = Some js" "json_object_find source tokens n 0 ''workflows'' = Some m"
        "placed ns m (Some 0) (J_Array js)" "list_all plain js" "tk_type (tokens ! m) = JSON_TOKEN_ARRAY"
        "tk_child_count (tokens ! m) = length js" "js \<noteq> []"
    obtain ok1 h1 where a1: "heap_alloc h = (ok1, h1)" by fastforce
    obtain ok2 h2 where a2: "heap_alloc h1 = (ok2, h2)" by fastforce
    have h: "ok1" "ok2" "ample h2" using ample_alloc [OF a1 assms(4)] ample_alloc [OF a2] by simp_all
    have step: "\<exists>l h'. json_array_at tokens n m i = Some l \<and> ample h' \<and>
        parse_entry source tokens n l unit_count es h =
          (schema_or (Option.bind (read_entry scan_find unit_count (js ! i)) (\<lambda>e. if unique_entries (es @ [e]) then Some e else None)), h')"
      if a: "i \<in> set [0..<length js]" "ample h" "unique_entries es" for i es h
    proof -
      from a have i: "i < length js" by simp
      obtain l where l: "json_array_at tokens n m i = Some l" "placed ns l (Some m) (js ! i)" "plain (js ! i)"
        by (rule array_element [OF assms(1) m(3,4) i])
      obtain h' where "parse_entry source tokens n l unit_count es h =
          (schema_or (Option.bind (read_entry scan_find unit_count (js ! i)) (\<lambda>e. if unique_entries (es @ [e]) then Some e else None)), h')"
          "ample h'"
        by (rule parse_entry_tree [OF assms(1) l(2,3) a(2,3)])
      with l(1) show ?thesis by blast
    qed
    have "\<exists>result parsed h'. entries_loop (\<lambda>k es. parse_entry source tokens n k unit_count es)
        (json_array_at tokens n m) [0..<length js] [] h2 = (result, parsed, h') \<and> ample h' \<and>
      (case those (map (\<lambda>i. read_entry scan_find unit_count (js ! i)) [0..<length js]) of
         None \<Rightarrow> result = DOMAIN_WORKFLOW_LOAD_SCHEMA_ERROR
       | Some es \<Rightarrow>
           if unique_entries ([] @ es) then result = DOMAIN_WORKFLOW_LOAD_OK \<and> parsed = [] @ es
           else result = DOMAIN_WORKFLOW_LOAD_SCHEMA_ERROR)"
      by (rule entries_loop_tree [OF step]) (use h in \<open>simp_all add: unique_entries_def\<close>)
    then obtain result parsed h3 where loop: "entries_loop (\<lambda>k es. parse_entry source tokens n k unit_count es)
        (json_array_at tokens n m) [0..<length js] [] h2 = (result, parsed, h3)"
      "case those (map (read_entry scan_find unit_count) js) of
         None \<Rightarrow> result = DOMAIN_WORKFLOW_LOAD_SCHEMA_ERROR
       | Some es \<Rightarrow> if unique_entries es then result = DOMAIN_WORKFLOW_LOAD_OK \<and> parsed = es
           else result = DOMAIN_WORKFLOW_LOAD_SCHEMA_ERROR"
      unfolding those_nth append_Nil by blast
    have "fst (build_catalog source tokens n unit_count h) =
        (if result = DOMAIN_WORKFLOW_LOAD_OK then Inr \<lparr>wc_entries = parsed, wc_entry_count = length parsed\<rparr> else Inl result)"
      using m(5-7) h(1,2) by (simp add: build_catalog_def v m(2) a1 a2 loop(1))
    then show ?thesis
      using loop(2) m(1) True by (cases "those (map (read_entry scan_find unit_count) js)") (auto simp: read_catalog_def schema_or_def)
  qed
qed

section \<open>What the members name\<close>

text \<open>
  The meaning of a lookup: the value of the one member with the key, and none when no member or more than one
  has it. Keys are compared as they are spelled, escapes not decoded.
\<close>

definition member_value :: lookup where
  "member_value j key =
     (case j of
        J_Object ms \<Rightarrow> (case filter (\<lambda>m. fst m = key) ms of [m] \<Rightarrow> Some (snd m) | _ \<Rightarrow> None)
      | _ \<Rightarrow> None)"

text \<open>
  \<open>scan_find\<close> is not this lookup: where no member is called \<open>name\<close> but the value of a member is the string
  \<open>name\<close>, it gives the key of the next member.
\<close>

lemma value_taken_for_key:
  "scan_find (J_Object [(''x'', J_String ''name''), (''s'', J_Primitive ''4'')]) ''name'' = Some (J_String ''s'')"
  "member_value (J_Object [(''x'', J_String ''name''), (''s'', J_Primitive ''4'')]) ''name'' = None"
  by code_simp+

text \<open>The keys the loader looks up, and the trees in which no member of an object has one of them as its value.\<close>

definition loader_keys :: "string list" where
  "loader_keys = [''schema_version'', ''workflows'', ''feature'', ''condition'', ''scenario'', ''id'', ''name'',
     ''sequences'', ''steps'', ''unit'', ''command'', ''timeout_ms'']"

fun keys_clear :: "json \<Rightarrow> bool" where
  "keys_clear (J_String s) = True"
| "keys_clear (J_Primitive s) = True"
| "keys_clear (J_Array js) = list_all keys_clear js"
| "keys_clear (J_Object ms) = list_all (\<lambda>m. snd m \<notin> J_String ` set loader_keys \<and> keys_clear (snd m)) ms"

lemma upt_pairs: "[0..<Suc (Suc n)] = 0 # 1 # map (\<lambda>i. Suc (Suc i)) [0..<n]"
  by (simp add: upt_conv_Cons map_Suc_upt flip: map_map [of Suc Suc, unfolded comp_def])

lemma scanned_members:
  assumes "\<forall>m \<in> set ms. snd m \<noteq> J_String key"
  shows "map (\<lambda>i. flat_members ms ! (i + 1)) (filter (\<lambda>i. flat_members ms ! i = J_String key) [0..<2 * length ms]) =
    map snd (filter (\<lambda>m. fst m = key) ms)"
  using assms
proof (induction ms)
  case (Cons m ms)
  obtain k v where m: "m = (k, v)" by (cases m)
  have "[0..<2 * length (m # ms)] = 0 # 1 # map (\<lambda>i. Suc (Suc i)) [0..<2 * length ms]" using upt_pairs [of "2 * length ms"] by simp
  then show ?case using Cons by (auto simp: m filter_map comp_def)
qed simp

lemma scan_member:
  assumes "\<forall>m \<in> set ms. snd m \<noteq> J_String key"
  shows "scan_find (J_Object ms) key = member_value (J_Object ms) key"
proof -
  let ?P = "\<lambda>i. flat_members ms ! i = J_String key" and ?g = "\<lambda>i. flat_members ms ! (i + 1)"
  have last: "filter ?P [0..<2 * length ms] = filter ?P [0..<2 * length ms - 1]"
  proof (cases ms rule: rev_cases)
    case (snoc ns m)
    have "flat_members (ns @ [m]) ! (2 * length ns + 1) = snd m"
      by (cases m) (simp add: flat_members_def nth_append flip: length_flat_members [unfolded flat_members_def])
    then show ?thesis using assms snoc by simp
  qed simp
  have "(case filter ?P [0..<2 * length ms - 1] of [i] \<Rightarrow> Some (?g i) | _ \<Rightarrow> None) =
      (case map ?g (filter ?P [0..<2 * length ms - 1]) of [v] \<Rightarrow> Some v | _ \<Rightarrow> None)"
    by (auto split: list.splits)
  also have "\<dots> = (case map snd (filter (\<lambda>m. fst m = key) ms) of [v] \<Rightarrow> Some v | _ \<Rightarrow> None)"
    using scanned_members [OF assms] unfolding last by simp
  finally show ?thesis by (auto simp: scan_find_def member_value_def Let_def split: list.splits)
qed

lemma clear_scan: "keys_clear j \<Longrightarrow> key \<in> set loader_keys \<Longrightarrow> scan_find j key = member_value j key"
proof (cases j)
  case (J_Object ms)
  moreover assume "keys_clear j" "key \<in> set loader_keys"
  ultimately have "\<forall>m \<in> set ms. snd m \<noteq> J_String key" by (auto simp: list_all_iff)
  then show ?thesis unfolding J_Object by (rule scan_member)
qed (simp_all add: scan_find_def member_value_def)

lemma clear_member: "keys_clear j \<Longrightarrow> member_value j key = Some v \<Longrightarrow> keys_clear v"
proof -
  assume a: "keys_clear j" "member_value j key = Some v"
  then obtain ms m where m: "j = J_Object ms" "filter (\<lambda>m. fst m = key) ms = [m]" "v = snd m"
    by (auto simp: member_value_def split: json.splits list.splits)
  from m(2) have "m \<in> set (filter (\<lambda>m. fst m = key) ms)" by simp
  with a(1) m(1,3) show "keys_clear v" by (auto simp: list_all_iff)
qed

lemma clear_array: "keys_clear j \<Longrightarrow> find_array member_value j key = Some js \<Longrightarrow> list_all keys_clear js"
proof -
  assume a: "keys_clear j" "find_array member_value j key = Some js"
  then obtain v where v: "member_value j key = Some v" "tree_array v = Some js" by (auto simp: find_array_def split: bind_splits)
  then have "v = J_Array js" by (cases v) (auto split: if_splits)
  with clear_member [OF a(1) v(1)] show "list_all keys_clear js" by simp
qed

lemma clear_finds:
  assumes "keys_clear j" "key \<in> set loader_keys"
  shows "find_u64 scan_find j key = find_u64 member_value j key" "find_u32 scan_find j key = find_u32 member_value j key"
    "find_string scan_find j key = find_string member_value j key" "find_array scan_find j key = find_array member_value j key"
  using clear_scan [OF assms] by (simp_all add: find_u64_def find_u32_def find_string_def find_array_def)

lemma those_cong: "list_all P js \<Longrightarrow> (\<And>j. P j \<Longrightarrow> f j = g j) \<Longrightarrow> those (map f js) = those (map g js)"
  by (induction js) (auto split: option.splits)

lemma clear_step: "keys_clear j \<Longrightarrow> read_step scan_find n j = read_step member_value n j"
  using clear_finds [of j "''unit''"] clear_finds [of j "''timeout_ms''"] clear_scan [of j "''command''"]
  by (auto simp: read_step_def loader_keys_def split: option.splits)

lemma clear_sequence:
  assumes "keys_clear j"
  shows "read_sequence scan_find n j = read_sequence member_value n j"
proof -
  have "those (map (read_step scan_find n) js) = those (map (read_step member_value n) js)"
    if "find_array member_value j ''steps'' = Some js" for js
    using clear_array [OF assms that] clear_step by (rule those_cong)
  then show ?thesis using clear_finds [OF assms] by (auto simp: read_sequence_def loader_keys_def split: option.splits)
qed

lemma clear_scenario:
  assumes "keys_clear j"
  shows "read_scenario scan_find n j = read_scenario member_value n j"
proof -
  have "those (map (read_sequence scan_find n) js) = those (map (read_sequence member_value n) js)"
    if "find_array member_value j ''sequences'' = Some js" for js
    using clear_array [OF assms that] clear_sequence by (rule those_cong)
  then show ?thesis using clear_finds [OF assms] by (auto simp: read_scenario_def loader_keys_def split: option.splits)
qed

lemma clear_entry:
  assumes "keys_clear j"
  shows "read_entry scan_find n j = read_entry member_value n j"
proof -
  have "Option.bind (scan_find j ''scenario'') (read_scenario scan_find n) =
      Option.bind (member_value j ''scenario'') (read_scenario member_value n)"
    using clear_scan [OF assms, of "''scenario''"] clear_member [OF assms] clear_scenario
    by (cases "member_value j ''scenario''") (auto simp: loader_keys_def)
  then show ?thesis using clear_finds [OF assms] by (simp add: read_entry_def loader_keys_def)
qed

lemma clear_catalog:
  assumes "keys_clear j"
  shows "read_catalog scan_find n j = read_catalog member_value n j"
proof -
  have "those (map (read_entry scan_find n) js) = those (map (read_entry member_value n) js)"
    if "find_array member_value j ''workflows'' = Some js" for js
    using clear_array [OF assms that] clear_entry by (rule those_cong)
  then have "Option.bind (find_array scan_find j ''workflows'') (\<lambda>js. those (map (read_entry scan_find n) js)) =
      Option.bind (find_array member_value j ''workflows'') (\<lambda>js. those (map (read_entry member_value n) js))"
    using clear_finds(4) [OF assms, of "''workflows''"]
    by (cases "find_array member_value j ''workflows''") (auto simp: loader_keys_def)
  then show ?thesis using clear_finds(1) [OF assms, of "''schema_version''"] by (simp add: read_catalog_def loader_keys_def)
qed

section \<open>The loader\<close>

definition file_holds :: "(string \<Rightarrow> json_file option) \<Rightarrow> string \<Rightarrow> string \<Rightarrow> bool" where
  "file_holds open_file path s \<longleftrightarrow>
     open_file path = Some \<lparr>jf_seek_end = True, jf_size = int (length s), jf_seek_start = True, jf_read = s\<rparr>"

text \<open>The loader on every text that is accepted, in terms of what its lookups find.\<close>

lemma load_tree:
  assumes "file_holds open_file path s" "s \<noteq> []" "length s \<le> 1024 * 1024" "path \<noteq> ''''" "0 < unit_count" "\<forall>i. hp_outcome h i"
  shows "accepted_text j s \<Longrightarrow> fst (domain_workflow_catalog_load_json_file open_file (Some path) unit_count h) =
      (case read_catalog scan_find unit_count j of
         None \<Rightarrow> (DOMAIN_WORKFLOW_LOAD_SCHEMA_ERROR, None)
       | Some k \<Rightarrow> (DOMAIN_WORKFLOW_LOAD_OK, Some k))"
    and "(\<nexists>j. accepted_text j s) \<Longrightarrow>
      fst (domain_workflow_catalog_load_json_file open_file (Some path) unit_count h) = (DOMAIN_WORKFLOW_LOAD_PARSE_ERROR, None)"
proof -
  obtain ok1 h1 where a1: "heap_alloc h = (ok1, h1)" by fastforce
  obtain ok2 h2 where a2: "heap_alloc h1 = (ok2, h2)" by fastforce
  have h: "ok1" "ok2" "ample h2" using ample_alloc [OF a1] ample_alloc [OF a2] assms(6) by (simp_all add: ample_def)
  have source: "read_json_file open_file path h = (Inr s, h1)"
    using assms(1-3) h(1) by (simp add: read_json_file_def file_holds_def DOMAIN_WORKFLOW_JSON_MAX_BYTES_def a1)
  note load = domain_workflow_catalog_load_json_file_def [of open_file "Some path" unit_count h]
  show "fst (domain_workflow_catalog_load_json_file open_file (Some path) unit_count h) =
      (case read_catalog scan_find unit_count j of
         None \<Rightarrow> (DOMAIN_WORKFLOW_LOAD_SCHEMA_ERROR, None)
       | Some k \<Rightarrow> (DOMAIN_WORKFLOW_LOAD_OK, Some k))" if j: "accepted_text j s"
  proof -
    have valid: "json_validate_document s" using j accepted_text_validates by blast
    have "length s \<le> size_max" using assms(3) by (simp add: size_max_def)
    then obtain p where p: "json_tokenize s (new_parser (length s div 2 + 2)) = Some p"
        "tokens_show s (js_tokens p) (js_count p) (nodes None 0 j)"
      using tokenizer_layout [OF j] unfolding tokens_show_def by blast
    have "plain j" using j spells_plain(1) unfolding accepted_text_unfold by blast
    from build_catalog_tree [OF p(2) placed_root this h(3)]
    obtain h3 where "build_catalog s (js_tokens p) (js_count p) unit_count h2 = (schema_or (read_catalog scan_find unit_count j), h3)"
      by (metis prod.collapse)
    then show ?thesis
      using assms(4,5) h(2) valid p(1) by (simp add: load source a2 schema_or_def split: option.splits)
  qed
  show "fst (domain_workflow_catalog_load_json_file open_file (Some path) unit_count h) = (DOMAIN_WORKFLOW_LOAD_PARSE_ERROR, None)"
    if "\<nexists>j. accepted_text j s"
  proof -
    have "\<not> json_validate_document s" using that validates_accepted_text by blast
    then show ?thesis using assms(4,5) h(2) by (simp add: load source a2)
  qed
qed

text \<open>
  Property C5. The loader gives the catalog that the JSON tree of the file describes. When the file can be read,
  holds 1 to 2^20 bytes and no request for memory fails: for a file without a NUL byte the result is a parse
  error exactly when the file is not a JSON text that nests at most 64 deep; and for every JSON text in which no
  member has one of the loader's twelve keys as its value, the result is what \<open>read_catalog\<close> says of the tree by
  the values of the members called so, a key given twice naming nothing: the catalog with every name, id, unit
  and timeout, or a schema error when it says there is none. Keys and names are taken as spelled; a string with
  a backslash is no name, a number is written in decimal digits only. The two conditions are needed: with a NUL after a backslash a file that is
  not JSON is taken, and a value that equals a key is mistaken for the key (\<open>value_taken_for_key\<close>).
\<close>

theorem loader_reads_the_tree:
  assumes "file_holds open_file path s" "s \<noteq> []" "length s \<le> 1024 * 1024" "path \<noteq> ''''" "0 < unit_count" "\<forall>i. hp_outcome h i"
  defines "result \<equiv> fst (domain_workflow_catalog_load_json_file open_file (Some path) unit_count h)"
  shows "(CHR 0x00 \<notin> set s \<longrightarrow> (result = (DOMAIN_WORKFLOW_LOAD_PARSE_ERROR, None) \<longleftrightarrow> (\<nexists>j. json_text j s))) \<and>
    (\<forall>j. json_text j s \<and> keys_clear j \<longrightarrow> result =
       (case read_catalog member_value unit_count j of
          None \<Rightarrow> (DOMAIN_WORKFLOW_LOAD_SCHEMA_ERROR, None)
        | Some k \<Rightarrow> (DOMAIN_WORKFLOW_LOAD_OK, Some k)))"
proof (intro conjI allI impI iffI)
  note t = load_tree(1) [OF assms(1-6), folded result_def]
  show "result = (case read_catalog member_value unit_count j of
      None \<Rightarrow> (DOMAIN_WORKFLOW_LOAD_SCHEMA_ERROR, None)
    | Some k \<Rightarrow> (DOMAIN_WORKFLOW_LOAD_OK, Some k))" if "json_text j s \<and> keys_clear j" for j
    using t [OF json_accepted(1), of j] clear_catalog [of j unit_count] that by simp
  show "\<nexists>j. json_text j s" if r: "result = (DOMAIN_WORKFLOW_LOAD_PARSE_ERROR, None)"
  proof
    assume "\<exists>j. json_text j s"
    then obtain j where "accepted_text j s" using json_accepted(1) by blast
    from t [OF this] r show False by (cases "read_catalog scan_find unit_count j") simp_all
  qed
  show "result = (DOMAIN_WORKFLOW_LOAD_PARSE_ERROR, None)" if "CHR 0x00 \<notin> set s" "\<nexists>j. json_text j s"
  proof -
    have "no_nul s" using that(1) by (auto simp: list_all_iff)
    then have "\<nexists>j. accepted_text j s" using that(2) accepted_json by blast
    then show ?thesis using load_tree(2) [OF assms(1-6)] unfolding result_def by blast
  qed
qed

theorem loader_reads_the_tree_witness:
  "fst (domain_workflow_catalog_load_json_file
      (\<lambda>_. Some \<lparr>jf_seek_end = True, jf_size = 3, jf_seek_start = True, jf_read = '' []''\<rparr>) (Some ''w.json'') 10
      \<lparr>hp_outcome = \<lambda>_. True, hp_requests = 0, hp_live = 0\<rparr>) = (DOMAIN_WORKFLOW_LOAD_SCHEMA_ERROR, None)"
proof -
  let ?open = "\<lambda>_. Some \<lparr>jf_seek_end = True, jf_size = 3, jf_seek_start = True, jf_read = '' []''\<rparr>"
  have "spells_with rfc_escapes 0 (J_Array []) ''[]''" using no_elements [of 0 "[]"] by simp
  then have j: "json_text (J_Array []) '' []''"
    unfolding json_text_def text_with_def by (intro exI [of _ "'' ''"] exI [of _ "''[]''"] exI [of _ "[]"]) (simp add: json_is_space_def)
  have "file_holds ?open ''w.json'' '' []''" by (simp add: file_holds_def)
  moreover have "read_catalog member_value 10 (J_Array []) = None" "keys_clear (J_Array [])"
    by (simp_all add: read_catalog_def find_u64_def member_value_def)
  ultimately show ?thesis
    using loader_reads_the_tree [of ?open "''w.json''" "'' []''" 10 "\<lparr>hp_outcome = \<lambda>_. True, hp_requests = 0, hp_live = 0\<rparr>"] j
    by auto
qed

end
