(* ===== verification/Workflow_Printing.thy ===== *)
theory Workflow_Printing
  imports Workflow_Reading
begin

text \<open>
  Writing a catalog as a workflow file, the inverse the documentation of the file format implies: the tree of
  a catalog, the text of a tree without white space, and the proof that the loader gives the catalog back.
\<close>

section \<open>Numbers\<close>

definition digit :: "nat \<Rightarrow> char" where
  "digit n = char_of (48 + n)"

fun decimal :: "nat \<Rightarrow> string" where
  "decimal n = (if n < 10 then [digit n] else decimal (n div 10) @ [digit (n mod 10)])"

declare decimal.simps [simp del]

lemma code_digit: "n < 10 \<Longrightarrow> code (digit n) = 48 + n"
  by (simp add: digit_def)

lemma is_digit_digit: "n < 10 \<Longrightarrow> is_digit (digit n)"
  by (simp add: is_digit_def code_digit)

lemma decimal_digits: "digits (decimal n)"
  by (induction n rule: decimal.induct) (subst decimal.simps, simp add: is_digit_digit)

lemma decimal_value_append: "decimal_value (s @ [c]) = 10 * decimal_value s + (code c - 48)"
  by (simp add: decimal_value_def)

lemma decimal_value_decimal: "decimal_value (decimal n) = n"
proof (induction n rule: decimal.induct)
  case (1 n)
  show ?case
  proof (cases "n < 10")
    case True
    then show ?thesis by (simp add: decimal.simps [of n] decimal_value_def code_digit)
  next
    case False
    then show ?thesis using 1 by (simp add: decimal.simps [of n] decimal_value_append code_digit)
  qed
qed

lemma decimal_first: "0 < n \<Longrightarrow> \<exists>c ds. decimal n = c # ds \<and> c \<noteq> CHR ''0''"
proof (induction n rule: decimal.induct)
  case (1 n)
  show ?case
  proof (cases "n < 10")
    case True
    then have "code (digit n) \<noteq> code CHR ''0''" using 1(2) by (simp add: code_digit)
    then show ?thesis using True by (subst decimal.simps) auto
  next
    case False
    then have "0 < n div 10" by (simp add: div_greater_zero_iff)
    with 1(1) False obtain c ds where "decimal (n div 10) = c # ds" "c \<noteq> CHR ''0''" by auto
    then show ?thesis using False by (subst decimal.simps) simp
  qed
qed

lemma decimal_number: "number_text (decimal n)"
proof -
  have "integer_part (decimal n)"
  proof (cases "n = 0")
    case True
    have "code (digit 0) = code CHR ''0''" by (simp add: code_digit)
    then have "digit 0 = CHR ''0''" by (simp only: of_char_eq_iff)
    with True show ?thesis by (simp add: decimal.simps integer_part_def)
  next
    case False
    then obtain c ds where c: "decimal n = c # ds" "c \<noteq> CHR ''0''" using decimal_first [of n] by blast
    with decimal_digits [of n] show ?thesis by (auto simp: integer_part_def)
  qed
  moreover have "fraction_part []" "exponent_part []" by (simp_all add: fraction_part_def exponent_part_def)
  ultimately show ?thesis unfolding number_text_def by (metis append_Nil append_Nil2 insertI1)
qed

lemma decimal_length: "n < 10 ^ Suc k \<Longrightarrow> length (decimal n) \<le> Suc k"
proof (induction k arbitrary: n)
  case 0
  then show ?case by (simp add: decimal.simps)
next
  case (Suc k)
  show ?case
  proof (cases "n < 10")
    case False
    then have "n div 10 < 10 ^ Suc k" using Suc.prems by (simp add: less_mult_imp_div_less)
    from Suc.IH [OF this] show ?thesis using False by (simp add: decimal.simps [of n])
  qed (simp add: decimal.simps)
qed

lemma tree_u64_decimal: "n < 2 ^ 64 \<Longrightarrow> tree_u64 (J_Primitive (decimal n)) = Some (of_nat n)"
proof -
  assume n: "n < 2 ^ 64"
  then have "n < 10 ^ Suc 19" by simp
  from decimal_length [OF this] n show ?thesis by (simp add: decimal_digits decimal_value_decimal)
qed

section \<open>Texts\<close>

text \<open>The text of a tree without white space.\<close>

fun compact :: "json \<Rightarrow> string"
  and compact_elements :: "json list \<Rightarrow> string"
  and compact_members :: "(string \<times> json) list \<Rightarrow> string" where
  "compact (J_String s) = quote # s @ [quote]"
| "compact (J_Primitive s) = s"
| "compact (J_Array js) = ''['' @ compact_elements js @ '']''"
| "compact (J_Object ms) = ''{'' @ compact_members ms @ ''}''"
| "compact_elements [] = []"
| "compact_elements (j # js) = compact j @ (if js = [] then [] else '','' @ compact_elements js)"
| "compact_members [] = []"
| "compact_members ((k, j) # ms) =
     quote # k @ quote # '':'' @ compact j @ (if ms = [] then [] else '','' @ compact_members ms)"

text \<open>What can be written at a depth.\<close>

fun fits :: "nat \<Rightarrow> json \<Rightarrow> bool" where
  "fits d (J_String s) \<longleftrightarrow> d \<le> 64 \<and> string_body s"
| "fits d (J_Primitive s) \<longleftrightarrow> d \<le> 64 \<and> plain_text s"
| "fits d (J_Array js) \<longleftrightarrow> d \<le> 64 \<and> list_all (fits (Suc d)) js"
| "fits d (J_Object ms) \<longleftrightarrow> d \<le> 64 \<and> list_all (\<lambda>m. string_body (fst m) \<and> fits (Suc d) (snd m)) ms"

lemma compact_spells:
  "fits d j \<Longrightarrow> spells d j (compact j)"
  "js \<noteq> [] \<Longrightarrow> list_all (fits d') js \<Longrightarrow> elements d' js (compact_elements js)"
  "ms \<noteq> [] \<Longrightarrow> list_all (\<lambda>m. string_body (fst m) \<and> fits d'' (snd m)) ms \<Longrightarrow> members d'' ms (compact_members ms)"
proof (induction j and js and ms arbitrary: d and d' and d'' rule: compact_compact_elements_compact_members.induct)
  case (1 s)
  then show ?case by (simp add: spells_with_elements_with_members_with.string)
next
  case (2 s)
  then show ?case by (auto simp: plain_text_def intro: spells_with_elements_with_members_with.number spells_with_elements_with_members_with.literal)
next
  case (3 js)
  then show ?case using no_elements [of d "[]"] array [of d "[]" js] by (cases "js = []") auto
next
  case (4 ms)
  then show ?case using no_members [of d "[]"] object [of d "[]" ms] by (cases "ms = []") auto
next
  case (6 j js)
  then show ?case
    using last_element [of scanned_escapes d' j "compact j" "[]"] more_elements [of scanned_escapes d' j "compact j" "[]" "[]" js "compact_elements js"]
    by (cases "js = []") auto
next
  case (8 k j ms)
  then show ?case
    using last_member [of scanned_escapes k "[]" "[]" d'' j "compact j" "[]"]
      more_members [of scanned_escapes k "[]" "[]" d'' j "compact j" "[]" "[]" ms "compact_members ms"]
    by (cases "ms = []") auto
qed simp_all

lemma compact_text: "fits 0 j \<Longrightarrow> accepted_text j (compact j)"
  unfolding accepted_text_unfold using compact_spells(1) [of 0 j] by (intro exI [of _ "[]"] exI [of _ "compact j"]) simp

section \<open>The tree of a catalog\<close>

definition number_json :: "nat \<Rightarrow> json" where
  "number_json n = J_Primitive (decimal n)"

definition step_json :: "domain_step \<Rightarrow> json" where
  "step_json s = J_Object [(''unit'', number_json (ds_unit_index s + 1)), (''command'', J_String ''execute''),
     (''timeout_ms'', number_json (unat (ds_timeout_ms s)))]"

definition sequence_json :: "domain_sequence \<Rightarrow> json" where
  "sequence_json q = J_Object [(''name'', J_String (dq_name q)), (''steps'', J_Array (map step_json (dq_steps q)))]"

definition scenario_json :: "domain_scenario \<Rightarrow> json" where
  "scenario_json c = J_Object [(''id'', number_json (unat (dc_id c))), (''name'', J_String (dc_name c)),
     (''sequences'', J_Array (map sequence_json (dc_sequences c)))]"

definition entry_json :: "domain_workflow_entry \<Rightarrow> json" where
  "entry_json e = J_Object [(''feature'', number_json (unat (we_feature e))), (''condition'', number_json (unat (we_condition e))),
     (''scenario'', scenario_json (we_scenario e))]"

definition catalog_json :: "domain_workflow_catalog \<Rightarrow> json" where
  "catalog_json k = J_Object [(''schema_version'', number_json 1), (''workflows'', J_Array (map entry_json (wc_entries k)))]"

text \<open>
  A name is written as it is, so it holds no quote, no backslash and no control character; and the loader
  mistakes a name that equals a key of its object for that key.
\<close>

definition name_ok :: "string list \<Rightarrow> string \<Rightarrow> bool" where
  "name_ok keys s \<longleftrightarrow> s \<noteq> [] \<and> list_all (\<lambda>c. 32 \<le> code c \<and> c \<noteq> quote \<and> c \<noteq> backslash) s \<and> s \<notin> set keys"

definition names_ok :: "domain_scenario \<Rightarrow> bool" where
  "names_ok c \<longleftrightarrow> name_ok [''id'', ''name'', ''sequences''] (dc_name c) \<and>
     list_all (\<lambda>q. name_ok [''name'', ''steps''] (dq_name q)) (dc_sequences c)"

lemma name_body: "list_all (\<lambda>c. 32 \<le> code c \<and> c \<noteq> quote \<and> c \<noteq> backslash) s \<Longrightarrow> string_body s"
  by (induction s) (auto intro: body_with.intros)

lemma name_okD: "name_ok keys s \<Longrightarrow> string_body s \<and> tree_string (J_String s) = Some s"
  using name_body [of s] by (auto simp: name_ok_def list_all_iff)

lemma key_body [simp]: "list_all (\<lambda>c. 32 \<le> code c \<and> c \<noteq> quote \<and> c \<noteq> backslash) s \<Longrightarrow> string_body s"
  by (rule name_body)

lemma number_fits: "d \<le> 64 \<Longrightarrow> fits d (number_json n)"
  by (simp add: number_json_def plain_text_def decimal_number)

lemma step_fits: "d \<le> 63 \<Longrightarrow> fits d (step_json s)"
  by (simp add: step_json_def number_fits)

lemma sequence_fits: "d \<le> 61 \<Longrightarrow> name_ok keys (dq_name q) \<Longrightarrow> fits d (sequence_json q)"
  by (auto simp: sequence_json_def step_fits list_all_iff dest: name_okD)

lemma scenario_fits: "d \<le> 59 \<Longrightarrow> names_ok c \<Longrightarrow> fits d (scenario_json c)"
  by (auto simp: scenario_json_def names_ok_def number_fits list_all_iff dest: name_okD intro: sequence_fits)

lemma catalog_fits: "list_all (\<lambda>e. names_ok (we_scenario e)) (wc_entries k) \<Longrightarrow> fits 0 (catalog_json k)"
  by (auto simp: catalog_json_def entry_json_def number_fits scenario_fits list_all_iff)

section \<open>Reading the tree of a catalog\<close>

text \<open>The children of an object with two and with three members, one by one.\<close>

lemma scan_find_two:
  "scan_find (J_Object [(k1, v1), (k2, v2)]) key =
     (case filter (\<lambda>i. [J_String k1, v1, J_String k2, v2] ! i = J_String key) [0, 1, 2] of
        [i] \<Rightarrow> Some ([J_String k1, v1, J_String k2, v2] ! (i + 1)) | _ \<Rightarrow> None)"
  by (simp add: scan_find_def Let_def numeral_eq_Suc)

lemma scan_find_three:
  "scan_find (J_Object [(k1, v1), (k2, v2), (k3, v3)]) key =
     (case filter (\<lambda>i. [J_String k1, v1, J_String k2, v2, J_String k3, v3] ! i = J_String key) [0, 1, 2, 3, 4] of
        [i] \<Rightarrow> Some ([J_String k1, v1, J_String k2, v2, J_String k3, v3] ! (i + 1)) | _ \<Rightarrow> None)"
  by (simp add: scan_find_def Let_def numeral_eq_Suc)

lemma number_json_neq [simp]: "number_json n \<noteq> J_String s" "J_String s \<noteq> number_json n"
  by (simp_all add: number_json_def)

lemma tree_u64_number: "tree_u64 (number_json (unat (w :: u64))) = Some w"
proof -
  have "unat w < 2 ^ LENGTH(64)" by (rule unsigned_less)
  then show ?thesis by (simp add: number_json_def tree_u64_decimal del: tree_u64.simps)
qed

lemma step_finds:
  "scan_find (step_json s) ''unit'' = Some (number_json (ds_unit_index s + 1))"
  "scan_find (step_json s) ''command'' = Some (J_String ''execute'')"
  "scan_find (step_json s) ''timeout_ms'' = Some (number_json (unat (ds_timeout_ms s)))"
  by (simp_all add: step_json_def scan_find_three)

lemma sequence_finds:
  assumes "name_ok [''name'', ''steps''] (dq_name q)"
  shows "scan_find (sequence_json q) ''name'' = Some (J_String (dq_name q))"
    "scan_find (sequence_json q) ''steps'' = Some (J_Array (map step_json (dq_steps q)))"
  using assms by (simp_all add: sequence_json_def scan_find_two name_ok_def)

lemma scenario_finds:
  assumes "name_ok [''id'', ''name'', ''sequences''] (dc_name c)"
  shows "scan_find (scenario_json c) ''id'' = Some (number_json (unat (dc_id c)))"
    "scan_find (scenario_json c) ''name'' = Some (J_String (dc_name c))"
    "scan_find (scenario_json c) ''sequences'' = Some (J_Array (map sequence_json (dc_sequences c)))"
  using assms by (simp_all add: scenario_json_def scan_find_three name_ok_def)

lemma scenario_json_neq [simp]: "scenario_json c \<noteq> J_String s"
  by (simp add: scenario_json_def)

lemma entry_finds:
  "scan_find (entry_json e) ''feature'' = Some (number_json (unat (we_feature e)))"
  "scan_find (entry_json e) ''condition'' = Some (number_json (unat (we_condition e)))"
  "scan_find (entry_json e) ''scenario'' = Some (scenario_json (we_scenario e))"
  by (simp_all add: entry_json_def scan_find_three)

lemma catalog_finds:
  "scan_find (catalog_json k) ''schema_version'' = Some (number_json 1)"
  "scan_find (catalog_json k) ''workflows'' = Some (J_Array (map entry_json (wc_entries k)))"
  by (simp_all add: catalog_json_def scan_find_two)

lemma find_u32_number:
  assumes "scan_find j key = Some (number_json n)" "n < 2 ^ 32"
  shows "find_u32 scan_find j key = Some (of_nat n)"
proof -
  have "n < 2 ^ 64" using assms(2) by simp
  then have u: "find_u64 scan_find j key = Some (of_nat n)" using assms(1) by (simp add: find_u64_def number_json_def tree_u64_decimal del: tree_u64.simps)
  have n: "unat (of_nat n :: u64) = n" "unat (of_nat n :: u32) = n"
    using assms(2) by (simp_all add: unsigned_of_nat take_bit_nat_eq_self)
  have "unat (ucast (of_nat n :: u64) :: u32) = n"
    using assms(2) by (simp add: unsigned_ucast_eq n(1) take_bit_nat_eq_self)
  then have cast: "ucast (of_nat n :: u64) = (of_nat n :: u32)" unfolding word_unat_eq_iff n(2) .
  have "unat (ucast uint32_max :: u64) = 2 ^ 32 - 1"
    by (simp add: unsigned_ucast_eq take_bit_nat_eq_self)
  then have "(of_nat n :: u64) \<le> ucast uint32_max" using assms(2) n(1) by (simp add: word_le_nat_alt)
  then show ?thesis by (simp add: find_u32_def u cast)
qed

lemma those_map: "(\<And>x. x \<in> set xs \<Longrightarrow> f (g x) = Some x) \<Longrightarrow> those (map f (map g xs)) = Some xs"
  by (induction xs) auto

section \<open>Round trip\<close>

lemma find_u32_word:
  "scan_find j key = Some (number_json (unat (w :: u32))) \<Longrightarrow> find_u32 scan_find j key = Some w"
proof -
  assume a: "scan_find j key = Some (number_json (unat w))"
  have "unat w < 2 ^ LENGTH(32)" by (rule unsigned_less)
  with find_u32_number [OF a] show ?thesis by simp
qed

lemma read_step_json:
  assumes "step_ok unit_count s" "ds_timeout_ms s \<noteq> 0" "unit_count < 2 ^ 32"
  shows "read_step scan_find unit_count (step_json s) = Some s"
proof -
  have i: "ds_unit_index s + 1 < 2 ^ 32" using assms(1,3) by (simp add: step_ok_def)
  then have "unat (of_nat (ds_unit_index s + 1) :: u32) = ds_unit_index s + 1"
    by (simp only: unsigned_of_nat take_bit_nat_eq_self word_size) (simp add: take_bit_nat_eq_self)
  moreover from this have "(of_nat (ds_unit_index s + 1) :: u32) \<noteq> 0" by (metis add_is_0 one_neq_zero unsigned_0)
  ultimately show ?thesis
    using assms(1,2) find_u32_number [OF step_finds(1) i]
    by (simp add: read_step_def find_u64_def step_finds tree_u64_number step_ok_def del: of_nat_add of_nat_Suc)
qed

lemma read_sequence_json:
  assumes "sequence_ok unit_count q" "timeouts_set q" "unit_count < 2 ^ 32" "name_ok [''name'', ''steps''] (dq_name q)"
  shows "read_sequence scan_find unit_count (sequence_json q) = Some q"
proof -
  have "those (map (read_step scan_find unit_count) (map step_json (dq_steps q))) = Some (dq_steps q)"
    using assms(1-3) by (intro those_map read_step_json) (auto simp: sequence_ok_def timeouts_set_def list_all_iff)
  then show ?thesis
    using assms(1) name_okD [OF assms(4)]
    by (simp add: read_sequence_def find_string_def find_array_def sequence_finds [OF assms(4)] sequence_ok_def del: map_map)
qed

lemma read_scenario_json:
  assumes "scenario_ok unit_count c" "dc_id c \<noteq> 0" "list_all timeouts_set (dc_sequences c)" "names_ok c" "unit_count < 2 ^ 32"
  shows "read_scenario scan_find unit_count (scenario_json c) = Some c"
proof -
  have n: "name_ok [''id'', ''name'', ''sequences''] (dc_name c)" using assms(4) by (simp add: names_ok_def)
  have "those (map (read_sequence scan_find unit_count) (map sequence_json (dc_sequences c))) = Some (dc_sequences c)"
    using assms by (intro those_map read_sequence_json) (auto simp: scenario_ok_def names_ok_def list_all_iff)
  moreover have "total_steps (dc_sequences c) = dc_total_step_count c"
  proof -
    have "list_all (sequence_ok unit_count) qs \<Longrightarrow> total_steps qs = length (concat (map dq_steps qs))" for qs
      by (induction qs) (simp_all add: total_steps_def sequence_ok_def)
    with assms(1) show ?thesis by (simp add: scenario_ok_def all_steps_def)
  qed
  ultimately show ?thesis
    using assms(1,2) name_okD [OF n] find_u32_word [OF scenario_finds(1) [OF n]]
    by (simp add: read_scenario_def find_string_def find_array_def scenario_finds [OF n] scenario_ok_def del: map_map)
qed

lemma read_catalog_json:
  assumes "loaded_ok unit_count k" "list_all (\<lambda>e. names_ok (we_scenario e)) (wc_entries k)" "unit_count < 2 ^ 32"
  shows "read_catalog scan_find unit_count (catalog_json k) = Some k"
proof -
  have "those (map (read_entry scan_find unit_count) (map entry_json (wc_entries k))) = Some (wc_entries k)"
  proof (rule those_map)
    fix e assume e: "e \<in> set (wc_entries k)"
    then have ok: "entry_ok unit_count e" "names_ok (we_scenario e)" using assms(1,2) by (simp_all add: loaded_ok_def list_all_iff)
    then have "read_scenario scan_find unit_count (scenario_json (we_scenario e)) = Some (we_scenario e)"
      using assms(3) by (intro read_scenario_json) (simp_all add: entry_ok_def)
    then show "read_entry scan_find unit_count (entry_json e) = Some e"
      using ok(1) find_u32_word [OF entry_finds(1)] find_u32_word [OF entry_finds(2)]
      by (simp add: read_entry_def entry_finds(3) entry_ok_def)
  qed
  moreover have "find_u64 scan_find (catalog_json k) ''schema_version'' = Some 1"
    using tree_u64_number [of 1] by (simp add: find_u64_def catalog_finds(1))
  ultimately show ?thesis
    using assms(1) by (simp add: read_catalog_def find_array_def catalog_finds(2) loaded_ok_def del: map_map)
qed

text \<open>
  Property C10. A catalog written as a workflow file, its counts implied and numbers in decimal, loads back as
  the same catalog: every catalog the loader could have built, whose names need no escapes and differ from the
  keys of their objects, whose file has at most 2^20 bytes, with fewer than 2^32 units and memory for it.
\<close>

theorem written_catalog_loads_back:
  assumes "loaded_ok unit_count k" "list_all (\<lambda>e. names_ok (we_scenario e)) (wc_entries k)" "0 < unit_count" "unit_count < 2 ^ 32"
    and "file_holds open_file path (compact (catalog_json k))" "length (compact (catalog_json k)) \<le> 1024 * 1024"
    and "path \<noteq> ''''" "\<forall>i. hp_outcome h i"
  shows "fst (domain_workflow_catalog_load_json_file open_file (Some path) unit_count h) = (DOMAIN_WORKFLOW_LOAD_OK, Some k)"
proof -
  have "compact (catalog_json k) \<noteq> []" by (simp add: catalog_json_def)
  from load_tree(1) [OF assms(5) this assms(6-7) assms(3) assms(8) compact_text [OF catalog_fits [OF assms(2)]]]
  show ?thesis by (simp add: read_catalog_json [OF assms(1,2,4)])
qed

definition built_in_catalog :: domain_workflow_catalog where
  "built_in_catalog = \<lparr>wc_entries =
     [\<lparr>we_feature = 1, we_condition = 1, we_scenario = feature_a_standard\<rparr>,
      \<lparr>we_feature = 1, we_condition = 2, we_scenario = feature_a_reverse\<rparr>], wc_entry_count = 2\<rparr>"

lemmas built_in_defs = built_in_catalog_def feature_a_standard_def feature_a_reverse_def feature_a_standard_sequences_def
  feature_a_reverse_sequences_def feature_a_standard_first_steps_def feature_a_standard_second_steps_def
  feature_a_reverse_first_steps_def feature_a_reverse_second_steps_def sample_step_def DOMAIN_SAMPLE_STEP_TIMEOUT_MS_def

lemma built_in_loaded: "loaded_ok 10 built_in_catalog"
  using built_in_ok [of 10 1 feature_a_standard] built_in_ok [of 10 2 feature_a_reverse]
  by (simp add: loaded_ok_def entry_ok_def unique_entries_def timeouts_set_def domain_workflow_feature_a_def built_in_defs)

lemma built_in_size: "length (compact (catalog_json built_in_catalog)) \<le> 1024 * 1024"
  by (simp add: built_in_defs catalog_json_def entry_json_def scenario_json_def sequence_json_def step_json_def
      number_json_def decimal.simps)

theorem written_catalog_loads_back_witness:
  "fst (domain_workflow_catalog_load_json_file
      (\<lambda>_. Some \<lparr>jf_seek_end = True, jf_size = int (length (compact (catalog_json built_in_catalog))), jf_seek_start = True,
        jf_read = compact (catalog_json built_in_catalog)\<rparr>)
      (Some ''workflow.json'') 10 \<lparr>hp_outcome = \<lambda>_. True, hp_requests = 0, hp_live = 0\<rparr>) =
    (DOMAIN_WORKFLOW_LOAD_OK, Some built_in_catalog)"
proof (rule written_catalog_loads_back)
  show "loaded_ok 10 built_in_catalog" by (rule built_in_loaded)
  show "list_all (\<lambda>e. names_ok (we_scenario e)) (wc_entries built_in_catalog)" by code_simp
  show "length (compact (catalog_json built_in_catalog)) \<le> 1024 * 1024" by (rule built_in_size)
qed (simp_all add: file_holds_def)

text \<open>A name that equals a key leaves the object without that member: the loader refuses such a file.\<close>

lemma name_equal_to_key_refused:
  assumes "dq_name q = ''steps''" "dc_name c = ''sequences''"
  shows "read_sequence scan_find unit_count (sequence_json q) = None" "read_scenario scan_find unit_count (scenario_json c) = None"
proof -
  have "scan_find (sequence_json q) ''steps'' = None" using assms(1) by (simp add: sequence_json_def scan_find_two)
  then show "read_sequence scan_find unit_count (sequence_json q) = None"
    by (simp add: read_sequence_def find_array_def split: option.splits)
  have "scan_find (scenario_json c) ''sequences'' = None" using assms(2) by (simp add: scenario_json_def scan_find_three)
  then show "read_scenario scan_find unit_count (scenario_json c) = None"
    by (simp add: read_scenario_def find_array_def split: option.splits)
qed

end
