(* ===== verification/Spec2Isabelle.thy ===== *)
theory Spec2Isabelle
  imports Event_Queue Event_Dispatcher Event_Timer Event_Contract Event_Metrics Event_Trace
    Event_Executor Event_State_Machine Event_Publisher Event_Buffer Byte_Codec Time_Core Time_Rfc3339 Time_Service Platform_Time Retry_Id
    Event_Trace_Log Unit_Mock Thread_Pool Memory_Buffer_Adapter Domain_System Workflow_Printing
begin

text \<open>
  Verification of the C foundation library (\<open>src/foundation\<close>), the time service and its Linux platform
  adapter (\<open>src/service/time\<close>, \<open>src/platform/linux\<close>), and the layered workflow application on top of
  it (\<open>src/src\<close>: domain service, domain event publisher, workflow loader and mock units).

  The program. The foundation is a set of passive C components over storage the caller provides: an event
  queue, a dispatcher, timers, payload contracts, metrics, traces, an executor that runs them as one step,
  a table-driven state machine, a publisher that copies payloads, an owning buffer queue, byte cursors,
  UTC time and RFC 3339 text, retry, ids and a logger; and a thread pool over pthreads. The application
  runs workflows, built in or loaded from a JSON file: the domain service has three runners (feature,
  scenario, sequence), each a state machine, that talk to each other and to the units through the
  publisher; a unit is a worker thread that executes one command at a time.

  Which theory models what. \<open>Foundation_Prelude\<close> holds the shared types (\<open>u8\<close>, \<open>u32\<close>, \<open>u64\<close>, \<open>ptr\<close>), the
  wrapping arithmetic of \<open>size_t\<close> and generic lemmas; \<open>Bounded_Fifo\<close> is the contract that every ring
  and queue is an interpretation of. \<open>Event_Types\<close> to \<open>Event_Buffer\<close> model the files
  \<open>utility_event_*.c\<close> of the same names, \<open>Event_Trace_Log\<close> the adapter that sends traces to the logger;
  \<open>Logger\<close> models \<open>utility_logger.c\<close> and \<open>utility_log_console.c\<close>, \<open>Logger_Refinement\<close> its proof;
  \<open>Byte_Codec\<close> the byte reader and writer; \<open>C_Text\<close> what is used of \<open>snprintf\<close>; \<open>Time_Core\<close> and
  \<open>Time_Rfc3339\<close> \<open>utility_time.c\<close> and \<open>utility_time_rfc3339.c\<close>; \<open>Time_Service\<close>, \<open>Platform_Time\<close> the
  service and the clock adapter; \<open>Retry_Id\<close> \<open>utility_retry.c\<close> and \<open>utility_id.c\<close>; \<open>Unit_Mock\<close>
  \<open>unit_mock.c\<close>; \<open>Thread_Pool\<close> \<open>utility_thread_pool.c\<close>; \<open>Memory_Buffer_Adapter\<close>
  \<open>memory_buffer_event_adapter.c\<close>; \<open>Domain_Workflow\<close>, \<open>Domain_Events\<close>, \<open>Domain_Service\<close> the files
  \<open>domain_workflow.c\<close>, \<open>domain_event_publisher.c\<close>, \<open>domain_service.c\<close>; \<open>Domain_Safety\<close> and \<open>Domain_System\<close> the
  proofs about the running service and about its creation and destruction. \<open>C_Heap\<close> is the heap of the
  application, whose requests can fail one by one. \<open>Json_Reader\<close> models the JSON half of
  \<open>domain_workflow_loader.c\<close> (validator, tokenizer, lookups), \<open>Workflow_Loader\<close> its catalog half;
  \<open>Json_Grammar\<close>, \<open>Json_Layout\<close>, \<open>Workflow_Reading\<close> and \<open>Workflow_Printing\<close> specify it: JSON and the language
  the validator accepts, what the token array holds, the catalog a JSON tree describes, and the text of a catalog.

  How code is rendered. A struct is a record with the fields of the struct, a result enumeration a
  datatype, a function one definition with the code's name, in the order of the code. A pointer to a
  struct that the code tests against NULL is an option and comes back updated; an opaque pointer (a
  context, a payload, a code address) is a number, 0 is NULL; storage given by the caller is a list; an
  out parameter is an optional cell; a block of the heap is counted when it is requested and freed.
  \<open>size_t\<close> is \<open>nat\<close> with \<open>size_add\<close> and \<open>size_sub\<close>, which wrap at
  \<open>2 ^ 64\<close>; \<open>uint32_t\<close>, \<open>uint64_t\<close>, \<open>uint8_t\<close> are words; \<open>int64_t\<close> is \<open>int\<close> with overflow as
  \<open>None\<close>. Loops are structural recursion over the storage, or \<open>function\<close> with a measure where an index
  runs. The loader reads files of at most 2^20 bytes, so its positions are plain \<open>nat\<close>; its recursion ends at
  64 levels of nesting. A callback the library calls is a parameter of the model, run on an arbitrary world; handlers of
  the publisher are programs over its operations, so that they can publish from inside a dispatch.

  What is shown. Each component has an invariant that every operation keeps and a specification that it
  refines: the queues a bounded list, the dispatcher an ordered set of registrations, the timers a finite
  map of deadlines, the executor the composition of these, the publisher a list of messages with their
  bytes, the state machine an automaton, the logger the newest records, the time service an offset of a
  monotonic clock. Codecs and conversions have round trips, arithmetic its exact result or the reported
  overflow, parsers the exact language they accept. The unit and the thread pool are transition systems over
  all interleavings of their clients and workers: no accepted job or request runs twice or is lost, unless a
  pool is shut down at once; a job wakes a worker, a shutdown ends. The service completes a workflow only after all its steps; it and the loader return every
  block of memory on every path. The loader hands out checked catalogs only, and a catalog that is written
  as a file loads back. It reads what the members of the JSON tree of its file say, with two exceptions that the
  properties name: a NUL byte after a backslash passes as an escape, so that what is accepted is JSON only for
  files without NUL; and a member's value that equals one of the loader's keys is taken for the key. Event buffers
  over memory buffers carry the bytes they were made from and leave no buffer behind. No fuel bounds any model.

  Not modelled: the memory buffer itself, which is written in Rust and only called through its C header
  (its four operations the adapter calls are a parameter, what the header promises of them a hypothesis); samples, examples and fuzz harnesses, which only
  drive the libraries. Log output inside the application is left out, it has no effect on its state. Calls of
  the C library and of pthreads answer what a parameter says.
\<close>

end
